(* ===== verification/Prelude.thy ===== *)
theory Prelude
  imports Main "HOL-Library.Word"
begin

section \<open>Prelude: shared types, collections and lemmas\<close>

text \<open>
  The types and generic facts the component theories share: fixed-width machine integers,
  the errno values the modelled code stores, big-endian byte extraction, list surgery (swap,
  prefix splitting), and the named theorem collections the components fill.
\<close>

unbundle bit_operations_syntax

subsection \<open>Machine integers\<close>

type_synonym byte = "8 word"
type_synonym u8 = "8 word"
type_synonym u16 = "16 word"
type_synonym u32 = "32 word"
type_synonym u64 = "64 word"

abbreviation UINT64_MAX :: nat where
  "UINT64_MAX \<equiv> 2 ^ 64 - 1"

subsection \<open>errno values\<close>

text \<open>The errno values stored by the modelled operations, under their C names.\<close>

datatype errno =
    EAGAIN | EINVAL | EFAULT | EMSGSIZE | EPROTO | ENOMEM | ECONNABORTED | ENOTCONN
  | ECONNREFUSED | EHOSTUNREACH | EFSM | ECANCELED | ENOTSUP | EPROTOTYPE

subsection \<open>Theorem collections\<close>

named_theorems wire_simps \<open>reading back what the wire helpers wrote\<close>
named_theorems length_simps \<open>lengths of encoded byte strings\<close>
named_theorems inv_intros \<open>preservation of component invariants\<close>

subsection \<open>Bytes of a word\<close>

text \<open>The C idiom \<open>static_cast<unsigned char> ((value >> n) & 0xff)\<close>.\<close>

definition byte_of :: "nat \<Rightarrow> 'a::len word \<Rightarrow> byte" where
  "byte_of n v = ucast (drop_bit n v AND 0xff)"

lemma bit_0xff: "bit (0xff :: 'a::len word) k \<longleftrightarrow> k < 8 \<and> k < LENGTH('a)"
proof -
  have "(0xff :: 'a word) = mask 8"
    by (simp add: mask_eq_exp_minus_1)
  then show ?thesis
    by (simp only: bit_mask_iff) (auto simp: min_def)
qed

lemma bit_byte_of:
  "bit (byte_of n v) k \<longleftrightarrow> k < 8 \<and> bit (v :: 'a::len word) (n + k)"
proof -
  have "bit v (n + k) \<Longrightarrow> k < LENGTH('a)"
    using bit_imp_le_length [of v "n + k"] by simp
  then show ?thesis
    unfolding byte_of_def bit_unsigned_iff bit_and_iff bit_0xff bit_drop_bit_eq
    by auto
qed

text \<open>The C idiom \<open>static_cast<uintN_t> (b) << n\<close>.\<close>

definition byte_at :: "nat \<Rightarrow> byte \<Rightarrow> 'a::len word" where
  "byte_at n b = push_bit n (ucast b)"

lemma bit_byte_at:
  "bit (byte_at n b :: 'a::len word) k \<longleftrightarrow> n \<le> k \<and> k < LENGTH('a) \<and> bit b (k - n)"
  by (auto simp: byte_at_def bit_simps)

lemma bit_byte_at_byte_of:
  "bit (byte_at n (byte_of n v) :: 'a::len word) k \<longleftrightarrow>
     n \<le> k \<and> k < n + 8 \<and> bit (v :: 'a word) k"
  by (auto simp: bit_byte_at bit_byte_of dest: bit_imp_le_length)

lemma bit_byte_of_byte_at:
  "k < 8 \<Longrightarrow> n + k < LENGTH('a) \<Longrightarrow>
     bit (byte_at m b :: 'a::len word) (n + k) \<longleftrightarrow> m \<le> n + k \<and> bit b (n + k - m)"
  by (simp add: bit_byte_at)

lemma bit_byte_bound: "bit (b :: byte) k \<Longrightarrow> k < 8"
  using bit_imp_le_length by fastforce

lemma unat_u32_le: "unat (w :: u32) \<le> 0xffffffff"
  using unsigned_less [where ?'a = nat and w = w] by simp

lemma unat_u32_of_nat: "n \<le> 0xffffffff \<Longrightarrow> unat (word_of_nat n :: u32) = n"
  by (simp add: unsigned_of_nat take_bit_nat_eq_self)

lemma unat_u8_of_nat: "n \<le> 255 \<Longrightarrow> unat (word_of_nat n :: byte) = n"
  by (simp add: unsigned_of_nat take_bit_nat_eq_self)

subsection \<open>Lists\<close>

definition swap_list :: "'a list \<Rightarrow> nat \<Rightarrow> nat \<Rightarrow> 'a list" where
  "swap_list xs i j = xs[i := xs ! j, j := xs ! i]"

lemma length_swap_list [simp]: "length (swap_list xs i j) = length xs"
  by (simp add: swap_list_def)

lemma nth_swap_list:
  "i < length xs \<Longrightarrow> j < length xs \<Longrightarrow> k < length xs \<Longrightarrow>
     swap_list xs i j ! k = (if k = i then xs ! j else if k = j then xs ! i else xs ! k)"
  by (auto simp: swap_list_def nth_list_update)

lemma take_drop_append [simp]: "take n xs @ drop n xs @ ys = xs @ ys"
  by (metis append_assoc append_take_drop_id)

lemma list_len2: "length bs = 2 \<longleftrightarrow> (\<exists>a b. bs = [a, b])"
  by (auto simp: numeral_eq_Suc length_Suc_conv)

lemma list_len4: "length bs = 4 \<longleftrightarrow> (\<exists>a b c d. bs = [a, b, c, d])"
  by (auto simp: numeral_eq_Suc length_Suc_conv)

lemma list_len8:
  "length bs = 8 \<longleftrightarrow> (\<exists>a b c d e f g h. bs = [a, b, c, d, e, f, g, h])"
  by (auto simp: numeral_eq_Suc length_Suc_conv)

subsection \<open>Sequences of calls\<close>

text \<open>A component is run by a list of calls; a call that fails is \<open>None\<close>, its specification always answers.\<close>

fun run_calls :: "('c \<Rightarrow> 't \<Rightarrow> ('o \<times> 't) option) \<Rightarrow> 'c list \<Rightarrow> 't \<Rightarrow> ('o list \<times> 't) option" where
  "run_calls f [] t = Some ([], t)"
| "run_calls f (c # cs) t =
     Option.bind (f c t) (\<lambda>(x, t). map_option (\<lambda>(xs, t). (x # xs, t)) (run_calls f cs t))"

fun run_spec :: "('c \<Rightarrow> 's \<Rightarrow> 'o \<times> 's) \<Rightarrow> 'c list \<Rightarrow> 's \<Rightarrow> 'o list \<times> 's" where
  "run_spec f [] s = ([], s)"
| "run_spec f (c # cs) s = (case f c s of (x, s) \<Rightarrow> case run_spec f cs s of (xs, s) \<Rightarrow> (x # xs, s))"

text \<open>A simulation between single calls is one between runs.\<close>

lemma run_simulates:
  assumes "\<And>c t s. I t s \<Longrightarrow> \<exists>t'. f c t = Some (fst (g c s), t') \<and> I t' (snd (g c s))" "I t s"
  shows "\<exists>t'. run_calls f cs t = Some (fst (run_spec g cs s), t') \<and> I t' (snd (run_spec g cs s))"
  using assms(2)
proof (induction cs arbitrary: t s)
  case (Cons c cs)
  obtain t1 where t1: "f c t = Some (fst (g c s), t1)" "I t1 (snd (g c s))" using assms(1) [OF Cons.prems] by blast
  from Cons.IH [OF t1(2)] obtain t' where
      "run_calls f cs t1 = Some (fst (run_spec g cs (snd (g c s))), t')" "I t' (snd (run_spec g cs (snd (g c s))))"
    by blast
  with t1(1) show ?case by (cases "g c s") (auto split: prod.split)
qed simp

end
