(* ===== verification/Wire.thy ===== *)
theory Wire
  imports Prelude
begin

section \<open>Wire: integers in network byte order\<close>

text \<open>
  Models \<open>core/src/runtime/protocol/wire.hpp\<close>. A \<open>put\<close> function returns the bytes it
  stores at the buffer pointer, a \<open>get\<close> function reads them from the bytes that start at the
  pointer. The locale \<open>be_codec\<close> is the contract the frame codecs rely on; it is interpreted
  below for the 16, 32 and 64 bit helpers.
\<close>

definition put_uint8 :: "u8 \<Rightarrow> byte list" where
  "put_uint8 v = [v]"

definition get_uint8 :: "byte list \<Rightarrow> u8" where
  "get_uint8 b = b ! 0"

definition put_uint16 :: "u16 \<Rightarrow> byte list" where
  "put_uint16 v = [byte_of 8 v, byte_of 0 v]"

definition get_uint16 :: "byte list \<Rightarrow> u16" where
  "get_uint16 b = byte_at 8 (b ! 0) OR byte_at 0 (b ! 1)"

definition put_uint32 :: "u32 \<Rightarrow> byte list" where
  "put_uint32 v = [byte_of 24 v, byte_of 16 v, byte_of 8 v, byte_of 0 v]"

definition get_uint32 :: "byte list \<Rightarrow> u32" where
  "get_uint32 b =
     byte_at 24 (b ! 0) OR byte_at 16 (b ! 1) OR byte_at 8 (b ! 2) OR byte_at 0 (b ! 3)"

definition put_uint64 :: "u64 \<Rightarrow> byte list" where
  "put_uint64 v =
     [byte_of 56 v, byte_of 48 v, byte_of 40 v, byte_of 32 v,
      byte_of 24 v, byte_of 16 v, byte_of 8 v, byte_of 0 v]"

definition get_uint64 :: "byte list \<Rightarrow> u64" where
  "get_uint64 b =
     byte_at 56 (b ! 0) OR byte_at 48 (b ! 1) OR byte_at 40 (b ! 2) OR byte_at 32 (b ! 3)
     OR byte_at 24 (b ! 4) OR byte_at 16 (b ! 5) OR byte_at 8 (b ! 6) OR byte_at 0 (b ! 7)"

subsection \<open>The contract of a fixed-width codec\<close>

locale be_codec =
  fixes put :: "'v \<Rightarrow> byte list"
    and get :: "byte list \<Rightarrow> 'v"
    and width :: nat
  assumes length_put: "length (put v) = width"
    and get_put: "get (put v @ rest) = v"
    and put_get: "length bs = width \<Longrightarrow> put (get bs) = bs"
begin

lemma get_put_exact: "get (put v) = v"
  using get_put [of v "[]"] by simp

lemma put_inj: "put v = put v' \<longleftrightarrow> v = v'"
  using get_put_exact by metis

lemma get_inj: "length bs = width \<Longrightarrow> length bs' = width \<Longrightarrow> get bs = get bs' \<Longrightarrow> bs = bs'"
  using put_get by metis

lemma get_drop_put: "get (drop (length pre) (pre @ put v @ rest)) = v"
  by (simp add: get_put)

lemma put_eq_iff: "length bs = width \<Longrightarrow> put v = bs \<longleftrightarrow> v = get bs"
  using put_get get_put_exact by metis

end

subsection \<open>The helpers satisfy it\<close>

lemma get_put_uint16: "get_uint16 (put_uint16 v @ rest) = v"
proof (rule bit_word_eqI)
  fix k assume "k < LENGTH(16)"
  then have "8 \<le> k \<and> k < 16 \<or> k < 8" by auto
  then show "bit (get_uint16 (put_uint16 v @ rest)) k = bit v k"
    by (auto simp: get_uint16_def put_uint16_def bit_or_iff bit_byte_at_byte_of)
qed

lemma get_put_uint32: "get_uint32 (put_uint32 v @ rest) = v"
proof (rule bit_word_eqI)
  fix k assume "k < LENGTH(32)"
  then have "24 \<le> k \<and> k < 32 \<or> 16 \<le> k \<and> k < 24 \<or> 8 \<le> k \<and> k < 16 \<or> k < 8" by auto
  then show "bit (get_uint32 (put_uint32 v @ rest)) k = bit v k"
    by (auto simp: get_uint32_def put_uint32_def bit_or_iff bit_byte_at_byte_of)
qed

lemma get_put_uint64: "get_uint64 (put_uint64 v @ rest) = v"
proof (rule bit_word_eqI)
  fix k assume "k < LENGTH(64)"
  then have "56 \<le> k \<and> k < 64 \<or> 48 \<le> k \<and> k < 56 \<or> 40 \<le> k \<and> k < 48 \<or> 32 \<le> k \<and> k < 40
    \<or> 24 \<le> k \<and> k < 32 \<or> 16 \<le> k \<and> k < 24 \<or> 8 \<le> k \<and> k < 16 \<or> k < 8" by auto
  then show "bit (get_uint64 (put_uint64 v @ rest)) k = bit v k"
    by (elim disjE) (simp_all add: get_uint64_def put_uint64_def bit_or_iff bit_byte_at_byte_of)
qed

lemma byte_of_or: "byte_of n (v OR w) = byte_of n v OR byte_of n w"
  by (rule bit_word_eqI) (auto simp: bit_byte_of bit_or_iff)

lemma byte_of_byte_at:
  assumes "n + 8 \<le> LENGTH('a)" "m + 8 \<le> n \<or> n + 8 \<le> m \<or> m = n"
  shows "byte_of n (byte_at m b :: 'a::len word) = (if m = n then b else 0)"
  using assms by (intro bit_word_eqI) (auto simp: bit_byte_of bit_byte_at dest: bit_byte_bound)

lemma put_get_uint16: "length bs = 2 \<Longrightarrow> put_uint16 (get_uint16 bs) = bs"
  by (auto simp: list_len2 put_uint16_def get_uint16_def byte_of_or byte_of_byte_at)

lemma put_get_uint32: "length bs = 4 \<Longrightarrow> put_uint32 (get_uint32 bs) = bs"
  by (auto simp: list_len4 put_uint32_def get_uint32_def byte_of_or byte_of_byte_at)

lemma put_get_uint64: "length bs = 8 \<Longrightarrow> put_uint64 (get_uint64 bs) = bs"
  by (auto simp: list_len8 put_uint64_def get_uint64_def byte_of_or byte_of_byte_at)

lemma length_put_uint16 [length_simps]: "length (put_uint16 v) = 2"
  by (simp add: put_uint16_def)

lemma length_put_uint32 [length_simps]: "length (put_uint32 v) = 4"
  by (simp add: put_uint32_def)

lemma length_put_uint64 [length_simps]: "length (put_uint64 v) = 8"
  by (simp add: put_uint64_def)

interpretation be16: be_codec put_uint16 get_uint16 2
  by unfold_locales (rule length_put_uint16 get_put_uint16 put_get_uint16 | assumption)+

interpretation be32: be_codec put_uint32 get_uint32 4
  by unfold_locales (rule length_put_uint32 get_put_uint32 put_get_uint32 | assumption)+

interpretation be64: be_codec put_uint64 get_uint64 8
  by unfold_locales (rule length_put_uint64 get_put_uint64 put_get_uint64 | assumption)+

end
