(* ===== verification/Zmp_Protocol.thy ===== *)
theory Zmp_Protocol
  imports Wire
begin

section \<open>ZMP protocol constants and predicates\<close>

text \<open>
  Models \<open>core/src/runtime/protocol/zmp_protocol.hpp\<close>: header layout constants, frame kinds,
  flag bits, control frame types, error codes and their reason strings. Constants are
  abbreviations, so that they unfold to their literals everywhere.
\<close>

abbreviation zmp_magic :: byte where "zmp_magic \<equiv> 0x5a"
abbreviation zmp_version :: byte where "zmp_version \<equiv> 0x01"

abbreviation zmp_header_size :: nat where "zmp_header_size \<equiv> 8"
abbreviation zmp_request_sequence_size :: nat where "zmp_request_sequence_size \<equiv> 8"
abbreviation zmp_request_reply_header_size :: nat where "zmp_request_reply_header_size \<equiv> 16"
abbreviation zmp_max_body_size :: nat where "zmp_max_body_size \<equiv> 0xffffffff"
abbreviation zmp_max_control_body_size :: nat where "zmp_max_control_body_size \<equiv> 4096"

abbreviation zmp_kind_data :: byte where "zmp_kind_data \<equiv> 0x00"
abbreviation zmp_kind_request :: byte where "zmp_kind_request \<equiv> 0x01"
abbreviation zmp_kind_reply :: byte where "zmp_kind_reply \<equiv> 0x02"
abbreviation zmp_kind_error_reply :: byte where "zmp_kind_error_reply \<equiv> 0x03"

definition zmp_is_request_reply_kind :: "byte \<Rightarrow> bool" where
  "zmp_is_request_reply_kind kind \<longleftrightarrow>
     kind = zmp_kind_request \<or> kind = zmp_kind_reply \<or> kind = zmp_kind_error_reply"

abbreviation zmp_flag_more :: byte where "zmp_flag_more \<equiv> 0x01"
abbreviation zmp_flag_control :: byte where "zmp_flag_control \<equiv> 0x02"
abbreviation zmp_flag_identity :: byte where "zmp_flag_identity \<equiv> 0x04"
abbreviation zmp_flag_subscribe :: byte where "zmp_flag_subscribe \<equiv> 0x08"
abbreviation zmp_flag_cancel :: byte where "zmp_flag_cancel \<equiv> 0x10"
abbreviation zmp_flag_mask :: byte where "zmp_flag_mask \<equiv> 0x1f"

definition zmp_special_frame_flags :: byte where
  "zmp_special_frame_flags =
     zmp_flag_control OR zmp_flag_identity OR zmp_flag_subscribe OR zmp_flag_cancel"

definition zmp_is_special_frame :: "byte \<Rightarrow> bool" where
  "zmp_is_special_frame flags \<longleftrightarrow> flags AND zmp_special_frame_flags \<noteq> 0"

abbreviation zmp_control_hello :: byte where "zmp_control_hello \<equiv> 0x01"
abbreviation zmp_control_ready :: byte where "zmp_control_ready \<equiv> 0x04"
abbreviation zmp_control_error :: byte where "zmp_control_error \<equiv> 0x05"

abbreviation zmp_error_invalid_magic :: u8 where "zmp_error_invalid_magic \<equiv> 0x01"
abbreviation zmp_error_version_mismatch :: u8 where "zmp_error_version_mismatch \<equiv> 0x02"
abbreviation zmp_error_flags_invalid :: u8 where "zmp_error_flags_invalid \<equiv> 0x03"
abbreviation zmp_error_body_too_large :: u8 where "zmp_error_body_too_large \<equiv> 0x04"
abbreviation zmp_error_socket_type_mismatch :: u8 where "zmp_error_socket_type_mismatch \<equiv> 0x05"
abbreviation zmp_error_handshake_timeout :: u8 where "zmp_error_handshake_timeout \<equiv> 0x06"
abbreviation zmp_error_kind_invalid :: u8 where "zmp_error_kind_invalid \<equiv> 0x07"
abbreviation zmp_error_sequence_invalid :: u8 where "zmp_error_sequence_invalid \<equiv> 0x08"
abbreviation zmp_error_multipart_invalid :: u8 where "zmp_error_multipart_invalid \<equiv> 0x09"
abbreviation zmp_error_frame_incomplete :: u8 where "zmp_error_frame_incomplete \<equiv> 0x0a"
abbreviation zmp_error_internal :: u8 where "zmp_error_internal \<equiv> 0x7f"

definition zmp_error_reason :: "u8 \<Rightarrow> string" where
  "zmp_error_reason code =
     (if code = zmp_error_invalid_magic then ''invalid magic''
      else if code = zmp_error_version_mismatch then ''version mismatch''
      else if code = zmp_error_flags_invalid then ''flags invalid''
      else if code = zmp_error_body_too_large then ''body too large''
      else if code = zmp_error_socket_type_mismatch then ''socket type mismatch''
      else if code = zmp_error_handshake_timeout then ''handshake timeout''
      else if code = zmp_error_kind_invalid then ''message kind invalid''
      else if code = zmp_error_sequence_invalid then ''request sequence invalid''
      else if code = zmp_error_multipart_invalid then ''multipart frame invalid''
      else if code = zmp_error_frame_incomplete then ''frame incomplete''
      else if code = zmp_error_internal then ''internal error''
      else ''unknown error'')"

lemma request_reply_kind_nonzero: "zmp_is_request_reply_kind k \<Longrightarrow> k \<noteq> 0"
  by (auto simp: zmp_is_request_reply_kind_def)

end
