(* ===== verification/Msg.thy ===== *)
theory Msg
  imports Prelude
begin

section \<open>Message headers: flags, command bodies, request-reply metadata\<close>

text \<open>
  Models the part of \<open>core/src/runtime/core/msg.hpp\<close> and \<open>msg.cpp\<close> that does not touch the
  payload storage: the fields common to every representation of \<open>msg_t\<close> (the \<open>base\<close> member
  of the union), the flag predicates, command bodies and the request-reply auxiliary. The record
  \<open>msg_base\<close> is extended twice: here by the payload bytes (what \<open>data ()\<close> and \<open>size ()\<close>
  return), which is the view the codecs and the sockets work on, and in \<open>Msg_Heap\<close> by the
  storage representation with its reference counts.
\<close>

subsection \<open>Data\<close>

text \<open>\<open>message_auxiliary_t\<close>: a long group is a pointer to a shared block, here its address.\<close>

datatype auxiliary =
    Aux_none
  | Aux_group_short "byte list"
  | Aux_group_long nat
  | Aux_request_reply byte u64

record msg_base =
  msg_flags :: byte
  msg_routing_id :: u32
  msg_conn_id :: u64
  msg_aux :: auxiliary

record msg = msg_base +
  msg_data :: "byte list"

abbreviation f_more :: byte where "f_more \<equiv> 1"
abbreviation f_command :: byte where "f_command \<equiv> 2"
abbreviation f_ping :: byte where "f_ping \<equiv> 4"
abbreviation f_pong :: byte where "f_pong \<equiv> 8"
abbreviation f_subscribe :: byte where "f_subscribe \<equiv> 12"
abbreviation f_cancel :: byte where "f_cancel \<equiv> 16"
abbreviation f_close_cmd :: byte where "f_close_cmd \<equiv> 20"
abbreviation f_credential :: byte where "f_credential \<equiv> 32"
abbreviation f_routing_id :: byte where "f_routing_id \<equiv> 64"
abbreviation f_shared :: byte where "f_shared \<equiv> 128"
abbreviation CMD_TYPE_MASK :: byte where "CMD_TYPE_MASK \<equiv> 0x1c"

abbreviation ping_cmd_name_size :: nat where "ping_cmd_name_size \<equiv> 5"
abbreviation cancel_cmd_name_size :: nat where "cancel_cmd_name_size \<equiv> 7"
abbreviation sub_cmd_name_size :: nat where "sub_cmd_name_size \<equiv> 10"

abbreviation msg_size :: "msg \<Rightarrow> nat" where "msg_size m \<equiv> length (msg_data m)"

subsection \<open>Operations\<close>

definition msg_init :: msg where
  "msg_init = \<lparr>msg_flags = 0, msg_routing_id = 0, msg_conn_id = 0, msg_aux = Aux_none, msg_data = []\<rparr>"

text \<open>\<open>init_size\<close> leaves the payload uninitialised and the decoder then fills it; a message built
  from given bytes is \<open>init_buffer\<close>.\<close>

definition msg_init_buffer :: "byte list \<Rightarrow> msg" where
  "msg_init_buffer bs = msg_init\<lparr>msg_data := bs\<rparr>"

definition set_flags :: "byte \<Rightarrow> 'a msg_base_scheme \<Rightarrow> 'a msg_base_scheme" where
  "set_flags f m = m\<lparr>msg_flags := msg_flags m OR f\<rparr>"

definition reset_flags :: "byte \<Rightarrow> 'a msg_base_scheme \<Rightarrow> 'a msg_base_scheme" where
  "reset_flags f m = m\<lparr>msg_flags := msg_flags m AND NOT f\<rparr>"

definition is_routing_id :: "'a msg_base_scheme \<Rightarrow> bool" where
  "is_routing_id m \<longleftrightarrow> msg_flags m AND f_routing_id = f_routing_id"

definition is_credential :: "'a msg_base_scheme \<Rightarrow> bool" where
  "is_credential m \<longleftrightarrow> msg_flags m AND f_credential = f_credential"

definition is_subscribe :: "'a msg_base_scheme \<Rightarrow> bool" where
  "is_subscribe m \<longleftrightarrow> msg_flags m AND CMD_TYPE_MASK = f_subscribe"

definition is_cancel :: "'a msg_base_scheme \<Rightarrow> bool" where
  "is_cancel m \<longleftrightarrow> msg_flags m AND CMD_TYPE_MASK = f_cancel"

definition is_ping :: "'a msg_base_scheme \<Rightarrow> bool" where
  "is_ping m \<longleftrightarrow> msg_flags m AND CMD_TYPE_MASK = f_ping"

definition is_pong :: "'a msg_base_scheme \<Rightarrow> bool" where
  "is_pong m \<longleftrightarrow> msg_flags m AND CMD_TYPE_MASK = f_pong"

definition is_close_cmd :: "'a msg_base_scheme \<Rightarrow> bool" where
  "is_close_cmd m \<longleftrightarrow> msg_flags m AND CMD_TYPE_MASK = f_close_cmd"

definition has_more :: "'a msg_base_scheme \<Rightarrow> bool" where
  "has_more m \<longleftrightarrow> msg_flags m AND f_more \<noteq> 0"

definition command_body_size_after_prefix :: "msg \<Rightarrow> nat \<Rightarrow> nat" where
  "command_body_size_after_prefix m prefix =
     (if prefix \<le> msg_size m then msg_size m - prefix else 0)"

text \<open>\<open>NULL\<close> is \<open>None\<close>; a pointer into the payload is the offset it points at.\<close>

definition command_body_after_prefix :: "msg \<Rightarrow> nat \<Rightarrow> nat option" where
  "command_body_after_prefix m prefix = (if msg_size m < prefix then None else Some prefix)"

definition command_body_size :: "msg \<Rightarrow> nat" where
  "command_body_size m =
     (if is_ping m \<or> is_pong m then command_body_size_after_prefix m ping_cmd_name_size
      else if msg_flags m AND f_command = 0 \<and> (is_subscribe m \<or> is_cancel m) then msg_size m
      else if is_subscribe m then command_body_size_after_prefix m sub_cmd_name_size
      else if is_cancel m then command_body_size_after_prefix m cancel_cmd_name_size
      else 0)"

definition command_body :: "msg \<Rightarrow> nat option" where
  "command_body m =
     (if is_ping m \<or> is_pong m then command_body_after_prefix m ping_cmd_name_size
      else if msg_flags m AND f_command = 0 \<and> (is_subscribe m \<or> is_cancel m) then Some 0
      else if is_subscribe m then command_body_after_prefix m sub_cmd_name_size
      else if is_cancel m then command_body_after_prefix m cancel_cmd_name_size
      else None)"

definition set_routing_id :: "u32 \<Rightarrow> 'a msg_base_scheme \<Rightarrow> errno + 'a msg_base_scheme" where
  "set_routing_id r m = (if r \<noteq> 0 then Inr (m\<lparr>msg_routing_id := r\<rparr>) else Inl EINVAL)"

definition reset_routing_id :: "'a msg_base_scheme \<Rightarrow> 'a msg_base_scheme" where
  "reset_routing_id m = m\<lparr>msg_routing_id := 0\<rparr>"

definition set_transport_connection_id :: "u64 \<Rightarrow> 'a msg_base_scheme \<Rightarrow> 'a msg_base_scheme" where
  "set_transport_connection_id c m = m\<lparr>msg_conn_id := c\<rparr>"

definition has_long_group :: "'a msg_base_scheme \<Rightarrow> bool" where
  "has_long_group m \<longleftrightarrow> (case msg_aux m of Aux_group_long _ \<Rightarrow> True | _ \<Rightarrow> False)"

text \<open>The stored short group is NUL terminated, so \<open>group[0] != 0\<close> is "non-empty and its first
  byte is not NUL".\<close>

definition set_request_reply_metadata ::
    "byte \<Rightarrow> u64 \<Rightarrow> 'a msg_base_scheme \<Rightarrow> errno + 'a msg_base_scheme" where
  "set_request_reply_metadata kind sequence m =
     (if kind = 0 \<or> sequence = 0 then Inl EINVAL
      else if (case msg_aux m of
                 Aux_group_long _ \<Rightarrow> True
               | Aux_group_short g \<Rightarrow> g \<noteq> [] \<and> hd g \<noteq> 0
               | _ \<Rightarrow> False)
      then Inl EINVAL
      else Inr (m\<lparr>msg_aux := Aux_request_reply kind sequence\<rparr>))"

definition get_request_reply_metadata :: "'a msg_base_scheme \<Rightarrow> bool \<times> byte \<times> u64" where
  "get_request_reply_metadata m =
     (case msg_aux m of Aux_request_reply k s \<Rightarrow> (True, k, s) | _ \<Rightarrow> (False, 0, 0))"

definition reset_request_reply_metadata :: "'a msg_base_scheme \<Rightarrow> 'a msg_base_scheme" where
  "reset_request_reply_metadata m =
     (case msg_aux m of Aux_request_reply _ _ \<Rightarrow> m\<lparr>msg_aux := Aux_none\<rparr> | _ \<Rightarrow> m)"

subsection \<open>Lemmas\<close>

lemma msg_init_sel [simp]:
  "msg_flags msg_init = 0" "msg_aux msg_init = Aux_none" "msg_data msg_init = []"
  "msg_routing_id msg_init = 0" "msg_conn_id msg_init = 0"
  by (simp_all add: msg_init_def)

lemma set_flags_sel [simp]:
  "msg_flags (set_flags f m) = msg_flags m OR f"
  "msg_aux (set_flags f m) = msg_aux m"
  "msg_data (set_flags f (m' :: msg)) = msg_data m'"
  "msg_routing_id (set_flags f m) = msg_routing_id m"
  "msg_conn_id (set_flags f m) = msg_conn_id m"
  by (simp_all add: set_flags_def)

lemma reset_set_flags:
  assumes "msg_flags m AND f = 0"
  shows "reset_flags f (set_flags f m) = m"
proof -
  have "(msg_flags m OR f) AND NOT f = msg_flags m"
  proof (rule bit_word_eqI)
    fix n assume n: "n < LENGTH(8)"
    have "\<not> (bit (msg_flags m) n \<and> bit f n)"
      using assms by (metis bit_and_iff bit_0_eq bot_apply bot_bool_def)
    with n show "bit ((msg_flags m OR f) AND NOT f) n = bit (msg_flags m) n"
      by (auto simp: bit_simps)
  qed
  then show ?thesis by (simp add: reset_flags_def set_flags_def)
qed

text \<open>A command body always lies inside the payload: the offset and the size that
  \<open>command_body\<close> and \<open>command_body_size\<close> report add up to the message size.\<close>

lemma command_body_within:
  "command_body m = Some off \<Longrightarrow> off + command_body_size m = msg_size m"
  by (auto simp: command_body_def command_body_size_def command_body_after_prefix_def
      command_body_size_after_prefix_def split: if_splits)

lemma command_body_None: "command_body m = None \<Longrightarrow> command_body_size m = 0"
  by (auto simp: command_body_def command_body_size_def command_body_after_prefix_def
      command_body_size_after_prefix_def split: if_splits)

lemma get_set_request_reply:
  "set_request_reply_metadata k s m = Inr m' \<Longrightarrow>
     get_request_reply_metadata m' = (True, k, s) \<and> msg_flags m' = msg_flags m"
  by (auto simp: set_request_reply_metadata_def get_request_reply_metadata_def split: if_splits)

lemma set_request_reply_metadata_fresh:
  "msg_aux m = Aux_none \<Longrightarrow> k \<noteq> 0 \<Longrightarrow> s \<noteq> 0 \<Longrightarrow>
     set_request_reply_metadata k s m = Inr (m\<lparr>msg_aux := Aux_request_reply k s\<rparr>)"
  by (simp add: set_request_reply_metadata_def)

end
