(* ===== verification/Zmp_Encoder.thy ===== *)
theory Zmp_Encoder
  imports Zmp_Protocol Msg
begin

section \<open>ZMP encoder\<close>

text \<open>
  Models \<open>protocol/zmp_data_header.hpp\<close> (\<open>build_zmp_data_header\<close>), \<open>protocol/encoder.hpp\<close>
  (\<open>encoder_base_t\<close>, the state machine that fills outgoing buffers) and
  \<open>protocol/zmp_encoder.cpp\<close> (its ZMP actions). \<open>_write_pos\<close> and \<open>_to_write\<close> are one
  component, \<open>enc_pend\<close>: the bytes still to be written in the current step.
\<close>

subsection \<open>The frame header\<close>

text \<open>The wire flags of a message, as the header helper computes them.\<close>

definition zmp_wire_flags :: "byte \<Rightarrow> byte" where
  "zmp_wire_flags mf =
     (if mf AND f_more \<noteq> 0 then zmp_flag_more else 0)
     OR (if mf AND f_command \<noteq> 0 then zmp_flag_control else 0)
     OR (if mf AND f_routing_id \<noteq> 0 then zmp_flag_identity else 0)
     OR (if mf AND CMD_TYPE_MASK = f_subscribe then zmp_flag_subscribe
         else if mf AND CMD_TYPE_MASK = f_cancel then zmp_flag_cancel else 0)"

text \<open>The buffer is given by its capacity, \<open>None\<close> for a null pointer. The result is errno, or the
  header bytes and whether the frame carries request-reply metadata.\<close>

definition build_zmp_data_header :: "msg \<Rightarrow> nat option \<Rightarrow> errno + byte list \<times> bool" where
  "build_zmp_data_header m buffer =
     (if msg_size m > 0xffffffff then Inl EMSGSIZE
      else let (has_request_reply, kind, sequence) = get_request_reply_metadata m in
      if has_request_reply \<and> (\<not> zmp_is_request_reply_kind kind \<or> sequence = 0) then Inl EINVAL
      else let required = (if has_request_reply then zmp_request_reply_header_size
                           else zmp_header_size) in
      if buffer = None \<or> the buffer < required then Inl EINVAL
      else let flags = zmp_wire_flags (msg_flags m) in
      if has_request_reply \<and> zmp_is_special_frame flags then Inl EINVAL
      else Inr ([zmp_magic, zmp_version, flags, kind]
                @ put_uint32 (word_of_nat (msg_size m))
                @ (if has_request_reply then put_uint64 sequence else []),
                has_request_reply))"

subsection \<open>The encoder state machine\<close>

datatype enc_step = Enc_header_ready | Enc_body_ready

record encoder =
  enc_pend :: "byte list"
  enc_next :: enc_step
  enc_new_msg_flag :: bool
  enc_buf_size :: nat
  enc_in_progress :: "msg option"
  enc_multipart :: bool

definition enc_next_step :: "byte list \<Rightarrow> enc_step \<Rightarrow> bool \<Rightarrow> encoder \<Rightarrow> encoder" where
  "enc_next_step write nxt new_msg e =
     e\<lparr>enc_pend := write, enc_next := nxt, enc_new_msg_flag := new_msg\<rparr>"

definition zmp_encoder_init :: "nat \<Rightarrow> encoder" where
  "zmp_encoder_init bufsize =
     enc_next_step [] Enc_header_ready True
       \<lparr>enc_pend = [], enc_next = Enc_header_ready, enc_new_msg_flag = False,
        enc_buf_size = bufsize, enc_in_progress = None, enc_multipart = False\<rparr>"

definition enc_special_flags :: byte where
  "enc_special_flags = f_command OR f_routing_id OR f_subscribe OR f_cancel"

text \<open>\<open>zmp_encoder_t::build_header\<close>: on success the header and the updated multipart state.\<close>

definition build_header :: "msg \<Rightarrow> nat option \<Rightarrow> bool \<Rightarrow> errno + byte list \<times> bool" where
  "build_header m buffer multipart =
     (let special_frame = msg_flags m AND enc_special_flags \<noteq> 0 in
      case build_zmp_data_header m buffer of
        Inl er \<Rightarrow> Inl er
      | Inr (hdr, has_request_reply) \<Rightarrow>
          if multipart \<and> (special_frame \<or> has_request_reply) then Inl EINVAL
          else Inr (hdr, if special_frame then multipart else msg_flags m AND f_more \<noteq> 0))"

definition enc_header_ready :: "encoder \<Rightarrow> encoder" where
  "enc_header_ready e =
     (case enc_in_progress e of
        None \<Rightarrow> e
      | Some m \<Rightarrow>
          (case build_header m (Some zmp_request_reply_header_size) (enc_multipart e) of
             Inl _ \<Rightarrow> enc_next_step [] Enc_header_ready True e
           | Inr (hdr, mp) \<Rightarrow>
               enc_next_step hdr Enc_body_ready False (e\<lparr>enc_multipart := mp\<rparr>)))"

definition enc_body_ready :: "encoder \<Rightarrow> encoder" where
  "enc_body_ready e =
     (case enc_in_progress e of
        None \<Rightarrow> e
      | Some m \<Rightarrow> enc_next_step (msg_data m) Enc_header_ready True e)"

definition enc_run_next :: "encoder \<Rightarrow> encoder" where
  "enc_run_next e =
     (case enc_next e of Enc_header_ready \<Rightarrow> enc_header_ready e | Enc_body_ready \<Rightarrow> enc_body_ready e)"

text \<open>\<open>load_msg\<close> asserts that no message is in progress; the assertion failure is \<open>None\<close>.\<close>

definition load_msg :: "msg \<Rightarrow> encoder \<Rightarrow> encoder option" where
  "load_msg m e =
     (if enc_in_progress e \<noteq> None then None
      else Some (enc_run_next (e\<lparr>enc_in_progress := Some m\<rparr>)))"

lemma enc_run_next_progress:
  "enc_in_progress e = Some m \<Longrightarrow> enc_pend (enc_run_next e) \<noteq> [] \<or> enc_new_msg_flag (enc_run_next e)"
  by (auto simp: enc_run_next_def enc_header_ready_def enc_body_ready_def enc_next_step_def
      build_header_def build_zmp_data_header_def Let_def
      split: enc_step.splits sum.splits if_splits prod.splits)

lemma enc_run_next_in_progress [simp]: "enc_in_progress (enc_run_next e) = enc_in_progress e"
  by (auto simp: enc_run_next_def enc_header_ready_def enc_body_ready_def enc_next_step_def
      split: enc_step.splits sum.splits option.splits prod.splits)

text \<open>The loop of \<open>encode\<close>: \<open>pos\<close> bytes are already in the buffer of \<open>buffersize\<close> bytes,
  \<open>own\<close> says that the caller supplied no buffer. The result is the bytes returned.\<close>

function encode_loop :: "bool \<Rightarrow> nat \<Rightarrow> byte list \<Rightarrow> encoder \<Rightarrow> byte list \<times> encoder" where
  "encode_loop own buffersize out e =
     (if length out < buffersize \<and> enc_in_progress e \<noteq> None then
        (if enc_pend e = [] \<and> enc_new_msg_flag e then (out, e\<lparr>enc_in_progress := None\<rparr>)
         else let e1 = (if enc_pend e = [] then enc_run_next e else e) in
           if out = [] \<and> own \<and> length (enc_pend e1) \<ge> buffersize
           then (enc_pend e1, e1\<lparr>enc_pend := []\<rparr>)
           else let n = min (length (enc_pend e1)) (buffersize - length out) in
             encode_loop own buffersize (out @ take n (enc_pend e1))
               (e1\<lparr>enc_pend := drop n (enc_pend e1)\<rparr>))
      else (out, e))"
  by pat_completeness auto
termination
proof (relation "measure (\<lambda>(own, buffersize, out, e).
    2 * (buffersize - length out) + (if enc_pend e = [] \<and> \<not> enc_new_msg_flag e then 1 else 0))",
    goal_cases)
  case (2 own buffersize out e e1 n)
  then obtain m where m: "enc_in_progress e = Some m" by auto
  have room: "length out < buffersize" using 2(1) by simp
  show ?case
  proof (cases "enc_pend e1 = []")
    case True
    with 2(3) have "enc_pend e = []" "e1 = enc_run_next e" by (auto split: if_splits)
    with 2(2) True m enc_run_next_progress [of e m] 2(5) show ?thesis by simp
  next
    case False
    then have "0 < n" using 2(5) room by simp
    moreover have "length (take n (enc_pend e1)) = n" using 2(5) by simp
    ultimately show ?thesis using room by simp arith
  qed
qed simp

declare encode_loop.simps [simp del]

text \<open>\<open>encode\<close>: the buffer is given by its size, \<open>None\<close> for the encoder's own one.\<close>

definition encode :: "nat option \<Rightarrow> encoder \<Rightarrow> byte list \<times> encoder" where
  "encode data e =
     (if enc_in_progress e = None then ([], e)
      else encode_loop (data = None) (case data of None \<Rightarrow> enc_buf_size e | Some n \<Rightarrow> n) [] e)"

text \<open>\<open>resize_buffer\<close>: pending bytes are unaffected, the step's write position is relocated.\<close>

definition enc_resize_buffer :: "nat \<Rightarrow> encoder \<Rightarrow> encoder" where
  "enc_resize_buffer new_size e =
     (if new_size = 0 \<or> new_size = enc_buf_size e then e else e\<lparr>enc_buf_size := new_size\<rparr>)"

subsection \<open>What an encoder still has to write\<close>

text \<open>The bytes that the encoder will still hand out for the message in progress.\<close>

definition enc_remaining :: "encoder \<Rightarrow> byte list" where
  "enc_remaining e =
     enc_pend e @ (case enc_in_progress e of
                     Some m \<Rightarrow> if enc_next e = Enc_body_ready then msg_data m else []
                   | None \<Rightarrow> [])"

text \<open>The two shapes a step leaves behind: the body is still to come, or this is the last step.\<close>

definition enc_wf :: "encoder \<Rightarrow> bool" where
  "enc_wf e \<longleftrightarrow> (enc_new_msg_flag e \<longleftrightarrow> enc_next e = Enc_header_ready)
     \<and> (enc_in_progress e = None \<longrightarrow> enc_pend e = [] \<and> enc_new_msg_flag e)"

lemma enc_wf_init: "enc_wf (zmp_encoder_init n)"
  by (simp add: enc_wf_def zmp_encoder_init_def enc_next_step_def)

lemma enc_run_next_body:
  "enc_wf e \<Longrightarrow> enc_in_progress e = Some m \<Longrightarrow> enc_pend e = [] \<Longrightarrow> \<not> enc_new_msg_flag e \<Longrightarrow>
     enc_run_next e = enc_next_step (msg_data m) Enc_header_ready True e"
  by (cases "enc_next e") (auto simp: enc_wf_def enc_run_next_def enc_body_ready_def)

lemma encode_loop_correct:
  assumes "enc_wf e" "encode_loop own bs out e = (out', e')"
  shows "enc_wf e' \<and> out' @ enc_remaining e' = out @ enc_remaining e
     \<and> (enc_in_progress e' \<noteq> None \<longrightarrow> enc_in_progress e' = enc_in_progress e \<and> bs \<le> length out')
     \<and> enc_multipart e' = enc_multipart e \<and> enc_buf_size e' = enc_buf_size e"
  using assms
proof (induction own bs out e arbitrary: out' e' rule: encode_loop.induct)
  case (1 own bs out e)
  show ?case
  proof (cases "length out < bs \<and> enc_in_progress e \<noteq> None")
    case False
    with 1 show ?thesis by (auto simp: encode_loop.simps)
  next
    case go: True
    then obtain m where m: "enc_in_progress e = Some m" by auto
    show ?thesis
    proof (cases "enc_pend e = [] \<and> enc_new_msg_flag e")
      case True
      with 1 go m show ?thesis
        by (auto simp: encode_loop.simps [of own bs out e] enc_wf_def enc_remaining_def)
    next
      case False
      define e1 where "e1 = (if enc_pend e = [] then enc_run_next e else e)"
      have wf1: "enc_wf e1" and rem1: "enc_remaining e1 = enc_remaining e"
        and ip1: "enc_in_progress e1 = enc_in_progress e"
        and mp1: "enc_multipart e1 = enc_multipart e" "enc_buf_size e1 = enc_buf_size e"
        using False m "1.prems"(1) enc_run_next_body [of e m]
        by (cases "enc_next e"; auto simp: e1_def enc_wf_def enc_remaining_def enc_next_step_def)+
      have step: "encode_loop own bs out e =
          (if out = [] \<and> own \<and> bs \<le> length (enc_pend e1) then (enc_pend e1, e1\<lparr>enc_pend := []\<rparr>)
           else let n = min (length (enc_pend e1)) (bs - length out) in
             encode_loop own bs (out @ take n (enc_pend e1)) (e1\<lparr>enc_pend := drop n (enc_pend e1)\<rparr>))"
        using go False by (subst encode_loop.simps) (simp add: e1_def Let_def)
      show ?thesis
      proof (cases "out = [] \<and> own \<and> bs \<le> length (enc_pend e1)")
        case True
        with "1.prems"(2) [unfolded step] have "out' = enc_pend e1" "e' = e1\<lparr>enc_pend := []\<rparr>"
          by auto
        with True wf1 rem1 ip1 mp1 m show ?thesis
          by (auto simp: enc_wf_def enc_remaining_def)
      next
        case copy: False
        define n where "n = min (length (enc_pend e1)) (bs - length out)"
        define e2 where "e2 = e1\<lparr>enc_pend := drop n (enc_pend e1)\<rparr>"
        have loop2: "encode_loop own bs (out @ take n (enc_pend e1)) e2 = (out', e')"
          using "1.prems"(2) [unfolded step] copy by (simp only: n_def e2_def Let_def if_False)
        have wf2: "enc_wf e2" using wf1 ip1 m by (simp add: e2_def enc_wf_def)
        have rem2: "take n (enc_pend e1) @ enc_remaining e2 = enc_remaining e"
          using rem1 ip1 m by (simp add: e2_def enc_remaining_def)
        have e2: "enc_in_progress e2 = enc_in_progress e" "enc_multipart e2 = enc_multipart e"
            "enc_buf_size e2 = enc_buf_size e"
          using ip1 mp1 by (simp_all add: e2_def)
        show ?thesis
          using "1.IH" [OF go False e1_def copy n_def, folded e2_def, OF wf2 loop2]
          unfolding e2 append_assoc rem2 .
      qed
    qed
  qed
qed

lemma encode_correct:
  assumes "enc_wf e" "encode data e = (out, e')"
    and "0 < (case data of None \<Rightarrow> enc_buf_size e | Some n \<Rightarrow> n)"
  shows "enc_wf e'" "out @ enc_remaining e' = enc_remaining e"
    and "enc_in_progress e' \<noteq> None \<Longrightarrow> enc_in_progress e' = enc_in_progress e \<and> out \<noteq> []"
    and "enc_multipart e' = enc_multipart e" "enc_buf_size e' = enc_buf_size e"
  using assms encode_loop_correct [OF assms(1)]
  by (auto simp: encode_def split: if_splits) (fastforce)+

subsection \<open>Runs of encode calls\<close>

text \<open>The engine calls \<open>encode\<close> repeatedly until the message is consumed.\<close>

fun encode_calls :: "nat option list \<Rightarrow> encoder \<Rightarrow> byte list \<times> encoder" where
  "encode_calls [] e = ([], e)"
| "encode_calls (d # ds) e =
     (let (out, e1) = encode d e; (outs, e2) = encode_calls ds e1 in (out @ outs, e2))"

definition enc_buffers_ok :: "nat option list \<Rightarrow> encoder \<Rightarrow> bool" where
  "enc_buffers_ok ds e \<longleftrightarrow> 0 < enc_buf_size e \<and> Some 0 \<notin> set ds"

lemma encode_calls_correct:
  assumes "enc_wf e" "enc_buffers_ok ds e" "encode_calls ds e = (out, e')"
  shows "enc_wf e' \<and> out @ enc_remaining e' = enc_remaining e
     \<and> (enc_in_progress e' = None \<or> enc_in_progress e' = enc_in_progress e)
     \<and> (length ds > length (enc_remaining e) \<longrightarrow> enc_in_progress e' = None)
     \<and> enc_multipart e' = enc_multipart e \<and> enc_buf_size e' = enc_buf_size e"
  using assms
proof (induction ds arbitrary: e out)
  case Nil
  then show ?case by simp
next
  case (Cons d ds)
  obtain o1 e1 where o1: "encode d e = (o1, e1)" by force
  obtain o2 where o2: "encode_calls ds e1 = (o2, e')" "out = o1 @ o2"
    using Cons.prems(3) o1 by (auto split: prod.splits)
  have pos: "0 < (case d of None \<Rightarrow> enc_buf_size e | Some n \<Rightarrow> n)"
    using Cons.prems(2) by (auto simp: enc_buffers_ok_def split: option.splits intro: Suc_leI)
  note c = encode_correct [OF Cons.prems(1) o1 pos]
  have "enc_buffers_ok ds e1"
    using Cons.prems(2) c(5) by (auto simp: enc_buffers_ok_def)
  note IH = Cons.IH [OF c(1) this o2(1)]
  have "length (enc_remaining e1) < length ds"
    if "enc_in_progress e1 \<noteq> None" "length (enc_remaining e) < length (d # ds)"
  proof -
    have "length o1 + length (enc_remaining e1) = length (enc_remaining e)"
      using arg_cong [OF c(2), of length] by simp
    moreover have "0 < length o1" using c(3) [OF that(1)] by simp
    ultimately show ?thesis using that(2) by (simp del: length_greater_0_conv)
  qed
  moreover have "enc_in_progress e' = None" if "enc_in_progress e1 = None"
    using IH that by auto
  ultimately show ?case
    using IH c o2(2) by (metis append_assoc)
qed

end
