(* ===== verification/Zmp_Decoder.thy ===== *)
theory Zmp_Decoder
  imports Zmp_Protocol Msg
begin

section \<open>ZMP decoder\<close>

text \<open>
  Models \<open>protocol/zmp_decoder.cpp\<close> and the state machine \<open>decoder_base_t\<close> of
  \<open>protocol/decoder.hpp\<close>. \<open>_read_pos\<close> is the destination of the current step (the header
  scratch buffer or the payload of the message in progress), and the destination holds the bytes
  received so far; \<open>_to_read\<close> counts the missing ones. The callbacks of the session (frame
  admission, reservation release) and the allocator are the environment of a call: in one call of
  \<open>decode\<close> or \<open>retry_frame_admission\<close> each is asked at most once.
\<close>

subsection \<open>State\<close>

datatype frame_stage =
    reading_base_header | reading_sequence_extension | waiting_frame_admission | reading_payload

datatype dec_step = Dec_header_ready | Dec_sequence_ready | Dec_body_ready

datatype dec_dest = To_tmpbuf | To_body

record decoder =
  dec_tmpbuf :: "byte list"
  dec_msg_flags :: byte
  dec_wire_flags :: byte
  dec_wire_kind :: byte
  dec_request_sequence :: u64
  dec_error_code :: u8
  dec_in_progress :: msg
  dec_max_msg_size :: nat
  dec_max_application :: nat
  dec_has_admission :: bool
  dec_has_release :: bool
  dec_reservation :: "nat option"
  dec_released :: "nat list"
  dec_pending_msg_size :: nat
  dec_backpressured :: bool
  dec_multipart :: bool
  dec_next_multipart :: bool
  dec_multipart_size :: nat
  dec_next_multipart_size :: nat
  dec_stage :: frame_stage
  dec_dest :: dec_dest
  dec_to_read :: nat
  dec_next :: dec_step

text \<open>The admission handler either fails with an errno or admits the frame and may store a
  reservation; the allocator either provides a payload of the given size or fails.\<close>

record dec_env =
  env_admit :: "nat \<Rightarrow> byte \<Rightarrow> errno + nat option"
  env_alloc :: "nat \<Rightarrow> bool"

text \<open>Return codes of the C++ actions: 0, 1, or -1 with errno.\<close>

datatype dec_rc = RC_0 | RC_1 | RC_err errno

subsection \<open>Construction\<close>

definition compute_effective_max :: "int \<Rightarrow> nat" where
  "compute_effective_max maxmsgsize =
     (if maxmsgsize > 0 \<and> maxmsgsize < int zmp_max_body_size then nat maxmsgsize
      else zmp_max_body_size)"

definition compute_application_message_max :: "int \<Rightarrow> nat" where
  "compute_application_message_max maxmsgsize =
     (if maxmsgsize > 0 then nat maxmsgsize else UINT64_MAX)"

definition zmp_flag_sub_or_cancel :: byte where
  "zmp_flag_sub_or_cancel = zmp_flag_subscribe OR zmp_flag_cancel"

definition dec_next_step :: "dec_dest \<Rightarrow> nat \<Rightarrow> dec_step \<Rightarrow> decoder \<Rightarrow> decoder" where
  "dec_next_step dest n nxt d = d\<lparr>dec_dest := dest, dec_to_read := n, dec_next := nxt\<rparr>"

text \<open>\<open>next_step (_tmpbuf, zmp_header_size, header_ready)\<close>: the scratch buffer is refilled from its
  start.\<close>

definition dec_restart :: "decoder \<Rightarrow> decoder" where
  "dec_restart d = dec_next_step To_tmpbuf zmp_header_size Dec_header_ready (d\<lparr>dec_tmpbuf := []\<rparr>)"

definition zmp_decoder_init :: "int \<Rightarrow> decoder" where
  "zmp_decoder_init maxmsgsize = dec_restart
     \<lparr>dec_tmpbuf = [], dec_msg_flags = 0, dec_wire_flags = 0, dec_wire_kind = zmp_kind_data,
      dec_request_sequence = 0, dec_error_code = 0, dec_in_progress = msg_init,
      dec_max_msg_size = compute_effective_max maxmsgsize,
      dec_max_application = compute_application_message_max maxmsgsize,
      dec_has_admission = False, dec_has_release = False, dec_reservation = None,
      dec_released = [], dec_pending_msg_size = 0, dec_backpressured = False,
      dec_multipart = False, dec_next_multipart = False, dec_multipart_size = 0,
      dec_next_multipart_size = 0, dec_stage = reading_base_header,
      dec_dest = To_tmpbuf, dec_to_read = 0, dec_next = Dec_header_ready\<rparr>"

text \<open>The assertion that no reservation is held is the \<open>None\<close> case.\<close>

definition set_frame_admission_handler :: "bool \<Rightarrow> bool \<Rightarrow> decoder \<Rightarrow> decoder option" where
  "set_frame_admission_handler handler release d =
     (if dec_reservation d \<noteq> None then None
      else Some (d\<lparr>dec_has_admission := handler, dec_has_release := release\<rparr>))"

subsection \<open>Reservations and failures\<close>

definition release_frame_reservation :: "decoder \<Rightarrow> decoder" where
  "release_frame_reservation d =
     (case dec_reservation d of
        None \<Rightarrow> d
      | Some r \<Rightarrow> (if dec_has_release d then d\<lparr>dec_released := dec_released d @ [r]\<rparr> else d)
                    \<lparr>dec_reservation := None\<rparr>)"

definition detach_frame_admission :: "decoder \<Rightarrow> decoder" where
  "detach_frame_admission d =
     (release_frame_reservation d)\<lparr>dec_has_admission := False, dec_has_release := False\<rparr>"

definition fail_protocol :: "u8 \<Rightarrow> decoder \<Rightarrow> dec_rc \<times> decoder" where
  "fail_protocol code d =
     (RC_err EPROTO,
      (release_frame_reservation d)
        \<lparr>dec_in_progress := msg_init, dec_backpressured := False, dec_pending_msg_size := 0,
         dec_error_code := code\<rparr>)"

definition complete_frame :: "decoder \<Rightarrow> decoder" where
  "complete_frame d = dec_restart
     (d\<lparr>dec_multipart := dec_next_multipart d, dec_multipart_size := dec_next_multipart_size d,
        dec_stage := reading_base_header\<rparr>)"

subsection \<open>Actions\<close>

text \<open>The tail of \<open>size_ready\<close> once the frame is admitted: allocate the message, stamp it, and
  complete the frame or switch to reading the payload.\<close>

definition start_payload :: "dec_env \<Rightarrow> nat \<Rightarrow> decoder \<Rightarrow> dec_rc \<times> decoder" where
  "start_payload env sz d =
     (let d = d\<lparr>dec_backpressured := False, dec_pending_msg_size := 0\<rparr> in
      if \<not> env_alloc env sz
      then (RC_err ENOMEM, (release_frame_reservation d)\<lparr>dec_in_progress := msg_init\<rparr>)
      else let m = set_flags (dec_msg_flags d) msg_init in
      case (if zmp_is_request_reply_kind (dec_wire_kind d)
            then set_request_reply_metadata (dec_wire_kind d) (dec_request_sequence d) m
            else Inr m) of
        Inl _ \<Rightarrow> fail_protocol zmp_error_internal (release_frame_reservation d)
      | Inr m \<Rightarrow>
          let d = d\<lparr>dec_in_progress := m\<rparr> in
          if sz = 0 then (RC_1, complete_frame d)
          else (RC_0, dec_next_step To_body sz Dec_body_ready (d\<lparr>dec_stage := reading_payload\<rparr>)))"

text \<open>The admission half of \<open>size_ready\<close>: the session is asked for room for a data frame; a
  refusal with \<open>EAGAIN\<close> is remembered for a retry.\<close>

definition admit_frame :: "dec_env \<Rightarrow> nat \<Rightarrow> decoder \<Rightarrow> dec_rc \<times> decoder" where
  "admit_frame env sz d =
     (if dec_msg_flags d AND f_command = 0 \<and> dec_has_admission d then
        (case env_admit env sz (dec_msg_flags d) of
           Inl er \<Rightarrow>
             (RC_err er,
              if er = EAGAIN then d\<lparr>dec_pending_msg_size := sz, dec_backpressured := True\<rparr>
              else let d = d\<lparr>dec_pending_msg_size := 0, dec_backpressured := False\<rparr> in
                   if er = EMSGSIZE then d\<lparr>dec_error_code := zmp_error_body_too_large\<rparr> else d)
         | Inr r \<Rightarrow> start_payload env sz (d\<lparr>dec_reservation := r\<rparr>))
      else start_payload env sz d)"

text \<open>The check \<open>msg_size_ != static_cast<size_t> (msg_size_)\<close> never fires for a size type of at
  least 32 bits and is left out.\<close>

definition size_ready :: "dec_env \<Rightarrow> nat \<Rightarrow> decoder \<Rightarrow> dec_rc \<times> decoder" where
  "size_ready env sz d =
     (let frame_limit = (if dec_msg_flags d AND f_command \<noteq> 0 then zmp_max_control_body_size
                         else dec_max_msg_size d);
          too_large = (\<lambda>d. (RC_err EMSGSIZE, d\<lparr>dec_error_code := zmp_error_body_too_large\<rparr>)) in
      if sz > frame_limit then too_large d
      else let d = d\<lparr>dec_next_multipart_size := dec_multipart_size d\<rparr>;
               application = \<not> zmp_is_special_frame (dec_wire_flags d);
               candidate = dec_multipart_size d + sz in
      if application \<and> sz > UINT64_MAX - dec_multipart_size d then too_large d
      else if application \<and> candidate > dec_max_application d then too_large d
      else admit_frame env sz
             (if application
              then d\<lparr>dec_next_multipart_size :=
                       (if dec_wire_flags d AND zmp_flag_more \<noteq> 0 then candidate else 0)\<rparr>
              else d))"

definition validate_header_and_admit :: "dec_env \<Rightarrow> decoder \<Rightarrow> dec_rc \<times> decoder" where
  "validate_header_and_admit env d =
     (let special_frame = zmp_is_special_frame (dec_wire_flags d) in
      if zmp_is_request_reply_kind (dec_wire_kind d) \<and> special_frame
      then fail_protocol zmp_error_flags_invalid d
      else if dec_multipart d \<and> (special_frame \<or> zmp_is_request_reply_kind (dec_wire_kind d))
      then fail_protocol zmp_error_multipart_invalid d
      else size_ready env (unat (get_uint32 (drop 4 (dec_tmpbuf d))))
             (d\<lparr>dec_next_multipart := (if special_frame then dec_multipart d
                                      else dec_wire_flags d AND zmp_flag_more \<noteq> 0),
                dec_stage := waiting_frame_admission\<rparr>))"

text \<open>The message flags a valid wire flags byte stands for.\<close>

definition dec_flags_of_wire :: "byte \<Rightarrow> byte" where
  "dec_flags_of_wire w =
     (if w AND zmp_flag_more \<noteq> 0 then f_more else 0)
     OR (if w AND zmp_flag_control \<noteq> 0 then f_command else 0)
     OR (if w AND zmp_flag_identity \<noteq> 0 then f_routing_id else 0)
     OR (if w AND zmp_flag_subscribe \<noteq> 0 then f_subscribe
         else if w AND zmp_flag_cancel \<noteq> 0 then f_cancel else 0)"

definition dec_wire_flags_bad :: "byte \<Rightarrow> bool" where
  "dec_wire_flags_bad w \<longleftrightarrow>
     w AND NOT zmp_flag_mask \<noteq> 0
     \<or> (w AND zmp_flag_control \<noteq> 0 \<and> w AND zmp_flag_identity \<noteq> 0)
     \<or> (w AND zmp_flag_control \<noteq> 0 \<and> w AND zmp_flag_more \<noteq> 0)
     \<or> (w AND zmp_flag_sub_or_cancel \<noteq> 0
        \<and> (w AND zmp_flag_sub_or_cancel = zmp_flag_sub_or_cancel
           \<or> w AND NOT zmp_flag_sub_or_cancel \<noteq> 0))"

definition dec_header_ready :: "dec_env \<Rightarrow> decoder \<Rightarrow> dec_rc \<times> decoder" where
  "dec_header_ready env d0 =
     (let d = d0\<lparr>dec_error_code := 0\<rparr>; t = dec_tmpbuf d in
      if t ! 0 \<noteq> zmp_magic then fail_protocol zmp_error_invalid_magic d
      else if t ! 1 \<noteq> zmp_version then fail_protocol zmp_error_version_mismatch d
      else let d = d\<lparr>dec_wire_kind := t ! 3\<rparr> in
      if dec_wire_kind d \<noteq> zmp_kind_data \<and> \<not> zmp_is_request_reply_kind (dec_wire_kind d)
      then fail_protocol zmp_error_kind_invalid d
      else let d = d\<lparr>dec_wire_flags := t ! 2\<rparr> in
      if dec_wire_flags_bad (dec_wire_flags d) then fail_protocol zmp_error_flags_invalid d
      else let d = d\<lparr>dec_msg_flags := dec_flags_of_wire (dec_wire_flags d),
                     dec_request_sequence := 0\<rparr> in
      if zmp_is_request_reply_kind (dec_wire_kind d)
      then (RC_0, dec_next_step To_tmpbuf zmp_request_sequence_size Dec_sequence_ready
                    (d\<lparr>dec_stage := reading_sequence_extension\<rparr>))
      else validate_header_and_admit env d)"

definition dec_sequence_ready :: "dec_env \<Rightarrow> decoder \<Rightarrow> dec_rc \<times> decoder" where
  "dec_sequence_ready env d =
     (let d = d\<lparr>dec_request_sequence := get_uint64 (drop zmp_header_size (dec_tmpbuf d))\<rparr> in
      if dec_request_sequence d = 0 then fail_protocol zmp_error_sequence_invalid d
      else validate_header_and_admit env d)"

definition dec_body_ready :: "decoder \<Rightarrow> dec_rc \<times> decoder" where
  "dec_body_ready d = (RC_1, complete_frame d)"

definition dec_run_next :: "dec_env \<Rightarrow> decoder \<Rightarrow> dec_rc \<times> decoder" where
  "dec_run_next env d =
     (case dec_next d of
        Dec_header_ready \<Rightarrow> dec_header_ready env d
      | Dec_sequence_ready \<Rightarrow> dec_sequence_ready env d
      | Dec_body_ready \<Rightarrow> dec_body_ready d)"

definition retry_frame_admission :: "dec_env \<Rightarrow> decoder \<Rightarrow> dec_rc \<times> decoder" where
  "retry_frame_admission env d =
     (if \<not> dec_backpressured d \<or> dec_stage d \<noteq> waiting_frame_admission then (RC_err EINVAL, d)
      else size_ready env (dec_pending_msg_size d) d)"

definition stream_end :: "decoder \<Rightarrow> dec_rc \<times> decoder" where
  "stream_end d =
     (if dec_stage d = reading_base_header \<and> dec_to_read d = zmp_header_size \<and> \<not> dec_multipart d
      then (RC_0, d)
      else fail_protocol zmp_error_frame_incomplete d)"

lemma fail_protocol_not_RC_0 [simp]: "fst (fail_protocol c d) \<noteq> RC_0" "fst (fail_protocol c d) \<noteq> RC_1"
  by (simp_all add: fail_protocol_def)

lemma dec_run_next_RC_0:
  assumes "dec_run_next env d = (RC_0, d')"
  shows "0 < dec_to_read d'"
proof -
  have p: "0 < dec_to_read d'" if "start_payload env n d1 = (RC_0, d')" for n d1
    using that by (auto simp: start_payload_def Let_def dec_next_step_def fail_protocol_def
        split: if_splits sum.splits)
  have s: "0 < dec_to_read d'" if "size_ready env n d1 = (RC_0, d')" for n d1
    using that by (auto simp: size_ready_def admit_frame_def Let_def split: if_splits sum.splits dest!: p)
  have v: "0 < dec_to_read d'" if "validate_header_and_admit env d1 = (RC_0, d')" for d1
    using that by (auto simp: validate_header_and_admit_def Let_def fail_protocol_def
        split: if_splits dest!: s)
  show ?thesis
    using assms
    by (auto simp: dec_run_next_def dec_header_ready_def dec_sequence_ready_def dec_body_ready_def
        Let_def fail_protocol_def dec_next_step_def split: if_splits dec_step.splits dest!: v)
qed

subsection \<open>The decode loop\<close>

text \<open>\<open>while (_to_read == 0) { rc = (this->*_next) (...); if (rc != 0) return rc; }\<close>\<close>

function dec_next_loop :: "dec_env \<Rightarrow> decoder \<Rightarrow> dec_rc \<times> decoder" where
  "dec_next_loop env d =
     (if dec_to_read d = 0
      then (case dec_run_next env d of (RC_0, d') \<Rightarrow> dec_next_loop env d' | r \<Rightarrow> r)
      else (RC_0, d))"
  by pat_completeness auto
termination
  by (relation "measure (\<lambda>(env, d). if dec_to_read d = 0 then 1 else 0)")
    (auto dest: dec_run_next_RC_0 [OF sym])

declare dec_next_loop.simps [simp del]

text \<open>Copying received bytes to the destination and advancing the read position.\<close>

definition dec_store :: "byte list \<Rightarrow> decoder \<Rightarrow> decoder" where
  "dec_store bs d =
     (case dec_dest d of
        To_tmpbuf \<Rightarrow> d\<lparr>dec_tmpbuf := dec_tmpbuf d @ bs\<rparr>
      | To_body \<Rightarrow> d\<lparr>dec_in_progress :=
                       (dec_in_progress d)\<lparr>msg_data := msg_data (dec_in_progress d) @ bs\<rparr>\<rparr>)
     \<lparr>dec_to_read := dec_to_read d - length bs\<rparr>"

lemma dec_next_loop_RC_0: "dec_next_loop env d = (RC_0, d') \<Longrightarrow> 0 < dec_to_read d'"
  by (induction env d rule: dec_next_loop.induct)
    (auto simp: dec_next_loop.simps split: if_splits prod.splits dec_rc.splits)

function decode_loop :: "dec_env \<Rightarrow> byte list \<Rightarrow> nat \<Rightarrow> decoder \<Rightarrow> dec_rc \<times> nat \<times> decoder" where
  "decode_loop env data used d =
     (if used < length data then
        let n = min (dec_to_read d) (length data - used) in
        (case dec_next_loop env (dec_store (take n (drop used data)) d) of
           (RC_0, d') \<Rightarrow> decode_loop env data (used + n) d'
         | (rc, d') \<Rightarrow> (rc, used + n, d'))
      else (RC_0, used, d))"
  by pat_completeness auto
termination
proof (relation "measure (\<lambda>(env, data, used, d).
    2 * (length data - used) + (if dec_to_read d = 0 then 1 else 0))", goal_cases)
  case (2 env data used d n rc d')
  then have "0 < dec_to_read d'"
    using dec_next_loop_RC_0 [OF sym] by blast
  with 2(1,2) show ?case by (cases "dec_to_read d") auto
qed simp

declare decode_loop.simps [simp del]

text \<open>\<open>decode\<close>: \<open>in_place\<close> says that the caller read straight into the decoder's destination
  (\<open>data_ == _read_pos\<close>), where nothing has to be copied.\<close>

definition decode :: "dec_env \<Rightarrow> bool \<Rightarrow> byte list \<Rightarrow> decoder \<Rightarrow> dec_rc \<times> nat \<times> decoder" where
  "decode env in_place data d =
     (if in_place \<and> length data \<le> dec_to_read d
      then (case dec_next_loop env (dec_store data d) of (rc, d') \<Rightarrow> (rc, length data, d'))
      else decode_loop env data 0 d)"

subsection \<open>Byte-wise reading\<close>

text \<open>The engine hands a received chunk to \<open>decode\<close> until it is used up or refused, and
  collects the completed messages.\<close>

definition cons_msg :: "msg \<Rightarrow> msg list \<times> errno option \<times> decoder \<Rightarrow> msg list \<times> errno option \<times> decoder"
  where "cons_msg m r = (m # fst r, snd r)"

text \<open>The reference reading: one byte after the other.\<close>

fun dec_bytes :: "dec_env \<Rightarrow> byte list \<Rightarrow> decoder \<Rightarrow> msg list \<times> errno option \<times> decoder" where
  "dec_bytes env [] d = ([], None, d)"
| "dec_bytes env (b # bs) d =
     (case dec_next_loop env (dec_store [b] d) of
        (RC_0, d') \<Rightarrow> dec_bytes env bs d'
      | (RC_1, d') \<Rightarrow> cons_msg (dec_in_progress d') (dec_bytes env bs d')
      | (RC_err er, d') \<Rightarrow> ([], Some er, d'))"

lemma dec_store_to_read [simp]: "dec_to_read (dec_store bs d) = dec_to_read d - length bs"
  by (simp add: dec_store_def)

lemma dec_store_dest [simp]: "dec_dest (dec_store bs d) = dec_dest d"
  by (simp add: dec_store_def split: dec_dest.splits)

lemma dec_store_Nil [simp]: "dec_store [] d = d"
  by (simp add: dec_store_def split: dec_dest.splits)

lemma dec_store_append: "dec_store (xs @ ys) d = dec_store ys (dec_store xs d)"
  by (simp add: dec_store_def split: dec_dest.splits)

lemma dec_next_loop_idle: "0 < dec_to_read d \<Longrightarrow> dec_next_loop env d = (RC_0, d)"
  by (simp add: dec_next_loop.simps)

lemma dec_next_loop_once:
  "dec_to_read d = 0 \<Longrightarrow> dec_next_loop env d = dec_run_next env d"
proof (cases "dec_run_next env d")
  case (Pair rc d')
  assume "dec_to_read d = 0"
  then have "dec_next_loop env d = (case (rc, d') of (RC_0, d') \<Rightarrow> dec_next_loop env d' | r \<Rightarrow> r)"
    using Pair by (simp add: dec_next_loop.simps [of env d])
  then show ?thesis
    using Pair dec_run_next_RC_0 [of env d d']
    by (cases rc) (auto simp: dec_next_loop_idle)
qed

lemma dec_bytes_partial:
  "length xs < dec_to_read d \<Longrightarrow> dec_bytes env (xs @ ys) d = dec_bytes env ys (dec_store xs d)"
proof (induction xs arbitrary: d)
  case (Cons x xs)
  then have "dec_next_loop env (dec_store [x] d) = (RC_0, dec_store [x] d)"
    by (simp add: dec_next_loop_idle)
  moreover have "dec_store (x # xs) d = dec_store xs (dec_store [x] d)"
    using dec_store_append [of "[x]" xs d] by simp
  ultimately show ?case using Cons by simp
qed simp

lemma dec_bytes_step:
  assumes "length xs = dec_to_read d" "xs \<noteq> []"
  shows "dec_bytes env (xs @ ys) d =
     (case dec_next_loop env (dec_store xs d) of
        (RC_0, d') \<Rightarrow> dec_bytes env ys d'
      | (RC_1, d') \<Rightarrow> cons_msg (dec_in_progress d') (dec_bytes env ys d')
      | (RC_err er, d') \<Rightarrow> ([], Some er, d'))"
proof -
  obtain zs z where xs: "xs = zs @ [z]" using assms(2) by (metis rev_exhaust)
  have "dec_bytes env (xs @ ys) d = dec_bytes env (z # ys) (dec_store zs d)"
    using dec_bytes_partial [of zs d env "z # ys"] assms(1) by (simp add: xs)
  then show ?thesis by (simp add: xs dec_store_append)
qed

lemma dec_bytes_append:
  "dec_bytes env (xs @ ys) d =
     (case dec_bytes env xs d of
        (ms, None, d') \<Rightarrow> (ms @ fst (dec_bytes env ys d'), snd (dec_bytes env ys d'))
      | (ms, Some er, d') \<Rightarrow> (ms, Some er, d'))"
  by (induction xs arbitrary: d)
    (auto simp: cons_msg_def split: prod.splits dec_rc.splits option.splits)

text \<open>A completed frame always leaves the decoder at the start of the next header.\<close>

lemma dec_run_next_RC_1:
  assumes "dec_run_next env d = (RC_1, d')"
  shows "dec_to_read d' = zmp_header_size"
proof -
  have c: "dec_to_read (complete_frame d1) = zmp_header_size" for d1
    by (simp add: complete_frame_def dec_restart_def dec_next_step_def)
  have p: "dec_to_read d' = zmp_header_size" if "start_payload env n d1 = (RC_1, d')" for n d1
    using that c by (auto simp: start_payload_def Let_def fail_protocol_def
        split: if_splits sum.splits)
  have s: "dec_to_read d' = zmp_header_size" if "size_ready env n d1 = (RC_1, d')" for n d1
    using that by (auto simp: size_ready_def admit_frame_def Let_def split: if_splits sum.splits dest!: p)
  have v: "dec_to_read d' = zmp_header_size" if "validate_header_and_admit env d1 = (RC_1, d')" for d1
    using that by (auto simp: validate_header_and_admit_def Let_def fail_protocol_def
        split: if_splits dest!: s)
  show ?thesis
    using assms c
    by (auto simp: dec_run_next_def dec_header_ready_def dec_sequence_ready_def dec_body_ready_def
        Let_def fail_protocol_def split: if_splits dec_step.splits dest!: v)
qed

lemma decode_loop_bytes:
  assumes "0 < dec_to_read d" "used \<le> length data"
  shows "case decode_loop env data used d of
      (RC_0, n, d') \<Rightarrow> n = length data \<and> 0 < dec_to_read d' \<and> dec_bytes env (drop used data) d = ([], None, d')
    | (RC_1, n, d') \<Rightarrow> used < n \<and> n \<le> length data \<and> dec_to_read d' = zmp_header_size \<and>
        dec_bytes env (drop used data) d = cons_msg (dec_in_progress d') (dec_bytes env (drop n data) d')
    | (RC_err er, n, d') \<Rightarrow> used < n \<and> n \<le> length data \<and> dec_bytes env (drop used data) d = ([], Some er, d')"
  using assms
proof (induction env data used d rule: decode_loop.induct)
  case (1 env data used d)
  show ?case
  proof (cases "used < length data")
    case False
    with 1 show ?thesis by (simp add: decode_loop.simps)
  next
    case more: True
    define n where "n = min (dec_to_read d) (length data - used)"
    define xs where "xs = take n (drop used data)"
    have n: "0 < n" "used + n \<le> length data" "length xs = n"
      using more "1.prems" by (auto simp: n_def xs_def min_def)
    have split: "drop used data = xs @ drop (used + n) data"
      unfolding xs_def using append_take_drop_id [of n "drop used data"]
      by (simp add: add.commute)
    have step: "decode_loop env data used d =
        (case dec_next_loop env (dec_store xs d) of
           (RC_0, d') \<Rightarrow> decode_loop env data (used + n) d' | (rc, d') \<Rightarrow> (rc, used + n, d'))"
      unfolding xs_def n_def using more by (subst decode_loop.simps) (simp add: Let_def)
    show ?thesis
    proof (cases "n = dec_to_read d")
      case False
      then have "n < dec_to_read d" "n = length data - used" by (auto simp: n_def min_def split: if_splits)
      then have idle: "dec_next_loop env (dec_store xs d) = (RC_0, dec_store xs d)" "0 < dec_to_read (dec_store xs d)"
        using n by (simp_all add: dec_next_loop_idle)
      have "used + n = length data" using \<open>n = length data - used\<close> more by simp
      then show ?thesis
        using idle dec_bytes_partial [of xs d env "[]"] \<open>n < dec_to_read d\<close> n
        by (simp add: step split decode_loop.simps [of env data "length data"])
    next
      case True
      then have len: "length xs = dec_to_read d" "xs \<noteq> []" using n by auto
      obtain rc d' where nl: "dec_next_loop env (dec_store xs d) = (rc, d')" by force
      show ?thesis
      proof (cases rc)
        case RC_0
        have "0 < dec_to_read d'" using nl RC_0 dec_next_loop_RC_0 by blast
        note IH = "1.IH" [OF more n_def nl [unfolded xs_def, symmetric] RC_0 this n(2)]
        show ?thesis
          using IH n by (auto simp: step nl RC_0 split dec_bytes_step [OF len] split: prod.splits dec_rc.splits)
      next
        case RC_1
        have "dec_run_next env (dec_store xs d) = (RC_1, d')"
          using nl RC_1 len by (simp add: dec_next_loop_once)
        from dec_run_next_RC_1 [OF this] show ?thesis
          using n by (simp add: step nl RC_1 split dec_bytes_step [OF len])
      next
        case (RC_err er)
        then show ?thesis using n by (simp add: step nl split dec_bytes_step [OF len])
      qed
    qed
  qed
qed

end
