(* ===== verification/Zmp_Stream.thy ===== *)
theory Zmp_Stream
  imports Zmp_Encoder Zmp_Decoder
begin

section \<open>ZMP streams: what the encoder writes, the decoder reads back\<close>

text \<open>
  Connects \<open>Zmp_Encoder\<close> and \<open>Zmp_Decoder\<close>: the input loop of
  \<open>asio_engine_t::process_input\<close> over a received chunk, the bytes of a sequence of messages,
  and the round trip from messages to bytes and back for every way of cutting the byte stream
  into chunks and into output buffers.
\<close>

subsection \<open>The input loop\<close>

lemma decode_False: "decode env False data d = decode_loop env data 0 d"
  by (simp add: decode_def)

text \<open>\<open>while (_insize > 0) { rc = decode (...); if (rc == 0 || rc == -1) break; process_msg }\<close> for
  a session that accepts every message. The measure counts a call that uses no byte (it can only
  happen on a decoder that refused a frame before) as progress.\<close>

function dec_run :: "dec_env \<Rightarrow> byte list \<Rightarrow> decoder \<Rightarrow> msg list \<times> errno option \<times> decoder" where
  "dec_run env data d =
     (if data = [] \<or> dec_to_read d = 0 then ([], None, d)
      else case decode env False data d of
        (RC_0, n, d') \<Rightarrow> ([], None, d')
      | (RC_1, n, d') \<Rightarrow> cons_msg (dec_in_progress d') (dec_run env (drop n data) d')
      | (RC_err er, n, d') \<Rightarrow> ([], Some er, d'))"
  by pat_completeness auto
termination
proof (relation "measure (\<lambda>(env, data, d). length data)", goal_cases)
  case (2 env data d rc p n d')
  then show ?case
    using decode_loop_bytes [of d 0 data env] by (auto simp: decode_False split: prod.splits dec_rc.splits)
qed simp

declare dec_run.simps [simp del]

lemma dec_run_bytes: "0 < dec_to_read d \<Longrightarrow> dec_run env data d = dec_bytes env data d"
proof (induction env data d rule: dec_run.induct)
  case (1 env data d)
  show ?case
  proof (cases "data = []")
    case False
    obtain rc n d' where dl: "decode env False data d = (rc, n, d')" by (metis prod_cases3)
    then have "decode_loop env data 0 d = (rc, n, d')" by (simp add: decode_False)
    then show ?thesis
      using decode_loop_bytes [OF "1.prems", of 0 data env] "1.IH" [OF _ dl [symmetric]] False "1.prems"
      by (cases rc) (auto simp: dec_run.simps [of env data d] dl)
  qed (simp add: dec_run.simps)
qed

fun dec_feed :: "dec_env \<Rightarrow> byte list list \<Rightarrow> decoder \<Rightarrow> msg list \<times> errno option \<times> decoder" where
  "dec_feed env [] d = ([], None, d)"
| "dec_feed env (c # cs) d =
     (case dec_run env c d of
        (ms, Some er, d') \<Rightarrow> (ms, Some er, d')
      | (ms, None, d') \<Rightarrow> (ms @ fst (dec_feed env cs d'), snd (dec_feed env cs d')))"

lemma dec_bytes_to_read:
  "dec_bytes env bs d = (ms, None, d') \<Longrightarrow> 0 < dec_to_read d \<Longrightarrow> 0 < dec_to_read d'"
proof (induction bs arbitrary: d ms)
  case (Cons b bs)
  obtain rc d1 where nl: "dec_next_loop env (dec_store [b] d) = (rc, d1)" by force
  have "rc = RC_1 \<Longrightarrow> 0 < dec_to_read d1"
    using nl dec_run_next_RC_1 [of env "dec_store [b] d" d1]
    by (cases "dec_to_read (dec_store [b] d) = 0") (auto simp: dec_next_loop_once dec_next_loop_idle)
  moreover have "rc = RC_0 \<Longrightarrow> 0 < dec_to_read d1"
    using nl dec_next_loop_RC_0 by blast
  ultimately show ?case
    using Cons nl by (cases rc) (auto simp: cons_msg_def prod_eq_iff)
qed simp

text \<open>Cutting a byte stream into chunks does not change what is decoded.\<close>

lemma dec_feed_bytes:
  "0 < dec_to_read d \<Longrightarrow> dec_feed env cs d = dec_bytes env (concat cs) d"
proof (induction cs arbitrary: d)
  case (Cons c cs)
  obtain ms er d' where r: "dec_bytes env c d = (ms, er, d')" by (metis prod_cases3)
  show ?case
  proof (cases er)
    case None
    with r Cons.prems have "0 < dec_to_read d'" using dec_bytes_to_read by simp
    with Cons r None show ?thesis by (simp add: dec_run_bytes dec_bytes_append)
  qed (use Cons.prems r in \<open>simp add: dec_run_bytes dec_bytes_append\<close>)
qed simp

subsection \<open>Messages the wire format can carry\<close>

text \<open>The flags that survive the wire: \<open>credential\<close> and \<open>shared\<close> are local to the sender.\<close>

definition wire_msg_flags :: "byte \<Rightarrow> byte" where
  "wire_msg_flags f = f AND 0x5f"

definition wire_expressible :: "byte \<Rightarrow> bool" where
  "wire_expressible f \<longleftrightarrow>
     wire_msg_flags f \<in> {0, f_more, f_command, f_subscribe, f_cancel, f_routing_id, 65}"

text \<open>A message as the receiving side sees it.\<close>

definition wire_view :: "msg \<Rightarrow> msg" where
  "wire_view m =
     msg_init\<lparr>msg_flags := wire_msg_flags (msg_flags m),
             msg_aux := (case msg_aux m of Aux_request_reply k s \<Rightarrow> Aux_request_reply k s | _ \<Rightarrow> Aux_none),
             msg_data := msg_data m\<rparr>"

lemma and_wire_msg_flags:
  "wire_msg_flags f AND 1 = f AND 1" "wire_msg_flags f AND 2 = f AND 2"
  "wire_msg_flags f AND 64 = f AND 64" "wire_msg_flags f AND 0x1c = f AND 0x1c"
  "wire_msg_flags f AND 94 = f AND 94"
  by (simp_all add: wire_msg_flags_def and.assoc)

lemma zmp_wire_flags_local: "zmp_wire_flags (wire_msg_flags f) = zmp_wire_flags f"
  by (simp add: zmp_wire_flags_def and_wire_msg_flags)

definition msg_special :: "byte \<Rightarrow> bool" where
  "msg_special f \<longleftrightarrow> f AND enc_special_flags \<noteq> 0"

lemma wire_expressible_facts:
  assumes "wire_expressible f"
  shows "\<not> dec_wire_flags_bad (zmp_wire_flags f)"
    and "dec_flags_of_wire (zmp_wire_flags f) = wire_msg_flags f"
    and "zmp_is_special_frame (zmp_wire_flags f) \<longleftrightarrow> msg_special f"
    and "zmp_wire_flags f AND zmp_flag_more \<noteq> 0 \<longleftrightarrow> f AND f_more \<noteq> 0"
    and "wire_msg_flags f AND f_command \<noteq> 0 \<longleftrightarrow> f AND f_command \<noteq> 0"
    and "f AND f_command \<noteq> 0 \<Longrightarrow> msg_special f"
proof -
  define g where "g = wire_msg_flags f"
  have g: "g = 0 \<or> g = 1 \<or> g = 2 \<or> g = 12 \<or> g = 16 \<or> g = 64 \<or> g = 65"
    using assms by (auto simp: wire_expressible_def g_def)
  have wf: "zmp_wire_flags f = zmp_wire_flags g"
    by (simp add: g_def zmp_wire_flags_local)
  have sp: "msg_special f = (g AND 94 \<noteq> 0)"
    by (simp add: msg_special_def enc_special_flags_def g_def and_wire_msg_flags)
  have more: "f AND 1 = g AND 1" and cmd: "f AND 2 = g AND 2"
    by (simp_all add: g_def and_wire_msg_flags)
  show "\<not> dec_wire_flags_bad (zmp_wire_flags f)" "dec_flags_of_wire (zmp_wire_flags f) = wire_msg_flags f"
    "zmp_is_special_frame (zmp_wire_flags f) \<longleftrightarrow> msg_special f"
    "zmp_wire_flags f AND zmp_flag_more \<noteq> 0 \<longleftrightarrow> f AND f_more \<noteq> 0"
    "wire_msg_flags f AND f_command \<noteq> 0 \<longleftrightarrow> f AND f_command \<noteq> 0"
    "f AND f_command \<noteq> 0 \<Longrightarrow> msg_special f"
    unfolding wf sp more cmd g_def [symmetric] using g
    by (auto simp: zmp_wire_flags_def dec_wire_flags_bad_def zmp_flag_sub_or_cancel_def
        dec_flags_of_wire_def zmp_is_special_frame_def zmp_special_frame_flags_def)
qed

subsection \<open>One frame\<close>

text \<open>A decoder that stands at the start of a frame.\<close>

definition dec_clean :: "decoder \<Rightarrow> bool" where
  "dec_clean d \<longleftrightarrow> dec_stage d = reading_base_header \<and> dec_to_read d = zmp_header_size
     \<and> dec_dest d = To_tmpbuf \<and> dec_next d = Dec_header_ready \<and> dec_tmpbuf d = []"

text \<open>The configuration of a decoder, which decoding never changes.\<close>

definition dec_config :: "decoder \<Rightarrow> nat \<times> nat \<times> bool \<times> bool" where
  "dec_config d = (dec_max_msg_size d, dec_max_application d, dec_has_admission d, dec_has_release d)"

text \<open>An environment that neither runs out of memory nor refuses a frame.\<close>

definition env_open :: "dec_env \<Rightarrow> decoder \<Rightarrow> bool" where
  "env_open env d \<longleftrightarrow> (\<forall>n. env_alloc env n)
     \<and> (dec_has_admission d \<longrightarrow> (\<forall>n f. \<exists>r. env_admit env n f = Inr r))"

definition dec_cont :: "dec_env \<Rightarrow> byte list \<Rightarrow> dec_rc \<times> decoder \<Rightarrow> msg list \<times> errno option \<times> decoder" where
  "dec_cont env bs r =
     (case r of
        (RC_0, d') \<Rightarrow> dec_bytes env bs d'
      | (RC_1, d') \<Rightarrow> cons_msg (dec_in_progress d') (dec_bytes env bs d')
      | (RC_err er, d') \<Rightarrow> ([], Some er, d'))"

lemma dec_bytes_run_next:
  "length xs = dec_to_read d \<Longrightarrow> xs \<noteq> [] \<Longrightarrow>
     dec_bytes env (xs @ ys) d = dec_cont env ys (dec_run_next env (dec_store xs d))"
  by (simp add: dec_bytes_step dec_next_loop_once dec_cont_def)

lemma complete_frame_sel [simp]:
  "dec_clean (complete_frame d)" "dec_config (complete_frame d) = dec_config d"
  "dec_multipart (complete_frame d) = dec_next_multipart d"
  "dec_multipart_size (complete_frame d) = dec_next_multipart_size d"
  "dec_in_progress (complete_frame d) = dec_in_progress d"
  by (simp_all add: complete_frame_def dec_restart_def dec_next_step_def dec_clean_def dec_config_def)

lemma payload_bytes:
  assumes "env_alloc env (length body)"
    and rr: "zmp_is_request_reply_kind (dec_wire_kind d) \<Longrightarrow> dec_request_sequence d \<noteq> 0"
  shows "\<exists>d'. dec_cont env body (start_payload env (length body) d) =
      ([msg_init\<lparr>msg_flags := dec_msg_flags d,
          msg_aux := (if zmp_is_request_reply_kind (dec_wire_kind d)
                      then Aux_request_reply (dec_wire_kind d) (dec_request_sequence d) else Aux_none),
          msg_data := body\<rparr>], None, d')
      \<and> dec_clean d' \<and> dec_config d' = dec_config d
      \<and> dec_multipart d' = dec_next_multipart d \<and> dec_multipart_size d' = dec_next_multipart_size d"
proof -
  define m where "m = msg_init\<lparr>msg_flags := dec_msg_flags d,
      msg_aux := (if zmp_is_request_reply_kind (dec_wire_kind d)
                  then Aux_request_reply (dec_wire_kind d) (dec_request_sequence d) else Aux_none)\<rparr>"
  have sp: "start_payload env (length body) d =
      (let d = d\<lparr>dec_backpressured := False, dec_pending_msg_size := 0, dec_in_progress := m\<rparr> in
       if body = [] then (RC_1, complete_frame d)
       else (RC_0, dec_next_step To_body (length body) Dec_body_ready (d\<lparr>dec_stage := reading_payload\<rparr>)))"
    using assms request_reply_kind_nonzero [of "dec_wire_kind d"]
    by (cases "zmp_is_request_reply_kind (dec_wire_kind d)")
      (simp_all add: start_payload_def Let_def m_def set_request_reply_metadata_fresh,
       simp_all add: set_flags_def msg_init_def)
  have body: "m\<lparr>msg_data := body\<rparr> = msg_init\<lparr>msg_flags := dec_msg_flags d,
          msg_aux := (if zmp_is_request_reply_kind (dec_wire_kind d)
                      then Aux_request_reply (dec_wire_kind d) (dec_request_sequence d) else Aux_none),
          msg_data := body\<rparr>" and m: "msg_data m = []"
    by (simp_all add: m_def)
  show ?thesis
    unfolding body [symmetric]
  proof (cases "body = []")
    case True
    moreover have "m\<lparr>msg_data := []\<rparr> = m" using m by simp
    ultimately show "\<exists>d'. dec_cont env body (start_payload env (length body) d) = ([m\<lparr>msg_data := body\<rparr>], None, d')
      \<and> dec_clean d' \<and> dec_config d' = dec_config d
      \<and> dec_multipart d' = dec_next_multipart d \<and> dec_multipart_size d' = dec_next_multipart_size d"
      unfolding sp by (simp add: Let_def dec_cont_def cons_msg_def) (simp add: dec_config_def)
  next
    case False
    then show "\<exists>d'. dec_cont env body (start_payload env (length body) d) = ([m\<lparr>msg_data := body\<rparr>], None, d')
      \<and> dec_clean d' \<and> dec_config d' = dec_config d
      \<and> dec_multipart d' = dec_next_multipart d \<and> dec_multipart_size d' = dec_next_multipart_size d"
      using dec_bytes_run_next [of body _ env "[]"] m
      unfolding sp by (simp add: Let_def dec_cont_def cons_msg_def dec_next_step_def dec_run_next_def
          dec_body_ready_def dec_store_def) (simp add: dec_config_def)
  qed
qed

text \<open>What a frame of \<open>m\<close> adds to the size of the multipart message it belongs to, and the limits
  it has to respect: the control limit or the frame limit, and the application message limit.\<close>

definition next_multipart_size :: "nat \<Rightarrow> msg \<Rightarrow> nat" where
  "next_multipart_size acc m =
     (if msg_special (msg_flags m) then acc
      else if msg_flags m AND f_more \<noteq> 0 then acc + msg_size m else 0)"

definition frame_fits :: "nat \<Rightarrow> nat \<Rightarrow> nat \<Rightarrow> msg \<Rightarrow> bool" where
  "frame_fits frame_max app_max acc m \<longleftrightarrow>
     msg_size m \<le> (if msg_flags m AND f_command \<noteq> 0 then zmp_max_control_body_size else frame_max)
     \<and> (msg_special (msg_flags m) \<or> acc + msg_size m \<le> app_max)"

lemma size_ready_admits:
  assumes "env_open env d" "dec_max_application d \<le> UINT64_MAX"
    and "sz \<le> (if dec_msg_flags d AND f_command \<noteq> 0 then zmp_max_control_body_size else dec_max_msg_size d)"
    and "zmp_is_special_frame (dec_wire_flags d) \<or> dec_multipart_size d + sz \<le> dec_max_application d"
  shows "\<exists>r. size_ready env sz d = start_payload env sz
     (d\<lparr>dec_next_multipart_size :=
          (if zmp_is_special_frame (dec_wire_flags d) then dec_multipart_size d
           else if dec_wire_flags d AND zmp_flag_more \<noteq> 0 then dec_multipart_size d + sz else 0),
        dec_reservation := r\<rparr>)"
proof -
  show ?thesis
  proof (cases "dec_msg_flags d AND f_command = 0 \<and> dec_has_admission d")
    case True
    with assms(1) obtain r where "env_admit env sz (dec_msg_flags d) = Inr r"
      unfolding env_open_def by blast
    with True assms show ?thesis
      by (intro exI [of _ r]) (auto simp: size_ready_def admit_frame_def Let_def)
  next
    case False
    then show ?thesis
      using assms by (intro exI [of _ "dec_reservation d"]) (auto simp: size_ready_def admit_frame_def Let_def)
  qed
qed

definition dec_agree :: "decoder \<Rightarrow> decoder \<Rightarrow> bool" where
  "dec_agree d' d \<longleftrightarrow> dec_config d' = dec_config d \<and> dec_msg_flags d' = dec_msg_flags d
     \<and> dec_wire_kind d' = dec_wire_kind d \<and> dec_request_sequence d' = dec_request_sequence d"

lemma validate_admits:
  assumes "env_open env d" "dec_max_application d \<le> UINT64_MAX"
    and sz: "unat (get_uint32 (drop 4 (dec_tmpbuf d))) = sz"
    and "sz \<le> (if dec_msg_flags d AND f_command \<noteq> 0 then zmp_max_control_body_size else dec_max_msg_size d)"
    and "zmp_is_special_frame (dec_wire_flags d) \<or> dec_multipart_size d + sz \<le> dec_max_application d"
    and "\<not> (zmp_is_request_reply_kind (dec_wire_kind d) \<and> zmp_is_special_frame (dec_wire_flags d))"
    and "\<not> (dec_multipart d \<and> (zmp_is_special_frame (dec_wire_flags d) \<or> zmp_is_request_reply_kind (dec_wire_kind d)))"
  shows "\<exists>d'. validate_header_and_admit env d = start_payload env sz d' \<and> dec_agree d' d
     \<and> dec_next_multipart d' = (if zmp_is_special_frame (dec_wire_flags d) then dec_multipart d
                                else dec_wire_flags d AND zmp_flag_more \<noteq> 0)
     \<and> dec_next_multipart_size d' =
          (if zmp_is_special_frame (dec_wire_flags d) then dec_multipart_size d
           else if dec_wire_flags d AND zmp_flag_more \<noteq> 0 then dec_multipart_size d + sz else 0)"
proof -
  define d1 where "d1 = d\<lparr>dec_next_multipart := (if zmp_is_special_frame (dec_wire_flags d) then dec_multipart d
                                      else dec_wire_flags d AND zmp_flag_more \<noteq> 0),
                dec_stage := waiting_frame_admission\<rparr>"
  have v: "validate_header_and_admit env d = size_ready env sz d1"
    using assms(6,7) by (auto simp: validate_header_and_admit_def Let_def d1_def sz)
  have d1: "dec_wire_flags d1 = dec_wire_flags d" "dec_msg_flags d1 = dec_msg_flags d"
      "dec_multipart_size d1 = dec_multipart_size d" "dec_max_application d1 = dec_max_application d"
      "dec_max_msg_size d1 = dec_max_msg_size d" "env_open env d1 = env_open env d"
    by (simp_all add: d1_def env_open_def)
  have "\<exists>r. size_ready env sz d1 = start_payload env sz
     (d1\<lparr>dec_next_multipart_size :=
          (if zmp_is_special_frame (dec_wire_flags d) then dec_multipart_size d
           else if dec_wire_flags d AND zmp_flag_more \<noteq> 0 then dec_multipart_size d + sz else 0),
        dec_reservation := r\<rparr>)"
    using size_ready_admits [of env d1 sz, unfolded d1] assms(1,2,4,5) by blast
  then show ?thesis
    unfolding v by (auto simp: d1_def dec_agree_def dec_config_def)
qed

lemma sequence_read:
  assumes "dec_clean d" "\<not> dec_wire_flags_bad w" "zmp_is_request_reply_kind kind"
    and h: "h = [zmp_magic, zmp_version, w, kind] @ sz" "length sz = 4"
  shows "\<exists>d'. (\<forall>ys. dec_bytes env (h @ ys) d = dec_bytes env ys d') \<and> dec_to_read d' = 8
     \<and> dec_next d' = Dec_sequence_ready \<and> dec_dest d' = To_tmpbuf \<and> dec_tmpbuf d' = h
     \<and> dec_config d' = dec_config d \<and> dec_msg_flags d' = dec_flags_of_wire w \<and> dec_wire_flags d' = w
     \<and> dec_wire_kind d' = kind \<and> dec_multipart d' = dec_multipart d
     \<and> dec_multipart_size d' = dec_multipart_size d"
proof -
  define d2 where "d2 = dec_next_step To_tmpbuf zmp_request_sequence_size Dec_sequence_ready
      ((dec_store h d)\<lparr>dec_error_code := 0, dec_wire_kind := kind, dec_wire_flags := w,
         dec_msg_flags := dec_flags_of_wire w, dec_request_sequence := 0,
         dec_stage := reading_sequence_extension\<rparr>)"
  have tmp: "dec_tmpbuf (dec_store h d) = h" "dec_next (dec_store h d) = Dec_header_ready"
    using assms(1) by (simp_all add: dec_store_def dec_clean_def)
  have "dec_run_next env (dec_store h d) = (RC_0, d2)"
    using assms(2,3) tmp h by (simp add: dec_run_next_def dec_header_ready_def Let_def d2_def)
  then have "dec_bytes env (h @ ys) d = dec_bytes env ys d2" for ys
    using dec_bytes_run_next [of h d env ys] assms(1) h by (simp add: dec_clean_def dec_cont_def)
  moreover have "dec_config d2 = dec_config d" "dec_tmpbuf d2 = h"
    using assms(1) by (simp_all add: d2_def dec_store_def dec_next_step_def dec_clean_def dec_config_def)
  ultimately show ?thesis
    using assms(1) by (intro exI [of _ d2]) (auto simp: d2_def dec_store_def dec_next_step_def dec_clean_def)
qed

lemma header_read:
  assumes "dec_clean d" "\<not> dec_wire_flags_bad w" "n \<le> 0xffffffff"
    and kind: "kind = zmp_kind_data \<or> zmp_is_request_reply_kind kind"
    and seq: "zmp_is_request_reply_kind kind \<Longrightarrow> seq \<noteq> 0"
  shows "\<exists>d'. dec_bytes env ([zmp_magic, zmp_version, w, kind] @ put_uint32 (word_of_nat n)
        @ (if zmp_is_request_reply_kind kind then put_uint64 seq else []) @ body) d =
      dec_cont env body (validate_header_and_admit env d')
      \<and> unat (get_uint32 (drop 4 (dec_tmpbuf d'))) = n \<and> dec_config d' = dec_config d
      \<and> dec_msg_flags d' = dec_flags_of_wire w \<and> dec_wire_flags d' = w \<and> dec_wire_kind d' = kind
      \<and> dec_request_sequence d' = (if zmp_is_request_reply_kind kind then seq else 0)
      \<and> dec_multipart d' = dec_multipart d \<and> dec_multipart_size d' = dec_multipart_size d"
proof -
  define h where "h = [zmp_magic, zmp_version, w, kind] @ put_uint32 (word_of_nat n)"
  have sz: "unat (get_uint32 (drop 4 (h @ ys))) = n" for ys
    using assms(3) by (simp add: h_def be32.get_put unsigned_of_nat take_bit_nat_eq_self)
  show ?thesis
  proof (cases "zmp_is_request_reply_kind kind")
    case False
    define d1 where "d1 = (dec_store h d)\<lparr>dec_error_code := 0, dec_wire_kind := kind, dec_wire_flags := w,
       dec_msg_flags := dec_flags_of_wire w, dec_request_sequence := 0\<rparr>"
    have h: "length h = 8" "h \<noteq> []" "h ! 0 = zmp_magic" "h ! 1 = zmp_version" "h ! 2 = w" "h ! 3 = kind"
      by (simp_all add: h_def length_simps)
    have tmp: "dec_tmpbuf (dec_store h d) = h" "dec_next (dec_store h d) = Dec_header_ready"
      "dec_config d1 = dec_config d" "dec_multipart d1 = dec_multipart d"
      "dec_multipart_size d1 = dec_multipart_size d" "dec_tmpbuf d1 = h"
      using assms(1) by (simp_all add: d1_def dec_store_def dec_clean_def dec_config_def)
    from False kind have "dec_run_next env (dec_store h d) = validate_header_and_admit env d1"
      using assms(2) h tmp by (simp add: dec_run_next_def dec_header_ready_def Let_def d1_def)
    with False show ?thesis
      using dec_bytes_run_next [of h d env body] h sz [of "[]"] tmp assms(1)
      by (intro exI [of _ d1]) (simp add: h_def [symmetric] dec_clean_def, simp add: h_def d1_def)
  next
    case True
    obtain d2 where d2: "\<And>ys. dec_bytes env (h @ ys) d = dec_bytes env ys d2" "dec_to_read d2 = 8"
       "dec_next d2 = Dec_sequence_ready" "dec_dest d2 = To_tmpbuf" "dec_tmpbuf d2 = h"
       "dec_config d2 = dec_config d" "dec_msg_flags d2 = dec_flags_of_wire w" "dec_wire_flags d2 = w"
       "dec_wire_kind d2 = kind" "dec_multipart d2 = dec_multipart d"
       "dec_multipart_size d2 = dec_multipart_size d"
      using sequence_read [OF assms(1,2) True h_def length_put_uint32, of env] by blast
    define d3 where "d3 = (dec_store (put_uint64 seq) d2)\<lparr>dec_request_sequence := seq\<rparr>"
    have "length h = 8" by (simp add: h_def length_simps)
    then have "dec_run_next env (dec_store (put_uint64 seq) d2) = validate_header_and_admit env d3"
      using d2 seq [OF True] be64.get_put_exact
      by (simp add: dec_run_next_def dec_sequence_ready_def Let_def d3_def dec_store_def)
    moreover have "put_uint64 seq \<noteq> []" using length_put_uint64 [of seq] by force
    ultimately have "dec_bytes env (h @ put_uint64 seq @ body) d = dec_cont env body (validate_header_and_admit env d3)"
      using dec_bytes_run_next [of "put_uint64 seq" d2 env body] d2 by (simp add: length_simps)
    moreover have "dec_tmpbuf d3 = h @ put_uint64 seq" "dec_config d3 = dec_config d"
        "dec_multipart d3 = dec_multipart d" "dec_multipart_size d3 = dec_multipart_size d"
      "dec_msg_flags d3 = dec_flags_of_wire w" "dec_wire_flags d3 = w" "dec_wire_kind d3 = kind"
      "dec_request_sequence d3 = seq"
      using d2 by (simp_all add: d3_def dec_config_def dec_store_def)
    ultimately show ?thesis
      using True sz [of "put_uint64 seq"] by (intro exI [of _ d3]) (simp add: h_def)
  qed
qed

text \<open>The frame that the encoder builds for a message is read back as that message.\<close>

lemma frame_roundtrip:
  assumes clean: "dec_clean d" and opn: "env_open env d" and app: "dec_max_application d \<le> UINT64_MAX"
    and hdr: "build_header m (Some zmp_request_reply_header_size) (dec_multipart d) = Inr (hdr, mp)"
    and exp: "wire_expressible (msg_flags m)"
    and fits: "frame_fits (dec_max_msg_size d) (dec_max_application d) (dec_multipart_size d) m"
  shows "\<exists>d'. dec_bytes env (hdr @ msg_data m) d = ([wire_view m], None, d')
     \<and> dec_clean d' \<and> dec_config d' = dec_config d \<and> dec_multipart d' = mp
     \<and> dec_multipart_size d' = next_multipart_size (dec_multipart_size d) m"
proof -
  obtain has kind seq where md: "get_request_reply_metadata m = (has, kind, seq)" by (metis prod_cases3)
  define w where "w = zmp_wire_flags (msg_flags m)"
  note facts = wire_expressible_facts [OF exp, folded w_def]
  have len: "msg_size m \<le> 0xffffffff"
    and rr: "has \<Longrightarrow> zmp_is_request_reply_kind kind \<and> seq \<noteq> 0 \<and> \<not> zmp_is_special_frame w"
    and hdr_eq: "hdr = [zmp_magic, zmp_version, w, kind] @ put_uint32 (word_of_nat (msg_size m))
        @ (if has then put_uint64 seq else [])"
    and mpok: "\<not> (dec_multipart d \<and> (msg_special (msg_flags m) \<or> has))"
    and mp: "mp = (if msg_special (msg_flags m) then dec_multipart d else msg_flags m AND f_more \<noteq> 0)"
    using hdr by (auto simp: build_header_def build_zmp_data_header_def md Let_def w_def
        msg_special_def split: if_splits sum.splits)
  have nrr: "\<not> has \<Longrightarrow> kind = 0 \<and> seq = 0" and rr_iff: "zmp_is_request_reply_kind kind = has"
    using md rr by (auto simp: get_request_reply_metadata_def zmp_is_request_reply_kind_def
        split: auxiliary.splits)
  have kind: "kind = zmp_kind_data \<or> zmp_is_request_reply_kind kind" and seq: "zmp_is_request_reply_kind kind \<Longrightarrow> seq \<noteq> 0"
    using nrr rr rr_iff by auto
  obtain d1 where d1: "dec_bytes env (hdr @ msg_data m) d = dec_cont env (msg_data m) (validate_header_and_admit env d1)"
      "unat (get_uint32 (drop 4 (dec_tmpbuf d1))) = msg_size m" "dec_config d1 = dec_config d"
      "dec_msg_flags d1 = dec_flags_of_wire w" "dec_wire_flags d1 = w" "dec_wire_kind d1 = kind"
      "dec_request_sequence d1 = (if has then seq else 0)"
      "dec_multipart d1 = dec_multipart d" "dec_multipart_size d1 = dec_multipart_size d"
    using header_read [OF clean facts(1) len kind seq, of env "msg_data m"] by (auto simp: hdr_eq rr_iff)
  have cfg: "dec_max_msg_size d1 = dec_max_msg_size d" "dec_max_application d1 = dec_max_application d"
    "env_open env d1 = env_open env d"
    using d1(3) by (auto simp: dec_config_def env_open_def)
  obtain d2 where d2: "validate_header_and_admit env d1 = start_payload env (msg_size m) d2" "dec_agree d2 d1"
      "dec_next_multipart d2 = mp" "dec_next_multipart_size d2 = next_multipart_size (dec_multipart_size d) m"
    using validate_admits [of env d1 "msg_size m"] opn app fits mpok rr d1 cfg facts
    by (auto simp: frame_fits_def next_multipart_size_def mp rr_iff split: if_splits)
  have alloc: "env_alloc env (length (msg_data m))" using opn by (simp add: env_open_def)
  show ?thesis
    using payload_bytes [OF alloc, of d2] d1 d2 rr rr_iff facts md
    by (auto simp: dec_agree_def wire_view_def get_request_reply_metadata_def split: auxiliary.splits)
qed

subsection \<open>Sequences of messages\<close>

text \<open>The bytes of a sequence of messages, starting with the given multipart state.\<close>

fun zmp_frames :: "bool \<Rightarrow> msg list \<Rightarrow> errno + byte list \<times> bool" where
  "zmp_frames mp [] = Inr ([], mp)"
| "zmp_frames mp (m # ms) =
     (case build_header m (Some zmp_request_reply_header_size) mp of
        Inl er \<Rightarrow> Inl er
      | Inr (hdr, mp') \<Rightarrow>
          (case zmp_frames mp' ms of
             Inl er \<Rightarrow> Inl er
           | Inr (bs, mp'') \<Rightarrow> Inr (hdr @ msg_data m @ bs, mp'')))"

fun stream_fits :: "nat \<Rightarrow> nat \<Rightarrow> nat \<Rightarrow> msg list \<Rightarrow> bool" where
  "stream_fits frame_max app_max acc [] \<longleftrightarrow> True"
| "stream_fits frame_max app_max acc (m # ms) \<longleftrightarrow>
     wire_expressible (msg_flags m) \<and> frame_fits frame_max app_max acc m
     \<and> stream_fits frame_max app_max (next_multipart_size acc m) ms"

lemma stream_roundtrip:
  assumes "dec_clean d" "env_open env d" "dec_max_application d \<le> UINT64_MAX"
    and "zmp_frames (dec_multipart d) ms = Inr (bs, mp)"
    and "stream_fits (dec_max_msg_size d) (dec_max_application d) (dec_multipart_size d) ms"
  shows "\<exists>d'. dec_bytes env bs d = (map wire_view ms, None, d')
     \<and> dec_clean d' \<and> dec_config d' = dec_config d \<and> dec_multipart d' = mp"
  using assms
proof (induction ms arbitrary: d bs)
  case (Cons m ms)
  obtain hdr mp1 bs1 where b: "build_header m (Some zmp_request_reply_header_size) (dec_multipart d) = Inr (hdr, mp1)"
      "zmp_frames mp1 ms = Inr (bs1, mp)" "bs = hdr @ msg_data m @ bs1"
    using Cons.prems(4) by (auto split: sum.splits)
  obtain d1 where d1: "dec_bytes env (hdr @ msg_data m) d = ([wire_view m], None, d1)" "dec_clean d1"
      "dec_config d1 = dec_config d" "dec_multipart d1 = mp1"
      "dec_multipart_size d1 = next_multipart_size (dec_multipart_size d) m"
    using frame_roundtrip [OF Cons.prems(1-3) b(1)] Cons.prems(5) by auto
  have "dec_max_msg_size d1 = dec_max_msg_size d" "dec_max_application d1 = dec_max_application d"
      "env_open env d1"
    using d1(3) Cons.prems(2) by (auto simp: dec_config_def env_open_def)
  then obtain d2 where d2: "dec_bytes env bs1 d1 = (map wire_view ms, None, d2)"
      "dec_clean d2" "dec_config d2 = dec_config d1" "dec_multipart d2 = mp"
    using Cons.IH [of d1 bs1] Cons.prems d1 b(2) by auto
  then show ?case
    using d1 dec_bytes_append [of env "hdr @ msg_data m" bs1 d] by (simp add: b(3))
qed simp

subsection \<open>From encoder to decoder\<close>

text \<open>The output side of an engine: each message is loaded into the idle encoder and \<open>encode\<close> is
  called with the given buffers. \<open>None\<close> stands for a violated assertion or a message that is not
  finished by the calls listed for it.\<close>

fun enc_stream :: "(msg \<times> nat option list) list \<Rightarrow> encoder \<Rightarrow> (byte list \<times> encoder) option" where
  "enc_stream [] e = Some ([], e)"
| "enc_stream ((m, ds) # rest) e =
     (case load_msg m e of
        None \<Rightarrow> None
      | Some e1 \<Rightarrow>
          (case encode_calls ds e1 of
             (out, e2) \<Rightarrow>
               if enc_in_progress e2 \<noteq> None then None
               else map_option (\<lambda>(outs, e3). (out @ outs, e3)) (enc_stream rest e2)))"

text \<open>Enough calls for a frame: one more than its length always suffices.\<close>

definition enough_calls :: "msg \<times> nat option list \<Rightarrow> bool" where
  "enough_calls = (\<lambda>(m, ds). zmp_request_reply_header_size + msg_size m < length ds \<and> Some 0 \<notin> set ds)"

lemma build_header_length:
  "build_header m b mp = Inr (hdr, mp') \<Longrightarrow> length hdr \<le> zmp_request_reply_header_size"
  by (auto simp: build_header_def build_zmp_data_header_def Let_def length_simps
      split: sum.splits prod.splits if_splits)

lemma load_msg_frame:
  assumes "enc_wf e" "enc_in_progress e = None"
    and "build_header m (Some zmp_request_reply_header_size) (enc_multipart e) = Inr (hdr, mp)"
  shows "\<exists>e1. load_msg m e = Some e1 \<and> enc_wf e1 \<and> enc_in_progress e1 = Some m
     \<and> enc_remaining e1 = hdr @ msg_data m \<and> enc_multipart e1 = mp \<and> enc_buf_size e1 = enc_buf_size e"
  using assms by (auto simp: load_msg_def enc_run_next_def enc_header_ready_def enc_wf_def
      enc_remaining_def enc_next_step_def)

lemma encode_frame:
  assumes "enc_wf e" "0 < enc_buf_size e" "enc_in_progress e = None"
    and hdr: "build_header m (Some zmp_request_reply_header_size) (enc_multipart e) = Inr (hdr, mp)"
    and calls: "enough_calls (m, ds)"
  shows "\<exists>e1 e2. load_msg m e = Some e1 \<and> encode_calls ds e1 = (hdr @ msg_data m, e2) \<and> enc_wf e2
     \<and> enc_in_progress e2 = None \<and> enc_multipart e2 = mp \<and> enc_buf_size e2 = enc_buf_size e"
proof -
  obtain e1 where e1: "load_msg m e = Some e1" "enc_wf e1" "enc_remaining e1 = hdr @ msg_data m"
      "enc_multipart e1 = mp" "enc_buf_size e1 = enc_buf_size e"
    using load_msg_frame [OF assms(1,3) hdr] by blast
  obtain out e2 where e2: "encode_calls ds e1 = (out, e2)" by force
  have ok: "enc_buffers_ok ds e1" and len: "length (enc_remaining e1) < length ds"
    using assms(2) calls e1 build_header_length [OF hdr] by (auto simp: enc_buffers_ok_def enough_calls_def)
  note c = encode_calls_correct [OF e1(2) ok e2]
  then have fin: "enc_in_progress e2 = None" using len by blast
  then have "enc_remaining e2 = []" using c by (simp add: enc_remaining_def enc_wf_def)
  with c fin e1 e2 show ?thesis by auto
qed

lemma enc_stream_frames:
  assumes "enc_wf e" "0 < enc_buf_size e" "enc_in_progress e = None"
    and "zmp_frames (enc_multipart e) (map fst sends) = Inr (bs, mp)"
    and "list_all enough_calls sends"
  shows "\<exists>e'. enc_stream sends e = Some (bs, e')"
  using assms
proof (induction sends arbitrary: e bs)
  case (Cons s sends)
  obtain m ds where s: "s = (m, ds)" by force
  obtain hdr mp1 bs1 where b: "build_header m (Some zmp_request_reply_header_size) (enc_multipart e) = Inr (hdr, mp1)"
      "zmp_frames mp1 (map fst sends) = Inr (bs1, mp)" "bs = hdr @ msg_data m @ bs1"
    using Cons.prems(4) by (auto simp: s split: sum.splits)
  obtain e1 e2 where e: "load_msg m e = Some e1" "encode_calls ds e1 = (hdr @ msg_data m, e2)" "enc_wf e2"
      "enc_in_progress e2 = None" "enc_multipart e2 = mp1" "enc_buf_size e2 = enc_buf_size e"
    using encode_frame [OF Cons.prems(1-3) b(1), of ds] Cons.prems(5) by (auto simp: s)
  then obtain e' where "enc_stream sends e2 = Some (bs1, e')"
    using Cons.IH [of e2 bs1] Cons.prems b by auto
  with e show ?case by (simp add: s b(3))
qed simp

text \<open>C1: Whatever sequence of messages an encoder is given, if every message can be framed in turn,
  is expressible on the wire and respects the receiver's limits, then for every choice of output
  buffers with enough calls the encoder emits the stream without violating an assertion, and for
  every way the transport cuts that stream into chunks the decoder delivers exactly these messages
  in order (as their wire view: payload, flags and request-reply metadata) without an error and
  stands at a frame boundary again.\<close>

theorem zmp_end_to_end:
  assumes "0 < bufsize"
    and "zmp_frames False (map fst sends) = Inr (bs, False)"
    and "list_all enough_calls sends"
    and "stream_fits (compute_effective_max maxmsgsize) (compute_application_message_max maxmsgsize) 0
           (map fst sends)"
    and "maxmsgsize < 2 ^ 63" "env_open env (zmp_decoder_init maxmsgsize)"
    and "concat chunks = bs"
  shows "\<exists>e' d'. enc_stream sends (zmp_encoder_init bufsize) = Some (bs, e')
     \<and> dec_feed env chunks (zmp_decoder_init maxmsgsize) = (map (wire_view \<circ> fst) sends, None, d')
     \<and> stream_end d' = (RC_0, d')"
proof -
  define d where "d = zmp_decoder_init maxmsgsize"
  have d: "dec_clean d" "dec_max_application d \<le> UINT64_MAX" "\<not> dec_multipart d" "dec_multipart_size d = 0"
      "dec_max_msg_size d = compute_effective_max maxmsgsize"
      "dec_max_application d = compute_application_message_max maxmsgsize"
    using assms(5) by (auto simp: d_def zmp_decoder_init_def dec_restart_def dec_next_step_def dec_clean_def
        compute_application_message_max_def)
  obtain d' where d': "dec_bytes env bs d = (map wire_view (map fst sends), None, d')" "dec_clean d'"
      "\<not> dec_multipart d'"
    using stream_roundtrip [OF d(1) assms(6) [folded d_def] d(2), of "map fst sends" bs False] assms(2,4) d
    by auto
  have "dec_feed env chunks d = (map (wire_view \<circ> fst) sends, None, d')"
    using dec_feed_bytes [of d env chunks] d(1) d'(1) assms(7) by (simp add: dec_clean_def)
  moreover have "stream_end d' = (RC_0, d')"
    using d' by (simp add: stream_end_def dec_clean_def)
  moreover have "\<exists>e'. enc_stream sends (zmp_encoder_init bufsize) = Some (bs, e')"
    using enc_stream_frames [OF enc_wf_init, of bufsize sends bs False] assms
    by (simp add: zmp_encoder_init_def enc_next_step_def)
  ultimately show ?thesis by (auto simp: d_def)
qed

text \<open>A two-part message followed by a request, sent through an eight byte buffer and received in
  uneven chunks.\<close>

definition ex_env :: dec_env where
  "ex_env = \<lparr>env_admit = (\<lambda>_ _. Inr None), env_alloc = (\<lambda>_. True)\<rparr>"

definition ex_sends :: "(msg \<times> nat option list) list" where
  "ex_sends =
     [(msg_init\<lparr>msg_flags := f_more, msg_data := [1, 2, 3]\<rparr>, replicate 20 None),
      (msg_init\<lparr>msg_data := [4]\<rparr>, replicate 20 (Some 3)),
      (msg_init\<lparr>msg_aux := Aux_request_reply zmp_kind_request 7, msg_data := [5, 6]\<rparr>, replicate 20 None)]"

definition ex_bytes :: "byte list" where
  "ex_bytes = [0x5a, 1, 1, 0, 0, 0, 0, 3, 1, 2, 3, 0x5a, 1, 0, 0, 0, 0, 0, 1, 4,
     0x5a, 1, 0, 1, 0, 0, 0, 2, 0, 0, 0, 0, 0, 0, 0, 7, 5, 6]"

lemma ex_frames: "zmp_frames False (map fst ex_sends) = Inr (ex_bytes, False)"
  by (simp add: ex_sends_def ex_bytes_def build_header_def build_zmp_data_header_def Let_def
      get_request_reply_metadata_def enc_special_flags_def zmp_wire_flags_def put_uint32_def put_uint64_def
      byte_of_def zmp_is_request_reply_kind_def zmp_is_special_frame_def zmp_special_frame_flags_def)

theorem zmp_end_to_end_witness:
  "\<exists>e' d'. enc_stream ex_sends (zmp_encoder_init 8) = Some (ex_bytes, e')
     \<and> dec_feed ex_env [take 5 ex_bytes, drop 5 ex_bytes] (zmp_decoder_init 0)
         = (map (wire_view \<circ> fst) ex_sends, None, d')
     \<and> stream_end d' = (RC_0, d')"
proof (rule zmp_end_to_end [where bs = ex_bytes])
  show "list_all enough_calls ex_sends" by (simp add: ex_sends_def enough_calls_def)
  show "stream_fits (compute_effective_max 0) (compute_application_message_max 0) 0 (map fst ex_sends)"
    by (simp add: ex_sends_def compute_effective_max_def compute_application_message_max_def
        wire_expressible_def wire_msg_flags_def frame_fits_def next_multipart_size_def msg_special_def
        enc_special_flags_def)
  show "env_open ex_env (zmp_decoder_init 0)" by (simp add: env_open_def ex_env_def)
qed (simp_all add: ex_frames)

end
