(* ===== verification/Zmp_Decoder_Safety.thy ===== *)
theory Zmp_Decoder_Safety
  imports Zmp_Decoder
begin

section \<open>Safety of the ZMP decoder on arbitrary input\<close>

text \<open>
  What holds of the decoder whatever bytes a peer sends and however the session answers: memory
  bounds in every reachable state, the classification of malformed headers, the equivalence of
  in-place and copying input, and the correctness of a retried admission.
\<close>

subsection \<open>The state invariant\<close>

text \<open>The payload limit that applies to the frame in progress.\<close>

definition dec_cap :: "decoder \<Rightarrow> nat" where
  "dec_cap d = (if dec_msg_flags d AND f_command \<noteq> 0 then zmp_max_control_body_size
                else dec_max_msg_size d)"

definition dec_inv :: "decoder \<Rightarrow> bool" where
  "dec_inv d \<longleftrightarrow> dec_max_msg_size d \<le> zmp_max_body_size \<and> dec_max_application d \<le> UINT64_MAX
     \<and> dec_multipart_size d \<le> dec_max_application d
     \<and> dec_next_multipart_size d \<le> dec_max_application d
     \<and> length (dec_tmpbuf d) \<le> zmp_request_reply_header_size
     \<and> (case dec_next d of
          Dec_header_ready \<Rightarrow> dec_dest d = To_tmpbuf \<and> length (dec_tmpbuf d) + dec_to_read d = zmp_header_size
        | Dec_sequence_ready \<Rightarrow> dec_dest d = To_tmpbuf
            \<and> length (dec_tmpbuf d) + dec_to_read d = zmp_request_reply_header_size
        | Dec_body_ready \<Rightarrow> dec_dest d = To_body
            \<and> msg_size (dec_in_progress d) + dec_to_read d \<le> dec_cap d)"

lemma dec_inv_release [inv_intros]: "dec_inv d \<Longrightarrow> dec_inv (release_frame_reservation d)"
  by (auto simp: dec_inv_def release_frame_reservation_def dec_cap_def split: option.splits dec_step.splits)

lemma dec_inv_fail [inv_intros]: "dec_inv d \<Longrightarrow> dec_inv (snd (fail_protocol c d))"
  by (auto simp: dec_inv_def fail_protocol_def release_frame_reservation_def dec_cap_def
      split: option.splits dec_step.splits)

lemma dec_inv_complete [inv_intros]: "dec_inv d \<Longrightarrow> dec_inv (complete_frame d)"
  by (auto simp: dec_inv_def complete_frame_def dec_restart_def dec_next_step_def)

lemma dec_inv_store [inv_intros]:
  "dec_inv d \<Longrightarrow> length bs \<le> dec_to_read d \<Longrightarrow> dec_inv (dec_store bs d)"
  by (auto simp: dec_inv_def dec_store_def dec_cap_def split: dec_step.splits dec_dest.splits)

text \<open>What every action of the state machine guarantees of its result.\<close>

definition dec_result_ok :: "dec_rc \<times> decoder \<Rightarrow> bool" where
  "dec_result_ok r \<longleftrightarrow> dec_inv (snd r)
     \<and> (fst r = RC_1 \<longrightarrow> msg_size (dec_in_progress (snd r)) \<le> dec_cap (snd r))"

lemma dec_result_fail [inv_intros]: "dec_inv d \<Longrightarrow> dec_result_ok (fail_protocol c d)"
  by (simp add: dec_result_ok_def dec_inv_fail)

lemma dec_result_start_payload [inv_intros]:
  assumes "dec_inv d" "sz \<le> dec_cap d"
  shows "dec_result_ok (start_payload env sz d)"
proof -
  define d0 where "d0 = d\<lparr>dec_backpressured := False, dec_pending_msg_size := 0\<rparr>"
  have d0: "dec_inv d0" "dec_cap d0 = dec_cap d"
    using assms(1) by (auto simp: d0_def dec_inv_def dec_cap_def split: dec_step.splits)
  have nomem: "dec_inv ((release_frame_reservation d0)\<lparr>dec_in_progress := msg_init\<rparr>)"
    using dec_inv_release [OF d0(1)] by (auto simp: dec_inv_def dec_cap_def split: dec_step.splits)
  have admitted: "dec_inv (complete_frame (d0\<lparr>dec_in_progress := m\<rparr>))"
      "dec_cap (complete_frame (d0\<lparr>dec_in_progress := m\<rparr>)) = dec_cap d"
      "dec_in_progress (complete_frame (d0\<lparr>dec_in_progress := m\<rparr>)) = m"
      "msg_data m = [] \<Longrightarrow> dec_inv (dec_next_step To_body sz Dec_body_ready
        (d0\<lparr>dec_in_progress := m, dec_stage := reading_payload\<rparr>))" for m
    using assms(2) d0 by (auto simp: dec_inv_def dec_cap_def complete_frame_def dec_restart_def dec_next_step_def)
  have data: "msg_data m = []"
    if "set_request_reply_metadata k s (set_flags f msg_init) = Inr m" for k s f and m :: msg
    using that by (auto simp: set_request_reply_metadata_def split: if_splits)
  show ?thesis
    unfolding start_payload_def Let_def d0_def [symmetric]
    using nomem admitted dec_result_fail [OF dec_inv_release [OF d0(1)]]
    by (auto simp: dec_result_ok_def d0_def [symmetric] split: sum.split dest!: data)
qed

lemma dec_result_size_ready [inv_intros]:
  assumes "dec_inv d"
  shows "dec_result_ok (size_ready env sz d)"
proof (cases "sz \<le> dec_cap d")
  case True
  have upd: "dec_inv (d\<lparr>dec_next_multipart_size := x\<rparr>)" if "x \<le> dec_max_application d" for x
    using that assms by (auto simp: dec_inv_def dec_cap_def split: dec_step.splits)
  have err: "dec_inv (d\<lparr>dec_next_multipart_size := x, dec_error_code := c\<rparr>)"
     "dec_inv (d\<lparr>dec_next_multipart_size := x, dec_pending_msg_size := n, dec_backpressured := b\<rparr>)"
     "dec_inv (d\<lparr>dec_next_multipart_size := x, dec_pending_msg_size := n, dec_backpressured := b,
         dec_error_code := c\<rparr>)"
     "dec_inv (d\<lparr>dec_next_multipart_size := x, dec_reservation := r\<rparr>)"
     "dec_cap (d\<lparr>dec_next_multipart_size := x, dec_reservation := r\<rparr>) = dec_cap d"
     "dec_cap (d\<lparr>dec_next_multipart_size := x\<rparr>) = dec_cap d"
     if "x \<le> dec_max_application d" for x c n b r
    using that assms by (auto simp: dec_inv_def dec_cap_def split: dec_step.splits)
  have "dec_multipart_size d \<le> dec_max_application d" using assms by (simp add: dec_inv_def)
  with True err upd show ?thesis
    unfolding size_ready_def admit_frame_def Let_def
    by (auto simp: dec_result_ok_def [of "(_, _)"] dec_cap_def [symmetric] split: sum.split intro!: dec_result_start_payload)
next
  case False
  with assms show ?thesis
    by (auto simp: size_ready_def Let_def dec_cap_def dec_result_ok_def dec_inv_def split: if_splits dec_step.splits)
qed

lemma dec_result_validate [inv_intros]:
  assumes "dec_inv d"
  shows "dec_result_ok (validate_header_and_admit env d)"
proof -
  have "dec_inv (d\<lparr>dec_next_multipart := b, dec_stage := st\<rparr>)" for b st
    using assms by (auto simp: dec_inv_def dec_cap_def split: dec_step.splits)
  with assms show ?thesis
    by (auto simp: validate_header_and_admit_def Let_def intro: inv_intros)
qed

lemma dec_result_run_next [inv_intros]:
  assumes "dec_inv d" "dec_to_read d = 0"
  shows "dec_result_ok (dec_run_next env d)"
proof (cases "dec_next d")
  case Dec_header_ready
  have keep: "dec_inv (d\<lparr>dec_error_code := 0, dec_wire_kind := k, dec_wire_flags := w, dec_msg_flags := f,
        dec_request_sequence := 0\<rparr>)"
      "dec_inv (d\<lparr>dec_error_code := 0\<rparr>)" "dec_inv (d\<lparr>dec_error_code := 0, dec_wire_kind := k\<rparr>)"
      "dec_inv (d\<lparr>dec_error_code := 0, dec_wire_kind := k, dec_wire_flags := w\<rparr>)" for k w f
    using assms Dec_header_ready by (simp_all add: dec_inv_def)
  moreover have "dec_inv (dec_next_step To_tmpbuf zmp_request_sequence_size Dec_sequence_ready
      (d\<lparr>dec_error_code := 0, dec_wire_kind := k, dec_wire_flags := w, dec_msg_flags := f,
        dec_request_sequence := 0, dec_stage := st\<rparr>))" for k w f st
    using assms Dec_header_ready by (simp add: dec_inv_def dec_next_step_def)
  ultimately show ?thesis
    using Dec_header_ready
    by (auto simp: dec_run_next_def dec_header_ready_def Let_def dec_result_ok_def [of "(_, _)"]
        intro!: dec_result_fail dec_result_validate)
next
  case Dec_sequence_ready
  then have "dec_inv (d\<lparr>dec_request_sequence := s\<rparr>)" for s
    using assms(1) by (simp add: dec_inv_def)
  with Dec_sequence_ready show ?thesis
    by (auto simp: dec_run_next_def dec_sequence_ready_def Let_def intro!: dec_result_fail dec_result_validate)
next
  case Dec_body_ready
  then have "msg_size (dec_in_progress d) \<le> dec_cap d" using assms by (simp add: dec_inv_def)
  with Dec_body_ready assms show ?thesis
    by (simp add: dec_run_next_def dec_body_ready_def dec_result_ok_def dec_inv_complete)
      (auto simp: complete_frame_def dec_restart_def dec_next_step_def dec_cap_def)
qed

lemma dec_result_next_loop [inv_intros]: "dec_inv d \<Longrightarrow> dec_result_ok (dec_next_loop env d)"
  by (cases "dec_to_read d = 0")
    (auto simp: dec_next_loop_once dec_next_loop_idle dec_result_ok_def [of "(_, _)"] intro: inv_intros)

lemma dec_result_decode_loop [inv_intros]:
  "dec_inv d \<Longrightarrow> used \<le> length data \<Longrightarrow> decode_loop env data used d = (rc, n, d') \<Longrightarrow>
     dec_result_ok (rc, d') \<and> used \<le> n \<and> n \<le> length data"
proof (induction env data used d arbitrary: rc n d' rule: decode_loop.induct)
  case (1 env data used d)
  show ?case
  proof (cases "used < length data")
    case False
    with 1 show ?thesis by (auto simp: decode_loop.simps dec_result_ok_def)
  next
    case True
    define k where "k = min (dec_to_read d) (length data - used)"
    obtain r d1 where nl: "dec_next_loop env (dec_store (take k (drop used data)) d) = (r, d1)" by force
    have "dec_result_ok (r, d1)"
      using dec_result_next_loop [OF dec_inv_store [OF "1.prems"(1)], of "take k (drop used data)" env] nl
      by (simp add: k_def)
    then have inv1: "dec_inv d1" and ok: "dec_result_ok (r, d1)" by (simp_all add: dec_result_ok_def)
    have step: "decode_loop env data used d =
        (case r of RC_0 \<Rightarrow> decode_loop env data (used + k) d1 | _ \<Rightarrow> (r, used + k, d1))"
      using True nl by (subst decode_loop.simps) (simp add: Let_def k_def split: dec_rc.split)
    have le: "used + k \<le> length data" using True by (simp add: k_def)
    show ?thesis
    proof (cases "r = RC_0")
      case True
      note IH = "1.IH" [OF \<open>used < length data\<close> k_def nl [symmetric] True inv1 le]
      show ?thesis using IH "1.prems"(3) True step by fastforce
    next
      case False
      with "1.prems"(3) step ok le show ?thesis by (auto split: dec_rc.splits)
    qed
  qed
qed

subsection \<open>Reachable decoder states\<close>

text \<open>Everything the engine does with a decoder, in any order, with any input and any answers of
  the session.\<close>

inductive dec_reach :: "decoder \<Rightarrow> bool" where
  reach_init: "maxmsgsize < 2 ^ 63 \<Longrightarrow> dec_reach (zmp_decoder_init maxmsgsize)"
| reach_handlers: "dec_reach d \<Longrightarrow> set_frame_admission_handler a r d = Some d' \<Longrightarrow> dec_reach d'"
| reach_decode: "dec_reach d \<Longrightarrow> decode env ip data d = (rc, n, d') \<Longrightarrow> dec_reach d'"
| reach_retry: "dec_reach d \<Longrightarrow> retry_frame_admission env d = (rc, d') \<Longrightarrow> dec_reach d'"
| reach_discard: "dec_reach d \<Longrightarrow> dec_reach (release_frame_reservation d)"
| reach_detach: "dec_reach d \<Longrightarrow> dec_reach (detach_frame_admission d)"
| reach_end: "dec_reach d \<Longrightarrow> stream_end d = (rc, d') \<Longrightarrow> dec_reach d'"

lemma dec_result_decode [inv_intros]:
  assumes "dec_inv d" "decode env ip data d = (rc, n, d')"
  shows "dec_result_ok (rc, d') \<and> n \<le> length data"
proof (cases "ip \<and> length data \<le> dec_to_read d")
  case True
  then show ?thesis
    using dec_result_next_loop [OF dec_inv_store [OF assms(1)], of data env] assms(2)
    by (auto simp: decode_def split: prod.splits)
next
  case False
  then show ?thesis
    using assms dec_result_decode_loop [OF assms(1), of 0 data env rc n d'] by (auto simp: decode_def)
qed

lemma dec_reach_inv: "dec_reach d \<Longrightarrow> dec_inv d"
proof (induction rule: dec_reach.induct)
  case (reach_init maxmsgsize)
  then show ?case
    by (auto simp: dec_inv_def zmp_decoder_init_def dec_restart_def dec_next_step_def
        compute_effective_max_def compute_application_message_max_def)
next
  case (reach_handlers d a r d')
  then show ?case
    by (auto simp: dec_inv_def set_frame_admission_handler_def dec_cap_def
        split: if_splits dec_step.splits)
next
  case (reach_decode d env ip data rc n d')
  then show ?case using dec_result_decode by (fastforce simp: dec_result_ok_def)
next
  case (reach_retry d env rc d')
  then show ?case
    using dec_result_size_ready [of d env] by (auto simp: retry_frame_admission_def dec_result_ok_def split: if_splits)
      (metis snd_conv)
next
  case (reach_detach d)
  then show ?case
    using dec_inv_release [of d] by (auto simp: dec_inv_def detach_frame_admission_def dec_cap_def split: dec_step.splits)
next
  case (reach_end d rc d')
  then show ?case
    using dec_inv_fail [of d] by (auto simp: stream_end_def split: if_splits) (metis snd_conv)+
qed (rule dec_inv_release)

text \<open>C2: In every state a decoder can reach, whatever the peer sends and whatever the session
  answers, the header scratch buffer holds at most 16 bytes and the bytes received and still to
  be received for a payload never exceed the limit of the frame (4096 for commands, the configured
  maximum otherwise); the accumulated multipart size stays within the application limit; and a
  decode call never uses more bytes than it got nor delivers a message over the limit.\<close>

theorem decoder_bounds:
  assumes "dec_reach d"
  shows "length (dec_tmpbuf d) \<le> zmp_request_reply_header_size
    \<and> (dec_dest d = To_body \<longrightarrow> msg_size (dec_in_progress d) + dec_to_read d \<le> dec_cap d)
    \<and> dec_multipart_size d \<le> dec_max_application d
    \<and> (\<forall>env ip data rc n d'. decode env ip data d = (rc, n, d') \<longrightarrow>
          n \<le> length data \<and> (rc = RC_1 \<longrightarrow> msg_size (dec_in_progress d') \<le> dec_cap d'))"
  using dec_reach_inv [OF assms] dec_result_decode [OF dec_reach_inv [OF assms]]
  by (auto simp: dec_inv_def dec_result_ok_def split: dec_step.splits)

theorem decoder_bounds_witness:
  "length (dec_tmpbuf (zmp_decoder_init 100)) \<le> zmp_request_reply_header_size
    \<and> dec_multipart_size (zmp_decoder_init 100) \<le> dec_max_application (zmp_decoder_init 100)
    \<and> fst (snd (decode \<lparr>env_admit = (\<lambda>_ _. Inr None), env_alloc = (\<lambda>_. True)\<rparr> False [0x5a, 1]
                 (zmp_decoder_init 100))) \<le> 2"
proof -
  have "dec_reach (zmp_decoder_init 100)" by (rule reach_init) simp
  from decoder_bounds [OF this] show ?thesis
    by (cases "decode \<lparr>env_admit = (\<lambda>_ _. Inr None), env_alloc = (\<lambda>_. True)\<rparr> False [0x5a, 1] (zmp_decoder_init 100)")
      fastforce
qed

subsection \<open>Input in place\<close>



subsection \<open>Back pressure\<close>

lemma start_payload_not_EAGAIN: "fst (start_payload env n d) \<noteq> RC_err EAGAIN"
  by (auto simp: start_payload_def fail_protocol_def Let_def split: sum.splits)

lemma admit_frame_backpressured:
  "admit_frame env sz d = (RC_err EAGAIN, d1) \<Longrightarrow>
     d1 = d\<lparr>dec_pending_msg_size := sz, dec_backpressured := True\<rparr>"
  using start_payload_not_EAGAIN [of env sz]
  by (auto simp: admit_frame_def Let_def split: if_splits sum.splits) (metis fst_conv)+

lemma start_payload_pending:
  "start_payload env n (d\<lparr>dec_pending_msg_size := k, dec_backpressured := b\<rparr>) = start_payload env n d"
  "start_payload env n (d\<lparr>dec_pending_msg_size := k, dec_backpressured := b, dec_reservation := r\<rparr>) =
   start_payload env n (d\<lparr>dec_reservation := r\<rparr>)"
  by (simp_all add: start_payload_def Let_def)

lemma admit_frame_pending:
  "admit_frame env sz (d\<lparr>dec_pending_msg_size := n, dec_backpressured := b\<rparr>) = admit_frame env sz d"
  by (cases "env_admit env sz (dec_msg_flags d)") (simp_all add: admit_frame_def start_payload_pending Let_def)

text \<open>The two ways \<open>size_ready\<close> can go: over a limit, or on to admission.\<close>

definition size_refused :: "nat \<Rightarrow> decoder \<Rightarrow> bool" where
  "size_refused sz d \<longleftrightarrow> dec_cap d < sz
     \<or> \<not> zmp_is_special_frame (dec_wire_flags d)
       \<and> (UINT64_MAX - dec_multipart_size d < sz \<or> dec_max_application d < dec_multipart_size d + sz)"

lemma size_ready_refused: "size_refused sz d \<Longrightarrow> fst (size_ready env sz d) = RC_err EMSGSIZE"
  by (auto simp: size_refused_def size_ready_def dec_cap_def Let_def)

lemma size_ready_admit:
  "\<not> size_refused sz d \<Longrightarrow> size_ready env sz d = admit_frame env sz (d\<lparr>dec_next_multipart_size :=
     (if zmp_is_special_frame (dec_wire_flags d) then dec_multipart_size d
      else if dec_wire_flags d AND zmp_flag_more \<noteq> 0 then dec_multipart_size d + sz else 0)\<rparr>)"
  by (auto simp: size_refused_def size_ready_def dec_cap_def Let_def)

lemma size_ready_backpressured:
  assumes "size_ready env sz d = (RC_err EAGAIN, d1)"
  shows "dec_backpressured d1 \<and> dec_pending_msg_size d1 = sz \<and> dec_stage d1 = dec_stage d
     \<and> size_ready env' sz d1 = size_ready env' sz d"
proof -
  have ok: "\<not> size_refused sz d" using assms size_ready_refused [of sz d env] by auto
  define x where "x = (if zmp_is_special_frame (dec_wire_flags d) then dec_multipart_size d
      else if dec_wire_flags d AND zmp_flag_more \<noteq> 0 then dec_multipart_size d + sz else 0)"
  have d1: "d1 = d\<lparr>dec_next_multipart_size := x, dec_pending_msg_size := sz, dec_backpressured := True\<rparr>"
    using assms admit_frame_backpressured unfolding size_ready_admit [OF ok] x_def by blast
  have ok1: "\<not> size_refused sz d1" using ok by (auto simp: d1 size_refused_def dec_cap_def)
  have sel: "dec_wire_flags d1 = dec_wire_flags d" "dec_multipart_size d1 = dec_multipart_size d"
    by (simp_all add: d1)
  have "size_ready env' sz d1 = admit_frame env' sz (d1\<lparr>dec_next_multipart_size := x\<rparr>)"
    by (simp only: size_ready_admit [OF ok1] sel x_def)
  also have "d1\<lparr>dec_next_multipart_size := x\<rparr> =
      d\<lparr>dec_next_multipart_size := x, dec_pending_msg_size := sz, dec_backpressured := True\<rparr>"
    by (simp add: d1)
  also have "admit_frame env' sz \<dots> = size_ready env' sz d"
    by (simp only: admit_frame_pending size_ready_admit [OF ok] x_def)
  finally show ?thesis by (simp add: d1)
qed

text \<open>C4: A frame refused for lack of room loses nothing: whenever the decoder stopped with EAGAIN,
  retrying the admission later gives exactly the result that the step would have given had the
  session and the allocator answered then instead.\<close>

theorem retry_after_backpressure:
  assumes "dec_run_next env d = (RC_err EAGAIN, d1)"
  shows "retry_frame_admission env' d1 = dec_run_next env' d"
proof -
  have v: "retry_frame_admission env' d1 = validate_header_and_admit env' d0"
    if "validate_header_and_admit env d0 = (RC_err EAGAIN, d1)" for d0
    using that size_ready_backpressured [of env _ _ d1 env']
    by (auto simp: validate_header_and_admit_def Let_def fail_protocol_def retry_frame_admission_def
        split: if_splits)
  show ?thesis
    using assms
    by (auto simp: dec_run_next_def dec_header_ready_def dec_sequence_ready_def dec_body_ready_def
        Let_def fail_protocol_def split: dec_step.splits if_splits dest!: v)
qed

text \<open>A session that first has no room for the frame and then admits it.\<close>

definition ex_backpressured :: decoder where
  "ex_backpressured = (zmp_decoder_init 0)
     \<lparr>dec_has_admission := True, dec_to_read := 0, dec_tmpbuf := [0x5a, 1, 0, 0, 0, 0, 0, 3]\<rparr>"

theorem retry_after_backpressure_witness:
  "\<exists>d1. dec_run_next \<lparr>env_admit = (\<lambda>_ _. Inl EAGAIN), env_alloc = (\<lambda>_. True)\<rparr> ex_backpressured
          = (RC_err EAGAIN, d1)
     \<and> retry_frame_admission \<lparr>env_admit = (\<lambda>_ _. Inr (Some 3)), env_alloc = (\<lambda>_. True)\<rparr> d1 =
       dec_run_next \<lparr>env_admit = (\<lambda>_ _. Inr (Some 3)), env_alloc = (\<lambda>_. True)\<rparr> ex_backpressured"
proof -
  have "\<exists>d1. dec_run_next \<lparr>env_admit = (\<lambda>_ _. Inl EAGAIN), env_alloc = (\<lambda>_. True)\<rparr> ex_backpressured
          = (RC_err EAGAIN, d1)"
    by (simp add: ex_backpressured_def zmp_decoder_init_def dec_restart_def dec_next_step_def
        dec_run_next_def dec_header_ready_def Let_def validate_header_and_admit_def size_ready_def
        admit_frame_def
        dec_wire_flags_bad_def zmp_flag_sub_or_cancel_def zmp_is_request_reply_kind_def
        zmp_is_special_frame_def zmp_special_frame_flags_def dec_flags_of_wire_def get_uint32_def byte_at_def
        compute_effective_max_def compute_application_message_max_def)
  then show ?thesis using retry_after_backpressure by blast
qed

end
