(* ===== verification/Zmp_Errors.thy ===== *)
theory Zmp_Errors
  imports Zmp_Stream Zmp_Decoder_Safety
begin

section \<open>Rejected ZMP input\<close>

text \<open>
  The table of protocol violations of a frame header and the theorem that the decoder answers
  each of them with its own error code; over-long frames; chunk independence of the whole
  decoder, errors included; and frames that the encoder refuses.
\<close>

subsection \<open>Flag bytes\<close>

lemma small_byte_exhaust:
  assumes all: "\<forall>n\<in>set [0..<32]. P (word_of_nat n)" and w: "w AND NOT 0x1f = (0 :: byte)"
  shows "P w"
proof -
  have "w = (w AND 0x1f) OR (w AND NOT 0x1f)"
    by (simp flip: bit.conj_disj_distrib)
  then have "w = w AND mask 5" using w by (simp add: mask_eq_exp_minus_1)
  then have "w = take_bit 5 w" by (simp add: take_bit_eq_mask)
  then have "unat w = take_bit 5 (unat w)" by (metis unsigned_take_bit_eq)
  then have "unat w \<in> set [0..<32]" using take_bit_nat_less_exp [of 5 "unat w"] by simp
  from all [rule_format, OF this] show "P w" by simp
qed

lemma upt_32: "[0..<32] = [0, 1, 2, 3, 4, 5, 6, 7, 8, 9, 10, 11, 12, 13, 14, 15, 16, 17, 18, 19, 20, 21, 22, 23, 24, 25, 26, 27, 28, 29, 30, 31]"
  by code_simp

text \<open>The seven legal flag bytes: plain, MORE, CONTROL, IDENTITY with and without MORE, SUBSCRIBE,
  CANCEL.\<close>

lemma dec_wire_flags_legal: "dec_wire_flags_bad w \<longleftrightarrow> w \<notin> {0, 1, 2, 4, 5, 8, 16}"
proof (cases "w AND NOT 0x1f = 0")
  case True
  have "\<forall>n\<in>set [0..<32]. dec_wire_flags_bad (word_of_nat n) \<longleftrightarrow> word_of_nat n \<notin> {0, 1, 2, 4, 5, 8, 16 :: byte}"
    unfolding upt_32 by (simp add: dec_wire_flags_bad_def zmp_flag_sub_or_cancel_def)
  from small_byte_exhaust [OF this True] show ?thesis .
next
  case False
  then show ?thesis by (auto simp: dec_wire_flags_bad_def)
qed

subsection \<open>The table of header violations\<close>

text \<open>For the sixteen bytes that start a frame (the sequence extension counts only for a request-reply
  kind), the error code of the first rule the frame violates.\<close>

definition zmp_header_error :: "bool \<Rightarrow> byte list \<Rightarrow> u8 option" where
  "zmp_header_error multipart h =
     (let flags = h ! 2; kind = h ! 3; special = flags \<in> {2, 4, 5, 8, 16} in
      if h ! 0 \<noteq> zmp_magic then Some zmp_error_invalid_magic
      else if h ! 1 \<noteq> zmp_version then Some zmp_error_version_mismatch
      else if kind \<notin> {zmp_kind_data, zmp_kind_request, zmp_kind_reply, zmp_kind_error_reply}
      then Some zmp_error_kind_invalid
      else if flags \<notin> {0, 1, 2, 4, 5, 8, 16} then Some zmp_error_flags_invalid
      else if kind \<noteq> zmp_kind_data \<and> drop 8 h = replicate 8 0 then Some zmp_error_sequence_invalid
      else if kind \<noteq> zmp_kind_data \<and> special then Some zmp_error_flags_invalid
      else if multipart \<and> (special \<or> kind \<noteq> zmp_kind_data) then Some zmp_error_multipart_invalid
      else None)"

lemma special_legal: "w \<in> {0, 1, 2, 4, 5, 8, 16} \<Longrightarrow> zmp_is_special_frame w \<longleftrightarrow> w \<in> {2, 4, 5, 8, 16}"
  by (auto simp: zmp_is_special_frame_def zmp_special_frame_flags_def)

definition rejected_with :: "u8 \<Rightarrow> msg list \<times> errno option \<times> decoder \<Rightarrow> bool" where
  "rejected_with code r \<longleftrightarrow> (case r of (ms, er, d') \<Rightarrow>
     ms = [] \<and> er = Some EPROTO \<and> dec_error_code d' = code \<and> dec_in_progress d' = msg_init
     \<and> dec_reservation d' = None)"

lemma dec_cont_fail: "rejected_with c (dec_cont env ys (fail_protocol c d))"
  by (simp add: rejected_with_def dec_cont_def fail_protocol_def release_frame_reservation_def
      split: option.splits)

lemma zero_sequence: "length bs = 8 \<Longrightarrow> get_uint64 bs = 0 \<longleftrightarrow> bs = replicate 8 0"
  using be64.put_get [of bs] be64.get_put_exact [of 0]
  by (auto simp: put_uint64_def byte_of_def numeral_eq_Suc)

lemma dec_run_next_header_error:
  assumes "dec_clean d" "length h = 8" "h ! 0 \<noteq> zmp_magic \<or> h ! 1 \<noteq> zmp_version
      \<or> h ! 3 \<notin> {0, 1, 2, 3} \<or> h ! 2 \<notin> {0, 1, 2, 4, 5, 8, 16}"
    and "zmp_header_error mp (h @ sq) = Some code"
  shows "\<exists>d1. dec_run_next env (dec_store h d) = fail_protocol code d1"
  using assms
  by (auto simp: dec_run_next_def dec_header_ready_def dec_clean_def dec_store_def Let_def
      zmp_header_error_def zmp_is_request_reply_kind_def dec_wire_flags_legal nth_append split: if_splits)

lemma dec_run_next_sequence_zero:
  assumes "dec_next d = Dec_sequence_ready" "get_uint64 (drop zmp_header_size (dec_tmpbuf d)) = 0"
  shows "\<exists>d1. dec_run_next env d = fail_protocol zmp_error_sequence_invalid d1"
  using assms by (auto simp: dec_run_next_def dec_sequence_ready_def Let_def)

text \<open>C3: Whatever follows them, the sixteen bytes at the start of a frame that violate a rule of the
  protocol (magic, version, kind, flag combination, zero request sequence, request-reply metadata on
  a special frame, special or request-reply frame inside a multipart message) make the decoder report
  exactly the error code of the first rule violated, deliver nothing and drop the message and the
  reservation it holds.\<close>

theorem malformed_header_rejected:
  assumes clean: "dec_clean d" and len: "length h = 16"
    and err: "zmp_header_error (dec_multipart d) h = Some code"
  shows "rejected_with code (dec_bytes env (h @ rest) d)"
proof -
  define h1 h2 where "h1 = take 8 h" and "h2 = drop 8 h"
  have h: "h = h1 @ h2" "length h1 = 8" "h1 \<noteq> []" "length h2 = 8" "h2 \<noteq> []"
    using len by (auto simp: h1_def h2_def)
  define w kind n where "w = h ! 2" and "kind = h ! 3" and "n = unat (get_uint32 (drop 4 h1))"
  show ?thesis
  proof (cases "h1 ! 0 \<noteq> zmp_magic \<or> h1 ! 1 \<noteq> zmp_version \<or> h1 ! 3 \<notin> {0, 1, 2, 3}
      \<or> h1 ! 2 \<notin> {0, 1, 2, 4, 5, 8, 16}")
    case True
    obtain d1 where "dec_run_next env (dec_store h1 d) = fail_protocol code d1"
      using dec_run_next_header_error [OF clean h(2) True] err h(1) by blast
    then show ?thesis
      using dec_bytes_run_next [of h1 d env "h2 @ rest"] clean h dec_cont_fail [of code]
      by (simp add: dec_clean_def)
  next
    case False
    then have wk: "w \<in> {0, 1, 2, 4, 5, 8, 16}" "kind = 0 \<or> zmp_is_request_reply_kind kind"
      using h by (auto simp: w_def kind_def nth_append zmp_is_request_reply_kind_def)
    have n: "n \<le> 0xffffffff" unfolding n_def by (rule unat_u32_le)
    have "h1 = take 4 h1 @ drop 4 h1" by simp
    also have "take 4 h1 = [h1 ! 0, h1 ! 1, h1 ! 2, h1 ! 3]"
      using h(2) by (auto simp: list_len8)
    also have "drop 4 h1 = put_uint32 (word_of_nat n)"
      using h(2) by (simp add: n_def be32.put_get)
    finally have h1: "h1 = [zmp_magic, zmp_version, w, kind] @ put_uint32 (word_of_nat n)"
      using False h(2) by (simp add: w_def kind_def h(1) nth_append)
    have hs: "drop 8 h = h2" "h ! 0 = zmp_magic" "h ! Suc 0 = zmp_version" "h ! 2 = w" "h ! 3 = kind"
      using False by (simp_all add: h1_def h2_def w_def kind_def)
    have legal: "\<not> dec_wire_flags_bad w" using wk(1) by (simp add: dec_wire_flags_legal)
    have h2: "h2 = put_uint64 (get_uint64 h2)" using h(4) by (simp add: be64.put_get)
    show ?thesis
    proof (cases "zmp_is_request_reply_kind kind \<and> get_uint64 h2 = 0")
      case True
      then obtain d2 where d2: "\<And>ys. dec_bytes env (h1 @ ys) d = dec_bytes env ys d2" "dec_to_read d2 = 8"
         "dec_next d2 = Dec_sequence_ready" "dec_dest d2 = To_tmpbuf" "dec_tmpbuf d2 = h1"
        using sequence_read [OF clean legal _ h1 length_put_uint32, of env] by blast
      have "code = zmp_error_sequence_invalid"
        using err True wk zero_sequence [OF h(4)] request_reply_kind_nonzero [of kind]
        by (auto simp: zmp_header_error_def Let_def hs zmp_is_request_reply_kind_def split: if_splits)
      moreover obtain d3 where "dec_run_next env (dec_store h2 d2) = fail_protocol zmp_error_sequence_invalid d3"
        using dec_run_next_sequence_zero [of "dec_store h2 d2" env] d2 True h(2) by (auto simp: dec_store_def)
      ultimately show ?thesis
        using dec_bytes_run_next [of h2 d2 env rest] dec_cont_fail d2 h(4,5) by (simp add: h(1))
    next
      case seq: False
      define body where "body = (if zmp_is_request_reply_kind kind then rest else h2 @ rest)"
      have "h @ rest = [zmp_magic, zmp_version, w, kind] @ put_uint32 (word_of_nat n)
        @ (if zmp_is_request_reply_kind kind then put_uint64 (get_uint64 h2) else []) @ body"
        using h1 h2 h(1) by (simp add: body_def)
      then obtain d1 where d1: "dec_bytes env (h @ rest) d = dec_cont env body (validate_header_and_admit env d1)"
          "dec_wire_flags d1 = w" "dec_wire_kind d1 = kind" "dec_multipart d1 = dec_multipart d"
        using header_read [OF clean legal n wk(2), of "get_uint64 h2" env body] seq by auto
      have rr: "zmp_is_request_reply_kind kind \<longleftrightarrow> kind \<noteq> 0" "(kind \<notin> {0, 1, 2, 3}) = False"
          "(w \<notin> {0, 1, 2, 4, 5, 8, 16}) = False"
        using wk request_reply_kind_nonzero [of kind] by (auto simp: zmp_is_request_reply_kind_def)
      have "(if kind \<noteq> 0 \<and> zmp_is_special_frame w then Some zmp_error_flags_invalid
          else if dec_multipart d \<and> (zmp_is_special_frame w \<or> kind \<noteq> 0) then Some zmp_error_multipart_invalid
          else None) = Some code"
        using err seq unfolding zmp_header_error_def Let_def hs special_legal [OF wk(1)] zero_sequence [OF h(4)]
          One_nat_def rr
        by (simp only: if_False not_True_eq_False not_False_eq_True refl simp_thms split: if_splits)
      then have "\<exists>d'. validate_header_and_admit env d1 = fail_protocol code d'"
        unfolding validate_header_and_admit_def Let_def d1 rr by (auto split: if_splits)
      then show ?thesis using d1(1) dec_cont_fail by auto
    qed
  qed
qed

theorem malformed_header_rejected_witness:
  "rejected_with zmp_error_sequence_invalid
     (dec_bytes ex_env ([0x5a, 1, 0, 1, 0, 0, 0, 2, 0, 0, 0, 0, 0, 0, 0, 0] @ [9]) (zmp_decoder_init 0))"
  by (rule malformed_header_rejected)
    (simp_all add: dec_clean_def zmp_decoder_init_def dec_restart_def dec_next_step_def
      zmp_header_error_def Let_def eval_nat_numeral)

text \<open>C5: How the transport cuts the byte stream does not matter: for every decoder that still
  expects bytes, feeding any sequence of chunks (errors included) delivers the same messages, the
  same error and the same final state as feeding their concatenation at once.\<close>

theorem chunking_irrelevant:
  assumes "0 < dec_to_read d"
  shows "dec_feed env chunks d = dec_feed env [concat chunks] d"
  using dec_feed_bytes [OF assms, of env chunks] dec_feed_bytes [OF assms, of env "[concat chunks]"]
  by simp

theorem chunking_irrelevant_witness:
  "dec_feed ex_env [[0x5a], [], [1, 0, 7]] (zmp_decoder_init 0) =
   dec_feed ex_env [concat [[0x5a], [], [1, 0, 7]]] (zmp_decoder_init 0)"
  by (rule chunking_irrelevant) (simp add: zmp_decoder_init_def dec_restart_def dec_next_step_def)

subsection \<open>Frames the encoder refuses\<close>

text \<open>A message whose frame cannot be built (over-long payload, invalid request-reply metadata, a
  special frame inside a multipart message) is dropped whole: loading it and calling \<open>encode\<close> emits
  not a single byte, leaves the multipart state as it was and makes the encoder idle again, so that
  the next message is framed as if the refused one had never been loaded.\<close>

theorem refused_frame_dropped:
  assumes "enc_wf e" "enc_in_progress e = None" "0 < enc_buf_size e"
    and "build_header m (Some zmp_request_reply_header_size) (enc_multipart e) = Inl er"
    and "data = None \<or> data = Some n \<and> 0 < n"
  shows "\<exists>e1. load_msg m e = Some e1 \<and> encode data e1 = ([], e)"
proof -
  have e: "e\<lparr>enc_pend := [], enc_next := Enc_header_ready, enc_new_msg_flag := True, enc_in_progress := None\<rparr> = e"
    using assms(1,2) by (auto simp: enc_wf_def)
  have "load_msg m e = Some (enc_next_step [] Enc_header_ready True (e\<lparr>enc_in_progress := Some m\<rparr>))"
    using assms(1,2,4) by (auto simp: load_msg_def enc_run_next_def enc_header_ready_def enc_wf_def
        split: enc_step.split)
  moreover have "encode data (enc_next_step [] Enc_header_ready True (e\<lparr>enc_in_progress := Some m\<rparr>)) = ([], e)"
    using assms(2,3,5) by (auto simp: encode_def encode_loop.simps enc_next_step_def e)
  ultimately show ?thesis by blast
qed

theorem refused_frame_dropped_witness:
  "\<exists>e1. load_msg (msg_init\<lparr>msg_aux := Aux_request_reply 9 1, msg_data := [1]\<rparr>) (zmp_encoder_init 8) = Some e1
     \<and> encode None e1 = ([], zmp_encoder_init 8)"
  by (rule refused_frame_dropped [where er = EINVAL and n = 0, OF enc_wf_init])
    (simp_all add: zmp_encoder_init_def enc_next_step_def build_header_def build_zmp_data_header_def Let_def
      get_request_reply_metadata_def zmp_is_request_reply_kind_def)

end
