(* ===== verification/Zmp_Metadata.thy ===== *)
theory Zmp_Metadata
  imports Wire "HOL-Library.AList"
begin

section \<open>ZMP metadata\<close>

text \<open>
  Models \<open>protocol/zmp_metadata.hpp\<close>: the length-prefixed property list of the READY command, how
  an endpoint describes itself in it, and the readers of single properties. Names and values are
  byte strings; \<open>properties_t\<close> (a \<open>std::map\<close>) is an association list with unique keys, of which
  only lookup, overwriting assignment and non-overwriting insertion are used. An assertion that
  fails is \<open>None\<close>.
\<close>

type_synonym properties = "(byte list \<times> byte list) list"

definition str_bytes :: "string \<Rightarrow> byte list" where
  "str_bytes s = map (\<lambda>c. word_of_nat (of_char c)) s"

text \<open>Socket types, as \<open>core/internal_defs.hpp\<close> numbers them.\<close>

abbreviation SOCKET_PAIR :: int where "SOCKET_PAIR \<equiv> 0"
abbreviation SOCKET_PUB :: int where "SOCKET_PUB \<equiv> 1"
abbreviation SOCKET_SUB :: int where "SOCKET_SUB \<equiv> 2"
abbreviation SOCKET_DEALER :: int where "SOCKET_DEALER \<equiv> 5"
abbreviation SOCKET_ROUTER :: int where "SOCKET_ROUTER \<equiv> 6"
abbreviation SOCKET_XPUB :: int where "SOCKET_XPUB \<equiv> 9"
abbreviation SOCKET_XSUB :: int where "SOCKET_XSUB \<equiv> 10"
abbreviation SOCKET_STREAM :: int where "SOCKET_STREAM \<equiv> 11"

datatype transport_lane = transport_lane_application | transport_lane_completion

text \<open>The options the handshake reads.\<close>

record options =
  opt_type :: int
  opt_routing_id :: "byte list"
  opt_maxmsgsize :: int
  opt_transport_lane_count :: byte
  opt_transport_lane :: transport_lane
  opt_zmp_metadata :: bool

subsection \<open>Writing\<close>

definition socket_type_string :: "int \<Rightarrow> string option" where
  "socket_type_string t =
     (if t = SOCKET_PAIR then Some ''PAIR''
      else if t = SOCKET_PUB then Some ''PUB''
      else if t = SOCKET_SUB then Some ''SUB''
      else if t = SOCKET_DEALER then Some ''DEALER''
      else if t = SOCKET_ROUTER then Some ''ROUTER''
      else if t = SOCKET_XPUB then Some ''XPUB''
      else if t = SOCKET_XSUB then Some ''XSUB''
      else if t = SOCKET_STREAM then Some ''STREAM''
      else None)"

definition append_u32 :: "byte list \<Rightarrow> u32 \<Rightarrow> byte list" where
  "append_u32 buf v = buf @ put_uint32 v"

definition append_property :: "byte list \<Rightarrow> byte list \<Rightarrow> byte list \<Rightarrow> byte list option" where
  "append_property buf name value =
     (if \<not> length name \<le> 255 then None
      else let buf = (buf @ [word_of_nat (length name)]) @ name in
      if \<not> length value \<le> 0x7FFFFFFF then None
      else Some (append_u32 buf (word_of_nat (length value)) @ value))"

definition finite_max_message_size :: "int \<Rightarrow> u64" where
  "finite_max_message_size maxmsgsize = (if maxmsgsize > 0 then word_of_int maxmsgsize else 0)"

definition is_routed :: "int \<Rightarrow> bool" where
  "is_routed t \<longleftrightarrow> t = SOCKET_DEALER \<or> t = SOCKET_ROUTER"

definition add_basic_properties :: "options \<Rightarrow> byte list \<Rightarrow> byte list option" where
  "add_basic_properties opts buf =
     Option.bind (socket_type_string (opt_type opts)) (\<lambda>ty.
     Option.bind (append_property buf (str_bytes ''Socket-Type'') (str_bytes ty)) (\<lambda>buf.
     Option.bind (if is_routed (opt_type opts)
                  then append_property buf (str_bytes ''Routing-Id'') (opt_routing_id opts)
                  else Some buf) (\<lambda>buf.
     Option.bind (append_property buf (str_bytes ''Zlink-Max-Message-Size'')
                    (put_uint64 (finite_max_message_size (opt_maxmsgsize opts)))) (\<lambda>buf.
     if is_routed (opt_type opts) then
       (if \<not> (opt_transport_lane_count opts = 1 \<or> opt_transport_lane_count opts = 2) then None
        else Option.bind (append_property buf (str_bytes ''Zlink-Lane-Count'')
                            [opt_transport_lane_count opts]) (\<lambda>buf.
             append_property buf (str_bytes ''Zlink-Lane'')
               [if opt_transport_lane opts = transport_lane_completion then 1 else 0]))
     else Some buf))))"

subsection \<open>Reading\<close>

text \<open>\<open>parse\<close>: a \<open>break\<close> leaves the loop with the bytes not consumed yet, which are an error unless
  there are none.\<close>

definition parse_end :: "byte list \<Rightarrow> properties \<Rightarrow> errno + properties" where
  "parse_end left out = (if length left > 0 then Inl EPROTO else Inr out)"

function parse_props :: "byte list \<Rightarrow> properties \<Rightarrow> errno + properties" where
  "parse_props bs out =
     (if length bs > 1 then
        let name_length = unat (hd bs); bs = tl bs in
        if length bs < name_length then parse_end bs out
        else let name = take name_length bs; bs = drop name_length bs in
        if length bs < 4 then parse_end bs out
        else let value_length = unat (get_uint32 bs); bs = drop 4 bs in
        if length bs < value_length then parse_end bs out
        else let value = take value_length bs; bs = drop value_length bs in
             parse_props bs (AList.update name value out)
      else parse_end bs out)"
  by pat_completeness auto
termination
  by (relation "measure (\<lambda>(bs, out). length bs)") auto

declare parse_props.simps [simp del]

text \<open>The readers return 0 when the property is absent, 1 and the value when it is present, and -1
  with \<open>EPROTO\<close> when it is malformed.\<close>

definition parse_transport_lane_count :: "properties \<Rightarrow> errno + byte option" where
  "parse_transport_lane_count ps =
     (case map_of ps (str_bytes ''Zlink-Lane-Count'') of
        None \<Rightarrow> Inr None
      | Some v \<Rightarrow>
          if length v \<noteq> 1 then Inl EPROTO
          else if hd v \<noteq> 1 \<and> hd v \<noteq> 2 then Inl EPROTO
          else Inr (Some (hd v)))"

definition parse_max_message_size :: "properties \<Rightarrow> errno + u64 option" where
  "parse_max_message_size ps =
     (case map_of ps (str_bytes ''Zlink-Max-Message-Size'') of
        None \<Rightarrow> Inr None
      | Some v \<Rightarrow> if length v \<noteq> 8 then Inl EPROTO else Inr (Some (get_uint64 v)))"

definition parse_transport_lane :: "properties \<Rightarrow> errno + transport_lane option" where
  "parse_transport_lane ps =
     (case map_of ps (str_bytes ''Zlink-Lane'') of
        None \<Rightarrow> Inr None
      | Some v \<Rightarrow>
          if length v \<noteq> 1 then Inl EPROTO
          else if hd v > 1 then Inl EPROTO
          else Inr (Some (if hd v = 1 then transport_lane_completion else transport_lane_application)))"

subsection \<open>Round trip\<close>

text \<open>The encoding of one property and of a list of them.\<close>

definition property_bytes :: "byte list \<times> byte list \<Rightarrow> byte list" where
  "property_bytes = (\<lambda>(name, value). word_of_nat (length name) # name
     @ put_uint32 (word_of_nat (length value)) @ value)"

definition property_ok :: "byte list \<times> byte list \<Rightarrow> bool" where
  "property_ok = (\<lambda>(name, value). length name \<le> 255 \<and> length value \<le> 0x7FFFFFFF)"

lemma append_property_eq:
  "property_ok (name, value) \<Longrightarrow> append_property buf name value = Some (buf @ property_bytes (name, value))"
  by (simp add: append_property_def property_ok_def property_bytes_def append_u32_def Let_def)

lemma parse_property:
  assumes "property_ok (name, value)"
  shows "parse_props (property_bytes (name, value) @ rest) out = parse_props rest (AList.update name value out)"
proof -
  have n: "unat (word_of_nat (length name) :: byte) = length name"
    and v: "unat (word_of_nat (length value) :: u32) = length value"
    using assms by (simp_all add: property_ok_def unsigned_of_nat take_bit_nat_eq_self)
  show ?thesis
    by (subst parse_props.simps) (simp add: property_bytes_def Let_def n v be32.get_put length_simps)
qed

lemma parse_properties:
  "list_all property_ok ps \<Longrightarrow>
     parse_props (concat (map property_bytes ps)) out =
       Inr (fold (\<lambda>(k, v). AList.update k v) ps out)"
proof (induction ps arbitrary: out)
  case Nil
  then show ?case by (simp add: parse_props.simps parse_end_def)
next
  case (Cons p ps)
  then show ?case by (cases p) (simp add: parse_property)
qed

subsection \<open>What an endpoint says of itself\<close>

definition basic_properties :: "options \<Rightarrow> properties" where
  "basic_properties opts =
     [(str_bytes ''Socket-Type'', str_bytes (the (socket_type_string (opt_type opts))))]
     @ (if is_routed (opt_type opts) then [(str_bytes ''Routing-Id'', opt_routing_id opts)] else [])
     @ [(str_bytes ''Zlink-Max-Message-Size'',
         put_uint64 (finite_max_message_size (opt_maxmsgsize opts)))]
     @ (if is_routed (opt_type opts)
        then [(str_bytes ''Zlink-Lane-Count'', [opt_transport_lane_count opts]),
              (str_bytes ''Zlink-Lane'',
               [if opt_transport_lane opts = transport_lane_completion then 1 else 0])]
        else [])"

text \<open>Options that an endpoint can have when it builds its READY command.\<close>

definition options_ok :: "options \<Rightarrow> bool" where
  "options_ok opts \<longleftrightarrow> socket_type_string (opt_type opts) \<noteq> None \<and> length (opt_routing_id opts) \<le> 255
     \<and> (opt_transport_lane_count opts = 1 \<or> opt_transport_lane_count opts = 2)
     \<and> opt_maxmsgsize opts < 2 ^ 63"

lemma length_str_bytes [simp]: "length (str_bytes s) = length s"
  by (simp add: str_bytes_def)

lemma socket_type_string_length: "socket_type_string t = Some s \<Longrightarrow> length s \<le> 6"
  by (auto simp: socket_type_string_def split: if_splits)

lemma basic_properties_ok: "options_ok opts \<Longrightarrow> list_all property_ok (basic_properties opts)"
  using socket_type_string_length [of "opt_type opts"]
  by (auto simp: basic_properties_def options_ok_def property_ok_def length_simps)

lemma add_basic_properties_eq:
  assumes "options_ok opts"
  shows "add_basic_properties opts buf = Some (buf @ concat (map property_bytes (basic_properties opts)))"
proof -
  obtain ty where ty: "socket_type_string (opt_type opts) = Some ty" using assms by (auto simp: options_ok_def)
  have "list_all property_ok (basic_properties opts)" using assms by (rule basic_properties_ok)
  then show ?thesis
    using assms ty by (auto simp: add_basic_properties_def basic_properties_def append_property_eq options_ok_def)
qed

lemma basic_properties_distinct: "distinct (map fst (basic_properties opts))"
  by (cases "is_routed (opt_type opts)") (simp_all add: basic_properties_def str_bytes_def)

lemma map_of_fold_update:
  "distinct (map fst ps) \<Longrightarrow> map_of (fold (\<lambda>(k, v). AList.update k v) ps out) = map_of out ++ map_of ps"
proof (induction ps arbitrary: out)
  case (Cons p ps)
  obtain k v where p: "p = (k, v)" by force
  with Cons.prems have "k \<notin> dom (map_of ps)" by (simp add: dom_map_of_conv_image_fst)
  with Cons p show ?case
    by (auto simp: AList.update_conv' map_add_def fun_eq_iff dom_def split: option.split)
qed simp

text \<open>What an endpoint writes about itself in READY is what its peer reads: parsing the properties
  gives exactly the written ones, and the readers return the lane count, the lane and the finite
  maximum message size (0 for unlimited) that the options held.\<close>

theorem metadata_roundtrip:
  assumes "options_ok opts" "add_basic_properties opts [] = Some bs"
  shows "\<exists>ps. parse_props bs [] = Inr ps \<and> map_of ps = map_of (basic_properties opts)
     \<and> parse_max_message_size ps = Inr (Some (finite_max_message_size (opt_maxmsgsize opts)))
     \<and> parse_transport_lane_count ps =
         Inr (if is_routed (opt_type opts) then Some (opt_transport_lane_count opts) else None)
     \<and> parse_transport_lane ps =
         Inr (if is_routed (opt_type opts) then Some (opt_transport_lane opts) else None)"
proof -
  define ps where "ps = fold (\<lambda>(k, v). AList.update k v) (basic_properties opts) []"
  have bs: "bs = concat (map property_bytes (basic_properties opts))"
    using assms by (simp add: add_basic_properties_eq)
  have m: "map_of ps = map_of (basic_properties opts)"
    by (simp add: ps_def map_of_fold_update basic_properties_distinct)
  have "parse_props bs [] = Inr ps"
    by (simp add: bs ps_def parse_properties basic_properties_ok [OF assms(1)])
  moreover have "parse_max_message_size ps = Inr (Some (finite_max_message_size (opt_maxmsgsize opts)))"
    by (cases "is_routed (opt_type opts)")
      (simp_all add: parse_max_message_size_def m basic_properties_def str_bytes_def length_simps be64.get_put_exact)
  moreover have "parse_transport_lane_count ps =
         Inr (if is_routed (opt_type opts) then Some (opt_transport_lane_count opts) else None)"
    using assms(1) by (cases "is_routed (opt_type opts)")
      (auto simp: parse_transport_lane_count_def m basic_properties_def str_bytes_def options_ok_def)
  moreover have "parse_transport_lane ps =
         Inr (if is_routed (opt_type opts) then Some (opt_transport_lane opts) else None)"
    by (cases "is_routed (opt_type opts)"; cases "opt_transport_lane opts")
      (simp_all add: parse_transport_lane_def m basic_properties_def str_bytes_def)
  ultimately show ?thesis using m by blast
qed

definition ex_options :: options where
  "ex_options = \<lparr>opt_type = SOCKET_ROUTER, opt_routing_id = [1, 2], opt_maxmsgsize = 1000,
     opt_transport_lane_count = 2, opt_transport_lane = transport_lane_completion, opt_zmp_metadata = True\<rparr>"

theorem metadata_roundtrip_witness:
  "\<exists>bs ps. add_basic_properties ex_options [] = Some bs \<and> parse_props bs [] = Inr ps
     \<and> parse_max_message_size ps = Inr (Some 1000) \<and> parse_transport_lane_count ps = Inr (Some 2)
     \<and> parse_transport_lane ps = Inr (Some transport_lane_completion)"
proof -
  have ok: "options_ok ex_options" by (simp add: options_ok_def ex_options_def socket_type_string_def)
  obtain bs where bs: "add_basic_properties ex_options [] = Some bs" using add_basic_properties_eq [OF ok] by blast
  from metadata_roundtrip [OF ok bs] bs show ?thesis
    by (auto simp: ex_options_def is_routed_def finite_max_message_size_def)
qed

subsection \<open>Truncated properties\<close>

text \<open>C10: A property list cut off right after a property name, or right after the length of a value
  that never comes, is accepted as if the incomplete property were not there: \<open>parse\<close> leaves its loop
  with no bytes left and reports success, although it means to reject every incomplete property.\<close>

theorem truncated_property_accepted:
  assumes "name \<noteq> []" "length name \<le> 255" "0 < n" "n < 2 ^ 32"
  shows "parse_props (word_of_nat (length name) # name) out = Inr out
     \<and> parse_props (word_of_nat (length name) # name @ put_uint32 (word_of_nat n)) out = Inr out"
proof -
  have "unat (word_of_nat (length name) :: byte) = length name"
    using assms by (simp add: unsigned_of_nat take_bit_nat_eq_self)
  moreover have "unat (word_of_nat n :: u32) = n"
    using assms by (simp add: unsigned_of_nat take_bit_nat_eq_self)
  ultimately show ?thesis
    using assms by (simp add: parse_props.simps parse_end_def Let_def length_simps be32.get_put_exact)
qed

theorem truncated_property_accepted_witness:
  "parse_props [1, 65] [] = Inr [] \<and> parse_props ([1, 65] @ put_uint32 5) [] = Inr []"
  using truncated_property_accepted [of "[65]" 5 "[]"] by simp

end
