(* ===== verification/Zmp_Control.thy ===== *)
theory Zmp_Control
  imports Zmp_Metadata Zmp_Stream
begin

section \<open>ZMP control frames of the handshake\<close>

text \<open>
  Models \<open>protocol/zmp_control.hpp\<close>: building HELLO and READY, receiving HELLO byte by byte before
  the decoder exists, checking it, and interpreting READY and ERROR commands. Out parameters are
  components of the result; a failing assertion is \<open>None\<close>; \<open>NULL\<close> messages are \<open>None\<close>.
\<close>

abbreviation hello_min_body_size :: nat where "hello_min_body_size \<equiv> 3"
abbreviation hello_max_body_size :: nat where "hello_max_body_size \<equiv> 258"

datatype command_message_kind =
    command_message_invalid | command_message_ready | command_message_error
  | command_message_data_after_ready

record hello_parse_result =
  hp_error_code :: u8
  hp_error_reason :: "string option"
  hp_malformed_hello_event :: bool
  hp_peer_type :: int
  hp_identity :: "byte list"

definition hello_parse_result_init :: hello_parse_result where
  "hello_parse_result_init =
     \<lparr>hp_error_code = zmp_error_internal, hp_error_reason = None, hp_malformed_hello_event = False,
      hp_peer_type = 0, hp_identity = []\<rparr>"

datatype hello_receive_status =
    hello_receive_incomplete | hello_receive_ready | hello_receive_error u8 string

subsection \<open>Building\<close>

definition build_hello_frame :: "options \<Rightarrow> nat \<Rightarrow> byte list option" where
  "build_hello_frame opts capacity =
     (if \<not> capacity \<ge> zmp_header_size + hello_max_body_size then None
      else let identity_len = min (length (opt_routing_id opts)) 255;
               body_len = hello_min_body_size + identity_len in
      Some ([zmp_magic, zmp_version, zmp_flag_control, 0] @ put_uint32 (word_of_nat body_len)
            @ [zmp_control_hello, word_of_int (opt_type opts), word_of_nat identity_len]
            @ take identity_len (opt_routing_id opts)))"

definition build_ready_frame :: "options \<Rightarrow> byte list option" where
  "build_ready_frame opts =
     map_option (\<lambda>body. [zmp_magic, zmp_version, zmp_flag_control, 0]
                        @ put_uint32 (word_of_nat (length body)) @ body)
       (if opt_zmp_metadata opts then add_basic_properties opts [zmp_control_ready]
        else Some [zmp_control_ready])"

definition build_hello_ready_frames :: "options \<Rightarrow> nat \<Rightarrow> (byte list \<times> byte list) option" where
  "build_hello_ready_frames opts capacity =
     (case build_hello_frame opts capacity of
        None \<Rightarrow> None
      | Some hello \<Rightarrow> map_option (\<lambda>ready. (hello, hello @ ready)) (build_ready_frame opts))"

subsection \<open>Receiving HELLO\<close>

text \<open>The receive buffer is split at the header: \<open>hello_header_bytes\<close> and \<open>hello_body_bytes\<close> are the
  lengths of the two parts received so far.\<close>

record hello_recv =
  hr_header :: "byte list"
  hr_body :: "byte list"
  hr_body_len :: nat

definition hello_recv_init :: hello_recv where
  "hello_recv_init = \<lparr>hr_header = [], hr_body = [], hr_body_len = 0\<rparr>"

definition receive_hello_body :: "byte list \<Rightarrow> hello_recv \<Rightarrow> hello_receive_status \<times> byte list \<times> hello_recv"
  where
  "receive_hello_body inp h =
     (if length (hr_body h) < hr_body_len h then
        let n = min (length inp) (hr_body_len h - length (hr_body h));
            h = h\<lparr>hr_body := hr_body h @ take n inp\<rparr>; inp = drop n inp in
        if length (hr_body h) < hr_body_len h then (hello_receive_incomplete, inp, h)
        else (hello_receive_ready, inp, h)
      else (hello_receive_ready, inp, h))"

definition receive_hello_bytes :: "byte list \<Rightarrow> hello_recv \<Rightarrow> hello_receive_status \<times> byte list \<times> hello_recv"
  where
  "receive_hello_bytes inp h =
     (if length (hr_header h) < zmp_header_size then
        let n = min (length inp) (zmp_header_size - length (hr_header h));
            h = h\<lparr>hr_header := hr_header h @ take n inp\<rparr>; inp = drop n inp in
        if length (hr_header h) < zmp_header_size then (hello_receive_incomplete, inp, h)
        else let h = h\<lparr>hr_body_len := unat (get_uint32 (drop 4 (hr_header h)))\<rparr> in
        if hr_body_len h < hello_min_body_size
        then (hello_receive_error zmp_error_internal ''hello too short'', inp, h)
        else if hr_body_len h > hello_max_body_size
        then (hello_receive_error zmp_error_body_too_large ''hello too large'', inp, h)
        else receive_hello_body inp h
      else receive_hello_body inp h)"

subsection \<open>Compatibility and lanes\<close>

definition socket_types_compatible :: "int \<Rightarrow> int \<Rightarrow> bool" where
  "socket_types_compatible local peer =
     (if local = SOCKET_DEALER \<or> local = SOCKET_ROUTER then peer = SOCKET_DEALER \<or> peer = SOCKET_ROUTER
      else if local = SOCKET_PUB then peer = SOCKET_SUB \<or> peer = SOCKET_XSUB
      else if local = SOCKET_SUB then peer = SOCKET_PUB \<or> peer = SOCKET_XPUB
      else if local = SOCKET_XPUB then peer = SOCKET_SUB \<or> peer = SOCKET_XSUB
      else if local = SOCKET_XSUB then peer = SOCKET_PUB \<or> peer = SOCKET_XPUB
      else if local = SOCKET_PAIR then peer = SOCKET_PAIR
      else False)"

definition expected_transport_lane_count :: "int \<Rightarrow> int \<Rightarrow> byte" where
  "expected_transport_lane_count local peer =
     (let local_dealer = local = SOCKET_DEALER; local_router = local = SOCKET_ROUTER;
          peer_dealer = peer = SOCKET_DEALER; peer_router = peer = SOCKET_ROUTER in
      if \<not> (local_dealer \<or> local_router) \<or> \<not> (peer_dealer \<or> peer_router) then 0
      else if local_router \<and> peer_router then 2 else 1)"

definition expected_transport_ready_mask :: "byte \<Rightarrow> nat" where
  "expected_transport_ready_mask lane_count = (if lane_count = 1 then 1 else if lane_count = 2 then 3 else 0)"

subsection \<open>Checking HELLO\<close>

definition parse_hello_frame :: "byte list option \<Rightarrow> int \<Rightarrow> errno option \<times> hello_parse_result" where
  "parse_hello_frame data local_type =
     (let r = hello_parse_result_init in
      case data of
        None \<Rightarrow> (Some EFAULT, r)
      | Some d \<Rightarrow>
          if length d < zmp_header_size + hello_min_body_size
          then (Some EPROTO, r\<lparr>hp_error_reason := Some ''hello too short''\<rparr>)
          else if d ! 0 \<noteq> zmp_magic
          then (Some EPROTO, r\<lparr>hp_error_code := zmp_error_invalid_magic, hp_malformed_hello_event := True\<rparr>)
          else if d ! 1 \<noteq> zmp_version
          then (Some EPROTO, r\<lparr>hp_error_code := zmp_error_version_mismatch, hp_malformed_hello_event := True\<rparr>)
          else if d ! 3 \<noteq> 0 \<or> d ! 2 \<noteq> zmp_flag_control
          then (Some EPROTO, r\<lparr>hp_error_code := zmp_error_flags_invalid, hp_malformed_hello_event := True\<rparr>)
          else let body_len = unat (get_uint32 (drop 4 d)); body = drop zmp_header_size d in
          if body_len + zmp_header_size \<noteq> length d
          then (Some EPROTO, r\<lparr>hp_error_reason := Some ''hello length mismatch''\<rparr>)
          else if body ! 0 \<noteq> zmp_control_hello
          then (Some EPROTO, r\<lparr>hp_error_reason := Some ''missing hello''\<rparr>)
          else let peer_type = uint (body ! 1) in
          if \<not> socket_types_compatible local_type peer_type
          then (Some EPROTO, r\<lparr>hp_error_code := zmp_error_socket_type_mismatch\<rparr>)
          else let identity_len = unat (body ! 2) in
          if body_len \<noteq> hello_min_body_size + identity_len
          then (Some EPROTO, r\<lparr>hp_error_reason := Some ''hello identity mismatch''\<rparr>)
          else (None, r\<lparr>hp_peer_type := peer_type,
                       hp_identity := take identity_len (drop hello_min_body_size body)\<rparr>))"

subsection \<open>READY and ERROR\<close>

text \<open>\<open>std::map::insert\<close> of a range keeps the value of a key that is already there.\<close>

definition props_insert :: "properties \<Rightarrow> properties \<Rightarrow> properties" where
  "props_insert new ps =
     fold (\<lambda>(k, v) ps. if map_of ps k = None then AList.update k v ps else ps) new ps"

text \<open>Result: the error and its reason, or the extended properties.\<close>

definition parse_ready_metadata :: "msg option \<Rightarrow> properties \<Rightarrow> (errno \<times> string option) + properties" where
  "parse_ready_metadata m ps =
     (case m of
        None \<Rightarrow> Inl (EFAULT, None)
      | Some m \<Rightarrow>
          if msg_size m < 1 then Inl (EPROTO, Some ''ready too short'')
          else if msg_size m > 1 then
            (case parse_props (tl (msg_data m)) [] of
               Inl er \<Rightarrow> Inl (er, Some ''ready metadata invalid'')
             | Inr peer \<Rightarrow> Inr (props_insert peer ps))
          else Inr ps)"

text \<open>The state that READY changes: \<open>ready_received_\<close>, \<open>metadata_\<close> and the properties.\<close>

record ready_state =
  rs_ready_received :: bool
  rs_metadata :: "properties option"
  rs_properties :: properties

definition accept_ready_message :: "msg option \<Rightarrow> ready_state \<Rightarrow> (errno \<times> string option) + ready_state" where
  "accept_ready_message m s =
     (if rs_ready_received s then Inl (EPROTO, Some ''duplicate ready'')
      else case parse_ready_metadata m (rs_properties s) of
        Inl e \<Rightarrow> Inl e
      | Inr ps \<Rightarrow>
          Inr (s\<lparr>rs_properties := ps, rs_metadata := (if ps \<noteq> [] then Some ps else rs_metadata s),
                 rs_ready_received := True\<rparr>))"

definition classify_command_message :: "msg option \<Rightarrow> bool \<Rightarrow> command_message_kind \<times> string option" where
  "classify_command_message m ready_received =
     (case m of
        None \<Rightarrow> (command_message_invalid, None)
      | Some m \<Rightarrow>
          if msg_size m < 1 then (command_message_invalid, None)
          else let type = hd (msg_data m) in
          if type = zmp_control_ready then (command_message_ready, None)
          else if type = zmp_control_error then (command_message_error, None)
          else if ready_received then (command_message_data_after_ready, None)
          else (command_message_invalid, Some ''unknown control''))"

text \<open>An ERROR frame always ends the connection; the code is reported when the frame is well formed.\<close>

definition parse_error_frame :: "msg option \<Rightarrow> errno \<times> u8 option \<times> string option" where
  "parse_error_frame m =
     (case m of
        None \<Rightarrow> (EFAULT, None, None)
      | Some m \<Rightarrow>
          if msg_size m < 3 then (EPROTO, None, Some ''error frame too short'')
          else if msg_size m \<noteq> 3 + unat (msg_data m ! 2)
          then (EPROTO, None, Some ''error frame invalid'')
          else (EPROTO, Some (msg_data m ! 1), None))"

subsection \<open>HELLO round trip\<close>

lemma build_hello_frame_eq:
  assumes "length (opt_routing_id opts) \<le> 255" "build_hello_frame opts capacity = Some bs"
  shows "bs = [zmp_magic, zmp_version, zmp_flag_control, 0]
       @ put_uint32 (word_of_nat (hello_min_body_size + length (opt_routing_id opts)))
       @ [zmp_control_hello, word_of_int (opt_type opts), word_of_nat (length (opt_routing_id opts))]
       @ opt_routing_id opts"
  using assms by (auto simp: build_hello_frame_def Let_def split: if_splits)

text \<open>C8: The HELLO frame an endpoint builds is accepted by every peer of a compatible socket type,
  which learns exactly the endpoint's socket type and routing id; a peer of an incompatible type
  rejects it with the socket type mismatch code.\<close>

theorem hello_roundtrip:
  assumes "length (opt_routing_id opts) \<le> 255" "0 \<le> opt_type opts" "opt_type opts < 256"
    and "build_hello_frame opts capacity = Some bs"
  shows "parse_hello_frame (Some bs) local_type =
     (if socket_types_compatible local_type (opt_type opts)
      then (None, hello_parse_result_init\<lparr>hp_peer_type := opt_type opts, hp_identity := opt_routing_id opts\<rparr>)
      else (Some EPROTO, hello_parse_result_init\<lparr>hp_error_code := zmp_error_socket_type_mismatch\<rparr>))"
proof -
  define n where "n = length (opt_routing_id opts)"
  define tail where "tail = [zmp_control_hello, word_of_int (opt_type opts), word_of_nat n :: byte] @ opt_routing_id opts"
  have bs: "bs = [zmp_magic, zmp_version, zmp_flag_control, 0] @ put_uint32 (word_of_nat (3 + n)) @ tail"
    using build_hello_frame_eq [OF assms(1,4)] by (simp add: n_def tail_def)
  have len: "unat (get_uint32 (put_uint32 (word_of_nat (3 + n)) @ tail)) = 3 + n"
    unfolding be32.get_put using assms(1) by (intro unat_u32_of_nat) (simp add: n_def)
  have id: "unat (word_of_nat n :: byte) = n" "uint (word_of_int (opt_type opts) :: byte) = opt_type opts"
    using assms(1-3) by (simp_all add: n_def unsigned_of_nat take_bit_nat_eq_self unsigned_of_int take_bit_int_eq_self)
  have size: "length bs = 11 + n" by (simp add: bs tail_def n_def length_simps)
  have body: "drop 8 bs = tail" by (simp add: bs length_simps)
  have "drop 4 bs = put_uint32 (word_of_nat (3 + n)) @ tail" by (simp add: bs)
  with len have len4: "unat (get_uint32 (drop 4 bs)) = 3 + n" by (simp only:)
  have hdr: "bs ! 0 = zmp_magic" "bs ! Suc 0 = zmp_version" "bs ! 2 = zmp_flag_control" "bs ! 3 = 0"
    by (simp_all add: bs)
  have tail: "tail ! 0 = zmp_control_hello" "uint (tail ! Suc 0) = opt_type opts" "unat (tail ! 2) = n"
      "take n (drop 3 tail) = opt_routing_id opts"
    using id by (simp_all add: tail_def n_def)
  show ?thesis
    unfolding parse_hello_frame_def by (simp add: Let_def size hdr len4 body tail)
qed

theorem hello_roundtrip_witness:
  "\<exists>bs. build_hello_frame ex_options 300 = Some bs
     \<and> parse_hello_frame (Some bs) SOCKET_DEALER =
       (None, hello_parse_result_init\<lparr>hp_peer_type := SOCKET_ROUTER, hp_identity := [1, 2]\<rparr>)"
proof -
  obtain bs where bs: "build_hello_frame ex_options 300 = Some bs" by (simp add: build_hello_frame_def Let_def)
  with hello_roundtrip [OF _ _ _ this, of SOCKET_DEALER] show ?thesis
    by (simp add: ex_options_def socket_types_compatible_def)
qed

subsection \<open>HELLO arriving in pieces\<close>

text \<open>\<open>asio_zmp_engine_t::receive_hello\<close> hands every received chunk to \<open>receive_hello_bytes\<close> until it
  is complete or refused; what is left of the input belongs to the decoder.\<close>

fun hello_feed :: "byte list list \<Rightarrow> hello_recv \<Rightarrow> hello_receive_status \<times> byte list \<times> hello_recv" where
  "hello_feed [] h = (hello_receive_incomplete, [], h)"
| "hello_feed (c # cs) h =
     (case receive_hello_bytes c h of
        (hello_receive_incomplete, rest, h') \<Rightarrow> hello_feed cs h'
      | (st, rest, h') \<Rightarrow> (st, rest @ concat cs, h'))"

text \<open>The receive state after the bytes \<open>p\<close>, and the answer due for a byte string.\<close>

definition hello_len :: "byte list \<Rightarrow> nat" where
  "hello_len p = unat (get_uint32 (drop 4 p))"

definition hello_state :: "byte list \<Rightarrow> hello_recv" where
  "hello_state p =
     \<lparr>hr_header = take 8 p,
      hr_body = (if 8 \<le> length p \<and> 3 \<le> hello_len (take 8 p) \<and> hello_len (take 8 p) \<le> 258
                 then take (hello_len (take 8 p)) (drop 8 p) else []),
      hr_body_len = (if 8 \<le> length p then hello_len (take 8 p) else 0)\<rparr>"

definition hello_answer :: "byte list \<Rightarrow> hello_receive_status \<times> byte list" where
  "hello_answer p =
     (let n = hello_len (take 8 p) in
      if length p < 8 then (hello_receive_incomplete, [])
      else if n < 3 then (hello_receive_error zmp_error_internal ''hello too short'', drop 8 p)
      else if n > 258 then (hello_receive_error zmp_error_body_too_large ''hello too large'', drop 8 p)
      else if length p < 8 + n then (hello_receive_incomplete, [])
      else (hello_receive_ready, drop (8 + n) p))"

lemma receive_hello_body_eq:
  assumes "length q < n"
  shows "receive_hello_body inp \<lparr>hr_header = H, hr_body = q, hr_body_len = n\<rparr> =
     (if length (q @ inp) < n then (hello_receive_incomplete, [], \<lparr>hr_header = H, hr_body = q @ inp, hr_body_len = n\<rparr>)
      else (hello_receive_ready, drop n (q @ inp), \<lparr>hr_header = H, hr_body = take n (q @ inp), hr_body_len = n\<rparr>))"
proof (cases "length inp < n - length q")
  case True
  then have "length q + length inp < n" by simp
  with True show ?thesis using assms by (simp add: receive_hello_body_def Let_def min_def)
next
  case False
  then show ?thesis using assms by (simp add: receive_hello_body_def Let_def min_def)
qed

lemma receive_hello_step:
  assumes "fst (hello_answer p) = hello_receive_incomplete"
  shows "receive_hello_bytes c (hello_state p) =
     (fst (hello_answer (p @ c)), snd (hello_answer (p @ c)), hello_state (p @ c))"
proof (cases "length p < 8")
  case short: True
  show ?thesis
  proof (cases "length (p @ c) < 8")
    case True
    then show ?thesis by (simp add: receive_hello_bytes_def hello_state_def hello_answer_def Let_def)
  next
    case False
    define k where "k = 8 - length p"
    define H where "H = p @ take k c"
    define n where "n = unat (get_uint32 (drop 4 H))"
    have k: "min (length c) k = k" "take 8 p = p" using short False by (simp_all add: k_def)
    have H: "length H = 8" "take 8 (p @ c) = H" "drop 8 (p @ c) = drop k c" "8 \<le> length (p @ c)"
      using short False by (simp_all add: H_def k_def)
    have st: "hello_state p = \<lparr>hr_header = p, hr_body = [], hr_body_len = 0\<rparr>"
      using short by (simp add: hello_state_def)
    have st': "hello_state (p @ c) = \<lparr>hr_header = H,
        hr_body = (if 3 \<le> n \<and> n \<le> 258 then take n (drop k c) else []), hr_body_len = n\<rparr>"
      unfolding hello_state_def H(2,3) hello_len_def n_def [symmetric] using H(4) by simp
    have lhs: "receive_hello_bytes c (hello_state p) =
        (if n < 3 then (hello_receive_error zmp_error_internal ''hello too short'', drop k c, \<lparr>hr_header = H, hr_body = [], hr_body_len = n\<rparr>)
         else if n > 258 then (hello_receive_error zmp_error_body_too_large ''hello too large'', drop k c, \<lparr>hr_header = H, hr_body = [], hr_body_len = n\<rparr>)
         else receive_hello_body (drop k c) \<lparr>hr_header = H, hr_body = [], hr_body_len = n\<rparr>)"
      unfolding receive_hello_bytes_def st Let_def using short H(1) k
      by (simp add: k_def [symmetric] H_def [symmetric] n_def [symmetric])
    have "drop (8 + n) (p @ c) = drop n (drop k c)" using H(3) by (metis add.commute drop_drop)
    then have rhs: "hello_answer (p @ c) =
        (if n < 3 then (hello_receive_error zmp_error_internal ''hello too short'', drop k c)
         else if n > 258 then (hello_receive_error zmp_error_body_too_large ''hello too large'', drop k c)
         else if length (drop k c) < n then (hello_receive_incomplete, [])
         else (hello_receive_ready, drop n (drop k c)))"
      unfolding hello_answer_def Let_def H(2,3) hello_len_def n_def [symmetric] using H(4) short
      by (auto simp: k_def)
    show ?thesis
      unfolding lhs rhs st' using receive_hello_body_eq [of "[]" n "drop k c" H] by auto
  qed
next
  case False
  define H n q where "H = take 8 p" and "n = hello_len H" and "q = drop 8 p"
  have p: "p = H @ q" "length H = 8" using False by (simp_all add: H_def q_def)
  have hs: "take 8 (p @ c) = H" "drop 8 (p @ c) = q @ c" "8 \<le> length (p @ c)" "drop (8 + n) (p @ c) = drop n (q @ c)"
    using False by (simp_all add: p)
  have q: "3 \<le> n" "n \<le> 258" "length q < n"
    using assms False by (auto simp: hello_answer_def Let_def n_def H_def q_def split: if_splits)
  have st: "hello_state p = \<lparr>hr_header = H, hr_body = q, hr_body_len = n\<rparr>"
    using False q by (simp add: hello_state_def H_def n_def q_def)
  have st': "hello_state (p @ c) = \<lparr>hr_header = H, hr_body = take n (q @ c), hr_body_len = n\<rparr>"
    unfolding hello_state_def hs(1,2) n_def [symmetric] using q hs(3) by simp
  have rhs: "hello_answer (p @ c) = (if length (q @ c) < n then (hello_receive_incomplete, [])
      else (hello_receive_ready, drop n (q @ c)))"
    unfolding hello_answer_def Let_def hs(1,2,4) n_def [symmetric] using q p(2) by (auto simp: p(1))
  show ?thesis
    unfolding st receive_hello_bytes_def using p(2)
    by (simp add: receive_hello_body_eq [OF q(3)] rhs st')
qed

lemma hello_answer_final:
  assumes "fst (hello_answer p) \<noteq> hello_receive_incomplete"
  shows "hello_answer (p @ r) = (fst (hello_answer p), snd (hello_answer p) @ r)"
    and "hello_state (p @ r) = hello_state p"
proof -
  have "8 \<le> length p" using assms by (auto simp: hello_answer_def Let_def split: if_splits)
  then have t: "take 8 (p @ r) = take 8 p" "drop 8 (p @ r) = drop 8 p @ r" by simp_all
  have ready: "hello_len (take 8 p) < 3 \<or> 258 < hello_len (take 8 p) \<or> 8 + hello_len (take 8 p) \<le> length p"
    using assms by (auto simp: hello_answer_def Let_def split: if_splits)
  show "hello_answer (p @ r) = (fst (hello_answer p), snd (hello_answer p) @ r)"
    unfolding hello_answer_def Let_def t using \<open>8 \<le> length p\<close> ready by auto
  show "hello_state (p @ r) = hello_state p"
    unfolding hello_state_def t using \<open>8 \<le> length p\<close> ready by auto
qed

lemma hello_feed_answer:
  "fst (hello_answer p) = hello_receive_incomplete \<Longrightarrow>
     hello_feed cs (hello_state p) =
       (fst (hello_answer (p @ concat cs)), snd (hello_answer (p @ concat cs)), hello_state (p @ concat cs))"
proof (induction cs arbitrary: p)
  case Nil
  then show ?case by (auto simp: hello_answer_def Let_def split: if_splits)
next
  case (Cons c cs)
  show ?case
  proof (cases "fst (hello_answer (p @ c)) = hello_receive_incomplete")
    case True
    with Cons.IH [OF this] show ?thesis by (simp add: receive_hello_step [OF Cons.prems])
  next
    case False
    with hello_answer_final [OF this, of "concat cs"] show ?thesis
      by (auto simp: receive_hello_step [OF Cons.prems] split: hello_receive_status.split)
  qed
qed

text \<open>However the transport cuts the bytes that start with an endpoint's HELLO, the receiver
  collects exactly the HELLO frame, in its 266 byte buffer, and hands every byte after it on.\<close>

theorem hello_any_chunks:
  assumes "length (opt_routing_id opts) \<le> 255" "build_hello_frame opts capacity = Some hello"
    and "concat chunks = hello @ rest"
  shows "\<exists>h. hello_feed chunks hello_recv_init = (hello_receive_ready, rest, h)
     \<and> hr_header h @ hr_body h = hello
     \<and> length (hr_header h) + length (hr_body h) \<le> zmp_header_size + hello_max_body_size"
proof -
  define n where "n = 3 + length (opt_routing_id opts)"
  define body where "body = [zmp_control_hello, word_of_int (opt_type opts),
      word_of_nat (length (opt_routing_id opts))] @ opt_routing_id opts"
  have h: "hello = [zmp_magic, zmp_version, zmp_flag_control, 0] @ put_uint32 (word_of_nat n) @ body"
      "length body = n" "n \<le> 0xffffffff"
    using build_hello_frame_eq [OF assms(1,2)] assms(1) by (simp_all add: n_def body_def)
  have hello: "length hello = 8 + n" "unat (get_uint32 (drop 4 (take 8 hello))) = n"
    using h(2,3) by (simp_all add: h(1) length_simps be32.get_put_exact unat_u32_of_nat)
  have len: "hello_len (take 8 hello) = n" "3 \<le> n" "n \<le> 258"
    using hello assms(1) by (simp_all add: hello_len_def n_def)
  have init: "hello_recv_init = hello_state []" "fst (hello_answer []) = hello_receive_incomplete"
    by (simp_all add: hello_recv_init_def hello_state_def hello_answer_def Let_def)
  have ans: "hello_answer hello = (hello_receive_ready, [])"
    using len hello by (simp add: hello_answer_def Let_def)
  then have "hello_feed chunks hello_recv_init = (hello_receive_ready, rest, hello_state hello)"
    using hello_feed_answer [OF init(2), of chunks] hello_answer_final [of hello rest]
    by (simp add: init(1) assms(3))
  moreover have "hr_header (hello_state hello) @ hr_body (hello_state hello) = hello"
    using len hello by (simp add: hello_state_def)
  ultimately show ?thesis
    using hello len by (metis length_append add_left_mono)
qed

theorem hello_any_chunks_witness:
  "\<exists>hello h. build_hello_frame ex_options 300 = Some hello
     \<and> hello_feed [take 3 hello, [], drop 3 hello @ [7]] hello_recv_init = (hello_receive_ready, [7], h)"
proof -
  obtain hello where h: "build_hello_frame ex_options 300 = Some hello" by (simp add: build_hello_frame_def Let_def)
  with hello_any_chunks [OF _ this, of "[take 3 hello, [], drop 3 hello @ [7]]" "[7]"] show ?thesis
    by (auto simp: ex_options_def)
qed

subsection \<open>Socket pairs and lanes\<close>

text \<open>The two ends of a connection always agree: socket type compatibility and the expected lane
  count are symmetric, and lanes are expected exactly between compatible routed sockets.\<close>

theorem handshake_symmetric:
  "socket_types_compatible a b = socket_types_compatible b a
   \<and> expected_transport_lane_count a b = expected_transport_lane_count b a
   \<and> (expected_transport_lane_count a b \<noteq> 0) = (socket_types_compatible a b \<and> is_routed a)
   \<and> expected_transport_ready_mask (expected_transport_lane_count a b)
       = 2 ^ unat (expected_transport_lane_count a b) - 1"
  by (auto simp: socket_types_compatible_def expected_transport_lane_count_def is_routed_def
      expected_transport_ready_mask_def Let_def)

subsection \<open>READY through the decoder\<close>

lemma control_header:
  assumes "length body \<le> 0xffffffff"
  shows "build_header (msg_init\<lparr>msg_flags := f_command, msg_data := body\<rparr>) (Some zmp_request_reply_header_size) False =
     Inr ([zmp_magic, zmp_version, zmp_flag_control, 0] @ put_uint32 (word_of_nat (length body)), False)"
  using assms by (simp add: build_header_def build_zmp_data_header_def get_request_reply_metadata_def
      Let_def zmp_wire_flags_def enc_special_flags_def)

text \<open>A control frame of legal size is delivered by a fresh decoder as a command message.\<close>

lemma control_frame_decoded:
  assumes "length body \<le> zmp_max_control_body_size" "maxmsgsize < 2 ^ 63"
    and "env_open env (zmp_decoder_init maxmsgsize)"
  shows "\<exists>d'. dec_bytes env ([zmp_magic, zmp_version, zmp_flag_control, 0]
        @ put_uint32 (word_of_nat (length body)) @ body) (zmp_decoder_init maxmsgsize) =
      ([msg_init\<lparr>msg_flags := f_command, msg_data := body\<rparr>], None, d') \<and> dec_clean d'"
proof -
  define m where "m = msg_init\<lparr>msg_flags := f_command, msg_data := body\<rparr>"
  define d where "d = zmp_decoder_init maxmsgsize"
  have d: "dec_clean d" "dec_max_application d \<le> UINT64_MAX" "\<not> dec_multipart d"
    using assms(2) by (auto simp: d_def zmp_decoder_init_def dec_restart_def dec_next_step_def dec_clean_def
        compute_application_message_max_def)
  have hdr: "build_header m (Some zmp_request_reply_header_size) (dec_multipart d) =
     Inr ([zmp_magic, zmp_version, zmp_flag_control, 0] @ put_uint32 (word_of_nat (length body)), False)"
    using control_header [of body] assms(1) d(3) by (simp add: m_def)
  have "wire_expressible (msg_flags m)" "frame_fits (dec_max_msg_size d) (dec_max_application d) (dec_multipart_size d) m"
    using assms(1) by (simp_all add: m_def wire_expressible_def wire_msg_flags_def frame_fits_def
        msg_special_def enc_special_flags_def)
  from frame_roundtrip [OF d(1) assms(3) [folded d_def] d(2) hdr this]
  have "\<exists>d'. dec_bytes env ([zmp_magic, zmp_version, zmp_flag_control, 0]
        @ put_uint32 (word_of_nat (length body)) @ body) d = ([wire_view m], None, d') \<and> dec_clean d'"
    by (auto simp: m_def)
  moreover have "wire_view m = m" by (simp add: wire_view_def m_def wire_msg_flags_def msg_init_def)
  ultimately show ?thesis by (simp add: m_def d_def)
qed

lemma property_bytes_length: "length (property_bytes (k, v)) = 5 + length k + length v"
  by (simp add: property_bytes_def length_simps)

lemma ready_body_length:
  assumes "options_ok opts"
  shows "length (concat (map property_bytes (basic_properties opts))) \<le> 4000"
proof -
  obtain ty where "socket_type_string (opt_type opts) = Some ty" "length ty \<le> 6"
    using assms socket_type_string_length by (auto simp: options_ok_def)
  then show ?thesis
    using assms by (auto simp: basic_properties_def property_bytes_length options_ok_def length_simps)
qed

lemma map_of_props_insert:
  "distinct (map fst new) \<Longrightarrow> map_of (props_insert new ps) = map_of new ++ map_of ps"
  unfolding props_insert_def
proof (induction new arbitrary: ps)
  case (Cons p new)
  obtain k v where p: "p = (k, v)" by force
  with Cons.prems have "k \<notin> dom (map_of new)" by (simp add: dom_map_of_conv_image_fst)
  with Cons p show ?case
    by (auto simp: AList.update_conv' map_add_def fun_eq_iff dom_def split: option.splits)
qed simp

lemma distinct_fold_update:
  "distinct (map fst out) \<Longrightarrow> distinct (map fst (fold (\<lambda>(k, v). AList.update k v) ps out))"
  by (induction ps arbitrary: out) (auto simp: AList.distinct_update)


definition ex_ready :: ready_state where
  "ex_ready = \<lparr>rs_ready_received = False, rs_metadata = None, rs_properties = []\<rparr>"


end
