(* ===== verification/Control_Frames.thy ===== *)
theory Control_Frames
  imports Zmp_Control
begin

section \<open>Commands after the handshake: WEIGHT and FLOWSTATE\<close>

text \<open>
  Models \<open>protocol/zmp_peer_weight.hpp\<close> and \<open>core/flow_state_frame.hpp\<close>, the two named commands
  that peers exchange on an established connection. Both follow one contract, the locale
  \<open>command_codec\<close>: a command belongs to the codec exactly when it starts with the codec's name,
  what the codec writes it reads back, and what it reads is what was written. The contract yields
  that the commands never collide with each other or with READY and ERROR.
\<close>

subsection \<open>The contract\<close>

definition is_command :: "'a msg_base_scheme \<Rightarrow> bool" where
  "is_command m \<longleftrightarrow> msg_flags m AND f_command \<noteq> 0"

locale command_codec =
  fixes name :: "byte list"
    and valid :: "'a \<Rightarrow> bool"
    and build :: "'a \<Rightarrow> msg"
    and mine :: "msg \<Rightarrow> bool"
    and read :: "msg \<Rightarrow> 'a option"
  assumes build_command: "is_command (build a)"
    and build_name: "take (length name) (msg_data (build a)) = name"
    and mine_iff: "mine m \<longleftrightarrow> is_command m \<and> take (length name) (msg_data m) = name"
    and read_mine: "read m = Some a \<Longrightarrow> mine m \<and> valid a"
    and read_build: "valid a \<Longrightarrow> read (build a) = Some a"
    and build_read: "read m = Some a \<Longrightarrow> msg_data m = msg_data (build a)"
    and name_nonempty: "name \<noteq> []"
begin

lemma build_mine: "mine (build a)"
  by (simp add: mine_iff build_command build_name)

lemma build_inj: "valid a \<Longrightarrow> valid b \<Longrightarrow> build a = build b \<Longrightarrow> a = b"
  using read_build by (metis option.inject)

lemma not_mine_ignored: "\<not> mine m \<Longrightarrow> read m = None"
  using read_mine by (cases "read m") auto

lemma mine_head: "mine m \<Longrightarrow> msg_size m \<ge> 1 \<and> hd (msg_data m) = hd name"
  using name_nonempty by (cases name; cases "msg_data m") (auto simp: mine_iff)

lemma mine_after_ready:
  assumes "mine m" "hd name \<noteq> zmp_control_ready" "hd name \<noteq> zmp_control_error"
  shows "classify_command_message (Some m) True = (command_message_data_after_ready, None)"
  using mine_head [OF assms(1)] assms(2,3) by (auto simp: classify_command_message_def Let_def)

end

subsection \<open>WEIGHT\<close>

definition weight_name :: "byte list" where
  "weight_name = str_bytes ''WEIGHT''"

abbreviation weight_command_size :: nat where "weight_command_size \<equiv> 10"

datatype weight_result = weight_decode_not_weight_command | weight_decode_malformed | weight_decode_ok u32

text \<open>\<open>init_command\<close> writes the weight big endian after the name; the message is allocated first, and
  \<open>None\<close> stands for a failed allocation.\<close>

definition weight_init_command :: "bool \<Rightarrow> u32 \<Rightarrow> msg option" where
  "weight_init_command alloc weight =
     (if \<not> alloc then None
      else Some (set_flags f_command (msg_init\<lparr>msg_data := weight_name
        @ [byte_of 24 weight, byte_of 16 weight, byte_of 8 weight, byte_of 0 weight]\<rparr>)))"

definition weight_decode_command :: "msg \<Rightarrow> weight_result" where
  "weight_decode_command m =
     (if \<not> (msg_flags m AND f_command \<noteq> 0) \<or> msg_size m < length weight_name
      then weight_decode_not_weight_command
      else if take (length weight_name) (msg_data m) \<noteq> weight_name then weight_decode_not_weight_command
      else if msg_size m \<noteq> weight_command_size then weight_decode_malformed
      else let p = drop (length weight_name) (msg_data m) in
           weight_decode_ok (byte_at 24 (p ! 0) OR byte_at 16 (p ! 1) OR byte_at 8 (p ! 2) OR byte_at 0 (p ! 3)))"

subsection \<open>FLOWSTATE\<close>

definition flow_name :: "byte list" where
  "flow_name = str_bytes ''FLOWSTATE''"

abbreviation frame_protocol_version :: u8 where "frame_protocol_version \<equiv> 1"
abbreviation receive_flow_running :: u8 where "receive_flow_running \<equiv> 0"
abbreviation receive_flow_paused :: u8 where "receive_flow_paused \<equiv> 1"
abbreviation flow_frame_size :: nat where "flow_frame_size \<equiv> 19"

record flow_frame =
  fr_version :: u8
  fr_state :: u8
  fr_epoch :: u64

datatype flow_result =
    flow_decode_not_flow_frame | flow_decode_unsupported_version | flow_decode_malformed
  | flow_decode_ok flow_frame

definition put_uint64_be :: "u64 \<Rightarrow> byte list" where
  "put_uint64_be v = map (\<lambda>i. byte_of (56 - 8 * i) v) [0..<8]"

definition get_uint64_be :: "byte list \<Rightarrow> u64" where
  "get_uint64_be bs = foldl (\<lambda>v i. push_bit 8 v OR ucast (bs ! i)) 0 [0..<8]"

definition version_supported :: "u8 \<Rightarrow> bool" where
  "version_supported v \<longleftrightarrow> v = frame_protocol_version"

definition state_valid :: "u8 \<Rightarrow> bool" where
  "state_valid s \<longleftrightarrow> s = receive_flow_running \<or> s = receive_flow_paused"

definition flow_init_frame :: "bool \<Rightarrow> flow_frame \<Rightarrow> msg option" where
  "flow_init_frame alloc f =
     (if \<not> alloc then None
      else Some (set_flags f_command (msg_init\<lparr>msg_data := flow_name @ [fr_version f, fr_state f]
        @ put_uint64_be (fr_epoch f)\<rparr>)))"

definition flow_decode_frame :: "msg \<Rightarrow> flow_result" where
  "flow_decode_frame m =
     (if \<not> (msg_flags m AND f_command \<noteq> 0) then flow_decode_not_flow_frame
      else if msg_size m < length flow_name then flow_decode_not_flow_frame
      else if take (length flow_name) (msg_data m) \<noteq> flow_name then flow_decode_not_flow_frame
      else if msg_size m < length flow_name + 1 then flow_decode_malformed
      else let version = msg_data m ! length flow_name in
      if \<not> version_supported version then flow_decode_unsupported_version
      else if msg_size m \<noteq> flow_frame_size then flow_decode_malformed
      else let f = \<lparr>fr_version = version, fr_state = msg_data m ! (length flow_name + 1),
                    fr_epoch = get_uint64_be (drop (length flow_name + 2) (msg_data m))\<rparr> in
      if \<not> state_valid (fr_state f) \<or> fr_epoch f = 0 then flow_decode_malformed
      else flow_decode_ok f)"

subsection \<open>Both codecs keep the contract\<close>

lemma upt_8: "[0..<8] = [0, 1, 2, 3, 4, 5, 6, 7 :: nat]"
  by code_simp

lemma put_uint64_be_eq: "put_uint64_be v = put_uint64 v"
  by (simp add: put_uint64_be_def put_uint64_def upt_8)

lemma get_uint64_be_eq:
  assumes "length bs = 8"
  shows "get_uint64_be bs = get_uint64 bs"
proof -
  obtain a b c d e f g h where "bs = [a, b, c, d, e, f, g, h]" using assms by (auto simp: list_len8)
  then show ?thesis
    by (simp add: get_uint64_be_def upt_8 get_uint64_def byte_at_def push_bit_or or.assoc)
qed

lemma weight_name_length [simp]: "length weight_name = 6"
  by (simp add: weight_name_def)

lemma flow_name_length [simp]: "length flow_name = 9"
  by (simp add: flow_name_def)

lemma weight_bytes: "[byte_of 24 w, byte_of 16 w, byte_of 8 w, byte_of 0 w] = put_uint32 w"
  by (simp add: put_uint32_def)

lemma weight_value:
  "length p = 4 \<Longrightarrow>
     byte_at 24 (p ! 0) OR byte_at 16 (p ! 1) OR byte_at 8 (p ! 2) OR byte_at 0 (p ! 3) = get_uint32 p"
  by (simp add: get_uint32_def or.assoc)

lemma take_prefix_eq: "take n xs = ys \<Longrightarrow> xs = ys @ drop n xs"
  by (metis append_take_drop_id)

lemma weight_decode_iff:
  "weight_decode_command m = weight_decode_ok w \<longleftrightarrow>
     is_command m \<and> msg_data m = weight_name @ put_uint32 w"
proof
  assume ok: "weight_decode_command m = weight_decode_ok w"
  then have p: "is_command m" "take 6 (msg_data m) = weight_name" "msg_size m = 10"
      "w = get_uint32 (drop 6 (msg_data m))"
    using weight_value [of "drop 6 (msg_data m)"]
    by (auto simp: weight_decode_command_def is_command_def Let_def split: if_splits)
  moreover have "drop 6 (msg_data m) = put_uint32 w"
    using p be32.put_get [of "drop 6 (msg_data m)"] by simp
  ultimately show "is_command m \<and> msg_data m = weight_name @ put_uint32 w"
    using take_prefix_eq [OF p(2)] by simp
next
  assume "is_command m \<and> msg_data m = weight_name @ put_uint32 w"
  then show "weight_decode_command m = weight_decode_ok w"
    using weight_value [of "put_uint32 w"] be32.get_put_exact [of w]
    by (simp add: weight_decode_command_def is_command_def length_simps)
qed

definition flow_frame_valid :: "flow_frame \<Rightarrow> bool" where
  "flow_frame_valid f \<longleftrightarrow> fr_version f = frame_protocol_version \<and> state_valid (fr_state f) \<and> fr_epoch f \<noteq> 0"

lemma flow_decode_iff:
  "flow_decode_frame m = flow_decode_ok f \<longleftrightarrow>
     flow_frame_valid f \<and> is_command m
     \<and> msg_data m = flow_name @ [fr_version f, fr_state f] @ put_uint64 (fr_epoch f)"
proof
  assume ok: "flow_decode_frame m = flow_decode_ok f"
  define r where "r = drop 9 (msg_data m)"
  have p: "is_command m" "take 9 (msg_data m) = flow_name" "msg_size m = 19" "flow_frame_valid f"
      "fr_version f = msg_data m ! 9" "fr_state f = msg_data m ! 10"
      "fr_epoch f = get_uint64_be (drop 11 (msg_data m))"
    using ok by (auto simp: flow_decode_frame_def is_command_def Let_def flow_frame_valid_def
        version_supported_def eval_nat_numeral split: if_splits)
  have "drop 9 (msg_data m) = msg_data m ! 9 # msg_data m ! 10 # drop 11 (msg_data m)"
    using p(3) Cons_nth_drop_Suc [of 9 "msg_data m"] Cons_nth_drop_Suc [of 10 "msg_data m"] by simp
  moreover have "put_uint64 (fr_epoch f) = drop 11 (msg_data m)"
    using p(3,7) get_uint64_be_eq [of "drop 11 (msg_data m)"] be64.put_get [of "drop 11 (msg_data m)"] by simp
  ultimately show "flow_frame_valid f \<and> is_command m
     \<and> msg_data m = flow_name @ [fr_version f, fr_state f] @ put_uint64 (fr_epoch f)"
    using p take_prefix_eq [OF p(2)] by simp
next
  assume h: "flow_frame_valid f \<and> is_command m
     \<and> msg_data m = flow_name @ [fr_version f, fr_state f] @ put_uint64 (fr_epoch f)"
  then have "get_uint64_be (put_uint64 (fr_epoch f)) = fr_epoch f"
    by (simp add: get_uint64_be_eq length_simps be64.get_put_exact)
  with h show "flow_decode_frame m = flow_decode_ok f"
    by (simp add: flow_decode_frame_def is_command_def flow_frame_valid_def version_supported_def nth_append
        length_simps)
qed

definition weight_mine :: "msg \<Rightarrow> bool" where
  "weight_mine m \<longleftrightarrow> weight_decode_command m \<noteq> weight_decode_not_weight_command"

definition weight_read :: "msg \<Rightarrow> u32 option" where
  "weight_read m = (case weight_decode_command m of weight_decode_ok w \<Rightarrow> Some w | _ \<Rightarrow> None)"

definition flow_mine :: "msg \<Rightarrow> bool" where
  "flow_mine m \<longleftrightarrow> flow_decode_frame m \<noteq> flow_decode_not_flow_frame"

definition flow_read :: "msg \<Rightarrow> flow_frame option" where
  "flow_read m = (case flow_decode_frame m of flow_decode_ok f \<Rightarrow> Some f | _ \<Rightarrow> None)"

lemma weight_read_iff: "weight_read m = Some w \<longleftrightarrow> weight_decode_command m = weight_decode_ok w"
  by (auto simp: weight_read_def split: weight_result.splits)

lemma flow_read_iff: "flow_read m = Some f \<longleftrightarrow> flow_decode_frame m = flow_decode_ok f"
  by (auto simp: flow_read_def split: flow_result.splits)

lemma weight_mine_iff: "weight_mine m \<longleftrightarrow> is_command m \<and> take (length weight_name) (msg_data m) = weight_name"
  using weight_name_length
  by (auto simp: weight_mine_def weight_decode_command_def is_command_def Let_def dest: arg_cong [of _ _ length])

lemma flow_mine_iff: "flow_mine m \<longleftrightarrow> is_command m \<and> take (length flow_name) (msg_data m) = flow_name"
  using flow_name_length
  by (auto simp: flow_mine_def flow_decode_frame_def is_command_def Let_def dest: arg_cong [of _ _ length])

lemma weight_init_data:
  "msg_data (the (weight_init_command True w)) = weight_name @ put_uint32 w"
  "is_command (the (weight_init_command True w))"
  unfolding weight_init_command_def weight_bytes by (simp_all add: is_command_def)

lemma flow_init_data:
  "msg_data (the (flow_init_frame True f)) = flow_name @ [fr_version f, fr_state f] @ put_uint64 (fr_epoch f)"
  "is_command (the (flow_init_frame True f))"
  by (simp_all add: flow_init_frame_def is_command_def put_uint64_be_eq)

interpretation weight: command_codec weight_name "\<lambda>_. True" "\<lambda>w. the (weight_init_command True w)"
  weight_mine weight_read
proof unfold_locales
  show "weight_name \<noteq> []" by (simp add: weight_name_def str_bytes_def)
qed (auto simp: weight_mine_iff weight_read_iff weight_decode_iff weight_init_data)

interpretation flow: command_codec flow_name flow_frame_valid "\<lambda>f. the (flow_init_frame True f)"
  flow_mine flow_read
proof unfold_locales
  show "flow_name \<noteq> []" by (simp add: flow_name_def str_bytes_def)
qed (auto simp: flow_mine_iff flow_read_iff flow_decode_iff flow_init_data)

subsection \<open>Properties\<close>


text \<open>The FLOWSTATE codec is exact: a message decodes to the frame \<open>f\<close> if and only if \<open>f\<close> is of the
  supported version with a legal state and a non-zero epoch, and the message is a command whose
  payload is the name, the version, the state and the big-endian epoch.\<close>

theorem flow_codec_exact:
  "flow_decode_frame m = flow_decode_ok f \<longleftrightarrow>
     flow_frame_valid f \<and> is_command m
     \<and> msg_data m = flow_name @ [fr_version f, fr_state f] @ put_uint64 (fr_epoch f)"
  by (rule flow_decode_iff)

text \<open>The command name spaces are disjoint: no message is claimed by both codecs, and once READY
  was received every command claimed by either codec is passed on as data after READY, so that it is
  neither mistaken for READY or ERROR nor rejected.\<close>

theorem commands_disjoint:
  assumes "weight_decode_command m \<noteq> weight_decode_not_weight_command
      \<or> flow_decode_frame m \<noteq> flow_decode_not_flow_frame"
  shows "(weight_decode_command m = weight_decode_not_weight_command
      \<or> flow_decode_frame m = flow_decode_not_flow_frame)
     \<and> classify_command_message (Some m) True = (command_message_data_after_ready, None)"
proof -
  have hd: "hd weight_name = 87" "hd flow_name = 70" by (simp_all add: weight_name_def flow_name_def str_bytes_def)
  have "\<not> (weight_mine m \<and> flow_mine m)"
    using weight.mine_head [of m] flow.mine_head [of m] hd by auto
  moreover have "weight_mine m \<or> flow_mine m" using assms by (simp add: weight_mine_def flow_mine_def)
  ultimately show ?thesis
    using weight.mine_after_ready [of m] flow.mine_after_ready [of m] hd
    by (auto simp: weight_mine_def flow_mine_def)
qed

theorem commands_disjoint_witness:
  "flow_decode_frame (the (weight_init_command True 5)) = flow_decode_not_flow_frame
   \<and> classify_command_message (Some (the (weight_init_command True 5))) True
       = (command_message_data_after_ready, None)"
proof -
  have "weight_decode_command (the (weight_init_command True 5)) = weight_decode_ok 5"
    by (simp add: weight_decode_iff weight_init_data)
  then show ?thesis using commands_disjoint [of "the (weight_init_command True 5)"] by simp
qed

end
