(* ===== verification/Byte_Table.thy ===== *)
theory Byte_Table
  imports Prelude
begin

section \<open>Child tables of the subscription tries\<close>

text \<open>
  Both tries (\<open>utils/trie.cpp\<close> and \<open>utils/generic_mtrie_impl.hpp\<close>) keep the children of a node in a
  table over the byte range \<open>[_min, _min + _count)\<close>, extended when a byte outside the range is added
  and compacted when a child is pruned; \<open>_count == 1\<close> stores the only child without a table. The
  table is modelled as its lower bound, its live counter and the list of its \<open>_count\<close> slots, and
  each C++ operation as a function on it. Reading a slot by its byte abstracts a table to a
  partial map; the lemmas say what every operation does to that map and that the layout invariant
  (both ends of the table are used, the live counter is exact) is kept.
\<close>

datatype 'a table = Table (tb_min: nat) (tb_live: nat) (tb_next: "'a option list")

definition tb_empty :: "'a table" where
  "tb_empty = Table 0 0 []"

definition tb_in_range :: "nat \<Rightarrow> 'a table \<Rightarrow> bool" where
  "tb_in_range c t \<longleftrightarrow> tb_min t \<le> c \<and> c < tb_min t + length (tb_next t)"

text \<open>The child for a byte: the range test and the slot access of \<open>check\<close>, \<open>rm\<close> and \<open>match\<close>.\<close>

definition tb_slot :: "nat \<Rightarrow> 'a table \<Rightarrow> 'a option" where
  "tb_slot c t = (if tb_in_range c t then tb_next t ! (c - tb_min t) else None)"

subsection \<open>Operations\<close>

text \<open>Extending the table so that it covers a byte: the four cases of \<open>add\<close>.\<close>

fun tb_extend :: "nat \<Rightarrow> 'a table \<Rightarrow> 'a table" where
  "tb_extend c (Table mn lv nx) =
     (if c < mn \<or> c \<ge> mn + length nx then
        (if nx = [] then Table c lv [None]
         else if length nx = 1 then
           Table (min mn c) lv
             ((replicate ((if mn < c then c - mn else mn - c) + 1) None)[mn - min mn c := nx ! 0])
         else if mn < c then Table mn lv (nx @ replicate (c - mn + 1 - length nx) None)
         else Table c lv (replicate (mn - c) None @ nx))
      else Table mn lv nx)"

text \<open>Storing a child; a new one is counted.\<close>

fun tb_put :: "nat \<Rightarrow> 'a \<Rightarrow> 'a table \<Rightarrow> 'a table" where
  "tb_put c x (Table mn lv nx) =
     Table mn (if tb_slot c (Table mn lv nx) = None then lv + 1 else lv) (nx[c - mn := Some x])"

text \<open>The loops that look for the nearest used slot from the left and from the right.\<close>

definition tb_scan_left :: "nat \<Rightarrow> 'a option list \<Rightarrow> nat option" where
  "tb_scan_left from nx = List.find (\<lambda>i. nx ! i \<noteq> None) [from..<length nx]"

definition tb_scan_right :: "'a option list \<Rightarrow> nat option" where
  "tb_scan_right nx = List.find (\<lambda>i. nx ! (length nx - 1 - i) \<noteq> None) [1..<length nx]"

text \<open>Pruning a child in \<open>trie_t::rm\<close>. A violated assertion is \<open>None\<close>.\<close>

fun tb_prune :: "nat \<Rightarrow> 'a table \<Rightarrow> 'a table option" where
  "tb_prune c (Table mn lv nx) =
     (if length nx = 0 then None
      else if length nx = 1 then (if lv - 1 \<noteq> 0 \<or> lv = 0 then None else Some (Table mn 0 []))
      else if \<not> lv > 1 then None
      else let nx = nx[c - mn := None]; lv = lv - 1; n = length nx in
      if lv = 1 then
        (if c = mn then map_option (\<lambda>r. Table (mn + n - 1) 1 [Some r]) (nx ! (n - 1))
         else if c = mn + n - 1 then map_option (\<lambda>r. Table mn 1 [Some r]) (nx ! 0)
         else None)
      else if c = mn then
        map_option (\<lambda>i. Table (mn + i) lv (drop i nx)) (tb_scan_left 1 nx)
      else if c = mn + n - 1 then
        map_option (\<lambda>i. Table mn lv (take (n - i) nx)) (tb_scan_right nx)
      else Some (Table mn lv nx))"

text \<open>Pruning a child in \<open>generic_mtrie_t::rm\<close>: the last remaining child is searched for.\<close>

fun tb_prune_scan :: "nat \<Rightarrow> 'a table \<Rightarrow> 'a table option" where
  "tb_prune_scan c (Table mn lv nx) =
     (if length nx = 0 then None
      else if length nx = 1 then (if lv - 1 \<noteq> 0 \<or> lv = 0 then None else Some (Table mn 0 []))
      else if \<not> lv > 1 then None
      else let nx = nx[c - mn := None]; lv = lv - 1; n = length nx in
      if lv = 1 then map_option (\<lambda>i. Table (mn + i) 1 [nx ! i]) (tb_scan_left 0 nx)
      else if c = mn then
        map_option (\<lambda>i. Table (mn + i) lv (drop i nx)) (tb_scan_left 1 nx)
      else if c = mn + n - 1 then
        map_option (\<lambda>i. Table mn lv (take (n - i) nx)) (tb_scan_right nx)
      else Some (Table mn lv nx))"

subsection \<open>The invariant\<close>

definition tb_ok :: "'a table \<Rightarrow> bool" where
  "tb_ok t \<longleftrightarrow> tb_min t + length (tb_next t) \<le> 256
     \<and> tb_live t = card {c. tb_slot c t \<noteq> None}
     \<and> (tb_next t \<noteq> [] \<longrightarrow>
          tb_slot (tb_min t) t \<noteq> None \<and> tb_slot (tb_min t + length (tb_next t) - 1) t \<noteq> None)"

lemma tb_slot_Table:
  "tb_slot c (Table mn lv nx) = (if mn \<le> c \<and> c < mn + length nx then nx ! (c - mn) else None)"
  by (simp add: tb_slot_def tb_in_range_def)

lemma tb_empty_simps [simp]: "tb_slot c tb_empty = None" "tb_ok tb_empty" "tb_live tb_empty = 0"
  by (simp_all add: tb_empty_def tb_slot_Table tb_ok_def)

lemma tb_slot_range: "tb_slot c t = Some x \<Longrightarrow> tb_in_range c t"
  by (simp add: tb_slot_def split: if_splits)

lemma tb_slot_bound: "tb_ok t \<Longrightarrow> tb_slot c t = Some x \<Longrightarrow> c < 256"
  by (auto simp: tb_ok_def tb_slot_def tb_in_range_def split: if_splits)

lemma tb_slots_finite: "finite {c. tb_slot c t \<noteq> None}"
  by (rule finite_subset [of _ "{..< tb_min t + length (tb_next t)}"])
    (auto simp: tb_slot_def tb_in_range_def split: if_splits)

lemma tb_live_0: "tb_ok t \<Longrightarrow> tb_live t = 0 \<longleftrightarrow> (\<forall>c. tb_slot c t = None)"
  using tb_slots_finite [of t] by (auto simp: tb_ok_def)

lemma tb_live_pos: "tb_ok t \<Longrightarrow> tb_slot c t = Some x \<Longrightarrow> 0 < tb_live t"
  using tb_live_0 [of t] by fastforce

text \<open>A live counter of one means that there is just one child.\<close>

lemma tb_live_unique:
  assumes "tb_ok t" "tb_live t \<le> 1" "tb_slot c t = Some x" "tb_slot c' t = Some y"
  shows "c' = c"
proof -
  have "card {c. tb_slot c t \<noteq> None} \<le> 1" using assms(1,2) by (simp add: tb_ok_def)
  then have "\<exists>a. {c. tb_slot c t \<noteq> None} \<subseteq> {a}"
    using tb_slots_finite [of t] by (metis card_le_Suc0_iff_eq One_nat_def singleton_iff subsetI)
  then show ?thesis using assms(3,4) by auto
qed

subsection \<open>Adding\<close>

text \<open>The extended table covers the byte, reads as before, and ends at the byte or at an old end.\<close>

lemma tb_extend_cases:
  assumes "c < mn \<or> mn + length nx \<le> c" "nx \<noteq> []"
  shows "\<exists>nx'. tb_extend c (Table mn lv nx) = Table (min mn c) lv nx'
     \<and> length nx' = (if c < mn then mn - c + length nx else c - mn + 1)
     \<and> (\<forall>x. tb_slot x (Table (min mn c) lv nx') = tb_slot x (Table mn lv nx))"
proof (cases "length nx = 1")
  case True
  then obtain y where nx: "nx = [y]" by (auto simp: length_Suc_conv)
  show ?thesis
  proof (cases "c < mn")
    case True
    then show ?thesis by (auto simp: nx tb_slot_Table nth_list_update min_def simp del: replicate_Suc)
  next
    case False
    with assms(1) nx show ?thesis by (auto simp: tb_slot_Table nth_list_update min_def simp del: replicate_Suc)
  qed
next
  case False
  show ?thesis
  proof (cases "c < mn")
    case True
    with False assms(2) show ?thesis by (auto simp: tb_slot_Table nth_append min_def)
  next
    case above: False
    have "mn < c" using assms above by (cases nx) auto
    with False above assms show ?thesis by (auto simp: tb_slot_Table nth_append min_def)
  qed
qed

lemma tb_put_slot:
  "tb_in_range c t \<Longrightarrow> tb_slot x (tb_put c y t) = (if x = c then Some y else tb_slot x t)"
  by (cases t) (auto simp: tb_in_range_def tb_slot_Table nth_list_update)

lemma tb_put_shape [simp]:
  "tb_min (tb_put c y t) = tb_min t" "length (tb_next (tb_put c y t)) = length (tb_next t)"
  "tb_live (tb_put c y t) = (if tb_slot c t = None then tb_live t + 1 else tb_live t)"
  by (cases t; simp)+

lemma tb_put_ok:
  assumes r: "tb_in_range c t" and b: "tb_min t + length (tb_next t) \<le> 256"
    and live: "tb_live t = card {c. tb_slot c t \<noteq> None}"
    and ends: "tb_min t = c \<or> tb_slot (tb_min t) t \<noteq> None"
      "tb_min t + length (tb_next t) = Suc c \<or> tb_slot (tb_min t + length (tb_next t) - 1) t \<noteq> None"
  shows "tb_ok (tb_put c y t)"
proof -
  have "{x. tb_slot x (tb_put c y t) \<noteq> None} = insert c {x. tb_slot x t \<noteq> None}"
    using tb_put_slot [OF r] by auto
  then have "card {x. tb_slot x (tb_put c y t) \<noteq> None} = tb_live (tb_put c y t)"
    using tb_slots_finite [of t] live by (auto simp: card_insert_if)
  then show ?thesis
    using b ends tb_put_slot [OF r] by (auto simp: tb_ok_def)
qed

text \<open>Extending and storing, as \<open>add\<close> does it: the abstract map is updated at the byte.\<close>

lemma tb_add:
  assumes "tb_ok t" "c < 256"
  shows "tb_ok (tb_put c y (tb_extend c t))"
    and "tb_slot x (tb_put c y (tb_extend c t)) = (if x = c then Some y else tb_slot x t)"
    and "tb_slot x (tb_extend c t) = tb_slot x t"
proof -
  obtain mn lv nx where t: "t = Table mn lv nx" by (cases t)
  have ok: "mn + length nx \<le> 256" "lv = card {c. tb_slot c t \<noteq> None}"
      "nx \<noteq> [] \<Longrightarrow> tb_slot mn t \<noteq> None \<and> tb_slot (mn + length nx - 1) t \<noteq> None"
    using assms(1) by (simp_all add: tb_ok_def t)
  have sl: "tb_in_range c (tb_extend c t) \<and> (\<forall>x. tb_slot x (tb_extend c t) = tb_slot x t)
     \<and> tb_min (tb_extend c t) + length (tb_next (tb_extend c t)) \<le> 256
     \<and> tb_live (tb_extend c t) = lv
     \<and> (tb_min (tb_extend c t) = c \<or> tb_slot (tb_min (tb_extend c t)) t \<noteq> None)
     \<and> (tb_min (tb_extend c t) + length (tb_next (tb_extend c t)) = Suc c
        \<or> tb_slot (tb_min (tb_extend c t) + length (tb_next (tb_extend c t)) - 1) t \<noteq> None)"
  proof (cases "nx = []")
    case True
    then show ?thesis using assms(2) by (auto simp: t tb_in_range_def tb_slot_Table)
  next
    case ne: False
    show ?thesis
    proof (cases "tb_in_range c t")
      case True
      then have "tb_extend c t = t" by (auto simp: t tb_in_range_def)
      with True ok(1) ok(3) [OF ne] show ?thesis by (simp add: t)
    next
      case False
      then have rng: "c < mn \<or> mn + length nx \<le> c" by (auto simp: t tb_in_range_def)
      then obtain nx' where nx': "tb_extend c t = Table (min mn c) lv nx'"
          "length nx' = (if c < mn then mn - c + length nx else c - mn + 1)"
          "\<And>x. tb_slot x (Table (min mn c) lv nx') = tb_slot x t"
        using tb_extend_cases [OF rng ne, of lv] unfolding t by blast
      show ?thesis
      proof (cases "c < mn")
        case True
        then have mn': "min mn c = c" by simp
        from True ok(3) [OF ne] ok(1) assms(2) nx'(2) nx'(3) show ?thesis
          unfolding nx'(1) mn' by (simp add: tb_in_range_def add.commute)
      next
        case above: False
        then have mn': "min mn c = mn" by simp
        from above rng ok(3) [OF ne] ok(1) assms(2) nx'(2) nx'(3) show ?thesis
          unfolding nx'(1) mn' by (simp add: tb_in_range_def)
      qed
    qed
  qed
  then show "tb_ok (tb_put c y (tb_extend c t))"
    using ok(2) by (intro tb_put_ok) auto
  show "tb_slot x (tb_extend c t) = tb_slot x t" using sl by simp
  show "tb_slot x (tb_put c y (tb_extend c t)) = (if x = c then Some y else tb_slot x t)"
    using sl tb_put_slot [of c "tb_extend c t"] by simp
qed

text \<open>Replacing a child that is there.\<close>

lemma tb_replace:
  assumes "tb_ok t" "tb_slot c t = Some z"
  shows "tb_ok (tb_put c y t)" "tb_slot x (tb_put c y t) = (if x = c then Some y else tb_slot x t)"
    and "tb_live (tb_put c y t) = tb_live t"
proof -
  have r: "tb_in_range c t" using tb_slot_range [OF assms(2)] .
  then have "tb_next t \<noteq> []" by (auto simp: tb_in_range_def)
  with assms(1) r show "tb_ok (tb_put c y t)" by (intro tb_put_ok) (auto simp: tb_ok_def)
  show "tb_slot x (tb_put c y t) = (if x = c then Some y else tb_slot x t)" using r by (rule tb_put_slot)
  show "tb_live (tb_put c y t) = tb_live t" using assms(2) by simp
qed

subsection \<open>Pruning\<close>

lemma find_upt_SomeD:
  assumes "List.find P [a..<b] = Some i"
  shows "a \<le> i" "i < b" "P i" "\<And>j. a \<le> j \<Longrightarrow> j < i \<Longrightarrow> \<not> P j"
proof -
  obtain k where k: "k < b - a" "P (a + k)" "i = a + k" "\<forall>j<k. \<not> P (a + j)"
    using assms by (auto simp: find_Some_iff nth_upt)
  then show "a \<le> i" "i < b" "P i" by simp_all
  show "\<not> P j" if "a \<le> j" "j < i" for j
    using k(3,4) that by (metis add_diff_inverse_nat add_less_cancel_left not_less)
qed

lemma find_upt_ex: "a \<le> j \<Longrightarrow> j < b \<Longrightarrow> P j \<Longrightarrow> \<exists>i. List.find P [a..<b] = Some i"
  by (cases "List.find P [a..<b]") (auto simp: find_None_iff)

text \<open>A slice of a table that leaves out only empty slots reads as the table.\<close>

lemma tb_slice:
  assumes "i + k \<le> length nx" "\<And>j. j < length nx \<Longrightarrow> j < i \<or> i + k \<le> j \<Longrightarrow> nx ! j = None"
  shows "tb_slot x (Table (mn + i) lv' (take k (drop i nx))) = tb_slot x (Table mn lv nx)"
proof (cases "mn + i \<le> x \<and> x < mn + i + k")
  case True
  then show ?thesis using assms(1) by (auto simp: tb_slot_Table)
next
  case False
  then have "nx ! (x - mn) = None" if "mn \<le> x" "x < mn + length nx"
    using that by (intro assms(2)) auto
  with False assms(1) show ?thesis by (auto simp: tb_slot_Table)
qed

lemma tb_pruned_ok:
  assumes "tb_ok t" "tb_slot c t = Some z" "\<And>x. tb_slot x t' = (if x = c then None else tb_slot x t)"
    and "tb_live t' = tb_live t - 1" "tb_min t' + length (tb_next t') \<le> 256"
    and "tb_next t' \<noteq> [] \<Longrightarrow> tb_slot (tb_min t') t' \<noteq> None
           \<and> tb_slot (tb_min t' + length (tb_next t') - 1) t' \<noteq> None"
  shows "tb_ok t'"
proof -
  have "{x. tb_slot x t' \<noteq> None} = {x. tb_slot x t \<noteq> None} - {c}" using assms(3) by auto
  then have "card {x. tb_slot x t' \<noteq> None} = card {x. tb_slot x t \<noteq> None} - 1"
    using assms(2) tb_slots_finite [of t] by (simp add: card_Diff_singleton)
  with assms show ?thesis by (simp add: tb_ok_def)
qed

text \<open>With two children in a table of at least two slots, they are at the two ends.\<close>

lemma tb_two_ends:
  assumes ok: "tb_ok (Table mn 2 nx)" and "1 < length nx"
  shows "{x. tb_slot x (Table mn 2 nx) \<noteq> None} = {mn, mn + length nx - 1}"
proof -
  let ?S = "{x. tb_slot x (Table mn 2 nx) \<noteq> None}"
  have "card ?S = 2" "{mn, mn + length nx - 1} \<subseteq> ?S" "finite ?S"
    using ok assms(2) tb_slots_finite [of "Table mn 2 nx"] by (auto simp: tb_ok_def)
  moreover have "card {mn, mn + length nx - 1} = 2" using assms(2) by auto
  ultimately show ?thesis by (metis card_subset_eq)
qed

lemma tb_live_two:
  assumes "tb_ok (Table mn lv nx)" "1 < length nx"
  shows "2 \<le> lv"
proof -
  have "card {mn, mn + length nx - 1} \<le> card {x. tb_slot x (Table mn lv nx) \<noteq> None}"
    using assms tb_slots_finite [of "Table mn lv nx"] by (intro card_mono) (auto simp: tb_ok_def)
  moreover have "card {mn, mn + length nx - 1} = 2" using assms(2) by auto
  ultimately show ?thesis using assms(1) by (simp add: tb_ok_def)
qed

lemma tb_clear:
  assumes "tb_slot c (Table mn lv nx) = Some z"
  shows "tb_slot x (Table mn lv' (nx[c - mn := None])) = (if x = c then None else tb_slot x (Table mn lv nx))"
  using assms by (auto simp: tb_slot_Table nth_list_update split: if_splits)

definition tb_pruned :: "nat \<Rightarrow> 'a table \<Rightarrow> 'a table \<Rightarrow> bool" where
  "tb_pruned c t t' \<longleftrightarrow> tb_ok t' \<and> (\<forall>x. tb_slot x t' = (if x = c then None else tb_slot x t))
     \<and> tb_live t' = tb_live t - 1"

lemma tb_prune_single:
  assumes "tb_ok (Table mn lv [y])" "tb_slot c (Table mn lv [y]) = Some z"
  shows "tb_prune c (Table mn lv [y]) = Some (Table mn 0 []) \<and> tb_pruned c (Table mn lv [y]) (Table mn 0 [])"
proof -
  have c: "c = mn" "y = Some z" using assms(2) by (auto simp: tb_slot_Table split: if_splits)
  have "{x. tb_slot x (Table mn lv [y]) \<noteq> None} = {mn}" by (auto simp: tb_slot_Table c split: if_splits)
  then have "lv = 1" using assms(1) by (simp add: tb_ok_def)
  then show ?thesis using assms(1) c by (auto simp: tb_pruned_def tb_slot_Table tb_ok_def)
qed

lemma tb_prune_correct:
  assumes ok: "tb_ok t" and c: "tb_slot c t = Some z"
  shows "\<exists>t'. tb_prune c t = Some t' \<and> tb_pruned c t t'"
proof -
  obtain mn lv nx where t: "t = Table mn lv nx" by (cases t)
  define n nx' where "n = length nx" and "nx' = nx[c - mn := None]"
  have rng: "mn \<le> c" "c < mn + n" "mn + n \<le> 256"
    using c ok by (auto simp: t n_def tb_slot_Table tb_ok_def split: if_splits)
  show ?thesis
  proof (cases "n = 1")
    case True
    then obtain y where "nx = [y]" by (auto simp: n_def length_Suc_conv)
    then show ?thesis using tb_prune_single [of mn lv y c z] ok c unfolding t by blast
  next
    case False
    then have n: "1 < n" using rng by auto
    then have lv: "2 \<le> lv" using tb_live_two ok by (simp add: t n_def)
    have ends: "tb_slot mn t \<noteq> None" "tb_slot (mn + n - 1) t \<noteq> None"
      using ok n by (auto simp: tb_ok_def t n_def)
    have clear: "tb_slot x (Table mn l nx') = (if x = c then None else tb_slot x t)" for x l
      using tb_clear [of c mn lv nx z] c by (simp add: t nx'_def)
    have at: "nx' ! j = (if mn + j = c then None else tb_slot (mn + j) t)" if "j < n" for j
      using clear [of "mn + j" 0] that by (simp add: tb_slot_Table nx'_def n_def)
    have len: "length nx' = n" by (simp add: nx'_def n_def)
    have pr: "tb_prune c t =
       (if lv - 1 = 1 then
          (if c = mn then map_option (\<lambda>r. Table (mn + n - 1) 1 [Some r]) (nx' ! (n - 1))
           else if c = mn + n - 1 then map_option (\<lambda>r. Table mn 1 [Some r]) (nx' ! 0) else None)
        else if c = mn then map_option (\<lambda>i. Table (mn + i) (lv - 1) (drop i nx')) (tb_scan_left 1 nx')
        else if c = mn + n - 1 then map_option (\<lambda>i. Table mn (lv - 1) (take (n - i) nx')) (tb_scan_right nx')
        else Some (Table mn (lv - 1) nx'))"
      using n lv by (auto simp: t Let_def nx'_def n_def)
    have pruned: "tb_pruned c t t'"
      if "\<And>x. tb_slot x t' = tb_slot x (Table mn 0 nx')" "tb_live t' = lv - 1" "tb_min t' + length (tb_next t') \<le> 256"
        "tb_next t' \<noteq> [] \<Longrightarrow> tb_slot (tb_min t') t' \<noteq> None \<and> tb_slot (tb_min t' + length (tb_next t') - 1) t' \<noteq> None"
      for t'
      using tb_pruned_ok [OF ok c, of t'] that clear by (auto simp: tb_pruned_def t)
    consider (two) "lv = 2" | (left) "lv \<noteq> 2" "c = mn" | (right) "lv \<noteq> 2" "c \<noteq> mn" "c = mn + n - 1"
      | (mid) "lv \<noteq> 2" "c \<noteq> mn" "c \<noteq> mn + n - 1" by blast
    then show ?thesis
    proof cases
      case two
      then have S: "{x. tb_slot x t \<noteq> None} = {mn, mn + n - 1}" using tb_two_ends [of mn nx] ok n two by (auto simp: t n_def)
      then have "c = mn \<or> c = mn + n - 1" using c by blast
      define o' where "o' = (if c = mn then mn + n - 1 else mn)"
      have "tb_slot o' t \<noteq> None" unfolding o'_def using ends by presburger
      then obtain r where r: "tb_slot o' t = Some r" by auto
      have oth: "tb_slot x t = None" if "x \<noteq> c" "x \<noteq> o'" for x
        using S that \<open>c = mn \<or> c = mn + n - 1\<close> by (auto simp: o'_def split: if_splits)
      have "c \<noteq> o'" using n \<open>c = mn \<or> c = mn + n - 1\<close> by (auto simp: o'_def)
      have "tb_prune c t = Some (Table o' 1 [Some r])"
        using \<open>c = mn \<or> c = mn + n - 1\<close> two n r at [of "n - 1"] at [of 0] by (auto simp: pr o'_def split: if_splits)
      moreover have "tb_pruned c t (Table o' 1 [Some r])"
      proof (intro pruned)
        have one: "tb_slot x (Table o' 1 [Some r]) = (if x = o' then Some r else None)" for x
          by (auto simp: tb_slot_Table)
        show "tb_slot x (Table o' 1 [Some r]) = tb_slot x (Table mn 0 nx')" for x
          unfolding one clear using oth r \<open>c \<noteq> o'\<close> by auto
        show "tb_slot (tb_min (Table o' 1 [Some r])) (Table o' 1 [Some r]) \<noteq> None
          \<and> tb_slot (tb_min (Table o' 1 [Some r]) + length (tb_next (Table o' 1 [Some r])) - 1) (Table o' 1 [Some r]) \<noteq> None"
          by (simp add: tb_slot_Table)
      qed (use two rng n in \<open>auto simp: o'_def\<close>)
      ultimately show ?thesis by blast
    next
      case left
      have "nx' ! (n - 1) \<noteq> None" using at [of "n - 1"] ends n left by auto
      then obtain i where i: "tb_scan_left 1 nx' = Some i"
        using find_upt_ex [of 1 "n - 1" n "\<lambda>i. nx' ! i \<noteq> None"] n unfolding tb_scan_left_def len by fastforce
      note f = find_upt_SomeD [OF i [unfolded tb_scan_left_def len]]
      have none: "nx' ! j = None" if "j < i" for j
        using f(4) [of j] at [of 0] that left n by (cases "j = 0") auto
      have sl: "tb_slot x (Table (mn + i) l (drop i nx')) = tb_slot x (Table mn 0 nx')" for x l
        using tb_slice [of i "n - i" nx' x mn l 0] f(2) none by (simp add: len)
      have "tb_pruned c t (Table (mn + i) (lv - 1) (drop i nx'))"
        using f rng n left ends by (intro pruned sl) (auto simp: sl clear len at split: if_splits)
      then show ?thesis using left lv i pr by auto
    next
      case right
      have "nx' ! (n - 1 - (n - 1)) \<noteq> None" using at [of 0] ends n right by auto
      then obtain i where i: "tb_scan_right nx' = Some i"
        using find_upt_ex [of 1 "n - 1" n "\<lambda>i. nx' ! (n - 1 - i) \<noteq> None"] n unfolding tb_scan_right_def len by fastforce
      note f = find_upt_SomeD [OF i [unfolded tb_scan_right_def len]]
      have none: "nx' ! j = None" if "n - i \<le> j" "j < n" for j
        using f(4) [of "n - 1 - j"] at [of "n - 1"] that right n by (cases "j = n - 1") auto
      have sl: "tb_slot x (Table mn l (take (n - i) nx')) = tb_slot x (Table mn 0 nx')" for x l
        using tb_slice [of 0 "n - i" nx' x mn l 0] none by (simp add: len)
      have "tb_pruned c t (Table mn (lv - 1) (take (n - i) nx'))"
        using f rng n right ends by (intro pruned sl) (auto simp: sl clear len at split: if_splits)
      then show ?thesis using right lv i pr by auto
    next
      case mid
      have "tb_pruned c t (Table mn (lv - 1) nx')"
        using rng n mid ends by (intro pruned) (auto simp: clear len)
      then show ?thesis using mid lv by (auto simp: pr)
    qed
  qed
qed

text \<open>The multi-trie's way to prune gives the same table.\<close>

lemma tb_prune_scan_eq:
  assumes ok: "tb_ok t" and c: "tb_slot c t = Some z"
  shows "tb_prune_scan c t = tb_prune c t"
proof -
  obtain mn lv nx where t: "t = Table mn lv nx" by (cases t)
  show ?thesis
  proof (cases "1 < length nx \<and> lv = 2")
    case True
    define n nx' where "n = length nx" and "nx' = nx[c - mn := None]"
    have S: "{x. tb_slot x t \<noteq> None} = {mn, mn + n - 1}" using tb_two_ends [of mn nx] ok True by (auto simp: t n_def)
    then have cc: "c = mn \<or> c = mn + n - 1" and n: "1 < n" using c True by (auto simp: n_def)
    have ends: "tb_slot mn t \<noteq> None" "tb_slot (mn + n - 1) t \<noteq> None" using S by auto
    have at: "nx' ! j = (if mn + j = c then None else tb_slot (mn + j) t)" if "j < n" for j
      using tb_clear [of c mn lv nx z "mn + j" 0] c that by (simp add: t tb_slot_Table nx'_def n_def)
    define k where "k = (if c = mn then n - 1 else 0)"
    have k: "k < n" "nx' ! k \<noteq> None" using ends n cc at [of k] by (auto simp: k_def)
    obtain i where i: "tb_scan_left 0 nx' = Some i"
      using find_upt_ex [of 0 k n "\<lambda>i. nx' ! i \<noteq> None"] k by (auto simp: tb_scan_left_def nx'_def n_def)
    have f: "i < n" "nx' ! i \<noteq> None"
      using find_upt_SomeD [OF i [unfolded tb_scan_left_def]] by (simp_all add: nx'_def n_def)
    have "tb_slot (mn + i) t \<noteq> None" "mn + i \<noteq> c" using f at [of i] by (auto split: if_splits)
    then have "mn + i \<in> {mn, mn + n - 1}" unfolding S [symmetric] by simp
    with \<open>mn + i \<noteq> c\<close> cc have "i = k" by (auto simp: k_def split: if_splits)
    moreover obtain r where "nx' ! k = Some r" using k by auto
    ultimately show ?thesis
      using True i cc n by (auto simp: t nx'_def [symmetric] n_def [symmetric] k_def Let_def split: if_splits)
        (simp_all add: nx'_def n_def)
  next
    case False
    then have "length nx = 0 \<or> length nx = 1 \<or> lv \<noteq> 2" by arith
    then show ?thesis by (auto simp: t Let_def)
  qed
qed

end
