(* ===== verification/Trie.thy ===== *)
theory Trie
  imports Byte_Table "HOL-Library.Sublist" "HOL-Library.Multiset"
begin

section \<open>The subscription trie\<close>

text \<open>
  Models \<open>utils/trie.cpp\<close> and \<open>trie_with_size_t\<close> of \<open>utils/trie.hpp\<close>: the reference counted prefix
  set that a subscriber keeps. A node is its reference count and its child table; a pointer into
  the trie is the path of bytes that leads to it. The reference counters are natural numbers: the
  model is exact as long as a prefix has fewer than $2^{32}$ duplicates.
\<close>

datatype trie = Node (t_refcnt: nat) (t_table: "trie table")

definition trie_empty :: trie where
  "trie_empty = Node 0 tb_empty"

definition is_redundant :: "trie \<Rightarrow> bool" where
  "is_redundant t \<longleftrightarrow> t_refcnt t = 0 \<and> tb_live (t_table t) = 0"

abbreviation t_slot :: "byte \<Rightarrow> trie \<Rightarrow> trie option" where
  "t_slot c t \<equiv> tb_slot (unat c) (t_table t)"

subsection \<open>Operations\<close>

text \<open>\<open>add\<close> walks down, extending tables and creating nodes on the way; the result says whether the
  prefix is new.\<close>

fun trie_add :: "byte list \<Rightarrow> trie \<Rightarrow> bool \<times> trie" where
  "trie_add [] (Node r tb) = (r + 1 = 1, Node (r + 1) tb)"
| "trie_add (c # cs) (Node r tb) =
     (let tb = tb_extend (unat c) tb;
          child = (case tb_slot (unat c) tb of None \<Rightarrow> trie_empty | Some ch \<Rightarrow> ch);
          (new, child) = trie_add cs child in
      (new, Node r (tb_put (unat c) child tb)))"

text \<open>\<open>check\<close> looks for a stored prefix of the data.\<close>

fun trie_check :: "byte list \<Rightarrow> trie \<Rightarrow> bool" where
  "trie_check data t =
     (if t_refcnt t \<noteq> 0 then True
      else case data of
        [] \<Rightarrow> False
      | c # cs \<Rightarrow> (case t_slot c t of None \<Rightarrow> False | Some ch \<Rightarrow> trie_check cs ch))"

declare trie_check.simps [simp del]

text \<open>The descent of \<open>rm\<close>: the node reached and the depth of \<open>parent\<close>, the last node on the path that
  stays in any case (the root, a node with a subscription, or one with several children).\<close>

fun rm_walk :: "byte list \<Rightarrow> nat \<Rightarrow> trie \<Rightarrow> nat \<Rightarrow> (trie \<times> nat) option" where
  "rm_walk [] depth node parent = Some (node, parent)"
| "rm_walk (b # bs) depth node parent =
     (case t_slot b node of
        None \<Rightarrow> None
      | Some child \<Rightarrow>
          rm_walk bs (depth + 1) child
            (if depth = 0 \<or> t_refcnt node \<noteq> 0 \<or> tb_live (t_table node) > 1 then depth else parent))"

text \<open>Writing through a pointer to the node at a path. \<open>None\<close> is a violated assertion.\<close>

fun trie_at :: "byte list \<Rightarrow> (trie \<Rightarrow> trie option) \<Rightarrow> trie \<Rightarrow> trie option" where
  "trie_at [] f t = f t"
| "trie_at (c # cs) f t =
     (case t_slot c t of
        None \<Rightarrow> None
      | Some ch \<Rightarrow> map_option (\<lambda>ch. Node (t_refcnt t) (tb_put (unat c) ch (t_table t))) (trie_at cs f ch))"

definition dec_refcnt :: "trie \<Rightarrow> trie" where
  "dec_refcnt t = Node (t_refcnt t - 1) (t_table t)"

definition prune_child :: "byte \<Rightarrow> trie \<Rightarrow> trie option" where
  "prune_child c t = map_option (Node (t_refcnt t)) (tb_prune (unat c) (t_table t))"

definition trie_rm :: "byte list \<Rightarrow> trie \<Rightarrow> (bool \<times> trie) option" where
  "trie_rm pfx t =
     (case rm_walk pfx 0 t 0 of
        None \<Rightarrow> Some (False, t)
      | Some (node, parent) \<Rightarrow>
          if t_refcnt node = 0 then Some (False, t)
          else let ret = t_refcnt node - 1 = 0 in
          map_option (Pair ret)
            (Option.bind (trie_at pfx (Some \<circ> dec_refcnt) t) (\<lambda>t.
             if pfx \<noteq> [] \<and> is_redundant (dec_refcnt node)
             then trie_at (take parent pfx) (prune_child (pfx ! parent)) t
             else Some t)))"

subsection \<open>Abstraction and invariant\<close>

text \<open>The number of times a prefix is stored.\<close>

fun trie_count :: "byte list \<Rightarrow> trie \<Rightarrow> nat" where
  "trie_count [] t = t_refcnt t"
| "trie_count (c # cs) t = (case t_slot c t of None \<Rightarrow> 0 | Some ch \<Rightarrow> trie_count cs ch)"

text \<open>Every table is well formed and no child is redundant.\<close>

inductive trie_wf :: "trie \<Rightarrow> bool" where
  "tb_ok tb \<Longrightarrow> (\<And>c ch. tb_slot c tb = Some ch \<Longrightarrow> trie_wf ch \<and> \<not> is_redundant ch) \<Longrightarrow> trie_wf (Node r tb)"

inductive_simps trie_wf_Node: "trie_wf (Node r tb)"

lemma trie_wf_sel: "trie_wf t \<longleftrightarrow> tb_ok (t_table t) \<and> (\<forall>c ch. tb_slot c (t_table t) = Some ch \<longrightarrow> trie_wf ch \<and> \<not> is_redundant ch)"
  by (cases t) (auto simp: trie_wf_Node)

lemma trie_wf_empty: "trie_wf trie_empty"
  by (simp add: trie_wf_Node trie_empty_def)

lemma trie_count_empty [simp]: "trie_count k trie_empty = 0"
  by (cases k) (simp_all add: trie_empty_def)

lemma unat_byte_less [simp]: "unat (c :: byte) < 256"
  using unsigned_less [where ?'a = nat and w = c] by simp

lemma unat_byte_eq [simp]: "unat (a :: byte) = unat b \<longleftrightarrow> a = b"
  by (simp add: unsigned_word_eqI word_unat_eq_iff)

subsection \<open>Adding\<close>

lemma trie_add_count:
  "trie_wf t \<Longrightarrow> trie_add p t = (new, t') \<Longrightarrow>
     trie_wf t' \<and> \<not> is_redundant t' \<and> new = (trie_count p t = 0)
     \<and> (\<forall>k. trie_count k t' = (if k = p then trie_count k t + 1 else trie_count k t))"
proof (induction p t arbitrary: new t' rule: trie_add.induct)
  case (1 r tb)
  have "trie_count k (Node (Suc r) tb) = (if k = [] then Suc r else trie_count k (Node r tb))" for k
    by (cases k) simp_all
  with 1 show ?case by (auto simp: trie_wf_Node is_redundant_def)
next
  case (2 c cs r tb)
  define tb1 where "tb1 = tb_extend (unat c) tb"
  define ch where "ch = (case tb_slot (unat c) tb1 of None \<Rightarrow> trie_empty | Some ch \<Rightarrow> ch)"
  obtain ch' where ch': "trie_add cs ch = (new, ch')" "t' = Node r (tb_put (unat c) ch' tb1)"
    using "2.prems"(2) by (auto simp: tb1_def ch_def Let_def split: prod.splits)
  have tb: "tb_ok tb" "\<And>x h. tb_slot x tb = Some h \<Longrightarrow> trie_wf h \<and> \<not> is_redundant h"
    using "2.prems"(1) by (auto simp: trie_wf_Node)
  note add = tb_add [OF tb(1) unat_byte_less [of c], folded tb1_def]
  have ch: "ch = (case tb_slot (unat c) tb of None \<Rightarrow> trie_empty | Some ch \<Rightarrow> ch)"
    by (simp add: ch_def add(3))
  have "trie_wf ch" using tb(2) [of "unat c"] by (auto simp: ch trie_wf_empty split: option.split)
  note IH = "2.IH" [OF tb1_def ch_def this ch'(1)]
  have cnt: "trie_count k ch = trie_count (c # k) (Node r tb)" for k
    by (simp add: ch split: option.split)
  have wf: "trie_wf t'" using IH tb(2) add(1,2) by (auto simp: ch'(2) trie_wf_Node)
  have slot: "tb_slot (unat c) (t_table t') = Some ch'" by (simp add: ch'(2) add(2))
  have "\<not> is_redundant t'"
    using wf slot tb_live_pos [of "t_table t'" "unat c" ch'] by (simp add: ch'(2) trie_wf_Node is_redundant_def)
  moreover have "trie_count k t' = (if k = c # cs then trie_count k (Node r tb) + 1 else trie_count k (Node r tb))" for k
  proof (cases k)
    case (Cons d ds)
    then show ?thesis
      using IH cnt [of ds] by (cases "d = c") (auto simp: ch'(2) add(2))
  qed (simp add: ch'(2))
  ultimately show ?case using wf IH cnt [of cs] by simp
qed

subsection \<open>Matching\<close>

lemma trie_check_count:
  "trie_check data t \<longleftrightarrow> (\<exists>k. prefix k data \<and> 0 < trie_count k t)"
proof (induction data arbitrary: t)
  case Nil
  show ?case by (auto simp: trie_check.simps)
next
  case (Cons c cs)
  have "(\<exists>k. prefix k (c # cs) \<and> 0 < trie_count k t) \<longleftrightarrow>
      0 < t_refcnt t \<or> (\<exists>ch. t_slot c t = Some ch \<and> (\<exists>k. prefix k cs \<and> 0 < trie_count k ch))"
    by (auto simp: prefix_Cons split: option.splits)
  with Cons.IH show ?case by (auto simp: trie_check.simps split: option.splits)
qed

subsection \<open>Removing\<close>

text \<open>A reference version that works recursively: it returns \<open>None\<close> for a node that has become
  redundant, which its parent prunes.\<close>

fun rm_ref :: "byte list \<Rightarrow> trie \<Rightarrow> trie option" where
  "rm_ref [] t = (if is_redundant (dec_refcnt t) then None else Some (dec_refcnt t))"
| "rm_ref (c # cs) t =
     (case t_slot c t of
        None \<Rightarrow> Some t
      | Some ch \<Rightarrow>
          (case rm_ref cs ch of
             Some ch' \<Rightarrow> Some (Node (t_refcnt t) (tb_put (unat c) ch' (t_table t)))
           | None \<Rightarrow>
               let t' = the (prune_child c t) in if is_redundant t' then None else Some t'))"

lemma prune_child_correct:
  assumes "trie_wf t" "t_slot c t = Some ch"
  shows "\<exists>t'. prune_child c t = Some t' \<and> trie_wf t' \<and> t_refcnt t' = t_refcnt t
     \<and> tb_live (t_table t') = tb_live (t_table t) - 1
     \<and> (\<forall>x. tb_slot x (t_table t') = (if x = unat c then None else tb_slot x (t_table t)))"
proof -
  obtain r tb where t: "t = Node r tb" by (cases t)
  have tb: "tb_ok tb" "\<And>x h. tb_slot x tb = Some h \<Longrightarrow> trie_wf h \<and> \<not> is_redundant h"
    using assms(1) by (auto simp: t trie_wf_Node)
  obtain tb' where "tb_prune (unat c) tb = Some tb'" "tb_pruned (unat c) tb tb'"
    using tb_prune_correct [OF tb(1)] assms(2) by (auto simp: t)
  with tb(2) show ?thesis by (auto simp: prune_child_def t trie_wf_Node tb_pruned_def)
qed

lemma trie_wf_slot: "trie_wf t \<Longrightarrow> tb_slot c (t_table t) = Some ch \<Longrightarrow> trie_wf ch \<and> \<not> is_redundant ch"
  by (cases t) (auto simp: trie_wf_Node)

lemma trie_wf_table: "trie_wf t \<Longrightarrow> tb_ok (t_table t)"
  by (cases t) (auto simp: trie_wf_Node)

definition rm_result_ok :: "byte list \<Rightarrow> trie \<Rightarrow> trie option \<Rightarrow> bool" where
  "rm_result_ok p t res \<longleftrightarrow>
     (case res of
        None \<Rightarrow> \<forall>k. trie_count k t = (if k = p then 1 else 0)
      | Some t' \<Rightarrow> trie_wf t' \<and> \<not> is_redundant t'
          \<and> (\<forall>k. trie_count k t' = (if k = p then trie_count k t - 1 else trie_count k t)))"

text \<open>What happens at a node when the removal below its child for \<open>c\<close> is done.\<close>

definition rm_step :: "byte \<Rightarrow> trie option \<Rightarrow> trie \<Rightarrow> trie option" where
  "rm_step c res t =
     (case res of
        Some ch \<Rightarrow> Some (Node (t_refcnt t) (tb_put (unat c) ch (t_table t)))
      | None \<Rightarrow> prune_child c t)"

lemma rm_step_correct:
  assumes wft: "trie_wf t" and slot: "t_slot c t = Some ch" and res: "rm_result_ok cs ch res"
  shows "\<exists>t'. rm_step c res t = Some t' \<and> trie_wf t' \<and> t_refcnt t' = t_refcnt t
     \<and> (\<forall>k. trie_count k t' = (if k = c # cs then trie_count k t - 1 else trie_count k t))
     \<and> tb_live (t_table t') = (if res = None then tb_live (t_table t) - 1 else tb_live (t_table t))"
proof (cases res)
  case (Some ch')
  then have IH: "trie_wf ch'" "\<not> is_redundant ch'"
      "\<And>k. trie_count k ch' = (if k = cs then trie_count k ch - 1 else trie_count k ch)"
    using res by (auto simp: rm_result_ok_def)
  note rep = tb_replace [OF trie_wf_table [OF wft] slot, where y = ch']
  define t' where "t' = Node (t_refcnt t) (tb_put (unat c) ch' (t_table t))"
  have "trie_wf t'"
    using IH rep(1,2) trie_wf_slot [OF wft] by (auto simp: t'_def trie_wf_Node)
  moreover have "trie_count k t' = (if k = c # cs then trie_count k t - 1 else trie_count k t)" for k
    using IH(3) slot by (cases k) (auto simp: t'_def rep(2) split: option.split)
  ultimately show ?thesis using slot by (simp add: rm_step_def Some t'_def)
next
  case None
  then have IH: "\<And>k. trie_count k ch = (if k = cs then 1 else 0)"
    using res by (simp add: rm_result_ok_def)
  obtain t' where t': "prune_child c t = Some t'" "trie_wf t'" "t_refcnt t' = t_refcnt t"
      "tb_live (t_table t') = tb_live (t_table t) - 1"
      "\<And>x. tb_slot x (t_table t') = (if x = unat c then None else tb_slot x (t_table t))"
    using prune_child_correct [OF wft slot] by blast
  have cnt: "trie_count k t' = (if k = c # cs then trie_count k t - 1 else trie_count k t)" for k
    using IH slot by (cases k) (auto simp: t'(3,5) split: option.split)
  with t' None show ?thesis by (simp add: rm_step_def)
qed

lemma rm_ref_Cons:
  "t_slot c t = Some ch \<Longrightarrow> rm_ref (c # cs) t =
     (case rm_ref cs ch of
        Some ch' \<Rightarrow> rm_step c (Some ch') t
      | None \<Rightarrow> let t' = the (rm_step c None t) in if is_redundant t' then None else Some t')"
  by (simp add: rm_step_def split: option.split)

declare rm_ref.simps(2) [simp del]

lemma rm_ref_correct: "trie_wf t \<Longrightarrow> 0 < trie_count p t \<Longrightarrow> rm_result_ok p t (rm_ref p t)"
proof (induction p arbitrary: t)
  case Nil
  obtain r tb where t: "t = Node r tb" by (cases t)
  have ok: "tb_ok tb" using Nil(1) by (simp add: t trie_wf_Node)
  have "trie_count k (Node (r - 1) tb) = (if k = [] then r - 1 else trie_count k t)" for k
    by (cases k) (simp_all add: t)
  moreover have "trie_count k t = (if k = [] then r else 0)" if "tb_live tb = 0" for k
    using tb_live_0 [OF ok] that by (cases k) (simp_all add: t)
  ultimately show ?case
    using Nil by (auto simp: rm_result_ok_def t dec_refcnt_def is_redundant_def trie_wf_Node)
next
  case (Cons c cs)
  obtain ch where ch: "t_slot c t = Some ch" "0 < trie_count cs ch"
    using Cons.prems(2) by (auto split: option.splits)
  have wf: "trie_wf ch" "tb_ok (t_table t)"
    using trie_wf_slot [OF Cons.prems(1) ch(1)] trie_wf_table [OF Cons.prems(1)] by auto
  obtain t' where t': "rm_step c (rm_ref cs ch) t = Some t'" "trie_wf t'" "t_refcnt t' = t_refcnt t"
      "\<And>k. trie_count k t' = (if k = c # cs then trie_count k t - 1 else trie_count k t)"
      "tb_live (t_table t') = (if rm_ref cs ch = None then tb_live (t_table t) - 1 else tb_live (t_table t))"
    using rm_step_correct [OF Cons.prems(1) ch(1) Cons.IH [OF wf(1) ch(2)]] by blast
  show ?case
  proof (cases "rm_ref cs ch = None \<and> is_redundant t'")
    case True
    then have 0: "t_refcnt t = 0" "tb_live (t_table t) \<le> 1" using t'(3,5) by (auto simp: is_redundant_def)
    have IH: "trie_count k ch = (if k = cs then 1 else 0)" for k
      using Cons.IH [OF wf(1) ch(2)] True by (simp add: rm_result_ok_def)
    have "trie_count k t = (if k = c # cs then 1 else 0)" for k
    proof (cases k)
      case (Cons d ds)
      have "d = c \<or> t_slot d t = None" using tb_live_unique [OF wf(2) 0(2) ch(1), of "unat d"] by (cases "t_slot d t") auto
      then show ?thesis using Cons ch(1) IH by auto
    qed (simp add: 0)
    with True t'(1) show ?thesis by (simp add: rm_ref_Cons [OF ch(1)] rm_result_ok_def)
  next
    case False
    have "\<not> is_redundant t'"
      using False tb_live_pos [OF wf(2) ch(1)] t'(5) by (auto simp: is_redundant_def)
    with t'(1) have "rm_ref (c # cs) t = Some t'"
      by (cases "rm_ref cs ch") (simp_all add: rm_ref_Cons [OF ch(1)])
    with t'(2,4) \<open>\<not> is_redundant t'\<close> show ?thesis by (simp add: rm_result_ok_def)
  qed
qed

text \<open>The depth at which \<open>rm\<close> cuts, relative to a node below the root.\<close>

fun cut_depth :: "byte list \<Rightarrow> trie \<Rightarrow> nat option" where
  "cut_depth [] t = None"
| "cut_depth (c # cs) t =
     (case t_slot c t of
        None \<Rightarrow> None
      | Some ch \<Rightarrow>
          (case cut_depth cs ch of
             Some i \<Rightarrow> Some (Suc i)
           | None \<Rightarrow> if t_refcnt t \<noteq> 0 \<or> tb_live (t_table t) > 1 then Some 0 else None))"

fun walk_to :: "byte list \<Rightarrow> trie \<Rightarrow> trie option" where
  "walk_to [] t = Some t"
| "walk_to (c # cs) t = Option.bind (t_slot c t) (walk_to cs)"

lemma rm_walk_cut:
  "0 < d \<Longrightarrow> rm_walk p d t q =
     map_option (\<lambda>n. (n, case cut_depth p t of None \<Rightarrow> q | Some i \<Rightarrow> d + i)) (walk_to p t)"
  by (induction p arbitrary: d t q) (auto split: option.splits)

lemma walk_to_count: "trie_count p t = (case walk_to p t of None \<Rightarrow> 0 | Some n \<Rightarrow> t_refcnt n)"
  by (induction p arbitrary: t) (auto split: option.splits)

lemma tb_put_put: "tb_in_range c tb \<Longrightarrow> tb_put c x (tb_put c y tb) = tb_put c x tb"
  by (cases tb) (auto simp: tb_in_range_def tb_slot_Table nth_list_update)

lemma prune_child_put:
  assumes "t_slot c t = Some ch"
  shows "prune_child c (Node (t_refcnt t) (tb_put (unat c) x (t_table t))) = prune_child c t"
proof -
  obtain r mn lv nx where t: "t = Node r (Table mn lv nx)" by (metis trie.exhaust table.exhaust)
  show ?thesis using assms by (auto simp: prune_child_def t Let_def)
qed

lemma trie_at_Cons_put:
  assumes "t_slot c t = Some ch"
  shows "trie_at (c # q) f (Node (t_refcnt t) (tb_put (unat c) x (t_table t))) =
    map_option (\<lambda>ch. Node (t_refcnt t) (tb_put (unat c) ch (t_table t))) (trie_at q f x)"
  using tb_slot_range [OF assms] by (simp add: tb_put_slot tb_put_put)

lemma trie_at_walk: "walk_to p t = Some n \<Longrightarrow> \<exists>t'. trie_at p (Some \<circ> f) t = Some t'"
  by (induction p arbitrary: t) (auto split: option.splits bind_splits)

lemma rm_cut:
  assumes "trie_wf t" "walk_to p t = Some n" "0 < t_refcnt n"
  shows "rm_ref p t =
    (if is_redundant (dec_refcnt n)
     then (case cut_depth p t of
             None \<Rightarrow> None
           | Some i \<Rightarrow> Option.bind (trie_at p (Some \<circ> dec_refcnt) t) (trie_at (take i p) (prune_child (p ! i))))
     else trie_at p (Some \<circ> dec_refcnt) t)
    \<and> (is_redundant (dec_refcnt n) \<longrightarrow> (rm_ref p t = None) = (cut_depth p t = None))"
  using assms
proof (induction p arbitrary: t)
  case Nil
  then show ?case by auto
next
  case (Cons c cs)
  obtain ch where ch: "t_slot c t = Some ch" "walk_to cs ch = Some n"
    using Cons.prems(2) by (auto split: bind_splits)
  have wf: "trie_wf ch" using trie_wf_slot [OF Cons.prems(1) ch(1)] by simp
  note IH = Cons.IH [OF wf ch(2) Cons.prems(3)]
  obtain ch1 where ch1: "trie_at cs (Some \<circ> dec_refcnt) ch = Some ch1" using trie_at_walk [OF ch(2)] by blast
  have at1: "trie_at (c # cs) (Some \<circ> dec_refcnt) t = Some (Node (t_refcnt t) (tb_put (unat c) ch1 (t_table t)))"
    by (simp add: ch(1) ch1)
  show ?case
  proof (cases "is_redundant (dec_refcnt n)")
    case False
    with IH ch1 show ?thesis by (simp add: rm_ref_Cons [OF ch(1)] rm_step_def at1 ch(1))
  next
    case True
    show ?thesis
    proof (cases "cut_depth cs ch")
      case None
      with True IH have "rm_ref cs ch = None" by simp
      moreover obtain t' where "prune_child c t = Some t'" "t_refcnt t' = t_refcnt t"
          "tb_live (t_table t') = tb_live (t_table t) - 1"
        using prune_child_correct [OF Cons.prems(1) ch(1)] by blast
      ultimately show ?thesis
        using None True
        by (auto simp: rm_ref_Cons [OF ch(1)] rm_step_def at1 ch(1) is_redundant_def
            prune_child_put [OF ch(1)] simp del: trie_at.simps(2))
    next
      case (Some i)
      with True conjunct2 [OF IH] obtain ch' where "rm_ref cs ch = Some ch'" by auto
      moreover from this True IH Some ch1 have "trie_at (take i cs) (prune_child (cs ! i)) ch1 = Some ch'" by simp
      ultimately show ?thesis
        using Some True
        by (simp add: rm_ref_Cons [OF ch(1)] rm_step_def at1 ch(1) trie_at_Cons_put [OF ch(1)] del: trie_at.simps(2))
    qed
  qed
qed

text \<open>\<open>rm\<close> never violates an assertion, removes one occurrence of the prefix when there is one, and
  says whether it was the last.\<close>

lemma trie_rm_count:
  assumes wf: "trie_wf t"
  shows "\<exists>t'. trie_rm p t = Some (trie_count p t = 1, t') \<and> trie_wf t'
     \<and> (\<forall>k. trie_count k t' = (if k = p then trie_count k t - 1 else trie_count k t))"
proof (cases "0 < trie_count p t")
  case False
  have "rm_walk p 0 t 0 = None \<or> (\<exists>n q. rm_walk p 0 t 0 = Some (n, q) \<and> t_refcnt n = 0)"
    using False walk_to_count [of p t]
    by (cases p) (auto simp: rm_walk_cut split: option.splits bind_splits)
  then have "trie_rm p t = Some (False, t)" by (auto simp: trie_rm_def)
  with False wf show ?thesis by auto
next
  case pos: True
  show ?thesis
  proof (cases p)
    case Nil
    obtain r tb where t: "t = Node r tb" by (cases t)
    have "trie_rm [] t = Some (r = 1, Node (r - 1) tb)"
      using pos by (auto simp: trie_rm_def dec_refcnt_def Nil t)
    moreover have "trie_count k (Node (r - 1) tb) = (if k = [] then trie_count k t - 1 else trie_count k t)" for k
      by (cases k) (simp_all add: t)
    ultimately show ?thesis using wf by (simp add: Nil t trie_wf_Node)
  next
    case (Cons c cs)
    obtain ch where ch: "t_slot c t = Some ch" "0 < trie_count cs ch"
      using pos by (auto simp: Cons split: option.splits)
    obtain n where n: "walk_to cs ch = Some n" "t_refcnt n = trie_count cs ch" "trie_count p t = t_refcnt n"
      using ch walk_to_count [of cs ch] by (auto simp: Cons split: option.splits)
    have wfc: "trie_wf ch" using trie_wf_slot [OF wf ch(1)] by simp
    obtain t' where t': "rm_step c (rm_ref cs ch) t = Some t'" "trie_wf t'"
        "\<And>k. trie_count k t' = (if k = c # cs then trie_count k t - 1 else trie_count k t)"
      using rm_step_correct [OF wf ch(1) rm_ref_correct [OF wfc ch(2)]] by blast
    obtain ch1 where ch1: "trie_at cs (Some \<circ> dec_refcnt) ch = Some ch1" using trie_at_walk [OF n(1)] by blast
    have at1: "trie_at (c # cs) (Some \<circ> dec_refcnt) t = Some (Node (t_refcnt t) (tb_put (unat c) ch1 (t_table t)))"
      by (simp add: ch(1) ch1)
    have walk: "rm_walk (c # cs) 0 t 0 = Some (n, case cut_depth cs ch of None \<Rightarrow> 0 | Some i \<Rightarrow> 1 + i)"
      by (simp add: ch(1) rm_walk_cut n(1) split: option.split)
    note cut = rm_cut [OF wfc n(1)]
    have rm: "trie_rm (c # cs) t = map_option (Pair (t_refcnt n = 1)) (rm_step c (rm_ref cs ch) t)"
    proof (cases "is_redundant (dec_refcnt n)")
      case False
      with cut ch(2) n(2) ch1 walk at1 show ?thesis
        by (auto simp: trie_rm_def rm_step_def simp del: rm_walk.simps trie_at.simps(2))
    next
      case True
      show ?thesis
      proof (cases "cut_depth cs ch")
        case None
        have "(trie_count cs ch \<le> Suc 0) = (trie_count cs ch = Suc 0)" using ch(2) by auto
        with None True cut ch(2) n(2) walk at1 show ?thesis
          by (auto simp: trie_rm_def rm_step_def prune_child_put [OF ch(1)] simp del: rm_walk.simps trie_at.simps(2))
      next
        case (Some i)
        with True conjunct2 [OF cut] ch(2) n(2) obtain ch' where r: "rm_ref cs ch = Some ch'" by auto
        with True cut Some ch1 ch(2) n(2) have "trie_at (take i cs) (prune_child (cs ! i)) ch1 = Some ch'" by simp
        with r Some True ch(2) n(2) walk at1 show ?thesis
          by (auto simp: trie_rm_def rm_step_def trie_at_Cons_put [OF ch(1)] simp del: rm_walk.simps trie_at.simps(2))
      qed
    qed
    with t' n(3) show ?thesis by (simp add: Cons)
  qed
qed

subsection \<open>The interface of a prefix store\<close>

text \<open>What a subscription store promises to its users: adding and removing count occurrences of a
  prefix and report first and last ones, and matching finds a stored prefix of the data.\<close>

locale prefix_store =
  fixes inv :: "'t \<Rightarrow> bool"
    and occ :: "byte list \<Rightarrow> 't \<Rightarrow> nat"
    and empty :: 't
    and add :: "byte list \<Rightarrow> 't \<Rightarrow> bool \<times> 't"
    and rm :: "byte list \<Rightarrow> 't \<Rightarrow> (bool \<times> 't) option"
    and check :: "byte list \<Rightarrow> 't \<Rightarrow> bool"
  assumes inv_empty: "inv empty"
    and occ_empty: "occ k empty = 0"
    and add_law: "inv t \<Longrightarrow> add p t = (new, t') \<Longrightarrow> inv t' \<and> new = (occ p t = 0)
        \<and> (\<forall>k. occ k t' = (if k = p then occ k t + 1 else occ k t))"
    and rm_law: "inv t \<Longrightarrow> \<exists>t'. rm p t = Some (occ p t = 1, t') \<and> inv t'
        \<and> (\<forall>k. occ k t' = (if k = p then occ k t - 1 else occ k t))"
    and check_law: "inv t \<Longrightarrow> check d t = (\<exists>k. prefix k d \<and> 0 < occ k t)"

text \<open>A sequence of subscriptions and cancellations, run on a store and on a multiset.\<close>

datatype sub_op = Sub "byte list" | Unsub "byte list"

fun store_run :: "(byte list \<Rightarrow> 't \<Rightarrow> bool \<times> 't) \<Rightarrow> (byte list \<Rightarrow> 't \<Rightarrow> (bool \<times> 't) option) \<Rightarrow>
    sub_op list \<Rightarrow> 't \<Rightarrow> (bool list \<times> 't) option" where
  "store_run add rm [] t = Some ([], t)"
| "store_run add rm (Sub p # ops) t =
     (case add p t of (b, t1) \<Rightarrow> map_option (\<lambda>(bs, t2). (b # bs, t2)) (store_run add rm ops t1))"
| "store_run add rm (Unsub p # ops) t =
     Option.bind (rm p t) (\<lambda>(b, t1). map_option (\<lambda>(bs, t2). (b # bs, t2)) (store_run add rm ops t1))"

fun spec_run :: "sub_op list \<Rightarrow> byte list multiset \<Rightarrow> bool list \<times> byte list multiset" where
  "spec_run [] M = ([], M)"
| "spec_run (Sub p # ops) M =
     (case spec_run ops (add_mset p M) of (bs, M') \<Rightarrow> ((p \<notin># M) # bs, M'))"
| "spec_run (Unsub p # ops) M =
     (case spec_run ops (M - {#p#}) of (bs, M') \<Rightarrow> ((count M p = 1) # bs, M'))"

context prefix_store
begin

lemma run_refines:
  "inv t \<Longrightarrow> (\<And>k. occ k t = count M k) \<Longrightarrow>
     \<exists>t'. store_run add rm ops t = Some (fst (spec_run ops M), t') \<and> inv t'
       \<and> (\<forall>k. occ k t' = count (snd (spec_run ops M)) k)"
proof (induction ops arbitrary: t M)
  case (Cons opr ops)
  show ?case
  proof (cases opr)
    case (Sub p)
    obtain new t1 where t1: "add p t = (new, t1)" by force
    note a = add_law [OF Cons.prems(1) t1]
    then have "\<And>k. occ k t1 = count (add_mset p M) k" using Cons.prems(2) by auto
    with Cons.IH [of t1 "add_mset p M"] a obtain t2 where
        "store_run add rm ops t1 = Some (fst (spec_run ops (add_mset p M)), t2)" "inv t2"
        "\<forall>k. occ k t2 = count (snd (spec_run ops (add_mset p M))) k" by blast
    moreover have "new = (p \<notin># M)" using a Cons.prems(2) by (simp add: not_in_iff)
    ultimately show ?thesis by (auto simp: Sub t1 split: prod.split)
  next
    case (Unsub p)
    obtain t1 where t1: "rm p t = Some (occ p t = 1, t1)" "inv t1"
        "\<forall>k. occ k t1 = (if k = p then occ k t - 1 else occ k t)"
      using rm_law [OF Cons.prems(1), of p] by blast
    then have "\<And>k. occ k t1 = count (M - {#p#}) k" using Cons.prems(2) by auto
    with Cons.IH [of t1 "M - {#p#}"] t1(2) obtain t2 where
        "store_run add rm ops t1 = Some (fst (spec_run ops (M - {#p#})), t2)" "inv t2"
        "\<forall>k. occ k t2 = count (snd (spec_run ops (M - {#p#}))) k" by blast
    then show ?thesis using Cons.prems(2) by (auto simp: Unsub t1(1) split: prod.split)
  qed
qed simp

lemma run_from_empty:
  "\<exists>t'. store_run add rm ops empty = Some (fst (spec_run ops {#}), t') \<and> inv t'
     \<and> (\<forall>d. check d t' = (\<exists>p \<in># snd (spec_run ops {#}). prefix p d))
     \<and> {k. 0 < occ k t'} = set_mset (snd (spec_run ops {#}))"
proof -
  obtain t' where t': "store_run add rm ops empty = Some (fst (spec_run ops {#}), t')" "inv t'"
      "\<forall>k. occ k t' = count (snd (spec_run ops {#})) k"
    using run_refines [OF inv_empty, of "{#}" ops] occ_empty by auto
  then show ?thesis using check_law [OF t'(2)] by (auto simp: Bex_def conj_commute)
qed

end

interpretation sub_trie: prefix_store trie_wf trie_count trie_empty trie_add trie_rm trie_check
proof unfold_locales
  show "trie_add p t = (new, t') \<Longrightarrow> trie_wf t \<Longrightarrow> trie_wf t' \<and> new = (trie_count p t = 0)
      \<and> (\<forall>k. trie_count k t' = (if k = p then trie_count k t + 1 else trie_count k t))" for t p new t'
    using trie_add_count by blast
  show "trie_wf t \<Longrightarrow> \<exists>t'. trie_rm p t = Some (trie_count p t = 1, t') \<and> trie_wf t'
      \<and> (\<forall>k. trie_count k t' = (if k = p then trie_count k t - 1 else trie_count k t))" for t p
    by (rule trie_rm_count)
qed (simp_all add: trie_wf_empty trie_check_count)


subsection \<open>The trie with a size\<close>

record trie_with_size =
  tw_num :: u32
  tw_trie :: trie

definition tw_empty :: trie_with_size where
  "tw_empty = \<lparr>tw_num = 0, tw_trie = trie_empty\<rparr>"

definition tw_add :: "byte list \<Rightarrow> trie_with_size \<Rightarrow> bool \<times> trie_with_size" where
  "tw_add p s =
     (case trie_add p (tw_trie s) of
        (b, t) \<Rightarrow> if b then (True, s\<lparr>tw_trie := t, tw_num := tw_num s + 1\<rparr>) else (False, s\<lparr>tw_trie := t\<rparr>))"

definition tw_rm :: "byte list \<Rightarrow> trie_with_size \<Rightarrow> (bool \<times> trie_with_size) option" where
  "tw_rm p s =
     map_option (\<lambda>(b, t). if b then (True, s\<lparr>tw_trie := t, tw_num := tw_num s - 1\<rparr>) else (False, s\<lparr>tw_trie := t\<rparr>))
       (trie_rm p (tw_trie s))"

definition tw_check :: "byte list \<Rightarrow> trie_with_size \<Rightarrow> bool" where
  "tw_check d s = trie_check d (tw_trie s)"

definition tw_inv :: "trie_with_size \<Rightarrow> bool" where
  "tw_inv s \<longleftrightarrow> trie_wf (tw_trie s) \<and> finite {k. 0 < trie_count k (tw_trie s)}
     \<and> tw_num s = word_of_nat (card {k. 0 < trie_count k (tw_trie s)})"

interpretation sized_trie: prefix_store tw_inv "\<lambda>k s. trie_count k (tw_trie s)" tw_empty tw_add tw_rm tw_check
proof (unfold_locales, goal_cases)
  case (3 s p new s')
  obtain b t where t: "trie_add p (tw_trie s) = (b, t)" by force
  have a: "trie_wf t" "b = (trie_count p (tw_trie s) = 0)"
      "\<forall>k. trie_count k t = (if k = p then trie_count k (tw_trie s) + 1 else trie_count k (tw_trie s))"
    using trie_add_count [OF _ t] 3 by (auto simp: tw_inv_def)
  have s': "s' = (if new then s\<lparr>tw_trie := t, tw_num := tw_num s + 1\<rparr> else s\<lparr>tw_trie := t\<rparr>)" "new = b"
    using 3(2) by (auto simp: tw_add_def t split: if_splits)
  have "{k. 0 < trie_count k t} = insert p {k. 0 < trie_count k (tw_trie s)}" using a(3) by auto
  then have "tw_inv s'" using 3(1) a(1,2) unfolding tw_inv_def s' by (simp add: card_insert_if)
  with a(2,3) s' show ?case by simp
next
  case (4 s p)
  obtain t where t: "trie_rm p (tw_trie s) = Some (trie_count p (tw_trie s) = 1, t)" "trie_wf t"
      "\<forall>k. trie_count k t = (if k = p then trie_count k (tw_trie s) - 1 else trie_count k (tw_trie s))"
    using trie_rm_count [of "tw_trie s" p] 4 by (auto simp: tw_inv_def)
  show ?case
  proof (cases "trie_count p (tw_trie s) = 1")
    case True
    with t(3) have "{k. 0 < trie_count k t} = {k. 0 < trie_count k (tw_trie s)} - {p}" by auto
    moreover have "p \<in> {k. 0 < trie_count k (tw_trie s)}" using True by simp
    then have "0 < card {k. 0 < trie_count k (tw_trie s)}" using 4 by (auto simp: tw_inv_def card_gt_0_iff)
    ultimately have "tw_inv (s\<lparr>tw_trie := t, tw_num := tw_num s - 1\<rparr>)"
      using 4 t(2) True unfolding tw_inv_def by (simp add: card_Diff_singleton_if of_nat_diff)
    with t True show ?thesis by (simp add: tw_rm_def)
  next
    case False
    with t(3) have "{k. 0 < trie_count k t} = {k. 0 < trie_count k (tw_trie s)}" by auto
    then have "tw_inv (s\<lparr>tw_trie := t\<rparr>)" using 4 t(2) unfolding tw_inv_def by simp
    with False t show ?thesis by (simp add: tw_rm_def)
  qed
qed (auto simp: tw_inv_def tw_empty_def trie_wf_empty tw_check_def trie_check_count)

text \<open>After every sequence of operations the counter of \<open>trie_with_size_t\<close> is the number of
  distinct prefixes stored (modulo the width of the counter), and the results are those of the
  multiset.\<close>

theorem trie_size_exact:
  "\<exists>s. store_run tw_add tw_rm ops tw_empty = Some (fst (spec_run ops {#}), s)
     \<and> tw_num s = word_of_nat (card (set_mset (snd (spec_run ops {#}))))"
  using sized_trie.run_from_empty [of ops] by (auto simp: tw_inv_def)

end
