(* ===== verification/Mtrie.thy ===== *)
theory Mtrie
  imports Trie "HOL-Library.List_Lexorder"
begin

section \<open>The multi-trie of subscribers\<close>

text \<open>
  Models \<open>utils/generic_mtrie_impl.hpp\<close>: the prefix tree in which a publisher keeps, for every
  subscribed prefix, the set of subscribing pipes. A node is its set of pipes (absent when no pipe
  subscribed here) and its child table of \<open>Byte_Table\<close>. A \<open>std::set\<close> of pipe pointers is a sorted
  list without duplicates, as its iteration order is the order of the callbacks. The two removals
  are loops over an explicit stack that, as their comments say, simulate a recursion with work
  before and after the recursive call; the model is that recursion, a violated assertion being
  \<open>None\<close>.
\<close>

datatype 'p mtrie = MNode (m_pipes: "'p list option") (m_table: "'p mtrie table")

datatype rm_result = not_found | last_value_removed | values_remain

definition mtrie_empty :: "'p mtrie" where
  "mtrie_empty = MNode None tb_empty"

definition m_redundant :: "'p mtrie \<Rightarrow> bool" where
  "m_redundant t \<longleftrightarrow> m_pipes t = None \<and> tb_live (m_table t) = 0"

abbreviation m_slot :: "byte \<Rightarrow> 'p mtrie \<Rightarrow> 'p mtrie option" where
  "m_slot c t \<equiv> tb_slot (unat c) (m_table t)"

subsection \<open>Sets of pipes\<close>

definition pipes_insert :: "'p::linorder \<Rightarrow> 'p list \<Rightarrow> 'p list" where
  "pipes_insert p ps = (if p \<in> set ps then ps else insort p ps)"

definition pipes_erase :: "'p::linorder \<Rightarrow> 'p list \<Rightarrow> bool \<times> 'p list" where
  "pipes_erase p ps = (p \<in> set ps, remove1 p ps)"

subsection \<open>Operations\<close>

fun mtrie_add :: "byte list \<Rightarrow> 'p::linorder \<Rightarrow> 'p mtrie \<Rightarrow> bool \<times> 'p mtrie" where
  "mtrie_add [] p (MNode ps tb) =
     (let result = (ps = None) in
      (result, MNode (Some (pipes_insert p (case ps of None \<Rightarrow> [] | Some ps \<Rightarrow> ps))) tb))"
| "mtrie_add (c # cs) p (MNode ps tb) =
     (let tb = tb_extend (unat c) tb;
          child = (case tb_slot (unat c) tb of None \<Rightarrow> mtrie_empty | Some ch \<Rightarrow> ch);
          (new, child) = mtrie_add cs p child in
      (new, MNode ps (tb_put (unat c) child tb)))"

text \<open>Removing one entry: before the recursive call the pipe is erased at the end of the prefix,
  after it a child that has become redundant is pruned.\<close>

fun mtrie_rm :: "byte list \<Rightarrow> 'p::linorder \<Rightarrow> 'p mtrie \<Rightarrow> (rm_result \<times> 'p mtrie) option" where
  "mtrie_rm [] p (MNode None tb) = Some (not_found, MNode None tb)"
| "mtrie_rm [] p (MNode (Some ps) tb) =
     (let (erased, ps) = pipes_erase p ps in
      if ps = [] then (if \<not> erased then None else Some (last_value_removed, MNode None tb))
      else Some (if erased then values_remain else not_found, MNode (Some ps) tb))"
| "mtrie_rm (c # cs) p (MNode ps tb) =
     (case tb_slot (unat c) tb of
        None \<Rightarrow> Some (not_found, MNode ps tb)
      | Some next_node \<Rightarrow>
          Option.bind (mtrie_rm cs p next_node) (\<lambda>(ret, next_node).
            let tb = tb_put (unat c) next_node tb in
            if m_redundant next_node
            then map_option (\<lambda>tb. (ret, MNode ps tb)) (tb_prune_scan (unat c) tb)
            else Some (ret, MNode ps tb)))"

text \<open>Signalling the pipes at every node on the path of the data.\<close>

fun mtrie_match :: "byte list \<Rightarrow> 'p mtrie \<Rightarrow> 'p list" where
  "mtrie_match data t =
     (case m_pipes t of None \<Rightarrow> [] | Some ps \<Rightarrow> ps) @
     (case data of
        [] \<Rightarrow> []
      | c # cs \<Rightarrow> (case m_slot c t of None \<Rightarrow> [] | Some ch \<Rightarrow> mtrie_match cs ch))"

declare mtrie_match.simps [simp del]

text \<open>The traversal of all values, with its stack, the top first.\<close>

definition live_children :: "'p mtrie \<Rightarrow> 'p mtrie list" where
  "live_children t = List.map_filter id (tb_next (m_table t))"

lemma size_table_next: "size_table f t = size_list (size_option f) (tb_next t) + 1"
  by (cases t) simp

lemma live_children_size: "size_list size (live_children t) < size t"
proof -
  have "size_list size (List.map_filter id xs) \<le> size_list (size_option size) xs" for xs :: "'a mtrie option list"
    by (induction xs) (auto simp: List.map_filter_simps split: option.split)
  from this [of "tb_next (m_table t)"] show ?thesis
    by (cases t) (simp add: live_children_def size_table_next)
qed

function visit_values :: "'p mtrie list \<Rightarrow> 'p list" where
  "visit_values [] = []"
| "visit_values (node # stack) =
     (case m_pipes node of None \<Rightarrow> [] | Some ps \<Rightarrow> ps) @ visit_values (live_children node @ stack)"
  by pat_completeness auto
termination
proof (relation "measure (size_list size)")
  fix node :: "'p mtrie" and stack
  have "size_list size (xs @ ys) = size_list size xs + size_list size ys" for xs ys :: "'p mtrie list"
    by (induction xs) auto
  then show "(live_children node @ stack, node # stack) \<in> measure (size_list size)"
    using live_children_size [of node] by simp
qed simp

text \<open>Removing every entry of a pipe. \<open>rm_here\<close> is the visit of a node before its children: the
  callback is called with the path when the pipe was there (and was the last one, if asked to).\<close>

definition rm_here :: "'p::linorder \<Rightarrow> bool \<Rightarrow> byte list \<Rightarrow> 'p list option \<Rightarrow> byte list list \<times> 'p list option"
where
  "rm_here p call_on_uniq path ps =
     (case ps of
        None \<Rightarrow> ([], None)
      | Some ps \<Rightarrow>
          (case pipes_erase p ps of (erased, ps') \<Rightarrow>
             if erased
             then (if \<not> call_on_uniq \<or> ps' = [] then [path] else [], if ps' = [] then None else Some ps')
             else ([], Some ps)))"

text \<open>The end of the visit of a node with a table: the table is freed or compacted to the range
  \<open>[new_min, new_max]\<close> of the children that stay.\<close>

definition tb_compact :: "nat \<Rightarrow> nat \<Rightarrow> 'a table \<Rightarrow> 'a table option" where
  "tb_compact new_min new_max t =
     (case t of Table mn lv nx \<Rightarrow>
        let n = length nx in
        if lv = 0 then Some (Table mn 0 [])
        else if lv = 1 then
          (if new_min = new_max \<and> new_min \<ge> mn \<and> new_min < mn + n
           then map_option (\<lambda>node. Table new_min lv [Some node]) (nx ! (new_min - mn))
           else None)
        else if new_min > mn \<or> new_max < mn + n - 1 then
          (if new_max > new_min \<and> new_min \<ge> mn \<and> new_max \<le> mn + n - 1 \<and> new_max - new_min + 1 < n
           then Some (Table new_min lv (take (new_max - new_min + 1) (drop (new_min - mn) nx)))
           else None)
        else Some (Table mn lv nx))"

fun rm_pipe :: "'p::linorder \<Rightarrow> bool \<Rightarrow> byte list \<Rightarrow> 'p mtrie \<Rightarrow> (byte list list \<times> 'p mtrie) option"
  and rm_children :: "'p::linorder \<Rightarrow> bool \<Rightarrow> byte list \<Rightarrow> nat \<Rightarrow> nat \<times> nat \<times> nat \<Rightarrow> 'p mtrie option list
     \<Rightarrow> (byte list list \<times> (nat \<times> nat \<times> nat) \<times> 'p mtrie option list) option" where
  "rm_pipe p u path (MNode ps (Table mn lv [])) =
     (case rm_here p u path ps of (calls, ps) \<Rightarrow> Some (calls, MNode ps (Table mn lv [])))"
| "rm_pipe p u path (MNode ps (Table mn lv [None])) = None"
| "rm_pipe p u path (MNode ps (Table mn lv [Some node])) =
     (case rm_here p u path ps of (calls, ps) \<Rightarrow>
        Option.bind (rm_pipe p u (path @ [of_nat mn]) node) (\<lambda>(calls', node).
          if m_redundant node then
            (if lv - 1 = 0 \<and> lv \<noteq> 0 then Some (calls @ calls', MNode ps (Table mn 0 [])) else None)
          else Some (calls @ calls', MNode ps (Table mn lv [Some node]))))"
| "rm_pipe p u path (MNode ps (Table mn lv (x # y # nx))) =
     (case rm_here p u path ps of (calls, ps) \<Rightarrow>
        Option.bind (rm_children p u path mn (lv, mn + length (x # y # nx) - 1, mn) (x # y # nx))
          (\<lambda>(calls', (lv, new_min, new_max), nx).
             map_option (\<lambda>tb. (calls @ calls', MNode ps tb)) (tb_compact new_min new_max (Table mn lv nx))))"
| "rm_children p u path b st [] = Some ([], st, [])"
| "rm_children p u path b st (None # nx) =
     map_option (\<lambda>(calls, st, nx). (calls, st, None # nx)) (rm_children p u path (b + 1) st nx)"
| "rm_children p u path b (lv, new_min, new_max) (Some node # nx) =
     Option.bind (rm_pipe p u (path @ [of_nat b]) node) (\<lambda>(calls, node).
       if m_redundant node then
         (if lv > 0 then
            map_option (\<lambda>(calls', st, nx). (calls @ calls', st, None # nx))
              (rm_children p u path (b + 1) (lv - 1, new_min, new_max) nx)
          else None)
       else
         map_option (\<lambda>(calls', st, nx). (calls @ calls', st, Some node # nx))
           (rm_children p u path (b + 1)
              (lv, if b < new_min then b else new_min, if b > new_max then b else new_max) nx))"

text \<open>The multi-trie with the counter of its root.\<close>

record 'p mtrie_root =
  num_prefixes :: u32
  root :: "'p mtrie"

definition mt_empty :: "'p mtrie_root" where
  "mt_empty = \<lparr>num_prefixes = 0, root = mtrie_empty\<rparr>"

definition mt_add :: "byte list \<Rightarrow> 'p::linorder \<Rightarrow> 'p mtrie_root \<Rightarrow> bool \<times> 'p mtrie_root" where
  "mt_add k p s =
     (case mtrie_add k p (root s) of
        (new, t) \<Rightarrow> (new, s\<lparr>root := t, num_prefixes := (if new then num_prefixes s + 1 else num_prefixes s)\<rparr>))"

definition mt_rm :: "byte list \<Rightarrow> 'p::linorder \<Rightarrow> 'p mtrie_root \<Rightarrow> (rm_result \<times> 'p mtrie_root) option" where
  "mt_rm k p s =
     Option.bind (mtrie_rm k p (root s)) (\<lambda>(ret, t).
       if ret = last_value_removed then
         (if num_prefixes s > 0 then Some (ret, s\<lparr>root := t, num_prefixes := num_prefixes s - 1\<rparr>) else None)
       else Some (ret, s\<lparr>root := t\<rparr>))"

definition mt_rm_pipe :: "'p::linorder \<Rightarrow> bool \<Rightarrow> 'p mtrie_root \<Rightarrow> (byte list list \<times> 'p mtrie_root) option" where
  "mt_rm_pipe p call_on_uniq s =
     map_option (\<lambda>(calls, t). (calls, s\<lparr>root := t\<rparr>)) (rm_pipe p call_on_uniq [] (root s))"

definition mt_match :: "byte list \<Rightarrow> 'p mtrie_root \<Rightarrow> 'p list" where
  "mt_match data s = mtrie_match data (root s)"

definition mt_visit :: "'p mtrie_root \<Rightarrow> 'p list" where
  "mt_visit s = visit_values [root s]"

subsection \<open>Abstraction and invariant\<close>

text \<open>The pipes subscribed to a prefix, and the layout invariant.\<close>

fun mt_pipes :: "byte list \<Rightarrow> 'p mtrie \<Rightarrow> 'p list" where
  "mt_pipes [] t = (case m_pipes t of None \<Rightarrow> [] | Some ps \<Rightarrow> ps)"
| "mt_pipes (c # cs) t = (case m_slot c t of None \<Rightarrow> [] | Some ch \<Rightarrow> mt_pipes cs ch)"

definition pipes_ok :: "'p::linorder list option \<Rightarrow> bool" where
  "pipes_ok ps \<longleftrightarrow> (case ps of None \<Rightarrow> True | Some ps \<Rightarrow> ps \<noteq> [] \<and> sorted ps \<and> distinct ps)"

inductive mtrie_wf :: "'p::linorder mtrie \<Rightarrow> bool" where
  "pipes_ok ps \<Longrightarrow> tb_ok tb \<Longrightarrow> (\<And>c ch. tb_slot c tb = Some ch \<Longrightarrow> mtrie_wf ch \<and> \<not> m_redundant ch)
     \<Longrightarrow> mtrie_wf (MNode ps tb)"

inductive_simps mtrie_wf_MNode: "mtrie_wf (MNode ps tb)"

lemma mtrie_wf_empty: "mtrie_wf mtrie_empty"
  by (simp add: mtrie_empty_def mtrie_wf_MNode pipes_ok_def)

lemma mt_pipes_empty [simp]: "mt_pipes k mtrie_empty = []"
  by (cases k) (simp_all add: mtrie_empty_def)

lemma slot_byte: "tb_ok tb \<Longrightarrow> tb_slot c tb = Some ch \<Longrightarrow> tb_slot (unat (of_nat c :: byte)) tb = Some ch"
  using tb_slot_bound [of tb c ch] by (simp add: unat_u8_of_nat)

text \<open>A redundant node is one below which no pipe is left.\<close>

lemma m_redundant_iff: "mtrie_wf t \<Longrightarrow> m_redundant t \<longleftrightarrow> (\<forall>k. mt_pipes k t = [])"
proof (induction rule: mtrie_wf.induct)
  case (1 ps tb)
  show ?case
  proof (cases "tb_live tb = 0")
    case True
    have "mt_pipes (c # k) (MNode ps tb) = []" for c k using tb_live_0 [OF 1(2)] True by simp
    then have "(\<forall>k. mt_pipes k (MNode ps tb) = []) \<longleftrightarrow> mt_pipes [] (MNode ps tb) = []"
      by (metis list.exhaust)
    with True 1(1) show ?thesis by (auto simp: m_redundant_def pipes_ok_def split: option.splits)
  next
    case False
    then obtain c ch where ch: "tb_slot c tb = Some ch" using tb_live_0 [OF 1(2)] by auto
    with 1(3) obtain k where "mt_pipes k ch \<noteq> []" by blast
    then have "mt_pipes (of_nat c # k) (MNode ps tb) \<noteq> []" using slot_byte [OF 1(2) ch] by simp
    then have "\<not> (\<forall>k. mt_pipes k (MNode ps tb) = [])" by blast
    with False show ?thesis by (simp add: m_redundant_def)
  qed
qed

lemma mt_pipes_ok: "mtrie_wf t \<Longrightarrow> sorted (mt_pipes k t) \<and> distinct (mt_pipes k t)"
proof (induction k arbitrary: t)
  case Nil
  then show ?case by (cases t) (auto simp: mtrie_wf_MNode pipes_ok_def split: option.splits)
next
  case (Cons c k)
  then show ?case by (cases t) (auto simp: mtrie_wf_MNode split: option.splits)
qed

subsection \<open>Adding and removing one entry\<close>

lemma pipes_ok_insert: "pipes_ok ps \<Longrightarrow>
  pipes_ok (Some (pipes_insert p (case ps of None \<Rightarrow> [] | Some ps \<Rightarrow> ps)))"
  by (auto simp: pipes_ok_def pipes_insert_def sorted_insort distinct_insort split: option.splits)

lemma mtrie_add_pipes:
  "mtrie_wf t \<Longrightarrow> mtrie_add k p t = (new, t') \<Longrightarrow>
     mtrie_wf t' \<and> \<not> m_redundant t' \<and> new = (mt_pipes k t = [])
     \<and> (\<forall>q. mt_pipes q t' = (if q = k then pipes_insert p (mt_pipes q t) else mt_pipes q t))"
proof (induction k p t arbitrary: new t' rule: mtrie_add.induct)
  case (1 p ps tb)
  have "mt_pipes q t' = (if q = [] then pipes_insert p (mt_pipes q (MNode ps tb)) else mt_pipes q (MNode ps tb))" for q
    using 1 by (cases q) (auto simp: Let_def)
  with 1 pipes_ok_insert [of ps p] show ?case
    by (auto simp: mtrie_wf_MNode m_redundant_def pipes_ok_def split: option.splits)
next
  case (2 c cs p ps tb)
  define tb1 where "tb1 = tb_extend (unat c) tb"
  define ch where "ch = (case tb_slot (unat c) tb1 of None \<Rightarrow> mtrie_empty | Some ch \<Rightarrow> ch)"
  obtain ch' where ch': "mtrie_add cs p ch = (new, ch')" "t' = MNode ps (tb_put (unat c) ch' tb1)"
    using "2.prems"(2) by (auto simp: tb1_def ch_def Let_def split: prod.splits)
  have tb: "pipes_ok ps" "tb_ok tb" "\<And>x h. tb_slot x tb = Some h \<Longrightarrow> mtrie_wf h \<and> \<not> m_redundant h"
    using "2.prems"(1) by (auto simp: mtrie_wf_MNode)
  note add = tb_add [OF tb(2) unat_byte_less [of c], folded tb1_def]
  have ch: "ch = (case tb_slot (unat c) tb of None \<Rightarrow> mtrie_empty | Some ch \<Rightarrow> ch)"
    by (simp add: ch_def add(3))
  have "mtrie_wf ch" using tb(3) [of "unat c"] by (auto simp: ch mtrie_wf_empty split: option.split)
  note IH = "2.IH" [OF tb1_def ch_def this ch'(1)]
  have cnt: "mt_pipes k ch = mt_pipes (c # k) (MNode ps tb)" for k
    by (simp add: ch split: option.split)
  have wf: "mtrie_wf t'" using IH tb(1,3) add(1,2) by (auto simp: ch'(2) mtrie_wf_MNode)
  have slot: "tb_slot (unat c) (m_table t') = Some ch'" by (simp add: ch'(2) add(2))
  have "\<not> m_redundant t'"
    using wf slot tb_live_pos [of "m_table t'" "unat c" ch'] by (simp add: ch'(2) mtrie_wf_MNode m_redundant_def)
  moreover have "mt_pipes k t' = (if k = c # cs then pipes_insert p (mt_pipes k (MNode ps tb)) else mt_pipes k (MNode ps tb))" for k
  proof (cases k)
    case (Cons d ds)
    then show ?thesis
      using IH cnt [of ds] by (cases "d = c") (auto simp: ch'(2) add(2))
  qed (simp add: ch'(2))
  ultimately show ?case using wf IH cnt [of cs] by simp
qed

text \<open>What happens to a child: it stays with new contents, or it is gone because nothing is left.\<close>

definition child_after :: "(byte list \<Rightarrow> 'p::linorder list) \<Rightarrow> 'p mtrie option \<Rightarrow> bool" where
  "child_after f res \<longleftrightarrow>
     (case res of
        None \<Rightarrow> \<forall>k. f k = []
      | Some ch \<Rightarrow> mtrie_wf ch \<and> \<not> m_redundant ch \<and> (\<forall>k. mt_pipes k ch = f k))"

lemma node_after:
  assumes "pipes_ok ps'" "tb_ok tb'"
    and "\<And>c. c < 256 \<Longrightarrow> child_after (\<lambda>k. f (of_nat c # k)) (tb_slot c tb')"
    and "f [] = (case ps' of None \<Rightarrow> [] | Some ps \<Rightarrow> ps)"
  shows "mtrie_wf (MNode ps' tb') \<and> (\<forall>k. mt_pipes k (MNode ps' tb') = f k)"
proof
  show "mtrie_wf (MNode ps' tb')"
    unfolding mtrie_wf_MNode
  proof (intro conjI allI impI assms(1,2))
    fix c ch assume "tb_slot c tb' = Some ch"
    then show "mtrie_wf ch" "\<not> m_redundant ch"
      using assms(3) [of c] tb_slot_bound [OF assms(2), of c ch] by (simp_all add: child_after_def)
  qed
  show "\<forall>k. mt_pipes k (MNode ps' tb') = f k"
  proof
    fix k show "mt_pipes k (MNode ps' tb') = f k"
    proof (cases k)
      case (Cons c cs)
      with assms(3) [of "unat c"] show ?thesis by (auto simp: child_after_def split: option.splits)
    qed (simp add: assms(4))
  qed
qed

definition rm_answer :: "'p \<Rightarrow> 'p list \<Rightarrow> rm_result" where
  "rm_answer p ps = (if p \<notin> set ps then not_found else if ps = [p] then last_value_removed else values_remain)"

lemma remove1_eq_Nil: "remove1 p ps = [] \<longleftrightarrow> ps = [] \<or> ps = [p]"
  by (cases ps) (auto split: if_splits)

lemma mtrie_rm_pipes:
  "mtrie_wf t \<Longrightarrow> \<exists>t'. mtrie_rm k p t = Some (rm_answer p (mt_pipes k t), t') \<and> mtrie_wf t'
     \<and> (\<forall>q. mt_pipes q t' = (if q = k then remove1 p (mt_pipes q t) else mt_pipes q t))"
proof (induction k p t rule: mtrie_rm.induct)
  case (1 p tb)
  have "mt_pipes q (MNode None tb) = (if q = [] then remove1 p (mt_pipes q (MNode None tb)) else mt_pipes q (MNode None tb))" for q
    by simp
  with 1 show ?case by (auto simp: rm_answer_def)
next
  case (2 p ps tb)
  have *: "mt_pipes q (MNode (if remove1 p ps = [] then None else Some (remove1 p ps)) tb)
      = (if q = [] then remove1 p ps else mt_pipes q (MNode (Some ps) tb))" for q
    by (cases q) simp_all
  have "ps \<noteq> []" "distinct ps" "sorted ps" using 2 by (auto simp: mtrie_wf_MNode pipes_ok_def)
  with 2 * show ?case
    by (auto simp: pipes_erase_def rm_answer_def Let_def mtrie_wf_MNode pipes_ok_def remove1_eq_Nil sorted_remove1)
next
  case (3 c cs p ps tb)
  have wf: "pipes_ok ps" "tb_ok tb" "\<And>x h. tb_slot x tb = Some h \<Longrightarrow> mtrie_wf h \<and> \<not> m_redundant h"
    using "3.prems" by (auto simp: mtrie_wf_MNode)
  show ?case
  proof (cases "tb_slot (unat c) tb")
    case None
    have "mt_pipes q (MNode ps tb) = (if q = c # cs then remove1 p (mt_pipes q (MNode ps tb)) else mt_pipes q (MNode ps tb))" for q
      using None by simp
    with None "3.prems" show ?thesis by (auto simp: rm_answer_def)
  next
    case (Some ch)
    with wf(3) have ch: "mtrie_wf ch" by blast
    obtain ch' where ch': "mtrie_rm cs p ch = Some (rm_answer p (mt_pipes cs ch), ch')" "mtrie_wf ch'"
        "\<And>q. mt_pipes q ch' = (if q = cs then remove1 p (mt_pipes q ch) else mt_pipes q ch)"
      using "3.IH" [OF Some ch] by blast
    note rep = tb_replace [OF wf(2) Some, where y = ch']
    define f where "f = (\<lambda>q. if q = c # cs then remove1 p (mt_pipes q (MNode ps tb)) else mt_pipes q (MNode ps tb))"
    have f: "f (c # q) = mt_pipes q ch'" for q using ch'(3) [of q] Some by (simp add: f_def)
    have oth: "child_after (\<lambda>k. f (of_nat x # k)) (tb_slot x tb)" if "x < 256" "x \<noteq> unat c" for x
    proof -
      have "unat (of_nat x :: byte) = x" using that by (simp add: unat_u8_of_nat)
      then show ?thesis
        using wf(3) [of x] that by (auto simp: child_after_def f_def split: option.splits)
    qed
    have fin: "mtrie_wf (MNode ps tb') \<and> (\<forall>k. mt_pipes k (MNode ps tb') = f k)"
      if "tb_ok tb'" "\<And>x. tb_slot x tb' = (if x = unat c then (if m_redundant ch' then None else Some ch') else tb_slot x tb)" for tb'
    proof (intro node_after [OF wf(1) that(1)])
      fix x :: nat assume "x < 256"
      then show "child_after (\<lambda>k. f (of_nat x # k)) (tb_slot x tb')"
        using oth [of x] ch'(2) m_redundant_iff [OF ch'(2)] by (auto simp: that(2) child_after_def f)
    qed (simp add: f_def)
    have ans: "rm_answer p (mt_pipes (c # cs) (MNode ps tb)) = rm_answer p (mt_pipes cs ch)" using Some by simp
    show ?thesis
    proof (cases "m_redundant ch'")
      case True
      have sl: "tb_slot (unat c) (tb_put (unat c) ch' tb) = Some ch'" using rep(2) by simp
      obtain tb' where tb': "tb_prune (unat c) (tb_put (unat c) ch' tb) = Some tb'"
          "tb_pruned (unat c) (tb_put (unat c) ch' tb) tb'"
        using tb_prune_correct [OF rep(1) sl] by blast
      with fin [of tb'] True rep(2) have "mtrie_wf (MNode ps tb')" "\<forall>k. mt_pipes k (MNode ps tb') = f k"
        by (auto simp: tb_pruned_def)
      then show ?thesis
        using Some ch'(1) True tb'(1) tb_prune_scan_eq [OF rep(1) sl] ans by (auto simp: f_def)
    next
      case False
      with fin [of "tb_put (unat c) ch' tb"] rep(1,2) show ?thesis
        using Some ch'(1) ans by (auto simp: f_def)
    qed
  qed
qed

subsection \<open>Removing a pipe everywhere\<close>

text \<open>Compaction to the range of the children that stay: \<open>scan_bounds\<close> is what the loop over the
  children computes in \<open>new_min\<close> and \<open>new_max\<close>.\<close>

fun scan_bounds :: "nat \<Rightarrow> 'a option list \<Rightarrow> nat \<times> nat \<Rightarrow> nat \<times> nat" where
  "scan_bounds b [] m = m"
| "scan_bounds b (None # nx) m = scan_bounds (b + 1) nx m"
| "scan_bounds b (Some x # nx) (mi, ma) =
     scan_bounds (b + 1) nx (if b < mi then b else mi, if b > ma then b else ma)"

definition used :: "nat \<Rightarrow> 'a option list \<Rightarrow> nat set" where
  "used b nx = {c. tb_slot c (Table b 0 nx) \<noteq> None}"

lemma used_Nil [simp]: "used b [] = {}"
  by (auto simp: used_def tb_slot_Table split: if_splits)

lemma tb_slot_Nil [simp]: "tb_slot c (Table mn lv []) = None"
  by (auto simp: tb_slot_Table)

lemma tb_slot_Cons:
  "tb_slot c (Table b lv (x # nx)) = (if c = b then x else tb_slot c (Table (b + 1) lv nx))"
  by (auto simp: tb_slot_Table nth_Cons')

lemma tb_ok_short: "mn < 256 \<Longrightarrow> tb_ok (Table mn 0 [])" "mn < 256 \<Longrightarrow> tb_ok (Table mn 1 [Some x])"
proof -
  assume "mn < 256"
  moreover have "{c. tb_slot c (Table mn 1 [Some x]) \<noteq> None} = {mn}" by (auto simp: tb_slot_Table split: if_splits)
  ultimately show "tb_ok (Table mn 1 [Some x])" by (simp add: tb_ok_def tb_slot_Table)
qed (simp add: tb_ok_def)

lemma used_Cons: "used b (x # nx) = (if x = None then {} else {b}) \<union> used (b + 1) nx"
  by (auto simp: used_def tb_slot_Cons tb_slot_Table [of b "Suc b"])

lemma used_finite [simp]: "finite (used b nx)"
  unfolding used_def by (rule tb_slots_finite)

lemma used_range: "used b nx \<subseteq> {b..<b + length nx}"
  by (auto simp: used_def tb_slot_Table split: if_splits)

lemma card_used: "card (used b nx) = length (filter (\<lambda>x. x \<noteq> None) nx)"
proof (induction nx arbitrary: b)
  case (Cons x nx)
  have "b \<notin> used (b + 1) nx" using used_range [of "b + 1" nx] by auto
  then show ?case by (simp add: used_Cons Cons.IH)
qed simp

lemma scan_bounds_eq:
  "scan_bounds b nx (mi, ma) = (Min (insert mi (used b nx)), Max (insert ma (used b nx)))"
proof (induction b nx "(mi, ma)" arbitrary: mi ma rule: scan_bounds.induct)
  case (3 b x nx mi ma)
  have "Min (insert (if b < mi then b else mi) S) = Min (insert mi (insert b S))"
    "Max (insert (if b > ma then b else ma) S) = Max (insert ma (insert b S))" if "finite S" for S :: "nat set"
    using that by (cases "S = {}"; auto simp: min_def max_def)+
  with 3 show ?case by (simp add: used_Cons)
qed (simp_all add: used_Cons)

lemma tb_compact_correct:
  fixes nx :: "'a option list"
  assumes len: "1 < length nx" "mn + length nx \<le> 256"
    and lv: "lv = card (used mn nx)"
    and mm: "scan_bounds mn nx (mn + length nx - 1, mn) = (mi, ma)"
  shows "\<exists>t. tb_compact mi ma (Table mn lv nx) = Some t \<and> tb_ok t
     \<and> (\<forall>x. tb_slot x t = tb_slot x (Table mn lv nx))"
proof -
  let ?n = "length nx" and ?S = "used mn nx"
  have sl: "tb_slot x (Table mn l nx) \<noteq> None \<longleftrightarrow> x \<in> ?S" for x l
    by (simp add: used_def tb_slot_Table)
  have nth: "nx ! j = None \<longleftrightarrow> mn + j \<notin> ?S" if "j < ?n" for j
    using sl [of "mn + j" 0] that by (auto simp: tb_slot_Table)
  have liv: "card {c. tb_slot c t \<noteq> None} = lv" if "\<And>x. tb_slot x t = tb_slot x (Table mn lv nx)" for t
    unfolding that sl using lv by simp
  show ?thesis
  proof (cases "?S = {}")
    case True
    then have e: "tb_slot x (Table mn 0 [] :: 'a table) = tb_slot x (Table mn lv nx)" for x
      using sl [of x lv] by (auto simp: tb_slot_Table)
    moreover have "tb_ok (Table mn 0 [] :: 'a table)" using liv [OF e] True len lv by (simp add: tb_ok_def)
    moreover have "tb_compact mi ma (Table mn lv nx) = Some (Table mn 0 [])"
      using True lv by (simp add: tb_compact_def)
    ultimately show ?thesis by blast
  next
    case False
    have rng: "?S \<subseteq> {mn..<mn + ?n}" by (rule used_range)
    have "mi = Min (insert (mn + ?n - 1) ?S)" "ma = Max (insert mn ?S)"
      using mm unfolding scan_bounds_eq by simp_all
    then have mm': "mi = min (mn + ?n - 1) (Min ?S)" "ma = max mn (Max ?S)"
      unfolding Min_insert [OF used_finite False] Max_insert [OF used_finite False] .
    have "Min ?S \<in> {mn..<mn + ?n}" "Max ?S \<in> {mn..<mn + ?n}"
      using Min_in [OF used_finite False] Max_in [OF used_finite False] rng by blast+
    then have "Min ?S \<le> mn + ?n - 1" "mn \<le> Max ?S" unfolding atLeastLessThan_iff by linarith+
    then have mi: "mi = Min ?S" and ma: "ma = Max ?S"
      unfolding mm' using min_absorb2 max_absorb2 by blast+
    have in_S: "mi \<in> ?S" "ma \<in> ?S" unfolding mi ma using False by (auto intro: Min_in Max_in)
    have bnd: "mi \<le> x" "x \<le> ma" if "x \<in> ?S" for x using that by (simp_all add: mi ma)
    have lims: "mn \<le> mi" "mi \<le> ma" "ma < mn + ?n" using in_S bnd(2) rng by auto
    define t where "t = Table mi lv (take (ma - mi + 1) (drop (mi - mn) nx))"
    have e: "tb_slot x t = tb_slot x (Table mn lv nx)" for x
      using tb_slice [of "mi - mn" "ma - mi + 1" nx x mn lv lv] lims nth bnd
      unfolding t_def by fastforce
    moreover have "tb_ok t"
      using liv [OF e] in_S lims len(2) sl [of mi lv] sl [of ma lv] e [of mi] e [of ma]
      by (simp add: tb_ok_def t_def)
    moreover have "tb_compact mi ma (Table mn lv nx) = Some t"
    proof (cases "lv = 1")
      case True
      then obtain s where s: "?S = {s}" using lv by (metis card_1_singletonE)
      have "mi = s" "ma = s" by (simp_all add: mi ma s)
      moreover obtain y where y: "nx ! (s - mn) = Some y"
        using nth [of "s - mn"] lims calculation s by fastforce
      ultimately show ?thesis using True lims y
        by (simp add: tb_compact_def t_def take_Suc_conv_app_nth Let_def hd_drop_conv_nth take_Suc)
    next
      case neq1: False
      have "lv \<noteq> 0" using False lv by simp
      have "mi \<noteq> ma"
      proof
        assume "mi = ma"
        then have "?S \<subseteq> {mi}" using bnd by force
        then have "card ?S \<le> 1" using card_mono [of "{mi}" ?S] by simp
        with neq1 \<open>lv \<noteq> 0\<close> lv show False by simp
      qed
      show ?thesis
      proof (cases "mi > mn \<or> ma < mn + ?n - 1")
        case True
        with neq1 \<open>lv \<noteq> 0\<close> \<open>mi \<noteq> ma\<close> lims show ?thesis by (auto simp: tb_compact_def t_def Let_def)
      next
        case False
        then have "mi = mn" "ma = mn + ?n - 1" using lims by auto
        with neq1 \<open>lv \<noteq> 0\<close> len(1) show ?thesis by (simp add: tb_compact_def t_def Let_def)
      qed
    qed
    ultimately show ?thesis by blast
  qed
qed

text \<open>The prefixes for which the callback is called, below a node and below the children of a node.\<close>

definition hits :: "'p \<Rightarrow> bool \<Rightarrow> 'p mtrie \<Rightarrow> byte list set" where
  "hits p u t = {k. p \<in> set (mt_pipes k t) \<and> (u \<longrightarrow> mt_pipes k t = [p])}"

fun child_hits :: "'p \<Rightarrow> bool \<Rightarrow> nat \<Rightarrow> 'p mtrie option list \<Rightarrow> byte list set" where
  "child_hits p u b [] = {}"
| "child_hits p u b (None # nx) = child_hits p u (b + 1) nx"
| "child_hits p u b (Some ch # nx) = (#) (of_nat b) ` hits p u ch \<union> child_hits p u (b + 1) nx"

lemma child_hits_iff:
  "k \<in> child_hits p u b nx \<longleftrightarrow> (\<exists>c ch k'. tb_slot c (Table b 0 nx) = Some ch \<and> k = of_nat c # k' \<and> k' \<in> hits p u ch)"
proof (induction p u b nx rule: child_hits.induct)
  case (2 p u b nx)
  have "tb_slot c (Table b 0 (None # nx)) = tb_slot c (Table (b + 1) 0 nx)" for c
    by (auto simp: tb_slot_Cons tb_slot_Table)
  with 2 show ?case by simp
next
  case (3 p u b ch nx)
  have "tb_slot b (Table (b + 1) 0 nx) = None" by (simp add: tb_slot_Table)
  with 3 show ?case by (auto simp: tb_slot_Cons split: if_splits) (metis option.distinct(1))+
qed (auto simp: tb_slot_Table split: if_splits)

lemma hits_node:
  assumes "tb_ok (Table mn lv nx)"
  shows "hits p u (MNode ps (Table mn lv nx)) =
    (if p \<in> set (case ps of None \<Rightarrow> [] | Some ps \<Rightarrow> ps) \<and> (u \<longrightarrow> ps = Some [p]) then {[]} else {}) \<union> child_hits p u mn nx"
    (is "?L = ?R")
proof -
  have "k \<in> ?L \<longleftrightarrow> k \<in> ?R" for k
  proof (cases k)
    case Nil
    have "[] \<notin> child_hits p u mn nx" by (simp add: child_hits_iff)
    with Nil show ?thesis by (cases ps) (simp_all add: hits_def)
  next
    case (Cons c k')
    have lv: "tb_slot x (Table mn 0 nx) = tb_slot x (Table mn lv nx)" for x by (simp add: tb_slot_Table)
    have u: "x = unat c" if "tb_slot x (Table mn lv nx) = Some ch" "c = of_nat x" for x ch
      using tb_slot_bound [OF assms that(1)] that(2) by (simp add: unat_u8_of_nat)
    have c: "c = of_nat (unat c)" by simp
    have "k \<in> child_hits p u mn nx \<longleftrightarrow> (\<exists>ch. tb_slot (unat c) (Table mn lv nx) = Some ch \<and> k' \<in> hits p u ch)"
      unfolding child_hits_iff Cons lv list.inject using u c by metis
    then have "k \<in> child_hits p u mn nx \<longleftrightarrow> k \<in> ?L"
      by (cases "tb_slot (unat c) (Table mn lv nx)") (simp_all add: Cons hits_def)
    then show ?thesis using Cons by simp
  qed
  then show ?thesis by blast
qed

lemma rm_here_eq:
  assumes "pipes_ok ps"
  shows "\<exists>ps'. rm_here p u path ps =
      (if p \<in> set (case ps of None \<Rightarrow> [] | Some ps \<Rightarrow> ps) \<and> (u \<longrightarrow> ps = Some [p]) then [path] else [], ps')
    \<and> pipes_ok ps' \<and> (case ps' of None \<Rightarrow> [] | Some ps \<Rightarrow> ps) = remove1 p (case ps of None \<Rightarrow> [] | Some ps \<Rightarrow> ps)"
  using assms
  by (auto simp: rm_here_def pipes_erase_def pipes_ok_def remove1_eq_Nil sorted_remove1 remove1_idem split: option.split)

text \<open>The two mutually recursive functions are correct.\<close>

abbreviation after_rm :: "'p::linorder \<Rightarrow> 'p mtrie option \<Rightarrow> 'p mtrie option \<Rightarrow> bool" where
  "after_rm p x x' \<equiv> child_after (\<lambda>k. case x of None \<Rightarrow> [] | Some ch \<Rightarrow> remove1 p (mt_pipes k ch)) x'"

definition rm_pipe_ok :: "'p::linorder \<Rightarrow> bool \<Rightarrow> byte list \<Rightarrow> 'p mtrie \<Rightarrow> bool" where
  "rm_pipe_ok p u path t \<longleftrightarrow>
     (\<exists>t' cs. rm_pipe p u path t = Some (map ((@) path) cs, t') \<and> mtrie_wf t'
        \<and> (\<forall>k. mt_pipes k t' = remove1 p (mt_pipes k t)) \<and> sorted_wrt (<) cs \<and> set cs = hits p u t)"

definition rm_children_ok :: "'p::linorder \<Rightarrow> bool \<Rightarrow> byte list \<Rightarrow> nat \<Rightarrow> nat \<times> nat \<times> nat \<Rightarrow> 'p mtrie option list \<Rightarrow> bool" where
  "rm_children_ok p u path b st nx \<longleftrightarrow>
     (\<exists>nx' cs lv. rm_children p u path b st nx = Some (map ((@) path) cs, (lv, scan_bounds b nx' (snd st)), nx')
        \<and> lv + card (used b nx) = fst st + card (used b nx')
        \<and> list_all2 (after_rm p) nx nx'
        \<and> sorted_wrt (<) cs \<and> set cs = child_hits p u b nx)"

lemma child_hits_above:
  assumes "b + 1 + length nx \<le> 256" "k \<in> child_hits p u (b + 1) nx"
  shows "of_nat b # k' < k"
proof -
  obtain c ch k'' where k: "tb_slot c (Table (b + 1) 0 nx) = Some ch" "k = of_nat c # k''"
    using assms(2) by (auto simp: child_hits_iff)
  then have "b < c" "c < 256" using assms(1) by (auto simp: tb_slot_Table split: if_splits)
  then have "(of_nat b :: byte) < of_nat c" by (simp add: word_less_nat_alt unat_u8_of_nat)
  then show ?thesis by (simp add: k)
qed

lemma rm_children_step:
  assumes P: "rm_pipe_ok p u (path @ [of_nat b]) node" and wf: "mtrie_wf node"
    and Q: "\<And>calls node'. rm_pipe p u (path @ [of_nat b]) node = Some (calls, node') \<Longrightarrow>
      rm_children_ok p u path (b + 1)
        (if m_redundant node' then (lv - 1, mi, ma)
         else (lv, if b < mi then b else mi, if b > ma then b else ma)) nx"
    and len: "b + 1 + length nx \<le> 256" and lv: "lv > 0"
  shows "rm_children_ok p u path b (lv, mi, ma) (Some node # nx)"
proof -
  obtain node' cs where n: "rm_pipe p u (path @ [of_nat b]) node = Some (map ((@) (path @ [of_nat b])) cs, node')"
      "mtrie_wf node'" "\<And>k. mt_pipes k node' = remove1 p (mt_pipes k node)" "sorted_wrt (<) cs" "set cs = hits p u node"
    using P by (auto simp: rm_pipe_ok_def)
  define st where "st = (if m_redundant node' then (lv - 1, mi, ma)
     else (lv, if b < mi then b else mi, if b > ma then b else ma))"
  obtain nx' cs' lv' where c: "rm_children p u path (b + 1) st nx = Some (map ((@) path) cs', (lv', scan_bounds (b + 1) nx' (snd st)), nx')"
      "lv' + card (used (b + 1) nx) = fst st + card (used (b + 1) nx')" "list_all2 (after_rm p) nx nx'"
      "sorted_wrt (<) cs'" "set cs' = child_hits p u (b + 1) nx"
    using Q [OF n(1)] by (auto simp: rm_children_ok_def st_def)
  define x where "x = (if m_redundant node' then None else Some node')"
  define ds where "ds = map ((#) (of_nat b)) cs @ cs'"
  have calls: "map ((@) (path @ [of_nat b])) cs @ map ((@) path) cs' = map ((@) path) ds"
    by (simp add: ds_def)
  have bx: "b \<notin> used (b + 1) ys" for ys :: "'a mtrie option list" using used_range [of "b + 1" ys] by auto
  have "rm_children p u path b (lv, mi, ma) (Some node # nx)
      = Some (map ((@) path) ds, (lv', scan_bounds b (x # nx') (mi, ma)), x # nx')"
    using n(1) c(1) lv unfolding calls [symmetric] st_def x_def
    by (auto split: if_splits) (metis surj_pair)+
  moreover have "lv' + card (used b (Some node # nx)) = lv + card (used b (x # nx'))"
    using c(2) bx [of nx] bx [of nx'] lv by (simp add: used_Cons x_def st_def split: if_splits)
  moreover have "after_rm p (Some node) x"
    using n(2,3) m_redundant_iff [OF n(2)] by (auto simp: child_after_def x_def)
  moreover have "sorted_wrt (<) ds"
  proof -
    have "of_nat b # k < k'" if "k' \<in> set cs'" for k k' using child_hits_above [OF len] that c(5) by simp
    then show ?thesis using n(4) c(4) by (auto simp: ds_def sorted_wrt_append sorted_wrt_map)
  qed
  moreover have "set ds = child_hits p u b (Some node # nx)" using n(5) c(5) by (simp add: ds_def)
  ultimately show ?thesis using c(3) unfolding rm_children_ok_def by fastforce
qed

lemma list_all2_slots:
  assumes "list_all2 (after_rm p) nx nx'"
  shows "after_rm p (tb_slot c (Table mn lv nx)) (tb_slot c (Table mn lv' nx'))"
  using assms by (auto simp: tb_slot_Table list_all2_conv_all_nth child_after_def)

lemma rm_pipe_assemble:
  assumes wf: "mtrie_wf (MNode ps (Table mn lv nx))"
    and here: "rm_here p u path ps = (calls, ps')"
    and tb: "tb_ok tb'" "\<And>c. after_rm p (tb_slot c (Table mn lv nx)) (tb_slot c tb')"
    and cs: "sorted_wrt (<) cs" "set cs = child_hits p u mn nx"
    and res: "rm_pipe p u path (MNode ps (Table mn lv nx)) = Some (calls @ map ((@) path) cs, MNode ps' tb')"
  shows "rm_pipe_ok p u path (MNode ps (Table mn lv nx))"
proof -
  let ?t = "MNode ps (Table mn lv nx)"
  let ?h = "p \<in> set (case ps of None \<Rightarrow> [] | Some ps \<Rightarrow> ps) \<and> (u \<longrightarrow> ps = Some [p])"
  have ok: "pipes_ok ps" "tb_ok (Table mn lv nx)" using wf by (auto simp: mtrie_wf_MNode)
  have ps': "pipes_ok ps'" "(case ps' of None \<Rightarrow> [] | Some ps \<Rightarrow> ps) = remove1 p (mt_pipes [] ?t)"
      and calls: "calls = (if ?h then [path] else [])"
    using rm_here_eq [OF ok(1), of p u path] here by auto
  have "mtrie_wf (MNode ps' tb') \<and> (\<forall>k. mt_pipes k (MNode ps' tb') = remove1 p (mt_pipes k ?t))"
  proof (rule node_after [OF ps'(1) tb(1)])
    fix c :: nat assume "c < 256"
    then have "remove1 p (mt_pipes (of_nat c # k) ?t)
        = (case tb_slot c (Table mn lv nx) of None \<Rightarrow> [] | Some ch \<Rightarrow> remove1 p (mt_pipes k ch))" for k
      by (simp add: unat_u8_of_nat split: option.split)
    then show "child_after (\<lambda>k. remove1 p (mt_pipes (of_nat c # k) ?t)) (tb_slot c tb')"
      using tb(2) [of c] by simp
  qed (use ps'(2) in simp)
  moreover define ds where "ds = (if ?h then [[]] else []) @ cs"
  moreover have "[] < k" if "k \<in> set cs" for k using that cs(2) by (auto simp: child_hits_iff)
  then have "sorted_wrt (<) ds" using cs(1) by (auto simp: ds_def)
  moreover have "set ds = hits p u ?t" using cs(2) hits_node [OF ok(2)] by (auto simp: ds_def)
  moreover have "calls @ map ((@) path) cs = map ((@) path) ds" by (simp add: calls ds_def)
  ultimately show ?thesis using res unfolding rm_pipe_ok_def by metis
qed

lemma rm_pipe_correct:
  "mtrie_wf t \<Longrightarrow> rm_pipe_ok p u path t"
  "(\<And>ch. Some ch \<in> set nx \<Longrightarrow> mtrie_wf ch) \<Longrightarrow> b + length nx \<le> 256 \<Longrightarrow> card (used b nx) \<le> fst st
     \<Longrightarrow> rm_children_ok p u path b st nx"
proof (induction p u path t and p u path b st nx rule: rm_pipe_rm_children.induct)
  case (1 p u path ps mn lv)
  obtain calls ps' where h: "rm_here p u path ps = (calls, ps')" by force
  from 1 have "tb_ok (Table mn lv ([] :: 'a mtrie option list))" by (simp add: mtrie_wf_MNode)
  then show ?case
    by (intro rm_pipe_assemble [OF 1 h, where cs = "[]" and tb' = "Table mn lv []"])
      (simp_all add: h child_after_def)
next
  case (2 p u path ps mn lv)
  then have "tb_ok (Table mn lv [None :: 'a mtrie option])" by (simp add: mtrie_wf_MNode)
  then show ?case by (simp add: tb_ok_def tb_slot_Table)
next
  case (3 p u path ps mn lv node)
  obtain calls ps' where h: "rm_here p u path ps = (calls, ps')" by force
  have ok: "tb_ok (Table mn lv [Some node])" "mtrie_wf node"
    using 3(2) tb_slot_Cons [of mn mn lv "Some node" "[]"] by (auto simp: mtrie_wf_MNode)
  then have mn: "mn + 1 \<le> 256" "lv = 1"
    using card_used [of mn "[Some node]"] by (auto simp: tb_ok_def used_def tb_slot_Table)
  obtain node' cs where n: "rm_pipe p u (path @ [of_nat mn]) node = Some (map ((@) (path @ [of_nat mn])) cs, node')"
      "mtrie_wf node'" "\<And>k. mt_pipes k node' = remove1 p (mt_pipes k node)" "sorted_wrt (<) cs" "set cs = hits p u node"
    using 3(1) [OF h [symmetric] ok(2)] by (auto simp: rm_pipe_ok_def)
  define tb' where "tb' = (if m_redundant node' then Table mn 0 [] else Table mn lv [Some node'])"
  have "map ((@) (path @ [of_nat mn])) cs = map ((@) path) (map ((#) (of_nat mn)) cs)" by simp
  with n(1) mn have res: "rm_pipe p u path (MNode ps (Table mn lv [Some node]))
      = Some (calls @ map ((@) path) (map ((#) (of_nat mn)) cs), MNode ps' tb')"
    by (simp add: h tb'_def)
  show ?case
  proof (rule rm_pipe_assemble [OF 3(2) h _ _ _ _ res])
    show "tb_ok tb'" using mn by (auto simp: tb'_def intro: tb_ok_short [simplified])
    show "after_rm p (tb_slot c (Table mn lv [Some node])) (tb_slot c tb')" for c
      using n(2,3) m_redundant_iff [OF n(2)] by (auto simp: tb'_def child_after_def tb_slot_Table)
  qed (use n(4,5) in \<open>auto simp: sorted_wrt_map\<close>)
next
  case (4 p u path ps mn lv x y nx)
  obtain calls ps' where h: "rm_here p u path ps = (calls, ps')" by force
  let ?nx = "x # y # nx"
  have ok: "tb_ok (Table mn lv ?nx)" and ch: "\<And>c ch. tb_slot c (Table mn lv ?nx) = Some ch \<Longrightarrow> mtrie_wf ch"
    using 4(2) by (auto simp: mtrie_wf_MNode)
  have len: "mn + length ?nx \<le> 256" and lv: "lv = card (used mn ?nx)"
    using ok by (auto simp: tb_ok_def used_def tb_slot_Table)
  have wf: "mtrie_wf ch" if elem: "Some ch \<in> set ?nx" for ch
  proof -
    obtain i where "i < length ?nx" "?nx ! i = Some ch" using elem by (metis in_set_conv_nth)
    then show ?thesis using ch [of "mn + i" ch] by (simp add: tb_slot_Table)
  qed
  have "rm_children_ok p u path mn (lv, mn + length ?nx - 1, mn) ?nx"
    by (rule 4(1) [OF h [symmetric]]) (use wf len lv in auto)
  then obtain nx' cs lv' where c: "rm_children p u path mn (lv, mn + length ?nx - 1, mn) ?nx =
        Some (map ((@) path) cs, (lv', scan_bounds mn nx' (mn + length ?nx - 1, mn)), nx')"
      "lv' + card (used mn ?nx) = lv + card (used mn nx')" "list_all2 (after_rm p) ?nx nx'"
      "sorted_wrt (<) cs" "set cs = child_hits p u mn ?nx"
    by (auto simp: rm_children_ok_def)
  have len': "length nx' = length ?nx" using list_all2_lengthD [OF c(3)] by simp
  obtain mi ma where mm: "scan_bounds mn nx' (mn + length ?nx - 1, mn) = (mi, ma)" by force
  have "1 < length nx'" "mn + length nx' \<le> 256" "lv' = card (used mn nx')"
    "scan_bounds mn nx' (mn + length nx' - 1, mn) = (mi, ma)"
    using len len' c(2) lv mm by simp_all
  from tb_compact_correct [OF this] obtain tb' where tb': "tb_compact mi ma (Table mn lv' nx') = Some tb'"
      "tb_ok tb'" "\<And>c. tb_slot c tb' = tb_slot c (Table mn lv' nx')" by blast
  show ?case
  proof (rule rm_pipe_assemble [OF 4(2) h tb'(2) _ c(4,5)])
    show "after_rm p (tb_slot z (Table mn lv ?nx)) (tb_slot z tb')" for z
      using list_all2_slots [OF c(3)] tb'(3) by simp
    show "rm_pipe p u path (MNode ps (Table mn lv ?nx)) = Some (calls @ map ((@) path) cs, MNode ps' tb')"
      using c(1) mm tb'(1) by (simp add: h)
  qed
next
  case (5 p u path b st)
  show ?case by (simp add: rm_children_ok_def)
next
  case (6 p u path b st nx)
  then have "rm_children_ok p u path (b + 1) st nx" by (simp add: used_Cons)
  then obtain nx' cs lv where c: "rm_children p u path (b + 1) st nx = Some (map ((@) path) cs, (lv, scan_bounds (b + 1) nx' (snd st)), nx')"
      "lv + card (used (b + 1) nx) = fst st + card (used (b + 1) nx')" "list_all2 (after_rm p) nx nx'"
      "sorted_wrt (<) cs" "set cs = child_hits p u (b + 1) nx"
    by (auto simp: rm_children_ok_def)
  then have "rm_children p u path b st (None # nx) = Some (map ((@) path) cs, (lv, scan_bounds b (None # nx') (snd st)), None # nx')"
    by simp
  moreover have "list_all2 (after_rm p) (None # nx) (None # nx')" using c(3) by (simp add: child_after_def)
  ultimately show ?case using c(2,4,5) unfolding rm_children_ok_def by (fastforce simp: used_Cons)
next
  case (7 p u path b lv mi ma node nx)
  have "b \<notin> used (b + 1) nx" using used_range [of "b + 1" nx] by auto
  then have lv: "card (used (b + 1) nx) + 1 \<le> lv" using 7(6) by (simp add: used_Cons)
  have P: "rm_pipe_ok p u (path @ [of_nat b]) node" using 7(1,4) by simp
  show ?case
  proof (rule rm_children_step [OF P])
    show "mtrie_wf node" using 7(4) by simp
    show "b + 1 + length nx \<le> 256" using 7(5) by simp
    show "lv > 0" using lv by simp
    fix calls node'
    assume r: "rm_pipe p u (path @ [of_nat b]) node = Some (calls, node')"
    show "rm_children_ok p u path (b + 1) (if m_redundant node' then (lv - 1, mi, ma)
         else (lv, if b < mi then b else mi, if b > ma then b else ma)) nx"
    proof (cases "m_redundant node'")
      case True
      then show ?thesis using 7(2) [OF r refl True] 7(4,5) lv by simp
    next
      case False
      then show ?thesis using 7(3) [OF r refl False] 7(4,5) lv by simp
    qed
  qed
qed


subsection \<open>Matching and visiting\<close>

lemma mtrie_match_pipes:
  "mtrie_match d t = concat (map (\<lambda>i. mt_pipes (take i d) t) [0..<Suc (length d)])"
proof (induction d arbitrary: t)
  case (Cons c cs)
  have "map (\<lambda>i. mt_pipes (take i (c # cs)) t) [0..<Suc (length (c # cs))]
      = mt_pipes [] t # map (\<lambda>i. mt_pipes (c # take i cs) t) [0..<Suc (length cs)]"
    by (simp add: map_upt_Suc del: upt_Suc)
  with Cons.IH show ?case
    by (cases "m_slot c t") (simp_all add: mtrie_match.simps [of "c # cs"] del: upt_Suc)
qed (simp add: mtrie_match.simps)

text \<open>Every value is visited, once for each prefix it is stored under.\<close>

lemma live_children_set: "ch \<in> set (live_children t) \<longleftrightarrow> (\<exists>c. tb_slot c (m_table t) = Some ch)"
proof -
  obtain ps mn lv nx where t: "t = MNode ps (Table mn lv nx)" by (metis mtrie.exhaust table.exhaust)
  have "(\<exists>c. tb_slot c (Table mn lv nx) = Some ch) \<longleftrightarrow> Some ch \<in> set nx"
  proof
    assume "Some ch \<in> set nx"
    then obtain i where "i < length nx" "nx ! i = Some ch" by (auto simp: in_set_conv_nth)
    then have "tb_slot (mn + i) (Table mn lv nx) = Some ch" by (simp add: tb_slot_Table)
    then show "\<exists>c. tb_slot c (Table mn lv nx) = Some ch" by blast
  next
    assume "\<exists>c. tb_slot c (Table mn lv nx) = Some ch"
    then obtain c where "mn \<le> c" "c < mn + length nx" "nx ! (c - mn) = Some ch"
      by (auto simp: tb_slot_Table split: if_splits)
    then have "c - mn < length nx" "nx ! (c - mn) = Some ch" by auto
    then show "Some ch \<in> set nx" by (metis nth_mem)
  qed
  moreover have "set (List.map_filter id nx) = {y. Some y \<in> set nx}"
    by (force simp: List.map_filter_def)
  ultimately show ?thesis by (simp add: t live_children_def)
qed

lemma visit_values_set:
  "(\<And>t. t \<in> set ts \<Longrightarrow> mtrie_wf t) \<Longrightarrow> set (visit_values ts) = (\<Union>t \<in> set ts. \<Union>k. set (mt_pipes k t))"
proof (induction ts rule: visit_values.induct)
  case (2 node stack)
  obtain ps tb where n: "node = MNode ps tb" by (cases node)
  have wf: "mtrie_wf node" "tb_ok tb" "\<And>c ch. tb_slot c tb = Some ch \<Longrightarrow> mtrie_wf ch"
    using "2.prems" [of node] by (auto simp: n mtrie_wf_MNode)
  have IH: "set (visit_values (live_children node @ stack)) = (\<Union>t \<in> set (live_children node @ stack). \<Union>k. set (mt_pipes k t))"
  proof (rule "2.IH")
    fix t assume "t \<in> set (live_children node @ stack)"
    then show "mtrie_wf t" using wf(3) "2.prems" by (auto simp: live_children_set n)
  qed
  have "(\<Union>k. set (mt_pipes k node)) = set (mt_pipes [] node) \<union> (\<Union>t \<in> set (live_children node). \<Union>k. set (mt_pipes k t))"
    (is "?L = ?R")
  proof
    show "?L \<subseteq> ?R"
    proof
      fix x assume "x \<in> ?L"
      then obtain k where k: "x \<in> set (mt_pipes k node)" by blast
      then show "x \<in> ?R"
      proof (cases k)
        case (Cons c cs)
        with k obtain ch where "tb_slot (unat c) tb = Some ch" "x \<in> set (mt_pipes cs ch)"
          by (cases "tb_slot (unat c) tb") (auto simp: n)
        moreover from this have "ch \<in> set (live_children node)" by (auto simp: live_children_set n)
        ultimately show ?thesis by blast
      qed simp
    qed
    have "x \<in> ?L" if "tb_slot c tb = Some ch" "x \<in> set (mt_pipes k ch)" for c ch k x
      using slot_byte [OF wf(2) that(1)] that(2) by (intro UN_I [of "of_nat c # k"]) (auto simp: n)
    then show "?R \<subseteq> ?L" by (auto simp: live_children_set n simp del: mt_pipes.simps)
  qed
  with IH show ?case by auto
qed simp

subsection \<open>The interface of a subscription relation\<close>

text \<open>
  What the multi-trie promises to a publisher: it holds a set of (prefix, pipe) pairs. Adding says
  whether the prefix is new, removing whether the pipe was there and was the last one, removing a
  pipe reports each prefix it leaves in lexicographic order, and matching calls the pipes of every
  prefix of the data, shortest prefix first.
\<close>

locale subscription_store =
  fixes inv :: "'t \<Rightarrow> bool"
    and rel :: "'t \<Rightarrow> (byte list \<times> 'p::linorder) set"
    and empty :: 't
    and add :: "byte list \<Rightarrow> 'p \<Rightarrow> 't \<Rightarrow> bool \<times> 't"
    and rm :: "byte list \<Rightarrow> 'p \<Rightarrow> 't \<Rightarrow> (rm_result \<times> 't) option"
    and rm_all :: "'p \<Rightarrow> bool \<Rightarrow> 't \<Rightarrow> (byte list list \<times> 't) option"
    and matching :: "byte list \<Rightarrow> 't \<Rightarrow> 'p list"
  assumes inv_empty: "inv empty" and rel_empty: "rel empty = {}"
    and rel_finite: "inv t \<Longrightarrow> finite (rel t)"
    and add_law: "inv t \<Longrightarrow> add k p t = (new, t') \<Longrightarrow> inv t' \<and> rel t' = insert (k, p) (rel t)
        \<and> new = (k \<notin> Domain (rel t))"
    and rm_law: "inv t \<Longrightarrow> \<exists>t'. rm k p t = Some
          (if (k, p) \<notin> rel t then not_found else if rel t `` {k} = {p} then last_value_removed else values_remain, t')
        \<and> inv t' \<and> rel t' = rel t - {(k, p)}"
    and rm_all_law: "inv t \<Longrightarrow> \<exists>t'. rm_all p u t = Some
          (sorted_list_of_set {k. (k, p) \<in> rel t \<and> (u \<longrightarrow> rel t `` {k} = {p})}, t')
        \<and> inv t' \<and> rel t' = {kq \<in> rel t. snd kq \<noteq> p}"
    and match_law: "inv t \<Longrightarrow>
        matching d t = concat (map (\<lambda>i. sorted_list_of_set (rel t `` {take i d})) [0..<Suc (length d)])"

text \<open>A sequence of calls, run on a store and on a relation.\<close>

datatype 'p mt_op = MAdd "byte list" 'p | MRm "byte list" 'p | MRmAll 'p bool | MMatch "byte list"

datatype 'p mt_out = OAdd bool | ORm rm_result | OCalls "byte list list" | OMatch "'p list"

fun call_store :: "(byte list \<Rightarrow> 'p \<Rightarrow> 't \<Rightarrow> bool \<times> 't) \<Rightarrow> (byte list \<Rightarrow> 'p \<Rightarrow> 't \<Rightarrow> (rm_result \<times> 't) option)
    \<Rightarrow> ('p \<Rightarrow> bool \<Rightarrow> 't \<Rightarrow> (byte list list \<times> 't) option) \<Rightarrow> (byte list \<Rightarrow> 't \<Rightarrow> 'p list)
    \<Rightarrow> 'p mt_op \<Rightarrow> 't \<Rightarrow> ('p mt_out \<times> 't) option" where
  "call_store add rm rm_all matching (MAdd k p) t = (case add k p t of (b, t) \<Rightarrow> Some (OAdd b, t))"
| "call_store add rm rm_all matching (MRm k p) t = map_option (\<lambda>(r, t). (ORm r, t)) (rm k p t)"
| "call_store add rm rm_all matching (MRmAll p u) t = map_option (\<lambda>(c, t). (OCalls c, t)) (rm_all p u t)"
| "call_store add rm rm_all matching (MMatch d) t = Some (OMatch (matching d t), t)"

fun call_spec :: "'p::linorder mt_op \<Rightarrow> (byte list \<times> 'p) set \<Rightarrow> 'p mt_out \<times> (byte list \<times> 'p) set" where
  "call_spec (MAdd k p) R = (OAdd (k \<notin> Domain R), insert (k, p) R)"
| "call_spec (MRm k p) R =
     (ORm (if (k, p) \<notin> R then not_found else if R `` {k} = {p} then last_value_removed else values_remain), R - {(k, p)})"
| "call_spec (MRmAll p u) R =
     (OCalls (sorted_list_of_set {k. (k, p) \<in> R \<and> (u \<longrightarrow> R `` {k} = {p})}), {kq \<in> R. snd kq \<noteq> p})"
| "call_spec (MMatch d) R = (OMatch (concat (map (\<lambda>i. sorted_list_of_set (R `` {take i d})) [0..<Suc (length d)])), R)"

context subscription_store
begin

lemma call_refines:
  assumes "inv t"
  shows "\<exists>t'. call_store add rm rm_all matching c t = Some (fst (call_spec c (rel t)), t') \<and> inv t'
     \<and> rel t' = snd (call_spec c (rel t))"
proof (cases c)
  case (MAdd k p)
  obtain new t' where "add k p t = (new, t')" by force
  with add_law [OF assms this] MAdd show ?thesis by simp
next
  case (MRm k p)
  with rm_law [OF assms, of k p] show ?thesis by auto
next
  case (MRmAll p u)
  with rm_all_law [OF assms, of p u] show ?thesis by auto
next
  case (MMatch d)
  with match_law [OF assms, of d] assms show ?thesis by simp
qed

lemma run_from_empty:
  "\<exists>t. run_calls (call_store add rm rm_all matching) cs empty = Some (fst (run_spec call_spec cs {}), t)
     \<and> inv t \<and> rel t = snd (run_spec call_spec cs {})"
  using run_simulates [of "\<lambda>t R. inv t \<and> rel t = R" "call_store add rm rm_all matching" call_spec empty "{}" cs]
    call_refines inv_empty rel_empty by (metis (no_types, lifting))

end

subsection \<open>The multi-trie is a subscription relation\<close>

definition mt_rel :: "'p mtrie \<Rightarrow> (byte list \<times> 'p) set" where
  "mt_rel t = {(k, p). p \<in> set (mt_pipes k t)}"

lemma mt_rel_at [simp]: "mt_rel t `` {k} = set (mt_pipes k t)" "(k, p) \<in> mt_rel t \<longleftrightarrow> p \<in> set (mt_pipes k t)"
  by (auto simp: mt_rel_def)

lemma mt_rel_Domain: "k \<in> Domain (mt_rel t) \<longleftrightarrow> mt_pipes k t \<noteq> []"
  by (cases "mt_pipes k t") (auto simp: mt_rel_def Domain_iff)

lemma mt_keys_finite: "mtrie_wf t \<Longrightarrow> finite {k. mt_pipes k t \<noteq> []}"
proof (induction rule: mtrie_wf.induct)
  case (1 ps tb)
  define F where "F = (\<lambda>c :: byte. case tb_slot (unat c) tb of None \<Rightarrow> {} | Some ch \<Rightarrow> {k. mt_pipes k ch \<noteq> []})"
  have "finite (F c)" for c using 1(3) by (auto simp: F_def split: option.split)
  then have "finite (insert [] (\<Union>c. (#) c ` F c))" by simp
  moreover have "{k. mt_pipes k (MNode ps tb) \<noteq> []} \<subseteq> insert [] (\<Union>c. (#) c ` F c)"
  proof
    fix k assume k: "k \<in> {k. mt_pipes k (MNode ps tb) \<noteq> []}"
    then show "k \<in> insert [] (\<Union>c. (#) c ` F c)" by (cases k) (auto simp: F_def split: option.splits)
  qed
  ultimately show ?case by (rule rev_finite_subset)
qed

lemma mt_rel_finite: "mtrie_wf t \<Longrightarrow> finite (mt_rel t)"
proof -
  assume "mtrie_wf t"
  then have "finite (Sigma {k. mt_pipes k t \<noteq> []} (\<lambda>k. set (mt_pipes k t)))"
    by (intro finite_SigmaI mt_keys_finite finite_set)
  moreover have "mt_rel t \<subseteq> Sigma {k. mt_pipes k t \<noteq> []} (\<lambda>k. set (mt_pipes k t))"
    by (force simp: mt_rel_def)
  ultimately show ?thesis by (rule rev_finite_subset)
qed

lemma single_set: "distinct ps \<Longrightarrow> set ps = {p} \<longleftrightarrow> ps = [p]"
proof
  assume "distinct ps" "set ps = {p}"
  then show "ps = [p]" by (metis card_1_singleton_iff distinct_card length_0_conv length_Suc_conv list.set_intros(1)
      singleton_iff One_nat_def)
qed simp

interpretation sub_mtrie: subscription_store mtrie_wf mt_rel mtrie_empty mtrie_add mtrie_rm
  "\<lambda>p u. rm_pipe p u []" mtrie_match
proof (unfold_locales, goal_cases)
  case (4 t k p new t')
  then show ?case
    using mtrie_add_pipes [OF 4] by (auto simp: mt_rel_Domain mt_rel_def pipes_insert_def set_insort_key split: if_splits)
next
  case (5 t k p)
  obtain t' where t': "mtrie_rm k p t = Some (rm_answer p (mt_pipes k t), t')" "mtrie_wf t'"
      "\<And>q. mt_pipes q t' = (if q = k then remove1 p (mt_pipes q t) else mt_pipes q t)"
    using mtrie_rm_pipes [OF 5, of k p] by blast
  have "distinct (mt_pipes q t)" for q using mt_pipes_ok [OF 5] by blast
  then show ?case using t' by (auto simp: rm_answer_def single_set mt_rel_def set_remove1_eq split: if_splits)
next
  case (6 t p u)
  obtain t' cs where t': "rm_pipe p u [] t = Some (map ((@) []) cs, t')" "mtrie_wf t'"
      "\<And>k. mt_pipes k t' = remove1 p (mt_pipes k t)" "sorted_wrt (<) cs" "set cs = hits p u t"
    using rm_pipe_correct(1) [OF 6, of p u "[]"] by (auto simp: rm_pipe_ok_def)
  have d: "distinct (mt_pipes q t)" for q using mt_pipes_ok [OF 6] by blast
  have "cs = sorted_list_of_set (set cs)"
    using t'(4) by (simp add: sorted_list_of_set.idem_if_sorted_distinct strict_sorted_iff)
  moreover have "map ((@) []) cs = cs" by (induction cs) auto
  ultimately show ?case using t'(1,2,3) by (auto simp: t'(5) hits_def single_set [OF d] mt_rel_def set_remove1_eq [OF d])
next
  case (7 t d)
  have "sorted_list_of_set (mt_rel t `` {k}) = mt_pipes k t" for k
    using mt_pipes_ok [OF 7] by (simp add: sorted_list_of_set.idem_if_sorted_distinct)
  then show ?case by (simp add: mtrie_match_pipes del: upt_Suc)
qed (simp_all add: mtrie_wf_empty mt_rel_finite, simp add: mt_rel_def)

text \<open>C12: For every sequence of calls the multi-trie behaves as a set of (prefix, pipe) pairs: no assertion
  fails, \<open>add\<close> and \<open>rm\<close> report exactly whether the prefix was new, the pipe there and the last
  one, removing a pipe calls back with exactly the prefixes it leaves, in order, and \<open>match\<close> signals
  exactly the pipes whose prefix starts the data.\<close>

theorem mtrie_refines_relation:
  "\<exists>t. run_calls (call_store mtrie_add mtrie_rm (\<lambda>p u. rm_pipe p u []) mtrie_match) cs mtrie_empty
         = Some (fst (run_spec call_spec cs {}), t)
     \<and> set (visit_values [t]) = Range (snd (run_spec call_spec cs {}))"
proof -
  obtain t where t: "run_calls (call_store mtrie_add mtrie_rm (\<lambda>p u. rm_pipe p u []) mtrie_match) cs mtrie_empty
         = Some (fst (run_spec call_spec cs {}), t)" "mtrie_wf t" "mt_rel t = snd (run_spec call_spec cs {})"
    using sub_mtrie.run_from_empty [of cs] by blast
  have "set (visit_values [t]) = Range (mt_rel t)"
    using visit_values_set [of "[t]"] t(2) by (auto simp: mt_rel_def)
  with t show ?thesis by auto
qed

subsection \<open>The counter of prefixes\<close>

text \<open>The number of prefixes that lose their last pipe in \<open>rm (pipe)\<close> calls.\<close>

fun dropped :: "'p::linorder mt_op list \<Rightarrow> (byte list \<times> 'p) set \<Rightarrow> nat" where
  "dropped [] R = 0"
| "dropped (c # cs) R =
     (case c of MRmAll p u \<Rightarrow> card {k. R `` {k} = {p}} | _ \<Rightarrow> 0) + dropped cs (snd (call_spec c R))"

abbreviation call_root :: "'p::linorder mt_op \<Rightarrow> 'p mtrie_root \<Rightarrow> ('p mt_out \<times> 'p mtrie_root) option" where
  "call_root \<equiv> call_store mt_add mt_rm mt_rm_pipe mt_match"

definition counter_ok :: "nat \<Rightarrow> 'p::linorder mtrie_root \<Rightarrow> (byte list \<times> 'p) set \<Rightarrow> bool" where
  "counter_ok n s R \<longleftrightarrow> mtrie_wf (root s) \<and> mt_rel (root s) = R \<and> num_prefixes s = of_nat (card (Domain R) + n)"

lemma Domain_rm_pipe:
  assumes "finite R"
  shows "card (Domain {kq \<in> R. snd kq \<noteq> p}) + card {k. R `` {k} = {p}} = card (Domain R)"
proof -
  define A B where "A = Domain {kq \<in> R. snd kq \<noteq> p}" and "B = {k. R `` {k} = {p}}"
  have D: "Domain R = A \<union> B" unfolding A_def B_def
  proof
    show "Domain R \<subseteq> Domain {kq \<in> R. snd kq \<noteq> p} \<union> {k. R `` {k} = {p}}" by fastforce
    show "Domain {kq \<in> R. snd kq \<noteq> p} \<union> {k. R `` {k} = {p}} \<subseteq> Domain R" by fastforce
  qed
  have dis: "A \<inter> B = {}" unfolding A_def B_def by fastforce
  have "finite (A \<union> B)" using finite_Domain [OF assms] by (simp add: D)
  then show ?thesis using dis by (simp add: D card_Un_disjoint flip: A_def B_def)
qed

lemma Domain_rm:
  assumes "finite R" "(k, p) \<in> R"
  shows "card (Domain (R - {(k, p)})) = card (Domain R) - (if R `` {k} = {p} then 1 else 0)"
proof -
  have "Domain (R - {(k, p)}) = (if R `` {k} = {p} then Domain R - {k} else Domain R)"
    using assms(2) by (auto simp: Domain_iff)
  moreover have "k \<in> Domain R" using assms(2) by blast
  ultimately show ?thesis using finite_Domain [OF assms(1)] by simp
qed

lemma call_root_counter:
  assumes ok: "counter_ok n s R" and small: "card (Domain R) + n < 2 ^ 32"
  shows "\<exists>s'. call_root c s = Some (fst (call_spec c R), s')
     \<and> counter_ok (n + (case c of MRmAll p u \<Rightarrow> card {k. R `` {k} = {p}} | _ \<Rightarrow> 0)) s' (snd (call_spec c R))"
proof -
  have wf: "mtrie_wf (root s)" and rel: "mt_rel (root s) = R" and num: "num_prefixes s = of_nat (card (Domain R) + n)"
    using ok by (auto simp: counter_ok_def)
  have fin: "finite R" "finite (Domain R)" using mt_rel_finite [OF wf] rel finite_Domain by auto
  show ?thesis
  proof (cases c)
    case (MAdd k p)
    obtain new t where t: "mtrie_add k p (root s) = (new, t)" by force
    note law = sub_mtrie.add_law [OF wf t, unfolded rel]
    have "card (Domain (insert (k, p) R)) = card (Domain R) + (if new then 1 else 0)"
      using law fin(2) by (simp add: card_insert_if)
    with law show ?thesis by (auto simp: MAdd mt_add_def t counter_ok_def num)
  next
    case (MRm k p)
    obtain t where t: "mtrie_rm k p (root s) = Some
        (if (k, p) \<notin> R then not_found else if R `` {k} = {p} then last_value_removed else values_remain, t)"
        "mtrie_wf t" "mt_rel t = R - {(k, p)}"
      using sub_mtrie.rm_law [OF wf, of k p, unfolded rel] by blast
    have pos: "card (Domain R) > 0" if "(k, p) \<in> R" using that fin(2) by (auto simp: card_gt_0_iff)
    have gt: "num_prefixes s > 0" if "(k, p) \<in> R"
      using pos [OF that] small by (simp add: num word_less_nat_alt unat_u32_of_nat del: of_nat_add)
    show ?thesis
    proof (cases "(k, p) \<in> R")
      case True
      have "card (Domain R) = Suc (card (Domain R) - 1)" using pos [OF True] by simp
      then have "(of_nat (card (Domain R) + n) :: u32) - 1 = of_nat (card (Domain R) - 1 + n)"
        by (metis add_Suc add_diff_cancel_left' of_nat_Suc)
      with True t gt [OF True] Domain_rm [OF fin(1) True] show ?thesis
        by (auto simp: MRm mt_rm_def counter_ok_def num)
    next
      case False
      with t show ?thesis by (auto simp: MRm mt_rm_def counter_ok_def num)
    qed
  next
    case (MRmAll p u)
    obtain t where "rm_pipe p u [] (root s) = Some (sorted_list_of_set {k. (k, p) \<in> R \<and> (u \<longrightarrow> R `` {k} = {p})}, t)"
        "mtrie_wf t" "mt_rel t = {kq \<in> R. snd kq \<noteq> p}"
      using sub_mtrie.rm_all_law [OF wf, of p u, unfolded rel] by blast
    moreover have "card (Domain R) + n = card (Domain {kq \<in> R. snd kq \<noteq> p}) + (n + card {k. R `` {k} = {p}})"
      using Domain_rm_pipe [OF fin(1), of p] by simp
    ultimately show ?thesis by (simp add: MRmAll mt_rm_pipe_def counter_ok_def num)
  next
    case (MMatch d)
    with sub_mtrie.match_law [OF wf, of d, unfolded rel] ok show ?thesis by (simp add: mt_match_def)
  qed
qed

lemma spec_size:
  assumes "finite R"
  shows "finite (snd (call_spec c R))"
    and "card (Domain (snd (call_spec c R))) + (case c of MRmAll p u \<Rightarrow> card {k. R `` {k} = {p}} | _ \<Rightarrow> 0)
      \<le> Suc (card (Domain R))"
proof -
  show "finite (snd (call_spec c R))" using assms by (cases c) auto
  have "card (Domain R') \<le> card (Domain R)" if "R' \<subseteq> R" for R'
    using that assms by (intro card_mono finite_Domain Domain_mono)
  then show "card (Domain (snd (call_spec c R))) + (case c of MRmAll p u \<Rightarrow> card {k. R `` {k} = {p}} | _ \<Rightarrow> 0)
      \<le> Suc (card (Domain R))"
    using Domain_rm_pipe [OF assms] finite_Domain [OF assms]
    by (cases c) (auto simp: card_insert_if le_SucI)
qed

lemma counter_run:
  "counter_ok n s R \<Longrightarrow> card (Domain R) + n + length cs < 2 ^ 32 \<Longrightarrow>
     \<exists>s'. run_calls call_root cs s = Some (fst (run_spec call_spec cs R), s')
       \<and> counter_ok (n + dropped cs R) s' (snd (run_spec call_spec cs R))"
proof (induction cs arbitrary: n s R)
  case (Cons c cs)
  define d where "d = (case c of MRmAll p u \<Rightarrow> card {k. R `` {k} = {p}} | _ \<Rightarrow> 0)"
  obtain s1 where s1: "call_root c s = Some (fst (call_spec c R), s1)" "counter_ok (n + d) s1 (snd (call_spec c R))"
    using call_root_counter [OF Cons.prems(1), of c] Cons.prems(2) unfolding d_def by auto
  have "finite R" using Cons.prems(1) mt_rel_finite by (auto simp: counter_ok_def)
  from spec_size(2) [OF this, of c] Cons.prems(2)
  have "card (Domain (snd (call_spec c R))) + (n + d) + length cs < 2 ^ 32" by (simp add: d_def)
  from Cons.IH [OF s1(2) this] obtain s' where
      "run_calls call_root cs s1 = Some (fst (run_spec call_spec cs (snd (call_spec c R))), s')"
      "counter_ok (n + d + dropped cs (snd (call_spec c R))) s' (snd (run_spec call_spec cs (snd (call_spec c R))))"
    by blast
  with s1(1) show ?case by (cases "call_spec c R") (auto simp: d_def add.assoc split: prod.split)
qed simp

text \<open>C13: After any run of fewer than $2^{32}$ calls, \<open>num_prefixes\<close> is the number of stored prefixes plus
  the number of prefixes that have lost their last pipe in a removal of a pipe: that removal deletes
  the entry without counting it down, so the counter overstates what is stored.\<close>

theorem num_prefixes_drift:
  assumes "length cs < 2 ^ 32"
  shows "\<exists>s. run_calls call_root cs mt_empty = Some (fst (run_spec call_spec cs {}), s)
     \<and> num_prefixes s = of_nat (card (Domain (snd (run_spec call_spec cs {}))) + dropped cs {})"
proof -
  have "counter_ok 0 mt_empty {}"
    by (auto simp: counter_ok_def mt_empty_def mtrie_wf_empty sub_mtrie.rel_empty)
  from counter_run [OF this, of cs] assms show ?thesis by (auto simp: counter_ok_def)
qed

theorem num_prefixes_drift_witness:
  "\<exists>s. run_calls call_root [MAdd [1, 2] (7 :: nat), MRmAll 7 False] mt_empty = Some ([OAdd True, OCalls [[1, 2]]], s)
     \<and> num_prefixes s = 1 \<and> mt_visit s = []"
proof -
  let ?cs = "[MAdd [1, 2] (7 :: nat), MRmAll 7 False]"
  obtain s where s: "run_calls call_root ?cs mt_empty = Some (fst (run_spec call_spec ?cs {}), s)"
    using num_prefixes_drift [of ?cs] by auto
  have "run_calls call_root ?cs mt_empty = Some ([OAdd True, OCalls [[1, 2]]], \<lparr>num_prefixes = 1, root = MNode None (Table 1 0 [])\<rparr>)"
    by code_simp
  with s show ?thesis by (auto simp: mt_visit_def live_children_def List.map_filter_simps)
qed

end
