(* ===== verification/Auto_Hwm.thy ===== *)
theory Auto_Hwm
  imports Zmp_Metadata
begin

section \<open>The automatic high water mark policy\<close>

text \<open>
  Models \<open>core/auto_hwm_policy.cpp\<close>: from the memory of the host and the number of queues of a
  context, a byte budget is resolved, every automatic direction of a queue gets the minimum of its
  role, and what is left is handed out by water-filling up to the maximum of the role. All
  quantities are 64 bit words; the sums saturate and record an overflow.
\<close>

subsection \<open>Profiles and roles\<close>

abbreviation PROFILE_COMPACT :: int where "PROFILE_COMPACT \<equiv> 0"
abbreviation PROFILE_LOW_LATENCY :: int where "PROFILE_LOW_LATENCY \<equiv> 1"
abbreviation PROFILE_BALANCED :: int where "PROFILE_BALANCED \<equiv> 2"
abbreviation PROFILE_THROUGHPUT :: int where "PROFILE_THROUGHPUT \<equiv> 3"

definition kib :: u64 where "kib = 1024"
definition mib :: u64 where "mib = 1024 * kib"

record profile_budget =
  pb_percent :: u64
  pb_fixed_cap :: u64
  pb_data_minimum :: u64
  pb_data_maximum :: u64
  pb_stream_minimum :: u64
  pb_stream_maximum :: u64

datatype auto_hwm_role =
    auto_hwm_role_none | auto_hwm_role_control | auto_hwm_role_routed | auto_hwm_role_fanout
  | auto_hwm_role_recv_ingress | auto_hwm_role_connection_data | auto_hwm_role_peer_queue
  | auto_hwm_role_stream

datatype auto_hwm_policy_class =
    auto_hwm_policy_none | auto_hwm_policy_fanout | auto_hwm_policy_connection_data
  | auto_hwm_policy_recv_ingress | auto_hwm_policy_routed | auto_hwm_policy_peer_queue
  | auto_hwm_policy_stream | auto_hwm_policy_control

definition auto_hwm_valid_profile :: "int \<Rightarrow> bool" where
  "auto_hwm_valid_profile p \<longleftrightarrow>
     p = PROFILE_COMPACT \<or> p = PROFILE_LOW_LATENCY \<or> p = PROFILE_BALANCED \<or> p = PROFILE_THROUGHPUT"

definition normalize_profile :: "int \<Rightarrow> int" where
  "normalize_profile p =
     (if p = PROFILE_COMPACT \<or> p = PROFILE_LOW_LATENCY \<or> p = PROFILE_BALANCED \<or> p = PROFILE_THROUGHPUT
      then p else PROFILE_BALANCED)"

definition profile_budget_of :: "int \<Rightarrow> profile_budget" where
  "profile_budget_of p =
     (let q = normalize_profile p in
      if q = PROFILE_COMPACT then
        \<lparr>pb_percent = 2, pb_fixed_cap = 64 * mib, pb_data_minimum = 32 * kib,
         pb_data_maximum = 512 * kib, pb_stream_minimum = 8 * kib, pb_stream_maximum = 32 * kib\<rparr>
      else if q = PROFILE_LOW_LATENCY then
        \<lparr>pb_percent = 3, pb_fixed_cap = 256 * mib, pb_data_minimum = 32 * kib,
         pb_data_maximum = 2 * mib, pb_stream_minimum = 16 * kib, pb_stream_maximum = 64 * kib\<rparr>
      else if q = PROFILE_THROUGHPUT then
        \<lparr>pb_percent = 8, pb_fixed_cap = 1024 * mib, pb_data_minimum = 128 * kib,
         pb_data_maximum = 8 * mib, pb_stream_minimum = 256 * kib, pb_stream_maximum = 512 * kib\<rparr>
      else
        \<lparr>pb_percent = 5, pb_fixed_cap = 512 * mib, pb_data_minimum = 64 * kib,
         pb_data_maximum = 1 * mib, pb_stream_minimum = 64 * kib, pb_stream_maximum = 128 * kib\<rparr>)"

definition stream_role :: "auto_hwm_role \<Rightarrow> bool" where
  "stream_role r \<longleftrightarrow> r = auto_hwm_role_stream"

definition auto_hwm_profile_minimum_bytes :: "int \<Rightarrow> auto_hwm_role \<Rightarrow> u64" where
  "auto_hwm_profile_minimum_bytes p r =
     (if r = auto_hwm_role_none then 0
      else let b = profile_budget_of p in if stream_role r then pb_stream_minimum b else pb_data_minimum b)"

definition auto_hwm_profile_maximum_bytes :: "int \<Rightarrow> auto_hwm_role \<Rightarrow> u64" where
  "auto_hwm_profile_maximum_bytes p r =
     (if r = auto_hwm_role_none then 0
      else let b = profile_budget_of p in
        if normalize_profile p = PROFILE_BALANCED \<and> r = auto_hwm_role_recv_ingress then 2 * mib
        else if stream_role r then pb_stream_maximum b else pb_data_maximum b)"

definition auto_hwm_default_role_for_socket_type :: "int \<Rightarrow> auto_hwm_role" where
  "auto_hwm_default_role_for_socket_type t =
     (if t = SOCKET_PAIR \<or> t = SOCKET_DEALER then auto_hwm_role_peer_queue
      else if t = SOCKET_ROUTER then auto_hwm_role_routed
      else if t = SOCKET_STREAM then auto_hwm_role_stream
      else if t = SOCKET_PUB \<or> t = SOCKET_XPUB then auto_hwm_role_fanout
      else if t = SOCKET_SUB \<or> t = SOCKET_XSUB then auto_hwm_role_recv_ingress
      else auto_hwm_role_none)"

text \<open>The class of a role; without a role, the class of the default role of the socket type. The
  recursive call of the source is made on a role that has a class of its own.\<close>

fun policy_class_of_role :: "auto_hwm_role \<Rightarrow> auto_hwm_policy_class option" where
  "policy_class_of_role auto_hwm_role_control = Some auto_hwm_policy_control"
| "policy_class_of_role auto_hwm_role_routed = Some auto_hwm_policy_routed"
| "policy_class_of_role auto_hwm_role_fanout = Some auto_hwm_policy_fanout"
| "policy_class_of_role auto_hwm_role_connection_data = Some auto_hwm_policy_connection_data"
| "policy_class_of_role auto_hwm_role_recv_ingress = Some auto_hwm_policy_recv_ingress"
| "policy_class_of_role auto_hwm_role_peer_queue = Some auto_hwm_policy_peer_queue"
| "policy_class_of_role auto_hwm_role_stream = Some auto_hwm_policy_stream"
| "policy_class_of_role auto_hwm_role_none = None"

function auto_hwm_policy_class_for_role :: "auto_hwm_role \<Rightarrow> int \<Rightarrow> auto_hwm_policy_class" where
  "auto_hwm_policy_class_for_role r t =
     (case policy_class_of_role r of
        Some c \<Rightarrow> c
      | None \<Rightarrow>
          let d = auto_hwm_default_role_for_socket_type t in
          if d = auto_hwm_role_none then auto_hwm_policy_none
          else auto_hwm_policy_class_for_role d 0)"
  by pat_completeness auto
termination
  by (relation "measure (\<lambda>(r, t). if r = auto_hwm_role_none then 1 else 0)")
    (auto elim: policy_class_of_role.elims)

declare auto_hwm_policy_class_for_role.simps [simp del]

subsection \<open>Saturating arithmetic and the budget\<close>

definition saturating_add :: "u64 \<Rightarrow> u64 \<Rightarrow> bool \<Rightarrow> u64 \<times> bool" where
  "saturating_add l r ov = (if -1 - l < r then (-1, True) else (l + r, ov))"

definition saturating_multiply :: "u64 \<Rightarrow> u64 \<Rightarrow> bool \<Rightarrow> u64 \<times> bool" where
  "saturating_multiply l r ov = (if l \<noteq> 0 \<and> r > -1 div l then (-1, True) else (l * r, ov))"

definition apply_profile_percent :: "u64 \<Rightarrow> u64 \<Rightarrow> u64" where
  "apply_profile_percent m p = (m div 100) * p + ((m mod 100) * p) div 100"

definition profile_effective_budget :: "int \<Rightarrow> u64 \<Rightarrow> u64 \<Rightarrow> u64" where
  "profile_effective_budget p memory queue_count =
     (let b = profile_budget_of p;
          queue_floor = fst (saturating_multiply queue_count (pb_data_minimum b) False);
          effective_cap = max (pb_fixed_cap b) queue_floor;
          percent_share = apply_profile_percent memory (pb_percent b) in
      min percent_share effective_cap)"

record budget_input =
  bi_enabled :: bool
  bi_profile :: int
  bi_configured_memory_limit :: u64
  bi_configured_core_budget :: u64
  bi_detected_hard_limit :: u64
  bi_detected_physical_memory :: u64

record context_plan =
  cp_enabled :: bool
  cp_profile :: int
  cp_configured_memory_limit :: u64
  cp_resolved_memory_limit :: u64
  cp_configured_core_budget :: u64
  cp_effective_core_budget :: u64
  cp_total_planned :: u64
  cp_total_applied :: u64
  cp_manual_reserved :: u64
  cp_directional_queues :: u64
  cp_send_queues :: u64
  cp_receive_queues :: u64
  cp_unlimited_queues :: u64
  cp_auto_role :: auto_hwm_role
  cp_auto_direction_count :: u64
  cp_max_planned_queue_id :: u64
  cp_insufficient :: bool
  cp_hwm_valid :: bool
  cp_overflow :: bool

record socket_plan =
  sp_role :: auto_hwm_role
  sp_class :: auto_hwm_policy_class
  sp_enabled :: bool
  sp_send_count :: u64
  sp_receive_count :: u64
  sp_minimum :: u64
  sp_maximum :: u64
  sp_pending :: u64
  sp_manual_snd :: bool
  sp_manual_rcv :: bool
  sp_sndhwm :: u64
  sp_rcvhwm :: u64

definition context_plan_init :: context_plan where
  "context_plan_init =
     \<lparr>cp_enabled = False, cp_profile = PROFILE_BALANCED, cp_configured_memory_limit = 0,
      cp_resolved_memory_limit = 0, cp_configured_core_budget = 0, cp_effective_core_budget = 0,
      cp_total_planned = 0, cp_total_applied = 0, cp_manual_reserved = 0, cp_directional_queues = 0,
      cp_send_queues = 0, cp_receive_queues = 0, cp_unlimited_queues = 0, cp_auto_role = auto_hwm_role_none,
      cp_auto_direction_count = 0, cp_max_planned_queue_id = 0, cp_insufficient = False,
      cp_hwm_valid = True, cp_overflow = False\<rparr>"

definition socket_plan_init :: socket_plan where
  "socket_plan_init =
     \<lparr>sp_role = auto_hwm_role_none, sp_class = auto_hwm_policy_none, sp_enabled = False, sp_send_count = 0,
      sp_receive_count = 0, sp_minimum = 0, sp_maximum = 0, sp_pending = 0, sp_manual_snd = False,
      sp_manual_rcv = False, sp_sndhwm = 0, sp_rcvhwm = 0\<rparr>"

definition resolved_memory_limit :: "budget_input \<Rightarrow> u64" where
  "resolved_memory_limit i =
     (if bi_configured_memory_limit i > 0 then bi_configured_memory_limit i
      else if bi_detected_hard_limit i > 0 then bi_detected_hard_limit i
      else bi_detected_physical_memory i)"

definition auto_hwm_context_plan_make :: "budget_input \<Rightarrow> context_plan" where
  "auto_hwm_context_plan_make i =
     (let p = normalize_profile (bi_profile i); m = resolved_memory_limit i in
      context_plan_init
        \<lparr>cp_enabled := bi_enabled i, cp_profile := p,
         cp_configured_memory_limit := bi_configured_memory_limit i,
         cp_configured_core_budget := bi_configured_core_budget i,
         cp_resolved_memory_limit := m,
         cp_effective_core_budget :=
           (if bi_configured_core_budget i > 0 then bi_configured_core_budget i
            else profile_effective_budget p m 0)\<rparr>)"

definition auto_hwm_socket_plan_prepare ::
  "auto_hwm_role \<Rightarrow> u64 \<Rightarrow> u64 \<Rightarrow> bool \<Rightarrow> u64 \<Rightarrow> bool \<Rightarrow> u64 \<Rightarrow> bool \<Rightarrow> socket_plan" where
  "auto_hwm_socket_plan_prepare r send_count receive_count manual_snd sndhwm manual_rcv rcvhwm planning =
     socket_plan_init
       \<lparr>sp_role := r, sp_class := auto_hwm_policy_class_for_role r 0,
        sp_enabled := planning \<and> r \<noteq> auto_hwm_role_none,
        sp_send_count := send_count, sp_receive_count := receive_count,
        sp_manual_snd := manual_snd, sp_manual_rcv := manual_rcv, sp_sndhwm := sndhwm, sp_rcvhwm := rcvhwm\<rparr>"

subsection \<open>Finalizing a plan\<close>

text \<open>
  A \<open>direction_plan_ref_t\<close> points at the \<open>sndhwm\<close> or \<open>rcvhwm\<close> of a plan. The pointer is the index of
  the plan and the side; the cell it points at is accessed through the reference only while the
  rest of the budget is handed out, so a reference carries the cell's value, written back after.
\<close>

datatype side = Send_side | Receive_side

record direction =
  d_ref :: "nat \<times> side"
  d_hwm :: u64
  d_count :: u64
  d_maximum :: u64

definition append_direction :: "direction list \<Rightarrow> nat \<times> side \<Rightarrow> u64 \<Rightarrow> u64 \<Rightarrow> u64 \<Rightarrow> direction list" where
  "append_direction ds ref hwm count maximum =
     (if count > 0 \<and> hwm < maximum
      then ds @ [\<lparr>d_ref = ref, d_hwm = hwm, d_count = count, d_maximum = maximum\<rparr>] else ds)"

text \<open>The state of the accounting loop: the context, \<open>auto_minimum_total\<close> and \<open>auto_directions\<close>.\<close>

type_synonym account = "context_plan \<times> u64 \<times> direction list"

text \<open>One direction of a plan: the new value of its cell and the new state. The source writes it out
  for \<open>sndhwm\<close> and again for \<open>rcvhwm\<close>.\<close>

definition account_direction ::
  "nat \<times> side \<Rightarrow> bool \<Rightarrow> u64 \<Rightarrow> u64 \<Rightarrow> u64 \<Rightarrow> u64 \<Rightarrow> account \<Rightarrow> u64 \<times> account" where
  "account_direction ref manual count hwm minimum maximum = (\<lambda>(ctx, tot, ds).
     if \<not> manual then
       let (m, ov) = saturating_multiply minimum count (cp_overflow ctx);
           (tot, ov) = saturating_add tot m ov in
       (minimum, ctx\<lparr>cp_overflow := ov\<rparr>, tot, append_direction ds ref minimum count maximum)
     else if count > 0 then
       let reservation = (if hwm = 0 then maximum else hwm);
           (m, ov) = saturating_multiply reservation count (cp_overflow ctx);
           (r, ov) = saturating_add (cp_manual_reserved ctx) m ov;
           ctx = ctx\<lparr>cp_manual_reserved := r, cp_overflow := ov\<rparr> in
       if hwm = 0 then
         let (u, ov) = saturating_add (cp_unlimited_queues ctx) count ov in
         (hwm, ctx\<lparr>cp_hwm_valid := False, cp_unlimited_queues := u, cp_overflow := ov\<rparr>, tot, ds)
       else (hwm, ctx, tot, ds)
     else (hwm, ctx, tot, ds))"

definition count_queues :: "socket_plan \<Rightarrow> context_plan \<Rightarrow> context_plan" where
  "count_queues plan ctx =
     (let (s, ov) = saturating_add (cp_send_queues ctx) (sp_send_count plan) (cp_overflow ctx);
          (r, ov) = saturating_add (cp_receive_queues ctx) (sp_receive_count plan) ov;
          (b, ov) = saturating_add (sp_send_count plan) (sp_receive_count plan) ov;
          (d, ov) = saturating_add (cp_directional_queues ctx) b ov in
      ctx\<lparr>cp_send_queues := s, cp_receive_queues := r, cp_directional_queues := d, cp_overflow := ov\<rparr>)"

definition account_plan :: "nat \<Rightarrow> socket_plan \<Rightarrow> account \<Rightarrow> socket_plan \<times> account" where
  "account_plan i plan = (\<lambda>(ctx, tot, ds).
     let plan = plan\<lparr>sp_minimum := auto_hwm_profile_minimum_bytes (cp_profile ctx) (sp_role plan),
                     sp_maximum := auto_hwm_profile_maximum_bytes (cp_profile ctx) (sp_role plan)\<rparr> in
     if \<not> sp_enabled plan then (plan, ctx, tot, ds)
     else
       let (sndhwm, acc) = account_direction (i, Send_side) (sp_manual_snd plan) (sp_send_count plan)
              (sp_sndhwm plan) (sp_minimum plan) (sp_maximum plan) (count_queues plan ctx, tot, ds);
           (rcvhwm, acc) = account_direction (i, Receive_side) (sp_manual_rcv plan) (sp_receive_count plan)
              (sp_rcvhwm plan) (sp_minimum plan) (sp_maximum plan) acc in
       (plan\<lparr>sp_sndhwm := sndhwm, sp_rcvhwm := rcvhwm\<rparr>, acc))"

fun account_plans :: "nat \<Rightarrow> socket_plan list \<Rightarrow> account \<Rightarrow> socket_plan list \<times> account" where
  "account_plans i [] acc = ([], acc)"
| "account_plans i (plan # plans) acc =
     (let (plan, acc) = account_plan i plan acc; (plans, acc) = account_plans (i + 1) plans acc in
      (plan # plans, acc))"

text \<open>Handing out the rest: one round either grants every unsaturated direction its share, or one
  byte per queue while it lasts.\<close>

definition unsaturated :: "direction \<Rightarrow> bool" where
  "unsaturated d \<longleftrightarrow> d_hwm d < d_maximum d"

fun unsaturated_count :: "direction list \<Rightarrow> u64 \<Rightarrow> bool \<Rightarrow> u64 \<times> bool" where
  "unsaturated_count [] n ov = (n, ov)"
| "unsaturated_count (d # ds) n ov =
     (if unsaturated d then
        let (n, ov) = saturating_add n (d_count d) ov in unsaturated_count ds n ov
      else unsaturated_count ds n ov)"

fun grant_share :: "u64 \<Rightarrow> direction list \<Rightarrow> u64 \<Rightarrow> bool \<Rightarrow> direction list \<times> u64 \<times> bool" where
  "grant_share share [] remaining granted = ([], remaining, granted)"
| "grant_share share (d # ds) remaining granted =
     (if \<not> unsaturated d then
        let (ds, r) = grant_share share ds remaining granted in (d # ds, r)
      else
        let headroom = d_maximum d - d_hwm d;
            grant = min (min share headroom) (remaining div d_count d) in
        if grant = 0 then
          let (ds, r) = grant_share share ds remaining granted in (d # ds, r)
        else
          let (ds, r) = grant_share share ds (remaining - grant * d_count d) True in
          (d\<lparr>d_hwm := d_hwm d + grant\<rparr> # ds, r))"

fun grant_bytes :: "direction list \<Rightarrow> u64 \<Rightarrow> bool \<Rightarrow> direction list \<times> u64 \<times> bool" where
  "grant_bytes [] remaining granted = ([], remaining, granted)"
| "grant_bytes (d # ds) remaining granted =
     (if \<not> unsaturated d \<or> remaining < d_count d then
        let (ds, r) = grant_bytes ds remaining granted in (d # ds, r)
      else
        let (ds, r) = grant_bytes ds (remaining - d_count d) True in
        (d\<lparr>d_hwm := d_hwm d + 1\<rparr> # ds, r))"

text \<open>Every round that grants something uses up headroom, so the loop ends.\<close>

definition headroom :: "direction list \<Rightarrow> nat" where
  "headroom ds = (\<Sum>d \<leftarrow> ds. unat (d_maximum d) - unat (d_hwm d))"

lemma headroom_Cons [simp]: "headroom (d # ds) = unat (d_maximum d) - unat (d_hwm d) + headroom ds"
  by (simp add: headroom_def)

lemma unat_add_below: "unat a + unat b \<le> unat (c :: u64) \<Longrightarrow> unat (a + b :: u64) = unat a + unat b"
  using unsigned_less [where ?'a = nat and w = c] by (intro unat_add_lem [THEN iffD1]) simp

lemma unat_hwm_grant:
  assumes "unsaturated d" "g \<le> d_maximum d - d_hwm d"
  shows "unat (d_hwm d + g) = unat (d_hwm d) + unat g" "unat (d_hwm d) + unat g \<le> unat (d_maximum d)"
proof -
  have "d_hwm d \<le> d_maximum d" using assms(1) by (simp add: unsaturated_def)
  from unat_sub [OF this] have "unat g \<le> unat (d_maximum d) - unat (d_hwm d)"
    using assms(2) by (simp add: word_le_nat_alt)
  moreover have "unat (d_hwm d) < unat (d_maximum d)" using assms(1) by (simp add: unsaturated_def word_less_nat_alt)
  ultimately show "unat (d_hwm d) + unat g \<le> unat (d_maximum d)" by linarith
  then show "unat (d_hwm d + g) = unat (d_hwm d) + unat g" by (rule unat_add_below)
qed

lemma one_le_headroom: "unsaturated d \<Longrightarrow> 1 \<le> d_maximum d - d_hwm d"
  using unat_sub [of "d_hwm d" "d_maximum d"] by (simp add: unsaturated_def word_le_nat_alt word_less_nat_alt)

lemma unat_pos: "g \<noteq> 0 \<Longrightarrow> 0 < unat (g :: u64)"
  by (simp add: unat_gt_0)

lemma grant_share_headroom:
  "grant_share share ds remaining granted = (ds', remaining', granted') \<Longrightarrow>
     headroom ds' \<le> headroom ds \<and> (granted' \<longrightarrow> granted \<or> headroom ds' < headroom ds)"
proof (induction share ds remaining granted arbitrary: ds' remaining' granted' rule: grant_share.induct)
  case (2 share d ds remaining granted)
  define g where "g = min (min share (d_maximum d - d_hwm d)) (remaining div d_count d)"
  show ?case
  proof (cases "unsaturated d \<and> g \<noteq> 0")
    case True
    have le: "g \<le> d_maximum d - d_hwm d" by (simp add: g_def min_le_iff_disj)
    obtain ds1 where ds1: "grant_share share ds (remaining - g * d_count d) True = (ds1, remaining', granted')"
        "ds' = d\<lparr>d_hwm := d_hwm d + g\<rparr> # ds1"
      using "2.prems" True by (auto simp: g_def Let_def split: prod.splits)
    have "headroom ds1 \<le> headroom ds"
      using "2.IH"(3) [OF _ refl g_def _ ds1(1)] True by simp
    with unat_hwm_grant [OF conjunct1 [OF True] le] unat_pos [of g] True show ?thesis by (simp add: ds1(2)) arith
  next
    case False
    then obtain ds1 where "grant_share share ds remaining granted = (ds1, remaining', granted')" "ds' = d # ds1"
      using "2.prems" by (auto simp: g_def Let_def split: prod.splits if_splits)
    with "2.IH"(1,2) False show ?thesis by (cases "unsaturated d") (auto simp: g_def)
  qed
qed simp

lemma grant_bytes_headroom:
  "grant_bytes ds remaining granted = (ds', remaining', granted') \<Longrightarrow>
     headroom ds' \<le> headroom ds \<and> (granted' \<longrightarrow> granted \<or> headroom ds' < headroom ds)"
proof (induction ds remaining granted arbitrary: ds' remaining' granted' rule: grant_bytes.induct)
  case (2 d ds remaining granted)
  show ?case
  proof (cases "\<not> unsaturated d \<or> remaining < d_count d")
    case True
    with 2 show ?thesis by (fastforce split: prod.splits)
  next
    case False
    then obtain ds1 where ds1: "grant_bytes ds (remaining - d_count d) True = (ds1, remaining', granted')"
        "ds' = d\<lparr>d_hwm := d_hwm d + 1\<rparr> # ds1"
      using "2.prems" by (auto split: prod.splits)
    have "headroom ds1 \<le> headroom ds" using "2.IH"(2) [OF False ds1(1)] by simp
    with unat_hwm_grant [OF _ one_le_headroom, of d] False show ?thesis by (simp add: ds1(2)) arith
  qed
qed simp

definition grant_round :: "u64 \<Rightarrow> direction list \<Rightarrow> u64 \<Rightarrow> direction list \<times> u64 \<times> bool" where
  "grant_round share ds remaining =
     (if share > 0 then grant_share share ds remaining False else grant_bytes ds remaining False)"

text \<open>The loop returns the directions, what remains and the overflow flag.\<close>

function water_fill :: "direction list \<Rightarrow> u64 \<Rightarrow> bool \<Rightarrow> direction list \<times> u64 \<times> bool" where
  "water_fill ds remaining ov =
     (if \<not> remaining > 0 then (ds, remaining, ov)
      else case unsaturated_count ds 0 ov of (n, ov) \<Rightarrow>
        if n = 0 \<or> ov then (ds, remaining, ov)
        else case grant_round (remaining div n) ds remaining of (ds', remaining', granted) \<Rightarrow>
          if \<not> granted then (ds', remaining', ov) else water_fill ds' remaining' ov)"
  by pat_completeness auto
termination
proof (relation "measure (\<lambda>(ds, _). headroom ds)")
  fix ds ds' :: "direction list" and remaining n remaining' :: u64 and ov ov' granted r x
  assume "(ds', x) = grant_round (remaining div n) ds remaining" "(remaining', granted) = x" "\<not> \<not> granted"
  then show "((ds', remaining', ov'), ds, remaining, ov) \<in> measure (\<lambda>(ds, _). headroom ds)"
    using grant_share_headroom [of "remaining div n" ds remaining False ds' remaining' granted]
      grant_bytes_headroom [of ds remaining False ds' remaining' granted]
    by (auto simp: grant_round_def split: if_splits)
qed simp

declare water_fill.simps [simp del]

text \<open>Reading a cell after the loop, and all cells of the plans.\<close>

definition cell :: "direction list \<Rightarrow> nat \<times> side \<Rightarrow> u64 \<Rightarrow> u64" where
  "cell ds ref v = (case find (\<lambda>d. d_ref d = ref) ds of None \<Rightarrow> v | Some d \<Rightarrow> d_hwm d)"

fun write_back :: "nat \<Rightarrow> socket_plan list \<Rightarrow> direction list \<Rightarrow> socket_plan list" where
  "write_back i [] ds = []"
| "write_back i (p # ps) ds =
     p\<lparr>sp_sndhwm := cell ds (i, Send_side) (sp_sndhwm p), sp_rcvhwm := cell ds (i, Receive_side) (sp_rcvhwm p)\<rparr>
       # write_back (i + 1) ps ds"

fun planned_total :: "socket_plan list \<Rightarrow> u64 \<Rightarrow> bool \<Rightarrow> u64 \<times> bool" where
  "planned_total [] tot ov = (tot, ov)"
| "planned_total (p # ps) tot ov =
     (if \<not> sp_enabled p then planned_total ps tot ov
      else
        let (tot, ov) =
              (if \<not> sp_manual_snd p then
                 let (m, ov) = saturating_multiply (sp_sndhwm p) (sp_send_count p) ov in saturating_add tot m ov
               else (tot, ov));
            (tot, ov) =
              (if \<not> sp_manual_rcv p then
                 let (m, ov) = saturating_multiply (sp_rcvhwm p) (sp_receive_count p) ov in saturating_add tot m ov
               else (tot, ov)) in
        planned_total ps tot ov)"

definition reset_context :: "context_plan \<Rightarrow> context_plan" where
  "reset_context ctx = ctx
     \<lparr>cp_total_planned := 0, cp_total_applied := 0, cp_manual_reserved := 0, cp_directional_queues := 0,
      cp_send_queues := 0, cp_receive_queues := 0, cp_unlimited_queues := 0, cp_auto_role := auto_hwm_role_none,
      cp_auto_direction_count := 0, cp_max_planned_queue_id := 0, cp_insufficient := False,
      cp_hwm_valid := True, cp_overflow := False\<rparr>"

text \<open>Re-resolving the budget with the number of queues, and the part left for automatic queues.\<close>

definition resolve_budget :: "context_plan \<Rightarrow> context_plan" where
  "resolve_budget ctx =
     (if cp_configured_core_budget ctx = 0
      then ctx\<lparr>cp_effective_core_budget :=
             profile_effective_budget (cp_profile ctx) (cp_resolved_memory_limit ctx) (cp_directional_queues ctx)\<rparr>
      else ctx)"

definition data_budget :: "context_plan \<Rightarrow> u64" where
  "data_budget ctx =
     (if cp_manual_reserved ctx \<ge> cp_effective_core_budget ctx then 0
      else cp_effective_core_budget ctx - cp_manual_reserved ctx)"

definition distribute :: "context_plan \<Rightarrow> u64 \<Rightarrow> direction list \<Rightarrow> socket_plan list \<Rightarrow> context_plan \<times> socket_plan list"
where
  "distribute ctx minimum_total ds plans =
     (if cp_manual_reserved ctx > cp_effective_core_budget ctx \<or> minimum_total > data_budget ctx \<or> cp_overflow ctx
      then (ctx\<lparr>cp_insufficient := True\<rparr>, plans)
      else if cp_enabled ctx then
        case water_fill ds (data_budget ctx - minimum_total) (cp_overflow ctx) of
          (ds, _, ov) \<Rightarrow> (ctx\<lparr>cp_overflow := ov\<rparr>, write_back 0 plans ds)
      else (ctx, plans))"

definition record_totals :: "context_plan \<Rightarrow> socket_plan list \<Rightarrow> context_plan" where
  "record_totals ctx plans =
     (let (auto_total, ov) = planned_total plans 0 (cp_overflow ctx);
          (total, ov) = saturating_add auto_total (cp_manual_reserved ctx) ov;
          ctx = ctx\<lparr>cp_total_planned := total, cp_total_applied := total, cp_overflow := ov\<rparr> in
      if ov then ctx\<lparr>cp_insufficient := True\<rparr> else ctx)"

definition auto_hwm_context_finalize :: "context_plan \<Rightarrow> socket_plan list \<Rightarrow> context_plan \<times> socket_plan list" where
  "auto_hwm_context_finalize ctx plans =
     (let (plans, ctx, minimum_total, ds) = account_plans 0 plans (reset_context ctx, 0, []);
          (ctx, plans) = distribute (resolve_budget ctx) minimum_total ds plans in
      (record_totals ctx plans, plans))"

subsection \<open>Exactness of the arithmetic\<close>

lemma u64_max: "unat (- 1 :: u64) = 2 ^ 64 - 1"
  by (simp add: unsigned_minus_1_eq_mask mask_eq_exp_minus_1)

lemma unat_u64_less: "unat (w :: u64) < 2 ^ 64"
  using unsigned_less [where ?'a = nat and w = w] by simp

lemma saturating_addD:
  assumes "saturating_add l r ov = (s, ov')" "\<not> ov'"
  shows "\<not> ov" "unat s = unat l + unat r"
proof -
  have le: "\<not> -1 - l < r" and *: "s = l + r" "\<not> ov" using assms by (auto simp: saturating_add_def split: if_splits)
  have "unat (-1 - l) = 2 ^ 64 - 1 - unat l" by (simp add: unat_sub u64_max word_order.extremum)
  then have "unat l + unat r < 2 ^ 64" using le unat_u64_less [of l] by (simp add: word_less_nat_alt)
  then show "\<not> ov" "unat s = unat l + unat r" using * unat_add_lem [of l r] by simp_all
qed

lemma saturating_add_sticky: "saturating_add l r True \<noteq> (s, False)"
  by (simp add: saturating_add_def)

lemma saturating_add_exact:
  "unat l + unat r < 2 ^ 64 \<Longrightarrow> saturating_add l r ov = (l + r, ov)"
  using unat_sub [of l "-1"] by (auto simp: saturating_add_def word_less_nat_alt u64_max word_order.extremum)

lemma saturating_multiplyD:
  assumes "saturating_multiply l r ov = (s, ov')" "\<not> ov'"
  shows "\<not> ov" "unat s = unat l * unat r"
proof -
  have c: "l = 0 \<or> \<not> r > -1 div l" and *: "s = l * r" "\<not> ov" using assms by (auto simp: saturating_multiply_def split: if_splits)
  from c have "unat l * unat r < 2 ^ 64"
  proof
    assume "\<not> r > -1 div l"
    then have "unat r \<le> (2 ^ 64 - 1) div unat l" by (simp add: word_less_nat_alt unat_div u64_max)
    then have "unat l * unat r \<le> unat l * ((2 ^ 64 - 1) div unat l)" by (rule mult_le_mono2)
    also have "\<dots> \<le> 2 ^ 64 - 1" by (rule times_div_less_eq_dividend)
    finally show ?thesis by simp
  qed simp
  then show "\<not> ov" "unat s = unat l * unat r" using * unat_mult_lem [of l r] by simp_all
qed

lemma saturating_multiply_exact:
  assumes "unat l * unat r < 2 ^ 64"
  shows "saturating_multiply l r ov = (l * r, ov)"
proof (cases "l = 0")
  case False
  then have "0 < unat l" by (simp add: unat_gt_0)
  then have "unat r \<le> (2 ^ 64 - 1) div unat l" using assms by (simp add: less_eq_div_iff_mult_less_eq mult.commute)
  then show ?thesis by (auto simp: saturating_multiply_def word_less_nat_alt unat_div u64_max)
qed (simp add: saturating_multiply_def)

lemma apply_profile_percent_exact:
  assumes "unat p \<le> 100"
  shows "unat (apply_profile_percent m p) = unat m * unat p div 100"
proof -
  let ?M = "unat m" and ?p = "unat p"
  have M: "?M = 100 * (?M div 100) + ?M mod 100" by simp
  have q: "?M div 100 * ?p \<le> ?M div 100 * 100" using assms by (rule mult_le_mono2)
  have qle: "?M div 100 * 100 \<le> ?M" by (rule div_times_less_eq_dividend)
  have "?M mod 100 * ?p \<le> 99 * 100" using assms by (intro mult_le_mono) auto
  then have r: "?M mod 100 * ?p < 2 ^ 64" by simp
  have um: "unat (m div 100) = ?M div 100" "unat (m mod 100) = ?M mod 100" by (simp_all add: unat_div unat_mod)
  have a: "unat ((m div 100) * p) = ?M div 100 * ?p"
  proof -
    have "?M div 100 * ?p < 2 ^ 64" using le_trans [OF q qle] unat_u64_less [of m] by (rule le_less_trans)
    then show ?thesis using unat_mult_lem [of "m div 100" p] um by simp
  qed
  have b: "unat ((m mod 100) * p div 100) = ?M mod 100 * ?p div 100"
    using unat_mult_lem [of "m mod 100" p] um r by (simp add: unat_div)
  have s: "?M * ?p div 100 = ?M div 100 * ?p + ?M mod 100 * ?p div 100"
  proof -
    have "?M * ?p = 100 * (?M div 100 * ?p) + ?M mod 100 * ?p" using M by (metis add_mult_distrib mult.assoc)
    then show ?thesis by simp
  qed
  have "?M * ?p div 100 \<le> ?M * 100 div 100" using assms by (intro div_le_mono mult_le_mono2)
  then have "?M * ?p div 100 \<le> ?M" by simp
  then show ?thesis
    using unat_add_lem [of "(m div 100) * p" "(m mod 100) * p div 100"] a b s unat_u64_less [of m]
    by (simp add: apply_profile_percent_def)
qed

lemmas profile_simps = profile_budget_of_def normalize_profile_def kib_def mib_def Let_def

lemma unat_min_u64: "unat (min a b :: u64) = min (unat a) (unat b)"
  by (simp add: min_def word_le_nat_alt)

lemma unat_max_u64: "unat (max a b :: u64) = max (unat a) (unat b)"
  by (simp add: max_def word_le_nat_alt)

lemma saturating_multiply_fst: "unat (fst (saturating_multiply l r ov)) = min (unat l * unat r) (2 ^ 64 - 1)"
proof (cases "unat l * unat r < 2 ^ 64")
  case True
  then show ?thesis using saturating_multiplyD(2) [of l r False "l * r" False] saturating_multiply_exact by simp
next
  case False
  obtain s ov' where s: "saturating_multiply l r ov = (s, ov')" by force
  have "ov' \<and> s = -1"
  proof (cases "l \<noteq> 0 \<and> r > -1 div l")
    case True
    then show ?thesis using s by (simp add: saturating_multiply_def)
  next
    case F: False
    then have "saturating_multiply l r False = (l * r, False)" by (auto simp: saturating_multiply_def)
    from saturating_multiplyD(2) [OF this] False unat_u64_less [of "l * r"] show ?thesis by simp
  qed
  with False s show ?thesis by (simp add: u64_max)
qed

lemma pb_percent_le: "unat (pb_percent (profile_budget_of p)) \<le> 100"
  by (simp add: profile_simps)

text \<open>The byte budget is the documented formula, without any wrap-around: the percent share of the
  memory, rounded down, but at most the larger of the fixed cap of the profile and the sum of the
  minima of all queues.\<close>

theorem effective_budget_formula:
  "unat (profile_effective_budget p memory queues) =
     min (unat memory * unat (pb_percent (profile_budget_of p)) div 100)
       (max (unat (pb_fixed_cap (profile_budget_of p)))
          (min (unat queues * unat (pb_data_minimum (profile_budget_of p))) (2 ^ 64 - 1)))"
  using apply_profile_percent_exact [OF pb_percent_le]
  by (simp add: profile_effective_budget_def Let_def unat_min_u64 unat_max_u64 saturating_multiply_fst)

lemma minimum_le_maximum: "auto_hwm_profile_minimum_bytes p r \<le> auto_hwm_profile_maximum_bytes p r"
  by (simp add: auto_hwm_profile_minimum_bytes_def auto_hwm_profile_maximum_bytes_def profile_simps stream_role_def)

subsection \<open>Water-filling\<close>

text \<open>What a direction may become: its cell has grown, but not past the maximum.\<close>

definition grown :: "direction \<Rightarrow> direction \<Rightarrow> bool" where
  "grown d d' \<longleftrightarrow> (\<exists>h. d' = d\<lparr>d_hwm := h\<rparr> \<and> d_hwm d \<le> h \<and> h \<le> d_maximum d)"

definition dir_ok :: "direction \<Rightarrow> bool" where
  "dir_ok d \<longleftrightarrow> 0 < d_count d \<and> d_hwm d \<le> d_maximum d"

definition held :: "direction list \<Rightarrow> nat" where
  "held ds = (\<Sum>d \<leftarrow> ds. unat (d_hwm d) * unat (d_count d))"

lemma held_simps [simp]: "held [] = 0" "held (d # ds) = unat (d_hwm d) * unat (d_count d) + held ds"
  "held (ds @ es) = held ds + held es"
  by (simp_all add: held_def)

definition fills :: "direction list \<Rightarrow> u64 \<Rightarrow> direction list \<Rightarrow> u64 \<Rightarrow> bool" where
  "fills ds r ds' r' \<longleftrightarrow> list_all2 grown ds ds' \<and> held ds' + unat r' = held ds + unat r"

lemma grown_refl: "dir_ok d \<Longrightarrow> grown d d"
  by (auto simp: grown_def dir_ok_def intro: exI [of _ "d_hwm d"])

lemma grown_ok: "grown d d' \<Longrightarrow> dir_ok d \<Longrightarrow> dir_ok d'"
  by (auto simp: grown_def dir_ok_def)

lemma grown_trans: "grown a b \<Longrightarrow> grown b c \<Longrightarrow> grown a c"
  by (auto simp: grown_def intro: order_trans)

lemma list_all2_grown_ok: "list_all2 grown ds ds' \<Longrightarrow> (\<And>d. d \<in> set ds \<Longrightarrow> dir_ok d) \<Longrightarrow> d' \<in> set ds' \<Longrightarrow> dir_ok d'"
  by (induction rule: list_all2_induct) (auto intro: grown_ok)

lemma fills_refl: "(\<And>d. d \<in> set ds \<Longrightarrow> dir_ok d) \<Longrightarrow> fills ds r ds r"
  by (auto simp: fills_def list_all2_refl intro!: list.rel_refl_strong grown_refl)

lemma fills_trans: "fills a r b s \<Longrightarrow> fills b s c t \<Longrightarrow> fills a r c t"
  using list_all2_trans [of grown grown grown a b c] grown_trans by (fastforce simp: fills_def)

lemma fills_skip: "dir_ok d \<Longrightarrow> fills ds r ds' r' \<Longrightarrow> fills (d # ds) r (d # ds') r'"
  by (auto simp: fills_def grown_refl)

lemma fills_grant:
  assumes ok: "unsaturated d" "g \<le> d_maximum d - d_hwm d" and r: "unat g * unat (d_count d) \<le> unat r"
    and f: "fills ds (r - g * d_count d) ds' r'"
  shows "fills (d # ds) r (d\<lparr>d_hwm := d_hwm d + g\<rparr> # ds') r'"
proof -
  note h = unat_hwm_grant [OF ok]
  have m: "unat (g * d_count d) = unat g * unat (d_count d)"
    using r unat_u64_less [of r] by (intro unat_mult_lem [THEN iffD1]) simp
  then have "unat (r - g * d_count d) = unat r - unat g * unat (d_count d)"
    using r by (simp add: unat_sub word_le_nat_alt)
  moreover have "grown d (d\<lparr>d_hwm := d_hwm d + g\<rparr>)"
    using h by (auto simp: grown_def word_le_nat_alt intro!: exI [of _ "d_hwm d + g"])
  ultimately show ?thesis using f r h(1) by (simp add: fills_def add_mult_distrib)
qed

lemma grant_share_fills:
  "(\<And>d. d \<in> set ds \<Longrightarrow> dir_ok d) \<Longrightarrow> grant_share share ds r granted = (ds', r', granted') \<Longrightarrow> fills ds r ds' r'"
proof (induction share ds r granted arbitrary: ds' r' granted' rule: grant_share.induct)
  case (2 share d ds r granted)
  define g where "g = min (min share (d_maximum d - d_hwm d)) (r div d_count d)"
  have ok: "dir_ok d" "\<And>d. d \<in> set ds \<Longrightarrow> dir_ok d" using "2.prems"(1) by auto
  show ?case
  proof (cases "unsaturated d \<and> g \<noteq> 0")
    case True
    obtain ds1 where ds1: "grant_share share ds (r - g * d_count d) True = (ds1, r', granted')"
        "ds' = d\<lparr>d_hwm := d_hwm d + g\<rparr> # ds1"
      using "2.prems"(2) True by (auto simp: g_def Let_def split: prod.splits)
    have "g \<le> d_maximum d - d_hwm d" "g \<le> r div d_count d" by (simp_all add: g_def min_le_iff_disj)
    moreover have "unat g * unat (d_count d) \<le> unat r"
    proof -
      have "unat g \<le> unat r div unat (d_count d)"
        using \<open>g \<le> r div d_count d\<close> by (simp add: word_le_nat_alt unat_div)
      then have "unat g * unat (d_count d) \<le> unat r div unat (d_count d) * unat (d_count d)" by (rule mult_le_mono1)
      also have "\<dots> \<le> unat r" by (rule div_times_less_eq_dividend)
      finally show ?thesis .
    qed
    moreover have "fills ds (r - g * d_count d) ds1 r'"
      using "2.IH"(3) [OF _ refl g_def _ ok(2) ds1(1)] True by simp
    ultimately show ?thesis unfolding ds1(2) using True by (intro fills_grant) auto
  next
    case False
    then obtain ds1 where ds1: "grant_share share ds r granted = (ds1, r', granted')" "ds' = d # ds1"
      using "2.prems"(2) by (auto simp: g_def Let_def split: prod.splits if_splits)
    have "fills ds r ds1 r'"
      using "2.IH"(1) [OF _ ok(2) ds1(1)] "2.IH"(2) [OF _ refl g_def _ ok(2) ds1(1)] False
      by (cases "unsaturated d") auto
    with ok(1) show ?thesis unfolding ds1(2) by (rule fills_skip)
  qed
qed (auto simp: fills_def)

lemma grant_bytes_fills:
  "(\<And>d. d \<in> set ds \<Longrightarrow> dir_ok d) \<Longrightarrow> grant_bytes ds r granted = (ds', r', granted') \<Longrightarrow> fills ds r ds' r'"
proof (induction ds r granted arbitrary: ds' r' granted' rule: grant_bytes.induct)
  case (2 d ds r granted)
  have ok: "dir_ok d" "\<And>d. d \<in> set ds \<Longrightarrow> dir_ok d" using "2.prems"(1) by auto
  show ?case
  proof (cases "\<not> unsaturated d \<or> r < d_count d")
    case True
    then obtain ds1 where ds1: "grant_bytes ds r granted = (ds1, r', granted')" "ds' = d # ds1"
      using "2.prems"(2) by (auto split: prod.splits)
    show ?thesis unfolding ds1(2) using fills_skip [OF ok(1) "2.IH"(1) [OF True ok(2) ds1(1)]] by simp
  next
    case False
    then obtain ds1 where ds1: "grant_bytes ds (r - d_count d) True = (ds1, r', granted')"
        "ds' = d\<lparr>d_hwm := d_hwm d + 1\<rparr> # ds1"
      using "2.prems"(2) by (auto split: prod.splits)
    have "fills ds (r - 1 * d_count d) ds1 r'" using "2.IH"(2) [OF False ok(2) ds1(1)] by simp
    moreover have "unat (1 :: u64) * unat (d_count d) \<le> unat r" using False by (simp add: word_less_nat_alt)
    ultimately show ?thesis unfolding ds1(2) using fills_grant [OF _ one_le_headroom] False by blast
  qed
qed (auto simp: fills_def)

text \<open>When a round grants nothing, no unsaturated direction could take one more byte per queue.\<close>

lemma grant_share_granted: "grant_share share ds r True = (ds', r', g') \<Longrightarrow> g'"
proof (induction share ds r True arbitrary: ds' r' g' rule: grant_share.induct)
  case (2 share d ds r)
  then show ?case by (auto simp: Let_def split: prod.splits if_splits)
qed simp

lemma grant_bytes_granted: "grant_bytes ds r True = (ds', r', g') \<Longrightarrow> g'"
proof (induction ds r True arbitrary: ds' r' g' rule: grant_bytes.induct)
  case (2 d ds r)
  then show ?case by (auto split: prod.splits if_splits)
qed simp

lemma grant_bytes_stuck:
  "grant_bytes ds r False = (ds', r', False) \<Longrightarrow> ds' = ds \<and> r' = r \<and> (\<forall>d \<in> set ds. unsaturated d \<longrightarrow> r < d_count d)"
proof (induction ds arbitrary: ds')
  case (Cons d ds)
  show ?case
  proof (cases "\<not> unsaturated d \<or> r < d_count d")
    case True
    with Cons show ?thesis by (auto split: prod.splits)
  next
    case False
    with Cons.prems grant_bytes_granted show ?thesis by (fastforce split: prod.splits)
  qed
qed simp

lemma grant_share_stuck:
  "grant_share share ds r False = (ds', r', False) \<Longrightarrow> 0 < share \<Longrightarrow>
     ds' = ds \<and> r' = r \<and> (\<forall>d \<in> set ds. unsaturated d \<longrightarrow> r < d_count d \<or> d_count d = 0)"
proof (induction ds arbitrary: ds')
  case (Cons d ds)
  define g where "g = min (min share (d_maximum d - d_hwm d)) (r div d_count d)"
  show ?case
  proof (cases "unsaturated d \<and> g \<noteq> 0")
    case True
    with Cons.prems(1) grant_share_granted show ?thesis by (fastforce simp: Let_def g_def split: prod.splits)
  next
    case False
    then obtain ds1 where "grant_share share ds r False = (ds1, r', False)" "ds' = d # ds1"
      using Cons.prems(1) by (auto simp: g_def Let_def split: prod.splits if_splits)
    moreover have "r < d_count d \<or> d_count d = 0" if "unsaturated d"
    proof -
      have "r div d_count d = 0"
        using False that one_le_headroom [OF that] Cons.prems(2) by (auto simp: g_def min_def split: if_splits)
      then show ?thesis
        by (metis div_eq_0_iff unat_0 unat_div word_less_nat_alt unat_eq_zero)
    qed
    ultimately show ?thesis using Cons.IH Cons.prems(2) by auto
  qed
qed simp

definition queues :: "direction list \<Rightarrow> nat" where
  "queues ds = (\<Sum>d \<leftarrow> ds. unat (d_count d))"

lemma queues_simps [simp]: "queues [] = 0" "queues (d # ds) = unat (d_count d) + queues ds"
  "queues (ds @ es) = queues ds + queues es"
  by (simp_all add: queues_def)

lemma queues_grown: "list_all2 grown ds ds' \<Longrightarrow> queues ds' = queues ds"
  by (induction rule: list_all2_induct) (auto simp: grown_def)

lemma unsaturated_count_exact:
  "unat n + queues ds < 2 ^ 64 \<Longrightarrow> unsaturated_count ds n ov = (n', ov') \<Longrightarrow>
     ov' = ov \<and> unat n' = unat n + queues (filter unsaturated ds)"
proof (induction ds n ov rule: unsaturated_count.induct)
  case (2 d ds n ov)
  show ?case
  proof (cases "unsaturated d")
    case True
    have u: "unat (n + d_count d) = unat n + unat (d_count d)"
      using "2.prems"(1) by (intro unat_add_lem [THEN iffD1]) simp
    have s: "saturating_add n (d_count d) ov = (n + d_count d, ov)"
      using "2.prems"(1) by (intro saturating_add_exact) simp
    have "ov' = ov \<and> unat n' = unat (n + d_count d) + queues (filter unsaturated ds)"
      using True "2.prems" s u by (intro "2.IH"(1) [OF True s [symmetric] refl]) simp_all
    with True u show ?thesis by simp
  next
    case False
    with 2 show ?thesis by simp
  qed
qed simp

lemma queues_0:
  assumes "\<And>d. d \<in> set ds \<Longrightarrow> dir_ok d" "queues (filter unsaturated ds) = 0" "d \<in> set ds"
  shows "\<not> unsaturated d"
proof
  assume "unsaturated d"
  with assms(3) have "unat (d_count d) \<in> set (map (\<lambda>d. unat (d_count d)) (filter unsaturated ds))" by force
  then have "unat (d_count d) \<le> queues (filter unsaturated ds)" unfolding queues_def by (intro member_le_sum_list) simp_all
  moreover have "0 < unat (d_count d)" using assms(1) [OF assms(3)] by (simp add: dir_ok_def unat_gt_0 word_gt_0)
  ultimately show False using assms(2) by simp
qed

text \<open>The whole loop: the bytes handed out are accounted for exactly, no cell leaves its limits, and
  at the end no direction that is still unsaturated could take one more byte per queue.\<close>

lemma water_fill_correct:
  "(\<And>d. d \<in> set ds \<Longrightarrow> dir_ok d) \<Longrightarrow> queues ds < 2 ^ 64 \<Longrightarrow> water_fill ds r False = (ds', r', ov') \<Longrightarrow>
     fills ds r ds' r' \<and> \<not> ov' \<and> (\<forall>d \<in> set ds'. unsaturated d \<longrightarrow> r' < d_count d)"
proof (induction ds r "False" arbitrary: ds' r' ov' rule: water_fill.induct)
  case (1 ds r)
  obtain n ov where n: "unsaturated_count ds 0 False = (n, ov)" by force
  have ov: "ov = False" and nq: "unat n = queues (filter unsaturated ds)"
    using unsaturated_count_exact [OF _ n] "1.prems"(2) by simp_all
  obtain ds1 r1 g where g: "grant_round (r div n) ds r = (ds1, r1, g)" by (metis prod_cases3)
  have f: "fills ds r ds1 r1"
    using g grant_share_fills [OF "1.prems"(1)] grant_bytes_fills [OF "1.prems"(1)]
    by (auto simp: grant_round_def split: if_splits)
  consider "r = 0" | "0 < r" "n = 0" | "0 < r" "n \<noteq> 0" "g" | "0 < r" "n \<noteq> 0" "\<not> g" by (auto simp: word_gt_0)
  then show ?case
  proof cases
    case 1
    then show ?thesis using "1.prems" fills_refl by (auto simp: water_fill.simps [of ds] dir_ok_def)
  next
    case 2
    then show ?thesis
      using "1.prems"(1,3) nq queues_0 [OF "1.prems"(1)] n ov fills_refl [OF "1.prems"(1)]
      by (auto simp: water_fill.simps [of ds])
  next
    case 3
    have "water_fill ds1 r1 False = (ds', r', ov')"
      using 3 "1.prems"(3) n ov g by (simp add: water_fill.simps [of ds])
    moreover have "list_all2 grown ds ds1" using f by (simp add: fills_def)
    ultimately have "fills ds1 r1 ds' r' \<and> \<not> ov' \<and> (\<forall>d \<in> set ds'. unsaturated d \<longrightarrow> r' < d_count d)"
      using 3 n ov g "1.prems"(2) queues_grown list_all2_grown_ok [OF _ "1.prems"(1)]
      by (intro "1.hyps") auto
    with f fills_trans show ?thesis by blast
  next
    case 4
    then have res: "ds' = ds1" "r' = r1" "\<not> ov'"
      using "1.prems"(3) n ov g by (simp_all add: water_fill.simps [of ds])
    have "\<forall>d \<in> set ds1. unsaturated d \<longrightarrow> r1 < d_count d"
      using 4 g grant_share_stuck [of "r div n" ds r ds1 r1] grant_bytes_stuck [of ds r ds1 r1] "1.prems"(1)
      by (auto simp: grant_round_def dir_ok_def word_gt_0 split: if_splits)
    with f res show ?thesis by simp
  qed
qed

subsection \<open>The accounting loop\<close>

text \<open>What the loop makes of a plan, the directions it appends, and the bytes and queues it counts.\<close>

definition prep_plan :: "int \<Rightarrow> socket_plan \<Rightarrow> socket_plan" where
  "prep_plan prof p =
     (let mn = auto_hwm_profile_minimum_bytes prof (sp_role p) in
      p\<lparr>sp_minimum := mn, sp_maximum := auto_hwm_profile_maximum_bytes prof (sp_role p),
        sp_sndhwm := (if sp_enabled p \<and> \<not> sp_manual_snd p then mn else sp_sndhwm p),
        sp_rcvhwm := (if sp_enabled p \<and> \<not> sp_manual_rcv p then mn else sp_rcvhwm p)\<rparr>)"

definition plan_dirs :: "nat \<Rightarrow> socket_plan \<Rightarrow> direction list" where
  "plan_dirs i p =
     (if \<not> sp_enabled p then []
      else (if sp_manual_snd p then [] else append_direction [] (i, Send_side) (sp_sndhwm p) (sp_send_count p) (sp_maximum p))
         @ (if sp_manual_rcv p then [] else append_direction [] (i, Receive_side) (sp_rcvhwm p) (sp_receive_count p) (sp_maximum p)))"

fun all_dirs :: "nat \<Rightarrow> socket_plan list \<Rightarrow> direction list" where
  "all_dirs i [] = []"
| "all_dirs i (p # ps) = plan_dirs i p @ all_dirs (i + 1) ps"

definition auto_bytes :: "socket_plan \<Rightarrow> nat" where
  "auto_bytes p =
     (if \<not> sp_enabled p then 0
      else (if sp_manual_snd p then 0 else unat (sp_sndhwm p) * unat (sp_send_count p))
         + (if sp_manual_rcv p then 0 else unat (sp_rcvhwm p) * unat (sp_receive_count p)))"

definition reserved_bytes :: "socket_plan \<Rightarrow> nat" where
  "reserved_bytes p =
     (if \<not> sp_enabled p then 0
      else (if sp_manual_snd p then unat (if sp_sndhwm p = 0 then sp_maximum p else sp_sndhwm p) * unat (sp_send_count p) else 0)
         + (if sp_manual_rcv p then unat (if sp_rcvhwm p = 0 then sp_maximum p else sp_rcvhwm p) * unat (sp_receive_count p) else 0))"

definition plan_queues :: "socket_plan \<Rightarrow> nat" where
  "plan_queues p = (if \<not> sp_enabled p then 0 else unat (sp_send_count p) + unat (sp_receive_count p))"

abbreviation sum_plans :: "(socket_plan \<Rightarrow> nat) \<Rightarrow> socket_plan list \<Rightarrow> nat" where
  "sum_plans f ps \<equiv> \<Sum>p \<leftarrow> ps. f p"

text \<open>The fields that accounting leaves alone.\<close>

definition same_config :: "context_plan \<Rightarrow> context_plan \<Rightarrow> bool" where
  "same_config c c' \<longleftrightarrow> cp_profile c' = cp_profile c \<and> cp_enabled c' = cp_enabled c
     \<and> cp_insufficient c' = cp_insufficient c
     \<and> cp_resolved_memory_limit c' = cp_resolved_memory_limit c
     \<and> cp_configured_core_budget c' = cp_configured_core_budget c
     \<and> cp_effective_core_budget c' = cp_effective_core_budget c"

lemma same_config_trans: "same_config a b \<Longrightarrow> same_config b c \<Longrightarrow> same_config a c"
  by (simp add: same_config_def)

lemma append_direction_append: "append_direction ds ref h n m = ds @ append_direction [] ref h n m"
  by (simp add: append_direction_def)

lemma account_direction_eq:
  assumes "account_direction ref manual n h mn mx (ctx, tot, ds) = (h', ctx', tot', ds')"
  shows "h' = (if manual then h else mn)" "same_config ctx ctx'"
    and "ds' = ds @ (if manual then [] else append_direction [] ref mn n mx)"
    and "cp_directional_queues ctx' = cp_directional_queues ctx"
    and "\<not> cp_overflow ctx' \<Longrightarrow> \<not> cp_overflow ctx
      \<and> unat tot' = unat tot + (if manual then 0 else unat mn * unat n)
      \<and> unat (cp_manual_reserved ctx') = unat (cp_manual_reserved ctx)
          + (if manual then unat (if h = 0 then mx else h) * unat n else 0)"
proof -
  show "h' = (if manual then h else mn)" "same_config ctx ctx'"
    "ds' = ds @ (if manual then [] else append_direction [] ref mn n mx)"
    "cp_directional_queues ctx' = cp_directional_queues ctx"
    using assms append_direction_append [of ds ref mn n mx]
    by (auto simp: account_direction_def same_config_def Let_def split: if_splits prod.splits)
  assume ov: "\<not> cp_overflow ctx'"
  show "\<not> cp_overflow ctx
      \<and> unat tot' = unat tot + (if manual then 0 else unat mn * unat n)
      \<and> unat (cp_manual_reserved ctx') = unat (cp_manual_reserved ctx)
          + (if manual then unat (if h = 0 then mx else h) * unat n else 0)"
  proof (cases manual)
    case False
    then obtain m ov1 where m: "saturating_multiply mn n (cp_overflow ctx) = (m, ov1)"
        "saturating_add tot m ov1 = (tot', cp_overflow ctx')" "cp_manual_reserved ctx' = cp_manual_reserved ctx"
      using assms by (auto simp: account_direction_def Let_def split: prod.splits)
    with False show ?thesis
      using saturating_addD [OF m(2) ov] saturating_multiplyD [OF m(1)] by simp
  next
    case man: True
    show ?thesis
    proof (cases "n > 0")
      case True
      obtain m ov1 r ov2 where m: "saturating_multiply (if h = 0 then mx else h) n (cp_overflow ctx) = (m, ov1)"
          "saturating_add (cp_manual_reserved ctx) m ov1 = (r, ov2)" by force
      have "tot' = tot" "cp_manual_reserved ctx' = r" and ov2: "\<not> ov2"
        using assms man True m ov saturating_add_sticky
        by (auto simp: account_direction_def Let_def split: prod.splits if_splits)
      with man show ?thesis
        using saturating_addD [OF m(2) ov2] saturating_multiplyD [OF m(1)] by simp
    next
      case False
      then have "n = 0" by (simp add: word_gt_0)
      with assms man ov show ?thesis by (auto simp: account_direction_def)
    qed
  qed
qed

lemma count_queues_eq:
  "same_config ctx (count_queues p ctx) \<and> cp_manual_reserved (count_queues p ctx) = cp_manual_reserved ctx
   \<and> (\<not> cp_overflow (count_queues p ctx) \<longrightarrow> \<not> cp_overflow ctx
      \<and> unat (cp_directional_queues (count_queues p ctx))
          = unat (cp_directional_queues ctx) + unat (sp_send_count p) + unat (sp_receive_count p))"
proof -
  obtain s o1 r o2 b o3 d o4 where q: "saturating_add (cp_send_queues ctx) (sp_send_count p) (cp_overflow ctx) = (s, o1)"
      "saturating_add (cp_receive_queues ctx) (sp_receive_count p) o1 = (r, o2)"
      "saturating_add (sp_send_count p) (sp_receive_count p) o2 = (b, o3)"
      "saturating_add (cp_directional_queues ctx) b o3 = (d, o4)" by (metis surj_pair)
  have "\<not> o4 \<longrightarrow> \<not> cp_overflow ctx \<and> unat d = unat (cp_directional_queues ctx) + unat (sp_send_count p) + unat (sp_receive_count p)"
    using saturating_addD [OF q(1)] saturating_addD [OF q(2)] saturating_addD [OF q(3)] saturating_addD [OF q(4)] by auto
  moreover have "count_queues p ctx =
      ctx\<lparr>cp_send_queues := s, cp_receive_queues := r, cp_directional_queues := d, cp_overflow := o4\<rparr>"
    by (simp add: count_queues_def q)
  ultimately show ?thesis by (simp add: same_config_def)
qed

lemma account_plan_eq:
  assumes "account_plan i p (ctx, tot, ds) = (p', ctx', tot', ds')"
  shows "p' = prep_plan (cp_profile ctx) p \<and> same_config ctx ctx' \<and> ds' = ds @ plan_dirs i p'
    \<and> (\<not> cp_overflow ctx' \<longrightarrow> \<not> cp_overflow ctx \<and> unat tot' = unat tot + auto_bytes p'
        \<and> unat (cp_manual_reserved ctx') = unat (cp_manual_reserved ctx) + reserved_bytes p'
        \<and> unat (cp_directional_queues ctx') = unat (cp_directional_queues ctx) + plan_queues p')"
proof (cases "sp_enabled p")
  case False
  with assms show ?thesis
    by (auto simp: account_plan_def prep_plan_def Let_def same_config_def plan_dirs_def auto_bytes_def
        reserved_bytes_def plan_queues_def)
next
  case True
  define mn mx where "mn = auto_hwm_profile_minimum_bytes (cp_profile ctx) (sp_role p)"
    and "mx = auto_hwm_profile_maximum_bytes (cp_profile ctx) (sp_role p)"
  define p1 where "p1 = p\<lparr>sp_minimum := mn, sp_maximum := mx\<rparr>"
  define c0 where "c0 = count_queues p1 ctx"
  obtain s c1 t1 ds1 where 1: "account_direction (i, Send_side) (sp_manual_snd p) (sp_send_count p)
      (sp_sndhwm p) mn mx (c0, tot, ds) = (s, c1, t1, ds1)" by (metis prod_cases4)
  obtain r c2 t2 ds2 where 2: "account_direction (i, Receive_side) (sp_manual_rcv p) (sp_receive_count p)
      (sp_rcvhwm p) mn mx (c1, t1, ds1) = (r, c2, t2, ds2)" by (metis prod_cases4)
  have res: "p' = p1\<lparr>sp_sndhwm := s, sp_rcvhwm := r\<rparr>" "ctx' = c2" "tot' = t2" "ds' = ds2"
    using assms True 1 2 by (auto simp: account_plan_def Let_def p1_def c0_def mn_def mx_def)
  note a = account_direction_eq [OF 1] and b = account_direction_eq [OF 2]
  note q = count_queues_eq [of ctx p1, folded c0_def]
  have p': "p' = prep_plan (cp_profile ctx) p"
    using True by (simp add: res a(1) b(1) p1_def prep_plan_def mn_def mx_def Let_def)
  have "same_config ctx ctx'" using q a(2) b(2) same_config_trans unfolding res by blast
  moreover have "ds' = ds @ plan_dirs i p'"
    using True by (simp add: res a(1,3) b(1,3) plan_dirs_def p1_def)
  moreover have "\<not> cp_overflow ctx \<and> unat tot' = unat tot + auto_bytes p'
        \<and> unat (cp_manual_reserved ctx') = unat (cp_manual_reserved ctx) + reserved_bytes p'
        \<and> unat (cp_directional_queues ctx') = unat (cp_directional_queues ctx) + plan_queues p'"
    if "\<not> cp_overflow ctx'"
  proof -
    have ov: "\<not> cp_overflow c2" using that res by simp
    note b' = b(5) [OF ov]
    note a' = a(5) [OF conjunct1 [OF b']]
    have q': "\<not> cp_overflow ctx" "cp_manual_reserved c0 = cp_manual_reserved ctx"
        "unat (cp_directional_queues c0) = unat (cp_directional_queues ctx) + unat (sp_send_count p) + unat (sp_receive_count p)"
      using q a' by (auto simp: p1_def)
    have "auto_bytes p' = (if sp_manual_snd p then 0 else unat mn * unat (sp_send_count p))
        + (if sp_manual_rcv p then 0 else unat mn * unat (sp_receive_count p))"
      using True by (simp add: res a(1) b(1) auto_bytes_def p1_def)
    moreover have "reserved_bytes p' =
        (if sp_manual_snd p then unat (if sp_sndhwm p = 0 then mx else sp_sndhwm p) * unat (sp_send_count p) else 0)
        + (if sp_manual_rcv p then unat (if sp_rcvhwm p = 0 then mx else sp_rcvhwm p) * unat (sp_receive_count p) else 0)"
      using True by (simp add: res a(1) b(1) reserved_bytes_def p1_def)
    moreover have "plan_queues p' = unat (sp_send_count p) + unat (sp_receive_count p)"
      using True by (simp add: res plan_queues_def p1_def)
    ultimately show ?thesis using a' b' q' by (simp add: res a(4) b(4))
  qed
  ultimately show ?thesis using p' by blast
qed

lemma account_plans_eq:
  "account_plans i ps (ctx, tot, ds) = (ps', ctx', tot', ds') \<Longrightarrow>
     ps' = map (prep_plan (cp_profile ctx)) ps \<and> same_config ctx ctx' \<and> ds' = ds @ all_dirs i ps'
     \<and> (\<not> cp_overflow ctx' \<longrightarrow> \<not> cp_overflow ctx \<and> unat tot' = unat tot + sum_plans auto_bytes ps'
        \<and> unat (cp_manual_reserved ctx') = unat (cp_manual_reserved ctx) + sum_plans reserved_bytes ps'
        \<and> unat (cp_directional_queues ctx') = unat (cp_directional_queues ctx) + sum_plans plan_queues ps')"
proof (induction ps arbitrary: i ctx tot ds ps')
  case (Cons p ps)
  obtain p1 c1 t1 ds1 where 1: "account_plan i p (ctx, tot, ds) = (p1, c1, t1, ds1)" by (metis prod_cases4)
  obtain ps1 where 2: "account_plans (i + 1) ps (c1, t1, ds1) = (ps1, ctx', tot', ds')" "ps' = p1 # ps1"
    using Cons.prems 1 by (auto split: prod.splits)
  note a = account_plan_eq [OF 1] and IH = Cons.IH [OF 2(1)]
  have "cp_profile c1 = cp_profile ctx" using a by (simp add: same_config_def)
  with a IH 2(2) same_config_trans [of ctx c1 ctx'] show ?case by auto
qed (simp add: same_config_def)

lemma all_dirs_ok:
  assumes "\<And>p. p \<in> set ps \<Longrightarrow> sp_enabled p \<Longrightarrow> \<not> sp_manual_snd p \<Longrightarrow> sp_sndhwm p \<le> sp_maximum p"
    and "\<And>p. p \<in> set ps \<Longrightarrow> sp_enabled p \<Longrightarrow> \<not> sp_manual_rcv p \<Longrightarrow> sp_rcvhwm p \<le> sp_maximum p"
  shows "(\<forall>d \<in> set (all_dirs i ps). dir_ok d \<and> i \<le> fst (d_ref d)) \<and> queues (all_dirs i ps) \<le> sum_plans plan_queues ps"
  using assms
proof (induction ps arbitrary: i)
  case (Cons p ps)
  have "(\<forall>d \<in> set (all_dirs (i + 1) ps). dir_ok d \<and> i + 1 \<le> fst (d_ref d))
      \<and> queues (all_dirs (i + 1) ps) \<le> sum_plans plan_queues ps"
    by (rule Cons.IH) (use Cons.prems in auto)
  moreover have "(\<forall>d \<in> set (plan_dirs i p). dir_ok d \<and> i = fst (d_ref d)) \<and> queues (plan_dirs i p) \<le> plan_queues p"
    using Cons.prems [of p]
    by (auto simp: plan_dirs_def append_direction_def dir_ok_def plan_queues_def)
  ultimately show ?case by fastforce
qed simp

subsection \<open>Writing the cells back\<close>

definition cell_after :: "direction list \<Rightarrow> bool \<Rightarrow> u64 \<Rightarrow> u64 \<Rightarrow> u64 \<Rightarrow> u64 \<Rightarrow> bool" where
  "cell_after ds automatic n mx h h' \<longleftrightarrow>
     (if automatic \<and> 0 < n \<and> h < mx
      then h \<le> h' \<and> h' \<le> mx \<and> (\<exists>d \<in> set ds. d_hwm d = h' \<and> d_count d = n \<and> d_maximum d = mx)
      else h' = h)"

definition plan_after :: "direction list \<Rightarrow> socket_plan \<Rightarrow> socket_plan \<Rightarrow> bool" where
  "plan_after ds p p' \<longleftrightarrow>
     (\<exists>s r. p' = p\<lparr>sp_sndhwm := s, sp_rcvhwm := r\<rparr>
        \<and> cell_after ds (sp_enabled p \<and> \<not> sp_manual_snd p) (sp_send_count p) (sp_maximum p) (sp_sndhwm p) s
        \<and> cell_after ds (sp_enabled p \<and> \<not> sp_manual_rcv p) (sp_receive_count p) (sp_maximum p) (sp_rcvhwm p) r)"

lemma cell_after_mono: "cell_after ds a n mx h h' \<Longrightarrow> set ds \<subseteq> set ds' \<Longrightarrow> cell_after ds' a n mx h h'"
  unfolding cell_after_def by (auto split: if_splits)

lemma plan_after_mono: "plan_after ds p p' \<Longrightarrow> set ds \<subseteq> set ds' \<Longrightarrow> plan_after ds' p p'"
  unfolding plan_after_def using cell_after_mono [of ds _ _ _ _ _ ds'] by blast

lemma cell_none: "(\<And>d. d \<in> set ds \<Longrightarrow> d_ref d \<noteq> ref) \<Longrightarrow> cell ds ref v = v"
  by (metis (mono_tags, lifting) cell_def find_None_iff option.case(1))

lemma cell_append: "(\<And>d. d \<in> set es \<Longrightarrow> d_ref d \<noteq> ref) \<Longrightarrow> cell (es @ ds) ref v = cell ds ref v"
  by (induction es) (auto simp: cell_def)

lemma cell_append_right: "(\<And>d. d \<in> set es \<Longrightarrow> d_ref d \<noteq> ref) \<Longrightarrow> cell (ds @ es) ref v = cell ds ref v"
  using cell_none [of es ref v] by (induction ds) (auto simp: cell_def)

lemma write_back_plan:
  assumes "list_all2 grown (plan_dirs i p) ds"
  shows "plan_after ds p (p\<lparr>sp_sndhwm := cell ds (i, Send_side) (sp_sndhwm p), sp_rcvhwm := cell ds (i, Receive_side) (sp_rcvhwm p)\<rparr>)
     \<and> auto_bytes (p\<lparr>sp_sndhwm := cell ds (i, Send_side) (sp_sndhwm p), sp_rcvhwm := cell ds (i, Receive_side) (sp_rcvhwm p)\<rparr>)
       + held (plan_dirs i p) = auto_bytes p + held ds
     \<and> (\<forall>d \<in> set ds. fst (d_ref d) = i)"
proof -
  define S R where "S \<longleftrightarrow> sp_enabled p \<and> \<not> sp_manual_snd p \<and> 0 < sp_send_count p \<and> sp_sndhwm p < sp_maximum p"
    and "R \<longleftrightarrow> sp_enabled p \<and> \<not> sp_manual_rcv p \<and> 0 < sp_receive_count p \<and> sp_rcvhwm p < sp_maximum p"
  define D E where "D = \<lparr>d_ref = (i, Send_side), d_hwm = sp_sndhwm p, d_count = sp_send_count p, d_maximum = sp_maximum p\<rparr>"
    and "E = \<lparr>d_ref = (i, Receive_side), d_hwm = sp_rcvhwm p, d_count = sp_receive_count p, d_maximum = sp_maximum p\<rparr>"
  have dirs: "plan_dirs i p = (if S then [D] else []) @ (if R then [E] else [])"
    by (auto simp: plan_dirs_def append_direction_def S_def R_def D_def E_def)
  show ?thesis
  proof (cases S; cases R)
    assume "S" "R"
    then obtain s r where "ds = [D\<lparr>d_hwm := s\<rparr>, E\<lparr>d_hwm := r\<rparr>]" "sp_sndhwm p \<le> s" "s \<le> sp_maximum p"
        "sp_rcvhwm p \<le> r" "r \<le> sp_maximum p"
      using assms unfolding dirs by (auto simp: list_all2_Cons1 grown_def D_def E_def)
    then show ?thesis using \<open>S\<close> \<open>R\<close> unfolding dirs
      by (auto simp: plan_after_def cell_after_def cell_def auto_bytes_def S_def R_def D_def E_def)
  next
    assume "S" "\<not> R"
    then obtain s where "ds = [D\<lparr>d_hwm := s\<rparr>]" "sp_sndhwm p \<le> s" "s \<le> sp_maximum p"
      using assms unfolding dirs by (auto simp: list_all2_Cons1 grown_def D_def)
    then show ?thesis using \<open>S\<close> \<open>\<not> R\<close> unfolding dirs
      by (auto simp: plan_after_def cell_after_def cell_def auto_bytes_def S_def R_def D_def)
  next
    assume "\<not> S" "R"
    then obtain r where "ds = [E\<lparr>d_hwm := r\<rparr>]" "sp_rcvhwm p \<le> r" "r \<le> sp_maximum p"
      using assms unfolding dirs by (auto simp: list_all2_Cons1 grown_def E_def)
    then show ?thesis using \<open>\<not> S\<close> \<open>R\<close> unfolding dirs
      by (auto simp: plan_after_def cell_after_def cell_def auto_bytes_def S_def R_def E_def)
  next
    assume "\<not> S" "\<not> R"
    then have "ds = []" using assms by (simp add: dirs)
    moreover have "cell_after [] (sp_enabled p \<and> \<not> sp_manual_snd p) (sp_send_count p) (sp_maximum p) (sp_sndhwm p) (sp_sndhwm p)"
      using \<open>\<not> S\<close> unfolding cell_after_def S_def by argo
    moreover have "cell_after [] (sp_enabled p \<and> \<not> sp_manual_rcv p) (sp_receive_count p) (sp_maximum p) (sp_rcvhwm p) (sp_rcvhwm p)"
      using \<open>\<not> R\<close> unfolding cell_after_def R_def by argo
    moreover have "p = p\<lparr>sp_sndhwm := sp_sndhwm p, sp_rcvhwm := sp_rcvhwm p\<rparr>" by simp
    ultimately have "plan_after [] p p" unfolding plan_after_def by blast
    with \<open>ds = []\<close> \<open>\<not> S\<close> \<open>\<not> R\<close> show ?thesis unfolding dirs by (simp add: cell_def)
  qed
qed

lemma write_back_eq:
  "list_all2 grown (all_dirs i ps) ds \<Longrightarrow> (\<And>d. d \<in> set es \<Longrightarrow> fst (d_ref d) < i) \<Longrightarrow>
     list_all2 (plan_after ds) ps (write_back i ps (es @ ds))
     \<and> sum_plans auto_bytes (write_back i ps (es @ ds)) + held (all_dirs i ps) = sum_plans auto_bytes ps + held ds
     \<and> (\<forall>d \<in> set ds. i \<le> fst (d_ref d))"
proof (induction ps arbitrary: i ds es)
  case (Cons p ps)
  obtain d1 d2 where ds: "ds = d1 @ d2" "list_all2 grown (plan_dirs i p) d1" "list_all2 grown (all_dirs (i + 1) ps) d2"
    using Cons.prems(1) by (auto simp: list_all2_append1)
  note one = write_back_plan [OF ds(2)]
  have lt: "fst (d_ref d) < i + 1" if "d \<in> set (es @ d1)" for d
    using that Cons.prems(2) one by fastforce
  note IH = Cons.IH [of "i + 1" d2 "es @ d1", OF ds(3) lt]
  have c: "cell (es @ ds) (i, sd) v = cell d1 (i, sd) v" for sd v
  proof -
    have "cell (es @ ds) (i, sd) v = cell ds (i, sd) v" by (rule cell_append) (use Cons.prems(2) in force)
    also have "\<dots> = cell d1 (i, sd) v" unfolding ds(1) by (rule cell_append_right) (use IH in force)
    finally show ?thesis .
  qed
  have "list_all2 (plan_after ds) ps (write_back (i + 1) ps (es @ ds))"
    by (rule list_all2_mono [of "plan_after d2"]) (use IH plan_after_mono [of d2 _ _ ds] in \<open>simp_all add: ds(1)\<close>)
  moreover have "plan_after ds p (p\<lparr>sp_sndhwm := cell d1 (i, Send_side) (sp_sndhwm p), sp_rcvhwm := cell d1 (i, Receive_side) (sp_rcvhwm p)\<rparr>)"
    by (rule plan_after_mono [OF conjunct1 [OF one]]) (simp add: ds(1))
  ultimately show ?case using IH one by (auto simp: c ds(1)) (use IH one in \<open>auto simp: ds(1) c [unfolded ds(1)]\<close>)
qed simp

lemma plan_after_reserved: "plan_after ds p p' \<Longrightarrow> reserved_bytes p' = reserved_bytes p"
proof -
  assume "plan_after ds p p'"
  then obtain s r where p': "p' = p\<lparr>sp_sndhwm := s, sp_rcvhwm := r\<rparr>"
      "cell_after ds (sp_enabled p \<and> \<not> sp_manual_snd p) (sp_send_count p) (sp_maximum p) (sp_sndhwm p) s"
      "cell_after ds (sp_enabled p \<and> \<not> sp_manual_rcv p) (sp_receive_count p) (sp_maximum p) (sp_rcvhwm p) r"
    by (auto simp: plan_after_def)
  have "s = sp_sndhwm p" if "sp_manual_snd p" using p'(2) that by (simp add: cell_after_def)
  moreover have "r = sp_rcvhwm p" if "sp_manual_rcv p" using p'(3) that by (simp add: cell_after_def)
  ultimately show ?thesis by (simp add: p'(1) reserved_bytes_def)
qed

lemma plans_after_reserved: "list_all2 (plan_after ds) ps ps' \<Longrightarrow> sum_plans reserved_bytes ps' = sum_plans reserved_bytes ps"
  by (induction rule: list_all2_induct) (simp_all add: plan_after_reserved)

lemma planned_total_exact:
  "unat tot + sum_plans auto_bytes ps < 2 ^ 64 \<Longrightarrow>
     \<exists>tot'. planned_total ps tot ov = (tot', ov) \<and> unat tot' = unat tot + sum_plans auto_bytes ps"
proof (induction ps arbitrary: tot)
  case (Cons p ps)
  have step: "\<exists>t'. (if \<not> m then let (x, ov) = saturating_multiply h n ov in saturating_add t x ov else (t, ov)) = (t', ov)
      \<and> unat t' = unat t + (if m then 0 else unat h * unat n)"
    if "unat t + (if m then 0 else unat h * unat n) < 2 ^ 64" for m h n t
  proof (cases m)
    case False
    have "saturating_multiply h n ov = (h * n, ov)" using that False by (intro saturating_multiply_exact) simp
    moreover have u: "unat (h * n) = unat h * unat n" using that False by (intro unat_mult_lem [THEN iffD1]) simp
    moreover have "saturating_add t (h * n) ov = (t + h * n, ov)"
      using that False u by (intro saturating_add_exact) simp
    moreover have "unat (t + h * n) = unat t + unat (h * n)"
      using that False u by (intro unat_add_lem [THEN iffD1]) simp
    ultimately show ?thesis using False by simp
  qed simp
  show ?case
  proof (cases "sp_enabled p")
    case True
    define s r where "s = (if sp_manual_snd p then 0 else unat (sp_sndhwm p) * unat (sp_send_count p))"
      and "r = (if sp_manual_rcv p then 0 else unat (sp_rcvhwm p) * unat (sp_receive_count p))"
    have ab: "auto_bytes p = s + r" using True by (simp add: auto_bytes_def s_def r_def)
    obtain t1 where t1: "(if \<not> sp_manual_snd p then let (x, ov) = saturating_multiply (sp_sndhwm p) (sp_send_count p) ov
         in saturating_add tot x ov else (tot, ov)) = (t1, ov)" "unat t1 = unat tot + s"
      using step [of tot "sp_manual_snd p"] Cons.prems ab unfolding s_def by (metis (no_types, lifting) add.assoc add_lessD1 list.simps(9) sum_list.Cons)
    obtain t2 where t2: "(if \<not> sp_manual_rcv p then let (x, ov) = saturating_multiply (sp_rcvhwm p) (sp_receive_count p) ov
         in saturating_add t1 x ov else (t1, ov)) = (t2, ov)" "unat t2 = unat t1 + r"
      using step [of t1 "sp_manual_rcv p"] Cons.prems ab t1(2) unfolding r_def by (metis (no_types, lifting) add.assoc add_lessD1 list.simps(9) sum_list.Cons)
    have "unat t2 + sum_plans auto_bytes ps < 2 ^ 64" using Cons.prems ab t1(2) t2(2) by simp
    from Cons.IH [OF this] show ?thesis using True t1 t2 ab by (auto simp: Let_def split: prod.splits)
  next
    case False
    with Cons show ?thesis by (auto simp: auto_bytes_def)
  qed
qed simp

subsection \<open>What a finalized plan guarantees\<close>

text \<open>The plans a run of the policy works with: prepared, then grown by the directions \<open>ds\<close>.\<close>

definition finalized :: "context_plan \<Rightarrow> socket_plan list \<Rightarrow> context_plan \<Rightarrow> socket_plan list \<Rightarrow> bool" where
  "finalized ctx plans ctx' plans' \<longleftrightarrow>
     (let prep = map (prep_plan (cp_profile ctx)) plans; bytes = sum_plans auto_bytes plans' + sum_plans reserved_bytes plans' in
      if cp_insufficient ctx' then plans' = prep
      else bytes = unat (cp_total_planned ctx') \<and> bytes \<le> unat (cp_effective_core_budget ctx')
        \<and> cp_total_applied ctx' = cp_total_planned ctx' \<and> \<not> cp_overflow ctx'
        \<and> (if cp_enabled ctx
            then \<exists>ds. list_all2 (plan_after ds) prep plans'
              \<and> (\<forall>d \<in> set ds. unsaturated d \<longrightarrow> unat (cp_effective_core_budget ctx') < bytes + unat (d_count d))
            else plans' = prep))"

lemma prep_plan_ok:
  "p \<in> set (map (prep_plan prof) ps) \<Longrightarrow> sp_minimum p \<le> sp_maximum p
     \<and> (sp_enabled p \<and> \<not> sp_manual_snd p \<longrightarrow> sp_sndhwm p = sp_minimum p)
     \<and> (sp_enabled p \<and> \<not> sp_manual_rcv p \<longrightarrow> sp_rcvhwm p = sp_minimum p)"
  by (auto simp: prep_plan_def Let_def minimum_le_maximum)

lemma data_budget_exact:
  "cp_manual_reserved c \<le> cp_effective_core_budget c \<Longrightarrow>
     unat (data_budget c) = unat (cp_effective_core_budget c) - unat (cp_manual_reserved c)"
  by (auto simp: data_budget_def unat_sub)

lemma record_totals_exact:
  assumes "sum_plans auto_bytes ps + unat (cp_manual_reserved c) < 2 ^ 64" "\<not> cp_overflow c" "\<not> cp_insufficient c"
  shows "unat (cp_total_planned (record_totals c ps)) = sum_plans auto_bytes ps + unat (cp_manual_reserved c)
    \<and> cp_total_applied (record_totals c ps) = cp_total_planned (record_totals c ps)
    \<and> \<not> cp_overflow (record_totals c ps) \<and> \<not> cp_insufficient (record_totals c ps)
    \<and> cp_effective_core_budget (record_totals c ps) = cp_effective_core_budget c"
proof -
  obtain t where t: "planned_total ps 0 False = (t, False)" "unat t = sum_plans auto_bytes ps"
    using planned_total_exact [of 0 ps False] assms(1) by auto
  moreover have "saturating_add t (cp_manual_reserved c) False = (t + cp_manual_reserved c, False)"
    using assms(1) t(2) by (intro saturating_add_exact) simp
  moreover have "unat (t + cp_manual_reserved c) = unat t + unat (cp_manual_reserved c)"
    using assms(1) t(2) by (intro unat_add_lem [THEN iffD1]) simp
  ultimately show ?thesis using assms(2,3) by (simp add: record_totals_def)
qed

lemma finalize_prepared:
  assumes "account_plans 0 plans (reset_context ctx, 0, []) = (ps, c0, mt, ds)" "c = resolve_budget c0"
  shows "ps = map (prep_plan (cp_profile ctx)) plans" "ds = all_dirs 0 ps" "cp_enabled c = cp_enabled ctx"
    and "\<not> cp_insufficient c" "\<forall>d \<in> set ds. dir_ok d"
    and "\<not> cp_overflow c \<Longrightarrow> unat mt = sum_plans auto_bytes ps \<and> unat (cp_manual_reserved c) = sum_plans reserved_bytes ps
      \<and> queues ds < 2 ^ 64"
proof -
  note a = account_plans_eq [OF assms(1)]
  show ps: "ps = map (prep_plan (cp_profile ctx)) plans" using a by (simp add: reset_context_def)
  show ds: "ds = all_dirs 0 ps" using a by simp
  show "cp_enabled c = cp_enabled ctx" "\<not> cp_insufficient c"
    using a assms(2) by (auto simp: same_config_def reset_context_def resolve_budget_def)
  have dirs: "(\<forall>d \<in> set (all_dirs 0 ps). dir_ok d \<and> 0 \<le> fst (d_ref d)) \<and> queues (all_dirs 0 ps) \<le> sum_plans plan_queues ps"
    by (rule all_dirs_ok) (use prep_plan_ok [of _ "cp_profile ctx" plans] ps in auto)
  then show "\<forall>d \<in> set ds. dir_ok d" by (simp add: ds)
  assume "\<not> cp_overflow c"
  then have "\<not> cp_overflow c0" using assms(2) by (auto simp: resolve_budget_def split: if_splits)
  with a have "unat mt = sum_plans auto_bytes ps" "unat (cp_manual_reserved c0) = sum_plans reserved_bytes ps"
      "unat (cp_directional_queues c0) = sum_plans plan_queues ps"
    by (simp_all add: reset_context_def)
  with dirs unat_u64_less [of "cp_directional_queues c0"] show "unat mt = sum_plans auto_bytes ps \<and> unat (cp_manual_reserved c) = sum_plans reserved_bytes ps
      \<and> queues ds < 2 ^ 64"
    using assms(2) by (auto simp: resolve_budget_def ds)
qed

lemma finalize_correct:
  assumes "auto_hwm_context_finalize ctx plans = (ctx', plans')"
  shows "finalized ctx plans ctx' plans'"
proof -
  obtain ps c0 mt ds where acc: "account_plans 0 plans (reset_context ctx, 0, []) = (ps, c0, mt, ds)" by (metis prod_cases4)
  define c where "c = resolve_budget c0"
  note prep = finalize_prepared [OF acc c_def]
  obtain c1 ps1 where dist: "distribute c mt ds ps = (c1, ps1)" by force
  have res: "ctx' = record_totals c1 ps1" "plans' = ps1"
    using assms acc dist by (auto simp: auto_hwm_context_finalize_def c_def)
  let ?bad = "cp_manual_reserved c > cp_effective_core_budget c \<or> mt > data_budget c \<or> cp_overflow c"
  show ?thesis
  proof (cases ?bad)
    case True
    then have "c1 = c\<lparr>cp_insufficient := True\<rparr>" "ps1 = ps" using dist by (auto simp: distribute_def)
    then have "cp_insufficient ctx'" "plans' = ps"
      by (auto simp: res record_totals_def Let_def split: prod.splits)
    then show ?thesis using prep(1) by (simp add: finalized_def)
  next
    case False
    note ok = False
    have ov: "\<not> cp_overflow c" and man: "cp_manual_reserved c \<le> cp_effective_core_budget c" and mt: "mt \<le> data_budget c"
      using ok by auto
    note s = prep(6) [OF ov]
    have db: "unat (data_budget c) = unat (cp_effective_core_budget c) - unat (cp_manual_reserved c)"
      using man by (rule data_budget_exact)
    have rem: "unat (data_budget c - mt) = unat (data_budget c) - unat mt" using mt by (rule unat_sub)
    define eff where "eff = unat (cp_effective_core_budget c)"
    have le: "sum_plans auto_bytes ps + sum_plans reserved_bytes ps \<le> eff"
      using s db mt man by (simp add: word_le_nat_alt eff_def)
    have *: "\<not> cp_overflow c1 \<and> \<not> cp_insufficient c1
        \<and> cp_effective_core_budget c1 = cp_effective_core_budget c \<and> cp_manual_reserved c1 = cp_manual_reserved c
        \<and> sum_plans auto_bytes ps1 + sum_plans reserved_bytes ps \<le> eff
        \<and> sum_plans reserved_bytes ps1 = sum_plans reserved_bytes ps
        \<and> (if cp_enabled ctx then \<exists>ds'. list_all2 (plan_after ds') ps ps1 \<and> (\<forall>d \<in> set ds'. unsaturated d \<longrightarrow>
             eff < sum_plans auto_bytes ps1 + sum_plans reserved_bytes ps + unat (d_count d))
            else ps1 = ps)"
    proof (cases "cp_enabled ctx")
      case True
      obtain ds' r' ov' where w: "water_fill ds (data_budget c - mt) False = (ds', r', ov')" by (metis prod_cases3)
      have "queues ds < 2 ^ 64" using s by simp
      with water_fill_correct [OF _ _ w] prep(5) have fill: "fills ds (data_budget c - mt) ds' r'" "\<not> ov'"
          "\<forall>d \<in> set ds'. unsaturated d \<longrightarrow> r' < d_count d" by auto
      have c1: "c1 = c\<lparr>cp_overflow := ov'\<rparr>" "ps1 = write_back 0 ps ds'"
        using dist ok True ov w prep(3) by (auto simp: distribute_def)
      have wb: "list_all2 (plan_after ds') ps ps1"
          "sum_plans auto_bytes ps1 + held ds = sum_plans auto_bytes ps + held ds'"
        using write_back_eq [of 0 ps ds' "[]"] fill(1) by (auto simp: fills_def prep(2) c1)
      have "held ds' + unat r' = held ds + (unat (data_budget c) - unat mt)" using fill(1) rem by (simp add: fills_def)
      then have tot: "sum_plans auto_bytes ps1 + unat r' + sum_plans reserved_bytes ps = eff"
        using wb(2) s db mt man by (simp add: word_le_nat_alt eff_def)
      have "eff < sum_plans auto_bytes ps1 + sum_plans reserved_bytes ps + unat (d_count d)"
        if "d \<in> set ds'" "unsaturated d" for d
        using fill(3) that tot by (auto simp: word_less_nat_alt)
      with wb(1) have "\<exists>ds'. list_all2 (plan_after ds') ps ps1 \<and> (\<forall>d \<in> set ds'. unsaturated d \<longrightarrow>
             eff < sum_plans auto_bytes ps1 + sum_plans reserved_bytes ps + unat (d_count d))" by blast
      moreover have "sum_plans reserved_bytes ps1 = sum_plans reserved_bytes ps" using wb(1) by (rule plans_after_reserved)
      ultimately show ?thesis using True fill(2) tot prep(4) by (simp add: c1)
    next
      case False
      then have c1: "c1 = c" "ps1 = ps" using dist ok prep(3) by (auto simp: distribute_def)
      with False le ov prep(4) show ?thesis by simp
    qed
    have lt: "sum_plans auto_bytes ps1 + unat (cp_manual_reserved c1) < 2 ^ 64"
      using * s unat_u64_less [of "cp_effective_core_budget c"] by (simp add: eff_def)
    have rt: "unat (cp_total_planned (record_totals c1 ps1)) = sum_plans auto_bytes ps1 + unat (cp_manual_reserved c1)
        \<and> cp_total_applied (record_totals c1 ps1) = cp_total_planned (record_totals c1 ps1)
        \<and> \<not> cp_overflow (record_totals c1 ps1) \<and> \<not> cp_insufficient (record_totals c1 ps1)
        \<and> cp_effective_core_budget (record_totals c1 ps1) = cp_effective_core_budget c1"
      using * by (intro record_totals_exact [OF lt]) auto
    show ?thesis
      unfolding finalized_def Let_def res prep(1) [symmetric] using rt * s le
      by (cases "cp_enabled ctx") (simp_all add: eff_def)
  qed
qed

text \<open>A context with four peer queues sending and two receiving, and one manual limit.\<close>

definition ex_input :: budget_input where
  "ex_input = \<lparr>bi_enabled = True, bi_profile = PROFILE_BALANCED, bi_configured_memory_limit = 0,
     bi_configured_core_budget = 1000000, bi_detected_hard_limit = 0, bi_detected_physical_memory = 8 * 1024 * mib\<rparr>"

definition ex_plans :: "socket_plan list" where
  "ex_plans = [auto_hwm_socket_plan_prepare auto_hwm_role_peer_queue 4 2 False 0 False 0 True,
     auto_hwm_socket_plan_prepare auto_hwm_role_stream 1 1 True 1000 False 0 True]"

definition ex_final :: "context_plan \<times> socket_plan list" where
  "ex_final = auto_hwm_context_finalize (auto_hwm_context_plan_make ex_input) ex_plans"

lemma ex_final_facts:
  "\<not> cp_insufficient (fst ex_final)" "cp_enabled (auto_hwm_context_plan_make ex_input)"
  "map sp_sndhwm (snd ex_final) = [144655, 1000]" "map sp_rcvhwm (snd ex_final) = [144654, 131072]"
  "cp_total_planned (fst ex_final) = 1000000"
  by code_simp+

text \<open>C14: A plan that is not reported insufficient is exact and within its budget: the recorded total is
  the sum over all queues of their marks (the maximum of the role for an unlimited manual mark), no
  sum has wrapped, and the total does not exceed the byte budget.\<close>

theorem budget_respected:
  assumes "auto_hwm_context_finalize ctx plans = (ctx', plans')" "\<not> cp_insufficient ctx'"
  shows "unat (cp_total_planned ctx') = sum_plans auto_bytes plans' + sum_plans reserved_bytes plans'
     \<and> unat (cp_total_planned ctx') \<le> unat (cp_effective_core_budget ctx')
     \<and> cp_total_applied ctx' = cp_total_planned ctx' \<and> \<not> cp_overflow ctx'"
  using finalize_correct [OF assms(1)] assms(2) by (simp add: finalized_def Let_def)

theorem budget_respected_witness:
  "unat (cp_total_planned (fst ex_final)) = sum_plans auto_bytes (snd ex_final) + sum_plans reserved_bytes (snd ex_final)
     \<and> unat (cp_total_planned (fst ex_final)) \<le> unat (cp_effective_core_budget (fst ex_final))
     \<and> cp_total_planned (fst ex_final) = 1000000"
  using budget_respected [of "auto_hwm_context_plan_make ex_input" ex_plans "fst ex_final" "snd ex_final"]
    ex_final_facts(1,5) by (simp add: ex_final_def)

text \<open>The cells of the plans after the distribution.\<close>

lemma finalize_cells:
  assumes "auto_hwm_context_finalize ctx plans = (ctx', plans')" "p \<in> set plans'"
  shows "\<exists>ds q. q \<in> set (map (prep_plan (cp_profile ctx)) plans) \<and> (p = q \<or> plan_after ds q p)
     \<and> (cp_insufficient ctx' \<longrightarrow> p = q)
     \<and> (\<not> cp_insufficient ctx' \<and> cp_enabled ctx \<longrightarrow> plan_after ds q p
          \<and> (\<forall>d \<in> set ds. unsaturated d \<longrightarrow> unat (cp_effective_core_budget ctx') < unat (cp_total_planned ctx') + unat (d_count d)))"
proof -
  let ?prep = "map (prep_plan (cp_profile ctx)) plans"
  note f = finalize_correct [OF assms(1), unfolded finalized_def Let_def]
  show ?thesis
  proof (cases "\<not> cp_insufficient ctx' \<and> cp_enabled ctx")
    case True
    then obtain ds where ds: "list_all2 (plan_after ds) ?prep plans'"
        "\<forall>d \<in> set ds. unsaturated d \<longrightarrow> unat (cp_effective_core_budget ctx') < unat (cp_total_planned ctx') + unat (d_count d)"
      using f by (metis (no_types, lifting))
    obtain i where i: "i < length plans'" "p = plans' ! i" using assms(2) by (metis in_set_conv_nth)
    then have "?prep ! i \<in> set ?prep" "plan_after ds (?prep ! i) p"
      using ds(1) by (auto simp: list_all2_conv_all_nth)
    then show ?thesis using True ds(2) by blast
  next
    case False
    then have "plans' = ?prep" using f by (auto split: if_splits)
    with assms(2) False show ?thesis by blast
  qed
qed

lemma cell_range: "cell_after ds a n mx h h' \<Longrightarrow> h \<le> mx \<Longrightarrow> h \<le> h' \<and> h' \<le> mx"
  by (auto simp: cell_after_def split: if_splits)

lemma cell_unsaturated:
  "cell_after ds True n mx h h' \<Longrightarrow> 0 < n \<Longrightarrow> h' < mx \<Longrightarrow> \<exists>d \<in> set ds. unsaturated d \<and> d_count d = n"
  by (auto simp: cell_after_def unsaturated_def split: if_splits)



text \<open>C16: When planning is enabled and the budget suffices, nothing that could still be used is left: every
  automatic direction with queues is at the maximum of its role, or one more byte for each of its
  queues would exceed the budget.\<close>

theorem budget_used_up:
  assumes "auto_hwm_context_finalize ctx plans = (ctx', plans')" "cp_enabled ctx" "\<not> cp_insufficient ctx'"
    and "p \<in> set plans'" "sp_enabled p"
  shows "(\<not> sp_manual_snd p \<and> 0 < sp_send_count p \<and> sp_sndhwm p < sp_maximum p \<longrightarrow>
            unat (cp_effective_core_budget ctx') < unat (cp_total_planned ctx') + unat (sp_send_count p))
     \<and> (\<not> sp_manual_rcv p \<and> 0 < sp_receive_count p \<and> sp_rcvhwm p < sp_maximum p \<longrightarrow>
            unat (cp_effective_core_budget ctx') < unat (cp_total_planned ctx') + unat (sp_receive_count p))"
proof -
  obtain ds q where q: "plan_after ds q p"
      "\<forall>d \<in> set ds. unsaturated d \<longrightarrow> unat (cp_effective_core_budget ctx') < unat (cp_total_planned ctx') + unat (d_count d)"
    using finalize_cells [OF assms(1,4)] assms(2,3) by blast
  then obtain s r where p: "p = q\<lparr>sp_sndhwm := s, sp_rcvhwm := r\<rparr>"
      "cell_after ds (sp_enabled q \<and> \<not> sp_manual_snd q) (sp_send_count q) (sp_maximum q) (sp_sndhwm q) s"
      "cell_after ds (sp_enabled q \<and> \<not> sp_manual_rcv q) (sp_receive_count q) (sp_maximum q) (sp_rcvhwm q) r"
    by (auto simp: plan_after_def)
  have en: "sp_enabled q" using assms(5) by (simp add: p(1))
  have "unat (cp_effective_core_budget ctx') < unat (cp_total_planned ctx') + unat (sp_send_count q)"
    if "\<not> sp_manual_snd q" "0 < sp_send_count q" "s < sp_maximum q"
    using cell_unsaturated [of ds "sp_send_count q" "sp_maximum q" "sp_sndhwm q" s] p(2) en that q(2) by auto
  moreover have "unat (cp_effective_core_budget ctx') < unat (cp_total_planned ctx') + unat (sp_receive_count q)"
    if "\<not> sp_manual_rcv q" "0 < sp_receive_count q" "r < sp_maximum q"
    using cell_unsaturated [of ds "sp_receive_count q" "sp_maximum q" "sp_rcvhwm q" r] p(3) en that q(2) by auto
  ultimately show ?thesis by (simp add: p(1))
qed

theorem budget_used_up_witness:
  "\<exists>p \<in> set (snd ex_final). sp_sndhwm p < sp_maximum p
     \<and> unat (cp_effective_core_budget (fst ex_final)) < unat (cp_total_planned (fst ex_final)) + unat (sp_send_count p)"
proof -
  let ?p = "snd ex_final ! 0"
  have "length (snd ex_final) = 2 \<and> sp_enabled ?p \<and> \<not> sp_manual_snd ?p \<and> 0 < sp_send_count ?p \<and> sp_sndhwm ?p < sp_maximum ?p"
    by code_simp
  moreover from this have "?p \<in> set (snd ex_final)" by (intro nth_mem) simp
  ultimately show ?thesis
    using budget_used_up [of "auto_hwm_context_plan_make ex_input" ex_plans "fst ex_final" "snd ex_final" ?p] ex_final_facts(1,2)
    by (intro bexI [of _ ?p]) (auto simp: ex_final_def)
qed

end
