(* ===== verification/Pipe_Array.thy ===== *)
theory Pipe_Array
  imports Prelude "HOL-Library.Multiset" "HOL-Library.Monad_Syntax"
begin

section \<open>Arrays that know the positions of their items\<close>

text \<open>
  Models \<open>utils/array.hpp\<close>: a vector of items each of which stores its own position, so that it is
  found and erased in constant time. The positions live in the items: an item that has left the
  array keeps its last position, one that never entered has -1. An access outside the vector,
  undefined in C++, is \<open>None\<close>.
\<close>

record 'p arr =
  arr_items :: "'p list"
  arr_idx :: "'p \<Rightarrow> int"

abbreviation arr_size :: "'p arr \<Rightarrow> nat" where
  "arr_size a \<equiv> length (arr_items a)"

definition arr_empty :: "'p arr" where
  "arr_empty = \<lparr>arr_items = [], arr_idx = (\<lambda>_. -1)\<rparr>"

definition arr_get :: "nat \<Rightarrow> 'p arr \<Rightarrow> 'p option" where
  "arr_get i a = (if i < arr_size a then Some (arr_items a ! i) else None)"

definition arr_push_back :: "'p \<Rightarrow> 'p arr \<Rightarrow> 'p arr" where
  "arr_push_back p a =
     \<lparr>arr_items = arr_items a @ [p], arr_idx = (arr_idx a)(p := int (arr_size a))\<rparr>"

definition arr_contains :: "'p \<Rightarrow> 'p arr \<Rightarrow> bool" where
  "arr_contains p a \<longleftrightarrow>
     (let i = arr_idx a p in i \<ge> 0 \<and> nat i < arr_size a \<and> arr_items a ! nat i = p)"

text \<open>\<open>index\<close> converts the stored position to an unsigned number: -1 becomes a huge one, which no
  array reaches and which is here any number outside.\<close>

definition arr_index :: "'p \<Rightarrow> 'p arr \<Rightarrow> nat" where
  "arr_index p a = (if arr_idx a p < 0 then 2 ^ 64 - nat (- arr_idx a p) else nat (arr_idx a p))"

definition arr_swap :: "nat \<Rightarrow> nat \<Rightarrow> 'p arr \<Rightarrow> 'p arr option" where
  "arr_swap i j a =
     (if i < arr_size a \<and> j < arr_size a then
        let p = arr_items a ! i; q = arr_items a ! j in
        Some \<lparr>arr_items = swap_list (arr_items a) i j, arr_idx = (arr_idx a)(p := int j, q := int i)\<rparr>
      else None)"

definition arr_erase_at :: "nat \<Rightarrow> 'p arr \<Rightarrow> 'p arr option" where
  "arr_erase_at i a =
     (if arr_items a = [] then Some a
      else if i < arr_size a then
        let b = last (arr_items a) in
        Some \<lparr>arr_items = butlast ((arr_items a)[i := b]), arr_idx = (arr_idx a)(b := int i)\<rparr>
      else None)"

definition arr_erase :: "'p \<Rightarrow> 'p arr \<Rightarrow> 'p arr option" where
  "arr_erase p a = arr_erase_at (arr_index p a) a"

subsection \<open>The invariant\<close>

definition arr_ok :: "'p arr \<Rightarrow> bool" where
  "arr_ok a \<longleftrightarrow> distinct (arr_items a) \<and> (\<forall>i < arr_size a. arr_idx a (arr_items a ! i) = int i)"

lemma arr_empty_ok [simp]: "arr_ok arr_empty" "arr_items arr_empty = []"
  by (simp_all add: arr_ok_def arr_empty_def)

lemma arr_ok_index:
  assumes "arr_ok a" "p \<in> set (arr_items a)"
  shows "arr_index p a < arr_size a" "arr_items a ! arr_index p a = p"
proof -
  obtain i where "i < arr_size a" "arr_items a ! i = p" using assms(2) by (metis in_set_conv_nth)
  then show "arr_index p a < arr_size a" "arr_items a ! arr_index p a = p"
    using assms(1) by (auto simp: arr_ok_def arr_index_def)
qed

lemma arr_ok_index_nth: "arr_ok a \<Longrightarrow> i < arr_size a \<Longrightarrow> arr_index (arr_items a ! i) a = i"
  by (simp add: arr_ok_def arr_index_def)

text \<open>Membership is decided correctly even with the stale positions of former items.\<close>

lemma arr_contains_iff: "arr_ok a \<Longrightarrow> arr_contains p a \<longleftrightarrow> p \<in> set (arr_items a)"
  unfolding arr_contains_def Let_def
  by (metis arr_ok_def in_set_conv_nth nat_int of_nat_0_le_iff)

lemma arr_push_back_ok:
  "arr_ok a \<Longrightarrow> p \<notin> set (arr_items a) \<Longrightarrow> arr_ok (arr_push_back p a)"
  by (auto simp: arr_ok_def arr_push_back_def nth_append less_Suc_eq)

lemma arr_push_back_items [simp]: "arr_items (arr_push_back p a) = arr_items a @ [p]"
  by (simp add: arr_push_back_def)

lemma mset_swap_list: "i < length xs \<Longrightarrow> j < length xs \<Longrightarrow> distinct (swap_list xs i j) = distinct xs \<and> set (swap_list xs i j) = set xs"
proof -
  assume "i < length xs" "j < length xs"
  then have "mset (swap_list xs i j) = mset xs" by (simp add: swap_list_def mset_swap)
  then show ?thesis by (metis distinct_count_atmost_1 set_mset_mset mset_eq_imp_distinct_iff)
qed

lemma arr_swap_ok:
  assumes "arr_ok a" "i < arr_size a" "j < arr_size a"
  shows "\<exists>a'. arr_swap i j a = Some a' \<and> arr_ok a' \<and> arr_items a' = swap_list (arr_items a) i j"
proof -
  let ?xs = "arr_items a"
  define a' where "a' = \<lparr>arr_items = swap_list ?xs i j, arr_idx = (arr_idx a)(?xs ! i := int j, ?xs ! j := int i)\<rparr>"
  have d: "distinct ?xs" and ix: "\<And>k. k < arr_size a \<Longrightarrow> arr_idx a (?xs ! k) = int k"
    using assms(1) by (auto simp: arr_ok_def)
  have "arr_ok a'"
    unfolding arr_ok_def
  proof (intro conjI allI impI)
    show "distinct (arr_items a')" using mset_swap_list [OF assms(2,3)] d by (simp add: a'_def)
    fix k assume "k < arr_size a'"
    then show "arr_idx a' (arr_items a' ! k) = int k"
      using assms(2,3) d ix by (auto simp: a'_def nth_swap_list nth_eq_iff_index_eq)
  qed
  moreover have "arr_swap i j a = Some a'" using assms(2,3) by (simp add: arr_swap_def a'_def Let_def)
  ultimately show ?thesis by (auto simp: a'_def)
qed

text \<open>Erasing an item moves the last one into its place.\<close>

lemma arr_erase_ok:
  assumes "arr_ok a" "p \<in> set (arr_items a)"
  shows "\<exists>a'. arr_erase p a = Some a' \<and> arr_ok a'
    \<and> arr_items a' = butlast ((arr_items a)[arr_index p a := last (arr_items a)])"
proof -
  let ?xs = "arr_items a" and ?i = "arr_index p a"
  note i = arr_ok_index [OF assms]
  have ne: "?xs \<noteq> []" using assms(2) by auto
  define a' where "a' = \<lparr>arr_items = butlast (?xs[?i := last ?xs]), arr_idx = (arr_idx a)(last ?xs := int ?i)\<rparr>"
  have d: "distinct ?xs" and ix: "\<And>k. k < arr_size a \<Longrightarrow> arr_idx a (?xs ! k) = int k"
    using assms(1) by (auto simp: arr_ok_def)
  have nth: "arr_items a' ! k = (if k = ?i then last ?xs else ?xs ! k)" if "k < arr_size a - 1" for k
    using that i by (simp add: a'_def nth_butlast nth_list_update)
  have l: "last ?xs = ?xs ! (arr_size a - 1)" using ne by (rule last_conv_nth)
  have "arr_ok a'"
    unfolding arr_ok_def
  proof (intro conjI allI impI)
    have "arr_items a' ! k \<noteq> arr_items a' ! m" if "k < m" "m < arr_size a - 1" for k m
      using that nth [of k] nth [of m] d l by (auto simp: nth_eq_iff_index_eq)
    moreover have "arr_size a' = arr_size a - 1" by (simp add: a'_def)
    ultimately show "distinct (arr_items a')"
      unfolding distinct_conv_nth by (metis linorder_neqE_nat)
    fix k assume "k < arr_size a'"
    then have k: "k < arr_size a - 1" by (simp add: a'_def)
    then show "arr_idx a' (arr_items a' ! k) = int k"
      using nth [OF k] ix [of k] d l by (auto simp: a'_def nth_eq_iff_index_eq)
  qed
  moreover have "arr_erase p a = Some a'"
    using ne i(1) by (simp add: arr_erase_def arr_erase_at_def a'_def Let_def)
  ultimately show ?thesis by (auto simp: a'_def)
qed

subsection \<open>Prefixes under a swap\<close>

text \<open>The queues keep partitions of their pipes as prefixes of the array.\<close>

lemma swap_list_commute: "swap_list xs i j = swap_list xs j i"
  by (cases "i = j") (simp_all add: swap_list_def list_update_swap)

lemma set_take_swap_same:
  assumes "i < length xs" "j < length xs" "i < m \<longleftrightarrow> j < m"
  shows "set (take m (swap_list xs i j)) = set (take m xs)"
proof (cases "i < m")
  case True
  have "take m (swap_list xs i j) = swap_list (take m xs) i j"
    using True assms by (simp add: swap_list_def take_update_swap)
  moreover have "i < length (take m xs)" "j < length (take m xs)" using True assms by auto
  ultimately show ?thesis using mset_swap_list by metis
next
  case False
  then show ?thesis using assms by (simp add: swap_list_def)
qed

lemma set_take_swap_cross:
  assumes d: "distinct xs" and i: "i < m" and j: "m \<le> j" "j < length xs"
  shows "set (take m (swap_list xs i j)) = insert (xs ! j) (set (take m xs) - {xs ! i})"
proof -
  have "(take m xs)[i := xs ! j, j := xs ! i] = (take m xs)[i := xs ! j]"
    using j by (intro list_update_beyond) simp
  then have "take m (swap_list xs i j) = (take m xs)[i := xs ! j]"
    by (simp add: swap_list_def take_update_swap)
  moreover have "set ((take m xs)[i := xs ! j]) = insert (xs ! j) (set (take m xs) - {take m xs ! i})"
    using d i j by (intro set_update_distinct) auto
  ultimately show ?thesis using i by simp
qed

lemma mset_butlast_diff: "xs \<noteq> [] \<Longrightarrow> mset (butlast xs) = mset xs - {#last xs#}"
  by (metis add_diff_cancel_right' append_butlast_last_id mset.simps mset_append union_mset_add_mset_right empty_neutral(2))

locale indexed_array =
  fixes ok :: "'a \<Rightarrow> bool"
    and items :: "'a \<Rightarrow> 'p list"
    and index :: "'p \<Rightarrow> 'a \<Rightarrow> nat"
    and swap :: "nat \<Rightarrow> nat \<Rightarrow> 'a \<Rightarrow> 'a option"
    and push :: "'p \<Rightarrow> 'a \<Rightarrow> 'a"
    and erase :: "'p \<Rightarrow> 'a \<Rightarrow> 'a option"
  assumes ok_distinct: "ok a \<Longrightarrow> distinct (items a)"
    and index_law: "ok a \<Longrightarrow> p \<in> set (items a) \<Longrightarrow> index p a < length (items a) \<and> items a ! index p a = p"
    and swap_law: "ok a \<Longrightarrow> i < length (items a) \<Longrightarrow> j < length (items a) \<Longrightarrow>
        \<exists>a'. swap i j a = Some a' \<and> ok a' \<and> items a' = swap_list (items a) i j"
    and push_law: "ok a \<Longrightarrow> p \<notin> set (items a) \<Longrightarrow> ok (push p a) \<and> items (push p a) = items a @ [p]"
    and erase_law: "ok a \<Longrightarrow> p \<in> set (items a) \<Longrightarrow>
        \<exists>a'. erase p a = Some a' \<and> ok a' \<and> items a' = butlast ((items a)[index p a := last (items a)])"

context indexed_array
begin

lemma index_in_prefix: "ok a \<Longrightarrow> p \<in> set (items a) \<Longrightarrow> m \<le> length (items a) \<Longrightarrow> index p a < m \<longleftrightarrow> p \<in> set (take m (items a))"
  using index_law [of a p] ok_distinct [of a]
  by (auto simp: in_set_conv_nth nth_eq_iff_index_eq)

lemma index_nth: "ok a \<Longrightarrow> i < length (items a) \<Longrightarrow> index (items a ! i) a = i"
  using index_law [of a "items a ! i"] ok_distinct [of a] by (auto simp: nth_eq_iff_index_eq)

lemma swap_prefix:
  assumes "ok a" "i < length (items a)" "j < length (items a)"
  shows "\<exists>a'. swap i j a = Some a' \<and> ok a' \<and> set (items a') = set (items a) \<and> length (items a') = length (items a)
    \<and> items a' ! j = items a ! i \<and> items a' ! i = items a ! j
    \<and> (\<forall>k < length (items a). k \<noteq> i \<longrightarrow> k \<noteq> j \<longrightarrow> items a' ! k = items a ! k)
    \<and> (\<forall>m. set (take m (items a')) =
        (if i < m \<longleftrightarrow> j < m then set (take m (items a))
         else if i < m then insert (items a ! j) (set (take m (items a)) - {items a ! i})
         else insert (items a ! i) (set (take m (items a)) - {items a ! j})))"
proof -
  obtain a' where a': "swap i j a = Some a'" "ok a'" "items a' = swap_list (items a) i j"
    using swap_law [OF assms] by blast
  note d = ok_distinct [OF assms(1)]
  have "set (take m (items a')) =
        (if i < m \<longleftrightarrow> j < m then set (take m (items a))
         else if i < m then insert (items a ! j) (set (take m (items a)) - {items a ! i})
         else insert (items a ! i) (set (take m (items a)) - {items a ! j}))" for m
    using set_take_swap_same [OF assms(2,3)] set_take_swap_cross [OF d, of i m j] set_take_swap_cross [OF d, of j m i]
      swap_list_commute [of "items a" j i] assms(2,3) unfolding a'(3) by (cases "i < m"; cases "j < m") auto
  moreover have "set (items a') = set (items a)" using mset_swap_list [OF assms(2,3)] a'(3) by simp
  ultimately show ?thesis using a' assms by (auto simp: nth_swap_list)
qed

text \<open>Moving an item across the boundary of a prefix, upwards and downwards.\<close>

lemma promote:
  assumes "ok a" "n \<le> i" "i < length (items a)"
  shows "\<exists>a'. swap i n a = Some a' \<and> ok a' \<and> set (items a') = set (items a) \<and> length (items a') = length (items a)
    \<and> items a' ! n = items a ! i
    \<and> set (take (Suc n) (items a')) = insert (items a ! i) (set (take n (items a)))
    \<and> (\<forall>m. m \<le> n \<or> i < m \<longrightarrow> set (take m (items a')) = set (take m (items a)))"
proof -
  obtain a' where a': "swap i n a = Some a'" "ok a'" "set (items a') = set (items a)" "length (items a') = length (items a)"
      "items a' ! n = items a ! i"
      "\<forall>m. set (take m (items a')) =
        (if i < m \<longleftrightarrow> n < m then set (take m (items a))
         else if i < m then insert (items a ! n) (set (take m (items a)) - {items a ! i})
         else insert (items a ! i) (set (take m (items a)) - {items a ! n}))"
    using swap_prefix [OF assms(1,3), of n] assms by auto
  have n: "n < length (items a')" using a'(4) assms by simp
  have "set (take (Suc n) (items a')) = insert (items a ! i) (set (take n (items a')))"
    using n a'(5) by (simp add: take_Suc_conv_app_nth)
  then show ?thesis using a' assms(2) by auto
qed

lemma demote:
  assumes "ok a" "i < n" "n \<le> length (items a)"
  shows "\<exists>a'. swap i (n - 1) a = Some a' \<and> ok a' \<and> set (items a') = set (items a) \<and> length (items a') = length (items a)
    \<and> items a' ! (n - 1) = items a ! i
    \<and> set (take (n - 1) (items a')) = set (take n (items a)) - {items a ! i}
    \<and> (\<forall>m. n \<le> m \<or> m \<le> i \<longrightarrow> set (take m (items a')) = set (take m (items a)))"
proof -
  have l: "i < length (items a)" "n - 1 < length (items a)" using assms(2,3) by auto
  obtain a' where a': "swap i (n - 1) a = Some a'" "ok a'" "set (items a') = set (items a)" "length (items a') = length (items a)"
      "items a' ! (n - 1) = items a ! i"
      "\<forall>m. set (take m (items a')) =
        (if i < m \<longleftrightarrow> n - 1 < m then set (take m (items a))
         else if i < m then insert (items a ! (n - 1)) (set (take m (items a)) - {items a ! i})
         else insert (items a ! i) (set (take m (items a)) - {items a ! (n - 1)}))"
    using swap_prefix [OF assms(1) l] by auto
  have "take n (items a') = take (n - 1) (items a') @ [items a ! i]"
    using a'(4,5) assms by (metis Suc_diff_1 Suc_le_lessD gr_implies_not_zero neq0_conv take_Suc_conv_app_nth)
  moreover have "distinct (take n (items a'))" using ok_distinct [OF a'(2)] by simp
  moreover have "set (take n (items a')) = set (take n (items a))" using a'(6) assms by auto
  ultimately have "set (take (n - 1) (items a')) = set (take n (items a)) - {items a ! i}" by auto
  then show ?thesis using a' assms(2) by auto
qed

lemma erase_prefix:
  assumes "ok a" "p \<in> set (items a)"
  shows "\<exists>a'. erase p a = Some a' \<and> ok a' \<and> set (items a') = set (items a) - {p} \<and> length (items a') = length (items a) - 1
    \<and> (\<forall>m. m \<le> index p a \<longrightarrow> take m (items a') = take m (items a))"
proof -
  let ?xs = "items a" and ?i = "index p a"
  obtain a' where a': "erase p a = Some a'" "ok a'" "items a' = butlast (?xs[?i := last ?xs])"
    using erase_law [OF assms] by blast
  have i: "?i < length ?xs" "?xs ! ?i = p" using index_law [OF assms] by auto
  have ne: "?xs \<noteq> []" using assms(2) by auto
  have d: "distinct ?xs" using ok_distinct [OF assms(1)] .
  have "mset (items a') = mset ?xs - {#p#}"
  proof (cases "?i = length ?xs - 1")
    case True
    then have "last ?xs = p" using i ne by (simp add: last_conv_nth)
    then have "?xs[?i := last ?xs] = ?xs" using i by (metis list_update_id)
    with a'(3) \<open>last ?xs = p\<close> ne show ?thesis by (simp add: mset_butlast_diff)
  next
    case False
    then have "last (?xs[?i := last ?xs]) = last ?xs" using i ne by (simp add: last_list_update)
    then have "mset (items a') = mset (?xs[?i := last ?xs]) - {#last ?xs#}"
      using a'(3) ne mset_butlast_diff [of "?xs[?i := last ?xs]"] by simp
    then show ?thesis using i by (simp add: mset_update)
  qed
  then have "set (items a') = set ?xs - {p}"
    using d by (metis distinct_remove1_removeAll mset_remove1 set_mset_mset set_removeAll)
  moreover have "take m (items a') = take m ?xs" if "m \<le> ?i" for m
    using that i(1) by (simp add: a'(3) take_butlast)
  ultimately show ?thesis using a' by auto
qed

end

interpretation pa: indexed_array arr_ok arr_items arr_index arr_swap arr_push_back arr_erase
proof unfold_locales
  show "arr_ok a \<Longrightarrow> distinct (arr_items a)" for a :: "'p arr" by (simp add: arr_ok_def)
qed (simp_all add: arr_ok_index arr_swap_ok arr_erase_ok arr_push_back_ok)

end
