(* ===== verification/Msg_Heap.thy ===== *)
theory Msg_Heap
  imports Msg "HOL-Library.Finite_Map" "HOL-Library.Multiset"
begin

section \<open>Message storage: representations, reference counts, zero-copy views\<close>

text \<open>
  Models the storage side of \<open>core/msg.cpp\<close>. A message is a small value that is copied bitwise
  around the program; long payloads live in heap blocks (\<open>content_t\<close>) that several messages and
  views may share, and long group names in blocks of their own. The heap is explicit: a finite map
  from addresses to live blocks. \<open>None\<close> is a memory error (access to a block that is not live,
  release of a block that was not allocated) or a failed assertion; the errors the functions report
  are \<open>Inl\<close>. What malloc returned is an argument of the operations that allocate.
\<close>

subsection \<open>Data\<close>

type_synonym addr = nat

datatype payload =
    Vsm "byte list"
  | Lmsg addr
  | Delimiter
  | Cmsg "byte list"
  | Zclmsg addr
  | Invalid

record hmsg = msg_base +
  hm_body :: payload

text \<open>The release callback of a block: none, one supplied by the user (with its hint), or
  \<open>call_dec_ref_on_slice\<close> with the encoded hint (the source block, whether it belongs to an lmsg).\<close>

datatype free_fn = No_ffn | User_ffn nat | Slice_ffn addr bool

text \<open>Where a \<open>content_t\<close> lives: allocated by the message, supplied by the caller
  (\<open>init_external_storage\<close>), or taken from the pool of slice descriptors.\<close>

datatype store = Malloced | Caller_owned | Slice_pool

text \<open>\<open>data\<close> points at an offset of the buffer owned by the block \<open>ct_root\<close>: the block itself,
  except for views.\<close>

record content =
  ct_store :: store
  ct_buffer :: "byte list"
  ct_root :: addr
  ct_off :: nat
  ct_size :: nat
  ct_ffn :: free_fn
  ct_refcnt :: u32

record long_group =
  lg_group :: "byte list"
  lg_refcnt :: u32

datatype heap_event = Freed addr | Called nat

record heap =
  hp_contents :: "(addr, content) fmap"
  hp_groups :: "(addr, long_group) fmap"
  hp_pool :: "addr list"
  hp_events :: "heap_event list"

abbreviation max_vsm_size :: nat where "max_vsm_size \<equiv> 29"
abbreviation ZLINK_GROUP_MAX_LENGTH :: nat where "ZLINK_GROUP_MAX_LENGTH \<equiv> 255"
abbreviation sizeof_content :: nat where "sizeof_content \<equiv> 40"

subsection \<open>Blocks\<close>

text \<open>\<open>atomic_counter_t::sub\<close>: the new value and whether it is not zero.\<close>

definition refcnt_sub :: "u32 \<Rightarrow> u32 \<Rightarrow> u32 \<times> bool" where
  "refcnt_sub v d = (v - d, v - d \<noteq> 0)"

text \<open>\<open>release_slice_content\<close>: back into the pool, freed when the pool is full.\<close>

definition release_slice_content :: "nat \<Rightarrow> addr \<Rightarrow> heap \<Rightarrow> heap" where
  "release_slice_content pool_max a H =
     (if length (hp_pool H) < pool_max then H\<lparr>hp_pool := hp_pool H @ [a]\<rparr>
      else H\<lparr>hp_events := hp_events H @ [Freed a]\<rparr>)"

text \<open>\<open>acquire_slice_content\<close>: from the pool, otherwise from malloc.\<close>

definition acquire_slice_content :: "addr option \<Rightarrow> heap \<Rightarrow> addr option \<times> heap" where
  "acquire_slice_content alloc H =
     (if hp_pool H \<noteq> [] then (Some (last (hp_pool H)), H\<lparr>hp_pool := butlast (hp_pool H)\<rparr>)
      else (alloc, H))"

definition drop_content :: "addr \<Rightarrow> heap \<Rightarrow> heap" where
  "drop_content a H = H\<lparr>hp_contents := fmdrop a (hp_contents H)\<rparr>"

definition put_content :: "addr \<Rightarrow> content \<Rightarrow> heap \<Rightarrow> heap" where
  "put_content a c H = H\<lparr>hp_contents := fmupd a c (hp_contents H)\<rparr>"

text \<open>What happens to the descriptor itself once its callback has returned: freeing one that was
  not allocated is an error.\<close>

definition dispose_content :: "nat \<Rightarrow> addr \<Rightarrow> content \<Rightarrow> bool \<Rightarrow> heap \<Rightarrow> heap option" where
  "dispose_content pool_max a c lmsg_owner H =
     (if lmsg_owner then
        (if ct_store c = Malloced then Some (H\<lparr>hp_events := hp_events H @ [Freed a]\<rparr>) else None)
      else case ct_ffn c of
        Slice_ffn _ _ \<Rightarrow> Some (release_slice_content pool_max a H)
      | _ \<Rightarrow> Some H)"

function release_content :: "nat \<Rightarrow> addr \<Rightarrow> bool \<Rightarrow> u32 \<Rightarrow> bool \<Rightarrow> heap \<Rightarrow> (bool \<times> heap) option" where
  "release_content pool_max a lmsg_owner refs shared H =
     (case fmlookup (hp_contents H) a of
        None \<Rightarrow> None
      | Some c \<Rightarrow>
          if shared \<and> snd (refcnt_sub (ct_refcnt c) refs)
          then Some (True, put_content a (c\<lparr>ct_refcnt := fst (refcnt_sub (ct_refcnt c) refs)\<rparr>) H)
          else
            (case (case ct_ffn c of
                     No_ffn \<Rightarrow> Some (drop_content a H)
                   | User_ffn hint \<Rightarrow>
                       Some ((drop_content a H)\<lparr>hp_events := hp_events H @ [Called hint]\<rparr>)
                   | Slice_ffn b owner \<Rightarrow>
                       map_option snd (release_content pool_max b owner 1 True (drop_content a H))) of
               None \<Rightarrow> None
             | Some H1 \<Rightarrow> map_option (\<lambda>H2. (False, H2)) (dispose_content pool_max a c lmsg_owner H1)))"
  by pat_completeness auto
termination
  by (relation "measure (\<lambda>(_, _, _, _, _, H). fcard (fmdom (hp_contents H)))")
     (auto simp: drop_content_def intro: fcard_fminus1_less fmdomI)

declare release_content.simps [simp del]

subsection \<open>Counting over a finite map\<close>

definition fm_sum :: "('v \<Rightarrow> 'b multiset) \<Rightarrow> ('k, 'v) fmap \<Rightarrow> 'b multiset" where
  "fm_sum f m = (\<Sum>a\<in>fset (fmdom m). f (the (fmlookup m a)))"

lemma fm_sum_empty [simp]: "fm_sum f fmempty = {#}"
  by (simp add: fm_sum_def)

lemma fm_sum_drop: "fmlookup m a = Some c \<Longrightarrow> fm_sum f m = fm_sum f (fmdrop a m) + f c"
proof -
  assume a: "fmlookup m a = Some c"
  have d: "fset (fmdom (fmdrop a m)) = fset (fmdom m) - {a}" by auto
  have "fm_sum f m = f c + (\<Sum>x\<in>fset (fmdom m) - {a}. f (the (fmlookup m x)))"
    unfolding fm_sum_def using a by (subst sum.remove [of _ a]) (auto intro: fmdomI)
  also have "(\<Sum>x\<in>fset (fmdom m) - {a}. f (the (fmlookup m x))) = fm_sum f (fmdrop a m)"
    unfolding fm_sum_def d by (intro sum.cong) auto
  finally show ?thesis by (simp add: add.commute)
qed

lemma fmdrop_fmupd_id: "fmdrop a (fmupd a c m) = fmdrop a m"
  by (rule fmap_ext) auto

lemma fmdrop_notin_id: "fmlookup m a = None \<Longrightarrow> fmdrop a m = m"
  by (rule fmap_ext) auto

lemma fm_sum_upd: "fm_sum f (fmupd a c m) = fm_sum f (fmdrop a m) + f c"
  using fm_sum_drop [of "fmupd a c m" a c f] by (simp add: fmdrop_fmupd_id)

lemma fm_sum_new: "fmlookup m a = None \<Longrightarrow> fm_sum f (fmupd a c m) = fm_sum f m + f c"
  by (simp add: fm_sum_upd fmdrop_notin_id)

lemma fm_sum_update: "fmlookup m a = Some c \<Longrightarrow> f c' = f c \<Longrightarrow> fm_sum f (fmupd a c' m) = fm_sum f m"
  using fm_sum_drop [of m a c f] by (simp add: fm_sum_upd)

lemma fm_sum_mem: "fmlookup m a = Some c \<Longrightarrow> x \<in># f c \<Longrightarrow> x \<in># fm_sum f m"
  by (simp add: fm_sum_drop)

subsection \<open>The heap invariant\<close>

fun opt_mset :: "'a option \<Rightarrow> 'a multiset" where
  "opt_mset None = {#}"
| "opt_mset (Some x) = {#x#}"

definition ct_parent :: "content \<Rightarrow> addr option" where
  "ct_parent c = (case ct_ffn c of Slice_ffn b _ \<Rightarrow> Some b | _ \<Rightarrow> None)"

definition ct_user :: "content \<Rightarrow> nat option" where
  "ct_user c = (case ct_ffn c of User_ffn h \<Rightarrow> Some h | _ \<Rightarrow> None)"

abbreviation parents :: "(addr, content) fmap \<Rightarrow> addr multiset" where
  "parents C \<equiv> fm_sum (\<lambda>c. opt_mset (ct_parent c)) C"

text \<open>The number of references to a block: those counted in \<open>R\<close> (messages) and those of views.\<close>

abbreviation total :: "(addr, content) fmap \<Rightarrow> addr multiset \<Rightarrow> addr \<Rightarrow> nat" where
  "total C R a \<equiv> count R a + count (parents C) a"

text \<open>Exactly the referenced blocks are live. A block in \<open>U\<close> has one reference and its counter is
  unused; every other counter is exact.\<close>

definition cells_ok :: "(addr, content) fmap \<Rightarrow> addr multiset \<Rightarrow> addr set \<Rightarrow> bool" where
  "cells_ok C R U \<longleftrightarrow>
     (\<forall>a. case fmlookup C a of
            None \<Rightarrow> total C R a = 0
          | Some c \<Rightarrow> 0 < total C R a
              \<and> (if a \<in> U then total C R a = 1
                 else total C R a < 2 ^ 32 \<and> ct_refcnt c = word_of_nat (total C R a)))"

text \<open>The structure of the blocks: a view's source is live, has the same root and encloses it;
  any other block is its own root. The sources form no cycle.\<close>

definition shape_ok :: "(addr, content) fmap \<Rightarrow> addr \<Rightarrow> content \<Rightarrow> bool" where
  "shape_ok C a c \<longleftrightarrow>
     (case ct_ffn c of
        Slice_ffn b owner \<Rightarrow>
          ct_store c = Slice_pool
          \<and> (\<exists>cb. fmlookup C b = Some cb \<and> owner = (ct_store cb = Malloced) \<and> ct_root c = ct_root cb
                \<and> ct_off cb \<le> ct_off c \<and> ct_off c + ct_size c \<le> ct_off cb + ct_size cb)
      | f \<Rightarrow> ct_store c \<noteq> Slice_pool \<and> (ct_store c = Caller_owned \<longrightarrow> f \<noteq> No_ffn)
          \<and> ct_root c = a \<and> ct_off c = 0 \<and> ct_size c = length (ct_buffer c))"

definition shapes_ok :: "(addr, content) fmap \<Rightarrow> bool" where
  "shapes_ok C \<longleftrightarrow>
     (\<forall>a c. fmlookup C a = Some c \<longrightarrow> shape_ok C a c)
     \<and> (\<exists>r :: addr \<Rightarrow> nat. \<forall>a c b. fmlookup C a = Some c \<longrightarrow> ct_parent c = Some b \<longrightarrow> r b < r a)"

text \<open>The bytes of a block, read through the root's buffer.\<close>

definition read_content :: "(addr, content) fmap \<Rightarrow> addr \<Rightarrow> byte list option" where
  "read_content C a =
     (case fmlookup C a of
        None \<Rightarrow> None
      | Some c \<Rightarrow>
          (case fmlookup C (ct_root c) of
             None \<Rightarrow> None
           | Some r \<Rightarrow> if ct_off c + ct_size c \<le> length (ct_buffer r)
                       then Some (take (ct_size c) (drop (ct_off c) (ct_buffer r))) else None))"

lemma ct_parent_Some: "ct_parent c = Some b \<longleftrightarrow> (\<exists>owner. ct_ffn c = Slice_ffn b owner)"
  by (auto simp: ct_parent_def split: free_fn.splits)

text \<open>In a well-shaped heap every live block can be read.\<close>

lemma shapes_ok_root:
  assumes "shapes_ok C" "fmlookup C a = Some c"
  shows "\<exists>r. fmlookup C (ct_root c) = Some r \<and> ct_parent r = None \<and> ct_off c + ct_size c \<le> length (ct_buffer r)"
proof -
  obtain rk :: "addr \<Rightarrow> nat" where rk: "\<And>a c b. fmlookup C a = Some c \<Longrightarrow> ct_parent c = Some b \<Longrightarrow> rk b < rk a"
    using assms(1) unfolding shapes_ok_def by blast
  show ?thesis using assms(2)
  proof (induction "rk a" arbitrary: a c rule: less_induct)
    case less
    have sh: "shape_ok C a c" using assms(1) less.prems by (auto simp: shapes_ok_def)
    show ?case
    proof (cases "ct_parent c")
      case None
      then show ?thesis using sh less.prems by (auto simp: shape_ok_def ct_parent_def split: free_fn.splits)
    next
      case (Some b)
      then obtain cb where cb: "fmlookup C b = Some cb" "ct_root c = ct_root cb"
          "ct_off c + ct_size c \<le> ct_off cb + ct_size cb"
        using sh by (auto simp: shape_ok_def ct_parent_Some)
      from less.hyps [OF rk [OF less.prems Some] cb(1)] cb show ?thesis by auto
    qed
  qed
qed

lemma read_content_live:
  assumes "shapes_ok C" "fmlookup C a = Some c"
  obtains bs where "read_content C a = Some bs" "length bs = ct_size c"
  using shapes_ok_root [OF assms] assms(2) that by (auto simp: read_content_def)


text \<open>The references and the invariant of the blocks of a heap, the pool included.\<close>

definition blocks_ok :: "heap \<Rightarrow> addr multiset \<Rightarrow> addr set \<Rightarrow> bool" where
  "blocks_ok H R U \<longleftrightarrow>
     cells_ok (hp_contents H) R U \<and> shapes_ok (hp_contents H) \<and> U \<subseteq> set_mset R
     \<and> distinct (hp_pool H) \<and> (\<forall>a \<in> set (hp_pool H). fmlookup (hp_contents H) a = None)"

definition called :: "heap \<Rightarrow> nat multiset" where
  "called H = sum_mset (image_mset (\<lambda>e. case e of Called h \<Rightarrow> {#h#} | Freed _ \<Rightarrow> {#}) (mset (hp_events H)))"

text \<open>The user callbacks that were called or are still due.\<close>

definition callbacks :: "heap \<Rightarrow> nat multiset" where
  "callbacks H = called H + fm_sum (\<lambda>c. opt_mset (ct_user c)) (hp_contents H)"

text \<open>What releasing references keeps: surviving blocks change at most their counter, groups are
  untouched, no callback is lost or called twice.\<close>

definition heap_shrinks :: "heap \<Rightarrow> heap \<Rightarrow> bool" where
  "heap_shrinks H H' \<longleftrightarrow>
     (\<forall>x c'. fmlookup (hp_contents H') x = Some c' \<longrightarrow>
        (\<exists>c. fmlookup (hp_contents H) x = Some c \<and> c' = c\<lparr>ct_refcnt := ct_refcnt c'\<rparr>))
     \<and> hp_groups H' = hp_groups H \<and> callbacks H' = callbacks H
     \<and> set (hp_pool H') \<subseteq> set (hp_pool H) \<union> fset (fmdom (hp_contents H))"

lemma heap_shrinks_refl [simp]: "heap_shrinks H H"
  by (simp add: heap_shrinks_def)

lemma heap_shrinks_dom: "heap_shrinks H H' \<Longrightarrow> fmdom (hp_contents H') |\<subseteq>| fmdom (hp_contents H)"
  unfolding heap_shrinks_def by (metis fmdomI fmlookup_dom_iff fsubsetI)

lemma heap_shrinks_trans:
  assumes "heap_shrinks H H'" "heap_shrinks H' H''"
  shows "heap_shrinks H H''"
proof -
  have "\<exists>c. fmlookup (hp_contents H) x = Some c \<and> c'' = c\<lparr>ct_refcnt := ct_refcnt c''\<rparr>"
    if c: "fmlookup (hp_contents H'') x = Some c''" for x c''
  proof -
    obtain c' where c': "fmlookup (hp_contents H') x = Some c'" "c'' = c'\<lparr>ct_refcnt := ct_refcnt c''\<rparr>"
      using assms(2) c unfolding heap_shrinks_def by blast
    obtain c where "fmlookup (hp_contents H) x = Some c" "c' = c\<lparr>ct_refcnt := ct_refcnt c'\<rparr>"
      using assms(1) c'(1) unfolding heap_shrinks_def by blast
    with c' show ?thesis by (metis content.update_convs(7) content.surjective)
  qed
  moreover have "fset (fmdom (hp_contents H')) \<subseteq> fset (fmdom (hp_contents H))"
    using heap_shrinks_dom [OF assms(1)] by (simp add: less_eq_fset.rep_eq)
  ultimately show ?thesis using assms unfolding heap_shrinks_def by auto
qed

lemma read_content_shrinks:
  assumes s: "heap_shrinks H H'" and ok: "shapes_ok (hp_contents H')"
    and a: "fmlookup (hp_contents H') a = Some c'"
  shows "read_content (hp_contents H') a = read_content (hp_contents H) a"
proof -
  obtain c where c: "fmlookup (hp_contents H) a = Some c" "c' = c\<lparr>ct_refcnt := ct_refcnt c'\<rparr>"
    using s a unfolding heap_shrinks_def by blast
  obtain r' where r': "fmlookup (hp_contents H') (ct_root c') = Some r'" using shapes_ok_root [OF ok a] by blast
  then obtain r where r: "fmlookup (hp_contents H) (ct_root c') = Some r" "r' = r\<lparr>ct_refcnt := ct_refcnt r'\<rparr>"
    using s unfolding heap_shrinks_def by blast
  have "ct_root c' = ct_root c" "ct_off c' = ct_off c" "ct_size c' = ct_size c" "ct_buffer r' = ct_buffer r"
    by (subst c(2), simp)+ (subst r(2), simp)
  with a c r r' show ?thesis by (simp add: read_content_def)
qed

lemma shape_ok_cong:
  assumes "shape_ok C a c"
    and "\<And>b cb. ct_parent c = Some b \<Longrightarrow> fmlookup C b = Some cb \<Longrightarrow>
          \<exists>v. fmlookup C' b = Some (cb\<lparr>ct_refcnt := v\<rparr>)"
  shows "shape_ok C' a (c\<lparr>ct_refcnt := v\<rparr>)"
  using assms by (fastforce simp: shape_ok_def ct_parent_def split: free_fn.splits)

lemma refcnt_update_ex [simp]: "\<exists>v. c = c\<lparr>ct_refcnt := v\<rparr>" for c :: content
  by (intro exI [of _ "ct_refcnt c"]) simp

lemma shapes_ok_drop:
  assumes ok: "shapes_ok C" and a: "a \<notin># parents C"
  shows "shapes_ok (fmdrop a C)"
proof -
  have "shape_ok (fmdrop a C) x c" if x: "fmlookup C x = Some c" for x c
  proof -
    have "ct_parent c \<noteq> Some a" using a fm_sum_mem [OF x, of a "\<lambda>c. opt_mset (ct_parent c)"] by auto
    moreover have "shape_ok C x c" using ok x by (simp add: shapes_ok_def)
    ultimately have "shape_ok (fmdrop a C) x (c\<lparr>ct_refcnt := ct_refcnt c\<rparr>)"
      by (intro shape_ok_cong) auto
    then show ?thesis by simp
  qed
  moreover have "\<exists>r :: addr \<Rightarrow> nat. \<forall>x c b. fmlookup (fmdrop a C) x = Some c \<longrightarrow> ct_parent c = Some b \<longrightarrow> r b < r x"
    using ok unfolding shapes_ok_def fmlookup_drop by (metis option.distinct(1))
  ultimately show ?thesis by (auto simp: shapes_ok_def)
qed

lemma shapes_ok_refcnt:
  assumes ok: "shapes_ok C" and a: "fmlookup C a = Some c"
  shows "shapes_ok (fmupd a (c\<lparr>ct_refcnt := v\<rparr>) C)"
proof -
  let ?C = "fmupd a (c\<lparr>ct_refcnt := v\<rparr>) C"
  have par: "ct_parent (d\<lparr>ct_refcnt := w\<rparr>) = ct_parent d" for d w by (simp add: ct_parent_def)
  have keep: "\<exists>w. fmlookup ?C b = Some (cb\<lparr>ct_refcnt := w\<rparr>)" if "fmlookup C b = Some cb" for b cb
    using that a by (cases "b = a") auto
  have "shape_ok ?C x (d\<lparr>ct_refcnt := w\<rparr>)" if "fmlookup C x = Some d" for x d w
    using ok that by (intro shape_ok_cong [where C = C] keep) (auto simp: shapes_ok_def)
  note sh = this
  have "shape_ok ?C x d" if "fmlookup ?C x = Some d" for x d
    using that sh [OF a, of v] sh [of x d "ct_refcnt d"] by (auto split: if_splits)
  moreover have "\<exists>r :: addr \<Rightarrow> nat. \<forall>x d b. fmlookup ?C x = Some d \<longrightarrow> ct_parent d = Some b \<longrightarrow> r b < r x"
  proof -
    obtain r :: "addr \<Rightarrow> nat" where r: "\<forall>x d b. fmlookup C x = Some d \<longrightarrow> ct_parent d = Some b \<longrightarrow> r b < r x"
      using ok unfolding shapes_ok_def by blast
    have "\<forall>x d b. fmlookup ?C x = Some d \<longrightarrow> ct_parent d = Some b \<longrightarrow> r b < r x"
      using r a par by (auto split: if_splits)
    then show ?thesis by blast
  qed
  ultimately show ?thesis by (auto simp: shapes_ok_def)
qed


subsection \<open>Releasing references\<close>

lemma cells_okD:
  assumes "cells_ok C R U" "fmlookup C a = Some c"
  shows "0 < total C R a" "a \<in> U \<Longrightarrow> total C R a = 1"
    "a \<notin> U \<Longrightarrow> total C R a < 2 ^ 32 \<and> ct_refcnt c = word_of_nat (total C R a)"
  using assms by (auto simp: cells_ok_def dest!: spec [of _ a])

lemma cells_ok_None: "cells_ok C R U \<Longrightarrow> fmlookup C a = None \<Longrightarrow> a \<notin># R \<and> a \<notin># parents C"
  by (auto simp: cells_ok_def not_in_iff dest!: spec [of _ a])

lemma cells_ok_live: "cells_ok C R U \<Longrightarrow> a \<in># R \<or> a \<in># parents C \<Longrightarrow> \<exists>c. fmlookup C a = Some c"
  using cells_ok_None by fastforce

text \<open>Subtracting references that are there is exact, and zero exactly when they were the last.\<close>

lemma word_sub_exact:
  assumes "k \<le> n" "n < 2 ^ 32"
  shows "(word_of_nat n :: u32) - word_of_nat k = word_of_nat (n - k)"
    "(word_of_nat (n - k) :: u32) = 0 \<longleftrightarrow> n = k"
proof -
  have "(word_of_nat n :: u32) = word_of_nat (n - k) + word_of_nat k"
    using assms(1) by (simp flip: of_nat_add)
  then show "(word_of_nat n :: u32) - word_of_nat k = word_of_nat (n - k)" by simp
  show "(word_of_nat (n - k) :: u32) = 0 \<longleftrightarrow> n = k"
    using assms unat_u32_of_nat [of "n - k"] by (auto simp: unat_eq_zero)
qed

lemma parents_drop: "fmlookup C a = Some c \<Longrightarrow> parents C = parents (fmdrop a C) + opt_mset (ct_parent c)"
  by (rule fm_sum_drop)

text \<open>The last reference to a block is gone: it disappears, and its own reference to the source of
  the view becomes one to be released.\<close>

lemma cells_ok_drop:
  assumes ok: "cells_ok C (R + replicate_mset k a) U" and a: "fmlookup C a = Some c"
    and last: "total C (R + replicate_mset k a) a = k"
  shows "cells_ok (fmdrop a C) (R + opt_mset (ct_parent c)) (U - {a})" "a \<notin># parents C"
proof -
  let ?R = "R + replicate_mset k a" and ?R' = "R + opt_mset (ct_parent c)"
  have tot: "total (fmdrop a C) ?R' x = total C R x" for x
    using parents_drop [OF a] by simp
  have z: "count R a = 0" "count (parents C) a = 0" using last by simp_all
  then show "a \<notin># parents C" by (simp add: not_in_iff)
  show "cells_ok (fmdrop a C) ?R' (U - {a})"
    unfolding cells_ok_def tot
  proof
    fix x
    show "case fmlookup (fmdrop a C) x of None \<Rightarrow> total C R x = 0
          | Some c \<Rightarrow> 0 < total C R x \<and> (if x \<in> U - {a} then total C R x = 1
              else total C R x < 2 ^ 32 \<and> ct_refcnt c = word_of_nat (total C R x))"
      using ok [unfolded cells_ok_def, rule_format, of x] z
      by (cases "x = a") (auto split: option.splits)
  qed
qed

lemma cells_ok_keep:
  assumes ok: "cells_ok C (R + replicate_mset k a) U" and a: "fmlookup C a = Some c" and u: "a \<notin> U"
    and more: "total C (R + replicate_mset k a) a \<noteq> k"
  shows "cells_ok (fmupd a (c\<lparr>ct_refcnt := ct_refcnt c - word_of_nat k\<rparr>) C) R U"
proof -
  let ?c = "c\<lparr>ct_refcnt := ct_refcnt c - word_of_nat k\<rparr>"
  let ?n = "total C (R + replicate_mset k a) a"
  have p: "parents (fmupd a ?c C) = parents C"
    by (rule fm_sum_update [OF a]) (simp add: ct_parent_def)
  have n: "?n < 2 ^ 32" "ct_refcnt c = word_of_nat ?n" "k \<le> ?n" using cells_okD(3) [OF ok a u] by simp_all
  have "ct_refcnt ?c = word_of_nat (?n - k)" using word_sub_exact(1) [OF n(3,1)] n(2) by simp
  moreover have "total C R a = ?n - k" by simp
  ultimately have ra: "ct_refcnt ?c = word_of_nat (total C R a)" "0 < total C R a" "total C R a < 2 ^ 32"
    using n more by (simp_all only:)
  show ?thesis
    unfolding cells_ok_def p
  proof
    fix x
    show "case fmlookup (fmupd a ?c C) x of None \<Rightarrow> total C R x = 0
          | Some c \<Rightarrow> 0 < total C R x \<and> (if x \<in> U then total C R x = 1
              else total C R x < 2 ^ 32 \<and> ct_refcnt c = word_of_nat (total C R x))"
      using ok [unfolded cells_ok_def, rule_format, of x] ra u
      by (cases "x = a") (auto split: option.splits)
  qed
qed


lemma heap_sel [simp]:
  "hp_contents (drop_content a H) = fmdrop a (hp_contents H)"
  "hp_groups (drop_content a H) = hp_groups H" "hp_pool (drop_content a H) = hp_pool H"
  "hp_events (drop_content a H) = hp_events H"
  "hp_contents (put_content a c H) = fmupd a c (hp_contents H)"
  "hp_groups (put_content a c H) = hp_groups H" "hp_pool (put_content a c H) = hp_pool H"
  "hp_events (put_content a c H) = hp_events H"
  by (simp_all add: drop_content_def put_content_def)

lemma called_simps [simp]:
  "called (H\<lparr>hp_events := hp_events H @ [Called h]\<rparr>) = add_mset h (called H)"
  "called (H\<lparr>hp_events := hp_events H @ [Freed a]\<rparr>) = called H"
  "called (H\<lparr>hp_pool := p\<rparr>) = called H" "called (drop_content a H) = called H"
  "called (put_content a c H) = called H"
  by (simp_all add: called_def)

lemma callbacks_drop:
  "fmlookup (hp_contents H) a = Some c \<Longrightarrow> callbacks H = callbacks (drop_content a H) + opt_mset (ct_user c)"
  by (simp add: callbacks_def fm_sum_drop)

lemma heap_shrinks_drop:
  "callbacks H' = callbacks H \<Longrightarrow> hp_contents H' = fmdrop a (hp_contents H) \<Longrightarrow> hp_groups H' = hp_groups H \<Longrightarrow>
   hp_pool H' = hp_pool H \<Longrightarrow> heap_shrinks H H'"
  by (auto simp: heap_shrinks_def)

text \<open>Releasing \<open>k\<close> references.\<close>

abbreviation released :: "nat \<Rightarrow> addr \<Rightarrow> addr multiset \<Rightarrow> addr set \<Rightarrow> heap \<Rightarrow> bool \<times> heap \<Rightarrow> bool" where
  "released k a R U H r \<equiv>
     blocks_ok (snd r) R (U - {a}) \<and> heap_shrinks H (snd r)
     \<and> fst r = (fmlookup (hp_contents (snd r)) a \<noteq> None)"

lemma dispose_content_ok:
  assumes ok: "blocks_ok H1 R U" "heap_shrinks H H1" "fmlookup (hp_contents H1) a = None"
    and sh: "shape_ok C a c" and owner: "lmsg_owner = (ct_store c = Malloced)"
    and pool: "set (hp_pool H1) \<subseteq> set (hp_pool H) \<union> fset (fmdom (hp_contents H)) - {a}"
    and a: "a |\<in>| fmdom (hp_contents H)"
  shows "\<exists>H2. dispose_content pool_max a c lmsg_owner H1 = Some H2 \<and> blocks_ok H2 R U \<and> heap_shrinks H H2
    \<and> hp_contents H2 = hp_contents H1
    \<and> set (hp_pool H2) \<subseteq> set (hp_pool H) \<union> fset (fmdom (hp_contents H))"
proof -
  have ev: "blocks_ok (H1\<lparr>hp_events := hp_events H1 @ [Freed a]\<rparr>) R U"
      "heap_shrinks H (H1\<lparr>hp_events := hp_events H1 @ [Freed a]\<rparr>)"
    using ok by (simp_all add: blocks_ok_def heap_shrinks_def callbacks_def)
  have po: "blocks_ok (H1\<lparr>hp_pool := hp_pool H1 @ [a]\<rparr>) R U" "heap_shrinks H (H1\<lparr>hp_pool := hp_pool H1 @ [a]\<rparr>)"
    using ok pool a by (auto simp: blocks_ok_def heap_shrinks_def callbacks_def)
  show ?thesis
    using ok sh ev po pool a
    by (cases "ct_ffn c") (auto simp: dispose_content_def release_slice_content_def owner shape_ok_def)
qed

lemma released_last:
  assumes ok: "blocks_ok H (R + replicate_mset k a) U" and a: "fmlookup (hp_contents H) a = Some c"
    and last: "total (hp_contents H) (R + replicate_mset k a) a = k"
  shows "blocks_ok (drop_content a H) (R + opt_mset (ct_parent c)) (U - {a})"
    "ct_parent c = Some b \<Longrightarrow> b \<noteq> a \<and> b \<notin> U
       \<and> (\<exists>cb. fmlookup (hp_contents H) b = Some cb \<and> ct_ffn c = Slice_ffn b (ct_store cb = Malloced))"
proof -
  let ?C = "hp_contents H" and ?R = "R + replicate_mset k a"
  have cells: "cells_ok ?C ?R U" and shapes: "shapes_ok ?C" and U: "U \<subseteq> set_mset ?R"
    and pool: "distinct (hp_pool H)" "\<forall>a\<in>set (hp_pool H). fmlookup ?C a = None"
    using ok by (simp_all add: blocks_ok_def)
  note d = cells_ok_drop [OF cells a last]
  have "U - {a} \<subseteq> set_mset (R + opt_mset (ct_parent c))" using U by (auto split: if_splits)
  then show "blocks_ok (drop_content a H) (R + opt_mset (ct_parent c)) (U - {a})"
    using d shapes_ok_drop [OF shapes d(2)] pool by (simp add: blocks_ok_def)
  assume b: "ct_parent c = Some b"
  then have bp: "b \<in># parents ?C" using fm_sum_mem [OF a, of b "\<lambda>c. opt_mset (ct_parent c)"] by simp
  have sh: "shape_ok ?C a c" using shapes a by (simp add: shapes_ok_def)
  obtain cb where cb: "fmlookup ?C b = Some cb" "ct_ffn c = Slice_ffn b (ct_store cb = Malloced)"
    using sh b by (auto simp: shape_ok_def ct_parent_Some)
  have "b \<notin> U"
  proof
    assume "b \<in> U"
    then have "total ?C ?R b = 1" "b \<in># ?R" using cells_okD(2) [OF cells cb(1)] U by auto
    moreover have "0 < count (parents ?C) b" "0 < count ?R b"
      using bp \<open>b \<in># ?R\<close> by (simp_all only: count_greater_zero_iff)
    ultimately show False by linarith
  qed
  then show "b \<noteq> a \<and> b \<notin> U \<and> (\<exists>cb. fmlookup ?C b = Some cb \<and> ct_ffn c = Slice_ffn b (ct_store cb = Malloced))"
    using cb bp d(2) by auto
qed

lemma release_content_ok:
  assumes "blocks_ok H (R + replicate_mset k a) U" "0 < k" "fmlookup (hp_contents H) a = Some c"
    and "lmsg_owner = (ct_store c = Malloced)" "shared = (a \<notin> U)"
  shows "\<exists>r. release_content pool_max a lmsg_owner (word_of_nat k) shared H = Some r \<and> released k a R U H r"
  using assms
proof (induction "fcard (fmdom (hp_contents H))" arbitrary: H R k a U c lmsg_owner shared rule: less_induct)
  case less
  let ?C = "hp_contents H" and ?R = "R + replicate_mset k a"
  note ok = less.prems(1) and a = less.prems(3)
  have cells: "cells_ok ?C ?R U" and shapes: "shapes_ok ?C"
    using ok by (simp_all add: blocks_ok_def)
  have sh: "shape_ok ?C a c" using shapes a by (simp add: shapes_ok_def)
  have kt: "k \<le> total ?C ?R a" by simp
  have dom: "a |\<in>| fmdom ?C" using a by (rule fmdomI)
  show ?case
  proof (cases "total ?C ?R a = k")
    case False
    have u: "a \<notin> U"
    proof
      assume "a \<in> U"
      then show False using cells_okD(2) [OF cells a] False \<open>0 < k\<close> kt by linarith
    qed
    note n = cells_okD(3) [OF cells a u]
    have ne: "ct_refcnt c - word_of_nat k \<noteq> 0"
      using word_sub_exact [OF kt] n False by metis
    let ?c = "c\<lparr>ct_refcnt := ct_refcnt c - word_of_nat k\<rparr>"
    have "blocks_ok (put_content a ?c H) R U"
      using cells_ok_keep [OF cells a u False] shapes_ok_refcnt [OF shapes a] ok u a
      by (auto simp: blocks_ok_def split: if_splits)
    moreover have "callbacks (put_content a ?c H) = callbacks H"
      using fm_sum_update [OF a, of "\<lambda>c. opt_mset (ct_user c)" ?c] by (simp add: callbacks_def ct_user_def)
    then have "heap_shrinks H (put_content a ?c H)" using a by (auto simp: heap_shrinks_def)
    ultimately show ?thesis
      using a u ne less.prems(5) by (simp add: release_content.simps [of _ a] refcnt_sub_def)
  next
    case True
    have gone: "\<not> (shared \<and> snd (refcnt_sub (ct_refcnt c) (word_of_nat k)))"
      using word_sub_exact [OF kt] cells_okD(3) [OF cells a] True less.prems(5) by (auto simp: refcnt_sub_def)
    note d = released_last [OF ok a True]
    have "\<exists>H1. (case ct_ffn c of
                     No_ffn \<Rightarrow> Some (drop_content a H)
                   | User_ffn hint \<Rightarrow>
                       Some ((drop_content a H)\<lparr>hp_events := hp_events H @ [Called hint]\<rparr>)
                   | Slice_ffn b owner \<Rightarrow>
                       map_option snd (release_content pool_max b owner 1 True (drop_content a H))) = Some H1
        \<and> blocks_ok H1 R (U - {a}) \<and> heap_shrinks H H1 \<and> fmlookup (hp_contents H1) a = None
        \<and> set (hp_pool H1) \<subseteq> set (hp_pool H) \<union> fset (fmdom ?C) - {a}"
      (is "\<exists>H1. ?call = Some H1 \<and> ?post H1")
    proof (cases "ct_parent c")
      case None
      have pool: "a \<notin> set (hp_pool H)" using ok a by (auto simp: blocks_ok_def)
      have cb: "callbacks H = callbacks (drop_content a H) + opt_mset (ct_user c)" by (rule callbacks_drop [OF a])
      show ?thesis
        using None d(1) pool cb
        by (auto simp: ct_parent_def ct_user_def blocks_ok_def callbacks_def heap_shrinks_def called_def
            split: free_fn.splits)
    next
      case (Some b)
      note p = d(2) [OF Some]
      obtain cb where cb: "fmlookup ?C b = Some cb" "ct_ffn c = Slice_ffn b (ct_store cb = Malloced)"
        using p by blast
      have less': "fcard (fmdom (hp_contents (drop_content a H))) < fcard (fmdom ?C)"
        unfolding heap_sel fmdom_drop by (rule fcard_fminus1_less [OF dom])
      obtain r where r: "release_content pool_max b (ct_store cb = Malloced) (word_of_nat 1) True (drop_content a H) = Some r"
          "released 1 b R (U - {a}) (drop_content a H) r"
        using less.hyps [OF less', of R 1 b "U - {a}" cb "ct_store cb = Malloced" True] d(1) p cb(1) Some
        by auto
      have "heap_shrinks H (drop_content a H)"
        using callbacks_drop [OF a] cb(2) by (intro heap_shrinks_drop) (auto simp: ct_user_def)
      then have "heap_shrinks H (snd r)" using r(2) heap_shrinks_trans by blast
      moreover have "fmlookup (hp_contents (snd r)) a = None"
      proof (rule ccontr)
        assume "fmlookup (hp_contents (snd r)) a \<noteq> None"
        then have "fmlookup (hp_contents (drop_content a H)) a \<noteq> None"
          using r(2) unfolding heap_shrinks_def by blast
        then show False by simp
      qed
      moreover have "set (hp_pool (snd r)) \<subseteq> set (hp_pool H) \<union> fset (fmdom ?C) - {a}"
        using r(2) ok a by (auto simp: blocks_ok_def heap_shrinks_def)
      moreover have "U - {a} - {b} = U - {a}" using p by blast
      ultimately show ?thesis using r cb(2) by auto
    qed
    then obtain H1 where H1: "?call = Some H1" "?post H1" by blast
    from dispose_content_ok [OF _ _ _ sh less.prems(4) _ dom, of H1 R "U - {a}" pool_max] H1(2)
    obtain H2 where "dispose_content pool_max a c lmsg_owner H1 = Some H2" "blocks_ok H2 R (U - {a})"
        "heap_shrinks H H2" "hp_contents H2 = hp_contents H1"
        "set (hp_pool H2) \<subseteq> set (hp_pool H) \<union> fset (fmdom ?C)" by auto
    moreover have "release_content pool_max a lmsg_owner (word_of_nat k) shared H
        = map_option (\<lambda>H2. (False, H2)) (dispose_content pool_max a c lmsg_owner H1)"
      by (subst release_content.simps) (use H1(1) gone a in auto)
    ultimately show ?thesis using H1(2) by simp
  qed
qed


subsection \<open>Operations on messages\<close>

definition hm_valid :: "hmsg \<Rightarrow> bool" where
  "hm_valid m \<longleftrightarrow> hm_body m \<noteq> Invalid"

definition hm_shared :: "hmsg \<Rightarrow> bool" where
  "hm_shared m \<longleftrightarrow> msg_flags m AND f_shared \<noteq> 0"

definition body_addr :: "hmsg \<Rightarrow> addr option" where
  "body_addr m = (case hm_body m of Lmsg a \<Rightarrow> Some a | Zclmsg a \<Rightarrow> Some a | _ \<Rightarrow> None)"

definition is_lmsg :: "hmsg \<Rightarrow> bool" where
  "is_lmsg m \<longleftrightarrow> (case hm_body m of Lmsg _ \<Rightarrow> True | _ \<Rightarrow> False)"

definition hm_with :: "payload \<Rightarrow> hmsg" where
  "hm_with p = \<lparr>msg_flags = 0, msg_routing_id = 0, msg_conn_id = 0, msg_aux = Aux_none, hm_body = p\<rparr>"

definition hm_init :: hmsg where
  "hm_init = hm_with (Vsm [])"

definition invalidate :: "hmsg \<Rightarrow> hmsg" where
  "invalidate m = m\<lparr>hm_body := Invalid\<rparr>"

definition new_content :: "store \<Rightarrow> byte list \<Rightarrow> addr \<Rightarrow> free_fn \<Rightarrow> content" where
  "new_content st bs a f =
     \<lparr>ct_store = st, ct_buffer = bs, ct_root = a, ct_off = 0, ct_size = length bs, ct_ffn = f, ct_refcnt = 0\<rparr>"

text \<open>\<open>init_size\<close>; the bytes are whatever the fresh storage holds, and in \<open>init_buffer\<close> what is
  then copied over all of it.\<close>

definition init_size :: "byte list \<Rightarrow> addr option \<Rightarrow> heap \<Rightarrow> (errno + hmsg) \<times> heap" where
  "init_size bs alloc H =
     (if length bs \<le> max_vsm_size then (Inr (hm_with (Vsm bs)), H)
      else case (if length bs + sizeof_content < 2 ^ 64 then alloc else None) of
        None \<Rightarrow> (Inl ENOMEM, H)
      | Some a \<Rightarrow> (Inr (hm_with (Lmsg a)), put_content a (new_content Malloced bs a No_ffn) H))"

definition init_data :: "byte list \<Rightarrow> nat option \<Rightarrow> addr option \<Rightarrow> heap \<Rightarrow> (errno + hmsg) \<times> heap" where
  "init_data bs ffn alloc H =
     (case ffn of
        None \<Rightarrow> (Inr (hm_with (Cmsg bs)), H)
      | Some hint \<Rightarrow>
          (case alloc of
             None \<Rightarrow> (Inl ENOMEM, H)
           | Some a \<Rightarrow> (Inr (hm_with (Lmsg a)), put_content a (new_content Malloced bs a (User_ffn hint)) H)))"

definition init_external_storage :: "addr \<Rightarrow> byte list \<Rightarrow> free_fn \<Rightarrow> heap \<Rightarrow> hmsg \<times> heap" where
  "init_external_storage a bs ffn H = (hm_with (Zclmsg a), put_content a (new_content Caller_owned bs a ffn) H)"

definition init_delimiter :: hmsg where
  "init_delimiter = hm_with Delimiter"

text \<open>\<open>clear_auxiliary\<close>: drops the reference to a long group.\<close>

definition release_group :: "u32 \<Rightarrow> addr \<Rightarrow> heap \<Rightarrow> (bool \<times> heap) option" where
  "release_group refs g H =
     (case fmlookup (hp_groups H) g of
        None \<Rightarrow> None
      | Some lg \<Rightarrow>
          let (v, alive) = refcnt_sub (lg_refcnt lg) refs in
          if alive then Some (True, H\<lparr>hp_groups := fmupd g (lg\<lparr>lg_refcnt := v\<rparr>) (hp_groups H)\<rparr>)
          else Some (False, H\<lparr>hp_groups := fmdrop g (hp_groups H)\<rparr>))"

definition clear_auxiliary :: "hmsg \<Rightarrow> heap \<Rightarrow> (hmsg \<times> heap) option" where
  "clear_auxiliary m H =
     (case msg_aux m of
        Aux_group_long g \<Rightarrow> map_option (\<lambda>(_, H'). (m\<lparr>msg_aux := Aux_none\<rparr>, H')) (release_group 1 g H)
      | _ \<Rightarrow> Some (m\<lparr>msg_aux := Aux_none\<rparr>, H))"

text \<open>The assertion of \<open>close\<close> that a zero-copy message has a callback.\<close>

definition assert_ffn :: "hmsg \<Rightarrow> heap \<Rightarrow> bool" where
  "assert_ffn m H \<longleftrightarrow>
     (case hm_body m of
        Zclmsg a \<Rightarrow> (case fmlookup (hp_contents H) a of Some c \<Rightarrow> ct_ffn c \<noteq> No_ffn | None \<Rightarrow> False)
      | _ \<Rightarrow> True)"

definition msg_close :: "nat \<Rightarrow> hmsg \<Rightarrow> heap \<Rightarrow> ((errno + hmsg) \<times> heap) option" where
  "msg_close pool_max m H =
     (if \<not> hm_valid m then Some (Inl EFAULT, H)
      else
        case (case body_addr m of
                None \<Rightarrow> Some H
              | Some a \<Rightarrow>
                  if assert_ffn m H
                  then map_option snd (release_content pool_max a (is_lmsg m) 1 (hm_shared m) H) else None) of
          None \<Rightarrow> None
        | Some H1 \<Rightarrow> map_option (\<lambda>(m', H'). (Inr (invalidate m'), H')) (clear_auxiliary m H1))"

text \<open>\<open>move\<close> of a different message: the result is this message, the source and the heap.\<close>

definition msg_move :: "nat \<Rightarrow> hmsg \<Rightarrow> hmsg \<Rightarrow> heap \<Rightarrow> ((errno + hmsg \<times> hmsg) \<times> heap) option" where
  "msg_move pool_max this src H =
     (if \<not> hm_valid src then Some (Inl EFAULT, H)
      else if hm_valid this then map_option (\<lambda>(_, H'). (Inr (src, hm_init), H')) (msg_close pool_max this H)
      else Some (Inr (src, hm_init), H))"

text \<open>One more reference to the payload of a message: a payload that was not shared becomes so.\<close>

definition share_payload :: "u32 \<Rightarrow> hmsg \<Rightarrow> heap \<Rightarrow> (hmsg \<times> heap) option" where
  "share_payload k m H =
     (case body_addr m of
        None \<Rightarrow> Some (m, H)
      | Some a \<Rightarrow>
          (case fmlookup (hp_contents H) a of
             None \<Rightarrow> None
           | Some c \<Rightarrow>
               if hm_shared m then Some (m, put_content a (c\<lparr>ct_refcnt := ct_refcnt c + k\<rparr>) H)
               else Some (set_flags f_shared m, put_content a (c\<lparr>ct_refcnt := k + 1\<rparr>) H)))"

definition share_group :: "u32 \<Rightarrow> hmsg \<Rightarrow> heap \<Rightarrow> heap option" where
  "share_group k m H =
     (case msg_aux m of
        Aux_group_long g \<Rightarrow>
          map_option (\<lambda>lg. H\<lparr>hp_groups := fmupd g (lg\<lparr>lg_refcnt := lg_refcnt lg + k\<rparr>) (hp_groups H)\<rparr>)
            (fmlookup (hp_groups H) g)
      | _ \<Rightarrow> Some H)"

definition msg_copy :: "nat \<Rightarrow> hmsg \<Rightarrow> hmsg \<Rightarrow> heap \<Rightarrow> ((errno + hmsg \<times> hmsg) \<times> heap) option" where
  "msg_copy pool_max this src H =
     (if \<not> hm_valid src then Some (Inl EFAULT, H)
      else case msg_close pool_max this H of
        None \<Rightarrow> None
      | Some (Inl e, H1) \<Rightarrow> Some (Inl e, H1)
      | Some (Inr _, H1) \<Rightarrow>
          (case share_payload 1 src H1 of
             None \<Rightarrow> None
           | Some (src', H2) \<Rightarrow> map_option (\<lambda>H3. (Inr (src', src'), H3)) (share_group 1 src' H2)))"

text \<open>\<open>add_refs\<close> and \<open>rm_refs\<close>; the number of references is a non-negative int.\<close>

definition add_refs :: "nat \<Rightarrow> hmsg \<Rightarrow> heap \<Rightarrow> (hmsg \<times> heap) option" where
  "add_refs refs m H =
     (if refs = 0 then Some (m, H)
      else case share_group (word_of_nat refs) m H of
        None \<Rightarrow> None
      | Some H1 \<Rightarrow> share_payload (word_of_nat refs) m H1)"

definition rm_refs :: "nat \<Rightarrow> nat \<Rightarrow> hmsg \<Rightarrow> heap \<Rightarrow> (bool \<times> heap) option" where
  "rm_refs pool_max refs m H =
     (if refs = 0 then Some (True, H)
      else if (body_addr m \<noteq> None \<and> \<not> hm_shared m) \<or> (body_addr m = None \<and> \<not> has_long_group m)
      then map_option (\<lambda>(_, H'). (False, H')) (msg_close pool_max m H)
      else
        case (case body_addr m of
                None \<Rightarrow> Some (True, H)
              | Some a \<Rightarrow> release_content pool_max a (is_lmsg m) (word_of_nat refs) True H) of
          None \<Rightarrow> None
        | Some (payload_alive, H1) \<Rightarrow>
            (case msg_aux m of
               Aux_group_long g \<Rightarrow>
                 map_option (\<lambda>(aux_alive, H2). (payload_alive \<and> aux_alive, H2)) (release_group (word_of_nat refs) g H1)
             | _ \<Rightarrow> Some (payload_alive, H1)))"

definition set_group :: "byte list \<Rightarrow> addr option \<Rightarrow> hmsg \<Rightarrow> heap \<Rightarrow> ((errno + hmsg) \<times> heap) option" where
  "set_group grp alloc m H =
     (if length grp > ZLINK_GROUP_MAX_LENGTH then Some (Inl EINVAL, H)
      else if (case msg_aux m of Aux_request_reply _ _ \<Rightarrow> True | _ \<Rightarrow> False) then Some (Inl EINVAL, H)
      else if length grp > 14 then
        (case alloc of
           None \<Rightarrow> Some (Inl ENOMEM, H)
         | Some g \<Rightarrow>
             map_option (\<lambda>(m', H'). (Inr (m'\<lparr>msg_aux := Aux_group_long g\<rparr>), H'))
               (clear_auxiliary m (H\<lparr>hp_groups := fmupd g \<lparr>lg_group = grp, lg_refcnt = 1\<rparr> (hp_groups H)\<rparr>)))
      else map_option (\<lambda>(m', H'). (Inr (m'\<lparr>msg_aux := Aux_group_short grp\<rparr>), H')) (clear_auxiliary m H))"

text \<open>\<open>data ()\<close> and \<open>size ()\<close>: the bytes of a message. A delimiter or an invalid message aborts.\<close>

definition msg_bytes :: "heap \<Rightarrow> hmsg \<Rightarrow> byte list option" where
  "msg_bytes H m =
     (case hm_body m of
        Vsm bs \<Rightarrow> Some bs
      | Cmsg bs \<Rightarrow> Some bs
      | Lmsg a \<Rightarrow> read_content (hp_contents H) a
      | Zclmsg a \<Rightarrow> read_content (hp_contents H) a
      | _ \<Rightarrow> None)"

definition refcnt_value :: "hmsg \<Rightarrow> heap \<Rightarrow> u32 option" where
  "refcnt_value m H =
     (if \<not> hm_valid m then None
      else case body_addr m of
        None \<Rightarrow> Some 1
      | Some a \<Rightarrow> if hm_shared m then map_option ct_refcnt (fmlookup (hp_contents H) a) else Some 1)"


text \<open>\<open>init_view\<close> of a range of a different message: the view of a long payload is a descriptor from
  the pool that refers to the source's block; other payloads are copied. The result is the error,
  this message and the source.\<close>

definition view_content :: "content \<Rightarrow> addr \<Rightarrow> bool \<Rightarrow> nat \<Rightarrow> nat \<Rightarrow> content" where
  "view_content c a owner off n =
     \<lparr>ct_store = Slice_pool, ct_buffer = [], ct_root = ct_root c, ct_off = ct_off c + off, ct_size = n,
      ct_ffn = Slice_ffn a owner, ct_refcnt = 0\<rparr>"

definition view_payload ::
    "nat \<Rightarrow> hmsg \<Rightarrow> addr \<Rightarrow> nat \<Rightarrow> nat \<Rightarrow> addr option \<Rightarrow> heap \<Rightarrow> ((errno option \<times> hmsg \<times> hmsg) \<times> heap) option" where
  "view_payload pool_max src a off n alloc H =
     (case share_payload 1 src H of
        None \<Rightarrow> None
      | Some (src', H1) \<Rightarrow>
          (case acquire_slice_content alloc H1 of
             (None, H2) \<Rightarrow>
               map_option (\<lambda>(alive, H3).
                   ((Some ENOMEM, hm_init,
                     if alive \<and> \<not> hm_shared src then reset_flags f_shared src' else src'), H3))
                 (release_content pool_max a (is_lmsg src) 1 True H2)
           | (Some v, H2) \<Rightarrow>
               map_option (\<lambda>c. ((None, hm_with (Zclmsg v), src'), put_content v (view_content c a (is_lmsg src) off n) H2))
                 (fmlookup (hp_contents H2) a)))"

definition init_view ::
    "nat \<Rightarrow> hmsg \<Rightarrow> hmsg \<Rightarrow> nat \<Rightarrow> nat \<Rightarrow> addr option \<Rightarrow> heap \<Rightarrow> ((errno option \<times> hmsg \<times> hmsg) \<times> heap) option" where
  "init_view pool_max this src off n alloc H =
     (if \<not> hm_valid src then Some ((Some EFAULT, this, src), H)
      else case msg_bytes H src of
        None \<Rightarrow> None
      | Some bs \<Rightarrow>
          if off > length bs \<or> n > length bs - off then Some ((Some EINVAL, this, src), H)
          else
            (case msg_close pool_max this H of
               None \<Rightarrow> None
             | Some (Inl e, H1) \<Rightarrow> Some ((Some e, this, src), H1)
             | Some (Inr _, H1) \<Rightarrow>
                 if n = 0 then Some ((None, hm_with (Vsm []), src), H1)
                 else (case body_addr src of
                         Some a \<Rightarrow> view_payload pool_max src a off n alloc H1
                       | None \<Rightarrow>
                           (case init_size (take n (drop off bs)) alloc H1 of
                              (Inl e, H2) \<Rightarrow> Some ((Some e, hm_init, src), H2)
                            | (Inr m, H2) \<Rightarrow> Some ((None, m, src), H2)))))"

subsection \<open>The invariant of messages and heap\<close>

definition group_addr :: "hmsg \<Rightarrow> addr option" where
  "group_addr m = (case msg_aux m of Aux_group_long g \<Rightarrow> Some g | _ \<Rightarrow> None)"

definition refs_of :: "(hmsg \<Rightarrow> addr option) \<Rightarrow> hmsg multiset \<Rightarrow> addr multiset" where
  "refs_of f M = sum_mset (image_mset (\<lambda>m. opt_mset (f m)) M)"

abbreviation payload_refs :: "hmsg multiset \<Rightarrow> addr multiset" where
  "payload_refs M \<equiv> refs_of body_addr M"

abbreviation group_refs :: "hmsg multiset \<Rightarrow> addr multiset" where
  "group_refs M \<equiv> refs_of group_addr M"

definition unshared :: "hmsg multiset \<Rightarrow> addr set" where
  "unshared M = {a. \<exists>m \<in># M. body_addr m = Some a \<and> \<not> hm_shared m}"

definition groups_ok :: "(addr, long_group) fmap \<Rightarrow> addr multiset \<Rightarrow> bool" where
  "groups_ok G R \<longleftrightarrow>
     (\<forall>g. case fmlookup G g of
            None \<Rightarrow> count R g = 0
          | Some lg \<Rightarrow> 0 < count R g \<and> count R g < 2 ^ 32 \<and> lg_refcnt lg = word_of_nat (count R g))"

definition msg_ok :: "heap \<Rightarrow> hmsg \<Rightarrow> bool" where
  "msg_ok H m \<longleftrightarrow>
     (case hm_body m of
        Vsm bs \<Rightarrow> length bs \<le> max_vsm_size
      | Lmsg a \<Rightarrow> (\<forall>c. fmlookup (hp_contents H) a = Some c \<longrightarrow> ct_store c = Malloced)
      | Zclmsg a \<Rightarrow> (\<forall>c. fmlookup (hp_contents H) a = Some c \<longrightarrow> ct_store c \<noteq> Malloced)
      | Invalid \<Rightarrow> group_addr m = None
      | _ \<Rightarrow> True)"

text \<open>\<open>M\<close> is the multiset of the messages in the program, bitwise copies counted: the blocks are
  exactly those they refer to, with exact counters.\<close>

definition heap_ok :: "heap \<Rightarrow> hmsg multiset \<Rightarrow> bool" where
  "heap_ok H M \<longleftrightarrow>
     blocks_ok H (payload_refs M) (unshared M) \<and> groups_ok (hp_groups H) (group_refs M)
     \<and> (\<forall>m \<in># M. msg_ok H m)"

lemma unshared_simps [simp]:
  "unshared {#} = {}"
  "unshared (add_mset m M) =
     (if hm_shared m then unshared M else (case body_addr m of None \<Rightarrow> unshared M | Some a \<Rightarrow> insert a (unshared M)))"
  by (auto simp: unshared_def split: option.splits)

lemma unshared_replicate: "unshared (replicate_mset k m + M) = (if k = 0 then unshared M else unshared (add_mset m M))"
  by (induction k) (auto split: option.splits)

lemma refs_of_simps [simp]:
  "refs_of f {#} = {#}" "refs_of f (add_mset m M) = opt_mset (f m) + refs_of f M"
  by (simp_all add: refs_of_def)

lemma refs_replicate:
  "refs_of f (replicate_mset k m + M) =
     (case f m of None \<Rightarrow> {#} | Some a \<Rightarrow> replicate_mset k a) + refs_of f M"
  by (induction k) (auto split: option.splits)

lemma body_addr_in_refs: "m \<in># M \<Longrightarrow> f m = Some a \<Longrightarrow> a \<in># refs_of f M"
  by (metis insert_DiffM opt_mset.simps(2) refs_of_simps(2) union_iff multi_member_this add_mset_add_single)

lemma body_addr_live:
  assumes "heap_ok H M" "m \<in># M" "body_addr m = Some a"
  obtains c where "fmlookup (hp_contents H) a = Some c" "is_lmsg m \<longleftrightarrow> ct_store c = Malloced"
proof -
  obtain c where c: "fmlookup (hp_contents H) a = Some c"
    using cells_ok_live body_addr_in_refs [of m M body_addr, OF assms(2,3)] assms(1) unfolding heap_ok_def blocks_ok_def by blast
  moreover have "msg_ok H m" using assms by (simp add: heap_ok_def)
  ultimately show ?thesis using that assms(3)
    by (auto simp: msg_ok_def body_addr_def is_lmsg_def split: payload.splits)
qed


lemma unshared_subset: "unshared M \<subseteq> set_mset (payload_refs M)"
  using body_addr_in_refs [where f = body_addr] by (auto simp: unshared_def)

text \<open>A message is shared exactly when the counter of its block is in use; so the blocks that are
  not shared do not overlap between messages.\<close>

lemma unshared_disjoint:
  assumes ok: "heap_ok H (replicate_mset k m + M)" and k: "0 < k" and a: "body_addr m = Some a"
  shows "a \<notin> unshared M" "a \<in> unshared (add_mset m M) \<longleftrightarrow> \<not> hm_shared m"
    "\<not> hm_shared m \<Longrightarrow> k = 1 \<and> a \<notin># payload_refs M"
proof -
  let ?C = "hp_contents H" and ?R = "replicate_mset k a + payload_refs M"
  have "payload_refs (replicate_mset k m + M) = ?R" unfolding refs_replicate using a by simp
  moreover have "unshared (replicate_mset k m + M) = unshared (add_mset m M)" using k by (simp add: unshared_replicate)
  ultimately have cells: "cells_ok ?C ?R (unshared (add_mset m M))"
    using ok by (simp add: heap_ok_def blocks_ok_def)
  have "m \<in># replicate_mset k m + M" using k by simp
  then obtain c where c: "fmlookup ?C a = Some c" using body_addr_live [OF ok _ a] by blast
  note one = cells_okD(2) [OF cells c]
  show na: "a \<notin> unshared M"
  proof
    assume u: "a \<in> unshared M"
    then have "a \<in># payload_refs M" using unshared_subset by blast
    then have "0 < count (payload_refs M) a" by (simp only: count_greater_zero_iff)
    moreover have "a \<in> unshared (add_mset m M)" using u by (auto split: option.splits)
    moreover have "total ?C ?R a = k + count (payload_refs M) a + count (parents ?C) a" by simp
    ultimately show False using one k by linarith
  qed
  then show "a \<in> unshared (add_mset m M) \<longleftrightarrow> \<not> hm_shared m" using a by auto
  assume "\<not> hm_shared m"
  then have "total ?C ?R a = 1" using one a by simp
  then show "k = 1 \<and> a \<notin># payload_refs M" using k by (auto simp: not_in_iff)
qed

lemma payload_release:
  assumes ok: "heap_ok H (replicate_mset k m + M)" and k: "0 < k" and a: "body_addr m = Some a"
  shows "\<exists>r. release_content pool_max a (is_lmsg m) (word_of_nat k) (hm_shared m) H = Some r
    \<and> blocks_ok (snd r) (payload_refs M) (unshared M) \<and> heap_shrinks H (snd r)
    \<and> fst r = (fmlookup (hp_contents (snd r)) a \<noteq> None)"
proof -
  let ?U = "unshared (add_mset m M)"
  note u = unshared_disjoint [OF assms]
  have "payload_refs (replicate_mset k m + M) = payload_refs M + replicate_mset k a"
    unfolding refs_replicate using a by (simp add: union_commute)
  then have "blocks_ok H (payload_refs M + replicate_mset k a) ?U"
    using ok k unfolding heap_ok_def by (simp only: unshared_replicate) simp
  note b = this
  have "m \<in># replicate_mset k m + M" using k by simp
  then obtain c where c: "fmlookup (hp_contents H) a = Some c" "is_lmsg m = (ct_store c = Malloced)"
    using body_addr_live [OF ok _ a] by metis
  have "?U - {a} = unshared M" using u(1) a by auto
  moreover have "hm_shared m = (a \<notin> ?U)" using u(2) by blast
  ultimately show ?thesis using release_content_ok [OF b k c, of "hm_shared m" pool_max] by metis
qed

lemma release_group_ok:
  assumes ok: "groups_ok (hp_groups H) (replicate_mset k g + R)" and k: "0 < k"
  shows "\<exists>alive G. release_group (word_of_nat k) g H = Some (alive, H\<lparr>hp_groups := G\<rparr>) \<and> groups_ok G R
    \<and> (alive \<longleftrightarrow> g \<in># R)"
proof -
  let ?G = "hp_groups H" and ?n = "k + count R g"
  obtain lg where lg: "fmlookup ?G g = Some lg" "?n < 2 ^ 32" "lg_refcnt lg = word_of_nat ?n"
    using ok [unfolded groups_ok_def, rule_format, of g] k by (auto split: option.splits)
  have w: "lg_refcnt lg - word_of_nat k = word_of_nat (count R g)" "lg_refcnt lg - word_of_nat k = 0 \<longleftrightarrow> g \<notin># R"
    using word_sub_exact [of k ?n] lg(2,3) by (simp_all add: not_in_iff)
  have other: "case fmlookup ?G x of None \<Rightarrow> count R x = 0
      | Some lg \<Rightarrow> 0 < count R x \<and> count R x < 2 ^ 32 \<and> lg_refcnt lg = word_of_nat (count R x)" if "x \<noteq> g" for x
    using ok [unfolded groups_ok_def, rule_format, of x] that by (simp split: option.splits)
  show ?thesis
  proof (cases "g \<in># R")
    case True
    then have "groups_ok (fmupd g (lg\<lparr>lg_refcnt := lg_refcnt lg - word_of_nat k\<rparr>) ?G) R"
      unfolding groups_ok_def using other w lg(2) by (auto simp: count_greater_zero_iff)
    then show ?thesis using True w lg(1) by (auto simp: release_group_def refcnt_sub_def)
  next
    case False
    then have "groups_ok (fmdrop g ?G) R"
      unfolding groups_ok_def using other by (auto simp: not_in_iff)
    then show ?thesis using False w lg(1) by (auto simp: release_group_def refcnt_sub_def)
  qed
qed

text \<open>What every operation keeps of the messages it does not name: their bytes and their callbacks.\<close>

definition keeps :: "heap \<Rightarrow> heap \<Rightarrow> hmsg multiset \<Rightarrow> bool" where
  "keeps H H' M \<longleftrightarrow> (\<forall>m \<in># M. msg_bytes H' m = msg_bytes H m) \<and> callbacks H' = callbacks H
     \<and> fmdom (hp_contents H') |\<subseteq>| fmdom (hp_contents H)
     \<and> set (hp_pool H') \<subseteq> set (hp_pool H) \<union> fset (fmdom (hp_contents H))"

lemma msg_ok_shrinks: "heap_shrinks H H' \<Longrightarrow> msg_ok H m \<Longrightarrow> msg_ok H' m"
  unfolding heap_shrinks_def msg_ok_def
  by (cases "hm_body m") (simp_all, (metis content.simps(8) content.select_convs(1) content.update_convs(7) content.surjective)+)

lemma msg_bytes_shrinks:
  assumes "heap_shrinks H H'" "heap_ok H' M" "m \<in># M"
  shows "msg_bytes H' m = msg_bytes H m"
proof (cases "body_addr m")
  case None
  then show ?thesis by (auto simp: msg_bytes_def body_addr_def split: payload.splits)
next
  case (Some a)
  then obtain c where "fmlookup (hp_contents H') a = Some c" using body_addr_live [OF assms(2,3)] by blast
  then have "read_content (hp_contents H') a = read_content (hp_contents H) a"
    using read_content_shrinks [OF assms(1)] assms(2) by (simp add: heap_ok_def blocks_ok_def)
  with Some show ?thesis by (auto simp: msg_bytes_def body_addr_def split: payload.splits)
qed

end
