(* ===== verification/Msg_Heap_Safety.thy ===== *)
theory Msg_Heap_Safety
  imports Msg_Heap
begin

section \<open>Message storage: memory safety\<close>

text \<open>
  The operations of \<open>Msg_Heap\<close> keep its invariant \<open>heap_ok\<close>: the live blocks are exactly those the
  messages of the program refer to, directly or through views, and the counters are exact. Each
  operation has a lemma that says which references it consumes and produces; the last section puts
  them together for arbitrary programs.
\<close>

subsection \<open>Correctness of the operations\<close>

text \<open>Both parts of releasing \<open>k\<close> copies of a message, in the form the operations use.\<close>

lemma payload_release_opt:
  assumes ok: "heap_ok H (replicate_mset k m + M)" and k: "0 < k"
  shows "\<exists>alive H1. (case body_addr m of
              None \<Rightarrow> Some (True, H)
            | Some a \<Rightarrow> release_content pool_max a (is_lmsg m) (word_of_nat k) (hm_shared m) H) = Some (alive, H1)
    \<and> blocks_ok H1 (payload_refs M) (unshared M) \<and> heap_shrinks H H1"
proof (cases "body_addr m")
  case None
  then have "unshared (replicate_mset k m + M) = unshared M" by (simp only: unshared_replicate) simp
  moreover have "payload_refs (replicate_mset k m + M) = payload_refs M" unfolding refs_replicate None by simp
  ultimately show ?thesis using ok None by (auto simp: heap_ok_def)
next
  case (Some a)
  with payload_release [OF ok k Some, of pool_max] show ?thesis by fastforce
qed

lemma group_release_opt:
  assumes ok: "groups_ok (hp_groups H) (group_refs (replicate_mset k m + M))" and k: "0 < k"
  shows "\<exists>alive G. (case group_addr m of
              None \<Rightarrow> Some (True, H)
            | Some g \<Rightarrow> release_group (word_of_nat k) g H) = Some (alive, H\<lparr>hp_groups := G\<rparr>)
    \<and> groups_ok G (group_refs M)"
proof (cases "group_addr m")
  case None
  then have "group_refs (replicate_mset k m + M) = group_refs M" unfolding refs_replicate None by simp
  then show ?thesis using ok None by (auto intro!: exI [of _ "hp_groups H"])
next
  case (Some g)
  then have "groups_ok (hp_groups H) (replicate_mset k g + group_refs M)"
    using ok unfolding refs_replicate by simp
  from release_group_ok [OF this k] Some show ?thesis by auto
qed

lemma heap_ok_released:
  assumes "blocks_ok H1 (payload_refs M) (unshared M)" "heap_shrinks H H1"
    and "groups_ok G (group_refs M)" "\<And>m. m \<in># M \<Longrightarrow> msg_ok H m"
  shows "heap_ok (H1\<lparr>hp_groups := G\<rparr>) M" "keeps H (H1\<lparr>hp_groups := G\<rparr>) M"
proof -
  let ?H = "H1\<lparr>hp_groups := G\<rparr>"
  have m: "msg_ok ?H x = msg_ok H1 x" "msg_bytes ?H x = msg_bytes H1 x" for x
    by (simp_all add: msg_ok_def msg_bytes_def cong: payload.case_cong)
  have cb: "callbacks ?H = callbacks H" using assms(2) by (simp add: heap_shrinks_def callbacks_def called_def)
  have b: "blocks_ok ?H (payload_refs M) (unshared M)" using assms(1) by (simp add: blocks_ok_def)
  then show ok: "heap_ok ?H M" using assms m(1) msg_ok_shrinks [OF assms(2)] by (simp add: heap_ok_def)
  have "msg_bytes ?H x = msg_bytes H x" if x: "x \<in># M" for x
  proof (cases "body_addr x")
    case None
    then show ?thesis by (auto simp: msg_bytes_def body_addr_def split: payload.splits)
  next
    case (Some a)
    then obtain c where "fmlookup (hp_contents H1) a = Some c" using body_addr_live [OF ok x] by auto
    then have "read_content (hp_contents H1) a = read_content (hp_contents H) a"
      using read_content_shrinks [OF assms(2)] assms(1) by (simp add: blocks_ok_def)
    with Some show ?thesis by (auto simp: msg_bytes_def body_addr_def split: payload.splits)
  qed
  moreover have "fmdom (hp_contents ?H) |\<subseteq>| fmdom (hp_contents H)" using heap_shrinks_dom [OF assms(2)] by simp
  ultimately show "keeps H ?H M" using cb assms(2) by (simp add: keeps_def heap_shrinks_def)
qed

lemma clear_auxiliary_alt:
  "clear_auxiliary m H = map_option (\<lambda>(_, H'). (m\<lparr>msg_aux := Aux_none\<rparr>, H'))
     (case group_addr m of None \<Rightarrow> Some (True, H) | Some g \<Rightarrow> release_group 1 g H)"
  by (simp add: clear_auxiliary_def group_addr_def split: auxiliary.splits)

lemma assert_ffn_ok:
  assumes "heap_ok H M" "m \<in># M"
  shows "assert_ffn m H"
proof (cases "hm_body m")
  case (Zclmsg a)
  then have "body_addr m = Some a" by (simp add: body_addr_def)
  then obtain c where c: "fmlookup (hp_contents H) a = Some c" "is_lmsg m \<longleftrightarrow> ct_store c = Malloced"
    using body_addr_live [OF assms] by blast
  then have "shape_ok (hp_contents H) a c" using assms(1) by (simp add: heap_ok_def blocks_ok_def shapes_ok_def)
  then show ?thesis using c Zclmsg
    by (cases "ct_store c") (auto simp: assert_ffn_def shape_ok_def is_lmsg_def split: free_fn.splits)
qed (simp_all add: assert_ffn_def)

text \<open>Closing one message of the program releases its references and nothing else.\<close>

lemma msg_close_releases:
  assumes ok: "heap_ok H (add_mset m M)" and v: "hm_valid m"
  shows "\<exists>H'. msg_close pool_max m H = Some (Inr (m\<lparr>msg_aux := Aux_none, hm_body := Invalid\<rparr>), H')
    \<and> heap_ok H' M \<and> keeps H H' M"
proof -
  have ok1: "heap_ok H (replicate_mset 1 m + M)" using ok by simp
  obtain alive H1 where H1: "(case body_addr m of None \<Rightarrow> Some (True, H)
            | Some a \<Rightarrow> release_content pool_max a (is_lmsg m) (word_of_nat 1) (hm_shared m) H) = Some (alive, H1)"
      "blocks_ok H1 (payload_refs M) (unshared M)" "heap_shrinks H H1"
    using payload_release_opt [OF ok1, of pool_max] by auto
  have "hp_groups H1 = hp_groups H" using H1(3) by (simp add: heap_shrinks_def)
  then have "groups_ok (hp_groups H1) (group_refs (replicate_mset 1 m + M))" using ok by (simp add: heap_ok_def)
  from group_release_opt [OF this] obtain alive' G where G:
      "(case group_addr m of None \<Rightarrow> Some (True, H1) | Some g \<Rightarrow> release_group (word_of_nat 1) g H1)
        = Some (alive', H1\<lparr>hp_groups := G\<rparr>)" "groups_ok G (group_refs M)" by auto
  have "(case body_addr m of None \<Rightarrow> Some H | Some a \<Rightarrow> if assert_ffn m H
          then map_option snd (release_content pool_max a (is_lmsg m) 1 (hm_shared m) H) else None) = Some H1"
    using H1(1) assert_ffn_ok [OF ok, of m] by (auto split: option.splits)
  moreover have "clear_auxiliary m H1 = Some (m\<lparr>msg_aux := Aux_none\<rparr>, H1\<lparr>hp_groups := G\<rparr>)"
    using G(1) [unfolded of_nat_1] by (simp add: clear_auxiliary_alt)
  ultimately have "msg_close pool_max m H = Some (Inr (m\<lparr>msg_aux := Aux_none, hm_body := Invalid\<rparr>), H1\<lparr>hp_groups := G\<rparr>)"
    using v by (simp add: msg_close_def invalidate_def)
  moreover have "msg_ok H x" if "x \<in># M" for x using ok that by (simp add: heap_ok_def)
  ultimately show ?thesis using heap_ok_released [OF H1(2,3) G(2)] by blast
qed

text \<open>Messages without references come and go freely.\<close>

lemma heap_ok_no_refs:
  assumes "body_addr m = None" "group_addr m = None" "msg_ok H m"
  shows "heap_ok H (add_mset m M) \<longleftrightarrow> heap_ok H M"
  using assms by (auto simp: heap_ok_def)

lemma no_refs_simps [simp]:
  "body_addr (hm_with (Vsm bs)) = None" "body_addr (hm_with (Cmsg bs)) = None" "body_addr (hm_with Delimiter) = None"
  "body_addr (hm_with (Lmsg a)) = Some a" "body_addr (hm_with (Zclmsg a)) = Some a"
  "group_addr (hm_with p) = None" "body_addr hm_init = None" "group_addr hm_init = None" "msg_ok H hm_init"
  "hm_valid hm_init" "\<not> hm_shared (hm_with p)" "hm_body (hm_with p) = p" "msg_ok H (hm_with (Cmsg bs))"
  "msg_ok H (hm_with Delimiter)"
  by (simp_all add: body_addr_def group_addr_def hm_with_def hm_init_def msg_ok_def hm_valid_def hm_shared_def)

lemma heap_ok_hm_init [simp]: "heap_ok H (add_mset hm_init M) \<longleftrightarrow> heap_ok H M"
  by (simp add: heap_ok_no_refs)

lemma heap_ok_invalid: "heap_ok H (add_mset m M) \<Longrightarrow> \<not> hm_valid m \<Longrightarrow> heap_ok H M"
proof -
  assume ok: "heap_ok H (add_mset m M)" and v: "\<not> hm_valid m"
  then have "msg_ok H m" "body_addr m = None" "group_addr m = None"
    by (auto simp: heap_ok_def msg_ok_def hm_valid_def body_addr_def)
  then show ?thesis using heap_ok_no_refs ok by blast
qed

lemma msg_move_moves:
  assumes ok: "heap_ok H (add_mset this (add_mset src M))" and v: "hm_valid src"
  shows "\<exists>H'. msg_move pool_max this src H = Some (Inr (src, hm_init), H')
    \<and> heap_ok H' (add_mset src M) \<and> keeps H H' (add_mset src M)"
proof (cases "hm_valid this")
  case True
  then show ?thesis using msg_close_releases [OF ok, of pool_max] v by (auto simp: msg_move_def)
next
  case False
  then show ?thesis using heap_ok_invalid [OF ok] v by (auto simp: msg_move_def keeps_def)
qed

lemma replicate_mset_add: "replicate_mset (k + j) m = replicate_mset k m + replicate_mset j m"
  by (induction k) simp_all

lemma rm_refs_releases:
  assumes ok: "heap_ok H (replicate_mset (k + j) m + M)" and v: "hm_valid m"
  shows "\<exists>alive H'. rm_refs pool_max k m H = Some (alive, H')
    \<and> heap_ok H' (replicate_mset j m + M) \<and> keeps H H' (replicate_mset j m + M)"
proof (cases "k = 0")
  case True
  then show ?thesis using ok by (auto simp: rm_refs_def keeps_def)
next
  case k: False
  let ?M = "replicate_mset j m + M"
  have ok': "heap_ok H (replicate_mset k m + ?M)" using ok by (simp add: replicate_mset_add union_assoc)
  have mok: "msg_ok H x" if "x \<in># ?M" for x using ok that k by (auto simp: heap_ok_def split: if_splits)
  show ?thesis
  proof (cases "(body_addr m \<noteq> None \<and> \<not> hm_shared m) \<or> (body_addr m = None \<and> \<not> has_long_group m)")
    case True
    have "\<exists>H'. msg_close pool_max m H = Some (Inr (m\<lparr>msg_aux := Aux_none, hm_body := Invalid\<rparr>), H')
        \<and> heap_ok H' ?M \<and> keeps H H' ?M"
    proof (cases "body_addr m")
      case (Some a)
      then have "k = 1" using True unshared_disjoint(3) [OF ok' _ Some] k by auto
      with ok' have "heap_ok H (add_mset m ?M)" by simp
      from msg_close_releases [OF this v] show ?thesis .
    next
      case None
      then have g: "group_addr m = None" using True
        by (auto simp: group_addr_def has_long_group_def split: auxiliary.splits)
      have "heap_ok H (replicate_mset n m + ?M) \<Longrightarrow> heap_ok H ?M" for n
      proof (induction n)
        case (Suc n)
        then show ?case using heap_ok_no_refs [OF None g, of H "replicate_mset n m + ?M"]
          by (auto simp: heap_ok_def)
      qed simp
      then have "heap_ok H ?M" using ok' by blast
      then show ?thesis using None g v
        by (simp add: msg_close_def clear_auxiliary_alt invalidate_def keeps_def)
    qed
    then show ?thesis using True k by (auto simp: rm_refs_def)
  next
    case False
    obtain alive H1 where H1: "(case body_addr m of None \<Rightarrow> Some (True, H)
            | Some a \<Rightarrow> release_content pool_max a (is_lmsg m) (word_of_nat k) (hm_shared m) H) = Some (alive, H1)"
        "blocks_ok H1 (payload_refs ?M) (unshared ?M)" "heap_shrinks H H1"
      using payload_release_opt [OF ok', of pool_max] k by auto
    have "hp_groups H1 = hp_groups H" using H1(3) by (simp add: heap_shrinks_def)
    then have "groups_ok (hp_groups H1) (group_refs (replicate_mset k m + ?M))" using ok' by (simp add: heap_ok_def)
    from group_release_opt [OF this] k obtain alive' G where G:
        "(case group_addr m of None \<Rightarrow> Some (True, H1) | Some g \<Rightarrow> release_group (word_of_nat k) g H1)
          = Some (alive', H1\<lparr>hp_groups := G\<rparr>)" "groups_ok G (group_refs ?M)" by auto
    have "H1\<lparr>hp_groups := G\<rparr> = H1" if "group_addr m = None" using G(1) that by simp
    then have "\<exists>al. rm_refs pool_max k m H = Some (al, H1\<lparr>hp_groups := G\<rparr>)"
      using False H1(1) G(1) k
      by (auto simp: rm_refs_def group_addr_def split: option.splits auxiliary.splits)
    with heap_ok_released [OF H1(2,3) G(2) mok] show ?thesis by blast
  qed
qed


text \<open>Room for more references below the width of the counters.\<close>

definition room :: "heap \<Rightarrow> hmsg multiset \<Rightarrow> nat \<Rightarrow> bool" where
  "room H M k \<longleftrightarrow>
     (\<forall>a. total (hp_contents H) (payload_refs M) a + k < 2 ^ 32) \<and> (\<forall>g. count (group_refs M) g + k < 2 ^ 32)"

definition shared_copy :: "hmsg \<Rightarrow> hmsg" where
  "shared_copy m = (if body_addr m \<noteq> None \<and> \<not> hm_shared m then set_flags f_shared m else m)"

lemma shared_copy_sel [simp]:
  "body_addr (shared_copy m) = body_addr m" "group_addr (shared_copy m) = group_addr m"
  "hm_body (shared_copy m) = hm_body m" "msg_aux (shared_copy m) = msg_aux m"
  "hm_valid (shared_copy m) = hm_valid m" "msg_ok H (shared_copy m) = msg_ok H m"
  "msg_bytes H (shared_copy m) = msg_bytes H m" "is_lmsg (shared_copy m) = is_lmsg m"
  by (simp_all add: shared_copy_def set_flags_def body_addr_def group_addr_def hm_valid_def msg_ok_def
      msg_bytes_def is_lmsg_def cong: payload.case_cong)

lemma hm_shared_set: "hm_shared (set_flags f_shared m)"
proof -
  have "bit ((msg_flags m OR f_shared) AND f_shared) 7" by (simp add: bit_simps)
  then have "(msg_flags m OR f_shared) AND f_shared \<noteq> 0" by (metis bit_0_eq bot_apply bot_bool_def)
  then show ?thesis by (simp add: hm_shared_def)
qed

lemma hm_shared_copy: "body_addr m \<noteq> None \<Longrightarrow> hm_shared (shared_copy m)"
  by (simp add: shared_copy_def hm_shared_set)

lemma unshared_shared_copy: "unshared (replicate_mset (Suc k) (shared_copy m) + M) = unshared M"
  using hm_shared_copy [of m] by (simp only: unshared_replicate) (auto split: option.splits)

lemma cells_ok_more:
  assumes ok: "cells_ok C R U" and a: "fmlookup C a = Some c" and bound: "total C R a + k < 2 ^ 32"
    and cnt: "ct_refcnt c' = word_of_nat (total C R a + k)" and par: "ct_parent c' = ct_parent c"
  shows "cells_ok (fmupd a c' C) (replicate_mset k a + R) (U - {a})"
proof -
  have p: "parents (fmupd a c' C) = parents C" by (rule fm_sum_update [OF a]) (simp add: par)
  have tot: "total C (replicate_mset k a + R) x = (if x = a then total C R a + k else total C R x)" for x by simp
  show ?thesis
    unfolding cells_ok_def p tot
  proof
    fix x
    show "case fmlookup (fmupd a c' C) x of
            None \<Rightarrow> (if x = a then total C R a + k else total C R x) = 0
          | Some c \<Rightarrow> 0 < (if x = a then total C R a + k else total C R x)
              \<and> (if x \<in> U - {a} then (if x = a then total C R a + k else total C R x) = 1
                 else (if x = a then total C R a + k else total C R x) < 2 ^ 32
                   \<and> ct_refcnt c = word_of_nat (if x = a then total C R a + k else total C R x))"
      using ok [unfolded cells_ok_def, rule_format, of x] bound cnt cells_okD(1) [OF ok a]
      by (cases "x = a") (auto split: option.splits)
  qed
qed

lemma share_payload_ok:
  assumes ok: "heap_ok H (add_mset m M)" and rm: "room H (add_mset m M) k"
  shows "\<exists>H'. share_payload (word_of_nat k) m H = Some (shared_copy m, H')
    \<and> blocks_ok H' (payload_refs (replicate_mset (Suc k) (shared_copy m) + M)) (unshared M) \<and> heap_shrinks H H'
    \<and> hp_groups H' = hp_groups H"
proof (cases "body_addr m")
  case None
  have "unshared (add_mset m M) = unshared M" using None by simp
  moreover have "payload_refs (replicate_mset (Suc k) (shared_copy m) + M) = payload_refs (add_mset m M)"
    unfolding refs_replicate using None by simp
  ultimately show ?thesis using ok None by (simp add: share_payload_def shared_copy_def heap_ok_def)
next
  case (Some a)
  let ?C = "hp_contents H" and ?R = "payload_refs (add_mset m M)" and ?U = "unshared (add_mset m M)"
  have b: "blocks_ok H ?R ?U" using ok unfolding heap_ok_def by blast
  then have cells: "cells_ok ?C ?R ?U" and shapes: "shapes_ok ?C" by (simp_all only: blocks_ok_def)
  obtain c where c: "fmlookup ?C a = Some c" using body_addr_live [OF ok _ Some] by auto
  have ok1: "heap_ok H (replicate_mset 1 m + M)" using ok by simp
  note u = unshared_disjoint [OF ok1 _ Some]
  have bound: "total ?C ?R a + k < 2 ^ 32" using rm unfolding room_def by blast
  define v where "v = (if hm_shared m then ct_refcnt c + word_of_nat k else word_of_nat k + 1)"
  define c' where "c' = c\<lparr>ct_refcnt := v\<rparr>"
  have "v = word_of_nat (total ?C ?R a + k)"
  proof (cases "hm_shared m")
    case True
    then show ?thesis using cells_okD(3) [OF cells c] u(2) by (simp add: v_def)
  next
    case False
    then have "total ?C ?R a = 1" using cells_okD(2) [OF cells c] u(2) by simp
    then show ?thesis using False by (simp add: v_def)
  qed
  then have cnt: "ct_refcnt c' = word_of_nat (total ?C ?R a + k)" "ct_parent c' = ct_parent c"
    by (simp_all add: c'_def ct_parent_def)
  have refs: "payload_refs (replicate_mset (Suc k) (shared_copy m) + M) = replicate_mset k a + ?R"
    unfolding refs_replicate using Some by simp
  have U: "?U - {a} = unshared M" using u(1) Some by auto
  have "cells_ok (fmupd a c' ?C) (replicate_mset k a + ?R) (unshared M)"
    using cells_ok_more [OF cells c bound cnt] unfolding U .
  moreover have "shapes_ok (fmupd a c' ?C)" unfolding c'_def by (rule shapes_ok_refcnt [OF shapes c])
  moreover have "unshared M \<subseteq> set_mset (replicate_mset k a + ?R)" using unshared_subset [of M] by auto
  ultimately have "blocks_ok (put_content a c' H) (replicate_mset k a + ?R) (unshared M)"
    using b c by (auto simp: blocks_ok_def)
  moreover have "heap_shrinks H (put_content a c' H)"
  proof -
    have "callbacks (put_content a c' H) = callbacks H"
      using fm_sum_update [OF c, of "\<lambda>c. opt_mset (ct_user c)" c'] by (simp add: callbacks_def ct_user_def c'_def)
    then show ?thesis using c by (auto simp: heap_shrinks_def c'_def)
  qed
  moreover have "share_payload (word_of_nat k) m H = Some (shared_copy m, put_content a c' H)"
    using c Some by (simp add: share_payload_def shared_copy_def c'_def v_def)
  ultimately show ?thesis unfolding refs by auto
qed

lemma share_group_ok:
  assumes ok: "groups_ok (hp_groups H) (group_refs (add_mset m M))"
    and bound: "\<And>g. count (group_refs (add_mset m M)) g + k < 2 ^ 32"
  shows "\<exists>G. share_group (word_of_nat k) m H = Some (H\<lparr>hp_groups := G\<rparr>)
    \<and> groups_ok G (group_refs (replicate_mset (Suc k) m + M))"
proof (cases "group_addr m")
  case None
  have "group_refs (replicate_mset (Suc k) m + M) = group_refs (add_mset m M)" unfolding refs_replicate using None by simp
  moreover have "share_group (word_of_nat k) m H = Some H"
    using None by (auto simp: share_group_def group_addr_def split: auxiliary.splits)
  ultimately show ?thesis using ok by (auto intro!: exI [of _ "hp_groups H"])
next
  case (Some g)
  let ?R = "group_refs (add_mset m M)"
  have refs: "group_refs (replicate_mset (Suc k) m + M) = replicate_mset k g + ?R" unfolding refs_replicate using Some by simp
  obtain lg where lg: "fmlookup (hp_groups H) g = Some lg" "lg_refcnt lg = word_of_nat (count ?R g)"
    using ok [unfolded groups_ok_def, rule_format, of g] Some by (auto split: option.splits)
  have "groups_ok (fmupd g (lg\<lparr>lg_refcnt := lg_refcnt lg + word_of_nat k\<rparr>) (hp_groups H)) (replicate_mset k g + ?R)"
    unfolding groups_ok_def
  proof
    fix x
    show "case fmlookup (fmupd g (lg\<lparr>lg_refcnt := lg_refcnt lg + word_of_nat k\<rparr>) (hp_groups H)) x of
        None \<Rightarrow> count (replicate_mset k g + ?R) x = 0
      | Some lg \<Rightarrow> 0 < count (replicate_mset k g + ?R) x \<and> count (replicate_mset k g + ?R) x < 2 ^ 32
          \<and> lg_refcnt lg = word_of_nat (count (replicate_mset k g + ?R) x)"
      using ok [unfolded groups_ok_def, rule_format, of x] bound [of g] lg Some
      by (cases "x = g") (auto simp: add.commute split: option.splits)
  qed
  then show ?thesis using lg(1) Some unfolding refs
    by (auto simp: share_group_def group_addr_def split: auxiliary.splits)
qed


lemma share_payload_groups:
  "share_payload k m (H\<lparr>hp_groups := G\<rparr>) = map_option (\<lambda>(m', H'). (m', H'\<lparr>hp_groups := G\<rparr>)) (share_payload k m H)"
  by (simp add: share_payload_def put_content_def split: option.splits)

lemma share_group_transfer:
  "share_group k m H = Some (H\<lparr>hp_groups := G\<rparr>) \<Longrightarrow> hp_groups H' = hp_groups H \<Longrightarrow>
     share_group k m H' = Some (H'\<lparr>hp_groups := G\<rparr>)"
  by (cases H; cases H') (auto simp: share_group_def split: auxiliary.splits)

lemma share_group_cong: "share_group k (shared_copy m) H = share_group k m H"
  by (simp add: share_group_def cong: auxiliary.case_cong)

text \<open>Both orders of sharing payload and group (\<open>copy\<close> and \<open>add_refs\<close>) give the same heap: the one
  for \<open>k\<close> more copies of the message.\<close>

lemma share_ok:
  assumes ok: "heap_ok H (add_mset m M)" and rm: "room H (add_mset m M) k"
  obtains H' G where "share_payload (word_of_nat k) m H = Some (shared_copy m, H')"
    "share_group (word_of_nat k) m H = Some (H\<lparr>hp_groups := G\<rparr>)"
    "share_group (word_of_nat k) m H' = Some (H'\<lparr>hp_groups := G\<rparr>)"
    "heap_ok (H'\<lparr>hp_groups := G\<rparr>) (replicate_mset (Suc k) (shared_copy m) + M)"
    "keeps H (H'\<lparr>hp_groups := G\<rparr>) (replicate_mset (Suc k) (shared_copy m) + M)"
proof -
  let ?M = "replicate_mset (Suc k) (shared_copy m) + M"
  obtain H' where H': "share_payload (word_of_nat k) m H = Some (shared_copy m, H')"
      "blocks_ok H' (payload_refs ?M) (unshared M)" "heap_shrinks H H'" "hp_groups H' = hp_groups H"
    using share_payload_ok [OF assms] by blast
  have "groups_ok (hp_groups H) (group_refs (add_mset m M))" using ok unfolding heap_ok_def by blast
  from share_group_ok [OF this, of k] rm obtain G where G:
      "share_group (word_of_nat k) m H = Some (H\<lparr>hp_groups := G\<rparr>)"
      "groups_ok G (group_refs (replicate_mset (Suc k) m + M))" unfolding room_def by blast
  have g: "groups_ok G (group_refs ?M)" using G(2) unfolding refs_replicate by simp
  have b: "blocks_ok H' (payload_refs ?M) (unshared ?M)" using H'(2) by (simp only: unshared_shared_copy)
  have mok: "msg_ok H x" if "x \<in># ?M" for x
    using ok that by (auto simp: heap_ok_def split: if_splits)
  have "share_group (word_of_nat k) m H' = Some (H'\<lparr>hp_groups := G\<rparr>)"
    by (rule share_group_transfer [OF G(1) H'(4)])
  with H'(1) G(1) heap_ok_released [OF b H'(3) g mok] show ?thesis using that by blast
qed

lemma add_refs_shares:
  assumes ok: "heap_ok H (add_mset m M)" and rm: "room H (add_mset m M) k" and k: "0 < k"
  shows "\<exists>H'. add_refs k m H = Some (shared_copy m, H') \<and> heap_ok H' (replicate_mset (Suc k) (shared_copy m) + M)
    \<and> keeps H H' (replicate_mset (Suc k) (shared_copy m) + M)"
proof -
  from share_ok [OF ok rm] obtain H' G where s: "share_payload (word_of_nat k) m H = Some (shared_copy m, H')"
    "share_group (word_of_nat k) m H = Some (H\<lparr>hp_groups := G\<rparr>)"
    "heap_ok (H'\<lparr>hp_groups := G\<rparr>) (replicate_mset (Suc k) (shared_copy m) + M)"
    "keeps H (H'\<lparr>hp_groups := G\<rparr>) (replicate_mset (Suc k) (shared_copy m) + M)" by blast
  then show ?thesis using k by (simp add: add_refs_def share_payload_groups)
qed


text \<open>A bound that can be computed: there are fewer messages and blocks than counter values.\<close>

definition few :: "heap \<Rightarrow> hmsg multiset \<Rightarrow> nat \<Rightarrow> bool" where
  "few H M k \<longleftrightarrow> size M + fcard (fmdom (hp_contents H)) + k < 2 ^ 32"

lemma count_opt_mset_le: "count (opt_mset x) a \<le> 1"
  by (cases x) auto

lemma count_refs_le: "count (refs_of f M) a \<le> size M"
proof (induction M)
  case (add m M)
  then show ?case using count_opt_mset_le [of "f m" a] by simp
qed simp

lemma count_parents_le: "count (fm_sum (\<lambda>c. opt_mset (f c)) C) a \<le> fcard (fmdom C)"
proof -
  have "(\<Sum>x\<in>fset (fmdom C). count (opt_mset (f (the (fmlookup C x)))) a) \<le> card (fset (fmdom C))"
    using sum_bounded_above [of "fset (fmdom C)" "\<lambda>x. count (opt_mset (f (the (fmlookup C x)))) a" 1,
        OF count_opt_mset_le] by simp
  then show ?thesis by (simp add: fm_sum_def count_sum fcard.rep_eq)
qed

lemma few_room: "few H M k \<Longrightarrow> room H M k"
proof -
  assume f: "few H M k"
  have "total (hp_contents H) (payload_refs M) a + k < 2 ^ 32" for a
    using f count_refs_le [of body_addr M a] count_parents_le [of ct_parent "hp_contents H" a]
    unfolding few_def by linarith
  moreover have "count (group_refs M) g + k < 2 ^ 32" for g
    using f count_refs_le [of group_addr M g] unfolding few_def by linarith
  ultimately show ?thesis by (simp add: room_def)
qed

lemma few_keeps: "few H (add_mset m M) k \<Longrightarrow> keeps H H' M \<Longrightarrow> few H' M k"
proof -
  assume f: "few H (add_mset m M) k" and "keeps H H' M"
  then have "fcard (fmdom (hp_contents H')) \<le> fcard (fmdom (hp_contents H))"
    by (intro fcard_mono) (simp add: keeps_def)
  then show ?thesis using f by (simp add: few_def)
qed

lemma keeps_trans: "keeps H H1 M \<Longrightarrow> keeps H1 H2 M \<Longrightarrow> keeps H H2 M"
  by (auto simp: keeps_def)

lemma keeps_mset: "keeps H H' M \<Longrightarrow> set_mset M' \<subseteq> set_mset M \<Longrightarrow> keeps H H' M'"
  by (auto simp: keeps_def)

lemma msg_copy_copies:
  assumes ok: "heap_ok H (add_mset this (add_mset src M))" and v: "hm_valid this" "hm_valid src"
    and few: "few H (add_mset this (add_mset src M)) 1"
  shows "\<exists>H'. msg_copy pool_max this src H = Some (Inr (shared_copy src, shared_copy src), H')
    \<and> heap_ok H' (add_mset (shared_copy src) (add_mset (shared_copy src) M))
    \<and> keeps H H' (add_mset (shared_copy src) M)"
proof -
  obtain H1 where H1: "msg_close pool_max this H = Some (Inr (this\<lparr>msg_aux := Aux_none, hm_body := Invalid\<rparr>), H1)"
      "heap_ok H1 (add_mset src M)" "keeps H H1 (add_mset src M)"
    using msg_close_releases [OF ok v(1)] by blast
  have "room H1 (add_mset src M) 1" using few_room few_keeps [OF few H1(3)] by blast
  from share_ok [OF H1(2) this] obtain H' G where s: "share_payload (word_of_nat 1) src H1 = Some (shared_copy src, H')"
    "share_group (word_of_nat 1) src H' = Some (H'\<lparr>hp_groups := G\<rparr>)"
    "heap_ok (H'\<lparr>hp_groups := G\<rparr>) (replicate_mset (Suc 1) (shared_copy src) + M)"
    "keeps H1 (H'\<lparr>hp_groups := G\<rparr>) (replicate_mset (Suc 1) (shared_copy src) + M)" by blast
  have "keeps H (H'\<lparr>hp_groups := G\<rparr>) (add_mset (shared_copy src) M)"
    using H1(3) s(4) by (auto simp: keeps_def)
  then show ?thesis using H1(1) s v(2) by (auto simp: msg_copy_def share_group_cong)
qed

subsection \<open>Creating messages\<close>

lemma blocks_ok_new:
  assumes b: "blocks_ok H (R + opt_mset (ct_parent c)) U" and U: "U \<subseteq> set_mset R"
    and fresh: "fmlookup (hp_contents H) a = None" "a \<notin> set (hp_pool H)"
    and sh: "shape_ok (hp_contents H) a c"
  shows "blocks_ok (put_content a c H) (add_mset a R) (insert a U)"
proof -
  let ?C = "hp_contents H" and ?R = "R + opt_mset (ct_parent c)" and ?C' = "fmupd a c (hp_contents H)"
  have cells: "cells_ok ?C ?R U" and shapes: "shapes_ok ?C" using b by (simp_all add: blocks_ok_def)
  have z: "a \<notin># ?R" "a \<notin># parents ?C" using cells_ok_None [OF cells fresh(1)] by auto
  have tot: "total ?C' (add_mset a R) x = total ?C ?R x + (if x = a then 1 else 0)" for x
    by (simp add: fm_sum_new [OF fresh(1)])
  have za: "total ?C ?R a = 0" using cells [unfolded cells_ok_def, rule_format, of a] fresh(1) by simp
  have "cells_ok ?C' (add_mset a R) (insert a U)"
    unfolding cells_ok_def tot
  proof
    fix x
    show "case fmlookup ?C' x of None \<Rightarrow> total ?C ?R x + (if x = a then 1 else 0) = 0
      | Some c \<Rightarrow> 0 < total ?C ?R x + (if x = a then 1 else 0)
          \<and> (if x \<in> insert a U then total ?C ?R x + (if x = a then 1 else 0) = 1
             else total ?C ?R x + (if x = a then 1 else 0) < 2 ^ 32
               \<and> ct_refcnt c = word_of_nat (total ?C ?R x + (if x = a then 1 else 0)))"
      using cells [unfolded cells_ok_def, rule_format, of x] za by (cases "x = a") (auto split: option.splits)
  qed
  moreover have "shapes_ok ?C'"
  proof -
    have ext: "\<exists>v. fmlookup ?C' b = Some (cb\<lparr>ct_refcnt := v\<rparr>)" if "fmlookup ?C b = Some cb" for b cb
      using that fresh by (cases "b = a") auto
    have "shape_ok ?C' x d" if "shape_ok ?C x d" for x d
      using shape_ok_cong [OF that ext, of "ct_refcnt d"] by simp
    then have 1: "\<forall>x d. fmlookup ?C' x = Some d \<longrightarrow> shape_ok ?C' x d"
      using shapes sh by (simp add: shapes_ok_def)
    obtain r :: "addr \<Rightarrow> nat" where r: "\<And>x d b. fmlookup ?C x = Some d \<Longrightarrow> ct_parent d = Some b \<Longrightarrow> r b < r x"
      using shapes unfolding shapes_ok_def by blast
    have pa: "ct_parent d \<noteq> Some a" if "fmlookup ?C x = Some d" for x d
      using z(2) fm_sum_mem [OF that, of a "\<lambda>c. opt_mset (ct_parent c)"] by auto
    have ba: "b \<noteq> a" if "ct_parent c = Some b" for b using z(1) that by auto
    let ?r = "r(a := (case ct_parent c of None \<Rightarrow> 0 | Some b \<Rightarrow> Suc (r b)))"
    have "\<forall>x d b. fmlookup ?C' x = Some d \<longrightarrow> ct_parent d = Some b \<longrightarrow> ?r b < ?r x"
      using r pa ba by auto
    then show ?thesis using 1 unfolding shapes_ok_def by blast
  qed
  moreover have "insert a U \<subseteq> set_mset (add_mset a R)" using U by auto
  ultimately show ?thesis using b fresh by (auto simp: blocks_ok_def)
qed

lemma msg_ok_put: "fmlookup (hp_contents H) a = None \<Longrightarrow> heap_ok H M \<Longrightarrow> m \<in># M \<Longrightarrow> msg_ok (put_content a c H) m"
proof -
  assume a: "fmlookup (hp_contents H) a = None" and ok: "heap_ok H M" and m: "m \<in># M"
  have "body_addr m \<noteq> Some a" using body_addr_live [OF ok m] a by fastforce
  moreover have "msg_ok H m" using ok m by (simp add: heap_ok_def)
  ultimately show ?thesis by (auto simp: msg_ok_def body_addr_def split: payload.splits)
qed

lemma read_content_put:
  assumes "shapes_ok (hp_contents H)" "fmlookup (hp_contents H) a = None" "fmlookup (hp_contents H) x = Some d"
  shows "read_content (fmupd a c (hp_contents H)) x = read_content (hp_contents H) x"
proof -
  obtain r where "fmlookup (hp_contents H) (ct_root d) = Some r" using shapes_ok_root [OF assms(1,3)] by blast
  then have "ct_root d \<noteq> a" using assms(2) by auto
  moreover have "x \<noteq> a" using assms(2,3) by auto
  ultimately show ?thesis using assms(3) by (simp add: read_content_def)
qed

lemma msg_bytes_put:
  assumes a: "fmlookup (hp_contents H) a = None" and ok: "heap_ok H M" and m: "m \<in># M"
  shows "msg_bytes (put_content a c H) m = msg_bytes H m"
proof (cases "body_addr m")
  case None
  then show ?thesis by (auto simp: msg_bytes_def body_addr_def split: payload.splits)
next
  case (Some x)
  then obtain d where d: "fmlookup (hp_contents H) x = Some d" using body_addr_live [OF ok m] by blast
  have "shapes_ok (hp_contents H)" using ok by (simp add: heap_ok_def blocks_ok_def)
  from read_content_put [OF this a d] Some show ?thesis
    by (auto simp: msg_bytes_def body_addr_def split: payload.splits)
qed

text \<open>Allocation returns an address that is not in use.\<close>

definition fresh :: "addr option \<Rightarrow> heap \<Rightarrow> bool" where
  "fresh alloc H \<longleftrightarrow>
     (case alloc of None \<Rightarrow> True
      | Some a \<Rightarrow> fmlookup (hp_contents H) a = None \<and> a \<notin> set (hp_pool H))"

definition fresh_group :: "addr option \<Rightarrow> heap \<Rightarrow> bool" where
  "fresh_group alloc H \<longleftrightarrow> (case alloc of None \<Rightarrow> True | Some g \<Rightarrow> fmlookup (hp_groups H) g = None)"

lemma new_message_ok:
  assumes ok: "heap_ok H M" and f: "fresh (Some a) H"
    and m: "m = hm_with (Lmsg a) \<and> st = Malloced \<or> m = hm_with (Zclmsg a) \<and> st = Caller_owned \<and> ffn \<noteq> No_ffn"
    and ffn: "\<And>b ow. ffn \<noteq> Slice_ffn b ow"
  shows "heap_ok (put_content a (new_content st bs a ffn) H) (add_mset m M)"
    "msg_bytes (put_content a (new_content st bs a ffn) H) m = Some bs"
proof -
  let ?c = "new_content st bs a ffn"
  have par: "ct_parent ?c = None" using ffn by (auto simp: ct_parent_def new_content_def split: free_fn.splits)
  have ad: "body_addr m = Some a" "group_addr m = None" "\<not> hm_shared m" using m by auto
  have fr: "fmlookup (hp_contents H) a = None" "a \<notin> set (hp_pool H)" using f by (simp_all add: fresh_def)
  have "shape_ok (hp_contents H) a ?c"
    using m ffn by (auto simp: shape_ok_def new_content_def split: free_fn.splits)
  then have "blocks_ok (put_content a ?c H) (add_mset a (payload_refs M)) (insert a (unshared M))"
    using blocks_ok_new [of H "payload_refs M" ?c "unshared M" a] ok fr par unshared_subset
    by (simp add: heap_ok_def)
  moreover have "msg_ok (put_content a ?c H) m" using m by (auto simp: msg_ok_def new_content_def)
  ultimately show "heap_ok (put_content a ?c H) (add_mset m M)"
    using ok ad msg_ok_put [OF fr(1) ok] by (simp add: heap_ok_def)
  show "msg_bytes (put_content a ?c H) m = Some bs"
    using m by (auto simp: msg_bytes_def read_content_def new_content_def)
qed


lemma init_size_ok:
  assumes ok: "heap_ok H M" and f: "fresh alloc H" and r: "init_size bs alloc H = (r, H')"
  shows "case r of
      Inl e \<Rightarrow> e = ENOMEM \<and> H' = H \<and> max_vsm_size < length bs
    | Inr m \<Rightarrow> heap_ok H' (add_mset m M) \<and> msg_bytes H' m = Some bs \<and> (\<forall>x\<in>#M. msg_bytes H' x = msg_bytes H x)
        \<and> callbacks H' = callbacks H \<and> hm_valid m"
proof (cases "length bs \<le> max_vsm_size")
  case True
  then have "msg_ok H (hm_with (Vsm bs))" by (simp add: msg_ok_def)
  then show ?thesis using True r ok heap_ok_no_refs [of "hm_with (Vsm bs)" H M]
    by (auto simp: init_size_def msg_bytes_def hm_valid_def)
next
  case False
  show ?thesis
  proof (cases "if length bs + sizeof_content < 2 ^ 64 then alloc else None")
    case None
    then show ?thesis using False r by (auto simp: init_size_def)
  next
    case (Some a)
    let ?H = "put_content a (new_content Malloced bs a No_ffn) H"
    have fa: "fresh (Some a) H" using f Some by (auto split: if_splits)
    then have na: "fmlookup (hp_contents H) a = None" by (simp add: fresh_def)
    have "callbacks ?H = callbacks H"
      by (simp add: callbacks_def fm_sum_new [OF na] ct_user_def new_content_def)
    then show ?thesis
      using False Some r new_message_ok [OF ok fa, of "hm_with (Lmsg a)" Malloced No_ffn bs] msg_bytes_put [OF na ok]
      by (auto simp: init_size_def hm_valid_def)
  qed
qed

lemma init_data_ok:
  assumes ok: "heap_ok H M" and f: "fresh alloc H" and r: "init_data bs ffn alloc H = (r, H')"
  shows "case r of
      Inl e \<Rightarrow> e = ENOMEM \<and> H' = H \<and> ffn \<noteq> None
    | Inr m \<Rightarrow> heap_ok H' (add_mset m M) \<and> msg_bytes H' m = Some bs \<and> (\<forall>x\<in>#M. msg_bytes H' x = msg_bytes H x)
        \<and> callbacks H' = callbacks H + opt_mset ffn \<and> hm_valid m"
proof (cases "ffn")
  case None
  then show ?thesis using r ok heap_ok_no_refs [of "hm_with (Cmsg bs)" H M]
    by (auto simp: init_data_def msg_bytes_def hm_valid_def)
next
  case (Some hint)
  show ?thesis
  proof (cases alloc)
    case None
    then show ?thesis using r \<open>ffn = Some hint\<close> by (auto simp: init_data_def)
  next
    case (Some a)
    let ?H = "put_content a (new_content Malloced bs a (User_ffn hint)) H"
    have fa: "fresh (Some a) H" using f Some by simp
    then have na: "fmlookup (hp_contents H) a = None" by (simp add: fresh_def)
    have "callbacks ?H = callbacks H + {#hint#}"
      by (simp add: callbacks_def fm_sum_new [OF na] ct_user_def new_content_def)
    then show ?thesis
      using \<open>ffn = Some hint\<close> Some r new_message_ok [OF ok fa, of "hm_with (Lmsg a)" Malloced "User_ffn hint" bs]
        msg_bytes_put [OF na ok]
      by (auto simp: init_data_def hm_valid_def)
  qed
qed

lemma init_external_ok:
  assumes ok: "heap_ok H M" and f: "fresh (Some a) H" and r: "init_external_storage a bs (User_ffn hint) H = (m, H')"
  shows "heap_ok H' (add_mset m M) \<and> msg_bytes H' m = Some bs \<and> (\<forall>x\<in>#M. msg_bytes H' x = msg_bytes H x)
    \<and> callbacks H' = callbacks H + {#hint#}"
proof -
  let ?H = "put_content a (new_content Caller_owned bs a (User_ffn hint)) H"
  have na: "fmlookup (hp_contents H) a = None" using f by (simp add: fresh_def)
  have "callbacks ?H = callbacks H + {#hint#}"
    by (simp add: callbacks_def fm_sum_new [OF na] ct_user_def new_content_def)
  then show ?thesis
    using r new_message_ok [OF ok f, of "hm_with (Zclmsg a)" Caller_owned "User_ffn hint" bs] msg_bytes_put [OF na ok]
    by (auto simp: init_external_storage_def)
qed

lemma heap_ok_aux:
  assumes ok: "heap_ok H (add_mset m M)" and v: "hm_valid m"
    and G: "groups_ok G (opt_mset (group_addr (m\<lparr>msg_aux := x\<rparr>)) + group_refs M)"
  shows "heap_ok (H\<lparr>hp_groups := G\<rparr>) (add_mset (m\<lparr>msg_aux := x\<rparr>) M)" "keeps H (H\<lparr>hp_groups := G\<rparr>) N"
    "msg_bytes (H\<lparr>hp_groups := G\<rparr>) (m\<lparr>msg_aux := x\<rparr>) = msg_bytes H m"
proof -
  have b: "body_addr (m\<lparr>msg_aux := x\<rparr>) = body_addr m" "hm_shared (m\<lparr>msg_aux := x\<rparr>) = hm_shared m"
    by (simp_all add: body_addr_def hm_shared_def)
  have o: "msg_ok (H\<lparr>hp_groups := G\<rparr>) y = msg_ok H y" "msg_bytes (H\<lparr>hp_groups := G\<rparr>) y = msg_bytes H y" for y
    by (simp_all add: msg_ok_def msg_bytes_def cong: payload.case_cong)
  have "msg_ok H m \<Longrightarrow> msg_ok H (m\<lparr>msg_aux := x\<rparr>)"
    using v by (auto simp: msg_ok_def hm_valid_def split: payload.splits)
  then show "heap_ok (H\<lparr>hp_groups := G\<rparr>) (add_mset (m\<lparr>msg_aux := x\<rparr>) M)"
    using ok G b o(1) by (auto simp: heap_ok_def blocks_ok_def cong: option.case_cong)
  show "keeps H (H\<lparr>hp_groups := G\<rparr>) N" using o(2) by (simp add: keeps_def callbacks_def called_def)
  show "msg_bytes (H\<lparr>hp_groups := G\<rparr>) (m\<lparr>msg_aux := x\<rparr>) = msg_bytes H m"
    using o(2) by (simp add: msg_bytes_def cong: payload.case_cong)
qed

lemma groups_ok_new:
  assumes "groups_ok G R" "fmlookup G g = None"
  shows "groups_ok (fmupd g \<lparr>lg_group = bs, lg_refcnt = 1\<rparr> G) (add_mset g R)"
proof -
  have z: "count R g = 0" using assms by (auto simp: groups_ok_def dest!: spec [of _ g])
  show ?thesis
    unfolding groups_ok_def
  proof
    fix x
    show "case fmlookup (fmupd g \<lparr>lg_group = bs, lg_refcnt = 1\<rparr> G) x of None \<Rightarrow> count (add_mset g R) x = 0
        | Some lg \<Rightarrow> 0 < count (add_mset g R) x \<and> count (add_mset g R) x < 2 ^ 32
            \<and> lg_refcnt lg = word_of_nat (count (add_mset g R) x)"
      using assms(1) [unfolded groups_ok_def, rule_format, of x] z by (cases "x = g") (auto split: option.splits)
  qed
qed

lemma clear_auxiliary_ok:
  assumes G: "groups_ok (hp_groups H) (opt_mset (group_addr m) + R)"
  shows "\<exists>G'. clear_auxiliary m H = Some (m\<lparr>msg_aux := Aux_none\<rparr>, H\<lparr>hp_groups := G'\<rparr>) \<and> groups_ok G' R"
proof (cases "group_addr m")
  case None
  then show ?thesis using G by (auto simp: clear_auxiliary_alt intro!: exI [of _ "hp_groups H"])
next
  case (Some g)
  then have "groups_ok (hp_groups H) (replicate_mset 1 g + R)" using G by simp
  from release_group_ok [OF this] Some show ?thesis by (auto simp: clear_auxiliary_alt)
qed

lemma set_group_ok:
  assumes ok: "heap_ok H (add_mset m M)" and v: "hm_valid m" and f: "fresh_group alloc H"
  shows "\<exists>r H'. set_group grp alloc m H = Some (r, H') \<and> (case r of
      Inl e \<Rightarrow> H' = H
    | Inr m' \<Rightarrow> heap_ok H' (add_mset m' M) \<and> msg_bytes H' m' = msg_bytes H m \<and> keeps H H' M \<and> hm_valid m')"
proof -
  have g: "groups_ok (hp_groups H) (opt_mset (group_addr m) + group_refs M)" using ok by (simp add: heap_ok_def)
  have vm: "hm_valid (m\<lparr>msg_aux := x\<rparr>)" for x using v by (simp add: hm_valid_def)
  consider (error) "length grp > ZLINK_GROUP_MAX_LENGTH \<or> (\<exists>k s. msg_aux m = Aux_request_reply k s) \<or> (length grp > 14 \<and> alloc = None)"
    | (long) a where "\<not> length grp > ZLINK_GROUP_MAX_LENGTH" "\<And>k s. msg_aux m \<noteq> Aux_request_reply k s" "length grp > 14" "alloc = Some a"
    | (short) "\<not> length grp > ZLINK_GROUP_MAX_LENGTH" "\<And>k s. msg_aux m \<noteq> Aux_request_reply k s" "\<not> length grp > 14"
    by (cases alloc; blast)
  then show ?thesis
  proof cases
    case error
    then show ?thesis by (auto simp: set_group_def split: auxiliary.splits option.splits)
  next
    case (long a)
    let ?H = "H\<lparr>hp_groups := fmupd a \<lparr>lg_group = grp, lg_refcnt = 1\<rparr> (hp_groups H)\<rparr>"
    have "groups_ok (hp_groups ?H) (opt_mset (group_addr m) + add_mset a (group_refs M))"
      using groups_ok_new [OF g, of a grp] f long(4) by (simp add: fresh_group_def)
    then obtain G where G: "clear_auxiliary m ?H = Some (m\<lparr>msg_aux := Aux_none\<rparr>, ?H\<lparr>hp_groups := G\<rparr>)"
        "groups_ok G (add_mset a (group_refs M))" using clear_auxiliary_ok [of ?H m "add_mset a (group_refs M)"] by blast
    have "groups_ok G (opt_mset (group_addr (m\<lparr>msg_aux := Aux_group_long a\<rparr>)) + group_refs M)"
      using G(2) by (simp add: group_addr_def)
    from heap_ok_aux [OF ok v this] G(1) long vm show ?thesis
      by (auto simp: set_group_def split: auxiliary.splits)
  next
    case short
    obtain G where G: "clear_auxiliary m H = Some (m\<lparr>msg_aux := Aux_none\<rparr>, H\<lparr>hp_groups := G\<rparr>)"
        "groups_ok G (group_refs M)" using clear_auxiliary_ok [OF g] by blast
    have "groups_ok G (opt_mset (group_addr (m\<lparr>msg_aux := Aux_group_short grp\<rparr>)) + group_refs M)"
      using G(2) by (simp add: group_addr_def)
    from heap_ok_aux [OF ok v this] G(1) short vm show ?thesis
      by (auto simp: set_group_def split: auxiliary.splits)
  qed
qed


subsection \<open>Views\<close>

lemma acquire_slice_ok:
  assumes ok: "heap_ok H M" and f: "fresh alloc H" and r: "acquire_slice_content alloc H = (v, H')"
  shows "heap_ok H' M" "hp_contents H' = hp_contents H" "callbacks H' = callbacks H"
    "\<And>a. v = Some a \<Longrightarrow> fmlookup (hp_contents H') a = None \<and> a \<notin> set (hp_pool H')"
    "set (hp_pool H') \<subseteq> set (hp_pool H) \<and> hp_groups H' = hp_groups H"
proof -
  have pool: "distinct (hp_pool H)" "\<forall>a\<in>set (hp_pool H). fmlookup (hp_contents H) a = None"
    using ok by (simp_all add: heap_ok_def blocks_ok_def)
  have mo: "msg_ok (H\<lparr>hp_pool := p\<rparr>) m = msg_ok H m" for p m by (simp add: msg_ok_def cong: payload.case_cong)
  have H': "H' = H \<or> (hp_pool H \<noteq> [] \<and> H' = H\<lparr>hp_pool := butlast (hp_pool H)\<rparr>)"
    using r by (auto simp: acquire_slice_content_def split: if_splits)
  then show "hp_contents H' = hp_contents H" "callbacks H' = callbacks H"
    by (auto simp: callbacks_def called_def)
  have sub: "set (butlast (hp_pool H)) \<subseteq> set (hp_pool H)" by (meson in_set_butlastD subsetI)
  then show "set (hp_pool H') \<subseteq> set (hp_pool H) \<and> hp_groups H' = hp_groups H" using H' by auto
  show "heap_ok H' M"
    using H' ok mo sub by (auto simp: heap_ok_def blocks_ok_def distinct_butlast)
  have l: "last (hp_pool H) \<notin> set (butlast (hp_pool H))" if "hp_pool H \<noteq> []"
    using pool(1) that by (metis append_butlast_last_id distinct_append disjoint_iff list.set_intros(1))
  show "fmlookup (hp_contents H') a = None \<and> a \<notin> set (hp_pool H')" if "v = Some a" for a
    using r that pool(2) l f by (auto simp: acquire_slice_content_def fresh_def split: if_splits)
qed

lemma reset_shared_copy:
  "body_addr m \<noteq> None \<Longrightarrow> (if \<not> hm_shared m then reset_flags f_shared (shared_copy m) else shared_copy m) = m"
  by (simp add: shared_copy_def reset_set_flags hm_shared_def)

lemma parents_shrinks:
  assumes sh: "heap_shrinks H H'" and a: "a \<in># parents (hp_contents H')"
  shows "a \<in># parents (hp_contents H)"
proof -
  obtain x where x: "x \<in> fset (fmdom (hp_contents H'))"
      "a \<in># opt_mset (ct_parent (the (fmlookup (hp_contents H') x)))"
    using a by (auto simp: fm_sum_def set_mset_sum)
  then obtain c' where c': "fmlookup (hp_contents H') x = Some c'" "a \<in># opt_mset (ct_parent c')"
    by (auto simp: fmlookup_dom_iff)
  then obtain c where c: "fmlookup (hp_contents H) x = Some c" "c' = c\<lparr>ct_refcnt := ct_refcnt c'\<rparr>"
    using sh unfolding heap_shrinks_def by blast
  have "ct_parent c' = ct_parent c" by (subst c(2)) (simp add: ct_parent_def)
  then show ?thesis using c'(2) fm_sum_mem [OF c(1), of a "\<lambda>c. opt_mset (ct_parent c)"] by simp
qed

lemma cells_ok_unshare:
  assumes cells: "cells_ok C R U" and one: "total C R a = 1"
  shows "cells_ok C R (insert a U)"
  unfolding cells_ok_def
proof
  fix x
  show "case fmlookup C x of None \<Rightarrow> total C R x = 0
    | Some c \<Rightarrow> 0 < total C R x \<and> (if x \<in> insert a U then total C R x = 1
           else total C R x < 2 ^ 32 \<and> ct_refcnt c = word_of_nat (total C R x))"
    using cells [unfolded cells_ok_def, rule_format, of x] one
    by (cases "x = a") (auto split: option.splits if_splits)
qed

text \<open>Undoing the promotion of a source when no descriptor could be had.\<close>

lemma unshare_ok:
  assumes b: "blocks_ok H' (payload_refs (add_mset m M)) (unshared M)"
    and ok: "heap_ok H (add_mset m M)" and sh: "heap_shrinks H H'" and a: "body_addr m = Some a"
  shows "heap_ok H' (add_mset m M)"
proof -
  let ?R = "payload_refs (add_mset m M)"
  have cells: "cells_ok (hp_contents H') ?R (unshared M)" using b unfolding blocks_ok_def by blast
  have "blocks_ok H' ?R (unshared (add_mset m M))"
  proof (cases "hm_shared m")
    case True
    then show ?thesis using b by simp
  next
    case False
    obtain c where c: "fmlookup (hp_contents H) a = Some c" using body_addr_live [OF ok _ a] by auto
    have cells0: "cells_ok (hp_contents H) ?R (unshared (add_mset m M))"
      using ok unfolding heap_ok_def blocks_ok_def by blast
    have "a \<in> unshared (add_mset m M)" using False a by simp
    then have "total (hp_contents H) ?R a = 1" by (rule cells_okD(2) [OF cells0 c])
    then have z: "count (payload_refs M) a = 0" "a \<notin># parents (hp_contents H)" using a by (simp_all add: not_in_iff)
    then have "a \<notin># parents (hp_contents H')" using parents_shrinks [OF sh] by blast
    then have "total (hp_contents H') ?R a = 1" using z(1) a by (simp add: not_in_iff)
    from cells_ok_unshare [OF cells this] show ?thesis
      using b False a unshared_subset [of "add_mset m M"] unfolding blocks_ok_def by simp
  qed
  then show ?thesis
    using ok msg_ok_shrinks [OF sh] sh unfolding heap_ok_def by (simp add: heap_shrinks_def)
qed

lemma shape_ok_view:
  assumes c: "fmlookup C a = Some c" and n: "off + n \<le> ct_size c"
  shows "shape_ok C v (view_content c a (ct_store c = Malloced) off n)"
  using assms by (auto simp: shape_ok_def view_content_def)

lemma read_view:
  assumes sh: "shapes_ok C" and c: "fmlookup C a = Some c" and v: "fmlookup C v = None" and n: "off + n \<le> ct_size c"
    and bs: "read_content C a = Some bs"
  shows "read_content (fmupd v (view_content c a ow off n) C) v = Some (take n (drop off bs))"
proof -
  obtain r where r: "fmlookup C (ct_root c) = Some r" "ct_off c + ct_size c \<le> length (ct_buffer r)"
    using shapes_ok_root [OF sh c] by blast
  then have "ct_root c \<noteq> v" using v by auto
  moreover have "bs = take (ct_size c) (drop (ct_off c) (ct_buffer r))" using bs c r by (simp add: read_content_def)
  moreover have "take n (drop off (take (ct_size c) xs)) = take n (drop off xs)" for xs :: "byte list"
    using n by (simp add: drop_take min_def)
  ultimately show ?thesis using r n by (simp add: read_content_def view_content_def add.commute)
qed

lemma replicate_mset_one: "replicate_mset 1 x + X = add_mset x X"
  by simp

text \<open>The state after the source was shared once more and a descriptor was asked for: the reference
  of the view-to-be is that of a bare copy of the source.\<close>

lemma view_source_ok:
  assumes ok: "heap_ok H (add_mset src M)" and a: "body_addr src = Some a" and f: "fresh alloc H"
    and few: "few H (add_mset src M) 1"
  obtains H1 w H2 where "share_payload 1 src H = Some (shared_copy src, H1)"
    "acquire_slice_content alloc H1 = (w, H2)" "heap_shrinks H H2"
    "heap_ok H2 (add_mset ((shared_copy src)\<lparr>msg_aux := Aux_none\<rparr>) (add_mset (shared_copy src) M))"
    "\<And>v. w = Some v \<Longrightarrow> fmlookup (hp_contents H2) v = None \<and> v \<notin> set (hp_pool H2)"
proof -
  let ?src = "shared_copy src"
  let ?g = "?src\<lparr>msg_aux := Aux_none\<rparr>"
  have g: "body_addr ?g = Some a" "group_addr ?g = None" "hm_shared ?g" "hm_shared ?src"
    using a hm_shared_copy [of src] by (auto simp: body_addr_def group_addr_def hm_shared_def)
  obtain H1 where H1: "share_payload (word_of_nat 1) src H = Some (?src, H1)"
      "blocks_ok H1 (payload_refs (replicate_mset (Suc 1) ?src + M)) (unshared M)" "heap_shrinks H H1" "hp_groups H1 = hp_groups H"
    using share_payload_ok [OF ok few_room [OF few]] by blast
  have f1: "fresh alloc H1"
    using f H1(1,3,4) a unfolding fresh_def heap_shrinks_def
    by (auto simp: share_payload_def split: option.splits if_splits)
  have ok1: "heap_ok H1 (add_mset ?g (add_mset ?src M))"
  proof -
    have "msg_ok H ?g"
      using ok by (auto simp: heap_ok_def msg_ok_def shared_copy_def set_flags_def body_addr_def group_addr_def split: payload.splits)
    then have mo: "msg_ok H1 m" if "m \<in># add_mset ?g (add_mset ?src M)" for m
      using ok that msg_ok_shrinks [OF H1(3)] by (auto simp: heap_ok_def)
    then show ?thesis
      using H1(2,4) ok a g by (simp add: heap_ok_def)
  qed
  obtain w H2 where acq: "acquire_slice_content alloc H1 = (w, H2)" by fastforce
  note H2 = acquire_slice_ok [OF ok1 f1 acq]
  have "heap_shrinks H H2"
    using H1(3) H2(2,3,5) H1(4) unfolding heap_shrinks_def
    by (metis (no_types, lifting) subset_trans)
  with H1(1) acq H2(1,4) show ?thesis using that by simp
qed

lemma view_payload_ok:
  assumes ok: "heap_ok H (add_mset src M)" and a: "body_addr src = Some a"
    and bs: "msg_bytes H src = Some bs" and n: "off + n \<le> length bs" and f: "fresh alloc H"
    and few: "few H (add_mset src M) 1"
  shows "\<exists>e this src' H'. view_payload pool_max src a off n alloc H = Some ((e, this, src'), H')
    \<and> heap_ok H' (add_mset this (add_mset src' M)) \<and> hm_valid this
    \<and> (\<forall>m\<in>#M. msg_bytes H' m = msg_bytes H m) \<and> msg_bytes H' src' = Some bs \<and> callbacks H' = callbacks H
    \<and> (case e of None \<Rightarrow> msg_bytes H' this = Some (take n (drop off bs)) \<and> src' = shared_copy src
        | Some e \<Rightarrow> e = ENOMEM \<and> this = hm_init \<and> src' = src)"
proof -
  let ?src = "shared_copy src"
  let ?g = "?src\<lparr>msg_aux := Aux_none\<rparr>"
  have g: "body_addr ?g = Some a" "is_lmsg ?g = is_lmsg src" "hm_shared ?g" "hm_shared ?src" "group_addr ?g = None"
    using a hm_shared_copy [of src] by (auto simp: body_addr_def is_lmsg_def hm_shared_def group_addr_def)
  obtain H1 w H2 where share: "share_payload 1 src H = Some (?src, H1)" and acq: "acquire_slice_content alloc H1 = (w, H2)"
      and sh: "heap_shrinks H H2" and ok2: "heap_ok H2 (add_mset ?g (add_mset ?src M))"
      and w: "\<And>v. w = Some v \<Longrightarrow> fmlookup (hp_contents H2) v = None \<and> v \<notin> set (hp_pool H2)"
    using view_source_ok [OF ok a f few] by blast
  have keep: "msg_bytes H2 m = msg_bytes H m" if "m \<in># add_mset ?src M" for m
    using msg_bytes_shrinks [OF sh ok2, of m] that by auto
  obtain c where c: "fmlookup (hp_contents H2) a = Some c" "is_lmsg ?g = (ct_store c = Malloced)"
    using body_addr_live [OF ok2 _ g(1)] by (metis union_single_eq_member)
  show ?thesis
  proof (cases w)
    case None
    have okr: "heap_ok H2 (replicate_mset 1 ?g + add_mset ?src M)" unfolding replicate_mset_one by (rule ok2)
    obtain alive H3 where r: "release_content pool_max a (is_lmsg ?g) (word_of_nat 1) (hm_shared ?g) H2 = Some (alive, H3)"
        "blocks_ok H3 (payload_refs (add_mset ?src M)) (unshared (add_mset ?src M))" "heap_shrinks H2 H3"
        "alive = (fmlookup (hp_contents H3) a \<noteq> None)"
      using payload_release [OF okr _ g(1), of pool_max] by auto
    have sh3: "heap_shrinks H H3" using heap_shrinks_trans [OF sh r(3)] .
    have "blocks_ok H3 (payload_refs (add_mset src M)) (unshared M)" using r(2) g(4) by simp
    from unshare_ok [OF this ok sh3 a] have ok3: "heap_ok H3 (add_mset src M)" .
    then have "alive" using body_addr_live [OF ok3 _ a] r(4) by auto
    then have "view_payload pool_max src a off n alloc H = Some ((Some ENOMEM, hm_init, src), H3)"
      using share acq None r(1) g reset_shared_copy [of src] a by (simp add: view_payload_def)
    moreover have "msg_bytes H3 m = msg_bytes H m" if "m \<in># add_mset src M" for m
      using msg_bytes_shrinks [OF sh3 ok3 that] .
    ultimately show ?thesis using ok3 sh3 bs by (auto simp: heap_shrinks_def)
  next
    case (Some v)
    let ?c = "view_content c a (is_lmsg src) off n" and ?vw = "hm_with (Zclmsg v)"
    let ?H = "put_content v ?c H2"
    have fv: "fmlookup (hp_contents H2) v = None" "v \<notin> set (hp_pool H2)" using w [OF Some] by auto
    have shp: "shapes_ok (hp_contents H2)" using ok2 by (simp add: heap_ok_def blocks_ok_def)
    have rd: "read_content (hp_contents H2) a = Some bs"
      using keep [of ?src] bs a by (auto simp: msg_bytes_def body_addr_def split: payload.splits)
    obtain bs' where "read_content (hp_contents H2) a = Some bs'" "length bs' = ct_size c"
      by (rule read_content_live [OF shp c(1)])
    then have n': "off + n \<le> ct_size c" using rd n by simp
    have own: "is_lmsg src = (ct_store c = Malloced)" using c(2) g(2) by simp
    have "blocks_ok H2 (payload_refs (add_mset ?src M) + opt_mset (ct_parent ?c)) (unshared (add_mset ?src M))"
      using ok2 g a by (simp add: heap_ok_def ct_parent_def view_content_def)
    moreover have "shape_ok (hp_contents H2) v ?c" unfolding own by (rule shape_ok_view [OF c(1) n'])
    ultimately have b: "blocks_ok ?H (add_mset v (payload_refs (add_mset ?src M))) (insert v (unshared (add_mset ?src M)))"
      by (intro blocks_ok_new fv unshared_subset)
    have "msg_ok ?H m" if "m \<in># add_mset ?src M" for m using msg_ok_put [OF fv(1) ok2] that by auto
    moreover have "msg_ok ?H ?vw" by (simp add: msg_ok_def view_content_def)
    ultimately have "heap_ok ?H (add_mset ?vw (add_mset ?src M))"
      using b ok2 g by (simp add: heap_ok_def)
    moreover have "msg_bytes ?H m = msg_bytes H m" if "m \<in># add_mset ?src M" for m
      using msg_bytes_put [OF fv(1) ok2, of m] keep that by auto
    moreover have "msg_bytes ?H ?vw = Some (take n (drop off bs))"
      using read_view [OF shp c(1) fv(1) n' rd] by (simp add: msg_bytes_def)
    moreover have "callbacks ?H = callbacks H"
      using sh by (simp add: callbacks_def heap_shrinks_def fm_sum_new [OF fv(1)] ct_user_def view_content_def)
    moreover have "view_payload pool_max src a off n alloc H = Some ((None, ?vw, ?src), ?H)"
      using share acq Some c(1) by (simp add: view_payload_def)
    moreover have "msg_bytes ?H ?src = Some bs" using calculation(2) [of ?src] bs by simp
    ultimately show ?thesis by (simp add: hm_valid_def)
  qed
qed


lemma fresh_keeps: "fresh alloc H \<Longrightarrow> keeps H H' M \<Longrightarrow> fresh alloc H'"
proof -
  assume f: "fresh alloc H" and k: "keeps H H' M"
  have "fmlookup (hp_contents H') a = None \<and> a \<notin> set (hp_pool H')"
    if "fmlookup (hp_contents H) a = None" "a \<notin> set (hp_pool H)" for a
  proof -
    have "a |\<notin>| fmdom (hp_contents H)" using that(1) by (simp add: fmdom_notI)
    then show ?thesis using k that(2) by (auto simp: keeps_def fmdom_notD)
  qed
  then show ?thesis using f by (auto simp: fresh_def split: option.splits)
qed

lemma init_view_ok:
  assumes ok: "heap_ok H (add_mset this (add_mset src M))" and v: "hm_valid this" "hm_valid src"
    and bs: "msg_bytes H src = Some bs" and f: "fresh alloc H" and few: "few H (add_mset this (add_mset src M)) 1"
  shows "\<exists>e this' src' H'. init_view pool_max this src off n alloc H = Some ((e, this', src'), H')
    \<and> heap_ok H' (add_mset this' (add_mset src' M))
    \<and> (\<forall>m\<in>#M. msg_bytes H' m = msg_bytes H m) \<and> msg_bytes H' src' = Some bs \<and> callbacks H' = callbacks H
    \<and> (case e of
         None \<Rightarrow> off + n \<le> length bs \<and> msg_bytes H' this' = Some (take n (drop off bs))
       | Some e \<Rightarrow> (if off + n \<le> length bs then e = ENOMEM \<and> this' = hm_init \<and> src' = src
                  else e = EINVAL \<and> this' = this \<and> src' = src \<and> H' = H))"
proof (cases "off + n \<le> length bs")
  case False
  then show ?thesis using ok v(2) bs by (auto simp: init_view_def)
next
  case True
  obtain H1 where H1: "msg_close pool_max this H = Some (Inr (this\<lparr>msg_aux := Aux_none, hm_body := Invalid\<rparr>), H1)"
      "heap_ok H1 (add_mset src M)" "keeps H H1 (add_mset src M)"
    using msg_close_releases [OF ok v(1)] by blast
  have bs1: "msg_bytes H1 src = Some bs" and keep: "\<forall>m\<in>#M. msg_bytes H1 m = msg_bytes H m"
    and cb: "callbacks H1 = callbacks H" using H1(3) bs by (simp_all add: keeps_def)
  have f1: "fresh alloc H1" using fresh_keeps [OF f H1(3)] .
  have rng: "\<not> (off > length bs \<or> n > length bs - off)" using True by auto
  show ?thesis
  proof (cases "n = 0")
    case n: True
    have "msg_ok H1 (hm_with (Vsm []))" by (simp add: msg_ok_def)
    then have "heap_ok H1 (add_mset (hm_with (Vsm [])) (add_mset src M))" using H1(2) heap_ok_no_refs by simp
    then show ?thesis using n True rng v(2) bs bs1 keep cb H1(1) by (simp add: init_view_def msg_bytes_def)
  next
    case n: False
    show ?thesis
    proof (cases "body_addr src")
      case (Some a)
      from view_payload_ok [OF H1(2) Some bs1 True f1 few_keeps [OF few H1(3)], of pool_max] obtain e this' src' H' where r:
          "view_payload pool_max src a off n alloc H1 = Some ((e, this', src'), H')"
          "heap_ok H' (add_mset this' (add_mset src' M))"
          "\<forall>m\<in>#M. msg_bytes H' m = msg_bytes H1 m" "msg_bytes H' src' = Some bs" "callbacks H' = callbacks H1"
          "case e of None \<Rightarrow> msg_bytes H' this' = Some (take n (drop off bs)) \<and> src' = shared_copy src
           | Some e \<Rightarrow> e = ENOMEM \<and> this' = hm_init \<and> src' = src" by blast
      have "init_view pool_max this src off n alloc H = Some ((e, this', src'), H')"
        using r(1) n rng v(2) bs H1(1) Some by (simp add: init_view_def)
      then show ?thesis using r True keep cb by (cases e) auto
    next
      case None
      obtain r H2 where r: "init_size (take n (drop off bs)) alloc H1 = (r, H2)" by fastforce
      note i = init_size_ok [OF H1(2) f1 r]
      have rs: "init_view pool_max this src off n alloc H =
          (case r of Inl e \<Rightarrow> Some ((Some e, hm_init, src), H2) | Inr m \<Rightarrow> Some ((None, m, src), H2))"
        using n rng v(2) bs H1(1) None r by (simp add: init_view_def split: sum.splits)
      show ?thesis using i rs True keep cb bs1 H1(2) by (cases r) auto
    qed
  qed
qed

subsection \<open>Programs that use messages\<close>

text \<open>A sequence of message operations on numbered message objects. Operations that create a
  message append an object; one whose allocation failed is invalid.\<close>

datatype heap_op =
    Op_init_buffer "byte list" "addr option"
  | Op_init_data "byte list" "nat option" "addr option"
  | Op_init_external addr "byte list" nat
  | Op_close nat
  | Op_move nat nat
  | Op_copy nat nat
  | Op_view nat nat nat nat "addr option"
  | Op_set_group nat "byte list" "addr option"

fun new_object :: "errno + hmsg \<Rightarrow> hmsg" where
  "new_object (Inl _) = hm_with Invalid"
| "new_object (Inr m) = m"

fun heap_exec :: "nat \<Rightarrow> heap_op \<Rightarrow> heap \<times> hmsg list \<Rightarrow> (heap \<times> hmsg list) option" where
  "heap_exec pm (Op_init_buffer bs al) (H, ms) = (case init_size bs al H of (r, H') \<Rightarrow> Some (H', ms @ [new_object r]))"
| "heap_exec pm (Op_init_data bs ffn al) (H, ms) = (case init_data bs ffn al H of (r, H') \<Rightarrow> Some (H', ms @ [new_object r]))"
| "heap_exec pm (Op_init_external a bs hint) (H, ms) =
     (case init_external_storage a bs (User_ffn hint) H of (m, H') \<Rightarrow> Some (H', ms @ [m]))"
| "heap_exec pm (Op_close i) (H, ms) =
     (case msg_close pm (ms ! i) H of
        None \<Rightarrow> None | Some (Inl _, H') \<Rightarrow> Some (H', ms) | Some (Inr m, H') \<Rightarrow> Some (H', ms[i := m]))"
| "heap_exec pm (Op_move i j) (H, ms) =
     (if i = j then Some (H, ms)
      else case msg_move pm (ms ! i) (ms ! j) H of
        None \<Rightarrow> None | Some (Inl _, H') \<Rightarrow> Some (H', ms) | Some (Inr (m, s), H') \<Rightarrow> Some (H', ms[i := m, j := s]))"
| "heap_exec pm (Op_copy i j) (H, ms) =
     (if i = j then Some (H, ms)
      else case msg_copy pm (ms ! i) (ms ! j) H of
        None \<Rightarrow> None | Some (Inl _, H') \<Rightarrow> Some (H', ms) | Some (Inr (m, s), H') \<Rightarrow> Some (H', ms[i := m, j := s]))"
| "heap_exec pm (Op_view i j off n al) (H, ms) =
     (case init_view pm (ms ! i) (ms ! j) off n al H of
        None \<Rightarrow> None | Some ((_, m, s), H') \<Rightarrow> Some (H', ms[i := m, j := s]))"
| "heap_exec pm (Op_set_group i g al) (H, ms) =
     (case set_group g al (ms ! i) H of
        None \<Rightarrow> None | Some (Inl _, H') \<Rightarrow> Some (H', ms) | Some (Inr m, H') \<Rightarrow> Some (H', ms[i := m]))"

text \<open>What the caller guarantees: it names existing objects, malloc returns unused addresses, views
  are taken of valid data messages into other objects, groups are set on valid messages. No
  operation below adds more than one reference.\<close>

fun heap_op_ok :: "heap_op \<Rightarrow> heap \<times> hmsg list \<Rightarrow> bool" where
  "heap_op_ok (Op_init_buffer bs al) (H, ms) = fresh al H"
| "heap_op_ok (Op_init_data bs ffn al) (H, ms) = fresh al H"
| "heap_op_ok (Op_init_external a bs hint) (H, ms) = fresh (Some a) H"
| "heap_op_ok (Op_close i) (H, ms) = (i < length ms)"
| "heap_op_ok (Op_move i j) (H, ms) = (i < length ms \<and> j < length ms)"
| "heap_op_ok (Op_copy i j) (H, ms) = (i < length ms \<and> j < length ms \<and> few H (mset ms) 1)"
| "heap_op_ok (Op_view i j off n al) (H, ms) =
     (i < length ms \<and> j < length ms \<and> i \<noteq> j \<and> fresh al H \<and> few H (mset ms) 1
      \<and> hm_valid (ms ! j) \<and> hm_body (ms ! j) \<noteq> Delimiter)"
| "heap_op_ok (Op_set_group i g al) (H, ms) = (i < length ms \<and> fresh_group al H \<and> hm_valid (ms ! i))"

definition empty_heap :: heap where
  "empty_heap = \<lparr>hp_contents = fmempty, hp_groups = fmempty, hp_pool = [], hp_events = []\<rparr>"

text \<open>The callbacks an operation hands over to the library.\<close>

fun registered :: "heap_op \<Rightarrow> heap \<times> hmsg list \<Rightarrow> nat multiset" where
  "registered (Op_init_data bs (Some hint) (Some a)) s = {#hint#}"
| "registered (Op_init_external a bs hint) s = {#hint#}"
| "registered _ s = {#}"

lemma mset_slot:
  assumes "i < length ms"
  obtains N where "mset ms = add_mset (ms ! i) N" "\<And>a. mset (ms[i := a]) = add_mset a N"
  using assms that [of "mset ms - {#ms ! i#}"] by (simp add: mset_update)

lemma mset_slots:
  assumes "i < length ms" "j < length ms" "i \<noteq> j"
  obtains N where "mset ms = add_mset (ms ! i) (add_mset (ms ! j) N)"
    "\<And>a b. mset (ms[i := a, j := b]) = add_mset a (add_mset b N)"
proof -
  let ?K = "mset_set ({0..<length ms} - {i, j})"
  have "{0..<length ms} = insert i (insert j ({0..<length ms} - {i, j}))" using assms by auto
  then have K: "mset_set {0..<length ms} = add_mset i (add_mset j ?K)"
    using assms(3) by (metis DiffE finite_Diff finite_atLeastLessThan finite_insert insertE insertCI mset_set.insert)
  have split: "mset xs = add_mset (xs ! i) (add_mset (xs ! j) (image_mset ((!) xs) ?K))"
    if "length xs = length ms" for xs :: "'a list"
  proof -
    have "mset xs = image_mset ((!) xs) (mset_set {0..<length xs})" by (metis map_nth mset_map mset_upt)
    then show ?thesis using that K by simp
  qed
  have "image_mset ((!) (ms[i := a, j := b])) ?K = image_mset ((!) ms) ?K" for a b
    by (intro image_mset_cong) auto
  then have "mset (ms[i := a, j := b]) = add_mset a (add_mset b (image_mset ((!) ms) ?K))" for a b
    using split [of "ms[i := a, j := b]"] assms by simp
  with split [of ms] show ?thesis using that by blast
qed

lemma heap_ok_invalid_object [simp]: "heap_ok H (add_mset (hm_with Invalid) M) \<longleftrightarrow> heap_ok H M"
  by (rule heap_ok_no_refs) (simp_all add: body_addr_def msg_ok_def)

lemma data_message_bytes: "hm_valid m \<Longrightarrow> hm_body m \<noteq> Delimiter \<Longrightarrow> heap_ok H M \<Longrightarrow> m \<in># M \<Longrightarrow> \<exists>bs. msg_bytes H m = Some bs"
proof -
  assume v: "hm_valid m" "hm_body m \<noteq> Delimiter" and ok: "heap_ok H M" "m \<in># M"
  show ?thesis
  proof (cases "body_addr m")
    case None
    then show ?thesis using v by (auto simp: body_addr_def hm_valid_def msg_bytes_def split: payload.splits)
  next
    case (Some a)
    obtain c where c: "fmlookup (hp_contents H) a = Some c" using body_addr_live [OF ok Some] by blast
    have "shapes_ok (hp_contents H)" using ok(1) by (simp add: heap_ok_def blocks_ok_def)
    then obtain bs where "read_content (hp_contents H) a = Some bs" using read_content_live [OF _ c] by blast
    then show ?thesis using Some by (auto simp: body_addr_def msg_bytes_def split: payload.splits)
  qed
qed

definition exec_safe :: "nat \<Rightarrow> heap_op \<Rightarrow> heap \<Rightarrow> hmsg list \<Rightarrow> bool" where
  "exec_safe pm op H ms \<longleftrightarrow>
     (\<exists>H' ms'. heap_exec pm op (H, ms) = Some (H', ms') \<and> heap_ok H' (mset ms')
        \<and> callbacks H' = callbacks H + registered op (H, ms))"

lemma safe_Op_init_buffer:
  assumes ok: "heap_ok H (mset ms)" and op: "heap_op_ok op (H, ms)" and Op_init_buffer: "op = Op_init_buffer bs al"
  shows "exec_safe pm op H ms"
proof -
  obtain r H' where r: "init_size bs al H = (r, H')" by fastforce
  show ?thesis using init_size_ok [OF ok _ r] op ok Op_init_buffer r by (cases r) (auto simp: exec_safe_def)
qed

lemma safe_Op_init_data:
  assumes ok: "heap_ok H (mset ms)" and op: "heap_op_ok op (H, ms)" and Op_init_data: "op = Op_init_data bs ffn al"
  shows "exec_safe pm op H ms"
proof -
  obtain r H' where r: "init_data bs ffn al H = (r, H')" by fastforce
  have reg: "registered op (H, ms) = (case r of Inl _ \<Rightarrow> {#} | Inr _ \<Rightarrow> opt_mset ffn)"
    using r Op_init_data by (cases ffn; cases al) (auto simp: init_data_def split: option.splits)
  show ?thesis using init_data_ok [OF ok _ r] op ok Op_init_data r reg by (cases r) (auto simp: exec_safe_def)
qed

lemma safe_Op_init_external:
  assumes ok: "heap_ok H (mset ms)" and op: "heap_op_ok op (H, ms)" and Op_init_external: "op = Op_init_external a bs hint"
  shows "exec_safe pm op H ms"
proof -
  obtain m H' where r: "init_external_storage a bs (User_ffn hint) H = (m, H')" by fastforce
  show ?thesis using init_external_ok [OF ok _ r] op Op_init_external r by (auto simp: exec_safe_def)
qed

lemma safe_Op_close:
  assumes ok: "heap_ok H (mset ms)" and op: "heap_op_ok op (H, ms)" and Op_close: "op = Op_close i"
  shows "exec_safe pm op H ms"
proof -
  from Op_close obtain N where N: "mset ms = add_mset (ms ! i) N" "\<And>a. mset (ms[i := a]) = add_mset a N"
    using mset_slot [of i ms] op by auto
  show ?thesis
  proof (cases "hm_valid (ms ! i)")
    case True
    have "\<not> hm_valid ((ms ! i)\<lparr>msg_aux := Aux_none, hm_body := Invalid\<rparr>)" by (simp add: exec_safe_def hm_valid_def)
    moreover have "heap_ok H' (add_mset ((ms ! i)\<lparr>msg_aux := Aux_none, hm_body := Invalid\<rparr>) N) \<longleftrightarrow> heap_ok H' N" for H'
      by (rule heap_ok_no_refs) (simp_all add: body_addr_def group_addr_def msg_ok_def)
    ultimately show ?thesis
      using msg_close_releases [of H "ms ! i" N pm] True ok N Op_close by (auto simp: exec_safe_def keeps_def)
  next
    case False
    then show ?thesis using ok Op_close by (simp add: exec_safe_def msg_close_def)
  qed
qed

lemma safe_Op_move:
  assumes ok: "heap_ok H (mset ms)" and op: "heap_op_ok op (H, ms)" and Op_move: "op = Op_move i j"
  shows "exec_safe pm op H ms"
proof -
  show ?thesis
  proof (cases "i = j \<or> \<not> hm_valid (ms ! j)")
    case True
    then show ?thesis using ok Op_move by (auto simp: exec_safe_def msg_move_def)
  next
    case False
    then obtain N where N: "mset ms = add_mset (ms ! i) (add_mset (ms ! j) N)"
        "\<And>a b. mset (ms[i := a, j := b]) = add_mset a (add_mset b N)"
      using mset_slots [of i ms j] op Op_move by auto
    have "heap_ok H' (add_mset (ms ! j) (add_mset hm_init N)) \<longleftrightarrow> heap_ok H' (add_mset (ms ! j) N)" for H'
      using heap_ok_hm_init [of H' "add_mset (ms ! j) N"] by (simp add: add_mset_commute)
    then show ?thesis
      using msg_move_moves [of H "ms ! i" "ms ! j" N pm] False ok N Op_move by (auto simp: exec_safe_def keeps_def)
  qed
qed

lemma safe_Op_copy:
  assumes ok: "heap_ok H (mset ms)" and op: "heap_op_ok op (H, ms)" and Op_copy: "op = Op_copy i j"
  shows "exec_safe pm op H ms"
proof -
  show ?thesis
  proof (cases "i = j \<or> \<not> hm_valid (ms ! j) \<or> \<not> hm_valid (ms ! i)")
    case True
    then show ?thesis using ok Op_copy by (auto simp: exec_safe_def msg_copy_def msg_close_def)
  next
    case False
    then obtain N where N: "mset ms = add_mset (ms ! i) (add_mset (ms ! j) N)"
        "\<And>a b. mset (ms[i := a, j := b]) = add_mset a (add_mset b N)"
      using mset_slots [of i ms j] op Op_copy by auto
    then show ?thesis
      using msg_copy_copies [of H "ms ! i" "ms ! j" N pm] False ok op Op_copy by (auto simp: exec_safe_def keeps_def)
  qed
qed

lemma safe_Op_view:
  assumes ok: "heap_ok H (mset ms)" and op: "heap_op_ok op (H, ms)" and Op_view: "op = Op_view i j off n al"
  shows "exec_safe pm op H ms"
proof -
  from Op_view obtain N where N: "mset ms = add_mset (ms ! i) (add_mset (ms ! j) N)"
      "\<And>a b. mset (ms[i := a, j := b]) = add_mset a (add_mset b N)"
    using mset_slots [of i ms j] op by auto
  obtain bs where bs: "msg_bytes H (ms ! j) = Some bs"
    using data_message_bytes [of "ms ! j" H "mset ms"] op Op_view ok by auto
  show ?thesis
  proof (cases "hm_valid (ms ! i)")
    case True
    from init_view_ok [of H "ms ! i" "ms ! j" N bs al pm off n] True bs ok op Op_view N
    obtain e this' src' H' where "init_view pm (ms ! i) (ms ! j) off n al H = Some ((e, this', src'), H')"
        "heap_ok H' (add_mset this' (add_mset src' N))" "callbacks H' = callbacks H" by (auto simp: exec_safe_def)
    then show ?thesis using N Op_view by (simp add: exec_safe_def)
  next
    case False
    then have "\<exists>e. init_view pm (ms ! i) (ms ! j) off n al H = Some ((e, ms ! i, ms ! j), H)"
      using bs op Op_view by (auto simp: init_view_def msg_close_def)
    then show ?thesis using Op_view ok by (auto simp: exec_safe_def)
  qed
qed

lemma safe_Op_set_group:
  assumes ok: "heap_ok H (mset ms)" and op: "heap_op_ok op (H, ms)" and Op_set_group: "op = Op_set_group i g al"
  shows "exec_safe pm op H ms"
proof -
  from Op_set_group obtain N where N: "mset ms = add_mset (ms ! i) N" "\<And>a. mset (ms[i := a]) = add_mset a N"
    using mset_slot [of i ms] op by auto
  from set_group_ok [of H "ms ! i" N al g] N(1) ok op Op_set_group obtain r H' where
      r: "set_group g al (ms ! i) H = Some (r, H')" "case r of Inl e \<Rightarrow> H' = H
        | Inr m' \<Rightarrow> heap_ok H' (add_mset m' N) \<and> msg_bytes H' m' = msg_bytes H (ms ! i) \<and> keeps H H' N \<and> hm_valid m'" by auto
  then show ?thesis using N ok Op_set_group by (cases r) (auto simp: exec_safe_def keeps_def)
qed

text \<open>Every operation of such a program succeeds and keeps the invariant; callbacks are neither
  lost nor duplicated.\<close>

lemma heap_exec_safe: "heap_ok H (mset ms) \<Longrightarrow> heap_op_ok op (H, ms) \<Longrightarrow> exec_safe pm op H ms"
  using safe_Op_init_buffer safe_Op_init_data safe_Op_init_external safe_Op_close safe_Op_move safe_Op_copy safe_Op_view safe_Op_set_group by (cases op) blast+


fun heap_run :: "nat \<Rightarrow> heap_op list \<Rightarrow> heap \<times> hmsg list \<Rightarrow> (heap \<times> hmsg list) option" where
  "heap_run pm [] s = Some s"
| "heap_run pm (op # ops) s = (case heap_exec pm op s of None \<Rightarrow> None | Some s' \<Rightarrow> heap_run pm ops s')"

fun heap_ops_ok :: "nat \<Rightarrow> heap_op list \<Rightarrow> heap \<times> hmsg list \<Rightarrow> bool" where
  "heap_ops_ok pm [] s = True"
| "heap_ops_ok pm (op # ops) s =
     (heap_op_ok op s \<and> (case heap_exec pm op s of None \<Rightarrow> True | Some s' \<Rightarrow> heap_ops_ok pm ops s'))"

definition all_registered :: "heap_op list \<Rightarrow> nat multiset" where
  "all_registered ops = sum_list (map (\<lambda>op. registered op (empty_heap, [])) ops)"

lemma registered_state: "registered op s = registered op s'"
  by (induction op s rule: registered.induct) auto

lemma heap_run_safe:
  assumes "heap_ok H (mset ms)" "heap_ops_ok pm ops (H, ms)"
  shows "\<exists>H' ms'. heap_run pm ops (H, ms) = Some (H', ms') \<and> heap_ok H' (mset ms')
    \<and> callbacks H' = callbacks H + all_registered ops"
  using assms
proof (induction ops arbitrary: H ms)
  case (Cons op ops)
  then obtain H1 ms1 where 1: "heap_exec pm op (H, ms) = Some (H1, ms1)" "heap_ok H1 (mset ms1)"
      "callbacks H1 = callbacks H + registered op (H, ms)"
    using heap_exec_safe [of H ms op pm] by (auto simp: exec_safe_def)
  moreover have "heap_ops_ok pm ops (H1, ms1)" using Cons.prems(2) 1(1) by simp
  ultimately show ?case
    using Cons.IH [of H1 ms1] registered_state [of op "(H, ms)" "(empty_heap, [])"] by (auto simp: all_registered_def)
qed (simp add: all_registered_def)

lemma empty_heap_ok [simp]: "heap_ok empty_heap {#}"
  by (simp add: heap_ok_def blocks_ok_def empty_heap_def cells_ok_def shapes_ok_def groups_ok_def)

text \<open>Blocks that only views refer to do not exist: the views themselves need references.\<close>

lemma cells_ok_no_roots:
  assumes shapes: "shapes_ok C" and cells: "cells_ok C {#} U"
  shows "C = fmempty"
proof (rule ccontr)
  assume "C \<noteq> fmempty"
  then have ne: "fset (fmdom C) \<noteq> {}" by (metis bot_fset.rep_eq fmdom_empty fmrestrict_fset_dom fmrestrict_fset_null fset_inject)
  obtain r :: "addr \<Rightarrow> nat" where r: "\<And>a c b. fmlookup C a = Some c \<Longrightarrow> ct_parent c = Some b \<Longrightarrow> r b < r a"
    using shapes unfolding shapes_ok_def by blast
  have "Max (r ` fset (fmdom C)) \<in> r ` fset (fmdom C)" using ne by (intro Max_in) auto
  then obtain x where x: "x \<in> fset (fmdom C)" "r x = Max (r ` fset (fmdom C))" by auto
  obtain c where c: "fmlookup C x = Some c" using x(1) by (auto simp: fmlookup_dom_iff)
  have "x \<in># parents C" using cells_okD(1) [OF cells c] by simp
  then obtain y d where y: "fmlookup C y = Some d" "x \<in># opt_mset (ct_parent d)"
    unfolding fm_sum_def by (auto simp: set_mset_sum fmlookup_dom_iff)
  then have "ct_parent d = Some x" by (cases "ct_parent d") auto
  then have "r x < r y" using r y(1) by blast
  moreover have "r y \<le> r x" unfolding x(2) using fmdomI [OF y(1)] by (intro Max_ge) auto
  ultimately show False by simp
qed

lemma no_refs_closed:
  assumes "heap_ok H M" "\<forall>m \<in># M. \<not> hm_valid m"
  shows "payload_refs M = {#} \<and> group_refs M = {#}"
  using assms
proof (induction M)
  case (add m M)
  then have "heap_ok H M" using heap_ok_invalid by auto
  moreover have "msg_ok H m" "\<not> hm_valid m" using add.prems by (simp_all add: heap_ok_def)
  ultimately show ?case using add by (auto simp: body_addr_def hm_valid_def msg_ok_def)
qed simp

text \<open>When every message has been closed nothing is left on the heap.\<close>

lemma heap_ok_no_leak:
  assumes ok: "heap_ok H M" and closed: "\<forall>m \<in># M. \<not> hm_valid m"
  shows "hp_contents H = fmempty" "hp_groups H = fmempty" "called H = callbacks H"
proof -
  have z: "payload_refs M = {#}" "group_refs M = {#}" using no_refs_closed [OF assms] by simp_all
  then show c: "hp_contents H = fmempty"
    using cells_ok_no_roots ok unfolding heap_ok_def blocks_ok_def by metis
  have "fmlookup (hp_groups H) g = None" for g
    using ok z(2) by (auto simp: heap_ok_def groups_ok_def split: option.splits dest!: spec [of _ g])
  then show "hp_groups H = fmempty" by (intro fmap_ext) simp
  show "called H = callbacks H" using c by (simp add: callbacks_def)
qed

text \<open>C17: No sequence of message operations (creation, close, move, copy, zero-copy views, group
  changes) by a caller that names existing message objects and gets unused addresses from malloc
  touches a block that is not live or releases one twice; and once all messages are closed no
  payload block, view descriptor or group block is left and every release callback that was
  registered has been called exactly once.\<close>

theorem heap_program_safe:
  assumes "heap_ops_ok pm ops (empty_heap, [])"
  shows "\<exists>H ms. heap_run pm ops (empty_heap, []) = Some (H, ms) \<and> heap_ok H (mset ms)
    \<and> ((\<forall>m \<in> set ms. \<not> hm_valid m) \<longrightarrow>
         hp_contents H = fmempty \<and> hp_groups H = fmempty \<and> called H = all_registered ops)"
proof -
  obtain H ms where r: "heap_run pm ops (empty_heap, []) = Some (H, ms)" "heap_ok H (mset ms)"
      "callbacks H = callbacks empty_heap + all_registered ops"
    using heap_run_safe [OF _ assms] by auto
  have "callbacks empty_heap = {#}" by (simp add: callbacks_def called_def empty_heap_def)
  then show ?thesis using r heap_ok_no_leak [OF r(2)] by auto
qed

definition demo_ops :: "heap_op list" where
  "demo_ops = [Op_init_data (replicate 40 7) (Some 5) (Some 1), Op_init_buffer [] None,
     Op_view 1 0 10 20 (Some 2), Op_close 0, Op_close 1]"

lemmas heap_eval = demo_ops_def empty_heap_def init_data_def init_size_def init_view_def view_payload_def
  share_payload_def acquire_slice_content_def msg_close_def clear_auxiliary_def assert_ffn_def put_content_def
  drop_content_def new_content_def view_content_def hm_with_def hm_init_def invalidate_def hm_valid_def
  hm_shared_def body_addr_def is_lmsg_def msg_bytes_def read_content_def set_flags_def fresh_def few_def
  release_content.simps refcnt_sub_def dispose_content_def release_slice_content_def fcard_finsert_if fcard_fempty
  all_registered_def

lemma heap_program_safe_witness:
  "\<exists>H ms. heap_run 4 demo_ops (empty_heap, []) = Some (H, ms)
     \<and> hp_contents H = fmempty \<and> hp_groups H = fmempty \<and> called H = {#5#}"
proof -
  have ok: "heap_ops_ok 4 demo_ops (empty_heap, [])" by (simp add: heap_eval)
  have v: "map_option (map hm_valid \<circ> snd) (heap_run 4 demo_ops (empty_heap, [])) = Some [False, False]"
    by (simp add: heap_eval)
  obtain H ms where r: "heap_run 4 demo_ops (empty_heap, []) = Some (H, ms)"
      "(\<forall>m \<in> set ms. \<not> hm_valid m) \<longrightarrow>
         hp_contents H = fmempty \<and> hp_groups H = fmempty \<and> called H = all_registered demo_ops"
    using heap_program_safe [OF ok] by blast
  have "map hm_valid ms = [False, False]" using v r(1) by simp
  then have "\<forall>m \<in> set ms. \<not> hm_valid m" by auto
  moreover have "all_registered demo_ops = {#5#}" by (simp add: all_registered_def demo_ops_def)
  ultimately show ?thesis using r by auto
qed

text \<open>A view shows exactly the requested range of its source and stays readable after the
  source has been closed; all other messages keep their bytes throughout.\<close>

theorem view_outlives_source:
  assumes ok: "heap_ok H (add_mset this (add_mset src M))" and v: "hm_valid this" "hm_valid src"
    and bs: "msg_bytes H src = Some bs" and f: "fresh alloc H" "few H (add_mset this (add_mset src M)) 1"
    and view: "init_view pm this src off n alloc H = Some ((None, this', src'), H1)"
  shows "\<exists>r H2. msg_close pm src' H1 = Some (Inr r, H2) \<and> heap_ok H2 (add_mset this' M)
    \<and> off + n \<le> length bs \<and> msg_bytes H2 this' = Some (take n (drop off bs))
    \<and> (\<forall>m \<in># M. msg_bytes H2 m = msg_bytes H m)"
proof -
  from init_view_ok [OF ok v bs f, of pm off n] view
  have 1: "heap_ok H1 (add_mset this' (add_mset src' M))" "\<forall>m\<in>#M. msg_bytes H1 m = msg_bytes H m"
    "msg_bytes H1 src' = Some bs" "off + n \<le> length bs" "msg_bytes H1 this' = Some (take n (drop off bs))"
    by auto
  have "hm_valid src'" using 1(3) by (auto simp: hm_valid_def msg_bytes_def)
  moreover have "heap_ok H1 (add_mset src' (add_mset this' M))" using 1(1) by (simp add: add_mset_commute)
  ultimately obtain H2 where "msg_close pm src' H1 = Some (Inr (src'\<lparr>msg_aux := Aux_none, hm_body := Invalid\<rparr>), H2)"
      "heap_ok H2 (add_mset this' M)" "keeps H1 H2 (add_mset this' M)"
    using msg_close_releases [of H1 src' "add_mset this' M" pm] by blast
  then show ?thesis using 1 by (auto simp: keeps_def)
qed

definition demo_heap :: "heap \<times> hmsg" where
  "demo_heap = (case init_data (replicate 40 7) (Some 5) (Some 1) empty_heap of (r, H) \<Rightarrow> (H, new_object r))"

lemma view_outlives_source_witness:
  "\<exists>this' src' H1 r H2. init_view 4 hm_init (snd demo_heap) 10 20 (Some 2) (fst demo_heap) = Some ((None, this', src'), H1)
     \<and> msg_close 4 src' H1 = Some (Inr r, H2) \<and> msg_bytes H2 this' = Some (replicate 20 7)"
proof -
  have demo: "demo_heap = (fst demo_heap, snd demo_heap)" "hm_valid (snd demo_heap)"
    by (simp_all add: demo_heap_def heap_eval)
  have r: "init_data (replicate 40 7) (Some 5) (Some 1) empty_heap = (Inr (snd demo_heap), fst demo_heap)"
    by (simp add: demo_heap_def init_data_def)
  have "fresh (Some 1) empty_heap" by (simp add: heap_eval)
  from init_data_ok [OF empty_heap_ok this r] have ok: "heap_ok (fst demo_heap) {#snd demo_heap#}"
    "msg_bytes (fst demo_heap) (snd demo_heap) = Some (replicate 40 7)" by simp_all
  have ok': "heap_ok (fst demo_heap) (add_mset hm_init {#snd demo_heap#})" using ok(1) by simp
  have f: "fresh (Some 2) (fst demo_heap)" "few (fst demo_heap) (add_mset hm_init {#snd demo_heap#}) 1"
    by (simp_all add: demo_heap_def heap_eval)
  obtain this' src' H1 where view: "init_view 4 hm_init (snd demo_heap) 10 20 (Some 2) (fst demo_heap) = Some ((None, this', src'), H1)"
    by (simp add: demo_heap_def heap_eval)
  from view_outlives_source [OF ok' _ demo(2) ok(2) f view] view show ?thesis by (auto simp: drop_replicate take_replicate)
qed


end
