(* ===== verification/Dist.thy ===== *)
theory Dist
  imports Pipe_Array Msg_Heap_Safety
begin

section \<open>The distributor\<close>

text \<open>
  Models \<open>sockets/internal/dist.cpp\<close>: the fan-out of messages over the outbound pipes of a PUB,
  XPUB, SUB or XSUB socket. The pipes are kept in one array whose prefixes are the matching, the
  active and the eligible pipes. What a pipe does with a message is a parameter (\<open>pipe_ops\<close>): the
  state of the pipes is a value of type \<open>'w\<close>, a write sees the message and the heap and reports
  whether it was accepted, a rollback may release messages. An access outside the array, a failed
  assertion or a memory error is \<open>None\<close>.
\<close>

subsection \<open>State and pipe interface\<close>

datatype admission =
    Adm_ready | Adm_hwm_full | Adm_request_full | Adm_transport_wait | Adm_too_large | Adm_inactive | Adm_invalid

record ('p, 'w) pipe_ops =
  po_frame_size :: "'p \<Rightarrow> hmsg \<Rightarrow> heap \<Rightarrow> 'w \<Rightarrow> admission"
  po_write_admitted :: "'p \<Rightarrow> hmsg \<Rightarrow> heap \<Rightarrow> 'w \<Rightarrow> bool \<times> 'w"
  po_write_more :: "'p \<Rightarrow> hmsg \<Rightarrow> heap \<Rightarrow> 'w \<Rightarrow> bool \<times> 'w"
  po_write_single :: "'p \<Rightarrow> hmsg \<Rightarrow> heap \<Rightarrow> 'w \<Rightarrow> bool \<times> 'w"
  po_rollback :: "'p \<Rightarrow> heap \<times> 'w \<Rightarrow> heap \<times> 'w"
  po_check_hwm :: "'p \<Rightarrow> 'w \<Rightarrow> admission \<times> 'w"

record 'p dist =
  d_pipes :: "'p arr"
  d_matching :: nat
  d_active :: nat
  d_eligible :: nat
  d_more :: bool

abbreviation d_size :: "'p dist \<Rightarrow> nat" where "d_size d \<equiv> arr_size (d_pipes d)"

definition dist_init :: "'p dist" where
  "dist_init = \<lparr>d_pipes = arr_empty, d_matching = 0, d_active = 0, d_eligible = 0, d_more = False\<rparr>"

subsection \<open>Operations\<close>

definition d_swap :: "nat \<Rightarrow> nat \<Rightarrow> 'p dist \<Rightarrow> 'p dist option" where
  "d_swap i j d = map_option (\<lambda>a. d\<lparr>d_pipes := a\<rparr>) (arr_swap i j (d_pipes d))"

definition dist_attach :: "'p \<Rightarrow> 'p dist \<Rightarrow> 'p dist option" where
  "dist_attach p d =
     (let d1 = d\<lparr>d_pipes := arr_push_back p (d_pipes d)\<rparr> in
      if d_more d then
        do { d2 \<leftarrow> d_swap (d_eligible d1) (d_size d1 - 1) d1; Some (d2\<lparr>d_eligible := d_eligible d2 + 1\<rparr>) }
      else
        do { d2 \<leftarrow> d_swap (d_active d1) (d_size d1 - 1) d1;
             Some (d2\<lparr>d_active := d_active d2 + 1, d_eligible := d_eligible d2 + 1\<rparr>) })"

definition dist_has_pipe :: "'p \<Rightarrow> 'p dist \<Rightarrow> bool" where
  "dist_has_pipe p d = arr_contains p (d_pipes d)"

definition dist_match :: "'p \<Rightarrow> 'p dist \<Rightarrow> 'p dist option" where
  "dist_match p d =
     (let i = arr_index p (d_pipes d) in
      if i < d_matching d then Some d
      else if i \<ge> d_eligible d then Some d
      else do { d' \<leftarrow> d_swap i (d_matching d) d; Some (d'\<lparr>d_matching := d_matching d' + 1\<rparr>) })"

definition dist_unmatch :: "'p dist \<Rightarrow> 'p dist" where
  "dist_unmatch d = d\<lparr>d_matching := 0\<rparr>"

function reverse_loop :: "nat \<Rightarrow> 'p dist \<Rightarrow> 'p dist option" where
  "reverse_loop i d =
     (if i < d_eligible d then
        (case d_swap i (d_matching d) d of
           None \<Rightarrow> None
         | Some d' \<Rightarrow> reverse_loop (Suc i) (d'\<lparr>d_matching := d_matching d' + 1\<rparr>))
      else Some d)"
  by pat_completeness auto
termination
  by (relation "measure (\<lambda>(i, d). d_eligible d - i)") (auto simp: d_swap_def)

definition dist_reverse_match :: "'p dist \<Rightarrow> 'p dist option" where
  "dist_reverse_match d = reverse_loop (d_matching d) (dist_unmatch d)"

text \<open>The step \<open>pipe_terminated\<close> repeats for each prefix: a pipe inside is moved to its end, which
  then shrinks by one.\<close>

definition leave_prefix :: "'p \<Rightarrow> nat \<Rightarrow> 'p arr \<Rightarrow> ('p arr \<times> nat) option" where
  "leave_prefix p n a =
     (if arr_index p a < n then map_option (\<lambda>b. (b, n - 1)) (arr_swap (arr_index p a) (n - 1) a) else Some (a, n))"

definition dist_pipe_terminated :: "'p \<Rightarrow> 'p dist \<Rightarrow> 'p dist option" where
  "dist_pipe_terminated p d =
     (if \<not> dist_has_pipe p d then Some d
      else do {
        (a1, m) \<leftarrow> leave_prefix p (d_matching d) (d_pipes d);
        (a2, ac) \<leftarrow> leave_prefix p (d_active d) a1;
        (a3, e) \<leftarrow> leave_prefix p (d_eligible d) a2;
        a4 \<leftarrow> arr_erase p a3;
        Some (d\<lparr>d_pipes := a4, d_matching := m, d_active := ac, d_eligible := e\<rparr>) })"

definition dist_activated :: "'p \<Rightarrow> 'p dist \<Rightarrow> 'p dist option" where
  "dist_activated p d =
     do { d1 \<leftarrow> (if d_eligible d < d_size d
                 then do { e \<leftarrow> d_swap (arr_index p (d_pipes d)) (d_eligible d) d;
                           Some (e\<lparr>d_eligible := d_eligible e + 1\<rparr>) }
                 else Some d);
          (if \<not> d_more d1 \<and> d_active d1 < d_size d1
           then do { e \<leftarrow> d_swap (d_eligible d1 - 1) (d_active d1) d1; Some (e\<lparr>d_active := d_active e + 1\<rparr>) }
           else Some d1) }"

definition dist_match_all :: "'p dist \<Rightarrow> 'p dist" where
  "dist_match_all d = d\<lparr>d_matching := d_active d\<rparr>"

definition deactivate_matching_pipe :: "nat \<Rightarrow> 'p dist \<Rightarrow> 'p dist option" where
  "deactivate_matching_pipe i d =
     (if \<not> i < d_matching d then None
      else do {
        e \<leftarrow> d_swap i (d_matching d - 1) d;
        let e = e\<lparr>d_matching := d_matching e - 1\<rparr>;
        f \<leftarrow> d_swap (d_matching e) (d_active e - 1) e;
        let f = f\<lparr>d_active := d_active f - 1\<rparr>;
        g \<leftarrow> d_swap (d_active f) (d_eligible f - 1) f;
        Some (g\<lparr>d_eligible := d_eligible g - 1\<rparr>) })"

definition dist_write_at ::
    "('p, 'w) pipe_ops \<Rightarrow> nat \<Rightarrow> hmsg \<Rightarrow> bool \<Rightarrow> 'p dist \<Rightarrow> heap \<times> 'w \<Rightarrow> (bool \<times> 'p dist \<times> heap \<times> 'w) option" where
  "dist_write_at ops i m admitted d hw =
     (case arr_get i (d_pipes d) of
        None \<Rightarrow> None
      | Some p \<Rightarrow>
          let (h, w) = hw;
              (ok, w1) = (if admitted then po_write_admitted ops p m h w
                          else if has_more m then po_write_more ops p m h w
                          else po_write_single ops p m h w)
          in if ok then Some (True, d, h, w1)
             else let (h2, w2) = (if d_more d then po_rollback ops p (h, w1) else (h, w1)) in
               map_option (\<lambda>d'. (False, d', h2, w2)) (deactivate_matching_pipe i d))"

lemma d_swap_sel:
  "d_swap i j d = Some d' \<Longrightarrow> d_matching d' = d_matching d \<and> d_active d' = d_active d \<and> d_eligible d' = d_eligible d
     \<and> d_more d' = d_more d \<and> d_size d' = d_size d"
  by (auto simp: d_swap_def arr_swap_def Let_def split: if_splits)

lemma deactivate_matching:
  "deactivate_matching_pipe i d = Some d' \<Longrightarrow> i < d_matching d \<and> d_matching d' = d_matching d - 1
     \<and> d_active d' = d_active d - 1 \<and> d_eligible d' = d_eligible d - 1 \<and> d_more d' = d_more d \<and> d_size d' = d_size d"
  by (auto simp: deactivate_matching_pipe_def Let_def split: if_splits Option.bind_splits dest!: d_swap_sel)

lemma write_at_matching:
  assumes "dist_write_at ops i m admitted d hw = Some (ok, d', hw')" "i < d_matching d"
  shows "d_matching d' = (if ok then d_matching d else d_matching d - 1)"
  using assms deactivate_matching [of i d]
  by (auto simp: dist_write_at_def Let_def split: option.splits prod.splits if_splits)

text \<open>The loop over the matching pipes: a pipe whose write failed has left the range, so the index
  stays. The result is the number of failed writes.\<close>

function write_loop ::
    "('p, 'w) pipe_ops \<Rightarrow> hmsg \<Rightarrow> bool \<Rightarrow> nat \<Rightarrow> nat \<Rightarrow> 'p dist \<Rightarrow> heap \<times> 'w \<Rightarrow> (nat \<times> 'p dist \<times> heap \<times> 'w) option" where
  "write_loop ops m admitted i failed d hw =
     (if i < d_matching d then
        (case dist_write_at ops i m admitted d hw of
           None \<Rightarrow> None
         | Some (ok, d', hw') \<Rightarrow>
             if ok then write_loop ops m admitted (Suc i) failed d' hw'
             else write_loop ops m admitted i (Suc failed) d' hw')
      else Some (failed, d, hw))"
  by pat_completeness auto
termination
  by (relation "measure (\<lambda>(_, _, _, i, _, d, _). d_matching d - i)") (auto dest: write_at_matching)

declare write_loop.simps [simp del]
declare reverse_loop.simps [simp del]

text \<open>\<open>distribute\<close>; the message is an empty one afterwards.\<close>

definition close_checked :: "nat \<Rightarrow> hmsg \<Rightarrow> heap \<Rightarrow> heap option" where
  "close_checked pool_max m h =
     (case msg_close pool_max m h of Some (Inr _, h') \<Rightarrow> Some h' | _ \<Rightarrow> None)"

definition dist_distribute ::
    "nat \<Rightarrow> ('p, 'w) pipe_ops \<Rightarrow> hmsg \<Rightarrow> bool \<Rightarrow> 'p dist \<Rightarrow> heap \<times> 'w \<Rightarrow> ('p dist \<times> heap \<times> 'w) option" where
  "dist_distribute pool_max ops m admitted d hw =
     (case hw of (h, w) \<Rightarrow>
        if d_matching d = 0 then
          map_option (\<lambda>h'. (d, h', w)) (close_checked pool_max m h)
        else if d_matching d = 1 \<and> d_active d = 1 \<and> d_eligible d = 1 then
          (case dist_write_at ops 0 m admitted d (h, w) of
             None \<Rightarrow> None
           | Some (True, d', h1, w1) \<Rightarrow> Some (d', h1, w1)
           | Some (False, d', h1, w1) \<Rightarrow> map_option (\<lambda>h'. (d', h', w1)) (close_checked pool_max m h1))
        else if (case hm_body m of Vsm _ \<Rightarrow> True | _ \<Rightarrow> False) \<and> \<not> has_long_group m then
          map_option snd (write_loop ops m admitted 0 0 d (h, w))
        else
          (case add_refs (d_matching d - 1) m h of
             None \<Rightarrow> None
           | Some (m', h1) \<Rightarrow>
               (case write_loop ops m' admitted 0 0 d (h1, w) of
                  None \<Rightarrow> None
                | Some (failed, d', h2, w2) \<Rightarrow>
                    if failed \<noteq> 0 then map_option (\<lambda>(_, h3). (d', h3, w2)) (rm_refs pool_max failed m' h2)
                    else Some (d', h2, w2))))"

fun rollback_pipes :: "('p, 'w) pipe_ops \<Rightarrow> 'p list \<Rightarrow> heap \<times> 'w \<Rightarrow> heap \<times> 'w" where
  "rollback_pipes ops [] hw = hw"
| "rollback_pipes ops (p # ps) hw = rollback_pipes ops ps (po_rollback ops p hw)"

text \<open>The loops over the matching pipes that do not change the array run over its prefix.\<close>

definition dist_rollback :: "('p, 'w) pipe_ops \<Rightarrow> 'p dist \<Rightarrow> heap \<times> 'w \<Rightarrow> ('p dist \<times> heap \<times> 'w) option" where
  "dist_rollback ops d hw =
     (if d_matching d \<le> d_size d then
        Some (d\<lparr>d_matching := 0, d_active := d_eligible d, d_more := False\<rparr>,
              rollback_pipes ops (take (d_matching d) (arr_items (d_pipes d))) hw)
      else None)"

text \<open>The result is whether the message was taken; it is not when some pipe cannot take a frame of
  that size (\<open>EMSGSIZE\<close>), and then the record is withdrawn from all pipes.\<close>

definition dist_send_to_matching ::
    "nat \<Rightarrow> ('p, 'w) pipe_ops \<Rightarrow> hmsg \<Rightarrow> bool \<Rightarrow> 'p dist \<Rightarrow> heap \<times> 'w \<Rightarrow> (bool \<times> 'p dist \<times> heap \<times> 'w) option" where
  "dist_send_to_matching pool_max ops m admitted d hw =
     (if admitted \<and> d_size d < d_matching d then None
      else if admitted \<and>
         (\<exists>p \<in> set (take (d_matching d) (arr_items (d_pipes d))). po_frame_size ops p m (fst hw) (snd hw) \<noteq> Adm_ready)
      then (if d_more d then map_option (Pair False) (dist_rollback ops d hw) else Some (False, d, hw))
      else
        map_option (\<lambda>(d', hw'). (True, (if has_more m then d' else d'\<lparr>d_active := d_eligible d'\<rparr>)\<lparr>d_more := has_more m\<rparr>, hw'))
          (dist_distribute pool_max ops m admitted d hw))"

definition dist_send_to_all ::
    "nat \<Rightarrow> ('p, 'w) pipe_ops \<Rightarrow> hmsg \<Rightarrow> 'p dist \<Rightarrow> heap \<times> 'w \<Rightarrow> (bool \<times> 'p dist \<times> heap \<times> 'w) option" where
  "dist_send_to_all pool_max ops m d hw = dist_send_to_matching pool_max ops m False (dist_match_all d) hw"

definition merge_admission :: "admission \<Rightarrow> admission \<Rightarrow> admission" where
  "merge_admission result current =
     (if current = Adm_hwm_full then current
      else if (result = Adm_ready \<or> result = Adm_inactive) \<and> current = Adm_transport_wait then current
      else if result = Adm_ready \<and> current = Adm_inactive then current
      else result)"

function hwm_loop ::
    "('p, 'w) pipe_ops \<Rightarrow> bool \<Rightarrow> nat \<Rightarrow> admission \<Rightarrow> 'p dist \<Rightarrow> 'w \<Rightarrow> (admission \<times> 'p dist \<times> 'w) option" where
  "hwm_loop ops drop_full i result d w =
     (if i < d_matching d then
        (case arr_get i (d_pipes d) of
           None \<Rightarrow> None
         | Some p \<Rightarrow>
             let (current, w') = po_check_hwm ops p w in
             if drop_full \<and> (current = Adm_hwm_full \<or> current = Adm_transport_wait \<or> current = Adm_inactive) then
               (case deactivate_matching_pipe i d of None \<Rightarrow> None | Some d' \<Rightarrow> hwm_loop ops drop_full i result d' w')
             else hwm_loop ops drop_full (Suc i) (merge_admission result current) d w')
      else Some (result, d, w))"
  by pat_completeness auto
termination
  by (relation "measure (\<lambda>(_, _, i, _, d, _). d_matching d - i)") (auto dest: deactivate_matching)

declare hwm_loop.simps [simp del]

definition dist_check_publish_record_hwm ::
    "('p, 'w) pipe_ops \<Rightarrow> bool \<Rightarrow> 'p dist \<Rightarrow> 'w \<Rightarrow> (admission \<times> 'p dist \<times> 'w) option" where
  "dist_check_publish_record_hwm ops drop_full d w = hwm_loop ops drop_full 0 Adm_ready d w"


subsection \<open>Abstract view: nested sets of pipes\<close>

abbreviation pre :: "nat \<Rightarrow> 'p dist \<Rightarrow> 'p set" where
  "pre n d \<equiv> set (take n (arr_items (d_pipes d)))"

definition all_pipes :: "'p dist \<Rightarrow> 'p set" where "all_pipes d = set (arr_items (d_pipes d))"
definition eligible :: "'p dist \<Rightarrow> 'p set" where "eligible d = pre (d_eligible d) d"
definition active :: "'p dist \<Rightarrow> 'p set" where "active d = pre (d_active d) d"
definition matching :: "'p dist \<Rightarrow> 'p set" where "matching d = pre (d_matching d) d"

lemmas view_defs = all_pipes_def eligible_def active_def matching_def

text \<open>The prefixes are nested, and between messages every eligible pipe is active.\<close>

definition dist_ok :: "'p dist \<Rightarrow> bool" where
  "dist_ok d \<longleftrightarrow>
     arr_ok (d_pipes d) \<and> d_matching d \<le> d_active d \<and> d_active d \<le> d_eligible d \<and> d_eligible d \<le> d_size d
     \<and> (\<not> d_more d \<longrightarrow> d_active d = d_eligible d)"

lemma arr_swap_commute: "arr_ok a \<Longrightarrow> arr_swap i j a = arr_swap j i a"
  by (auto simp: arr_swap_def arr_ok_def Let_def swap_list_commute [of _ i j] nth_eq_iff_index_eq fun_eq_iff)

text \<open>The moves across the boundary of a prefix, on the distributor.\<close>

lemma d_promote:
  assumes "arr_ok (d_pipes d)" "n \<le> i" "i < d_size d"
  obtains a where "d_swap i n d = Some (d\<lparr>d_pipes := a\<rparr>)" "d_swap n i d = Some (d\<lparr>d_pipes := a\<rparr>)"
    "arr_ok a" "set (arr_items a) = all_pipes d" "arr_size a = d_size d"
    "set (take (Suc n) (arr_items a)) = insert (arr_items (d_pipes d) ! i) (pre n d)"
    "\<forall>m. m \<le> n \<or> i < m \<longrightarrow> set (take m (arr_items a)) = pre m d" "arr_items a ! n = arr_items (d_pipes d) ! i"
proof -
  obtain a where a: "arr_swap i n (d_pipes d) = Some a" "arr_ok a" "set (arr_items a) = set (arr_items (d_pipes d))"
      "arr_size a = d_size d" "arr_items a ! n = arr_items (d_pipes d) ! i"
      "set (take (Suc n) (arr_items a)) = insert (arr_items (d_pipes d) ! i) (pre n d)"
      "\<forall>m. m \<le> n \<or> i < m \<longrightarrow> set (take m (arr_items a)) = pre m d"
    using pa.promote [OF assms] by blast
  then show ?thesis using that [of a] arr_swap_commute [OF assms(1), of n i] by (simp add: d_swap_def all_pipes_def)
qed

lemma d_swap_items: "d_swap i j d = Some (d\<lparr>d_pipes := a\<rparr>) \<Longrightarrow> arr_items a = swap_list (arr_items (d_pipes d)) i j"
  by (cases d) (auto simp: d_swap_def arr_swap_def Let_def split: if_splits)

lemma d_demote:
  assumes "arr_ok (d_pipes d)" "p \<in> all_pipes d" "arr_index p (d_pipes d) < n" "n \<le> d_size d"
  obtains a where "d_swap (arr_index p (d_pipes d)) (n - 1) d = Some (d\<lparr>d_pipes := a\<rparr>)"
    "arr_ok a" "set (arr_items a) = all_pipes d" "arr_size a = d_size d"
    "set (take (n - 1) (arr_items a)) = pre n d - {p}"
    "\<forall>m. n \<le> m \<or> m \<le> arr_index p (d_pipes d) \<longrightarrow> set (take m (arr_items a)) = pre m d"
    "arr_index p a = n - 1"
proof -
  let ?i = "arr_index p (d_pipes d)"
  have p: "?i < d_size d" "arr_items (d_pipes d) ! ?i = p"
    using arr_ok_index [OF assms(1)] assms(2) by (auto simp: all_pipes_def)
  obtain a where a: "arr_swap ?i (n - 1) (d_pipes d) = Some a" "arr_ok a" "set (arr_items a) = set (arr_items (d_pipes d))"
      "arr_size a = d_size d" "arr_items a ! (n - 1) = p" "set (take (n - 1) (arr_items a)) = pre n d - {p}"
      "\<forall>m. n \<le> m \<or> m \<le> ?i \<longrightarrow> set (take m (arr_items a)) = pre m d"
    using pa.demote [OF assms(1,3,4)] p(2) by auto
  have "n - 1 < arr_size a" using assms(3,4) a(4) by simp
  from arr_ok_index_nth [OF a(2) this] a(5) have "arr_index p a = n - 1" by simp
  then show ?thesis using that [of a] a by (simp add: d_swap_def all_pipes_def)
qed

lemma d_index:
  assumes "dist_ok d" "p \<in> all_pipes d" "m \<le> d_size d"
  shows "arr_index p (d_pipes d) < m \<longleftrightarrow> p \<in> pre m d"
  using pa.index_in_prefix [of "d_pipes d" p m] assms by (simp add: dist_ok_def all_pipes_def)

subsection \<open>The operations on the sets\<close>

lemma dist_init_ok: "dist_ok dist_init" "all_pipes dist_init = {}" "matching dist_init = {}" "\<not> d_more dist_init"
  by (simp_all add: dist_ok_def dist_init_def view_defs)

lemma dist_attach_ok:
  assumes ok: "dist_ok d" and p: "p \<notin> all_pipes d"
  obtains d' where "dist_attach p d = Some d'" "dist_ok d'" "all_pipes d' = insert p (all_pipes d)"
    "eligible d' = insert p (eligible d)" "active d' = (if d_more d then active d else insert p (active d))"
    "matching d' = matching d" "d_more d' = d_more d"
proof -
  let ?d1 = "d\<lparr>d_pipes := arr_push_back p (d_pipes d)\<rparr>"
  let ?n = "if d_more d then d_eligible d else d_active d"
  have a1: "arr_ok (d_pipes ?d1)" using ok p by (simp add: dist_ok_def all_pipes_def arr_push_back_ok)
  have n: "?n \<le> d_size d" "d_matching d \<le> ?n" "d_active d \<le> ?n" using ok by (auto simp: dist_ok_def)
  have i: "?n \<le> d_size ?d1 - 1" "d_size ?d1 - 1 < d_size ?d1" using n by auto
  obtain a where a: "d_swap ?n (d_size ?d1 - 1) ?d1 = Some (?d1\<lparr>d_pipes := a\<rparr>)" "arr_ok a"
      "set (arr_items a) = all_pipes ?d1" "arr_size a = d_size ?d1"
      "set (take (Suc ?n) (arr_items a)) = insert (arr_items (d_pipes ?d1) ! (d_size ?d1 - 1)) (pre ?n ?d1)"
      "\<forall>m. m \<le> ?n \<or> d_size ?d1 - 1 < m \<longrightarrow> set (take m (arr_items a)) = pre m ?d1"
    by (rule d_promote [OF a1 i])
  have pre: "pre m ?d1 = pre m d" if "m \<le> d_size d" for m using that by simp
  have last: "arr_items (d_pipes ?d1) ! (d_size ?d1 - 1) = p" by simp
  let ?d' = "if d_more d then ?d1\<lparr>d_pipes := a, d_eligible := d_eligible d + 1\<rparr>
             else ?d1\<lparr>d_pipes := a, d_active := d_active d + 1, d_eligible := d_eligible d + 1\<rparr>"
  have r: "dist_attach p d = Some ?d'" using a(1) by (simp add: dist_attach_def split: if_splits)
  have "dist_ok ?d'" using ok a(2,4) by (auto simp: dist_ok_def)
  moreover have "all_pipes ?d' = insert p (all_pipes d)" using a(3) by (simp add: all_pipes_def)
  moreover have "eligible ?d' = insert p (eligible d)" "active ?d' = (if d_more d then active d else insert p (active d))"
    "matching ?d' = matching d"
    using ok a(5) a(6) [rule_format, of "d_active d"] a(6) [rule_format, of "d_matching d"] n last pre
    by (auto simp: view_defs dist_ok_def split: if_splits)
  ultimately show ?thesis using that [OF r] by simp
qed

lemma dist_has_pipe_iff: "dist_ok d \<Longrightarrow> dist_has_pipe p d \<longleftrightarrow> p \<in> all_pipes d"
  by (simp add: dist_has_pipe_def arr_contains_iff dist_ok_def all_pipes_def)

lemma dist_match_ok:
  assumes ok: "dist_ok d" and p: "p \<in> all_pipes d" and nm: "\<not> d_more d"
  obtains d' where "dist_match p d = Some d'" "dist_ok d'" "all_pipes d' = all_pipes d" "eligible d' = eligible d"
    "matching d' = matching d \<union> (eligible d \<inter> {p})" "d_more d' = d_more d"
proof -
  let ?i = "arr_index p (d_pipes d)"
  have s: "d_matching d \<le> d_size d" "d_eligible d \<le> d_size d" using ok by (auto simp: dist_ok_def)
  have in_m: "?i < d_matching d \<longleftrightarrow> p \<in> matching d" and in_e: "?i < d_eligible d \<longleftrightarrow> p \<in> eligible d"
    using d_index [OF ok p] s by (simp_all add: view_defs)
  show ?thesis
  proof (cases "?i < d_matching d \<or> ?i \<ge> d_eligible d")
    case True
    then have "dist_match p d = Some d" by (auto simp: dist_match_def Let_def)
    moreover have "matching d = matching d \<union> (eligible d \<inter> {p})" using True in_m in_e by auto
    ultimately show ?thesis using that ok by blast
  next
    case False
    then have i: "d_matching d \<le> ?i" "?i < d_size d" "?i < d_eligible d" using s by auto
    have ap: "arr_ok (d_pipes d)" using ok by (simp add: dist_ok_def)
    obtain a where a: "d_swap ?i (d_matching d) d = Some (d\<lparr>d_pipes := a\<rparr>)" "arr_ok a" "set (arr_items a) = all_pipes d"
        "arr_size a = d_size d"
        "set (take (Suc (d_matching d)) (arr_items a)) = insert (arr_items (d_pipes d) ! ?i) (pre (d_matching d) d)"
        "\<forall>m. m \<le> d_matching d \<or> ?i < m \<longrightarrow> set (take m (arr_items a)) = pre m d"
      by (rule d_promote [OF ap i(1,2)])
    let ?d' = "d\<lparr>d_pipes := a, d_matching := d_matching d + 1\<rparr>"
    have "dist_match p d = Some ?d'" using False a(1) by (simp add: dist_match_def Let_def)
    moreover have "dist_ok ?d'" using ok a(2,4) i nm by (auto simp: dist_ok_def)
    moreover have "arr_items (d_pipes d) ! ?i = p" using arr_ok_index [OF ap] p by (simp add: all_pipes_def)
    then have "matching ?d' = matching d \<union> (eligible d \<inter> {p})" using a(5) i in_e by (simp add: view_defs)
    moreover have "eligible ?d' = eligible d" using a(6) [rule_format, of "d_eligible d"] i by (simp add: view_defs)
    ultimately show ?thesis using that a(3) by (simp add: all_pipes_def)
  qed
qed

lemma dist_unmatch_ok:
  "dist_ok d \<Longrightarrow> dist_ok (dist_unmatch d)" "matching (dist_unmatch d) = {}" "eligible (dist_unmatch d) = eligible d"
  "active (dist_unmatch d) = active d" "all_pipes (dist_unmatch d) = all_pipes d" "d_more (dist_unmatch d) = d_more d"
  by (simp_all add: dist_ok_def dist_unmatch_def view_defs)

lemma dist_match_all_ok:
  "dist_ok d \<Longrightarrow> dist_ok (dist_match_all d)" "matching (dist_match_all d) = active d" "eligible (dist_match_all d) = eligible d"
  "active (dist_match_all d) = active d" "all_pipes (dist_match_all d) = all_pipes d" "d_more (dist_match_all d) = d_more d"
  by (simp_all add: dist_ok_def dist_match_all_def view_defs)


text \<open>Reversing: what is not yet treated keeps its place, the pipes treated so far are in front.\<close>

lemma reverse_loop_ok:
  assumes "arr_ok (d_pipes d)" "d_matching d \<le> i" "i \<le> d_eligible d" "d_eligible d \<le> d_size d"
  shows "\<exists>d'. reverse_loop i d = Some d' \<and> arr_ok (d_pipes d') \<and> d_matching d' = d_matching d + (d_eligible d - i)
    \<and> d_eligible d' = d_eligible d \<and> d_active d' = d_active d \<and> d_more d' = d_more d
    \<and> all_pipes d' = all_pipes d \<and> d_size d' = d_size d \<and> eligible d' = eligible d
    \<and> matching d' = matching d \<union> set (drop i (take (d_eligible d) (arr_items (d_pipes d))))"
  using assms
proof (induction i d rule: reverse_loop.induct)
  case (1 i d)
  show ?case
  proof (cases "i < d_eligible d")
    case False
    then show ?thesis using 1 by (subst reverse_loop.simps) simp
  next
    case True
    let ?xs = "arr_items (d_pipes d)"
    have i: "d_matching d \<le> i" "i < d_size d" using 1(3,5) True by auto
    obtain a where a: "d_swap i (d_matching d) d = Some (d\<lparr>d_pipes := a\<rparr>)" "arr_ok a" "set (arr_items a) = all_pipes d"
        "arr_size a = d_size d" "set (take (Suc (d_matching d)) (arr_items a)) = insert (?xs ! i) (pre (d_matching d) d)"
        "\<forall>m. m \<le> d_matching d \<or> i < m \<longrightarrow> set (take m (arr_items a)) = pre m d"
      by (rule d_promote [OF 1(2) i])
    let ?d' = "d\<lparr>d_pipes := a, d_matching := d_matching d + 1\<rparr>"
    have tail: "drop (Suc i) (take n (arr_items a)) = drop (Suc i) (take n ?xs)" for n
    proof (rule nth_equalityI)
      show "length (drop (Suc i) (take n (arr_items a))) = length (drop (Suc i) (take n ?xs))" using a(4) by simp
      fix k assume "k < length (drop (Suc i) (take n (arr_items a)))"
      then have k: "Suc i + k < n" "Suc i + k < d_size d" using a(4) by auto
      have "arr_items a = swap_list ?xs i (d_matching d)"
        by (rule d_swap_items [OF a(1)])
      then have "arr_items a ! (Suc i + k) = ?xs ! (Suc i + k)" using k i by (simp add: nth_swap_list)
      then show "drop (Suc i) (take n (arr_items a)) ! k = drop (Suc i) (take n ?xs) ! k" using k a(4) by simp
    qed
    have "drop i (take (d_eligible d) ?xs) = ?xs ! i # drop (Suc i) (take (d_eligible d) ?xs)"
      using True i by (simp add: Cons_nth_drop_Suc [symmetric])
    moreover have "eligible ?d' = eligible d" using a(6) True by (simp add: view_defs)
    moreover have "matching ?d' = insert (?xs ! i) (matching d)" using a(5) by (simp add: view_defs)
    moreover have "all_pipes ?d' = all_pipes d" using a(3) by (simp add: all_pipes_def)
    ultimately show ?thesis
      using 1(1) [OF True, of "d\<lparr>d_pipes := a\<rparr>"] a(1,2,4) i True 1(5) tail by (subst reverse_loop.simps) auto
  qed
qed

lemma dist_reverse_match_ok:
  assumes ok: "dist_ok d" and nm: "\<not> d_more d"
  obtains d' where "dist_reverse_match d = Some d'" "dist_ok d'" "all_pipes d' = all_pipes d" "eligible d' = eligible d"
    "matching d' = eligible d - matching d" "d_more d' = d_more d"
proof -
  let ?u = "dist_unmatch d" and ?xs = "take (d_eligible d) (arr_items (d_pipes d))"
  have u: "arr_ok (d_pipes ?u)" "d_matching ?u \<le> d_matching d" "d_matching d \<le> d_eligible ?u" "d_eligible ?u \<le> d_size ?u"
    using ok by (auto simp: dist_ok_def dist_unmatch_def)
  obtain d' where d': "reverse_loop (d_matching d) ?u = Some d'" "arr_ok (d_pipes d')"
      "d_matching d' = d_matching ?u + (d_eligible ?u - d_matching d)" "d_eligible d' = d_eligible ?u"
      "d_active d' = d_active ?u" "d_more d' = d_more ?u" "all_pipes d' = all_pipes ?u" "d_size d' = d_size ?u"
      "eligible d' = eligible ?u" "matching d' = matching ?u \<union> set (drop (d_matching d) (take (d_eligible ?u) (arr_items (d_pipes ?u))))"
    using reverse_loop_ok [OF u] by blast
  have "distinct ?xs" using ok by (simp add: dist_ok_def arr_ok_def)
  moreover have "?xs = take (d_matching d) ?xs @ drop (d_matching d) ?xs" by (rule append_take_drop_id [symmetric])
  ultimately have "set (drop (d_matching d) ?xs) = set ?xs - set (take (d_matching d) ?xs)"
    by (metis Diff_triv Un_Diff Diff_cancel Un_empty_left distinct_append inf_commute set_append)
  then have "matching d' = eligible d - matching d"
    using d'(10) ok by (auto simp: dist_unmatch_ok view_defs dist_unmatch_def dist_ok_def min_def split: if_splits)
  moreover have "dist_ok d'" using ok nm d' by (auto simp: dist_ok_def dist_unmatch_def)
  ultimately show ?thesis using that d' by (simp add: dist_reverse_match_def dist_unmatch_ok)
qed

lemma dist_activated_ok:
  assumes ok: "dist_ok d" and p: "p \<in> all_pipes d" "p \<notin> eligible d"
  obtains d' where "dist_activated p d = Some d'" "dist_ok d'" "all_pipes d' = all_pipes d"
    "eligible d' = insert p (eligible d)" "active d' = (if d_more d then active d else insert p (active d))"
    "matching d' = matching d" "d_more d' = d_more d"
proof -
  let ?i = "arr_index p (d_pipes d)"
  have ap: "arr_ok (d_pipes d)" using ok by (simp add: dist_ok_def)
  have ix: "?i < d_size d" "arr_items (d_pipes d) ! ?i = p" using arr_ok_index [OF ap] p by (auto simp: all_pipes_def)
  have "d_eligible d \<le> d_size d" using ok by (simp add: dist_ok_def)
  then have i: "d_eligible d \<le> ?i" using d_index [OF ok p(1)] p(2) by (simp add: view_defs not_less [symmetric])
  then have ne: "d_eligible d < d_size d" using ix by simp
  obtain a where a: "d_swap ?i (d_eligible d) d = Some (d\<lparr>d_pipes := a\<rparr>)" "arr_ok a" "set (arr_items a) = all_pipes d"
      "arr_size a = d_size d" "set (take (Suc (d_eligible d)) (arr_items a)) = insert (arr_items (d_pipes d) ! ?i) (pre (d_eligible d) d)"
      "\<forall>m. m \<le> d_eligible d \<or> ?i < m \<longrightarrow> set (take m (arr_items a)) = pre m d"
    by (rule d_promote [OF ap i ix(1)])
  let ?d1 = "d\<lparr>d_pipes := a, d_eligible := d_eligible d + 1\<rparr>"
  have d1: "eligible ?d1 = insert p (eligible d)" "active ?d1 = active d" "matching ?d1 = matching d" "all_pipes ?d1 = all_pipes d"
    using a(3,5,6) ix(2) ok by (simp_all add: view_defs dist_ok_def)
  show ?thesis
  proof (cases "d_more d")
    case True
    then have "dist_activated p d = Some ?d1" using ne a(1) by (simp add: dist_activated_def)
    moreover have "dist_ok ?d1" using ok a(2,4) ne True by (auto simp: dist_ok_def)
    ultimately show ?thesis using that True d1 by simp
  next
    case False
    then have ae: "d_active d = d_eligible d" using ok by (simp add: dist_ok_def)
    have n: "d_eligible d \<le> d_eligible d" "d_eligible d < d_size ?d1" using ne a(4) by auto
    have ap1: "arr_ok (d_pipes ?d1)" using a(2) by simp
    obtain b where b: "d_swap (d_eligible d) (d_eligible d) ?d1 = Some (?d1\<lparr>d_pipes := b\<rparr>)" "arr_ok b"
        "set (arr_items b) = all_pipes ?d1" "arr_size b = d_size ?d1"
        "\<forall>m. m \<le> d_eligible d \<or> d_eligible d < m \<longrightarrow> set (take m (arr_items b)) = pre m ?d1"
      by (rule d_promote [OF ap1 n])
    let ?d2 = "?d1\<lparr>d_pipes := b, d_active := d_active d + 1\<rparr>"
    have "dist_activated p d = Some ?d2" using ne a(1,4) b(1) False ae by (simp add: dist_activated_def)
    moreover have "dist_ok ?d2" using ok b(2,4) a(4) ne False ae by (auto simp: dist_ok_def)
    moreover have "eligible ?d2 = eligible ?d1" "active ?d2 = eligible ?d1" "matching ?d2 = matching ?d1" "all_pipes ?d2 = all_pipes ?d1"
      using b(3,5) ok ae by (auto simp: view_defs dist_ok_def)
    moreover have "active d = eligible d" using ae by (simp add: view_defs)
    ultimately show ?thesis using that d1 False by simp
  qed
qed


abbreviation apre :: "nat \<Rightarrow> 'p arr \<Rightarrow> 'p set" where
  "apre n a \<equiv> set (take n (arr_items a))"

lemma arr_pre_card: "arr_ok a \<Longrightarrow> n \<le> arr_size a \<Longrightarrow> n = card (apre n a)"
  using distinct_card [of "take n (arr_items a)"] by (simp add: arr_ok_def)

lemma leave_prefix_ok:
  assumes ap: "arr_ok a" and p: "p \<in> set (arr_items a)" and n: "n \<le> arr_size a"
  obtains b k where "leave_prefix p n a = Some (b, k)" "arr_ok b" "set (arr_items b) = set (arr_items a)" "arr_size b = arr_size a"
    "k \<le> n" "apre k b = apre n a - {p}" "\<forall>m \<ge> n. apre m b = apre m a"
    "\<forall>m \<le> n. p \<notin> apre m a \<longrightarrow> apre m b = apre m a \<and> m \<le> k"
proof (cases "arr_index p a < n")
  case True
  have ix: "arr_items a ! arr_index p a = p" using arr_ok_index [OF ap p] by simp
  obtain b where b: "arr_swap (arr_index p a) (n - 1) a = Some b" "arr_ok b" "set (arr_items b) = set (arr_items a)"
      "arr_size b = arr_size a" "apre (n - 1) b = apre n a - {p}"
      "\<forall>m. n \<le> m \<or> m \<le> arr_index p a \<longrightarrow> apre m b = apre m a"
    using pa.demote [OF ap True n] ix by auto
  have le: "m \<le> arr_index p a" if "m \<le> n" "p \<notin> apre m a" for m
    using pa.index_in_prefix [OF ap p, of m] that n by (simp add: not_less [symmetric])
  have "leave_prefix p n a = Some (b, n - 1)" using True b(1) by (simp add: leave_prefix_def)
  then show ?thesis using that [of b "n - 1"] b le True by fastforce
next
  case False
  then have "p \<notin> apre n a" using pa.index_in_prefix [OF ap p, of n] n by simp
  then show ?thesis using that [of a n] False ap by (simp add: leave_prefix_def)
qed

lemma dist_pipe_terminated_ok:
  assumes ok: "dist_ok d" and p: "p \<in> all_pipes d"
  obtains d' where "dist_pipe_terminated p d = Some d'" "dist_ok d'" "all_pipes d' = all_pipes d - {p}"
    "eligible d' = eligible d - {p}" "active d' = active d - {p}" "matching d' = matching d - {p}" "d_more d' = d_more d"
proof -
  have ap: "arr_ok (d_pipes d)" and le: "d_matching d \<le> d_active d" "d_active d \<le> d_eligible d" "d_eligible d \<le> d_size d"
    and p0: "p \<in> set (arr_items (d_pipes d))" using ok p by (auto simp: dist_ok_def all_pipes_def)
  have n1: "d_matching d \<le> d_size d" using le by simp
  obtain a1 k1 where 1: "leave_prefix p (d_matching d) (d_pipes d) = Some (a1, k1)" "arr_ok a1"
      "set (arr_items a1) = set (arr_items (d_pipes d))" "arr_size a1 = d_size d" "k1 \<le> d_matching d"
      "apre k1 a1 = apre (d_matching d) (d_pipes d) - {p}" "\<forall>m \<ge> d_matching d. apre m a1 = apre m (d_pipes d)"
    by (rule leave_prefix_ok [OF ap p0 n1])
  have p1: "p \<in> set (arr_items a1)" and n2: "d_active d \<le> arr_size a1" using p0 1 le by auto
  obtain a2 k2 where 2: "leave_prefix p (d_active d) a1 = Some (a2, k2)" "arr_ok a2"
      "set (arr_items a2) = set (arr_items a1)" "arr_size a2 = arr_size a1" "k2 \<le> d_active d"
      "apre k2 a2 = apre (d_active d) a1 - {p}" "\<forall>m \<ge> d_active d. apre m a2 = apre m a1"
      "\<forall>m \<le> d_active d. p \<notin> apre m a1 \<longrightarrow> apre m a2 = apre m a1 \<and> m \<le> k2"
    by (rule leave_prefix_ok [OF 1(2) p1 n2])
  have p2: "p \<in> set (arr_items a2)" and n3: "d_eligible d \<le> arr_size a2" using p1 1 2 le by auto
  obtain a3 k3 where 3: "leave_prefix p (d_eligible d) a2 = Some (a3, k3)" "arr_ok a3"
      "set (arr_items a3) = set (arr_items a2)" "arr_size a3 = arr_size a2" "k3 \<le> d_eligible d"
      "apre k3 a3 = apre (d_eligible d) a2 - {p}" "\<forall>m \<ge> d_eligible d. apre m a3 = apre m a2"
      "\<forall>m \<le> d_eligible d. p \<notin> apre m a2 \<longrightarrow> apre m a3 = apre m a2 \<and> m \<le> k3"
    by (rule leave_prefix_ok [OF 2(2) p2 n3])
  have p3: "p \<in> set (arr_items a3)" using p2 3(3) by simp
  obtain a4 where 4: "arr_erase p a3 = Some a4" "arr_ok a4" "set (arr_items a4) = set (arr_items a3) - {p}"
      "arr_size a4 = arr_size a3 - 1" "\<forall>m \<le> arr_index p a3. take m (arr_items a4) = take m (arr_items a3)"
    using pa.erase_prefix [OF 3(2) p3] by blast
  have m2: "apre k1 a2 = apre k1 a1" "k1 \<le> k2" using 2(8) 1(5,6) le by auto
  have m3: "apre k1 a3 = apre k1 a1" using 3(8) m2(1) 1(5,6) le by auto
  have c3: "apre k2 a3 = apre k2 a2" "k2 \<le> k3" using 3(8) 2(5,6) le by auto
  have sz: "k3 \<le> arr_size a3" using 3(5) n3 3(4) by simp
  have e4: "k3 \<le> arr_index p a3"
    using pa.index_in_prefix [OF 3(2) p3 sz] 3(6) by (simp add: not_less [symmetric])
  have pre4: "apre m a4 = apre m a3" if "m \<le> k3" for m using 4(5) e4 that by simp
  let ?d' = "d\<lparr>d_pipes := a4, d_matching := k1, d_active := k2, d_eligible := k3\<rparr>"
  have M: "matching ?d' = matching d - {p}" using pre4 [of k1] m2 m3 c3 1(6) by (simp add: view_defs)
  have A: "active ?d' = active d - {p}" using pre4 [of k2] c3 2(6) 1(7) le by (simp add: view_defs)
  have E: "eligible ?d' = eligible d - {p}" using pre4 [of k3] 3(6) 2(7) 1(7) le by (simp add: view_defs)
  have sz4: "k3 \<le> arr_size a4"
  proof -
    have "arr_index p a3 < arr_size a3" using arr_ok_index [OF 3(2) p3] by simp
    then show ?thesis using e4 4(4) by simp
  qed
  have "k2 = k3" if "\<not> d_more d"
  proof -
    have "active d = eligible d" using ok that by (simp add: dist_ok_def view_defs)
    then have "apre k2 a4 = apre k3 a4" using A E by (simp add: view_defs)
    then show ?thesis using arr_pre_card [OF 4(2), of k2] arr_pre_card [OF 4(2), of k3] sz4 c3 by simp
  qed
  then have "dist_ok ?d'" using 4(2) m2(2) c3(2) sz4 by (simp add: dist_ok_def)
  moreover have "dist_pipe_terminated p d = Some ?d'"
    using 1(1) 2(1) 3(1) 4(1) dist_has_pipe_iff [OF ok] p by (simp add: dist_pipe_terminated_def)
  moreover have "all_pipes ?d' = all_pipes d - {p}" using 4(3) 3(3) 2(3) 1(3) by (simp add: all_pipes_def)
  ultimately show ?thesis using that M A E by simp
qed


lemma take_swap_list: "n \<le> i \<Longrightarrow> n \<le> j \<Longrightarrow> take n (swap_list xs i j) = take n xs"
  by (simp add: swap_list_def)

text \<open>A matching pipe that refused a message leaves all three sets; the pipes before it keep their
  places.\<close>

lemma deactivate_matching_pipe_ok:
  assumes ok: "dist_ok d" and i: "i < d_matching d"
  defines "p \<equiv> arr_items (d_pipes d) ! i"
  obtains d' where "deactivate_matching_pipe i d = Some d'" "dist_ok d'" "all_pipes d' = all_pipes d"
    "eligible d' = eligible d - {p}" "active d' = active d - {p}" "matching d' = matching d - {p}" "d_more d' = d_more d"
    "take i (arr_items (d_pipes d')) = take i (arr_items (d_pipes d))"
proof -
  have ap: "arr_ok (d_pipes d)" and le: "d_matching d \<le> d_active d" "d_active d \<le> d_eligible d" "d_eligible d \<le> d_size d"
    using ok by (auto simp: dist_ok_def)
  have ix: "i < d_size d" using i le by simp
  have idx: "arr_index p (d_pipes d) = i" unfolding p_def by (rule arr_ok_index_nth [OF ap ix])
  have p: "p \<in> all_pipes d" unfolding p_def all_pipes_def using ix by (rule nth_mem)
  have c1: "arr_index p (d_pipes d) < d_matching d" "d_matching d \<le> d_size d" using i idx le by auto
  obtain a where a: "d_swap (arr_index p (d_pipes d)) (d_matching d - 1) d = Some (d\<lparr>d_pipes := a\<rparr>)"
      "arr_ok a" "set (arr_items a) = all_pipes d" "arr_size a = d_size d" "apre (d_matching d - 1) a = pre (d_matching d) d - {p}"
      "\<forall>m. d_matching d \<le> m \<or> m \<le> arr_index p (d_pipes d) \<longrightarrow> apre m a = pre m d" "arr_index p a = d_matching d - 1"
    by (rule d_demote [OF ap p c1])
  let ?e = "d\<lparr>d_pipes := a, d_matching := d_matching d - 1\<rparr>"
  have c2: "arr_ok (d_pipes ?e)" "p \<in> all_pipes ?e" "arr_index p (d_pipes ?e) < d_active d" "d_active d \<le> d_size ?e"
    using a p i le by (auto simp: all_pipes_def)
  obtain b where b: "d_swap (arr_index p (d_pipes ?e)) (d_active d - 1) ?e = Some (?e\<lparr>d_pipes := b\<rparr>)"
      "arr_ok b" "set (arr_items b) = all_pipes ?e" "arr_size b = d_size ?e" "apre (d_active d - 1) b = pre (d_active d) ?e - {p}"
      "\<forall>m. d_active d \<le> m \<or> m \<le> arr_index p (d_pipes ?e) \<longrightarrow> apre m b = pre m ?e" "arr_index p b = d_active d - 1"
    by (rule d_demote [OF c2])
  let ?f = "?e\<lparr>d_pipes := b, d_active := d_active d - 1\<rparr>"
  have c3: "arr_ok (d_pipes ?f)" "p \<in> all_pipes ?f" "arr_index p (d_pipes ?f) < d_eligible d" "d_eligible d \<le> d_size ?f"
    using a b p i le by (auto simp: all_pipes_def)
  obtain c where c: "d_swap (arr_index p (d_pipes ?f)) (d_eligible d - 1) ?f = Some (?f\<lparr>d_pipes := c\<rparr>)"
      "arr_ok c" "set (arr_items c) = all_pipes ?f" "arr_size c = d_size ?f" "apre (d_eligible d - 1) c = pre (d_eligible d) ?f - {p}"
      "\<forall>m. d_eligible d \<le> m \<or> m \<le> arr_index p (d_pipes ?f) \<longrightarrow> apre m c = pre m ?f" "arr_index p c = d_eligible d - 1"
    by (rule d_demote [OF c3])
  let ?d' = "?f\<lparr>d_pipes := c, d_eligible := d_eligible d - 1\<rparr>"
  have "deactivate_matching_pipe i d = Some ?d'"
    using i idx a(1,7) b(1,7) c(1) by (simp add: deactivate_matching_pipe_def)
  moreover have "dist_ok ?d'" using ok i le a(4) b(4) c(2,4) by (auto simp: dist_ok_def)
  moreover have "matching ?d' = matching d - {p}" "active ?d' = active d - {p}" "eligible ?d' = eligible d - {p}"
    "all_pipes ?d' = all_pipes d"
    using a b c le i by (simp_all add: view_defs)
  moreover have "take i (arr_items c) = take i (arr_items (d_pipes d))"
    using d_swap_items [OF a(1)] d_swap_items [OF b(1)] d_swap_items [OF c(1)] idx a(7) b(7) i le
    by (simp add: take_swap_list)
  ultimately show ?thesis using that by simp
qed

text \<open>\<open>activated\<close> expects a pipe that is not eligible. For an eligible one, the first passive pipe
  becomes eligible instead.\<close>

lemma activated_eligible_swaps:
  assumes ok: "dist_ok d" and nm: "\<not> d_more d" and p: "p \<in> eligible d" and ps: "d_eligible d < d_size d"
  obtains d' where "dist_activated p d = Some d'"
    "eligible d' = insert (arr_items (d_pipes d) ! d_eligible d) (eligible d)"
proof -
  have ap: "arr_ok (d_pipes d)" and ae: "d_active d = d_eligible d" using ok nm by (auto simp: dist_ok_def)
  have pa: "p \<in> all_pipes d" using p by (auto simp: view_defs dest: in_set_takeD)
  let ?i = "arr_index p (d_pipes d)" and ?n = "d_eligible d"
  have i: "?i < ?n" using d_index [OF ok pa, of ?n] p ps by (simp add: view_defs)
  have ii: "?i < d_size d" using i ps by simp
  obtain a where a: "arr_swap ?i ?n (d_pipes d) = Some a" "arr_ok a" "arr_items a = swap_list (arr_items (d_pipes d)) ?i ?n"
    using arr_swap_ok [OF ap ii ps] by blast
  have sw: "d_swap ?i ?n d = Some (d\<lparr>d_pipes := a\<rparr>)" using a(1) by (simp add: d_swap_def)
  have sa: "apre (Suc ?n) a = pre (Suc ?n) d" unfolding a(3) using i by (intro set_take_swap_same ii ps) simp
  have s: "pre (Suc ?n) d = insert (arr_items (d_pipes d) ! ?n) (eligible d)"
    using ps by (simp add: take_Suc_conv_app_nth eligible_def)
  let ?d1 = "d\<lparr>d_pipes := a, d_eligible := ?n + 1\<rparr>"
  have n: "?n \<le> ?n" "?n < d_size ?d1" and ap1: "arr_ok (d_pipes ?d1)" using ps a by auto
  obtain b where b: "d_swap ?n ?n ?d1 = Some (?d1\<lparr>d_pipes := b\<rparr>)"
      "\<forall>m. m \<le> ?n \<or> ?n < m \<longrightarrow> apre m b = pre m ?d1"
    by (rule d_promote [OF ap1 n])
  have "dist_activated p d = Some (?d1\<lparr>d_pipes := b, d_active := ?n + 1\<rparr>)"
    using sw a(3) b(1) ps nm ae by (simp add: dist_activated_def)
  moreover have "eligible (?d1\<lparr>d_pipes := b, d_active := ?n + 1\<rparr>) = insert (arr_items (d_pipes d) ! ?n) (eligible d)"
    using b(2) sa s by (simp add: eligible_def)
  ultimately show ?thesis using that by blast
qed


subsection \<open>Fan-out\<close>

text \<open>The effect of offering a message to a list of pipes, one after the other: who accepted it, who
  refused it.\<close>

definition offer_one ::
    "('p, 'w) pipe_ops \<Rightarrow> hmsg \<Rightarrow> bool \<Rightarrow> bool \<Rightarrow> 'p \<Rightarrow> heap \<times> 'w \<Rightarrow> bool \<times> heap \<times> 'w" where
  "offer_one ops m admitted mid p hw =
     (let (h, w) = hw;
          (ok, w1) = (if admitted then po_write_admitted ops p m h w
                      else if has_more m then po_write_more ops p m h w
                      else po_write_single ops p m h w)
      in if ok then (True, h, w1)
         else (False, if mid then po_rollback ops p (h, w1) else (h, w1)))"

fun offer_all ::
    "('p, 'w) pipe_ops \<Rightarrow> hmsg \<Rightarrow> bool \<Rightarrow> bool \<Rightarrow> 'p list \<Rightarrow> heap \<times> 'w \<Rightarrow> 'p set \<times> 'p set \<times> heap \<times> 'w" where
  "offer_all ops m admitted mid [] hw = ({}, {}, hw)"
| "offer_all ops m admitted mid (p # ps) hw =
     (let (ok, hw1) = offer_one ops m admitted mid p hw;
          (acc, ref, hw2) = offer_all ops m admitted mid ps hw1
      in if ok then (insert p acc, ref, hw2) else (acc, insert p ref, hw2))"

lemma offer_all_partition:
  "offer_all ops m admitted mid ps hw = (acc, ref, hw') \<Longrightarrow> distinct ps \<Longrightarrow>
     acc \<union> ref = set ps \<and> acc \<inter> ref = {}"
proof (induction ps arbitrary: hw acc ref)
  case (Cons p ps)
  obtain ok hw1 where 1: "offer_one ops m admitted mid p hw = (ok, hw1)" by (metis surj_pair)
  obtain acc' ref' where 2: "offer_all ops m admitted mid ps hw1 = (acc', ref', hw')"
    using Cons.prems(1) 1 by (auto simp: Let_def split: prod.splits if_splits)
  then show ?case using Cons.IH [OF 2] Cons.prems 1 by (auto split: if_splits)
qed auto

lemma write_at_eq:
  assumes ok: "dist_ok d" and i: "i < d_matching d"
  defines "p \<equiv> arr_items (d_pipes d) ! i"
  shows "dist_write_at ops i m admitted d hw =
     (case offer_one ops m admitted (d_more d) p hw of
        (True, hw') \<Rightarrow> Some (True, d, hw')
      | (False, hw') \<Rightarrow> map_option (\<lambda>d'. (False, d', hw')) (deactivate_matching_pipe i d))"
proof -
  have "arr_get i (d_pipes d) = Some p" using ok i by (simp add: dist_ok_def arr_get_def p_def)
  then show ?thesis by (auto simp: dist_write_at_def offer_one_def Let_def split: prod.splits)
qed

lemma nth_in_matching:
  assumes ok: "dist_ok d" and i: "i < d_matching d"
  shows "arr_items (d_pipes d) ! i \<in> matching d" "arr_items (d_pipes d) ! i \<notin> pre i d"
proof -
  have le: "d_matching d \<le> d_size d" and "arr_ok (d_pipes d)" using ok by (auto simp: dist_ok_def)
  then have "distinct (take (Suc i) (arr_items (d_pipes d)))" by (simp add: arr_ok_def)
  then show "arr_items (d_pipes d) ! i \<notin> pre i d" using i le by (simp add: take_Suc_conv_app_nth)
  show "arr_items (d_pipes d) ! i \<in> matching d" using i le by (auto simp: matching_def in_set_conv_nth intro!: exI [of _ i])
qed

text \<open>The loop offers the message exactly once to every matching pipe from the index on, in some
  order; those that refuse leave the sets, the others stay.\<close>

lemma write_loop_ok:
  assumes "dist_ok d" "i \<le> d_matching d"
  shows "\<exists>ps acc ref d' hw'. distinct ps \<and> set ps = matching d - pre i d
    \<and> offer_all ops m admitted (d_more d) ps hw = (acc, ref, hw')
    \<and> write_loop ops m admitted i failed d hw = Some (failed + card ref, d', hw') \<and> dist_ok d'
    \<and> all_pipes d' = all_pipes d \<and> eligible d' = eligible d - ref \<and> active d' = active d - ref
    \<and> matching d' = matching d - ref \<and> d_more d' = d_more d"
  using assms
proof (induction ops m admitted i failed d hw rule: write_loop.induct)
  case (1 ops m admitted i failed d hw)
  note ok = 1(3)
  show ?case
  proof (cases "i < d_matching d")
    case False
    then have "i = d_matching d" using 1(4) by simp
    moreover have "write_loop ops m admitted i failed d hw = Some (failed, d, hw)"
      using False by (simp add: write_loop.simps [of _ _ _ i])
    ultimately show ?thesis using ok
      by (intro exI [of _ "[]"] exI [of _ "{}"] exI [of _ d] exI [of _ hw]) (simp add: matching_def)
  next
    case True
    let ?p = "arr_items (d_pipes d) ! i"
    have le: "d_matching d \<le> d_size d" and ap: "arr_ok (d_pipes d)" using ok by (auto simp: dist_ok_def)
    have pre_Suc: "pre (Suc i) d = insert ?p (pre i d)" using True le by (simp add: take_Suc_conv_app_nth)
    have pm: "?p \<in> matching d" "?p \<notin> pre i d" using nth_in_matching [OF ok True] by auto
    obtain b hw1 where off: "offer_one ops m admitted (d_more d) ?p hw = (b, hw1)" by (metis surj_pair)
    show ?thesis
    proof (cases b)
      case b: True
      then have w: "dist_write_at ops i m admitted d hw = Some (True, d, hw1)" using write_at_eq [OF ok True, of ops m admitted hw] off by simp
      obtain ps acc ref d' hw' where r: "distinct ps" "set ps = matching d - pre (Suc i) d"
          "offer_all ops m admitted (d_more d) ps hw1 = (acc, ref, hw')"
          "write_loop ops m admitted (Suc i) failed d hw1 = Some (failed + card ref, d', hw')" "dist_ok d'"
          "all_pipes d' = all_pipes d" "eligible d' = eligible d - ref" "active d' = active d - ref"
          "matching d' = matching d - ref" "d_more d' = d_more d"
        using 1(1) [OF True w refl refl] ok True b by auto
      have "write_loop ops m admitted i failed d hw = Some (failed + card ref, d', hw')"
        using r(4) True w by (simp add: write_loop.simps [of _ _ _ i])
      moreover have "set (?p # ps) = matching d - pre i d" using r(2) pre_Suc pm by auto
      moreover have "distinct (?p # ps)" using r(1,2) pre_Suc by simp
      moreover have "offer_all ops m admitted (d_more d) (?p # ps) hw = (insert ?p acc, ref, hw')" using off b r(3) by simp
      ultimately show ?thesis using r by (intro exI [of _ "?p # ps"]) auto
    next
      case b: False
      obtain e where e: "deactivate_matching_pipe i d = Some e" "dist_ok e" "all_pipes e = all_pipes d"
          "eligible e = eligible d - {?p}" "active e = active d - {?p}" "matching e = matching d - {?p}" "d_more e = d_more d"
          "take i (arr_items (d_pipes e)) = take i (arr_items (d_pipes d))"
        by (rule deactivate_matching_pipe_ok [OF ok True])
      have w: "dist_write_at ops i m admitted d hw = Some (False, e, hw1)" using write_at_eq [OF ok True, of ops m admitted hw] off b e(1) by simp
      have ie: "i \<le> d_matching e" using deactivate_matching [OF e(1)] True by simp
      obtain ps acc ref d' hw' where r: "distinct ps" "set ps = matching e - pre i e"
          "offer_all ops m admitted (d_more e) ps hw1 = (acc, ref, hw')"
          "write_loop ops m admitted i (Suc failed) e hw1 = Some (Suc failed + card ref, d', hw')" "dist_ok d'"
          "all_pipes d' = all_pipes e" "eligible d' = eligible e - ref" "active d' = active e - ref"
          "matching d' = matching e - ref" "d_more d' = d_more e"
        using 1(2) [OF True w refl refl] e(2) ie b by auto
      have ps: "set (?p # ps) = matching d - pre i d" "distinct (?p # ps)" using r(1,2) e(6,8) pm by auto
      have off': "offer_all ops m admitted (d_more d) (?p # ps) hw = (acc, insert ?p ref, hw')" using off b r(3) e(7) by simp
      have "?p \<notin> ref" using offer_all_partition [OF r(3,1)] ps(2) by auto
      moreover have "finite ref" using offer_all_partition [OF r(3,1)] by (metis List.finite_set finite_Un)
      ultimately have "write_loop ops m admitted i failed d hw = Some (failed + card (insert ?p ref), d', hw')"
        using r(4) True w by (simp add: write_loop.simps [of _ _ _ i])
      then show ?thesis using r e ps off' by (intro exI [of _ "?p # ps"]) auto
    qed
  qed
qed


subsection \<open>Reference accounting of the fan-out\<close>

text \<open>What the distributor relies on from the pipes: \<open>held\<close> are the messages in their queues. A write
  that is accepted puts the message, bitwise, into a queue; one that is refused does not; a rollback
  closes the messages it takes out.\<close>

definition pipes_hold :: "('p, 'w) pipe_ops \<Rightarrow> ('w \<Rightarrow> hmsg multiset) \<Rightarrow> bool" where
  "pipes_hold ops held \<longleftrightarrow>
     (\<forall>p m h w ok w'. po_write_admitted ops p m h w = (ok, w') \<or> po_write_more ops p m h w = (ok, w')
          \<or> po_write_single ops p m h w = (ok, w') \<longrightarrow>
        held w' = (if ok then add_mset m (held w) else held w))
     \<and> (\<forall>p h w h' w' M. po_rollback ops p (h, w) = (h', w') \<longrightarrow> heap_ok h (held w + M) \<longrightarrow> heap_ok h' (held w' + M))"

lemma offer_one_holds:
  assumes ph: "pipes_hold ops held" and off: "offer_one ops m admitted mid p (h, w) = (ok, h', w')"
    and ok: "heap_ok h (held w + (replicate_mset (Suc n) m + M))"
  shows "heap_ok h' (held w' + (replicate_mset (if ok then n else Suc n) m + M))"
proof -
  obtain b w1 where b: "(if admitted then po_write_admitted ops p m h w else if has_more m then po_write_more ops p m h w
      else po_write_single ops p m h w) = (b, w1)" by (metis surj_pair)
  have h1: "held w1 = (if b then add_mset m (held w) else held w)"
    using ph b unfolding pipes_hold_def by (metis (full_types))
  show ?thesis
  proof (cases b)
    case True
    then have "ok" "h' = h" "w' = w1" using off b by (auto simp: offer_one_def)
    then show ?thesis using h1 True ok by simp
  next
    case False
    then have no: "\<not> ok" and r: "(h', w') = (if mid then po_rollback ops p (h, w1) else (h, w1))"
      using off b by (auto simp: offer_one_def split: if_splits)
    have hk: "heap_ok h (held w1 + (replicate_mset (Suc n) m + M))" using ok h1 False by simp
    have law: "po_rollback ops p (h, w1) = (h', w') \<Longrightarrow> heap_ok h' (held w' + (replicate_mset (Suc n) m + M))"
      using ph hk unfolding pipes_hold_def by blast
    have "heap_ok h' (held w' + (replicate_mset (Suc n) m + M))"
      using r law hk by (cases mid) simp_all
    then show ?thesis using no by simp
  qed
qed

lemma offer_all_holds:
  assumes ph: "pipes_hold ops held" and "distinct ps" "offer_all ops m admitted mid ps (h, w) = (acc, ref, h', w')"
    and "heap_ok h (held w + (replicate_mset (n + length ps) m + M))"
  shows "heap_ok h' (held w' + (replicate_mset (n + card ref) m + M)) \<and> card ref \<le> length ps"
  using assms(2-)
proof (induction ps arbitrary: h w n acc ref)
  case (Cons p ps)
  obtain ok h1 w1 where 1: "offer_one ops m admitted mid p (h, w) = (ok, h1, w1)" by (metis prod_cases3)
  obtain acc' ref' where 2: "offer_all ops m admitted mid ps (h1, w1) = (acc', ref', h', w')"
    and ref: "ref = (if ok then ref' else insert p ref')"
    using Cons.prems(2) 1 by (auto simp: Let_def split: prod.splits if_splits)
  have "heap_ok h1 (held w1 + (replicate_mset (if ok then n + length ps else Suc (n + length ps)) m + M))"
    using offer_one_holds [OF ph 1, of "n + length ps" M] Cons.prems(3) by simp
  then have "heap_ok h1 (held w1 + (replicate_mset ((if ok then n else Suc n) + length ps) m + M))"
    by (cases ok) simp_all
  from Cons.IH [OF _ 2 this] Cons.prems(1)
  have ih: "heap_ok h' (held w' + (replicate_mset ((if ok then n else Suc n) + card ref') m + M))" "card ref' \<le> length ps" by auto
  have part: "acc' \<union> ref' = set ps" using offer_all_partition [OF 2] Cons.prems(1) by simp
  then have "p \<notin> ref'" "finite ref'" using Cons.prems(1) by (auto intro: finite_subset [of ref' "set ps"])
  then show ?case using ih ref by (cases ok) auto
qed simp

text \<open>What a fan-out does, whichever path of \<open>distribute\<close> was taken: a copy of the message was offered
  exactly once to each matching pipe, those that refused it left the sets, and all references are
  accounted for.\<close>

definition fanned_out ::
    "('p, 'w) pipe_ops \<Rightarrow> ('w \<Rightarrow> hmsg multiset) \<Rightarrow> hmsg multiset \<Rightarrow> hmsg \<Rightarrow> bool \<Rightarrow> 'p dist \<Rightarrow> 'w \<Rightarrow> 'p dist \<Rightarrow> heap \<Rightarrow> 'w \<Rightarrow> bool" where
  "fanned_out ops held M m admitted d w d' h' w' \<longleftrightarrow>
     (\<exists>ps acc ref m' h1 h2. distinct ps \<and> set ps = matching d \<and> (m' = m \<or> m' = shared_copy m)
        \<and> offer_all ops m' admitted (d_more d) ps (h1, w) = (acc, ref, h2, w')
        \<and> dist_ok d' \<and> all_pipes d' = all_pipes d \<and> eligible d' = eligible d - ref
        \<and> active d' = active d - ref \<and> matching d' = matching d - ref \<and> d_more d' = d_more d)
     \<and> heap_ok h' (held w' + M)"

lemma matching_card: "dist_ok d \<Longrightarrow> card (matching d) = d_matching d"
  using arr_pre_card [of "d_pipes d" "d_matching d"] by (simp add: dist_ok_def matching_def)

lemma close_checked_ok:
  assumes "heap_ok h (add_mset m M)" "hm_valid m"
  obtains h' where "close_checked pool_max m h = Some h'" "heap_ok h' M"
  using msg_close_releases [OF assms, of pool_max] that by (auto simp: close_checked_def)

lemma heap_ok_replicate_no_refs:
  assumes "body_addr m = None" "group_addr m = None" "msg_ok h m"
  shows "heap_ok h (replicate_mset n m + X) \<longleftrightarrow> heap_ok h X"
  by (induction n) (simp_all add: heap_ok_no_refs [OF assms])


lemma fanned_outI:
  assumes "distinct ps" "set ps = matching d" "m' = m \<or> m' = shared_copy m"
    "offer_all ops m' admitted (d_more d) ps (h1, w) = (acc, ref, h2, w')"
    "dist_ok d'" "all_pipes d' = all_pipes d" "eligible d' = eligible d - ref"
    "active d' = active d - ref" "matching d' = matching d - ref" "d_more d' = d_more d" "heap_ok h' (held w' + M)"
  shows "fanned_out ops held M m admitted d w d' h' w'"
  unfolding fanned_out_def using assms by blast

lemma write_loop_holds:
  assumes ok: "dist_ok d" and ph: "pipes_hold ops held"
    and hk: "heap_ok h (held w + (replicate_mset (d_matching d) m + M))"
  obtains ps acc ref d' h' w' where "distinct ps" "set ps = matching d"
    "offer_all ops m admitted (d_more d) ps (h, w) = (acc, ref, h', w')"
    "write_loop ops m admitted 0 0 d (h, w) = Some (card ref, d', h', w')" "dist_ok d'"
    "all_pipes d' = all_pipes d" "eligible d' = eligible d - ref" "active d' = active d - ref"
    "matching d' = matching d - ref" "d_more d' = d_more d" "heap_ok h' (held w' + (replicate_mset (card ref) m + M))"
proof -
  obtain ps acc ref d' hw' where r: "distinct ps" "set ps = matching d - pre 0 d"
      "offer_all ops m admitted (d_more d) ps (h, w) = (acc, ref, hw')"
      "write_loop ops m admitted 0 0 d (h, w) = Some (0 + card ref, d', hw')" "dist_ok d'"
      "all_pipes d' = all_pipes d" "eligible d' = eligible d - ref" "active d' = active d - ref"
      "matching d' = matching d - ref" "d_more d' = d_more d"
    using write_loop_ok [OF ok, of 0 ops m admitted "(h, w)" 0] by auto
  obtain h' w' where hw': "hw' = (h', w')" by (rule prod.exhaust)
  have "length ps = d_matching d" using r(1,2) matching_card [OF ok] distinct_card [of ps] by simp
  then have "heap_ok h (held w + (replicate_mset (0 + length ps) m + M))" using hk by simp
  then have "heap_ok h' (held w' + (replicate_mset (card ref) m + M))"
    using offer_all_holds [OF ph r(1) r(3) [unfolded hw']] by (metis add_0)
  then show ?thesis using that [of ps acc ref h' w' d'] r hw' by simp
qed

lemma msg_ok_vsm: "hm_body m = Vsm bs \<Longrightarrow> msg_ok h m \<longleftrightarrow> length bs \<le> max_vsm_size"
  by (simp add: msg_ok_def)

lemma add_refs_fan_out:
  assumes "heap_ok h (add_mset m X)" "few h (add_mset m X) k"
  obtains m' h' where "add_refs k m h = Some (m', h')" "m' = m \<or> m' = shared_copy m"
    "heap_ok h' (replicate_mset (Suc k) m' + X)"
proof (cases "k = 0")
  case True
  then show ?thesis using that [of m h] assms by (simp add: add_refs_def)
next
  case False
  then show ?thesis using add_refs_shares [OF assms(1) few_room [OF assms(2)]] that by blast
qed

lemma distribute_single:
  assumes ok: "dist_ok d" and ph: "pipes_hold ops held" and v: "hm_valid m" and one: "d_matching d = 1"
    and hk: "heap_ok h (add_mset m (held w + M))"
  shows "\<exists>d' h' w'. (case dist_write_at ops 0 m admitted d (h, w) of
             None \<Rightarrow> None
           | Some (True, d', h1, w1) \<Rightarrow> Some (d', h1, w1)
           | Some (False, d', h1, w1) \<Rightarrow> map_option (\<lambda>h'. (d', h', w1)) (close_checked pool_max m h1)) = Some (d', h', w')
     \<and> fanned_out ops held M m admitted d w d' h' w'"
proof -
  let ?p = "arr_items (d_pipes d) ! 0"
  obtain b h1 w1 where off: "offer_one ops m admitted (d_more d) ?p (h, w) = (b, h1, w1)" by (metis surj_pair)
  have mp: "matching d = {?p}" using ok one by (cases "arr_items (d_pipes d)") (auto simp: matching_def dist_ok_def)
  have hk1: "heap_ok h1 (held w1 + (replicate_mset (if b then 0 else Suc 0) m + M))"
    using offer_one_holds [OF ph off, of 0 M] hk by (simp add: ac_simps)
  have i: "0 < d_matching d" using one by simp
  note wa = write_at_eq [OF ok i, of ops m admitted "(h, w)", unfolded off]
  show ?thesis
  proof (cases b)
    case True
    have "fanned_out ops held M m admitted d w d h1 w1"
      using off True hk1 ok mp by (intro fanned_outI [of "[?p]" _ m m _ _ h _ "{?p}" "{}" h1]) simp_all
    then show ?thesis using wa True by simp
  next
    case False
    obtain e where e: "deactivate_matching_pipe 0 d = Some e" "dist_ok e" "all_pipes e = all_pipes d"
        "eligible e = eligible d - {?p}" "active e = active d - {?p}" "matching e = matching d - {?p}" "d_more e = d_more d"
      by (rule deactivate_matching_pipe_ok [OF ok i])
    have "heap_ok h1 (add_mset m (held w1 + M))" using hk1 False by (simp add: ac_simps)
    then obtain h' where h': "close_checked pool_max m h1 = Some h'" "heap_ok h' (held w1 + M)"
      by (rule close_checked_ok [OF _ v])
    have "fanned_out ops held M m admitted d w e h' w1"
      using off False e h'(2) mp by (intro fanned_outI [of "[?p]" _ m m _ _ h _ "{}" "{?p}" h1]) simp_all
    then show ?thesis using wa False e(1) h'(1) by simp
  qed
qed

lemma distribute_copies:
  assumes ok: "dist_ok d" and ph: "pipes_hold ops held" and vsm: "hm_body m = Vsm bs" "\<not> has_long_group m"
    and hk: "heap_ok h (add_mset m (held w + M))"
  shows "\<exists>d' h' w'. map_option snd (write_loop ops m admitted 0 0 d (h, w)) = Some (d', h', w')
     \<and> fanned_out ops held M m admitted d w d' h' w'"
proof -
  have a: "body_addr m = None" "group_addr m = None"
    using vsm by (auto simp: body_addr_def group_addr_def has_long_group_def split: auxiliary.splits)
  have mok: "msg_ok x m" for x using hk vsm(1) by (simp add: heap_ok_def msg_ok_vsm)
  note free = heap_ok_replicate_no_refs [OF a mok]
  have "heap_ok h (replicate_mset (d_matching d) m + (held w + M))"
    using hk heap_ok_no_refs [OF a mok] free by blast
  then have "heap_ok h (held w + (replicate_mset (d_matching d) m + M))" by (simp add: ac_simps)
  from write_loop_holds [OF ok ph this, of admitted] obtain ps acc ref d' h' w' where r: "distinct ps" "set ps = matching d"
    "offer_all ops m admitted (d_more d) ps (h, w) = (acc, ref, h', w')"
    "write_loop ops m admitted 0 0 d (h, w) = Some (card ref, d', h', w')" "dist_ok d'"
    "all_pipes d' = all_pipes d" "eligible d' = eligible d - ref" "active d' = active d - ref"
    "matching d' = matching d - ref" "d_more d' = d_more d" "heap_ok h' (held w' + (replicate_mset (card ref) m + M))"
    by metis
  have "heap_ok h' (held w' + M)" using r(11) free [of h' "card ref" "held w' + M"] by (simp add: ac_simps)
  with r show ?thesis by (auto intro: fanned_outI [of ps d m m ops admitted h w acc ref h'])
qed

lemma distribute_shared:
  assumes ok: "dist_ok d" and ph: "pipes_hold ops held" and v: "hm_valid m" and some: "0 < d_matching d"
    and hk: "heap_ok h (add_mset m (held w + M))" and few: "few h (add_mset m (held w + M)) (d_matching d - 1)"
  shows "\<exists>d' h' w'. (case add_refs (d_matching d - 1) m h of
             None \<Rightarrow> None
           | Some (m', h1) \<Rightarrow>
               (case write_loop ops m' admitted 0 0 d (h1, w) of
                  None \<Rightarrow> None
                | Some (failed, d', h2, w2) \<Rightarrow>
                    if failed \<noteq> 0 then map_option (\<lambda>(_, h3). (d', h3, w2)) (rm_refs pool_max failed m' h2)
                    else Some (d', h2, w2))) = Some (d', h', w')
     \<and> fanned_out ops held M m admitted d w d' h' w'"
proof -
  obtain m' h1 where m': "add_refs (d_matching d - 1) m h = Some (m', h1)" "m' = m \<or> m' = shared_copy m"
      "heap_ok h1 (replicate_mset (Suc (d_matching d - 1)) m' + (held w + M))"
    by (rule add_refs_fan_out [OF hk few])
  have v': "hm_valid m'" using m'(2) v by auto
  have "heap_ok h1 (held w + (replicate_mset (d_matching d) m' + M))" using m'(3) some by (simp add: ac_simps)
  from write_loop_holds [OF ok ph this, of admitted] obtain ps acc ref d' h2 w' where r: "distinct ps" "set ps = matching d"
    "offer_all ops m' admitted (d_more d) ps (h1, w) = (acc, ref, h2, w')"
    "write_loop ops m' admitted 0 0 d (h1, w) = Some (card ref, d', h2, w')" "dist_ok d'"
    "all_pipes d' = all_pipes d" "eligible d' = eligible d - ref" "active d' = active d - ref"
    "matching d' = matching d - ref" "d_more d' = d_more d" "heap_ok h2 (held w' + (replicate_mset (card ref) m' + M))"
    by metis
  have "heap_ok h2 (replicate_mset (card ref + 0) m' + (held w' + M))" using r(11) by (simp add: ac_simps)
  from rm_refs_releases [OF this v', of pool_max] obtain alive h' where
    h': "rm_refs pool_max (card ref) m' h2 = Some (alive, h')" "heap_ok h' (held w' + M)" by auto
  have f: "fanned_out ops held M m admitted d w d' x w'" if "heap_ok x (held w' + M)" for x
    using r m'(2) that by (intro fanned_outI [of ps d m' m ops admitted h1 w acc ref h2])
  show ?thesis
  proof (cases "card ref = 0")
    case True
    then show ?thesis using m'(1) r(4,11) f [of h2] by simp
  next
    case False
    then show ?thesis using m'(1) r(4) h' f [of h'] by simp
  qed
qed

lemma dist_distribute_ok:
  assumes ok: "dist_ok d" and ph: "pipes_hold ops held" and v: "hm_valid m"
    and hk: "heap_ok h (add_mset m (held w + M))" and few: "few h (add_mset m (held w + M)) (d_matching d - 1)"
  shows "\<exists>d' h' w'. dist_distribute pool_max ops m admitted d (h, w) = Some (d', h', w')
     \<and> fanned_out ops held M m admitted d w d' h' w'"
proof -
  consider (none) "d_matching d = 0"
    | (single) "d_matching d = 1" "d_active d = 1" "d_eligible d = 1"
    | (copies) bs where "d_matching d \<noteq> 0" "\<not> (d_matching d = 1 \<and> d_active d = 1 \<and> d_eligible d = 1)"
        "hm_body m = Vsm bs" "\<not> has_long_group m"
    | (shared) "d_matching d \<noteq> 0" "\<not> (d_matching d = 1 \<and> d_active d = 1 \<and> d_eligible d = 1)"
        "\<not> ((case hm_body m of Vsm _ \<Rightarrow> True | _ \<Rightarrow> False) \<and> \<not> has_long_group m)"
    by (cases "hm_body m") auto
  then show ?thesis
  proof cases
    case none
    obtain h' where h': "close_checked pool_max m h = Some h'" "heap_ok h' (held w + M)"
      by (rule close_checked_ok [OF hk v])
    have "fanned_out ops held M m admitted d w d h' w"
      using none ok h'(2) by (intro fanned_outI [of "[]" d m m ops admitted h w "{}" "{}" h]) (simp_all add: matching_def)
    then show ?thesis using none h'(1) by (simp add: dist_distribute_def)
  next
    case single
    then show ?thesis using distribute_single [OF ok ph v single(1) hk, of pool_max admitted]
      by (simp add: dist_distribute_def)
  next
    case copies
    then show ?thesis using distribute_copies [OF ok ph copies(3,4) hk, of admitted]
      by (simp only: dist_distribute_def prod.case copies payload.case if_False if_True simp_thms)
  next
    case shared
    then show ?thesis using distribute_shared [OF ok ph v shared(1) [unfolded neq0_conv] hk few, of pool_max admitted]
      by (simp only: dist_distribute_def prod.case shared if_False simp_thms)
  qed
qed



subsection \<open>Sending, withdrawing, admission\<close>

lemma rollback_pipes_holds:
  assumes ph: "pipes_hold ops held" and "heap_ok h (held w + M)" "rollback_pipes ops ps (h, w) = (h', w')"
  shows "heap_ok h' (held w' + M)"
  using assms(2-)
proof (induction ps arbitrary: h w)
  case (Cons p ps)
  obtain h1 w1 where r: "po_rollback ops p (h, w) = (h1, w1)" by (metis surj_pair)
  have "heap_ok h1 (held w1 + M)" using ph Cons.prems(1) r unfolding pipes_hold_def by blast
  then show ?case using Cons.IH [of h1 w1] Cons.prems(2) r by simp
qed simp

lemma dist_rollback_ok:
  assumes ok: "dist_ok d" and ph: "pipes_hold ops held" and hk: "heap_ok h (held w + M)"
  shows "\<exists>d' h' w'. dist_rollback ops d (h, w) = Some (d', h', w') \<and> dist_ok d' \<and> all_pipes d' = all_pipes d
    \<and> eligible d' = eligible d \<and> active d' = eligible d \<and> matching d' = {} \<and> \<not> d_more d' \<and> heap_ok h' (held w' + M)"
proof -
  obtain h' w' where r: "rollback_pipes ops (take (d_matching d) (arr_items (d_pipes d))) (h, w) = (h', w')"
    by (metis surj_pair)
  have "heap_ok h' (held w' + M)" by (rule rollback_pipes_holds [OF ph hk r])
  then show ?thesis using ok r by (auto simp: dist_rollback_def dist_ok_def view_defs)
qed

text \<open>Some pipe cannot take a frame of this size.\<close>

definition too_large :: "('p, 'w) pipe_ops \<Rightarrow> hmsg \<Rightarrow> bool \<Rightarrow> 'p dist \<Rightarrow> heap \<Rightarrow> 'w \<Rightarrow> bool" where
  "too_large ops m admitted d h w \<longleftrightarrow> admitted \<and> (\<exists>p \<in> matching d. po_frame_size ops p m h w \<noteq> Adm_ready)"

lemma dist_send_taken:
  assumes ok: "dist_ok d" and ph: "pipes_hold ops held" and v: "hm_valid m" and fits: "\<not> too_large ops m admitted d h w"
    and hk: "heap_ok h (add_mset m (held w + M))" and few: "few h (add_mset m (held w + M)) (d_matching d - 1)"
  shows "\<exists>d1 d' h' w'. dist_send_to_matching pool_max ops m admitted d (h, w) = Some (True, d', h', w')
    \<and> fanned_out ops held M m admitted d w d1 h' w' \<and> dist_ok d' \<and> all_pipes d' = all_pipes d1
    \<and> eligible d' = eligible d1 \<and> active d' = (if has_more m then active d1 else eligible d1)
    \<and> matching d' = matching d1 \<and> d_more d' = has_more m"
proof -
  obtain d1 h' w' where r: "dist_distribute pool_max ops m admitted d (h, w) = Some (d1, h', w')"
      "fanned_out ops held M m admitted d w d1 h' w'"
    using dist_distribute_ok [OF ok ph v hk few] by blast
  have ok1: "dist_ok d1" using r(2) by (auto simp: fanned_out_def)
  have "d_matching d \<le> d_size d" using ok by (simp add: dist_ok_def)
  then have s: "dist_send_to_matching pool_max ops m admitted d (h, w)
      = Some (True, (if has_more m then d1 else d1\<lparr>d_active := d_eligible d1\<rparr>)\<lparr>d_more := has_more m\<rparr>, h', w')"
    using fits r(1) by (auto simp: dist_send_to_matching_def too_large_def matching_def)
  show ?thesis
    by (intro exI [of _ d1] exI, rule conjI, rule s) (use r(2) ok1 in \<open>auto simp: dist_ok_def view_defs\<close>)
qed

lemma dist_send_refused:
  assumes ok: "dist_ok d" and ph: "pipes_hold ops held" and big: "too_large ops m admitted d h w"
    and hk: "heap_ok h (held w + M)"
  shows "\<exists>d' h' w'. dist_send_to_matching pool_max ops m admitted d (h, w) = Some (False, d', h', w')
    \<and> dist_ok d' \<and> all_pipes d' = all_pipes d \<and> eligible d' = eligible d \<and> active d' = eligible d
    \<and> \<not> d_more d' \<and> heap_ok h' (held w' + M)
    \<and> (if d_more d then matching d' = {} else matching d' = matching d \<and> (h', w') = (h, w))"
proof -
  have big': "admitted" "\<exists>p \<in> set (take (d_matching d) (arr_items (d_pipes d))). po_frame_size ops p m h w \<noteq> Adm_ready"
    using big by (auto simp: too_large_def matching_def)
  have le: "\<not> d_size d < d_matching d" using ok by (simp add: dist_ok_def)
  show ?thesis
  proof (cases "d_more d")
    case True
    from dist_rollback_ok [OF ok ph hk] obtain d' h' w' where
      r: "dist_rollback ops d (h, w) = Some (d', h', w')" "dist_ok d'" "all_pipes d' = all_pipes d"
        "eligible d' = eligible d" "active d' = eligible d" "matching d' = {}" "\<not> d_more d'" "heap_ok h' (held w' + M)" by blast
    then show ?thesis using True big' le by (simp add: dist_send_to_matching_def)
  next
    case False
    then have "active d = eligible d" using ok by (simp add: dist_ok_def view_defs)
    then show ?thesis using False big' le ok hk by (simp add: dist_send_to_matching_def)
  qed
qed

text \<open>Admission of a record: the pipes are asked one after the other.\<close>

fun ask_all :: "('p, 'w) pipe_ops \<Rightarrow> 'p list \<Rightarrow> 'w \<Rightarrow> (('p \<times> admission) list \<times> 'w)" where
  "ask_all ops [] w = ([], w)"
| "ask_all ops (p # ps) w =
     (let (c, w1) = po_check_hwm ops p w; (cs, w2) = ask_all ops ps w1 in ((p, c) # cs, w2))"

lemma ask_all_fst: "map fst (fst (ask_all ops ps w)) = ps"
  by (induction ps arbitrary: w) (auto simp: Let_def split: prod.splits, metis fst_conv)

definition unavailable :: "admission \<Rightarrow> bool" where
  "unavailable c \<longleftrightarrow> c = Adm_hwm_full \<or> c = Adm_transport_wait \<or> c = Adm_inactive"

definition hwm_dropped :: "bool \<Rightarrow> ('p \<times> admission) list \<Rightarrow> 'p set" where
  "hwm_dropped drop_full cs = {p. drop_full \<and> (\<exists>c. (p, c) \<in> set cs \<and> unavailable c)}"

definition judged :: "bool \<Rightarrow> admission \<Rightarrow> ('p \<times> admission) list \<Rightarrow> admission" where
  "judged drop_full r cs =
     fold (\<lambda>(_, c) r. merge_admission r c) (filter (\<lambda>(_, c). \<not> (drop_full \<and> unavailable c)) cs) r"

lemma hwm_dropped_Cons: "hwm_dropped df ((p, c) # cs) = (if df \<and> unavailable c then insert p (hwm_dropped df cs) else hwm_dropped df cs)"
  by (auto simp: hwm_dropped_def)

lemma judged_Cons:
  "judged df r ((p, c) # cs) = (if df \<and> unavailable c then judged df r cs else judged df (merge_admission r c) cs)"
  by (simp add: judged_def)

lemma hwm_loop_ok:
  assumes "dist_ok d" "i \<le> d_matching d"
  shows "\<exists>ps cs w' d'. distinct ps \<and> set ps = matching d - pre i d \<and> ask_all ops ps w = (cs, w')
    \<and> hwm_loop ops df i r d w = Some (judged df r cs, d', w') \<and> dist_ok d' \<and> all_pipes d' = all_pipes d
    \<and> eligible d' = eligible d - hwm_dropped df cs \<and> active d' = active d - hwm_dropped df cs
    \<and> matching d' = matching d - hwm_dropped df cs \<and> d_more d' = d_more d \<and> (\<not> df \<longrightarrow> d' = d)"
  using assms
proof (induction ops df i r d w rule: hwm_loop.induct)
  case (1 ops df i r d w)
  note ok = 1(3)
  show ?case
  proof (cases "i < d_matching d")
    case False
    then have "i = d_matching d" using 1(4) by simp
    moreover have "hwm_loop ops df i r d w = Some (r, d, w)" using False by (simp add: hwm_loop.simps [of _ _ i])
    ultimately show ?thesis using ok
      by (intro exI [of _ "[]"] exI [of _ w] exI [of _ d]) (simp add: matching_def hwm_dropped_def judged_def)
  next
    case True
    let ?p = "arr_items (d_pipes d) ! i"
    have le: "d_matching d \<le> d_size d" and ap: "arr_ok (d_pipes d)" using ok by (auto simp: dist_ok_def)
    have pre_Suc: "pre (Suc i) d = insert ?p (pre i d)" using True le by (simp add: take_Suc_conv_app_nth)
    have pm: "?p \<in> matching d" "?p \<notin> pre i d" using nth_in_matching [OF ok True] by auto
    have get: "arr_get i (d_pipes d) = Some ?p" using True le by (simp add: arr_get_def)
    obtain c w1 where c: "po_check_hwm ops ?p w = (c, w1)" by (metis surj_pair)
    show ?thesis
    proof (cases "df \<and> unavailable c")
      case dr: True
      obtain e where e: "deactivate_matching_pipe i d = Some e" "dist_ok e" "all_pipes e = all_pipes d"
          "eligible e = eligible d - {?p}" "active e = active d - {?p}" "matching e = matching d - {?p}" "d_more e = d_more d"
          "take i (arr_items (d_pipes e)) = take i (arr_items (d_pipes d))"
        by (rule deactivate_matching_pipe_ok [OF ok True])
      have ie: "i \<le> d_matching e" using deactivate_matching [OF e(1)] True by simp
      obtain ps cs w' d' where q: "distinct ps" "set ps = matching e - pre i e" "ask_all ops ps w1 = (cs, w')"
          "hwm_loop ops df i r e w1 = Some (judged df r cs, d', w')" "dist_ok d'" "all_pipes d' = all_pipes e"
          "eligible d' = eligible e - hwm_dropped df cs" "active d' = active e - hwm_dropped df cs"
          "matching d' = matching e - hwm_dropped df cs" "d_more d' = d_more e"
        using 1(1) [OF True get refl c [symmetric] _ e(1)] dr e(2) ie unfolding unavailable_def by metis
      have "hwm_loop ops df i r d w = Some (judged df r cs, d', w')"
        using q(4) True get c e(1) dr by (simp add: hwm_loop.simps [of _ _ i] unavailable_def)
      moreover have "set (?p # ps) = matching d - pre i d" "distinct (?p # ps)" using q(1,2) e(6,8) pm by auto
      moreover have "ask_all ops (?p # ps) w = ((?p, c) # cs, w')" using c q(3) by simp
      ultimately show ?thesis using q e dr
        by (intro exI [of _ "?p # ps"] exI [of _ "(?p, c) # cs"] exI [of _ w'] exI [of _ d'])
          (auto simp: hwm_dropped_Cons judged_Cons)
    next
      case dr: False
      obtain ps cs w' d' where q: "distinct ps" "set ps = matching d - pre (Suc i) d" "ask_all ops ps w1 = (cs, w')"
          "hwm_loop ops df (Suc i) (merge_admission r c) d w1 = Some (judged df (merge_admission r c) cs, d', w')"
          "dist_ok d'" "all_pipes d' = all_pipes d" "eligible d' = eligible d - hwm_dropped df cs"
          "active d' = active d - hwm_dropped df cs" "matching d' = matching d - hwm_dropped df cs" "d_more d' = d_more d"
          "\<not> df \<longrightarrow> d' = d"
        using 1(2) [OF True get refl c [symmetric]] dr ok True unfolding unavailable_def by (metis Suc_leI)
      have "hwm_loop ops df i r d w = Some (judged df (merge_admission r c) cs, d', w')"
        using q(4) True get c dr by (auto simp: hwm_loop.simps [of _ _ i] unavailable_def)
      moreover have "set (?p # ps) = matching d - pre i d" "distinct (?p # ps)" using q(1,2) pre_Suc pm by auto
      moreover have "ask_all ops (?p # ps) w = ((?p, c) # cs, w')" using c q(3) by simp
      ultimately show ?thesis using q dr
        by (intro exI [of _ "?p # ps"] exI [of _ "(?p, c) # cs"] exI [of _ w'] exI [of _ d'])
          (auto simp: hwm_dropped_Cons judged_Cons)
    qed
  qed
qed


end
