(* ===== verification/Dist_Safety.thy ===== *)
theory Dist_Safety
  imports Dist
begin

section \<open>The distributor under every sequence of calls\<close>

text \<open>
  The contract of \<open>sockets/internal/dist.cpp\<close> at its interface: what one send does, what the
  admission of a record does, and that no sequence of calls in the order the sockets make them ever
  leaves the array, fails an assertion, or loses a reference.
\<close>

subsection \<open>Reachable states\<close>

text \<open>The state is the distributor, the heap, the pipes and the messages in the hands of the program.
  \<open>R_env\<close> is everything that happens elsewhere: readers take messages from the pipes, the
  application makes and closes messages. The other rules are the calls; their premises are what the
  sockets guarantee: an attached pipe is new, a pipe is matched or reversed at the start of a record
  only, \<open>activated\<close> names an attached pipe.\<close>

inductive dist_reach ::
    "nat \<Rightarrow> ('p, 'w) pipe_ops \<Rightarrow> ('w \<Rightarrow> hmsg multiset) \<Rightarrow> 'p dist \<Rightarrow> heap \<Rightarrow> 'w \<Rightarrow> hmsg multiset \<Rightarrow> bool"
  for pool_max ops held
where
  R_init: "heap_ok h (held w + M) \<Longrightarrow> dist_reach pool_max ops held dist_init h w M"
| R_env: "dist_reach pool_max ops held d h w M \<Longrightarrow> heap_ok h' (held w' + M') \<Longrightarrow> dist_reach pool_max ops held d h' w' M'"
| R_attach: "dist_reach pool_max ops held d h w M \<Longrightarrow> p \<notin> all_pipes d \<Longrightarrow> dist_attach p d = Some d'
    \<Longrightarrow> dist_reach pool_max ops held d' h w M"
| R_match: "dist_reach pool_max ops held d h w M \<Longrightarrow> p \<in> all_pipes d \<Longrightarrow> \<not> d_more d \<Longrightarrow> dist_match p d = Some d'
    \<Longrightarrow> dist_reach pool_max ops held d' h w M"
| R_unmatch: "dist_reach pool_max ops held d h w M \<Longrightarrow> dist_reach pool_max ops held (dist_unmatch d) h w M"
| R_match_all: "dist_reach pool_max ops held d h w M \<Longrightarrow> dist_reach pool_max ops held (dist_match_all d) h w M"
| R_reverse: "dist_reach pool_max ops held d h w M \<Longrightarrow> \<not> d_more d \<Longrightarrow> dist_reverse_match d = Some d'
    \<Longrightarrow> dist_reach pool_max ops held d' h w M"
| R_terminated: "dist_reach pool_max ops held d h w M \<Longrightarrow> dist_pipe_terminated p d = Some d'
    \<Longrightarrow> dist_reach pool_max ops held d' h w M"
| R_activated: "dist_reach pool_max ops held d h w M \<Longrightarrow> p \<in> all_pipes d \<Longrightarrow> dist_activated p d = Some d'
    \<Longrightarrow> dist_reach pool_max ops held d' h w M"
| R_hwm: "dist_reach pool_max ops held d h w M \<Longrightarrow> dist_check_publish_record_hwm ops df d w = Some (a, d', w')
    \<Longrightarrow> heap_ok h (held w' + M) \<Longrightarrow> dist_reach pool_max ops held d' h w' M"
| R_send: "dist_reach pool_max ops held d h w (add_mset m M) \<Longrightarrow> hm_valid m
    \<Longrightarrow> few h (add_mset m (held w + M)) (d_matching d - 1)
    \<Longrightarrow> dist_send_to_matching pool_max ops m admitted d (h, w) = Some (taken, d', h', w')
    \<Longrightarrow> dist_reach pool_max ops held d' h' w' (if taken then M else add_mset m M)"
| R_rollback: "dist_reach pool_max ops held d h w M \<Longrightarrow> dist_rollback ops d (h, w) = Some (d', h', w')
    \<Longrightarrow> dist_reach pool_max ops held d' h' w' M"


lemma d_swap_ok:
  assumes "arr_ok (d_pipes d)" "i < d_size d" "j < d_size d"
  obtains a where "d_swap i j d = Some (d\<lparr>d_pipes := a\<rparr>)" "arr_ok a" "arr_size a = d_size d"
    "set (arr_items a) = set (arr_items (d_pipes d))"
  using arr_swap_ok [OF assms] mset_swap_list [OF assms(2,3)] that by (auto simp: d_swap_def swap_list_def)

lemma dist_activated_inv:
  assumes ok: "dist_ok d" and p: "p \<in> all_pipes d"
  shows "\<exists>d'. dist_activated p d = Some d' \<and> dist_ok d' \<and> all_pipes d' = all_pipes d"
proof (cases "d_eligible d < d_size d")
  case False
  then have "\<not> (\<not> d_more d \<and> d_active d < d_size d)" using ok by (auto simp: dist_ok_def)
  then have "dist_activated p d = Some d" using False by (auto simp: dist_activated_def)
  then show ?thesis using ok by blast
next
  case True
  have ap: "arr_ok (d_pipes d)" and le: "d_matching d \<le> d_active d" "d_active d \<le> d_eligible d" using ok by (auto simp: dist_ok_def)
  have ix: "arr_index p (d_pipes d) < d_size d" using arr_ok_index [OF ap] p by (auto simp: all_pipes_def)
  obtain a where a: "d_swap (arr_index p (d_pipes d)) (d_eligible d) d = Some (d\<lparr>d_pipes := a\<rparr>)" "arr_ok a"
      "arr_size a = d_size d" "set (arr_items a) = set (arr_items (d_pipes d))"
    by (rule d_swap_ok [OF ap ix True])
  let ?d1 = "d\<lparr>d_pipes := a, d_eligible := d_eligible d + 1\<rparr>"
  have b': "arr_ok (d_pipes ?d1)" "d_eligible ?d1 - 1 < d_size ?d1" "d_active ?d1 < d_size ?d1" using a True le by auto
  obtain b where b: "d_swap (d_eligible ?d1 - 1) (d_active ?d1) ?d1 = Some (?d1\<lparr>d_pipes := b\<rparr>)" "arr_ok b"
      "arr_size b = d_size ?d1" "set (arr_items b) = set (arr_items (d_pipes ?d1))"
    by (rule d_swap_ok [OF b'])
  show ?thesis
  proof (cases "d_more d")
    case m: True
    then have "dist_activated p d = Some ?d1" using True a by (simp add: dist_activated_def)
    then show ?thesis using ok True m a by (auto simp: dist_ok_def all_pipes_def)
  next
    case m: False
    let ?d2 = "?d1\<lparr>d_pipes := b, d_active := d_active d + 1\<rparr>"
    have "dist_activated p d = Some ?d2" using True a b(1) b'(3) m by (simp add: dist_activated_def)
    moreover have "dist_ok ?d2" using ok True m a(3) b(2,3) by (auto simp: dist_ok_def)
    moreover have "all_pipes ?d2 = all_pipes d" using a(4) b(4) by (simp add: all_pipes_def)
    ultimately show ?thesis by blast
  qed
qed

lemma dist_pipe_terminated_inv:
  assumes "dist_ok d"
  shows "\<exists>d'. dist_pipe_terminated p d = Some d' \<and> dist_ok d' \<and> all_pipes d' = all_pipes d - {p}"
proof (cases "p \<in> all_pipes d")
  case True
  show ?thesis by (rule dist_pipe_terminated_ok [OF assms True]) blast
next
  case False
  then have "dist_pipe_terminated p d = Some d" using dist_has_pipe_iff [OF assms] by (simp add: dist_pipe_terminated_def)
  then show ?thesis using assms False by auto
qed

lemma dist_send_inv:
  assumes "dist_ok d" "pipes_hold ops held" "hm_valid m"
    "heap_ok h (held w + add_mset m M)" "few h (add_mset m (held w + M)) (d_matching d - 1)"
  shows "\<exists>taken d' h' w'. dist_send_to_matching pool_max ops m admitted d (h, w) = Some (taken, d', h', w')
    \<and> dist_ok d' \<and> all_pipes d' = all_pipes d \<and> heap_ok h' (held w' + (if taken then M else add_mset m M))"
proof (cases "too_large ops m admitted d h w")
  case True
  from dist_send_refused [OF assms(1,2) True assms(4), of pool_max] show ?thesis by auto
next
  case False
  have hk: "heap_ok h (add_mset m (held w + M))" using assms(4) by simp
  from dist_send_taken [OF assms(1-3) False hk assms(5), of pool_max] show ?thesis
    by (auto simp: fanned_out_def)
qed

lemma dist_hwm_inv:
  assumes "dist_ok d"
  shows "\<exists>a d' w'. dist_check_publish_record_hwm ops df d w = Some (a, d', w') \<and> dist_ok d' \<and> all_pipes d' = all_pipes d"
  using hwm_loop_ok [OF assms, of 0 ops w df Adm_ready] by (auto simp: dist_check_publish_record_hwm_def)

lemma reach_inv:
  assumes ph: "pipes_hold ops held" and r: "dist_reach pool_max ops held d h w M"
  shows "dist_ok d \<and> heap_ok h (held w + M)"
  using r
proof (induction rule: dist_reach.induct)
  case (R_attach d h w M p d')
  then show ?case by (metis dist_attach_ok option.inject)
next
  case (R_match d h w M p d')
  then show ?case by (metis dist_match_ok option.inject)
next
  case (R_reverse d h w M d')
  then show ?case by (metis dist_reverse_match_ok option.inject)
next
  case (R_terminated d h w M p d')
  then show ?case using dist_pipe_terminated_inv [of d p] by auto
next
  case (R_activated d h w M p d')
  then show ?case using dist_activated_inv [of d p] by auto
next
  case (R_hwm d h w M df a d' w')
  then show ?case using dist_hwm_inv [of d ops df w] by auto
next
  case (R_send d h w m M admitted taken d' h' w')
  from R_send.IH dist_send_inv [OF _ ph R_send.hyps(2) _ R_send.hyps(3), of pool_max admitted] R_send.hyps(4)
  show ?case by auto
next
  case (R_rollback d h w M d' h' w')
  from R_rollback.IH dist_rollback_ok [OF _ ph, of d h w M] R_rollback.hyps(2) show ?case by auto
qed (simp_all add: dist_init_ok dist_unmatch_ok dist_match_all_ok)


subsection \<open>A set of pipes to run it with\<close>

text \<open>Two messages fit into each queue; a rollback closes what came after the last complete record.
  The newest message is at the head.\<close>

definition demo_write :: "nat \<Rightarrow> hmsg \<Rightarrow> heap \<Rightarrow> (nat \<times> hmsg) list \<Rightarrow> bool \<times> (nat \<times> hmsg) list" where
  "demo_write p m h w = (if length (filter (\<lambda>(q, _). q = p) w) < 2 then (True, (p, m) # w) else (False, w))"

fun demo_rollback :: "nat \<Rightarrow> heap \<times> (nat \<times> hmsg) list \<Rightarrow> heap \<times> (nat \<times> hmsg) list" where
  "demo_rollback p (h, []) = (h, [])"
| "demo_rollback p (h, (q, m) # w) =
     (if q \<noteq> p then (case demo_rollback p (h, w) of (h', w') \<Rightarrow> (h', (q, m) # w'))
      else if has_more m then
        (case close_checked 4 m h of Some h' \<Rightarrow> demo_rollback p (h', w) | None \<Rightarrow> (h, (q, m) # w))
      else (h, (q, m) # w))"

definition demo_pipes :: "(nat, (nat \<times> hmsg) list) pipe_ops" where
  "demo_pipes = \<lparr>po_frame_size = (\<lambda>_ _ _ _. Adm_ready), po_write_admitted = demo_write, po_write_more = demo_write,
     po_write_single = demo_write, po_rollback = demo_rollback,
     po_check_hwm = (\<lambda>p w. (if length (filter (\<lambda>(q, _). q = p) w) < 2 then Adm_ready else Adm_hwm_full, w))\<rparr>"

abbreviation demo_held :: "(nat \<times> hmsg) list \<Rightarrow> hmsg multiset" where
  "demo_held w \<equiv> image_mset snd (mset w)"

lemma close_checked_valid: "close_checked n m h = Some h' \<Longrightarrow> hm_valid m"
  by (auto simp: close_checked_def msg_close_def split: if_splits)

lemma demo_rollback_holds:
  "demo_rollback p (h, w) = (h', w') \<Longrightarrow> heap_ok h (demo_held w + M) \<Longrightarrow> heap_ok h' (demo_held w' + M)"
proof (induction p "(h, w)" arbitrary: h w h' w' M rule: demo_rollback.induct)
  case (2 p h q m w)
  show ?case
  proof (cases "q = p")
    case False
    obtain h1 w1 where r: "demo_rollback p (h, w) = (h1, w1)" by (metis surj_pair)
    have "heap_ok h1 (demo_held w1 + add_mset m M)" using 2(1) [OF False r, of "add_mset m M"] 2(4) by simp
    then show ?thesis using 2(3) False r by auto
  next
    case True
    have ok: "heap_ok h (add_mset m (demo_held w + M))" using 2(4) by simp
    show ?thesis
    proof (cases "has_more m \<and> close_checked 4 m h \<noteq> None")
      case c: True
      then obtain h1 where h1: "close_checked 4 m h = Some h1" by blast
      obtain h2 where "close_checked 4 m h = Some h2" "heap_ok h2 (demo_held w + M)"
        by (rule close_checked_ok [OF ok close_checked_valid [OF h1]])
      then show ?thesis using 2(2) [of h1] 2(3) True c h1 by simp
    next
      case False
      then show ?thesis using 2(3,4) True by (auto split: option.splits)
    qed
  qed
qed simp

lemma demo_pipes_hold: "pipes_hold demo_pipes demo_held"
  unfolding pipes_hold_def demo_pipes_def
  by (auto simp: demo_write_def split: if_splits dest: demo_rollback_holds)

definition demo_dist :: "nat dist" where
  "demo_dist = \<lparr>d_pipes = \<lparr>arr_items = [3, 4, 5], arr_idx = (\<lambda>p. if p < 3 \<or> 5 < p then -1 else int p - 3)\<rparr>,
     d_matching = 2, d_active = 3, d_eligible = 3, d_more = False\<rparr>"

definition demo_queues :: "(nat \<times> hmsg) list" where
  "demo_queues = [(3, hm_with (Vsm [1])), (3, hm_with (Vsm [2]))]"

lemma demo_dist_ok: "dist_ok demo_dist" "matching demo_dist = {3, 4}" "eligible demo_dist = {3, 4, 5}"
proof -
  show "dist_ok demo_dist" by (auto simp: dist_ok_def demo_dist_def arr_ok_def less_Suc_eq numeral_3_eq_3)
qed (auto simp: demo_dist_def view_defs numeral_2_eq_2 numeral_3_eq_3)

lemma demo_heap_fan_out:
  "heap_ok (fst demo_heap) (add_mset (snd demo_heap) (demo_held demo_queues))" "hm_valid (snd demo_heap)"
  "few (fst demo_heap) (add_mset (snd demo_heap) (demo_held demo_queues)) (d_matching demo_dist - 1)"
proof -
  have r: "init_data (replicate 40 7) (Some 5) (Some 1) empty_heap = (Inr (snd demo_heap), fst demo_heap)"
    by (simp add: demo_heap_def init_data_def)
  have "fresh (Some 1) empty_heap" by (simp add: heap_eval)
  from init_data_ok [OF empty_heap_ok this r] have "heap_ok (fst demo_heap) {#snd demo_heap#}" by simp
  moreover have "heap_ok h (add_mset m {#hm_with (Vsm [1]), hm_with (Vsm [2])#}) \<longleftrightarrow> heap_ok h {#m#}" for h m
    using heap_ok_no_refs [of "hm_with (Vsm [1])" h "{#m, hm_with (Vsm [2])#}"]
      heap_ok_no_refs [of "hm_with (Vsm [2])" h "{#m#}"]
    by (simp add: msg_ok_def add_mset_commute)
  ultimately show "heap_ok (fst demo_heap) (add_mset (snd demo_heap) (demo_held demo_queues))"
    by (simp add: demo_queues_def)
  show "hm_valid (snd demo_heap)" by (simp add: demo_heap_def heap_eval)
  show "few (fst demo_heap) (add_mset (snd demo_heap) (demo_held demo_queues)) (d_matching demo_dist - 1)"
    by (simp add: demo_heap_def heap_eval demo_queues_def demo_dist_def)
qed


subsection \<open>Properties\<close>

text \<open>C18: Sending to the matching pipes offers one copy of the message to each of them, exactly
  once, and takes it from the caller. The pipes that accepted it are the matching ones afterwards,
  those that refused it are not eligible any more, no other pipe is touched, and every reference is
  accounted for: whichever of the four paths (no pipe, one pipe, copies of a short message, shared
  references) was taken, the heap has exactly the references of the queues and of the other messages.\<close>

theorem dist_fan_out:
  assumes "dist_ok d" "pipes_hold ops held" "hm_valid m" "\<not> too_large ops m admitted d h w"
    and "heap_ok h (add_mset m (held w + M))" "few h (add_mset m (held w + M)) (d_matching d - 1)"
  shows "\<exists>ps accepted refused m' h1 h2 d' h' w'.
    dist_send_to_matching pool_max ops m admitted d (h, w) = Some (True, d', h', w')
    \<and> distinct ps \<and> set ps = matching d \<and> (m' = m \<or> m' = shared_copy m)
    \<and> offer_all ops m' admitted (d_more d) ps (h1, w) = (accepted, refused, h2, w')
    \<and> matching d' = accepted \<and> eligible d' = eligible d - refused \<and> all_pipes d' = all_pipes d
    \<and> dist_ok d' \<and> d_more d' = has_more m \<and> heap_ok h' (held w' + M)"
proof -
  obtain d1 d' h' w' where r: "dist_send_to_matching pool_max ops m admitted d (h, w) = Some (True, d', h', w')"
      "fanned_out ops held M m admitted d w d1 h' w'" "dist_ok d'" "all_pipes d' = all_pipes d1" "eligible d' = eligible d1"
      "matching d' = matching d1" "d_more d' = has_more m"
    using dist_send_taken [OF assms, of pool_max] by blast
  obtain ps acc ref m' h1 h2 where q: "distinct ps" "set ps = matching d" "m' = m \<or> m' = shared_copy m"
      "offer_all ops m' admitted (d_more d) ps (h1, w) = (acc, ref, h2, w')" "all_pipes d1 = all_pipes d"
      "eligible d1 = eligible d - ref" "matching d1 = matching d - ref" and hk: "heap_ok h' (held w' + M)"
    using r(2) unfolding fanned_out_def by blast
  have "matching d - ref = acc" using offer_all_partition [OF q(4,1)] q(2) by auto
  then show ?thesis
    using r q hk by (intro exI [of _ ps] exI [of _ acc] exI [of _ ref] exI [of _ m'] exI [of _ h1] exI [of _ h2]
        exI [of _ d'] exI [of _ h'] exI [of _ w']) simp
qed

theorem dist_fan_out_witness:
  "\<exists>d' h' w'. dist_send_to_matching 4 demo_pipes (snd demo_heap) False demo_dist (fst demo_heap, demo_queues)
       = Some (True, d', h', w')
     \<and> matching d' = {4} \<and> eligible d' = {4, 5} \<and> map fst w' = [4, 3, 3] \<and> heap_ok h' (demo_held w')"
proof -
  have fits: "\<not> too_large demo_pipes (snd demo_heap) False demo_dist (fst demo_heap) demo_queues" by (simp add: too_large_def)
  obtain ps acc ref m' h1 h2 d' h' w' where
    r: "dist_send_to_matching 4 demo_pipes (snd demo_heap) False demo_dist (fst demo_heap, demo_queues) = Some (True, d', h', w')"
      "distinct ps" "set ps = matching demo_dist"
      "offer_all demo_pipes m' False (d_more demo_dist) ps (h1, demo_queues) = (acc, ref, h2, w')"
      "matching d' = acc" "eligible d' = eligible demo_dist - ref" "heap_ok h' (demo_held w')"
    using dist_fan_out [OF demo_dist_ok(1) demo_pipes_hold demo_heap_fan_out(2) fits, of "{#}" 4,
        unfolded add_0_right, OF demo_heap_fan_out(1,3)] by blast
  have "length ps = 2" using r(2,3) distinct_card [of ps] by (simp add: demo_dist_ok)
  then obtain a b where ab: "ps = [a, b]" by (auto simp: length_Suc_conv numeral_2_eq_2)
  then have "ps = [3, 4] \<or> ps = [4, 3]" using r(3) by (simp add: demo_dist_ok doubleton_eq_iff)
  then have "acc = {4} \<and> ref = {3} \<and> map fst w' = [4, 3, 3]"
    using r(4) by (auto simp: offer_one_def demo_pipes_def demo_write_def demo_queues_def demo_dist_def split: if_splits)
  then show ?thesis using r by (auto simp: demo_dist_ok)
qed

text \<open>C19: In every state reachable by the calls of the sockets the prefixes of the array are nested
  and consistent with the positions stored in the pipes, every heap reference belongs to a message of
  the program or of a queue, and none of the calls fails: no access outside the array, no failed
  assertion, no release of a block that is gone.\<close>

theorem dist_reachable_safe:
  assumes "pipes_hold ops held" "dist_reach pool_max ops held d h w M"
  shows "dist_ok d \<and> heap_ok h (held w + M)
    \<and> dist_pipe_terminated p d \<noteq> None \<and> dist_rollback ops d (h, w) \<noteq> None
    \<and> dist_check_publish_record_hwm ops df d w \<noteq> None
    \<and> (p \<in> all_pipes d \<longrightarrow> dist_activated p d \<noteq> None)
    \<and> (p \<notin> all_pipes d \<longrightarrow> dist_attach p d \<noteq> None)
    \<and> (\<not> d_more d \<longrightarrow> dist_reverse_match d \<noteq> None \<and> (p \<in> all_pipes d \<longrightarrow> dist_match p d \<noteq> None))
    \<and> (m \<in># M \<and> hm_valid m \<and> few h (held w + M) (d_matching d - 1) \<longrightarrow>
         dist_send_to_matching pool_max ops m admitted d (h, w) \<noteq> None)"
proof -
  have ok: "dist_ok d" "heap_ok h (held w + M)" using reach_inv [OF assms] by auto
  have 1: "dist_pipe_terminated p d \<noteq> None" using dist_pipe_terminated_inv [OF ok(1), of p] by auto
  have 2: "dist_rollback ops d (h, w) \<noteq> None" using dist_rollback_ok [OF ok(1) assms(1) ok(2)] by auto
  have 3: "dist_check_publish_record_hwm ops df d w \<noteq> None" using dist_hwm_inv [OF ok(1)] by fastforce
  have 4: "p \<in> all_pipes d \<longrightarrow> dist_activated p d \<noteq> None" using dist_activated_inv [OF ok(1), of p] by auto
  have 5: "p \<notin> all_pipes d \<longrightarrow> dist_attach p d \<noteq> None" using dist_attach_ok [OF ok(1)] by (metis option.distinct(1))
  have 6: "\<not> d_more d \<longrightarrow> dist_reverse_match d \<noteq> None" using dist_reverse_match_ok [OF ok(1)] by (metis option.distinct(1))
  have 7: "\<not> d_more d \<longrightarrow> p \<in> all_pipes d \<longrightarrow> dist_match p d \<noteq> None" using dist_match_ok [OF ok(1)] by (metis option.distinct(1))
  have 8: "dist_send_to_matching pool_max ops m admitted d (h, w) \<noteq> None"
    if m: "m \<in># M" "hm_valid m" "few h (held w + M) (d_matching d - 1)"
  proof -
    obtain M' where M: "M = add_mset m M'" using multi_member_split [OF m(1)] by blast
    then show ?thesis using dist_send_inv [OF ok(1) assms(1) m(2), of h w M' pool_max admitted] ok(2) m(3) by auto
  qed
  show ?thesis using ok 1 2 3 4 5 6 7 8 by blast
qed

theorem dist_reachable_safe_witness:
  "\<exists>d1 d2. dist_attach 3 (dist_init :: nat dist) = Some d1 \<and> dist_attach 4 d1 = Some d2 \<and> dist_ok d2
     \<and> dist_send_to_matching 4 demo_pipes (snd demo_heap) False (dist_match_all d2) (fst demo_heap, demo_queues) \<noteq> None"
proof -
  note reach = dist_reachable_safe [OF demo_pipes_hold]
  have 0: "dist_reach 4 demo_pipes demo_held dist_init (fst demo_heap) demo_queues {#snd demo_heap#}"
    using demo_heap_fan_out(1) by (intro R_init) simp
  have new: "3 \<notin> all_pipes (dist_init :: nat dist)" by (simp add: dist_init_ok)
  obtain d1 where 1: "dist_attach 3 (dist_init :: nat dist) = Some d1" and "dist_ok d1"
      and "all_pipes d1 = insert 3 (all_pipes (dist_init :: nat dist))"
    by (rule dist_attach_ok [OF dist_init_ok(1) new])
  then have p1: "all_pipes d1 = {3}" by (simp add: dist_init_ok)
  have r1: "dist_reach 4 demo_pipes demo_held d1 (fst demo_heap) demo_queues {#snd demo_heap#}"
    by (rule R_attach [OF 0 new 1])
  obtain d2 where 2: "dist_attach 4 d1 = Some d2" using reach [OF r1, of 4 False hm_init False] p1 by auto
  have r2: "dist_reach 4 demo_pipes demo_held d2 (fst demo_heap) demo_queues {#snd demo_heap#}"
    using R_attach [OF r1 _ 2] p1 by simp
  note r3 = R_match_all [OF r2]
  have "d_matching (dist_match_all d2) \<le> 2"
    using 1 2 by (auto simp: dist_attach_def dist_init_def dist_match_all_def dest!: d_swap_sel split: Option.bind_splits)
  then have "few (fst demo_heap) (demo_held demo_queues + {#snd demo_heap#}) (d_matching (dist_match_all d2) - 1)"
    by (simp add: demo_heap_def heap_eval demo_queues_def)
  then show ?thesis using reach [OF r2, of 4 False hm_init False] reach [OF r3, of 4 False "snd demo_heap" False] demo_heap_fan_out(2) 1 2 by auto
qed

text \<open>The most serious answer, from full down to ready.\<close>

definition worst :: "admission set \<Rightarrow> admission" where
  "worst A = (if Adm_hwm_full \<in> A then Adm_hwm_full else if Adm_transport_wait \<in> A then Adm_transport_wait
     else if Adm_inactive \<in> A then Adm_inactive else Adm_ready)"

lemma judged_keep: "judged False r cs = fold (\<lambda>(_, c) r. merge_admission r c) cs r"
  by (simp add: judged_def)

lemma judged_worst: "r = Adm_ready \<or> unavailable r \<Longrightarrow> judged False r cs = worst (insert r (snd ` set cs))"
proof (induction cs arbitrary: r)
  case Nil
  then show ?case by (auto simp: judged_keep worst_def unavailable_def)
next
  case (Cons pc cs)
  obtain p c where pc: "pc = (p, c)" by (rule prod.exhaust)
  have m: "merge_admission r c = worst {r, c}"
    using Cons.prems by (auto simp: merge_admission_def worst_def unavailable_def)
  have r': "merge_admission r c = Adm_ready \<or> unavailable (merge_admission r c)"
    by (auto simp: m worst_def unavailable_def)
  have "worst (insert (worst {r, c}) A) = worst (insert r (insert c A))" for A
    using Cons.prems by (auto simp: worst_def unavailable_def)
  with Cons.IH [OF r'] show ?case by (simp add: judged_keep pc m)
qed

lemma judged_drop: "judged True r cs = r"
proof (induction cs)
  case (Cons pc cs)
  obtain p c where pc: "pc = (p, c)" by (rule prod.exhaust)
  have "merge_admission r c = r" if "\<not> unavailable c" using that by (auto simp: merge_admission_def unavailable_def)
  then show ?case using Cons by (simp add: pc judged_Cons)
qed (simp add: judged_def)

text \<open>Admission of a record, with all that it leaves.\<close>

lemma admission_law:
  assumes ok: "dist_ok d"
  obtains ps cs w' d' where "distinct ps" "set ps = matching d" "ask_all ops ps w = (cs, w')"
    "dist_check_publish_record_hwm ops drop_full d w = Some (if drop_full then Adm_ready else worst (snd ` set cs), d', w')"
    "dist_ok d'" "all_pipes d' = all_pipes d" "matching d' = matching d - hwm_dropped drop_full cs"
    "eligible d' = eligible d - hwm_dropped drop_full cs" "hwm_dropped drop_full cs \<subseteq> matching d"
    "d_more d' = d_more d" "\<not> drop_full \<longrightarrow> d' = d"
proof -
  from hwm_loop_ok [OF ok, of 0 ops w drop_full Adm_ready] obtain ps cs w' d' where
    r: "distinct ps" "set ps = matching d" "ask_all ops ps w = (cs, w')"
      "hwm_loop ops drop_full 0 Adm_ready d w = Some (judged drop_full Adm_ready cs, d', w')" "dist_ok d'"
      "all_pipes d' = all_pipes d" "eligible d' = eligible d - hwm_dropped drop_full cs"
      "matching d' = matching d - hwm_dropped drop_full cs" "d_more d' = d_more d" "\<not> drop_full \<longrightarrow> d' = d" by auto
  have j: "judged drop_full Adm_ready cs = (if drop_full then Adm_ready else worst (snd ` set cs))"
    by (simp add: judged_drop judged_worst) (simp add: worst_def)
  have "fst ` set cs = set ps" using ask_all_fst [of ops ps w] r(3) by (metis fst_conv set_map)
  then have "hwm_dropped drop_full cs \<subseteq> matching d" using r(2) by (force simp: hwm_dropped_def)
  then show ?thesis using that r j by (simp add: dist_check_publish_record_hwm_def)
qed

lemma matching_eligible: "dist_ok d \<Longrightarrow> matching d \<subseteq> eligible d"
  by (auto simp: dist_ok_def view_defs intro: set_take_subset_set_take [THEN subsetD])

text \<open>Admission of a record asks every matching pipe exactly once. A publisher that may drop
  always goes on: the pipes that are full, waiting or inactive leave the sets for this record. One
  that may not drop keeps every pipe and gets the most serious answer.\<close>

theorem publish_admission:
  assumes ok: "dist_ok d"
  shows "\<exists>ps cs w' d'. distinct ps \<and> set ps = matching d \<and> ask_all ops ps w = (cs, w')
    \<and> dist_check_publish_record_hwm ops drop_full d w = Some (if drop_full then Adm_ready else worst (snd ` set cs), d', w')
    \<and> dist_ok d' \<and> all_pipes d' = all_pipes d
    \<and> matching d' = {p \<in> matching d. drop_full \<longrightarrow> (\<forall>c. (p, c) \<in> set cs \<longrightarrow> \<not> unavailable c)}
    \<and> eligible d - eligible d' = matching d - matching d'"
proof -
  obtain ps cs w' d' where r: "distinct ps" "set ps = matching d" "ask_all ops ps w = (cs, w')"
      "dist_check_publish_record_hwm ops drop_full d w = Some (if drop_full then Adm_ready else worst (snd ` set cs), d', w')"
      "dist_ok d'" "all_pipes d' = all_pipes d" "matching d' = matching d - hwm_dropped drop_full cs"
      "eligible d' = eligible d - hwm_dropped drop_full cs" "hwm_dropped drop_full cs \<subseteq> matching d"
    by (rule admission_law [OF ok])
  have "eligible d - eligible d' = matching d - matching d'" using r(7-9) matching_eligible [OF ok] by auto
  moreover have "matching d' = {p \<in> matching d. drop_full \<longrightarrow> (\<forall>c. (p, c) \<in> set cs \<longrightarrow> \<not> unavailable c)}"
    using r(7) by (auto simp: hwm_dropped_def)
  ultimately show ?thesis using r(1-6) by blast
qed

theorem publish_admission_witness:
  "\<exists>d'. dist_check_publish_record_hwm demo_pipes True demo_dist demo_queues = Some (Adm_ready, d', demo_queues)
     \<and> matching d' = {4}
     \<and> map_option fst (dist_check_publish_record_hwm demo_pipes False demo_dist demo_queues) = Some Adm_hwm_full"
proof -
  have ask: "ask_all demo_pipes ps demo_queues = (map (\<lambda>p. (p, if p = 3 then Adm_hwm_full else Adm_ready)) ps, demo_queues)" for ps
    by (induction ps) (auto simp: demo_pipes_def demo_queues_def)
  obtain ps cs w' d' where r: "set ps = matching demo_dist" "ask_all demo_pipes ps demo_queues = (cs, w')"
      "dist_check_publish_record_hwm demo_pipes True demo_dist demo_queues = Some (Adm_ready, d', w')"
      "matching d' = {p \<in> matching demo_dist. \<forall>c. (p, c) \<in> set cs \<longrightarrow> \<not> unavailable c}"
    using publish_admission [OF demo_dist_ok(1), of demo_pipes demo_queues True] by auto
  obtain ps2 cs2 w2 d2 where r2: "set ps2 = matching demo_dist" "ask_all demo_pipes ps2 demo_queues = (cs2, w2)"
      "dist_check_publish_record_hwm demo_pipes False demo_dist demo_queues = Some (worst (snd ` set cs2), d2, w2)"
    using publish_admission [OF demo_dist_ok(1), of demo_pipes demo_queues False] by auto
  have "matching d' = {4}" using r(1,2,4) by (auto simp: ask demo_dist_ok unavailable_def split: if_splits)
  moreover have "worst (snd ` set cs2) = Adm_hwm_full" using r2(1,2) by (auto simp: ask demo_dist_ok worst_def)
  ultimately show ?thesis using r(2,3) r2(3) by (auto simp: ask)
qed


end
