(* ===== verification/Yqueue.thy ===== *)
theory Yqueue
  imports Prelude "HOL-Library.Finite_Map" "HOL-Library.Monad_Syntax"
begin

section \<open>The chunked queue\<close>

text \<open>
  Models \<open>core/yqueue.hpp\<close>: a queue of slots in doubly linked chunks of \<open>N\<close> slots each, with one
  spare chunk kept for reuse. Memory is an explicit store of the live chunks; an access to a chunk
  that was freed, a NULL dereference, a double free or the read of a slot that was never written is
  \<open>None\<close>. What \<open>malloc\<close> returns is an argument of \<open>push\<close>; \<open>alloc_assert\<close> stops the program when it is
  NULL.
\<close>

subsection \<open>State\<close>

type_synonym cid = nat

type_synonym ptr = "cid \<times> nat"

record 'a chunk =
  ck_values :: "'a option list"
  ck_prev :: "cid option"
  ck_next :: "cid option"

record 'a yqueue =
  yq_mem :: "(cid, 'a chunk) fmap"
  begin_chunk :: cid
  begin_pos :: nat
  back_chunk :: "cid option"
  back_pos :: nat
  end_chunk :: cid
  end_pos :: nat
  spare_chunk :: "cid option"

definition allocate_chunk :: "nat \<Rightarrow> 'a chunk" where
  "allocate_chunk N = \<lparr>ck_values = replicate N None, ck_prev = None, ck_next = None\<rparr>"

definition free_chunk :: "cid option \<Rightarrow> (cid, 'a chunk) fmap \<Rightarrow> (cid, 'a chunk) fmap option" where
  "free_chunk p m =
     (case p of None \<Rightarrow> Some m | Some c \<Rightarrow> if fmlookup m c = None then None else Some (fmdrop c m))"

definition set_prev :: "cid \<Rightarrow> cid option \<Rightarrow> (cid, 'a chunk) fmap \<Rightarrow> (cid, 'a chunk) fmap option" where
  "set_prev c p m = map_option (\<lambda>ck. fmupd c (ck\<lparr>ck_prev := p\<rparr>) m) (fmlookup m c)"

definition set_next :: "cid \<Rightarrow> cid option \<Rightarrow> (cid, 'a chunk) fmap \<Rightarrow> (cid, 'a chunk) fmap option" where
  "set_next c p m = map_option (\<lambda>ck. fmupd c (ck\<lparr>ck_next := p\<rparr>) m) (fmlookup m c)"

subsection \<open>Operations\<close>

definition yq_init :: "nat \<Rightarrow> cid \<Rightarrow> 'a yqueue" where
  "yq_init N c =
     \<lparr>yq_mem = fmupd c (allocate_chunk N) fmempty, begin_chunk = c, begin_pos = 0, back_chunk = None, back_pos = 0,
      end_chunk = c, end_pos = 0, spare_chunk = None\<rparr>"

definition yq_front :: "'a yqueue \<Rightarrow> ptr" where
  "yq_front q = (begin_chunk q, begin_pos q)"

definition yq_back :: "'a yqueue \<Rightarrow> ptr option" where
  "yq_back q = map_option (\<lambda>c. (c, back_pos q)) (back_chunk q)"

definition yq_load :: "ptr \<Rightarrow> 'a yqueue \<Rightarrow> 'a option" where
  "yq_load p q =
     do { ck \<leftarrow> fmlookup (yq_mem q) (fst p);
          if snd p < length (ck_values ck) then ck_values ck ! snd p else None }"

definition yq_store :: "ptr \<Rightarrow> 'a \<Rightarrow> 'a yqueue \<Rightarrow> 'a yqueue option" where
  "yq_store p v q =
     do { ck \<leftarrow> fmlookup (yq_mem q) (fst p);
          if snd p < length (ck_values ck)
          then Some (q\<lparr>yq_mem := fmupd (fst p) (ck\<lparr>ck_values := (ck_values ck)[snd p := Some v]\<rparr>) (yq_mem q)\<rparr>)
          else None }"

definition yq_push :: "nat \<Rightarrow> cid option \<Rightarrow> 'a yqueue \<Rightarrow> 'a yqueue option" where
  "yq_push N new q =
     (let q = q\<lparr>back_chunk := Some (end_chunk q), back_pos := end_pos q, end_pos := end_pos q + 1\<rparr> in
      if end_pos q \<noteq> N then Some q
      else
        do { (m, sc) \<leftarrow> (case spare_chunk q of
                Some sc \<Rightarrow> Some (yq_mem q, sc)
              | None \<Rightarrow> map_option (\<lambda>c. (fmupd c (allocate_chunk N) (yq_mem q), c)) new);
             m \<leftarrow> set_next (end_chunk q) (Some sc) m;
             m \<leftarrow> set_prev sc (Some (end_chunk q)) m;
             Some (q\<lparr>yq_mem := m, spare_chunk := None, end_chunk := sc, end_pos := 0\<rparr>) })"

definition yq_unpush :: "nat \<Rightarrow> 'a yqueue \<Rightarrow> 'a yqueue option" where
  "yq_unpush N q =
     do { q \<leftarrow> (if back_pos q \<noteq> 0 then Some (q\<lparr>back_pos := back_pos q - 1\<rparr>)
               else do { b \<leftarrow> back_chunk q; ck \<leftarrow> fmlookup (yq_mem q) b;
                         Some (q\<lparr>back_pos := N - 1, back_chunk := ck_prev ck\<rparr>) });
          (if end_pos q \<noteq> 0 then Some (q\<lparr>end_pos := end_pos q - 1\<rparr>)
           else
             do { ck \<leftarrow> fmlookup (yq_mem q) (end_chunk q);
                  e \<leftarrow> ck_prev ck;
                  eck \<leftarrow> fmlookup (yq_mem q) e;
                  m \<leftarrow> free_chunk (ck_next eck) (yq_mem q);
                  m \<leftarrow> set_next e None m;
                  Some (q\<lparr>yq_mem := m, end_pos := N - 1, end_chunk := e\<rparr>) }) }"

definition yq_pop :: "nat \<Rightarrow> 'a yqueue \<Rightarrow> 'a yqueue option" where
  "yq_pop N q =
     (let q = q\<lparr>begin_pos := begin_pos q + 1\<rparr> in
      if begin_pos q \<noteq> N then Some q
      else
        do { ock \<leftarrow> fmlookup (yq_mem q) (begin_chunk q);
             b \<leftarrow> ck_next ock;
             m \<leftarrow> set_prev b None (yq_mem q);
             m \<leftarrow> free_chunk (spare_chunk q) m;
             Some (q\<lparr>yq_mem := m, begin_chunk := b, begin_pos := 0, spare_chunk := Some (begin_chunk q)\<rparr>) })"

function free_chain :: "cid \<Rightarrow> cid \<Rightarrow> (cid, 'a chunk) fmap \<Rightarrow> (cid, 'a chunk) fmap option" where
  "free_chain b e m =
     (if b = e then free_chunk (Some b) m
      else case fmlookup m b of
        None \<Rightarrow> None
      | Some ck \<Rightarrow> (case ck_next ck of None \<Rightarrow> None | Some nx \<Rightarrow> free_chain nx e (fmdrop b m)))"
  by pat_completeness auto
termination
proof (relation "measure (\<lambda>(_, _, m). fcard (fmdom m))", goal_cases)
  case (2 b e m ck nx)
  then have "b |\<in>| fmdom m" by (simp add: fmlookup_dom_iff)
  then show ?case using fcard_fminus1_less [of b "fmdom m"] by simp
qed simp

declare free_chain.simps [simp del]

definition yq_destroy :: "'a yqueue \<Rightarrow> (cid, 'a chunk) fmap option" where
  "yq_destroy q = do { m \<leftarrow> free_chain (begin_chunk q) (end_chunk q) (yq_mem q); free_chunk (spare_chunk q) m }"


subsection \<open>Representation invariant\<close>

text \<open>The fields of the chunks, as functions of the memory.\<close>

definition vals :: "(cid, 'a chunk) fmap \<Rightarrow> cid \<Rightarrow> 'a option list option" where
  "vals m c = map_option ck_values (fmlookup m c)"

definition nxt :: "(cid, 'a chunk) fmap \<Rightarrow> cid \<Rightarrow> cid option" where
  "nxt m c = Option.bind (fmlookup m c) ck_next"

definition prv :: "(cid, 'a chunk) fmap \<Rightarrow> cid \<Rightarrow> cid option" where
  "prv m c = Option.bind (fmlookup m c) ck_prev"

lemmas field_defs = vals_def nxt_def prv_def

lemma vals_dom: "vals m c \<noteq> None \<longleftrightarrow> c |\<in>| fmdom m" "vals m c = None \<longleftrightarrow> c |\<notin>| fmdom m"
  by (auto simp: vals_def fmlookup_dom_iff)

lemma set_next_ok:
  assumes "c |\<in>| fmdom m"
  obtains m' where "set_next c p m = Some m'" "vals m' = vals m" "nxt m' = (nxt m)(c := p)" "prv m' = prv m" "fmdom m' = fmdom m"
proof -
  obtain ck where "fmlookup m c = Some ck" using assms by (auto simp: fmlookup_dom_iff)
  then show ?thesis using that [of "fmupd c (ck\<lparr>ck_next := p\<rparr>) m"] assms
    by (auto simp: set_next_def field_defs fun_eq_iff finsert_absorb)
qed

lemma set_prev_ok:
  assumes "c |\<in>| fmdom m"
  obtains m' where "set_prev c p m = Some m'" "vals m' = vals m" "nxt m' = nxt m" "prv m' = (prv m)(c := p)" "fmdom m' = fmdom m"
proof -
  obtain ck where "fmlookup m c = Some ck" using assms by (auto simp: fmlookup_dom_iff)
  then show ?thesis using that [of "fmupd c (ck\<lparr>ck_prev := p\<rparr>) m"] assms
    by (auto simp: set_prev_def field_defs fun_eq_iff finsert_absorb)
qed

lemma free_chunk_ok:
  assumes "set_option p \<subseteq> fset (fmdom m)"
  obtains m' where "free_chunk p m = Some m'" "vals m' = (\<lambda>c. if p = Some c then None else vals m c)"
    "nxt m' = (\<lambda>c. if p = Some c then None else nxt m c)" "prv m' = (\<lambda>c. if p = Some c then None else prv m c)"
    "fset (fmdom m') = fset (fmdom m) - set_option p"
proof (cases p)
  case None
  then show ?thesis using that [of m] by (simp add: free_chunk_def)
next
  case (Some c)
  then have "fmlookup m c \<noteq> None" using assms by (auto simp: fmlookup_dom_iff)
  then show ?thesis using that [of "fmdrop c m"] Some by (auto simp: free_chunk_def field_defs fun_eq_iff)
qed

lemma load_vals:
  "yq_load p q = (case vals (yq_mem q) (fst p) of None \<Rightarrow> None | Some vs \<Rightarrow> if snd p < length vs then vs ! snd p else None)"
  by (auto simp: yq_load_def vals_def split: option.splits)

text \<open>The slots are numbered from the start of the first chunk; slot \<open>k\<close> is in chunk \<open>k div N\<close> of the
  chain.\<close>

definition addr :: "nat \<Rightarrow> cid list \<Rightarrow> nat \<Rightarrow> ptr" where
  "addr N cs k = (cs ! (k div N), k mod N)"

definition linked :: "(cid, 'a chunk) fmap \<Rightarrow> cid list \<Rightarrow> bool" where
  "linked m cs \<longleftrightarrow> (\<forall>i. Suc i < length cs \<longrightarrow> nxt m (cs ! i) = Some (cs ! Suc i) \<and> prv m (cs ! Suc i) = Some (cs ! i))"

text \<open>\<open>cs\<close> is the chain of chunks from begin to end, \<open>xs\<close> the contents of the slots from front to back;
  \<open>None\<close> is a slot not written yet.\<close>

definition yq_ok :: "nat \<Rightarrow> 'a yqueue \<Rightarrow> cid list \<Rightarrow> 'a option list \<Rightarrow> bool" where
  "yq_ok N q cs xs \<longleftrightarrow>
     begin_pos q < N \<and> distinct cs \<and> length cs = Suc ((begin_pos q + length xs) div N)
     \<and> end_pos q = (begin_pos q + length xs) mod N \<and> begin_chunk q = hd cs \<and> end_chunk q = last cs
     \<and> fset (fmdom (yq_mem q)) = set cs \<union> set_option (spare_chunk q) \<and> set cs \<inter> set_option (spare_chunk q) = {}
     \<and> (\<forall>c vs. vals (yq_mem q) c = Some vs \<longrightarrow> length vs = N) \<and> linked (yq_mem q) cs
     \<and> (\<forall>j < length xs. yq_load (addr N cs (begin_pos q + j)) q = xs ! j)
     \<and> (xs \<noteq> [] \<longrightarrow> yq_back q = Some (addr N cs (begin_pos q + length xs - 1)))"

lemma yq_okI:
  assumes "begin_pos q < N" "distinct cs" "length cs = Suc ((begin_pos q + length xs) div N)"
    "end_pos q = (begin_pos q + length xs) mod N" "begin_chunk q = hd cs" "end_chunk q = last cs"
    "fset (fmdom (yq_mem q)) = set cs \<union> set_option (spare_chunk q)" "set cs \<inter> set_option (spare_chunk q) = {}"
    "\<And>c vs. vals (yq_mem q) c = Some vs \<Longrightarrow> length vs = N" "linked (yq_mem q) cs"
    "\<And>j. j < length xs \<Longrightarrow> yq_load (addr N cs (begin_pos q + j)) q = xs ! j"
    "xs \<noteq> [] \<Longrightarrow> yq_back q = Some (addr N cs (begin_pos q + length xs - 1))"
  shows "yq_ok N q cs xs"
  using assms unfolding yq_ok_def by blast

lemma addr_append: "k div N < length cs \<Longrightarrow> addr N (cs @ ds) k = addr N cs k"
  by (simp add: addr_def nth_append)

lemma addr_inj:
  assumes "distinct cs" "i div N < length cs" "j div N < length cs" "addr N cs i = addr N cs j"
  shows "i = j"
proof -
  have "i div N = j div N" "i mod N = j mod N" using assms by (auto simp: addr_def nth_eq_iff_index_eq)
  then show ?thesis by (metis div_mult_mod_eq)
qed

lemma yq_okD:
  assumes "yq_ok N q cs xs"
  shows "0 < N" "cs \<noteq> []" "begin_pos q < N" "distinct cs" "end_chunk q = cs ! ((begin_pos q + length xs) div N)"
    "k \<le> begin_pos q + length xs \<Longrightarrow> k div N < length cs"
proof -
  show "0 < N" "begin_pos q < N" "distinct cs" using assms by (auto simp: yq_ok_def)
  show c: "cs \<noteq> []" using assms by (auto simp: yq_ok_def)
  show "end_chunk q = cs ! ((begin_pos q + length xs) div N)" using assms c by (auto simp: yq_ok_def last_conv_nth)
  show "k div N < length cs" if "k \<le> begin_pos q + length xs"
    using assms div_le_mono [OF that, of N] by (auto simp: yq_ok_def)
qed

lemma yq_ok_len: "yq_ok N q cs xs \<Longrightarrow> vals (yq_mem q) c = Some vs \<Longrightarrow> length vs = N"
  unfolding yq_ok_def by blast

lemma yq_init_ok: "0 < N \<Longrightarrow> yq_ok N (yq_init N c) [c] []"
  by (auto simp: yq_ok_def yq_init_def linked_def vals_def allocate_chunk_def split: if_splits)

lemma yq_front_addr: "yq_ok N q cs xs \<Longrightarrow> yq_front q = addr N cs (begin_pos q)"
  using yq_okD(2) [of N q cs xs] by (auto simp: yq_ok_def yq_front_def addr_def hd_conv_nth)


subsection \<open>The operations on the contents\<close>

lemma load_cong: "vals (yq_mem q') = vals (yq_mem q) \<Longrightarrow> yq_load p q' = yq_load p q"
  by (simp add: load_vals)

lemma yq_store_ok:
  assumes ok: "yq_ok N q cs xs" and j: "j < length xs"
  obtains q' where "yq_store (addr N cs (begin_pos q + j)) v q = Some q'" "yq_ok N q' cs (xs[j := Some v])"
    "begin_pos q' = begin_pos q" "yq_back q' = yq_back q" "spare_chunk q' = spare_chunk q"
    "fmdom (yq_mem q') = fmdom (yq_mem q)"
proof -
  let ?b = "begin_pos q"
  let ?c = "cs ! ((?b + j) div N)" and ?i = "(?b + j) mod N"
  have N: "0 < N" using yq_okD [OF ok] by simp
  have dj: "(?b + k) div N < length cs" if "k \<le> length xs" for k using yq_okD [OF ok] that by auto
  then have "?c \<in> set cs" using j by simp
  then have dom: "?c |\<in>| fmdom (yq_mem q)" using ok by (auto simp: yq_ok_def)
  then obtain ck where ck: "fmlookup (yq_mem q) ?c = Some ck" by (auto simp: fmlookup_dom_iff)
  then have len: "length (ck_values ck) = N" using yq_ok_len [OF ok, of ?c] by (simp add: vals_def)
  define q' where "q' = q\<lparr>yq_mem := fmupd ?c (ck\<lparr>ck_values := (ck_values ck)[?i := Some v]\<rparr>) (yq_mem q)\<rparr>"
  have st: "yq_store (addr N cs (?b + j)) v q = Some q'"
    using ck len N by (simp add: yq_store_def addr_def q'_def)
  have dm: "fmdom (yq_mem q') = fmdom (yq_mem q)" using dom by (auto simp: q'_def)
  have nx: "nxt (yq_mem q') = nxt (yq_mem q)" "prv (yq_mem q') = prv (yq_mem q)"
    using ck by (auto simp: q'_def nxt_def prv_def fun_eq_iff)
  have ld: "yq_load (addr N cs (?b + k)) q' = xs[j := Some v] ! k" if k: "k < length xs" for k
  proof (cases "k = j")
    case True
    then show ?thesis using len N k by (simp add: yq_load_def addr_def q'_def)
  next
    case False
    then have "addr N cs (?b + k) \<noteq> addr N cs (?b + j)"
      using addr_inj [of cs "?b + k" N "?b + j"] yq_okD(4) [OF ok] dj [of k] dj [of j] k j by auto
    then have "yq_load (addr N cs (?b + k)) q' = yq_load (addr N cs (?b + k)) q"
      using ck by (auto simp: yq_load_def q'_def addr_def)
    then show ?thesis using False ok k by (simp add: yq_ok_def)
  qed
  have "length vs = N" if "vals (yq_mem q') c = Some vs" for c vs
    using that ok len by (auto simp: yq_ok_def vals_def q'_def split: if_splits)
  then have "yq_ok N q' cs (xs[j := Some v])"
    using ok ld dm nx unfolding yq_ok_def by (auto simp: linked_def q'_def yq_back_def)
  then show ?thesis using st dm by (intro that [of q']) (simp_all add: q'_def yq_back_def)
qed

lemma yq_front_load: "yq_ok N q cs (x # xs) \<Longrightarrow> yq_load (yq_front q) q = x"
  using yq_front_addr [of N q cs "x # xs"] by (auto simp: yq_ok_def)

lemma yq_back_addr: "yq_ok N q cs xs \<Longrightarrow> xs \<noteq> [] \<Longrightarrow> yq_back q = Some (addr N cs (begin_pos q + (length xs - 1)))"
  by (cases xs) (simp_all add: yq_ok_def)

lemma div_mod_Suc:
  assumes "0 < (N :: nat)"
  shows "E mod N + 1 \<noteq> N \<Longrightarrow> Suc E div N = E div N \<and> Suc E mod N = E mod N + 1"
    and "E mod N + 1 = N \<Longrightarrow> Suc E div N = Suc (E div N) \<and> Suc E mod N = 0"
  by (auto simp: div_Suc mod_Suc)

lemma yq_push_ok:
  assumes ok: "yq_ok N q cs xs" and new: "spare_chunk q = None \<Longrightarrow> new = Some c \<and> c |\<notin>| fmdom (yq_mem q)"
  obtains q' cs' x where "yq_push N new q = Some q'" "yq_ok N q' cs' (xs @ [x])" "begin_pos q' = begin_pos q"
    "\<forall>k \<le> begin_pos q + length xs. addr N cs' k = addr N cs k"
proof -
  let ?E = "begin_pos q + length xs"
  note okD = yq_okD [OF ok]
  have lc: "length cs = Suc (?E div N)" and ep: "end_pos q = ?E mod N" using ok by (auto simp: yq_ok_def)
  have E: "end_chunk q = cs ! (?E div N)" "addr N cs ?E = (end_chunk q, end_pos q)" using okD(5) ep by (simp_all add: addr_def)
  define q1 where "q1 = q\<lparr>back_chunk := Some (end_chunk q), back_pos := end_pos q, end_pos := end_pos q + 1\<rparr>"
  show ?thesis
  proof (cases "end_pos q + 1 = N")
    case False
    then have d: "Suc ?E div N = ?E div N" "Suc ?E mod N = ?E mod N + 1" using div_mod_Suc(1) [OF okD(1)] ep by auto
    have p: "yq_push N new q = Some q1" using False by (simp add: yq_push_def q1_def)
    have ld: "yq_load p q1 = yq_load p q" for p by (simp add: yq_load_def q1_def)
    have "yq_ok N q1 cs (xs @ [yq_load (addr N cs ?E) q])"
      using ok d E(2) ld ep unfolding yq_ok_def by (auto simp: q1_def yq_back_def nth_append less_Suc_eq)
    then show ?thesis using that [OF p] by (simp add: q1_def)
  next
    case True
    then have d: "Suc ?E div N = Suc (?E div N)" "Suc ?E mod N = 0" using div_mod_Suc(2) [OF okD(1)] ep by auto
    obtain m sc where m: "(case spare_chunk q1 of Some sc \<Rightarrow> Some (yq_mem q1, sc)
              | None \<Rightarrow> map_option (\<lambda>c. (fmupd c (allocate_chunk N) (yq_mem q1), c)) new) = Some (m, sc)"
        "fset (fmdom m) = set cs \<union> {sc}" "sc \<notin> set cs" "\<forall>c \<in> set cs. vals m c = vals (yq_mem q) c"
        "\<forall>c \<in> set cs. nxt m c = nxt (yq_mem q) c" "\<forall>c \<in> set cs. prv m c = prv (yq_mem q) c"
        "\<forall>c vs. vals m c = Some vs \<longrightarrow> length vs = N"
    proof (cases "spare_chunk q")
      case None
      then have n: "new = Some c" "c |\<notin>| fmdom (yq_mem q)" using new by auto
      then have "c \<notin> set cs" using ok by (auto simp: yq_ok_def)
      moreover have "\<forall>d vs. vals (fmupd c (allocate_chunk N) (yq_mem q)) d = Some vs \<longrightarrow> length vs = N"
        using ok by (auto simp: yq_ok_def vals_def allocate_chunk_def split: if_splits)
      ultimately show ?thesis using that [of "fmupd c (allocate_chunk N) (yq_mem q)" c] None n ok
        by (auto simp: q1_def yq_ok_def field_defs)
    next
      case (Some sc)
      then show ?thesis using that [of "yq_mem q" sc] ok by (auto simp: q1_def yq_ok_def)
    qed
    have ee: "end_chunk q \<in> set cs" using E lc by simp
    have e1: "end_chunk q |\<in>| fmdom m" using m(2) ee by auto
    obtain m1 where m1: "set_next (end_chunk q) (Some sc) m = Some m1" "vals m1 = vals m"
        "nxt m1 = (nxt m)(end_chunk q := Some sc)" "prv m1 = prv m" "fmdom m1 = fmdom m"
      by (rule set_next_ok [OF e1])
    have e2: "sc |\<in>| fmdom m1" using m(2) m1(5) by auto
    obtain m2 where m2: "set_prev sc (Some (end_chunk q)) m1 = Some m2" "vals m2 = vals m1" "nxt m2 = nxt m1"
        "prv m2 = (prv m1)(sc := Some (end_chunk q))" "fmdom m2 = fmdom m1"
      by (rule set_prev_ok [OF e2])
    define q2 where "q2 = q1\<lparr>yq_mem := m2, spare_chunk := None, end_chunk := sc, end_pos := 0\<rparr>"
    have p: "yq_push N new q = Some q2"
      using True m(1) m1(1) m2(1) by (cases "spare_chunk q") (auto simp: yq_push_def q2_def q1_def Let_def)
    have ld: "yq_load (addr N cs k) q2 = yq_load (addr N cs k) q" if "k \<le> ?E" for k
      using okD(6) [OF that] m(4) m1(2) m2(2) by (simp add: load_vals q2_def q1_def addr_def)
    have ln: "linked m2 (cs @ [sc])"
      unfolding linked_def
    proof (intro allI impI)
      fix i assume i: "Suc i < length (cs @ [sc])"
      show "nxt m2 ((cs @ [sc]) ! i) = Some ((cs @ [sc]) ! Suc i) \<and> prv m2 ((cs @ [sc]) ! Suc i) = Some ((cs @ [sc]) ! i)"
      proof (cases "Suc i < length cs")
        case True
        then have "cs ! i \<noteq> end_chunk q" using okD(4) E(1) lc by (simp add: nth_eq_iff_index_eq)
        moreover have "cs ! Suc i \<noteq> sc" using m(3) True by (metis nth_mem)
        ultimately show ?thesis using True ok m(5,6) m1 m2 by (simp add: linked_def yq_ok_def nth_append)
      next
        case False
        then have "i = ?E div N" using i lc by simp
        moreover have "sc \<noteq> end_chunk q" using m(3) ee by blast
        ultimately show ?thesis using m1 m2 E(1) lc by (simp add: nth_append)
      qed
    qed
    have ad: "\<forall>k \<le> ?E. addr N (cs @ [sc]) k = addr N cs k" using okD(6) by (simp add: addr_append)
    have "yq_ok N q2 (cs @ [sc]) (xs @ [yq_load (addr N cs ?E) q])"
    proof (rule yq_okI)
      show "yq_load (addr N (cs @ [sc]) (begin_pos q2 + j)) q2 = (xs @ [yq_load (addr N cs ?E) q]) ! j"
        if "j < length (xs @ [yq_load (addr N cs ?E) q])" for j
      proof -
        have j: "begin_pos q + j \<le> ?E" using that by simp
        have b: "begin_pos q2 = begin_pos q" by (simp add: q2_def q1_def)
        show ?thesis unfolding b using ad [rule_format, OF j] ld [OF j] ok that
          by (cases "j = length xs") (simp_all add: nth_append yq_ok_def)
      qed
      show "linked (yq_mem q2) (cs @ [sc])" using ln by (simp add: q2_def)
      show "length vs = N" if "vals (yq_mem q2) c = Some vs" for c vs using that m(7) m1(2) m2(2) by (simp add: q2_def)
    qed (use okD(3,4) m(2,3) m1(5) m2(5) d lc E(2) ad ep ok okD(2) in \<open>simp_all add: q2_def q1_def yq_back_def yq_ok_def [of N q]\<close>)
    then show ?thesis using that [OF p _ _ ad] by (simp add: q2_def q1_def)
  qed
qed


lemma yq_pop_ok:
  assumes ok: "yq_ok N q cs (x # xs)"
  obtains q' cs' where "yq_pop N q = Some q'" "yq_ok N q' cs' xs"
    "\<forall>j \<le> length xs. addr N cs' (begin_pos q' + j) = addr N cs (begin_pos q + Suc j)" "yq_back q' = yq_back q"
proof -
  note okD = yq_okD [OF ok]
  let ?E = "begin_pos q + Suc (length xs)"
  have lc: "length cs = Suc (?E div N)" and ep: "end_pos q = ?E mod N" using ok by (auto simp: yq_ok_def)
  show ?thesis
  proof (cases "begin_pos q + 1 = N")
    case False
    let ?q = "q\<lparr>begin_pos := begin_pos q + 1\<rparr>"
    have "yq_pop N q = Some ?q" using False by (simp add: yq_pop_def)
    moreover have ld: "yq_load p ?q = yq_load p q" for p by (simp add: yq_load_def)
    have "yq_ok N ?q cs xs"
      using ok False ld unfolding yq_ok_def by (auto simp: yq_back_def)
    ultimately show ?thesis using that [of ?q cs] by (simp add: yq_back_def)
  next
    case True
    then have E: "?E = N + length xs" by simp
    have lc2: "length cs = Suc (Suc (length xs div N))" using lc [unfolded E] okD(1) by simp
    have ep2: "end_pos q = length xs mod N" using ep [unfolded E] by simp
    obtain c d cs' where cs: "cs = c # d # cs'" using lc2 by (metis Suc_length_conv)
    have ec: "end_chunk q = last (d # cs')" using ok by (simp add: yq_ok_def cs)
    let ?m = "yq_mem q" and ?ds = "d # cs'"
    have mem: "fset (fmdom ?m) = set cs \<union> set_option (spare_chunk q)" "set cs \<inter> set_option (spare_chunk q) = {}"
      and dist: "distinct cs" and bc: "begin_chunk q = c" and li: "linked ?m cs" using ok by (auto simp: yq_ok_def cs)
    have nc: "nxt ?m c = Some d" using li [unfolded linked_def, rule_format, of 0] by (simp add: cs)
    then obtain ock where ock: "fmlookup ?m c = Some ock" "ck_next ock = Some d" by (auto simp: nxt_def bind_eq_Some_conv)
    have d1: "d |\<in>| fmdom ?m" using mem(1) by (auto simp: cs)
    obtain m1 where m1: "set_prev d None ?m = Some m1" "vals m1 = vals ?m" "nxt m1 = nxt ?m" "prv m1 = (prv ?m)(d := None)"
        "fmdom m1 = fmdom ?m"
      by (rule set_prev_ok [OF d1])
    have s1: "set_option (spare_chunk q) \<subseteq> fset (fmdom m1)" using mem(1) m1(5) by auto
    obtain m2 where m2: "free_chunk (spare_chunk q) m1 = Some m2" "vals m2 = (\<lambda>c. if spare_chunk q = Some c then None else vals m1 c)"
        "nxt m2 = (\<lambda>c. if spare_chunk q = Some c then None else nxt m1 c)"
        "prv m2 = (\<lambda>c. if spare_chunk q = Some c then None else prv m1 c)"
        "fset (fmdom m2) = fset (fmdom m1) - set_option (spare_chunk q)"
      by (rule free_chunk_ok [OF s1])
    have ns: "spare_chunk q \<noteq> Some a" if "a \<in> set cs" for a using mem(2) that by auto
    define q' where "q' = q\<lparr>yq_mem := m2, begin_chunk := d, begin_pos := 0, spare_chunk := Some c\<rparr>"
    have p: "yq_pop N q = Some q'" using True ock m1(1) m2(1) bc by (simp add: yq_pop_def Let_def q'_def)
    have ad: "addr N ?ds k = addr N cs (N + k)" for k using okD(1) by (simp add: addr_def cs)
    have ld: "yq_load (addr N ?ds k) q' = yq_load (addr N cs (N + k)) q" if "k \<le> length xs" for k
      unfolding ad using ns okD(6) [of "N + k"] that E m1(2) m2(2) by (simp add: load_vals q'_def addr_def)
    have "linked m2 ?ds"
      unfolding linked_def
    proof (intro allI impI)
      fix i assume i: "Suc i < length ?ds"
      have "?ds ! Suc i \<in> set cs" "?ds ! i \<in> set cs" using i by (auto simp: cs nth_Cons' dest: nth_mem)
      moreover have "?ds ! Suc i \<noteq> d" using dist i by (auto simp: cs)
      ultimately show "nxt m2 (?ds ! i) = Some (?ds ! Suc i) \<and> prv m2 (?ds ! Suc i) = Some (?ds ! i)"
        using li [unfolded linked_def, rule_format, of "Suc i"] i ns m1 m2 by (simp add: cs)
    qed
    moreover have "length vs = N" if "vals m2 a = Some vs" for a vs
      using that m1(2) m2(2) yq_ok_len [OF ok, of a] by (auto split: if_splits)
    moreover have "set ?ds \<inter> {c} = {}" using dist by (auto simp: cs)
    moreover have "fset (fmdom m2) = set ?ds \<union> {c}" using m2(5) m1(5) mem by (auto simp: cs)
    ultimately have ok': "linked m2 ?ds" "\<And>a vs. vals m2 a = Some vs \<Longrightarrow> length vs = N" "set ?ds \<inter> {c} = {}"
      "fset (fmdom m2) = set ?ds \<union> {c}" by blast+
    have "yq_ok N q' ?ds xs"
    proof (rule yq_okI)
      show "yq_load (addr N ?ds (begin_pos q' + j)) q' = xs ! j" if "j < length xs" for j
      proof -
        have "yq_load (addr N cs (begin_pos q + Suc j)) q = (x # xs) ! Suc j"
          using ok that unfolding yq_ok_def by (metis Suc_less_eq length_Cons)
        then have "yq_load (addr N cs (N + j)) q = xs ! j" using True by (metis add.assoc nth_Cons_Suc plus_1_eq_Suc)
        then show ?thesis using ld [of j] that by (simp add: q'_def)
      qed
      show "yq_back q' = Some (addr N ?ds (begin_pos q' + length xs - 1))" if "xs \<noteq> []"
      proof -
        have "N + (length xs - 1) = begin_pos q + length (x # xs) - 1" using that True by (cases xs) simp_all
        then show ?thesis using yq_back_addr [OF ok] that by (simp add: q'_def yq_back_def ad)
      qed
    qed (use okD(1) lc2 ok' dist ep2 ec in \<open>simp_all add: q'_def cs\<close>)
    moreover have "addr N ?ds (begin_pos q' + j) = addr N cs (begin_pos q + Suc j)" for j
    proof -
      have "begin_pos q + Suc j = N + j" using True by linarith
      then have "addr N cs (begin_pos q + Suc j) = addr N cs (N + j)" by (rule arg_cong)
      moreover have "begin_pos q' = 0" by (simp add: q'_def)
      ultimately show ?thesis by (simp only: ad add_0)
    qed
    ultimately show ?thesis using that [OF p, of ?ds] by (simp add: q'_def yq_back_def)
  qed
qed


lemma div_mod_pred:
  assumes "0 < (N :: nat)" "0 < k"
  shows "k mod N \<noteq> 0 \<Longrightarrow> (k - 1) div N = k div N \<and> (k - 1) mod N = k mod N - 1"
    and "k mod N = 0 \<Longrightarrow> Suc ((k - 1) div N) = k div N \<and> (k - 1) mod N = N - 1"
proof -
  obtain j where j: "k = Suc j" using assms(2) gr0_conv_Suc by blast
  show "k mod N \<noteq> 0 \<Longrightarrow> (k - 1) div N = k div N \<and> (k - 1) mod N = k mod N - 1"
    and "k mod N = 0 \<Longrightarrow> Suc ((k - 1) div N) = k div N \<and> (k - 1) mod N = N - 1"
    using div_mod_Suc [OF assms(1), of j] by (cases "j mod N + 1 = N"; simp add: j)+
qed

text \<open>The previous position of a slot, as \<open>unpush\<close> finds it.\<close>

lemma back_step:
  assumes ok: "yq_ok N q cs xs" and len: "2 \<le> length xs"
  shows "(if back_pos q \<noteq> 0 then Some (q\<lparr>back_pos := back_pos q - 1\<rparr>)
          else do { b \<leftarrow> back_chunk q; ck \<leftarrow> fmlookup (yq_mem q) b; Some (q\<lparr>back_pos := N - 1, back_chunk := ck_prev ck\<rparr>) })
    = Some (q\<lparr>back_pos := snd (addr N cs (begin_pos q + length xs - 2)),
              back_chunk := Some (fst (addr N cs (begin_pos q + length xs - 2)))\<rparr>)"
proof -
  let ?k = "begin_pos q + length xs - 1"
  have k: "0 < ?k" "?k - 1 = begin_pos q + length xs - 2" using len by auto
  note okD = yq_okD [OF ok]
  have xs: "xs \<noteq> []" using len by auto
  have b: "back_chunk q = Some (cs ! (?k div N))" "back_pos q = ?k mod N"
    using yq_back_addr [OF ok xs] len by (auto simp: yq_back_def addr_def)
  show ?thesis
  proof (cases "?k mod N = 0")
    case False
    then have "back_pos q \<noteq> 0" using b by simp
    moreover have "q\<lparr>back_pos := ?k mod N - 1\<rparr> = q\<lparr>back_pos := ?k mod N - 1, back_chunk := back_chunk q\<rparr>" by simp
    ultimately show ?thesis using div_mod_pred(1) [OF okD(1) k(1) False] b k(2) by (simp add: addr_def)
  next
    case True
    then have d: "Suc ((?k - 1) div N) = ?k div N" "(?k - 1) mod N = N - 1" using div_mod_pred(2) [OF okD(1) k(1)] by auto
    have "?k div N < length cs" using okD(6) [of ?k] by simp
    then have "prv (yq_mem q) (cs ! (?k div N)) = Some (cs ! ((?k - 1) div N))"
      using ok d(1) unfolding yq_ok_def linked_def by metis
    then obtain ck where "fmlookup (yq_mem q) (cs ! (?k div N)) = Some ck" "ck_prev ck = Some (cs ! ((?k - 1) div N))"
      by (auto simp: prv_def bind_eq_Some_conv)
    then show ?thesis using True b d k(2) by (simp add: addr_def)
  qed
qed

lemma linked_butlast: "linked m (cs @ [c]) \<Longrightarrow> linked m cs"
  unfolding linked_def by (metis Suc_lessD length_append_singleton less_Suc_eq nth_append)

lemma yq_unpush_ok:
  assumes ok: "yq_ok N q cs (ys @ [y])" and ys: "ys \<noteq> []"
  obtains q' cs' where "yq_unpush N q = Some q'" "yq_ok N q' cs' ys" "begin_pos q' = begin_pos q"
    "\<forall>k \<le> begin_pos q + length ys. addr N cs' k = addr N cs k"
proof -
  let ?E = "begin_pos q + Suc (length ys)"
  let ?b = "addr N cs (begin_pos q + length ys - 1)"
  note okD = yq_okD [OF ok]
  have lc: "length cs = Suc (?E div N)" and ep: "end_pos q = ?E mod N" using ok by (auto simp: yq_ok_def)
  have len: "2 \<le> length (ys @ [y])" using ys by (cases ys) simp_all
  define q1 where "q1 = q\<lparr>back_pos := snd ?b, back_chunk := Some (fst ?b)\<rparr>"
  have st: "yq_unpush N q = (if end_pos q1 \<noteq> 0 then Some (q1\<lparr>end_pos := end_pos q1 - 1\<rparr>)
           else
             do { ck \<leftarrow> fmlookup (yq_mem q1) (end_chunk q1); e \<leftarrow> ck_prev ck; eck \<leftarrow> fmlookup (yq_mem q1) e;
                  m \<leftarrow> free_chunk (ck_next eck) (yq_mem q1); m \<leftarrow> set_next e None m;
                  Some (q1\<lparr>yq_mem := m, end_pos := N - 1, end_chunk := e\<rparr>) })"
    unfolding yq_unpush_def back_step [OF ok len] q1_def by (simp add: numeral_2_eq_2)
  have E0: "0 < ?E" "?E - 1 = begin_pos q + length ys" by auto
  show ?thesis
  proof (cases "end_pos q = 0")
    case False
    let ?q = "q1\<lparr>end_pos := end_pos q1 - 1\<rparr>"
    have d: "(begin_pos q + length ys) div N = ?E div N" "(begin_pos q + length ys) mod N = ?E mod N - 1"
      using div_mod_pred(1) [OF okD(1) E0(1)] False ep E0(2) by auto
    have p: "yq_unpush N q = Some ?q" using st False by (simp add: q1_def)
    have ld: "yq_load p ?q = yq_load p q" for p by (simp add: yq_load_def q1_def)
    have "yq_ok N ?q cs ys"
    proof (rule yq_okI)
      show "yq_load (addr N cs (begin_pos ?q + j)) ?q = ys ! j" if "j < length ys" for j
        unfolding ld using ok that by (auto simp: q1_def yq_ok_def nth_append)
      show "length vs = N" if "vals (yq_mem ?q) c = Some vs" for c vs using that yq_ok_len [OF ok] by (simp add: q1_def)
    qed (use d ok lc ep in \<open>simp_all add: q1_def yq_back_def yq_ok_def [of N q]\<close>)
    then show ?thesis using that [OF p, of cs] by (simp add: q1_def)
  next
    case True
    have d: "Suc ((begin_pos q + length ys) div N) = ?E div N" "(begin_pos q + length ys) mod N = N - 1"
      using div_mod_pred(2) [OF okD(1) E0(1)] True ep E0(2) by auto
    define n where "n = (begin_pos q + length ys) div N"
    have lcs: "length cs = Suc (Suc n)" using lc d(1) by (simp add: n_def)
    then obtain ds l where cs: "cs = ds @ [l]" and lds: "length ds = Suc n" by (metis length_Suc_conv_rev)
    let ?m = "yq_mem q" and ?e = "ds ! n"
    have mem: "fset (fmdom ?m) = set cs \<union> set_option (spare_chunk q)" "set cs \<inter> set_option (spare_chunk q) = {}"
      and dist: "distinct cs" and li: "linked ?m cs" and ec: "end_chunk q = l" using ok by (auto simp: yq_ok_def cs)
    have ne: "ds \<noteq> []" using lds by auto
    have le: "last ds = ?e" "?e \<in> set ds" using last_conv_nth [OF ne] lds by simp_all
    have "nxt ?m ?e = Some l" "prv ?m l = Some ?e"
      using li [unfolded linked_def, rule_format, of n] lcs lds by (simp_all add: cs nth_append)
    then obtain ck eck where ck: "fmlookup ?m l = Some ck" "ck_prev ck = Some ?e" "fmlookup ?m ?e = Some eck" "ck_next eck = Some l"
      by (auto simp: nxt_def prv_def bind_eq_Some_conv)
    have l1: "set_option (Some l) \<subseteq> fset (fmdom ?m)" using mem(1) by (simp add: cs)
    obtain m1 where m1: "free_chunk (Some l) ?m = Some m1" "vals m1 = (\<lambda>c. if Some l = Some c then None else vals ?m c)"
        "nxt m1 = (\<lambda>c. if Some l = Some c then None else nxt ?m c)" "prv m1 = (\<lambda>c. if Some l = Some c then None else prv ?m c)"
        "fset (fmdom m1) = fset (fmdom ?m) - set_option (Some l)"
      by (rule free_chunk_ok [OF l1])
    have e1: "?e |\<in>| fmdom m1" using m1(5) mem(1) le(2) dist by (auto simp: cs)
    obtain m2 where m2: "set_next ?e None m1 = Some m2" "vals m2 = vals m1" "nxt m2 = (nxt m1)(?e := None)" "prv m2 = prv m1"
        "fmdom m2 = fmdom m1"
      by (rule set_next_ok [OF e1])
    define q' where "q' = q1\<lparr>yq_mem := m2, end_pos := N - 1, end_chunk := ?e\<rparr>"
    have p: "yq_unpush N q = Some q'" using st True ck m1(1) m2(1) ec by (simp add: q1_def q'_def)
    have nl: "x \<noteq> l" if "x \<in> set ds" for x using dist that by (auto simp: cs)
    have ad: "addr N ds k = addr N cs k" and ld: "yq_load (addr N cs k) q' = yq_load (addr N cs k) q"
      if "k \<le> begin_pos q + length ys" for k
    proof -
      have "k div N < length ds" using div_le_mono [OF that, of N] by (simp add: lds n_def)
      then have "ds ! (k div N) \<noteq> l" and a: "addr N ds k = addr N cs k" using nl by (simp_all add: cs addr_append)
      then show "addr N ds k = addr N cs k" "yq_load (addr N cs k) q' = yq_load (addr N cs k) q"
        unfolding a [symmetric] using m1(2) m2(2) by (simp_all add: load_vals q'_def q1_def addr_def)
    qed
    have "linked m2 ds"
      unfolding linked_def
    proof (intro allI impI)
      fix i assume i: "Suc i < length ds"
      have "nxt ?m (ds ! i) = Some (ds ! Suc i) \<and> prv ?m (ds ! Suc i) = Some (ds ! i)"
        using linked_butlast [OF li [unfolded cs]] i by (simp add: linked_def)
      moreover have "ds ! i \<noteq> ?e" using dist i lds by (simp add: cs nth_eq_iff_index_eq)
      moreover have "ds ! i \<in> set ds" "ds ! Suc i \<in> set ds" using i by simp_all
      ultimately show "nxt m2 (ds ! i) = Some (ds ! Suc i) \<and> prv m2 (ds ! Suc i) = Some (ds ! i)"
        using nl [of "ds ! i"] nl [of "ds ! Suc i"] by (simp add: m1(3,4) m2(3,4))
    qed
    moreover have "length vs = N" if "vals m2 a = Some vs" for a vs
      using that m1(2) m2(2) yq_ok_len [OF ok, of a] by (auto split: if_splits)
    moreover have "fset (fmdom m2) = set ds \<union> set_option (spare_chunk q)" using m2(5) m1(5) mem dist by (auto simp: cs)
    moreover have "set ds \<inter> set_option (spare_chunk q) = {}" using mem(2) by (auto simp: cs)
    ultimately have ok': "linked m2 ds" "\<And>a vs. vals m2 a = Some vs \<Longrightarrow> length vs = N"
      "fset (fmdom m2) = set ds \<union> set_option (spare_chunk q)" "set ds \<inter> set_option (spare_chunk q) = {}" by blast+
    have bq: "begin_pos q' = begin_pos q" by (simp add: q'_def q1_def)
    have "yq_ok N q' ds ys"
    proof (rule yq_okI)
      show "yq_load (addr N ds (begin_pos q' + j)) q' = ys ! j" if "j < length ys" for j
        using ok that ad [of "begin_pos q + j"] ld [of "begin_pos q + j"] by (auto simp: bq yq_ok_def nth_append)
      show "yq_back q' = Some (addr N ds (begin_pos q' + length ys - 1))"
        using ad [of "begin_pos q + length ys - 1"] by (simp add: q'_def q1_def yq_back_def)
    qed (use ok' okD(3) dist lds d(2) ne le ok in \<open>simp_all add: q'_def q1_def cs n_def yq_ok_def [of N q]\<close>)
    then show ?thesis using that [OF p, of ds] ad bq by simp
  qed
qed


text \<open>The destructor frees every chunk, the spare one included.\<close>

lemma free_chain_ok:
  assumes "linked m (c # cs)" "distinct (c # cs)" "set (c # cs) \<subseteq> fset (fmdom m)"
  shows "\<exists>m'. free_chain c (last (c # cs)) m = Some m' \<and> fset (fmdom m') = fset (fmdom m) - set (c # cs)"
  using assms
proof (induction cs arbitrary: c m)
  case Nil
  then show ?case by (auto simp: free_chain.simps [of c c] free_chunk_def fmlookup_dom_iff)
next
  case (Cons d cs)
  have c: "fmlookup m c \<noteq> None" "nxt m c = Some d" "c \<noteq> last (d # cs)"
    using Cons.prems by (auto simp: linked_def fmlookup_dom_iff dest!: spec [of _ 0] split: if_splits)
  let ?m = "fmdrop c m"
  have "linked ?m (d # cs)"
    unfolding linked_def
  proof (intro allI impI)
    fix i assume i: "Suc i < length (d # cs)"
    have "(d # cs) ! i \<noteq> c" "(d # cs) ! Suc i \<noteq> c" using Cons.prems(2) i by (metis Suc_lessD distinct.simps(2) nth_mem)+
    then show "nxt ?m ((d # cs) ! i) = Some ((d # cs) ! Suc i) \<and> prv ?m ((d # cs) ! Suc i) = Some ((d # cs) ! i)"
      using Cons.prems(1) [unfolded linked_def, rule_format, of "Suc i"] i by (simp add: nxt_def prv_def)
  qed
  moreover have "set (d # cs) \<subseteq> fset (fmdom ?m)" using Cons.prems(2,3) by auto
  ultimately obtain m' where m': "free_chain d (last (d # cs)) ?m = Some m'" "fset (fmdom m') = fset (fmdom ?m) - set (d # cs)"
    using Cons.IH [of ?m d] Cons.prems(2) by auto
  have "free_chain c (last (c # d # cs)) m = free_chain d (last (d # cs)) ?m"
    using c by (auto simp: free_chain.simps [of c] nxt_def)
  then show ?case using m' by auto
qed

lemma yq_destroy_ok:
  assumes ok: "yq_ok N q cs xs"
  shows "yq_destroy q = Some fmempty"
proof -
  obtain c ds where cs: "cs = c # ds" using yq_okD(2) [OF ok] by (cases cs) auto
  obtain m where m: "free_chain (begin_chunk q) (end_chunk q) (yq_mem q) = Some m"
      "fset (fmdom m) = fset (fmdom (yq_mem q)) - set cs"
    using free_chain_ok [of "yq_mem q" c ds] ok by (auto simp: yq_ok_def cs)
  have s: "fset (fmdom m) = set_option (spare_chunk q)" using m(2) ok by (auto simp: yq_ok_def)
  have s': "set_option (spare_chunk q) \<subseteq> fset (fmdom m)" using s by simp
  obtain m' where m': "free_chunk (spare_chunk q) m = Some m'" and "fset (fmdom m') = fset (fmdom m) - set_option (spare_chunk q)"
    by (rule free_chunk_ok [OF s'])
  then have "fmdom m' = {||}" using s by (simp add: fset_inject [symmetric])
  then have "m' = fmempty" by (metis fmrestrict_fset_dom fmrestrict_fset_null)
  then show ?thesis using m(1) m'(1) by (simp add: yq_destroy_def)
qed

end
