(* ===== verification/Ypipe.thy ===== *)
theory Ypipe
  imports Yqueue
begin

section \<open>The lock-free pipe\<close>

text \<open>
  Models \<open>core/ypipe.hpp\<close>: one writer and one reader share a chunked queue. Four pointers into the
  queue divide it: \<open>_r\<close> ends what the reader has prefetched, \<open>_w\<close> what has been flushed, \<open>_f\<close> what is
  complete; \<open>_c\<close> is the one shared word, changed by compare-and-swap, and NULL while the reader sleeps.
  The two accesses to \<open>_c\<close> inside \<open>flush\<close> are separate steps, between which the reader may run; every
  other operation touches the shared word once and is one step. Atomic operations are taken to be
  sequentially consistent.
\<close>

subsection \<open>State and operations\<close>

record 'a ypipe =
  yp_queue :: "'a yqueue"
  yp_w :: ptr
  yp_r :: "ptr option"
  yp_f :: ptr
  yp_c :: "ptr option"

text \<open>Compare and swap: the old value, and the value afterwards.\<close>

definition cas :: "ptr option \<Rightarrow> ptr option \<Rightarrow> ptr option \<Rightarrow> ptr option \<times> ptr option" where
  "cas c cmp v = (c, if c = cmp then v else c)"

definition yp_init :: "nat \<Rightarrow> cid \<Rightarrow> cid option \<Rightarrow> 'a ypipe option" where
  "yp_init N c new =
     do { q \<leftarrow> yq_push N new (yq_init N c);
          b \<leftarrow> yq_back q;
          Some \<lparr>yp_queue = q, yp_w = b, yp_r = Some b, yp_f = b, yp_c = Some b\<rparr> }"

definition yp_write :: "nat \<Rightarrow> 'a \<Rightarrow> bool \<Rightarrow> cid option \<Rightarrow> 'a ypipe \<Rightarrow> 'a ypipe option" where
  "yp_write N v incomplete new p =
     do { b \<leftarrow> yq_back (yp_queue p);
          q \<leftarrow> yq_store b v (yp_queue p);
          q \<leftarrow> yq_push N new q;
          f \<leftarrow> (if incomplete then Some (yp_f p) else yq_back q);
          Some (p\<lparr>yp_queue := q, yp_f := f\<rparr>) }"

definition yp_unwrite :: "nat \<Rightarrow> 'a ypipe \<Rightarrow> ('a option \<times> 'a ypipe) option" where
  "yp_unwrite N p =
     do { b \<leftarrow> yq_back (yp_queue p);
          if yp_f p = b then Some (None, p)
          else do { q \<leftarrow> yq_unpush N (yp_queue p);
                    b \<leftarrow> yq_back q;
                    v \<leftarrow> yq_load b q;
                    Some (Some v, p\<lparr>yp_queue := q\<rparr>) } }"

text \<open>The first half of \<open>flush\<close> ends with a result, or finds the reader asleep.\<close>

definition flush_begin :: "'a ypipe \<Rightarrow> bool option \<times> 'a ypipe" where
  "flush_begin p =
     (if yp_w p = yp_f p then (Some True, p)
      else
        let (old, c) = cas (yp_c p) (Some (yp_w p)) (Some (yp_f p)) in
        if old \<noteq> Some (yp_w p) then (None, p\<lparr>yp_c := c\<rparr>)
        else (Some True, p\<lparr>yp_c := c, yp_w := yp_f p\<rparr>))"

definition flush_finish :: "'a ypipe \<Rightarrow> bool \<times> 'a ypipe" where
  "flush_finish p = (False, p\<lparr>yp_c := Some (yp_f p), yp_w := yp_f p\<rparr>)"

definition yp_flush :: "'a ypipe \<Rightarrow> bool \<times> 'a ypipe" where
  "yp_flush p = (case flush_begin p of (Some b, p) \<Rightarrow> (b, p) | (None, p) \<Rightarrow> flush_finish p)"

definition yp_check_read :: "'a ypipe \<Rightarrow> bool \<times> 'a ypipe" where
  "yp_check_read p =
     (let front = Some (yq_front (yp_queue p)) in
      if front \<noteq> yp_r p \<and> yp_r p \<noteq> None then (True, p)
      else
        let (r, c) = cas (yp_c p) front None;
            p = p\<lparr>yp_r := r, yp_c := c\<rparr> in
        (\<not> (front = r \<or> r = None), p))"

text \<open>The item and whether the prefetched batch is exhausted.\<close>

definition take_front :: "nat \<Rightarrow> 'a ypipe \<Rightarrow> (('a \<times> bool) \<times> 'a ypipe) option" where
  "take_front N p =
     do { v \<leftarrow> yq_load (yq_front (yp_queue p)) (yp_queue p);
          q \<leftarrow> yq_pop N (yp_queue p);
          Some ((v, Some (yq_front q) = yp_r p), p\<lparr>yp_queue := q\<rparr>) }"

definition yp_read :: "nat \<Rightarrow> 'a ypipe \<Rightarrow> (('a \<times> bool) option \<times> 'a ypipe) option" where
  "yp_read N p =
     (case yp_check_read p of
        (False, p) \<Rightarrow> Some (None, p)
      | (True, p) \<Rightarrow> map_option (\<lambda>(x, p). (Some x, p)) (take_front N p))"

text \<open>The item the callback is called with.\<close>

definition yp_probe_if_published :: "'a ypipe \<Rightarrow> ('a option \<times> 'a ypipe) option" where
  "yp_probe_if_published p =
     (let front = Some (yq_front (yp_queue p));
          found = (\<lambda>p. map_option (\<lambda>v. (Some v, p)) (yq_load (yq_front (yp_queue p)) (yp_queue p))) in
      if front = yp_r p \<or> yp_r p = None then
        let (published, c) = cas (yp_c p) None None;
            p = p\<lparr>yp_c := c\<rparr> in
        if published = None \<or> published = front then Some (None, p) else found (p\<lparr>yp_r := published\<rparr>)
      else found p)"

datatype 'a read_result = read_empty | read_rejected | read_consumed 'a bool

definition yp_read_if :: "nat \<Rightarrow> ('a \<Rightarrow> bool) \<Rightarrow> 'a ypipe \<Rightarrow> ('a read_result \<times> 'a ypipe) option" where
  "yp_read_if N fn p =
     (case yp_check_read p of
        (False, p) \<Rightarrow> Some (read_empty, p)
      | (True, p) \<Rightarrow>
          do { v \<leftarrow> yq_load (yq_front (yp_queue p)) (yp_queue p);
               if \<not> fn v then Some (read_rejected, p)
               else map_option (\<lambda>((v, b), p). (read_consumed v b, p)) (take_front N p) })"

subsection \<open>Specification: a queue of published, complete and incomplete items\<close>

record 'a fifo =
  fq_out :: "'a list"
  fq_done :: "'a list"
  fq_part :: "'a list"
  fq_pre :: nat
  fq_asleep :: bool

definition fifo_init :: "'a fifo" where
  "fifo_init = \<lparr>fq_out = [], fq_done = [], fq_part = [], fq_pre = 0, fq_asleep = False\<rparr>"

definition fifo_write :: "'a \<Rightarrow> bool \<Rightarrow> 'a fifo \<Rightarrow> 'a fifo" where
  "fifo_write v incomplete s =
     (if incomplete then s\<lparr>fq_part := fq_part s @ [v]\<rparr>
      else s\<lparr>fq_done := fq_done s @ fq_part s @ [v], fq_part := []\<rparr>)"

definition fifo_unwrite :: "'a fifo \<Rightarrow> 'a option \<times> 'a fifo" where
  "fifo_unwrite s = (if fq_part s = [] then (None, s) else (Some (last (fq_part s)), s\<lparr>fq_part := butlast (fq_part s)\<rparr>))"

definition fifo_publish :: "'a fifo \<Rightarrow> 'a fifo" where
  "fifo_publish s = s\<lparr>fq_out := fq_out s @ fq_done s, fq_done := [], fq_asleep := False\<rparr>"

definition fifo_flush_begin :: "'a fifo \<Rightarrow> bool option \<times> 'a fifo" where
  "fifo_flush_begin s =
     (if fq_done s = [] then (Some True, s) else if fq_asleep s then (None, s) else (Some True, fifo_publish s))"

definition fifo_check_read :: "'a fifo \<Rightarrow> bool \<times> 'a fifo" where
  "fifo_check_read s =
     (if fq_out s = [] then (False, s\<lparr>fq_asleep := True\<rparr>)
      else (True, if fq_pre s = 0 then s\<lparr>fq_pre := length (fq_out s)\<rparr> else s))"

definition fifo_take :: "'a fifo \<Rightarrow> ('a \<times> bool) \<times> 'a fifo" where
  "fifo_take s = ((hd (fq_out s), fq_pre s = 1), s\<lparr>fq_out := tl (fq_out s), fq_pre := fq_pre s - 1\<rparr>)"

definition fifo_read :: "'a fifo \<Rightarrow> ('a \<times> bool) option \<times> 'a fifo" where
  "fifo_read s = (case fifo_check_read s of (False, s) \<Rightarrow> (None, s) | (True, s) \<Rightarrow> (case fifo_take s of (x, s) \<Rightarrow> (Some x, s)))"

definition fifo_probe :: "'a fifo \<Rightarrow> 'a option \<times> 'a fifo" where
  "fifo_probe s =
     (if fq_out s = [] then (None, s)
      else (Some (hd (fq_out s)), if fq_pre s = 0 then s\<lparr>fq_pre := length (fq_out s)\<rparr> else s))"

definition fifo_read_if :: "('a \<Rightarrow> bool) \<Rightarrow> 'a fifo \<Rightarrow> 'a read_result \<times> 'a fifo" where
  "fifo_read_if fn s =
     (case fifo_check_read s of
        (False, s) \<Rightarrow> (read_empty, s)
      | (True, s) \<Rightarrow>
          if \<not> fn (hd (fq_out s)) then (read_rejected, s)
          else (case fifo_take s of ((v, b), s) \<Rightarrow> (read_consumed v b, s)))"

subsection \<open>The simulation relation\<close>

abbreviation items :: "'a fifo \<Rightarrow> 'a list" where
  "items s \<equiv> fq_out s @ fq_done s @ fq_part s"

abbreviation yptr :: "nat \<Rightarrow> cid list \<Rightarrow> 'a ypipe \<Rightarrow> nat \<Rightarrow> ptr" where
  "yptr N cs p j \<equiv> addr N cs (begin_pos (yp_queue p) + j)"

definition yp_rel :: "nat \<Rightarrow> cid list \<Rightarrow> 'a ypipe \<Rightarrow> 'a fifo \<Rightarrow> bool" where
  "yp_rel N cs p s \<longleftrightarrow>
     (\<exists>x. yq_ok N (yp_queue p) cs (map Some (items s) @ [x]))
     \<and> yp_w p = yptr N cs p (length (fq_out s)) \<and> yp_f p = yptr N cs p (length (fq_out s @ fq_done s))
     \<and> yp_c p = (if fq_asleep s then None else Some (yp_w p))
     \<and> (fq_asleep s \<longrightarrow> fq_out s = []) \<and> fq_pre s \<le> length (fq_out s)
     \<and> (yp_r p = Some (yptr N cs p (fq_pre s)) \<or> (yp_r p = None \<and> fq_pre s = 0))"

lemma yp_relE:
  assumes "yp_rel N cs p s"
  obtains x where "yq_ok N (yp_queue p) cs (map Some (items s) @ [x])"
    "yp_w p = yptr N cs p (length (fq_out s))" "yp_f p = yptr N cs p (length (fq_out s @ fq_done s))"
    "yp_c p = (if fq_asleep s then None else Some (yp_w p))" "fq_asleep s \<longrightarrow> fq_out s = []"
    "fq_pre s \<le> length (fq_out s)" "yp_r p = Some (yptr N cs p (fq_pre s)) \<or> (yp_r p = None \<and> fq_pre s = 0)"
    "yq_front (yp_queue p) = yptr N cs p 0" "yq_back (yp_queue p) = Some (yptr N cs p (length (items s)))"
proof -
  obtain x where x: "yq_ok N (yp_queue p) cs (map Some (items s) @ [x])" using assms by (auto simp: yp_rel_def)
  show ?thesis
    by (rule that [OF x]) (use assms yq_front_addr [OF x] yq_back_addr [OF x] in \<open>auto simp: yp_rel_def\<close>)
qed

text \<open>Pointers to different positions are different.\<close>

lemma yptr_eq:
  assumes "yp_rel N cs p s" "i \<le> length (items s)" "j \<le> length (items s)"
  shows "yptr N cs p i = yptr N cs p j \<longleftrightarrow> i = j"
proof -
  obtain x where x: "yq_ok N (yp_queue p) cs (map Some (items s) @ [x])" using assms(1) by (auto simp: yp_rel_def)
  note okD = yq_okD [OF x]
  show ?thesis
    using addr_inj [OF okD(4), of "begin_pos (yp_queue p) + i" N "begin_pos (yp_queue p) + j"]
      okD(6) [of "begin_pos (yp_queue p) + i"] okD(6) [of "begin_pos (yp_queue p) + j"] assms(2,3) by auto
qed

subsection \<open>Every operation simulates its specification\<close>

definition alloc_ok :: "cid option \<Rightarrow> 'a yqueue \<Rightarrow> bool" where
  "alloc_ok new q \<longleftrightarrow> (spare_chunk q = None \<longrightarrow> (\<exists>c. new = Some c \<and> c |\<notin>| fmdom (yq_mem q)))"

lemma push_alloc:
  assumes "yq_ok N q cs xs" "alloc_ok new q"
  obtains q' cs' x where "yq_push N new q = Some q'" "yq_ok N q' cs' (xs @ [x])" "begin_pos q' = begin_pos q"
    "\<forall>k \<le> begin_pos q + length xs. addr N cs' k = addr N cs k"
proof -
  obtain c where "spare_chunk q = None \<Longrightarrow> new = Some c \<and> c |\<notin>| fmdom (yq_mem q)" using assms(2) by (auto simp: alloc_ok_def)
  from yq_push_ok [OF assms(1) this] that show ?thesis by blast
qed

lemma yp_init_sim:
  assumes "0 < N" "alloc_ok new (yq_init N c :: 'a yqueue)"
  shows "\<exists>p cs. yp_init N c new = Some (p :: 'a ypipe) \<and> yp_rel N cs p fifo_init"
proof -
  obtain q cs x where q: "yq_push N new (yq_init N c) = Some (q :: 'a yqueue)" "yq_ok N q cs ([] @ [x])"
      and "begin_pos q = begin_pos (yq_init N c :: 'a yqueue)"
    by (rule push_alloc [OF yq_init_ok [OF assms(1)] assms(2)])
  then have q0: "begin_pos q = 0" by (simp add: yq_init_def)
  have b: "yq_back q = Some (addr N cs 0)" using yq_back_addr [OF q(2)] q0 by simp
  then show ?thesis using q q0 by (auto simp: yp_init_def yp_rel_def fifo_init_def)
qed

lemma yp_write_sim:
  assumes rel: "yp_rel N cs p s" and al: "alloc_ok new (yp_queue p)"
  shows "\<exists>p' cs'. yp_write N v inc new p = Some p' \<and> yp_rel N cs' p' (fifo_write v inc s)"
proof -
  obtain x where x: "yq_ok N (yp_queue p) cs (map Some (items s) @ [x])"
      "yp_w p = yptr N cs p (length (fq_out s))" "yp_f p = yptr N cs p (length (fq_out s @ fq_done s))"
      "yp_c p = (if fq_asleep s then None else Some (yp_w p))" "fq_asleep s \<longrightarrow> fq_out s = []"
      "fq_pre s \<le> length (fq_out s)" "yp_r p = Some (yptr N cs p (fq_pre s)) \<or> (yp_r p = None \<and> fq_pre s = 0)"
      and b: "yq_back (yp_queue p) = Some (yptr N cs p (length (items s)))"
    by (rule yp_relE [OF rel])
  have j: "length (items s) < length (map Some (items s) @ [x])" by simp
  obtain q where q: "yq_store (yptr N cs p (length (items s))) v (yp_queue p) = Some q"
      "yq_ok N q cs ((map Some (items s) @ [x])[length (items s) := Some v])" "begin_pos q = begin_pos (yp_queue p)"
      "yq_back q = yq_back (yp_queue p)" "spare_chunk q = spare_chunk (yp_queue p)" "fmdom (yq_mem q) = fmdom (yq_mem (yp_queue p))"
    by (rule yq_store_ok [OF x(1) j])
  have q2: "yq_ok N q cs (map Some (items s @ [v]))" using q(2) by (simp add: list_update_append)
  have al': "alloc_ok new q" using al q(5,6) by (simp add: alloc_ok_def)
  obtain q' cs' y where q': "yq_push N new q = Some q'" "yq_ok N q' cs' (map Some (items s @ [v]) @ [y])" "begin_pos q' = begin_pos q"
      "\<forall>k \<le> begin_pos q + length (map Some (items s @ [v])). addr N cs' k = addr N cs k"
    by (rule push_alloc [OF q2 al'])
  define p' where "p' = p\<lparr>yp_queue := q', yp_f := (if inc then yp_f p else addr N cs' (begin_pos q' + Suc (length (items s))))\<rparr>"
  have b': "yq_back q' = Some (addr N cs' (begin_pos q' + Suc (length (items s))))" using yq_back_addr [OF q'(2)] by simp
  have w: "yp_write N v inc new p = Some p'" using b q(1) q'(1) b' by (simp add: yp_write_def p'_def)
  have ptr: "yptr N cs' p' k = yptr N cs p k" if "k \<le> Suc (length (items s))" for k
    using q'(3,4) q(3) that by (simp add: p'_def)
  have "yp_rel N cs' p' (fifo_write v inc s)"
    unfolding yp_rel_def
  proof (intro conjI)
    show "\<exists>y. yq_ok N (yp_queue p') cs' (map Some (items (fifo_write v inc s)) @ [y])"
      using q'(2) by (auto simp: p'_def fifo_write_def)
    show "yp_w p' = yptr N cs' p' (length (fq_out (fifo_write v inc s)))"
      using ptr [of "length (fq_out s)"] x(2) by (simp add: p'_def fifo_write_def)
    show "yp_f p' = yptr N cs' p' (length (fq_out (fifo_write v inc s) @ fq_done (fifo_write v inc s)))"
      using ptr [of "length (fq_out s @ fq_done s)"] x(3) by (simp add: p'_def fifo_write_def add.assoc)
    show "yp_r p' = Some (yptr N cs' p' (fq_pre (fifo_write v inc s))) \<or> yp_r p' = None \<and> fq_pre (fifo_write v inc s) = 0"
      using ptr [of "fq_pre s"] x(6,7) by (auto simp: p'_def fifo_write_def)
  qed (use x in \<open>auto simp: p'_def fifo_write_def\<close>)
  with w show ?thesis by blast
qed

lemma yp_unwrite_sim:
  assumes rel: "yp_rel N cs p s"
  shows "\<exists>p' cs'. yp_unwrite N p = Some (fst (fifo_unwrite s), p') \<and> yp_rel N cs' p' (snd (fifo_unwrite s))"
proof -
  obtain x where x: "yq_ok N (yp_queue p) cs (map Some (items s) @ [x])"
      "yp_w p = yptr N cs p (length (fq_out s))" "yp_f p = yptr N cs p (length (fq_out s @ fq_done s))"
      "yp_c p = (if fq_asleep s then None else Some (yp_w p))" "fq_asleep s \<longrightarrow> fq_out s = []"
      "fq_pre s \<le> length (fq_out s)" "yp_r p = Some (yptr N cs p (fq_pre s)) \<or> (yp_r p = None \<and> fq_pre s = 0)"
      and b: "yq_back (yp_queue p) = Some (yptr N cs p (length (items s)))"
    by (rule yp_relE [OF rel])
  show ?thesis
  proof (cases "fq_part s = []")
    case True
    then show ?thesis using rel b x(3) by (auto simp: yp_unwrite_def fifo_unwrite_def)
  next
    case False
    then obtain ps v where ps: "fq_part s = ps @ [v]" by (meson rev_exhaust)
    let ?ys = "map Some (fq_out s @ fq_done s @ ps @ [v])" and ?l = "length (fq_out s @ fq_done s @ ps)"
    have ne: "yp_f p \<noteq> yptr N cs p (length (items s))"
      using x(3) yptr_eq [OF rel, of "length (fq_out s @ fq_done s)" "length (items s)"] False by simp
    have ok: "yq_ok N (yp_queue p) cs (?ys @ [x])" "?ys \<noteq> []" using x(1) ps by simp_all
    obtain q cs' where q: "yq_unpush N (yp_queue p) = Some q" "yq_ok N q cs' ?ys" "begin_pos q = begin_pos (yp_queue p)"
        "\<forall>k \<le> begin_pos (yp_queue p) + length ?ys. addr N cs' k = addr N cs k"
      by (rule yq_unpush_ok [OF ok])
    have b': "yq_back q = Some (addr N cs' (begin_pos q + ?l))" using yq_back_addr [OF q(2)] by simp
    have ld: "yq_load (addr N cs' (begin_pos q + ?l)) q = Some v"
    proof -
      have "yq_load (addr N cs' (begin_pos q + ?l)) q = ?ys ! ?l" using q(2) unfolding yq_ok_def by simp
      then show ?thesis by (simp add: nth_append)
    qed
    let ?p = "p\<lparr>yp_queue := q\<rparr>" and ?s = "s\<lparr>fq_part := ps\<rparr>"
    have ptr: "yptr N cs' ?p k = yptr N cs p k" if "k \<le> Suc ?l" for k using q(3,4) that by simp
    have u: "yp_unwrite N p = Some (Some v, ?p)" using b ne q(1) b' ld by (simp add: yp_unwrite_def)
    have "yp_rel N cs' ?p ?s"
      unfolding yp_rel_def
    proof (intro conjI)
      show "\<exists>y. yq_ok N (yp_queue ?p) cs' (map Some (items ?s) @ [y])" using q(2) by auto
      show "yp_w ?p = yptr N cs' ?p (length (fq_out ?s))" using ptr [of "length (fq_out s)"] x(2) by simp
      show "yp_f ?p = yptr N cs' ?p (length (fq_out ?s @ fq_done ?s))"
        using ptr [of "length (fq_out s @ fq_done s)"] x(3) by (simp add: add.assoc)
      show "yp_r ?p = Some (yptr N cs' ?p (fq_pre ?s)) \<or> yp_r ?p = None \<and> fq_pre ?s = 0"
        using ptr [of "fq_pre s"] x(6,7) by auto
    qed (use x in auto)
    with u show ?thesis using ps by (auto simp: fifo_unwrite_def)
  qed
qed

lemma flush_begin_sim:
  assumes rel: "yp_rel N cs p s"
  shows "\<exists>p'. flush_begin p = (fst (fifo_flush_begin s), p') \<and> yp_rel N cs p' (snd (fifo_flush_begin s))"
proof -
  obtain x where x: "yq_ok N (yp_queue p) cs (map Some (items s) @ [x])"
      "yp_w p = yptr N cs p (length (fq_out s))" "yp_f p = yptr N cs p (length (fq_out s @ fq_done s))"
      "yp_c p = (if fq_asleep s then None else Some (yp_w p))"
    by (rule yp_relE [OF rel])
  have eq: "yp_w p = yp_f p \<longleftrightarrow> fq_done s = []"
    using x(2,3) yptr_eq [OF rel, of "length (fq_out s)" "length (fq_out s @ fq_done s)"] by auto
  consider "fq_done s = []" | "fq_done s \<noteq> []" "fq_asleep s" | "fq_done s \<noteq> []" "\<not> fq_asleep s" by blast
  then show ?thesis
  proof cases
    case 3
    let ?p = "p\<lparr>yp_c := Some (yp_f p), yp_w := yp_f p\<rparr>"
    have "flush_begin p = (Some True, ?p)" using 3 eq x(4) by (simp add: flush_begin_def cas_def)
    moreover have "yp_rel N cs ?p (fifo_publish s)" using rel 3 by (auto simp: yp_rel_def fifo_publish_def)
    ultimately show ?thesis using 3 by (simp add: fifo_flush_begin_def)
  next
    case 2
    then have "flush_begin p = (None, p)" using eq x(4) by (simp add: flush_begin_def cas_def)
    then show ?thesis using 2 rel by (simp add: fifo_flush_begin_def)
  qed (use rel eq x(4) in \<open>simp add: flush_begin_def fifo_flush_begin_def\<close>)
qed

lemma flush_finish_sim:
  assumes rel: "yp_rel N cs p s"
  shows "\<exists>p'. flush_finish p = (False, p') \<and> yp_rel N cs p' (fifo_publish s)"
  using rel by (auto simp: yp_rel_def flush_finish_def fifo_publish_def)

lemma yp_check_read_sim:
  assumes rel: "yp_rel N cs p s"
  shows "\<exists>p'. yp_check_read p = (fst (fifo_check_read s), p') \<and> yp_rel N cs p' (snd (fifo_check_read s))
    \<and> yp_queue p' = yp_queue p \<and> (fst (fifo_check_read s) \<longrightarrow> yp_r p' \<noteq> None)"
proof -
  obtain x where x: "yq_ok N (yp_queue p) cs (map Some (items s) @ [x])"
      "yp_w p = yptr N cs p (length (fq_out s))" "yp_f p = yptr N cs p (length (fq_out s @ fq_done s))"
      "yp_c p = (if fq_asleep s then None else Some (yp_w p))" "fq_asleep s \<longrightarrow> fq_out s = []"
      "fq_pre s \<le> length (fq_out s)" "yp_r p = Some (yptr N cs p (fq_pre s)) \<or> (yp_r p = None \<and> fq_pre s = 0)"
      and fr: "yq_front (yp_queue p) = yptr N cs p 0"
    by (rule yp_relE [OF rel])
  have r0: "(Some (yq_front (yp_queue p)) \<noteq> yp_r p \<and> yp_r p \<noteq> None) \<longleftrightarrow> fq_pre s \<noteq> 0"
    using x(7) yptr_eq [OF rel, of 0 "fq_pre s"] x(6) unfolding fr by (elim disjE conjE) simp_all
  have w0: "yp_w p = yq_front (yp_queue p) \<longleftrightarrow> fq_out s = []"
    using yptr_eq [OF rel, of "length (fq_out s)" 0] unfolding fr x(2) by simp
  consider (pre) "fq_pre s \<noteq> 0" | (asleep) "fq_pre s = 0" "fq_asleep s" | (sleep) "fq_pre s = 0" "\<not> fq_asleep s" "fq_out s = []"
    | (fetch) "fq_pre s = 0" "\<not> fq_asleep s" "fq_out s \<noteq> []" by blast
  then show ?thesis
  proof cases
    case pre
    then have "fq_out s \<noteq> []" using x(6) by auto
    moreover have "yp_check_read p = (True, p)" using pre r0 by (simp add: yp_check_read_def)
    ultimately show ?thesis using pre rel r0 by (simp add: fifo_check_read_def)
  next
    case asleep
    then have "yp_check_read p = (False, p\<lparr>yp_r := None\<rparr>)" using r0 x(4) by (auto simp: yp_check_read_def cas_def Let_def)
    then show ?thesis using asleep x(5) rel by (auto simp: fifo_check_read_def yp_rel_def)
  next
    case sleep
    then have "yp_check_read p = (False, p\<lparr>yp_r := Some (yq_front (yp_queue p)), yp_c := None\<rparr>)"
      using r0 w0 x(4) by (auto simp: yp_check_read_def cas_def Let_def)
    then show ?thesis using sleep rel fr by (auto simp: fifo_check_read_def yp_rel_def)
  next
    case fetch
    then have "yp_check_read p = (True, p\<lparr>yp_r := Some (yp_w p)\<rparr>)"
      using r0 w0 x(4) by (auto simp: yp_check_read_def cas_def Let_def)
    then show ?thesis using fetch rel x(2) by (auto simp: fifo_check_read_def yp_rel_def)
  qed
qed


lemma take_front_sim:
  assumes rel: "yp_rel N cs p s" and pre: "fq_pre s \<noteq> 0"
  shows "\<exists>p' cs'. take_front N p = Some (fst (fifo_take s), p') \<and> yp_rel N cs' p' (snd (fifo_take s))"
proof -
  obtain x where x: "yq_ok N (yp_queue p) cs (map Some (items s) @ [x])"
      "yp_w p = yptr N cs p (length (fq_out s))" "yp_f p = yptr N cs p (length (fq_out s @ fq_done s))"
      "yp_c p = (if fq_asleep s then None else Some (yp_w p))" "fq_asleep s \<longrightarrow> fq_out s = []"
      "fq_pre s \<le> length (fq_out s)" "yp_r p = Some (yptr N cs p (fq_pre s)) \<or> (yp_r p = None \<and> fq_pre s = 0)"
    by (rule yp_relE [OF rel])
  obtain v os where o: "fq_out s = v # os" using x(6) pre by (cases "fq_out s") auto
  let ?xs = "map Some (os @ fq_done s @ fq_part s) @ [x]"
  have ok: "yq_ok N (yp_queue p) cs (Some v # ?xs)" using x(1) o by simp
  obtain q cs' where q: "yq_pop N (yp_queue p) = Some q" "yq_ok N q cs' ?xs"
      "\<forall>j \<le> length ?xs. addr N cs' (begin_pos q + j) = addr N cs (begin_pos (yp_queue p) + Suc j)"
    by (rule yq_pop_ok [OF ok])
  let ?p = "p\<lparr>yp_queue := q\<rparr>" and ?s = "s\<lparr>fq_out := os, fq_pre := fq_pre s - 1\<rparr>"
  have ptr: "yptr N cs' ?p j = yptr N cs p (Suc j)" if "j \<le> length os + length (fq_done s)" for j using q(3) that by simp
  have r: "yp_r p = Some (yptr N cs' ?p (fq_pre s - 1))" using x(6,7) pre o ptr [of "fq_pre s - 1"] by auto
  have rel': "yp_rel N cs' ?p ?s"
    unfolding yp_rel_def
  proof (intro conjI)
    show "\<exists>y. yq_ok N (yp_queue ?p) cs' (map Some (items ?s) @ [y])" using q(2) by auto
    show "yp_w ?p = yptr N cs' ?p (length (fq_out ?s))" using ptr [of "length os"] x(2) o by simp
    show "yp_f ?p = yptr N cs' ?p (length (fq_out ?s @ fq_done ?s))" using ptr [of "length (os @ fq_done s)"] x(3) o by simp
  qed (use x o r in auto)
  have "yq_front q = yptr N cs' ?p 0" using yq_front_addr [OF q(2)] by simp
  moreover have "yptr N cs' ?p 0 = yptr N cs' ?p (fq_pre s - 1) \<longleftrightarrow> 0 = fq_pre s - 1"
    by (rule yptr_eq [OF rel']) (use x(6) o in simp_all)
  ultimately have "(Some (yq_front q) = yp_r p) = (fq_pre s = 1)" using r pre by auto
  then have "take_front N p = Some ((v, fq_pre s = 1), ?p)"
    using q(1) yq_front_load [OF ok] by (simp add: take_front_def)
  then show ?thesis using rel' o by (auto simp: fifo_take_def)
qed

lemma checked_pre: "fst (fifo_check_read s) \<Longrightarrow> fq_pre (snd (fifo_check_read s)) \<noteq> 0 \<and> fq_out (snd (fifo_check_read s)) \<noteq> []"
  by (auto simp: fifo_check_read_def split: if_splits)

lemma yp_read_sim:
  assumes rel: "yp_rel N cs p s"
  shows "\<exists>p' cs'. yp_read N p = Some (fst (fifo_read s), p') \<and> yp_rel N cs' p' (snd (fifo_read s))"
proof -
  obtain b s1 where s1: "fifo_check_read s = (b, s1)" by (metis surj_pair)
  obtain p1 where p1: "yp_check_read p = (b, p1)" "yp_rel N cs p1 s1" using yp_check_read_sim [OF rel] s1 by auto
  show ?thesis
  proof (cases b)
    case True
    then have "fq_pre s1 \<noteq> 0" using checked_pre [of s] s1 by simp
    from take_front_sim [OF p1(2) this] p1(1) s1 True show ?thesis
      by (auto simp: yp_read_def fifo_read_def split: prod.splits)
  next
    case False
    then show ?thesis using p1 s1 by (auto simp: yp_read_def fifo_read_def)
  qed
qed

lemma front_item:
  assumes "yp_rel N cs p s" "fq_out s \<noteq> []"
  shows "yq_load (yq_front (yp_queue p)) (yp_queue p) = Some (hd (fq_out s))"
proof -
  obtain x v os where "yq_ok N (yp_queue p) cs (map Some (items s) @ [x])" "fq_out s = v # os"
    using assms by (auto simp: yp_rel_def neq_Nil_conv)
  then show ?thesis using yq_front_load [of N "yp_queue p" cs "Some v"] by simp
qed

lemma yp_read_if_sim:
  assumes rel: "yp_rel N cs p s"
  shows "\<exists>p' cs'. yp_read_if N fn p = Some (fst (fifo_read_if fn s), p') \<and> yp_rel N cs' p' (snd (fifo_read_if fn s))"
proof -
  obtain b s1 where s1: "fifo_check_read s = (b, s1)" by (metis surj_pair)
  obtain p1 where p1: "yp_check_read p = (b, p1)" "yp_rel N cs p1 s1" using yp_check_read_sim [OF rel] s1 by auto
  show ?thesis
  proof (cases b)
    case True
    then have s1': "fq_pre s1 \<noteq> 0" "fq_out s1 \<noteq> []" using checked_pre [of s] s1 by simp_all
    from take_front_sim [OF p1(2) s1'(1)] front_item [OF p1(2) s1'(2)] p1 s1 True show ?thesis
      by (cases "fn (hd (fq_out s1))") (auto simp: yp_read_if_def fifo_read_if_def split: prod.splits)
  next
    case False
    then show ?thesis using p1 s1 by (auto simp: yp_read_if_def fifo_read_if_def)
  qed
qed

lemma yp_probe_sim:
  assumes rel: "yp_rel N cs p s"
  shows "\<exists>p'. yp_probe_if_published p = Some (fst (fifo_probe s), p') \<and> yp_rel N cs p' (snd (fifo_probe s))"
proof -
  obtain x where x: "yq_ok N (yp_queue p) cs (map Some (items s) @ [x])"
      "yp_w p = yptr N cs p (length (fq_out s))" "yp_f p = yptr N cs p (length (fq_out s @ fq_done s))"
      "yp_c p = (if fq_asleep s then None else Some (yp_w p))" "fq_asleep s \<longrightarrow> fq_out s = []"
      "fq_pre s \<le> length (fq_out s)" "yp_r p = Some (yptr N cs p (fq_pre s)) \<or> (yp_r p = None \<and> fq_pre s = 0)"
      and fr: "yq_front (yp_queue p) = yptr N cs p 0"
    by (rule yp_relE [OF rel])
  have r0: "(Some (yq_front (yp_queue p)) = yp_r p \<or> yp_r p = None) \<longleftrightarrow> fq_pre s = 0"
    using x(7) yptr_eq [OF rel, of 0 "fq_pre s"] x(6) unfolding fr by (elim disjE conjE) simp_all
  have w0: "yp_w p = yq_front (yp_queue p) \<longleftrightarrow> fq_out s = []"
    using yptr_eq [OF rel, of "length (fq_out s)" 0] unfolding fr x(2) by simp
  show ?thesis
  proof (cases "fq_out s = []")
    case True
    then have "fq_pre s = 0" "yp_c p = None \<or> yp_c p = Some (yq_front (yp_queue p))" using x(4,6) w0 by auto
    then have "yp_probe_if_published p = Some (None, p)" using r0 by (auto simp: yp_probe_if_published_def cas_def Let_def)
    then show ?thesis using True rel by (simp add: fifo_probe_def)
  next
    case False
    note it = front_item [OF rel False]
    have c: "yp_c p = Some (yp_w p)" "yp_w p \<noteq> yq_front (yp_queue p)" using False x(4,5) w0 by auto
    show ?thesis
    proof (cases "fq_pre s = 0")
      case True
      then have "yp_probe_if_published p = Some (Some (hd (fq_out s)), p\<lparr>yp_r := Some (yp_w p)\<rparr>)"
        using r0 c it by (auto simp: yp_probe_if_published_def cas_def Let_def)
      then show ?thesis using False True rel x(2) by (auto simp: fifo_probe_def yp_rel_def)
    next
      case pre: False
      then have "yp_probe_if_published p = Some (Some (hd (fq_out s)), p)"
        using r0 it by (auto simp: yp_probe_if_published_def Let_def)
      then show ?thesis using False pre rel by (simp add: fifo_probe_def)
    qed
  qed
qed


end
