(* ===== verification/Ypipe_Runs.thy ===== *)
theory Ypipe_Runs
  imports Ypipe
begin

section \<open>The pipe under every interleaving\<close>

text \<open>
  The operations of \<open>core/ypipe.hpp\<close> as the writer and the reader call them, in any order: the two
  threads interleave, and the reader may run between the two halves of a \<open>flush\<close>. A call of the writer
  is blocked while it is inside \<open>flush\<close>. What \<open>malloc\<close> returns is a function of the live memory.
\<close>

datatype 'a yp_op =
    Y_write 'a bool | Y_unwrite | Y_flush_begin | Y_flush_finish | Y_check | Y_read | Y_probe | Y_read_if "'a \<Rightarrow> bool"

datatype 'a yp_out =
    O_blocked | O_unit | O_item "'a option" | O_flush "bool option" | O_bool bool | O_read "('a \<times> bool) option"
  | O_read_if "'a read_result"

text \<open>The interface of a pipe, for its clients: whatever \<open>rel\<close> relates to a specification state
  behaves like it under every operation.\<close>

locale fifo_channel =
  fixes rel :: "'p \<Rightarrow> 'a fifo \<Rightarrow> bool"
    and pwrite :: "'a \<Rightarrow> bool \<Rightarrow> 'p \<Rightarrow> 'p option"
    and punwrite :: "'p \<Rightarrow> ('a option \<times> 'p) option"
    and fbegin :: "'p \<Rightarrow> bool option \<times> 'p"
    and ffinish :: "'p \<Rightarrow> bool \<times> 'p"
    and pcheck :: "'p \<Rightarrow> bool \<times> 'p"
    and pread :: "'p \<Rightarrow> (('a \<times> bool) option \<times> 'p) option"
    and pprobe :: "'p \<Rightarrow> ('a option \<times> 'p) option"
    and pread_if :: "('a \<Rightarrow> bool) \<Rightarrow> 'p \<Rightarrow> ('a read_result \<times> 'p) option"
  assumes write_sim: "rel p s \<Longrightarrow> \<exists>p'. pwrite v inc p = Some p' \<and> rel p' (fifo_write v inc s)"
    and unwrite_sim: "rel p s \<Longrightarrow> \<exists>p'. punwrite p = Some (fst (fifo_unwrite s), p') \<and> rel p' (snd (fifo_unwrite s))"
    and fbegin_sim: "rel p s \<Longrightarrow> \<exists>p'. fbegin p = (fst (fifo_flush_begin s), p') \<and> rel p' (snd (fifo_flush_begin s))"
    and ffinish_sim: "rel p s \<Longrightarrow> \<exists>p'. ffinish p = (False, p') \<and> rel p' (fifo_publish s)"
    and check_sim: "rel p s \<Longrightarrow> \<exists>p'. pcheck p = (fst (fifo_check_read s), p') \<and> rel p' (snd (fifo_check_read s))"
    and read_sim: "rel p s \<Longrightarrow> \<exists>p'. pread p = Some (fst (fifo_read s), p') \<and> rel p' (snd (fifo_read s))"
    and probe_sim: "rel p s \<Longrightarrow> \<exists>p'. pprobe p = Some (fst (fifo_probe s), p') \<and> rel p' (snd (fifo_probe s))"
    and read_if_sim: "rel p s \<Longrightarrow> \<exists>p'. pread_if fn p = Some (fst (fifo_read_if fn s), p') \<and> rel p' (snd (fifo_read_if fn s))"

fun is_writer :: "'a yp_op \<Rightarrow> bool" where
  "is_writer (Y_write _ _) = True"
| "is_writer Y_unwrite = True"
| "is_writer Y_flush_begin = True"
| "is_writer _ = False"

definition blocked :: "'a yp_op \<Rightarrow> bool \<Rightarrow> bool" where
  "blocked c inside \<longleftrightarrow> (is_writer c \<and> inside) \<or> (c = Y_flush_finish \<and> \<not> inside)"

text \<open>One call; the flag says whether the writer is between the halves of a flush.\<close>

fun call_op ::
    "('a \<Rightarrow> bool \<Rightarrow> 'p \<Rightarrow> 'p option) \<Rightarrow> ('p \<Rightarrow> ('a option \<times> 'p) option) \<Rightarrow> ('p \<Rightarrow> bool option \<times> 'p) \<Rightarrow> ('p \<Rightarrow> bool \<times> 'p)
     \<Rightarrow> ('p \<Rightarrow> bool \<times> 'p) \<Rightarrow> ('p \<Rightarrow> (('a \<times> bool) option \<times> 'p) option) \<Rightarrow> ('p \<Rightarrow> ('a option \<times> 'p) option)
     \<Rightarrow> (('a \<Rightarrow> bool) \<Rightarrow> 'p \<Rightarrow> ('a read_result \<times> 'p) option) \<Rightarrow> 'a yp_op \<Rightarrow> 'p \<Rightarrow> ('a yp_out \<times> 'p) option" where
  "call_op wr un fb ff ck rd pb ri (Y_write v inc) p = map_option (Pair O_unit) (wr v inc p)"
| "call_op wr un fb ff ck rd pb ri Y_unwrite p = map_option (map_prod O_item id) (un p)"
| "call_op wr un fb ff ck rd pb ri Y_flush_begin p = Some (map_prod O_flush id (fb p))"
| "call_op wr un fb ff ck rd pb ri Y_flush_finish p = Some (map_prod (O_flush \<circ> Some) id (ff p))"
| "call_op wr un fb ff ck rd pb ri Y_check p = Some (map_prod O_bool id (ck p))"
| "call_op wr un fb ff ck rd pb ri Y_read p = map_option (map_prod O_read id) (rd p)"
| "call_op wr un fb ff ck rd pb ri Y_probe p = map_option (map_prod O_item id) (pb p)"
| "call_op wr un fb ff ck rd pb ri (Y_read_if fn) p = map_option (map_prod O_read_if id) (ri fn p)"

fun fifo_op :: "'a yp_op \<Rightarrow> 'a fifo \<Rightarrow> 'a yp_out \<times> 'a fifo" where
  "fifo_op (Y_write v inc) s = (O_unit, fifo_write v inc s)"
| "fifo_op Y_unwrite s = map_prod O_item id (fifo_unwrite s)"
| "fifo_op Y_flush_begin s = map_prod O_flush id (fifo_flush_begin s)"
| "fifo_op Y_flush_finish s = (O_flush (Some False), fifo_publish s)"
| "fifo_op Y_check s = map_prod O_bool id (fifo_check_read s)"
| "fifo_op Y_read s = map_prod O_read id (fifo_read s)"
| "fifo_op Y_probe s = map_prod O_item id (fifo_probe s)"
| "fifo_op (Y_read_if fn) s = map_prod O_read_if id (fifo_read_if fn s)"

definition inside_after :: "'a yp_out \<Rightarrow> bool" where
  "inside_after out \<longleftrightarrow> out = O_flush None"

definition interleave :: "('a yp_op \<Rightarrow> 'p \<Rightarrow> ('a yp_out \<times> 'p) option) \<Rightarrow> 'a yp_op \<Rightarrow> 'p \<times> bool \<Rightarrow> ('a yp_out \<times> 'p \<times> bool) option" where
  "interleave f c t =
     (case t of (p, inside) \<Rightarrow>
        if blocked c inside then Some (O_blocked, p, inside)
        else map_option (\<lambda>(out, p'). (out, p', if is_writer c \<or> c = Y_flush_finish then inside_after out else inside)) (f c p))"

definition interleave_spec :: "'a yp_op \<Rightarrow> 'a fifo \<times> bool \<Rightarrow> 'a yp_out \<times> 'a fifo \<times> bool" where
  "interleave_spec c t =
     (case t of (s, inside) \<Rightarrow>
        if blocked c inside then (O_blocked, s, inside)
        else case fifo_op c s of
          (out, s') \<Rightarrow> (out, s', if is_writer c \<or> c = Y_flush_finish then inside_after out else inside))"

context fifo_channel
begin

lemma op_sim:
  assumes "rel p s"
  shows "\<exists>p'. call_op pwrite punwrite fbegin ffinish pcheck pread pprobe pread_if c p = Some (fst (fifo_op c s), p')
    \<and> rel p' (snd (fifo_op c s))"
proof (cases c)
  case (Y_write v inc)
  then show ?thesis using write_sim [OF assms, of v inc] by auto
next
  case Y_unwrite
  then show ?thesis using unwrite_sim [OF assms] by auto
next
  case Y_flush_begin
  then show ?thesis using fbegin_sim [OF assms] by auto
next
  case Y_flush_finish
  then show ?thesis using ffinish_sim [OF assms] by auto
next
  case Y_check
  then show ?thesis using check_sim [OF assms] by auto
next
  case Y_read
  then show ?thesis using read_sim [OF assms] by auto
next
  case Y_probe
  then show ?thesis using probe_sim [OF assms] by auto
next
  case (Y_read_if fn)
  then show ?thesis using read_if_sim [OF assms, of fn] by auto
qed

text \<open>Every interleaving gives the answers of the specification.\<close>

lemma run_sim:
  assumes "rel p s"
  shows "\<exists>p' inside. run_calls (interleave (call_op pwrite punwrite fbegin ffinish pcheck pread pprobe pread_if)) cs (p, b)
       = Some (fst (run_spec interleave_spec cs (s, b)), p', inside)
     \<and> rel p' (fst (snd (run_spec interleave_spec cs (s, b)))) \<and> inside = snd (snd (run_spec interleave_spec cs (s, b)))"
proof -
  let ?I = "\<lambda>(p, b) (s, b'). rel p s \<and> b = b'"
  have step: "\<exists>t'. interleave (call_op pwrite punwrite fbegin ffinish pcheck pread pprobe pread_if) c t = Some (fst (interleave_spec c u), t')
      \<and> ?I t' (snd (interleave_spec c u))" if I: "?I t u" for c t u
  proof -
    obtain p s b where t: "t = (p, b)" "u = (s, b)" and r: "rel p s" using I by (cases t; cases u) auto
    from op_sim [OF r, of c] r show ?thesis by (auto simp: t interleave_def interleave_spec_def split: prod.splits)
  qed
  from run_simulates [where I = ?I and f = "interleave (call_op pwrite punwrite fbegin ffinish pcheck pread pprobe pread_if)"
      and g = interleave_spec and t = "(p, b)" and s = "(s, b)" and cs = cs, OF step] assms show ?thesis
    by (cases "snd (run_spec interleave_spec cs (s, b))") auto
qed

end

subsection \<open>The lock-free pipe is such a channel\<close>

definition good_alloc :: "((cid, 'a chunk) fmap \<Rightarrow> cid option) \<Rightarrow> bool" where
  "good_alloc alloc \<longleftrightarrow> (\<forall>m. \<exists>c. alloc m = Some c \<and> c |\<notin>| fmdom m)"

definition pipe_rel :: "nat \<Rightarrow> ((cid, 'a chunk) fmap \<Rightarrow> cid option) \<Rightarrow> 'a ypipe \<Rightarrow> 'a fifo \<Rightarrow> bool" where
  "pipe_rel N alloc p s \<longleftrightarrow> good_alloc alloc \<and> (\<exists>cs. yp_rel N cs p s)"

abbreviation pipe_write :: "nat \<Rightarrow> ((cid, 'a chunk) fmap \<Rightarrow> cid option) \<Rightarrow> 'a \<Rightarrow> bool \<Rightarrow> 'a ypipe \<Rightarrow> 'a ypipe option" where
  "pipe_write N alloc v inc p \<equiv> yp_write N v inc (alloc (yq_mem (yp_queue p))) p"

lemma good_alloc_ok: "good_alloc alloc \<Longrightarrow> alloc_ok (alloc (yq_mem q)) q"
  by (auto simp: good_alloc_def alloc_ok_def)

interpretation ypipe_channel: fifo_channel "pipe_rel N alloc" "pipe_write N alloc" "yp_unwrite N" flush_begin flush_finish
  yp_check_read "yp_read N" yp_probe_if_published "yp_read_if N"
proof (unfold_locales, goal_cases)
  case (1 p s v inc)
  then show ?case using yp_write_sim [OF _ good_alloc_ok] by (fastforce simp: pipe_rel_def)
next
  case (2 p s)
  then show ?case using yp_unwrite_sim by (fastforce simp: pipe_rel_def)
next
  case (3 p s)
  then show ?case using flush_begin_sim by (fastforce simp: pipe_rel_def)
next
  case (4 p s)
  then show ?case using flush_finish_sim by (fastforce simp: pipe_rel_def)
next
  case (5 p s)
  then show ?case using yp_check_read_sim by (fastforce simp: pipe_rel_def)
next
  case (6 p s)
  then show ?case using yp_read_sim by (fastforce simp: pipe_rel_def)
next
  case (7 p s)
  then show ?case using yp_probe_sim by (fastforce simp: pipe_rel_def)
next
  case (8 p s fn)
  then show ?case using yp_read_if_sim by (fastforce simp: pipe_rel_def)
qed

abbreviation pipe_run ::
    "nat \<Rightarrow> ((cid, 'a chunk) fmap \<Rightarrow> cid option) \<Rightarrow> 'a yp_op list \<Rightarrow> 'a ypipe \<times> bool \<Rightarrow> ('a yp_out list \<times> 'a ypipe \<times> bool) option" where
  "pipe_run N alloc \<equiv> run_calls (interleave
     (call_op (pipe_write N alloc) (yp_unwrite N) flush_begin flush_finish yp_check_read (yp_read N) yp_probe_if_published (yp_read_if N)))"

definition pipe_start :: "nat \<Rightarrow> ((cid, 'a chunk) fmap \<Rightarrow> cid option) \<Rightarrow> cid \<Rightarrow> 'a ypipe option" where
  "pipe_start N alloc c = yp_init N c (alloc (yq_mem (yq_init N c)))"

lemma pipe_start_sim:
  assumes "0 < N" "good_alloc alloc"
  shows "\<exists>p. pipe_start N alloc c = Some p \<and> pipe_rel N alloc p fifo_init"
  using yp_init_sim [OF assms(1) good_alloc_ok [OF assms(2)], of c] assms(2) by (auto simp: pipe_start_def pipe_rel_def)

lemma pipe_run_sim:
  assumes "0 < N" "good_alloc alloc"
  obtains p p' where "pipe_start N alloc c = Some p"
    "pipe_run N alloc ops (p, False) = Some (fst (run_spec interleave_spec ops (fifo_init, False)), p',
       snd (snd (run_spec interleave_spec ops (fifo_init, False))))"
    "pipe_rel N alloc p' (fst (snd (run_spec interleave_spec ops (fifo_init, False))))"
  using pipe_start_sim [OF assms, of c] ypipe_channel.run_sim [of N alloc _ fifo_init ops False] that by blast

text \<open>C20: Whatever the two threads do, in whatever order, with the reader running between the halves
  of a flush as well, the lock-free pipe gives exactly the answers of a queue of published, complete
  and incomplete items; no step touches a chunk that was freed or a slot that was never written; and
  the destructor leaves no chunk behind.\<close>

theorem ypipe_refines_fifo:
  assumes "0 < N" "good_alloc alloc"
  shows "\<exists>p p' inside. pipe_start N alloc c = Some p
    \<and> pipe_run N alloc ops (p, False) = Some (fst (run_spec interleave_spec ops (fifo_init, False)), p', inside)
    \<and> yq_destroy (yp_queue p') = Some fmempty"
proof -
  obtain p p' where p: "pipe_start N alloc c = Some p"
    "pipe_run N alloc ops (p, False) = Some (fst (run_spec interleave_spec ops (fifo_init, False)), p',
       snd (snd (run_spec interleave_spec ops (fifo_init, False))))"
    "pipe_rel N alloc p' (fst (snd (run_spec interleave_spec ops (fifo_init, False))))"
    by (rule pipe_run_sim [OF assms])
  then obtain cs x where "yq_ok N (yp_queue p') cs x" by (auto simp: pipe_rel_def yp_rel_def)
  then show ?thesis using p yq_destroy_ok by blast
qed

definition demo_alloc :: "(cid, 'a chunk) fmap \<Rightarrow> cid option" where
  "demo_alloc m = Some (Suc (fMax (finsert 0 (fmdom m))))"

lemma demo_alloc_good: "good_alloc demo_alloc"
proof -
  have "Suc (fMax (finsert 0 A)) |\<notin>| A" for A by (metis Suc_n_not_le_n fMax_ge finsertI2)
  then show ?thesis by (auto simp: good_alloc_def demo_alloc_def)
qed

lemmas run_eval = interleave_spec_def blocked_def inside_after_def fifo_init_def fifo_read_def fifo_check_read_def fifo_write_def
  fifo_flush_begin_def fifo_publish_def fifo_take_def

theorem ypipe_refines_fifo_witness:
  "\<exists>p p' inside. pipe_start 2 demo_alloc 1 = Some p
    \<and> pipe_run 2 demo_alloc [Y_read, Y_write 7 True, Y_write (8 :: nat) False, Y_flush_begin, Y_read, Y_flush_finish, Y_read, Y_read, Y_read]
        (p, False) = Some ([O_read None, O_unit, O_unit, O_flush None, O_read None, O_flush (Some False),
          O_read (Some (7, False)), O_read (Some (8, True)), O_read None], p', inside)
    \<and> yq_destroy (yp_queue p') = Some fmempty"
proof -
  have e: "fst (run_spec interleave_spec [Y_read, Y_write 7 True, Y_write (8 :: nat) False, Y_flush_begin, Y_read, Y_flush_finish,
      Y_read, Y_read, Y_read] (fifo_init, False)) = [O_read None, O_unit, O_unit, O_flush None, O_read None, O_flush (Some False),
          O_read (Some (7, False)), O_read (Some (8, True)), O_read None]"
    by (simp add: run_eval)
  have two: "0 < (2 :: nat)" by simp
  show ?thesis
    by (rule ypipe_refines_fifo [OF two demo_alloc_good, of 1
        "[Y_read, Y_write 7 True, Y_write (8 :: nat) False, Y_flush_begin, Y_read, Y_flush_finish, Y_read, Y_read, Y_read]",
        unfolded e])
qed

subsection \<open>What the threads see\<close>

fun reads :: "'a yp_out \<Rightarrow> 'a list" where
  "reads (O_read (Some (v, _))) = [v]"
| "reads (O_read_if (read_consumed v _)) = [v]"
| "reads _ = []"

abbreviation all_reads :: "'a yp_out list \<Rightarrow> 'a list" where
  "all_reads outs \<equiv> concat (map reads outs)"

text \<open>The history of the writer: what it has published, what is complete but not published, and the
  incomplete item. It is computed from the calls and their answers alone.\<close>

fun hist :: "'a yp_op \<Rightarrow> 'a yp_out \<Rightarrow> 'a list \<times> 'a list \<times> 'a list \<Rightarrow> 'a list \<times> 'a list \<times> 'a list" where
  "hist (Y_write v inc) O_unit (u, c, pt) = (if inc then (u, c, pt @ [v]) else (u, c @ pt @ [v], []))"
| "hist Y_unwrite (O_item (Some _)) (u, c, pt) = (u, c, butlast pt)"
| "hist Y_flush_begin (O_flush (Some _)) (u, c, pt) = (u @ c, [], pt)"
| "hist Y_flush_finish (O_flush _) (u, c, pt) = (u @ c, [], pt)"
| "hist _ _ h = h"

text \<open>The reader sleeps from an answer that the pipe is empty until a flush that found it asleep.\<close>

fun sleeps :: "'a yp_op \<Rightarrow> 'a yp_out \<Rightarrow> bool \<Rightarrow> bool" where
  "sleeps _ (O_bool False) b = True"
| "sleeps _ (O_read None) b = True"
| "sleeps _ (O_read_if read_empty) b = True"
| "sleeps Y_flush_finish (O_flush _) b = False"
| "sleeps _ _ b = b"

definition history :: "'a yp_op list \<Rightarrow> 'a yp_out list \<Rightarrow> 'a list \<times> 'a list \<times> 'a list" where
  "history ops outs = fold (\<lambda>(c, out). hist c out) (zip ops outs) ([], [], [])"

definition sleeping :: "'a yp_op list \<Rightarrow> 'a yp_out list \<Rightarrow> bool" where
  "sleeping ops outs = fold (\<lambda>(c, out). sleeps c out) (zip ops outs) False"

definition seen :: "'a list \<Rightarrow> 'a list \<times> 'a list \<times> 'a list \<Rightarrow> bool \<Rightarrow> 'a fifo \<Rightarrow> bool" where
  "seen rs h sl s \<longleftrightarrow> h = (rs @ fq_out s, fq_done s, fq_part s) \<and> sl = fq_asleep s \<and> (fq_asleep s \<longrightarrow> fq_out s = [])"

lemmas fifo_defs = fifo_write_def fifo_unwrite_def fifo_publish_def fifo_flush_begin_def fifo_check_read_def fifo_take_def
  fifo_read_def fifo_probe_def fifo_read_if_def

lemma seen_op:
  assumes "seen rs h sl s" "fifo_op c s = (out, s')"
  shows "seen (rs @ reads out) (hist c out h) (sleeps c out sl) s'"
proof (cases "fq_out s")
  case Nil
  then show ?thesis using assms by (cases c) (auto simp: seen_def fifo_defs split: if_splits)
next
  case (Cons v os)
  then show ?thesis using assms by (cases c) (auto simp: seen_def fifo_defs split: if_splits)
qed

lemma seen_blocked: "hist c O_blocked h = h" "sleeps c O_blocked sl = sl" "reads O_blocked = []"
  by (cases h; cases c; simp)+

lemma seen_step:
  assumes "seen rs h sl s" "interleave_spec c (s, b) = (out, s', b')"
  shows "seen (rs @ reads out) (hist c out h) (sleeps c out sl) s'"
proof (cases "blocked c b")
  case True
  then show ?thesis using assms by (auto simp: interleave_spec_def seen_blocked)
next
  case False
  then show ?thesis using assms seen_op [OF assms(1)] by (auto simp: interleave_spec_def split: prod.splits)
qed

lemma seen_run:
  assumes "seen rs h sl s" "run_spec interleave_spec cs (s, b) = (outs, s', b')"
  shows "seen (rs @ all_reads outs) (fold (\<lambda>(c, out). hist c out) (zip cs outs) h)
    (fold (\<lambda>(c, out). sleeps c out) (zip cs outs) sl) s'"
  using assms
proof (induction cs arbitrary: rs h sl s b outs)
  case (Cons c cs)
  obtain o1 s1 b1 where 1: "interleave_spec c (s, b) = (o1, s1, b1)" by (metis surj_pair)
  obtain os where 2: "run_spec interleave_spec cs (s1, b1) = (os, s', b')" "outs = o1 # os"
    using Cons.prems(2) 1 by (auto split: prod.splits)
  from Cons.IH [OF seen_step [OF Cons.prems(1) 1] 2(1)] show ?case by (simp add: 2(2))
qed simp

lemma seen_from_start:
  assumes "run_spec interleave_spec ops (fifo_init, False) = (outs, s', b')"
  shows "seen (all_reads outs) (history ops outs) (sleeping ops outs) s'"
  using seen_run [OF _ assms, of "[]" "([], [], [])" False] by (simp add: seen_def fifo_init_def history_def sleeping_def)

lemma read_all:
  "all_reads (fst (run_spec interleave_spec (replicate n Y_read) (s, False))) = take n (fq_out s)"
proof (induction n arbitrary: s)
  case (Suc n)
  show ?case
  proof (cases "fq_out s")
    case Nil
    then show ?thesis using Suc [of "s\<lparr>fq_asleep := True\<rparr>"]
      by (auto simp: interleave_spec_def blocked_def fifo_read_def fifo_check_read_def split: prod.splits)
  next
    case (Cons v os)
    obtain x s1 where r: "fifo_read s = (Some (v, x), s1)" "fq_out s1 = os"
      using Cons by (auto simp: fifo_read_def fifo_check_read_def fifo_take_def)
    then show ?thesis using Suc [of s1] Cons by (auto simp: interleave_spec_def blocked_def split: prod.splits)
  qed
qed simp

lemma flush_then_read_all:
  "all_reads (fst (run_spec interleave_spec (Y_flush_begin # Y_flush_finish # replicate n Y_read) (s, False)))
     = take n (fq_out s @ fq_done s)"
proof -
  define s1 where "s1 = (if fq_done s = [] then s else fifo_publish s)"
  have "all_reads (fst (run_spec interleave_spec (Y_flush_begin # Y_flush_finish # cs) (s, False)))
      = all_reads (fst (run_spec interleave_spec cs (s1, False)))" for cs
    by (cases "fq_done s = []"; cases "fq_asleep s")
      (auto simp: s1_def interleave_spec_def blocked_def inside_after_def fifo_flush_begin_def split: prod.splits)
  then show ?thesis using read_all [of n s1] by (simp add: s1_def fifo_publish_def)
qed

text \<open>C21: The reader gets what the writer completed, in order, nothing lost and nothing twice, and
  never an item that was not published: what was read is a prefix of what was published. Nothing gets
  stuck: from any state in which the writer is not inside a flush, a flush and \<open>n\<close> reads deliver the
  next \<open>n\<close> complete items.\<close>

theorem ypipe_delivers:
  assumes "0 < N" "good_alloc alloc" "pipe_start N alloc c = Some p"
    "pipe_run N alloc ops (p, False) = Some (outs, p', inside)" "history ops outs = (published, complete, partial)"
  shows "(\<exists>rest. published = all_reads outs @ rest)
    \<and> (\<not> inside \<longrightarrow> (\<exists>outs2 t. pipe_run N alloc (Y_flush_begin # Y_flush_finish # replicate n Y_read) (p', False) = Some (outs2, t)
         \<and> all_reads outs @ all_reads outs2 = take (length (all_reads outs) + n) (published @ complete)))"
proof -
  obtain s b where run: "run_spec interleave_spec ops (fifo_init, False) = (outs, s, b)" and rel: "pipe_rel N alloc p' s"
    by (rule pipe_run_sim [OF assms(1,2), of c ops]) (use assms(3,4) in \<open>auto simp: prod_eq_iff\<close>)
  have h: "published = all_reads outs @ fq_out s" "complete = fq_done s"
    using seen_from_start [OF run] assms(5) by (auto simp: seen_def)
  obtain p2 in2 where r2: "pipe_run N alloc (Y_flush_begin # Y_flush_finish # replicate n Y_read) (p', False)
      = Some (fst (run_spec interleave_spec (Y_flush_begin # Y_flush_finish # replicate n Y_read) (s, False)), p2, in2)"
    using ypipe_channel.run_sim [OF rel, of "Y_flush_begin # Y_flush_finish # replicate n Y_read" False] by blast
  then show ?thesis using h flush_then_read_all [of n s] by auto
qed

lemma demo_run:
  obtains p p' where "pipe_start 2 demo_alloc 1 = Some p"
    "pipe_run 2 demo_alloc [Y_read, Y_write 7 True, Y_write (8 :: nat) False] (p, False) = Some ([O_read None, O_unit, O_unit], p', False)"
proof -
  have "run_spec interleave_spec [Y_read, Y_write 7 True, Y_write (8 :: nat) False] (fifo_init, False)
    = ([O_read None, O_unit, O_unit], \<lparr>fq_out = [], fq_done = [7, 8], fq_part = [], fq_pre = 0, fq_asleep = True\<rparr>, False)"
    by (simp add: run_eval)
  then show ?thesis
    using pipe_run_sim [OF _ demo_alloc_good, of 2 1 "[Y_read, Y_write 7 True, Y_write (8 :: nat) False]"] that by auto
qed

theorem ypipe_delivers_witness:
  "\<exists>p p' outs2 t. pipe_start 2 demo_alloc 1 = Some p
    \<and> pipe_run 2 demo_alloc [Y_read, Y_write 7 True, Y_write (8 :: nat) False] (p, False) = Some ([O_read None, O_unit, O_unit], p', False)
    \<and> pipe_run 2 demo_alloc [Y_flush_begin, Y_flush_finish, Y_read, Y_read] (p', False) = Some (outs2, t) \<and> all_reads outs2 = [7, 8]"
proof -
  obtain p p' where p: "pipe_start 2 demo_alloc 1 = Some p"
    "pipe_run 2 demo_alloc [Y_read, Y_write 7 True, Y_write (8 :: nat) False] (p, False) = Some ([O_read None, O_unit, O_unit], p', False)"
    by (rule demo_run)
  have h: "history [Y_read, Y_write 7 True, Y_write (8 :: nat) False] [O_read None, O_unit, O_unit] = ([], [7, 8], [])"
    by (simp add: history_def)
  from ypipe_delivers [OF _ demo_alloc_good p h, of 2] p show ?thesis by (auto simp: numeral_2_eq_2)
qed

text \<open>C22: No wake-up is lost: \<open>flush\<close> reports a sleeping reader exactly when it publishes something
  and the reader has found the pipe empty since the last publication that found it asleep.\<close>

theorem ypipe_wakeup:
  assumes "0 < N" "good_alloc alloc" "pipe_start N alloc c = Some p"
    "pipe_run N alloc ops (p, False) = Some (outs, p', False)" "history ops outs = (published, complete, partial)"
  shows "fst (yp_flush p') \<longleftrightarrow> complete = [] \<or> \<not> sleeping ops outs"
proof -
  obtain s b where run: "run_spec interleave_spec ops (fifo_init, False) = (outs, s, b)" and rel: "pipe_rel N alloc p' s"
    by (rule pipe_run_sim [OF assms(1,2), of c ops]) (use assms(3,4) in \<open>auto simp: prod_eq_iff\<close>)
  have h: "complete = fq_done s" "sleeping ops outs = fq_asleep s"
    using seen_from_start [OF run] assms(5) by (auto simp: seen_def)
  obtain cs where "yp_rel N cs p' s" using rel by (auto simp: pipe_rel_def)
  from flush_begin_sim [OF this] show ?thesis
    unfolding h by (auto simp: yp_flush_def fifo_flush_begin_def flush_finish_def split: if_splits)
qed



theorem ypipe_wakeup_witness:
  "\<exists>p p'. pipe_start 2 demo_alloc 1 = Some p
    \<and> pipe_run 2 demo_alloc [Y_read, Y_write 7 True, Y_write (8 :: nat) False] (p, False) = Some ([O_read None, O_unit, O_unit], p', False)
    \<and> \<not> fst (yp_flush p')"
proof -
  obtain p p' where p: "pipe_start 2 demo_alloc 1 = Some p"
    "pipe_run 2 demo_alloc [Y_read, Y_write 7 True, Y_write (8 :: nat) False] (p, False) = Some ([O_read None, O_unit, O_unit], p', False)"
    by (rule demo_run)
  have h: "history [Y_read, Y_write 7 True, Y_write (8 :: nat) False] [O_read None, O_unit, O_unit] = ([], [7, 8], [])"
    by (simp add: history_def)
  have "sleeping [Y_read, Y_write 7 True, Y_write (8 :: nat) False] [O_read None, O_unit, O_unit]" by (simp add: sleeping_def)
  with ypipe_wakeup [OF _ demo_alloc_good p h] p show ?thesis by auto
qed

end
