(* ===== verification/Xpub.thy ===== *)
theory Xpub
  imports Dist_Safety Mtrie
begin

section \<open>The publisher socket\<close>

text \<open>
  Models \<open>sockets/pubsub/xpub.cpp\<close> and \<open>pub.cpp\<close>: subscriptions arrive from the pipes and are kept in a
  multi-trie, messages go through the distributor to the pipes whose subscriptions match. Inbound
  messages are the bytes and flags the pipe yields, one list per activation; what a pipe does with a
  message, and the write of the welcome message, are parameters. Option values are the integer found
  in the caller's buffer, or \<open>None\<close> when the buffer has another size.
\<close>

subsection \<open>State\<close>

datatype pub_type = Sock_pub | Sock_xpub

record 'p xpub =
  x_type :: pub_type
  x_invert_matching :: bool
  x_subscriptions :: "'p mtrie_root"
  x_manual_subscriptions :: "'p mtrie_root"
  x_dist :: "'p dist"
  x_verbose_subs :: bool
  x_verbose_unsubs :: bool
  x_more_send :: bool
  x_more_recv :: bool
  x_process_subscribe :: bool
  x_lossy :: bool
  x_send_all_data :: bool
  x_manual :: bool
  x_send_last_pipe :: bool
  x_last_pipe :: "'p option"
  x_welcome_msg :: "byte list"
  x_pending :: "(byte list \<times> byte) list"
  x_pending_pipes :: "'p option list"

definition xpub_init :: "pub_type \<Rightarrow> bool \<Rightarrow> 'p xpub" where
  "xpub_init ty invert =
     \<lparr>x_type = ty, x_invert_matching = invert, x_subscriptions = mt_empty, x_manual_subscriptions = mt_empty,
      x_dist = dist_init, x_verbose_subs = False, x_verbose_unsubs = False, x_more_send = False, x_more_recv = False,
      x_process_subscribe = False, x_lossy = True, x_send_all_data = False, x_manual = False, x_send_last_pipe = False,
      x_last_pipe = None, x_welcome_msg = [], x_pending = [], x_pending_pipes = []\<rparr>"

subsection \<open>Subscriptions\<close>

text \<open>What a frame asks for: \<open>Some (True, topic)\<close> to subscribe, \<open>Some (False, topic)\<close> to cancel.\<close>

definition sub_request :: "msg \<Rightarrow> (bool \<times> byte list) option" where
  "sub_request m =
     (if is_subscribe m \<or> is_cancel m then
        (case command_body m of
           None \<Rightarrow> None
         | Some off \<Rightarrow> Some (is_subscribe m, take (command_body_size m) (drop off (msg_data m))))
      else if msg_size m > 0 \<and> (hd (msg_data m) = 0 \<or> hd (msg_data m) = 1)
      then Some (hd (msg_data m) = 1, tl (msg_data m))
      else None)"

definition push_pending :: "byte list \<Rightarrow> byte \<Rightarrow> 'p option \<Rightarrow> 'p xpub \<Rightarrow> 'p xpub" where
  "push_pending data flags p s = s\<lparr>x_pending := x_pending s @ [(data, flags)], x_pending_pipes := x_pending_pipes s @ [p]\<rparr>"

definition apply_request :: "'p::linorder \<Rightarrow> bool \<Rightarrow> byte list \<Rightarrow> 'p xpub \<Rightarrow> (bool \<times> 'p xpub) option" where
  "apply_request p subscribe data s =
     (if x_manual s then
        (if \<not> subscribe
         then map_option (\<lambda>(_, t). (False, s\<lparr>x_manual_subscriptions := t\<rparr>)) (mt_rm data p (x_manual_subscriptions s))
         else Some (False, s\<lparr>x_manual_subscriptions := snd (mt_add data p (x_manual_subscriptions s))\<rparr>))
      else
        (if \<not> subscribe
         then map_option (\<lambda>(rm_result, t). (rm_result \<noteq> values_remain \<or> x_verbose_unsubs s, s\<lparr>x_subscriptions := t\<rparr>))
                (mt_rm data p (x_subscriptions s))
         else (case mt_add data p (x_subscriptions s) of
                 (first_added, t) \<Rightarrow> Some (first_added \<or> x_verbose_subs s, s\<lparr>x_subscriptions := t\<rparr>))))"

text \<open>One inbound message of \<open>xread_activated\<close>.\<close>

definition xread_msg :: "'p::linorder \<Rightarrow> msg \<Rightarrow> 'p xpub \<Rightarrow> 'p xpub option" where
  "xread_msg p m s =
     (let first_part = \<not> x_more_recv s;
          s = s\<lparr>x_more_recv := has_more m\<rparr>;
          request = (if first_part \<or> x_process_subscribe s then sub_request m else None);
          s = (if first_part then s\<lparr>x_process_subscribe := request \<noteq> None\<rparr> else s) in
      case request of
        Some (subscribe, data) \<Rightarrow>
          do { (notify, s) \<leftarrow> apply_request p subscribe data s;
               Some (if x_manual s \<or> (x_type s = Sock_xpub \<and> notify)
                     then push_pending ((if subscribe then 1 else 0) # data) 0 (Some p) s else s) }
      | None \<Rightarrow>
          Some (if x_type s \<noteq> Sock_pub then push_pending (msg_data m) (msg_flags m) (Some p) s else s))"

fun xread_activated :: "'p::linorder \<Rightarrow> msg list \<Rightarrow> 'p xpub \<Rightarrow> 'p xpub option" where
  "xread_activated p [] s = Some s"
| "xread_activated p (m # ms) s = do { s \<leftarrow> xread_msg p m s; xread_activated p ms s }"

subsection \<open>Pipes\<close>

definition xattach_pipe ::
    "('p \<Rightarrow> byte list \<Rightarrow> 'w \<Rightarrow> bool \<times> 'w) \<Rightarrow> 'p::linorder \<Rightarrow> bool \<Rightarrow> msg list \<Rightarrow> 'p xpub \<Rightarrow> 'w \<Rightarrow> ('p xpub \<times> 'w) option" where
  "xattach_pipe write_and_flush p subscribe_to_all waiting s w =
     do { d \<leftarrow> dist_attach p (x_dist s);
          let s = s\<lparr>x_dist := d\<rparr>;
          let s = (if subscribe_to_all then s\<lparr>x_subscriptions := snd (mt_add [] p (x_subscriptions s))\<rparr> else s);
          w \<leftarrow> (if x_welcome_msg s \<noteq> []
               then (case write_and_flush p (x_welcome_msg s) w of (ok, w) \<Rightarrow> if ok then Some w else None)
               else Some w);
          s \<leftarrow> xread_activated p waiting s;
          Some (s, w) }"

definition xwrite_activated :: "'p \<Rightarrow> 'p xpub \<Rightarrow> 'p xpub option" where
  "xwrite_activated p s = map_option (\<lambda>d. s\<lparr>x_dist := d\<rparr>) (dist_activated p (x_dist s))"

definition send_unsubscription :: "byte list \<Rightarrow> 'p xpub \<Rightarrow> 'p xpub" where
  "send_unsubscription data s =
     (if x_type s \<noteq> Sock_pub then (push_pending (0 # data) 0 None s)\<lparr>x_last_pipe := None\<rparr> else s)"

definition xpipe_terminated :: "'p::linorder \<Rightarrow> 'p xpub \<Rightarrow> 'p xpub option" where
  "xpipe_terminated p s =
     do { s \<leftarrow> (if x_manual s then
                 do { (gone, t) \<leftarrow> mt_rm_pipe p False (x_manual_subscriptions s);
                      let s = fold send_unsubscription gone (s\<lparr>x_manual_subscriptions := t\<rparr>);
                      (_, t) \<leftarrow> mt_rm_pipe p False (x_subscriptions s);
                      let s = s\<lparr>x_subscriptions := t\<rparr>;
                      Some (if x_last_pipe s = Some p then s\<lparr>x_last_pipe := None\<rparr> else s) }
               else
                 do { (gone, t) \<leftarrow> mt_rm_pipe p (\<not> x_verbose_unsubs s) (x_subscriptions s);
                      Some (fold send_unsubscription gone (s\<lparr>x_subscriptions := t\<rparr>)) });
          d \<leftarrow> dist_pipe_terminated p (x_dist s);
          Some (s\<lparr>x_dist := d\<rparr>) }"

subsection \<open>Options\<close>

datatype pub_option =
    Opt_verbose "int option" | Opt_verboser "int option" | Opt_manual_last_value "int option" | Opt_nodrop "int option"
  | Opt_manual "int option" | Opt_send_all_data "int option" | Opt_subscribe "byte list" | Opt_unsubscribe "byte list"
  | Opt_welcome_msg "byte list" | Opt_other

definition flag_option :: "int option \<Rightarrow> (bool \<Rightarrow> 'p xpub) \<Rightarrow> errno + 'p xpub" where
  "flag_option v f = (case v of None \<Rightarrow> Inl EINVAL | Some i \<Rightarrow> if i < 0 then Inl EINVAL else Inr (f (i \<noteq> 0)))"

fun xsetsockopt :: "pub_option \<Rightarrow> 'p::linorder xpub \<Rightarrow> (errno + 'p xpub) option" where
  "xsetsockopt (Opt_verbose v) s = Some (flag_option v (\<lambda>b. s\<lparr>x_verbose_subs := b, x_verbose_unsubs := False\<rparr>))"
| "xsetsockopt (Opt_verboser v) s = Some (flag_option v (\<lambda>b. s\<lparr>x_verbose_subs := b, x_verbose_unsubs := b\<rparr>))"
| "xsetsockopt (Opt_manual_last_value v) s = Some (flag_option v (\<lambda>b. s\<lparr>x_manual := b, x_send_last_pipe := b\<rparr>))"
| "xsetsockopt (Opt_nodrop v) s = Some (flag_option v (\<lambda>b. s\<lparr>x_lossy := \<not> b\<rparr>))"
| "xsetsockopt (Opt_manual v) s = Some (flag_option v (\<lambda>b. s\<lparr>x_manual := b\<rparr>))"
| "xsetsockopt (Opt_send_all_data v) s = Some (flag_option v (\<lambda>b. s\<lparr>x_send_all_data := b\<rparr>))"
| "xsetsockopt (Opt_subscribe k) s =
     (if \<not> x_manual s then Some (Inl EINVAL)
      else case x_last_pipe s of
        None \<Rightarrow> Some (Inr s)
      | Some p \<Rightarrow> Some (Inr (s\<lparr>x_subscriptions := snd (mt_add k p (x_subscriptions s))\<rparr>)))"
| "xsetsockopt (Opt_unsubscribe k) s =
     (if \<not> x_manual s then Some (Inl EINVAL)
      else case x_last_pipe s of
        None \<Rightarrow> Some (Inr s)
      | Some p \<Rightarrow> map_option (\<lambda>(_, t). Inr (s\<lparr>x_subscriptions := t\<rparr>)) (mt_rm k p (x_subscriptions s)))"
| "xsetsockopt (Opt_welcome_msg bs) s = Some (Inr (s\<lparr>x_welcome_msg := bs\<rparr>))"
| "xsetsockopt Opt_other s = Some (Inl EINVAL)"

datatype pub_query =
    Get_topics_count | Get_verbose | Get_verboser | Get_manual | Get_manual_last_value | Get_nodrop | Get_other

definition xgetsockopt :: "pub_query \<Rightarrow> 'p xpub \<Rightarrow> errno + u32" where
  "xgetsockopt q s =
     (case q of
        Get_topics_count \<Rightarrow> Inr (num_prefixes (x_subscriptions s))
      | Get_verbose \<Rightarrow> Inr (if x_verbose_subs s then 1 else 0)
      | Get_verboser \<Rightarrow> Inr (if x_verbose_subs s \<and> x_verbose_unsubs s then 1 else 0)
      | Get_manual \<Rightarrow> Inr (if x_manual s then 1 else 0)
      | Get_manual_last_value \<Rightarrow> Inr (if x_manual s \<and> x_send_last_pipe s then 1 else 0)
      | Get_nodrop \<Rightarrow> Inr (if x_lossy s then 0 else 1)
      | Get_other \<Rightarrow> Inl EINVAL)"

subsection \<open>Sending and receiving\<close>

fun match_each :: "'p list \<Rightarrow> 'p dist \<Rightarrow> 'p dist option" where
  "match_each [] d = Some d"
| "match_each (p # ps) d = do { d \<leftarrow> dist_match p d; match_each ps d }"

text \<open>The destinations of a record, at its first frame.\<close>

definition xpub_select :: "byte list \<Rightarrow> 'p xpub \<Rightarrow> 'p xpub option" where
  "xpub_select data s =
     (let s = s\<lparr>x_dist := dist_unmatch (x_dist s)\<rparr> in
      do { s \<leftarrow> (if x_send_all_data s \<and> \<not> x_manual s \<and> \<not> x_invert_matching s then
                  Some (s\<lparr>x_dist := dist_match_all (x_dist s)\<rparr>)
                else if x_manual s \<and> x_last_pipe s \<noteq> None \<and> x_send_last_pipe s then
                  do { d \<leftarrow> match_each (filter (\<lambda>p. x_last_pipe s = Some p) (mt_match data (x_subscriptions s))) (x_dist s);
                       Some (s\<lparr>x_dist := d, x_last_pipe := None\<rparr>) }
                else
                  do { d \<leftarrow> match_each (mt_match data (x_subscriptions s)) (x_dist s); Some (s\<lparr>x_dist := d\<rparr>) });
           (if x_invert_matching s then map_option (\<lambda>d. s\<lparr>x_dist := d\<rparr>) (dist_reverse_match (x_dist s)) else Some s) })"

datatype send_rc = Sent | Failed errno admission | Record_aborted

definition xsend ::
    "nat \<Rightarrow> ('p, 'w) pipe_ops \<Rightarrow> hmsg \<Rightarrow> 'p xpub \<Rightarrow> heap \<times> 'w \<Rightarrow> (send_rc \<times> 'p xpub \<times> heap \<times> 'w) option" where
  "xsend pool_max ops m s hw =
     (case hw of (h, w) \<Rightarrow>
        do { data \<leftarrow> msg_bytes h m;
             s \<leftarrow> (if \<not> x_more_send s then xpub_select data s else Some s);
             (admission, d, w) \<leftarrow> (if x_more_send s then Some (Adm_ready, x_dist s, w)
                                   else dist_check_publish_record_hwm ops (x_lossy s) (x_dist s) w);
             let s = s\<lparr>x_dist := d\<rparr>;
             if admission \<noteq> Adm_ready then Some (Failed EAGAIN admission, s, h, w)
             else do {
               (taken, d, h, w) \<leftarrow> dist_send_to_matching pool_max ops m True d (h, w);
               if taken then
                 Some (Sent, s\<lparr>x_dist := if has_more m then d else dist_unmatch d, x_more_send := has_more m\<rparr>, h, w)
               else if x_more_send s then Some (Record_aborted, s\<lparr>x_dist := d, x_more_send := False\<rparr>, h, w)
               else Some (Failed EMSGSIZE Adm_too_large, s\<lparr>x_dist := d\<rparr>, h, w) } })"

definition xrollback :: "('p, 'w) pipe_ops \<Rightarrow> 'p xpub \<Rightarrow> heap \<times> 'w \<Rightarrow> ('p xpub \<times> heap \<times> 'w) option" where
  "xrollback ops s hw =
     map_option (\<lambda>(d, hw). (s\<lparr>x_dist := d, x_more_send := False\<rparr>, hw)) (dist_rollback ops (x_dist s) hw)"

text \<open>The bytes and flags handed to the user.\<close>

definition xrecv :: "'p xpub \<Rightarrow> (errno + (byte list \<times> byte)) \<times> 'p xpub" where
  "xrecv s =
     (case x_pending s of
        [] \<Rightarrow> (Inl EAGAIN, s)
      | item # rest \<Rightarrow>
          let s = (case x_pending_pipes s of
                     [] \<Rightarrow> s
                   | p # ps \<Rightarrow>
                       s\<lparr>x_pending_pipes := ps,
                         x_last_pipe := (case p of None \<Rightarrow> None | Some q \<Rightarrow> if dist_has_pipe q (x_dist s) then p else None)\<rparr>) in
          (Inr item, s\<lparr>x_pending := rest\<rparr>))"

definition xhas_in :: "'p xpub \<Rightarrow> bool" where
  "xhas_in s \<longleftrightarrow> x_pending s \<noteq> []"

definition pub_xrecv :: "'p xpub \<Rightarrow> (errno + (byte list \<times> byte)) \<times> 'p xpub" where
  "pub_xrecv s = (Inl ENOTSUP, s)"

end
