(* ===== verification/Xpub_Safety.thy ===== *)
theory Xpub_Safety
  imports Xpub
begin

section \<open>Publishing reaches the subscribers\<close>

text \<open>
  Composition of the multi-trie and the distributor in \<open>sockets/pubsub/xpub.cpp\<close>: the invariant of the
  publisher, the destinations of a record, what a send does with and without dropping, and what the
  user is told about subscriptions.
\<close>

subsection \<open>Invariant\<close>

abbreviation subs_rel :: "'p xpub \<Rightarrow> (byte list \<times> 'p) set" where
  "subs_rel s \<equiv> mt_rel (root (x_subscriptions s))"

abbreviation manual_rel :: "'p xpub \<Rightarrow> (byte list \<times> 'p) set" where
  "manual_rel s \<equiv> mt_rel (root (x_manual_subscriptions s))"

text \<open>The counter of prefixes never is below their number.\<close>

definition store_ok :: "'p::linorder mtrie_root \<Rightarrow> bool" where
  "store_ok t \<longleftrightarrow> mtrie_wf (root t) \<and> card (Domain (mt_rel (root t))) \<le> unat (num_prefixes t)"

text \<open>Every pipe with a subscription is attached: \<open>match\<close> and the stored positions rely on it.\<close>

definition xpub_ok :: "'p::linorder xpub \<Rightarrow> bool" where
  "xpub_ok s \<longleftrightarrow>
     dist_ok (x_dist s) \<and> d_more (x_dist s) = x_more_send s
     \<and> store_ok (x_subscriptions s) \<and> store_ok (x_manual_subscriptions s)
     \<and> Range (subs_rel s) \<subseteq> all_pipes (x_dist s)
     \<and> (x_manual s \<longrightarrow> set_option (x_last_pipe s) \<subseteq> all_pipes (x_dist s))"

text \<open>The laws of the multi-trie, on the root object.\<close>

lemma store_ok_finite: "store_ok t \<Longrightarrow> finite (Domain (mt_rel (root t)))"
  by (simp add: store_ok_def mt_rel_finite finite_Domain)

lemma mt_add_rel:
  assumes ok: "store_ok t" and "num_prefixes t \<noteq> - 1"
  shows "store_ok (snd (mt_add k p t))" "mt_rel (root (snd (mt_add k p t))) = insert (k, p) (mt_rel (root t))"
    "fst (mt_add k p t) = (k \<notin> Domain (mt_rel (root t)))" "unat (num_prefixes (snd (mt_add k p t))) \<le> Suc (unat (num_prefixes t))"
proof -
  obtain new t' where a: "mtrie_add k p (root t) = (new, t')" by (metis surj_pair)
  have l: "mtrie_wf t'" "mt_rel t' = insert (k, p) (mt_rel (root t))" "new = (k \<notin> Domain (mt_rel (root t)))"
    using sub_mtrie.add_law [OF _ a] ok by (auto simp: store_ok_def)
  have inc: "unat (num_prefixes t + 1) = Suc (unat (num_prefixes t))"
    using assms(2) by (metis add.commute eq_neg_iff_add_eq_0 unatSuc)
  then show "store_ok (snd (mt_add k p t))" using ok l store_ok_finite [OF ok]
    by (auto simp: mt_add_def a store_ok_def card_insert_if)
  show "mt_rel (root (snd (mt_add k p t))) = insert (k, p) (mt_rel (root t))"
    "fst (mt_add k p t) = (k \<notin> Domain (mt_rel (root t)))"
    "unat (num_prefixes (snd (mt_add k p t))) \<le> Suc (unat (num_prefixes t))" using l inc by (simp_all add: mt_add_def a)
qed

lemma mt_rm_rel:
  assumes ok: "store_ok t"
  shows "\<exists>t'. mt_rm k p t = Some (if (k, p) \<notin> mt_rel (root t) then not_found
      else if mt_rel (root t) `` {k} = {p} then last_value_removed else values_remain, t')
    \<and> store_ok t' \<and> mt_rel (root t') = mt_rel (root t) - {(k, p)} \<and> num_prefixes t' \<le> num_prefixes t"
proof -
  let ?R = "mt_rel (root t)"
  let ?r = "if (k, p) \<notin> ?R then not_found else if ?R `` {k} = {p} then last_value_removed else values_remain"
  have wf: "mtrie_wf (root t)" and fin: "finite ?R" and c: "card (Domain ?R) \<le> unat (num_prefixes t)"
    using ok by (auto simp: store_ok_def mt_rel_finite)
  obtain t' where t': "mtrie_rm k p (root t) = Some (?r, t')" "mtrie_wf t'" "mt_rel t' = ?R - {(k, p)}"
    using sub_mtrie.rm_law [OF wf, of k p] by blast
  show ?thesis
  proof (cases "(k, p) \<in> ?R \<and> ?R `` {k} = {p}")
    case True
    then have d: "card (Domain (?R - {(k, p)})) = card (Domain ?R) - 1" using Domain_rm [OF fin, of k p] by simp
    have "k \<in> Domain ?R" using True by blast
    then have "card (Domain ?R) \<noteq> 0" using finite_Domain [OF fin] by (metis card_0_eq empty_iff)
    then have n: "0 < num_prefixes t" using c by (metis le_zero_eq unat_0 word_neq_0_conv)
    then have dec: "unat (num_prefixes t - 1) = unat (num_prefixes t) - 1" by (simp add: unat_minus_one word_neq_0_conv)
    then have le: "num_prefixes t - 1 \<le> num_prefixes t" by (simp add: word_le_nat_alt)
    from dec have "store_ok (t\<lparr>root := t', num_prefixes := num_prefixes t - 1\<rparr>)" using t' c d by (simp add: store_ok_def)
    moreover have "mt_rm k p t = Some (last_value_removed, t\<lparr>root := t', num_prefixes := num_prefixes t - 1\<rparr>)"
      using t'(1) True n by (simp add: mt_rm_def)
    ultimately show ?thesis using True t'(3) le by auto
  next
    case False
    then have r: "?r \<noteq> last_value_removed" by auto
    have "card (Domain (?R - {(k, p)})) \<le> card (Domain ?R)" using fin by (intro card_mono) (auto simp: finite_Domain)
    then have "store_ok (t\<lparr>root := t'\<rparr>)" using t' c by (simp add: store_ok_def)
    moreover have "mt_rm k p t = Some (?r, t\<lparr>root := t'\<rparr>)" using t'(1) r unfolding mt_rm_def by simp
    ultimately show ?thesis using t'(3) by auto
  qed
qed

lemma mt_rm_pipe_rel:
  assumes ok: "store_ok t"
  shows "\<exists>t'. mt_rm_pipe p u t = Some (sorted_list_of_set {k. (k, p) \<in> mt_rel (root t) \<and> (u \<longrightarrow> mt_rel (root t) `` {k} = {p})}, t')
    \<and> store_ok t' \<and> mt_rel (root t') = {kq \<in> mt_rel (root t). snd kq \<noteq> p} \<and> num_prefixes t' = num_prefixes t"
proof -
  let ?R = "mt_rel (root t)"
  have wf: "mtrie_wf (root t)" and fin: "finite ?R" and c: "card (Domain ?R) \<le> unat (num_prefixes t)"
    using ok by (auto simp: store_ok_def mt_rel_finite)
  obtain t' where t': "rm_pipe p u [] (root t) = Some (sorted_list_of_set {k. (k, p) \<in> ?R \<and> (u \<longrightarrow> ?R `` {k} = {p})}, t')"
      "mtrie_wf t'" "mt_rel t' = {kq \<in> ?R. snd kq \<noteq> p}"
    using sub_mtrie.rm_all_law [OF wf, of p u] by blast
  have "card (Domain {kq \<in> ?R. snd kq \<noteq> p}) \<le> card (Domain ?R)" using fin by (intro card_mono) (auto simp: finite_Domain)
  then have "store_ok (t\<lparr>root := t'\<rparr>)" using t' c by (simp add: store_ok_def)
  then show ?thesis using t' by (intro exI [of _ "t\<lparr>root := t'\<rparr>"]) (simp add: mt_rm_pipe_def)
qed

definition subscribers :: "byte list \<Rightarrow> 'p xpub \<Rightarrow> 'p set" where
  "subscribers data s = {p. \<exists>k rest. data = k @ rest \<and> (k, p) \<in> subs_rel s}"

lemma mt_match_set: "set (mt_match data (x_subscriptions s)) = subscribers data s"
proof -
  have iff: "(\<exists>i \<in> {0..<Suc (length data)}. (take i data, p) \<in> subs_rel s) \<longleftrightarrow> p \<in> subscribers data s" for p
  proof
    assume "\<exists>i \<in> {0..<Suc (length data)}. (take i data, p) \<in> subs_rel s"
    then obtain i where "(take i data, p) \<in> subs_rel s" by blast
    moreover have "data = take i data @ drop i data" by simp
    ultimately show "p \<in> subscribers data s" unfolding subscribers_def by blast
  next
    assume "p \<in> subscribers data s"
    then obtain k rest where k: "data = k @ rest" "(k, p) \<in> subs_rel s" unfolding subscribers_def by blast
    have "take (length k) data = k" "length k \<in> {0..<Suc (length data)}" using k(1) by auto
    then show "\<exists>i \<in> {0..<Suc (length data)}. (take i data, p) \<in> subs_rel s" using k(2) by metis
  qed
  have "set (mt_match data (x_subscriptions s)) = (\<Union>i \<in> {0..<Suc (length data)}. {p. (take i data, p) \<in> subs_rel s})"
    unfolding mt_match_def mtrie_match_pipes by (auto simp del: upt_Suc)
  then show ?thesis using iff by blast
qed

subsection \<open>Selecting the destinations\<close>

lemma match_each_ok:
  assumes "dist_ok d" "\<not> d_more d" "set ps \<subseteq> all_pipes d"
  shows "\<exists>d'. match_each ps d = Some d' \<and> dist_ok d' \<and> all_pipes d' = all_pipes d \<and> eligible d' = eligible d
    \<and> matching d' = matching d \<union> (eligible d \<inter> set ps) \<and> \<not> d_more d'"
  using assms
proof (induction ps arbitrary: d)
  case (Cons p ps)
  have p: "p \<in> all_pipes d" using Cons.prems by simp
  obtain d1 where d1: "dist_match p d = Some d1" "dist_ok d1" "all_pipes d1 = all_pipes d" "eligible d1 = eligible d"
      "matching d1 = matching d \<union> (eligible d \<inter> {p})" "d_more d1 = d_more d"
    by (rule dist_match_ok [OF Cons.prems(1) p Cons.prems(2)])
  have "\<not> d_more d1" "set ps \<subseteq> all_pipes d1" using Cons.prems d1 by auto
  from Cons.IH [OF d1(2) this] d1 show ?case by auto
qed simp

text \<open>The destinations of a record whose first frame is \<open>data\<close>.\<close>

definition selected :: "byte list \<Rightarrow> 'p xpub \<Rightarrow> 'p set" where
  "selected data s =
     (let E = eligible (x_dist s);
          S = (if x_manual s \<and> x_last_pipe s \<noteq> None \<and> x_send_last_pipe s
               then subscribers data s \<inter> set_option (x_last_pipe s) else subscribers data s) in
      if x_send_all_data s \<and> \<not> x_manual s \<and> \<not> x_invert_matching s then E
      else if x_invert_matching s then E - S else E \<inter> S)"

lemma idle_active: "dist_ok d \<Longrightarrow> \<not> d_more d \<Longrightarrow> active d = eligible d"
  by (simp add: dist_ok_def view_defs)

lemma xpub_select_ok:
  assumes ok: "xpub_ok s" and idle: "\<not> x_more_send s"
  shows "\<exists>d lp. xpub_select data s = Some (s\<lparr>x_dist := d, x_last_pipe := lp\<rparr>) \<and> dist_ok d \<and> \<not> d_more d
    \<and> all_pipes d = all_pipes (x_dist s) \<and> eligible d = eligible (x_dist s) \<and> matching d = selected data s
    \<and> lp = (if x_send_all_data s \<and> \<not> x_manual s \<and> \<not> x_invert_matching s then x_last_pipe s
            else if x_manual s \<and> x_send_last_pipe s then None else x_last_pipe s)"
proof -
  let ?u = "dist_unmatch (x_dist s)"
  have d: "dist_ok (x_dist s)" "\<not> d_more (x_dist s)" using ok idle by (auto simp: xpub_ok_def)
  have u: "dist_ok ?u" "\<not> d_more ?u" "matching ?u = {}" "eligible ?u = eligible (x_dist s)" "all_pipes ?u = all_pipes (x_dist s)"
    using dist_unmatch_ok [of "x_dist s"] d by auto
  have sub: "subscribers data s \<subseteq> all_pipes (x_dist s)" using ok unfolding xpub_ok_def subscribers_def by blast
  show ?thesis
  proof (cases "x_send_all_data s \<and> \<not> x_manual s \<and> \<not> x_invert_matching s")
    case True
    let ?d = "dist_match_all ?u"
    have "active ?u = eligible (x_dist s)" using idle_active [OF u(1,2)] u(4) by simp
    then have "matching ?d = selected data s" using True dist_match_all_ok(2) [of ?u] by (simp add: selected_def Let_def)
    moreover have "xpub_select data s = Some (s\<lparr>x_dist := ?d\<rparr>)" using True by (simp add: xpub_select_def)
    moreover have "s\<lparr>x_dist := ?d\<rparr> = s\<lparr>x_dist := ?d, x_last_pipe := x_last_pipe s\<rparr>" by simp
    ultimately show ?thesis using True u dist_match_all_ok [of ?u]
      by (intro exI [of _ ?d] exI [of _ "x_last_pipe s"]) simp
  next
    case False
    define last where "last \<longleftrightarrow> x_manual s \<and> x_last_pipe s \<noteq> None \<and> x_send_last_pipe s"
    define ps where "ps = (if last then filter (\<lambda>p. x_last_pipe s = Some p) (mt_match data (x_subscriptions s))
        else mt_match data (x_subscriptions s))"
    define S where "S = (if last then subscribers data s \<inter> set_option (x_last_pipe s) else subscribers data s)"
    define lp where "lp = (if x_manual s \<and> x_send_last_pipe s then None else x_last_pipe s)"
    have "set ps = S" by (auto simp: ps_def S_def mt_match_set)
    moreover have "S \<subseteq> all_pipes ?u" using sub u(5) by (auto simp: S_def)
    ultimately obtain d1 where d1: "match_each ps ?u = Some d1" "dist_ok d1" "all_pipes d1 = all_pipes (x_dist s)"
        "eligible d1 = eligible (x_dist s)" "matching d1 = eligible (x_dist s) \<inter> S" "\<not> d_more d1"
      using match_each_ok [OF u(1,2), of ps] u by auto
    have sel: "xpub_select data s = (if x_invert_matching s
        then map_option (\<lambda>d. s\<lparr>x_dist := d, x_last_pipe := lp\<rparr>) (dist_reverse_match d1) else Some (s\<lparr>x_dist := d1, x_last_pipe := lp\<rparr>))"
    proof (cases last)
      case True
      then have "x_manual s" "x_last_pipe s \<noteq> None" "x_send_last_pipe s" by (simp_all add: last_def)
      then show ?thesis using False d1(1) True
        by (cases "dist_reverse_match d1") (simp_all add: xpub_select_def ps_def lp_def)
    next
      case nl: False
      then have lp: "lp = x_last_pipe s" and neg: "(x_manual s \<and> x_last_pipe s \<noteq> None \<and> x_send_last_pipe s) = False"
        by (auto simp: lp_def last_def)
      have "ps = mt_match data (x_subscriptions s)" using nl by (simp add: ps_def)
      then have m: "match_each (mt_match data (x_subscriptions s)) ?u = Some d1" using d1(1) by simp
      have all: "(x_send_all_data s \<and> \<not> x_manual s \<and> \<not> x_invert_matching s) = False" using False by simp
      show ?thesis unfolding xpub_select_def Let_def lp
        by (cases "dist_reverse_match d1") (simp_all add: m neg all del: not_None_eq not_Some_eq)
    qed
    have lp': "lp = (if x_send_all_data s \<and> \<not> x_manual s \<and> \<not> x_invert_matching s then x_last_pipe s
            else if x_manual s \<and> x_send_last_pipe s then None else x_last_pipe s)" using False by (simp add: lp_def)
    show ?thesis
    proof (cases "x_invert_matching s")
      case True
      obtain d2 where d2: "dist_reverse_match d1 = Some d2" "dist_ok d2" "all_pipes d2 = all_pipes d1" "eligible d2 = eligible d1"
          "matching d2 = eligible d1 - matching d1" "d_more d2 = d_more d1"
        by (rule dist_reverse_match_ok [OF d1(2,6)])
      have "matching d2 = selected data s" using d1 d2 True False by (auto simp: selected_def S_def last_def Let_def)
      then show ?thesis using sel d1 d2 True lp' by (intro exI [of _ d2] exI [of _ lp]) simp
    next
      case inv: False
      have "matching d1 = selected data s" using d1 inv False by (auto simp: selected_def S_def last_def Let_def)
      then show ?thesis using sel d1 inv lp' by (intro exI [of _ d1] exI [of _ lp]) simp
    qed
  qed
qed

subsection \<open>Sending the first frame\<close>

text \<open>What the publisher relies on from the pipes besides \<open>pipes_hold\<close>: asking for admission moves no
  message.\<close>

definition asking_keeps :: "('p, 'w) pipe_ops \<Rightarrow> ('w \<Rightarrow> hmsg multiset) \<Rightarrow> bool" where
  "asking_keeps ops held \<longleftrightarrow> (\<forall>p w. held (snd (po_check_hwm ops p w)) = held w)"

lemma ask_all_keeps: "asking_keeps ops held \<Longrightarrow> ask_all ops ps w = (cs, w') \<Longrightarrow> held w' = held w"
proof (induction ps arbitrary: w cs)
  case (Cons p ps)
  obtain c w1 where c: "po_check_hwm ops p w = (c, w1)" by (metis surj_pair)
  have "held w1 = held w" using Cons.prems(1) c unfolding asking_keeps_def by (metis snd_conv)
  then show ?case using Cons c by (auto simp: Let_def split: prod.splits)
qed simp

text \<open>The pipes that are to get the record once all the selected ones have answered.\<close>

definition receivers :: "'p xpub \<Rightarrow> byte list \<Rightarrow> ('p \<times> admission) list \<Rightarrow> 'p set" where
  "receivers s data cs = selected data s - hwm_dropped (x_lossy s) cs"

lemma few_mono: "few h X k \<Longrightarrow> j \<le> k \<Longrightarrow> few h X j"
  by (simp add: few_def)

lemma all_pipes_finite: "finite (all_pipes d)"
  by (simp add: all_pipes_def)

lemma selected_finite: "finite (selected data s)"
  by (rule finite_subset [of _ "eligible (x_dist s)"]) (auto simp: selected_def Let_def eligible_def split: if_splits)

lemma xpub_ok_dist:
  assumes "xpub_ok s" "dist_ok d" "all_pipes d = all_pipes (x_dist s)" "lp = x_last_pipe s \<or> lp = None"
  shows "xpub_ok (s\<lparr>x_dist := d, x_last_pipe := lp, x_more_send := d_more d\<rparr>)"
  using assms by (auto simp: xpub_ok_def)

text \<open>What sending the first frame of a record comes to, once the selected pipes have answered \<open>cs\<close> and are
  in state \<open>w1\<close>: the publisher must not drop and some pipe cannot take it; a receiver cannot take a frame of
  that size; or the frame is offered once to each receiver.\<close>

definition first_frame ::
    "('p, 'w) pipe_ops \<Rightarrow> ('w \<Rightarrow> hmsg multiset) \<Rightarrow> hmsg multiset \<Rightarrow> hmsg \<Rightarrow> 'p xpub \<Rightarrow> byte list \<Rightarrow> ('p \<times> admission) list
      \<Rightarrow> heap \<Rightarrow> 'w \<Rightarrow> send_rc \<Rightarrow> 'p xpub \<Rightarrow> heap \<Rightarrow> 'w \<Rightarrow> bool" where
  "first_frame ops held M m s data cs h w1 rc s' h' w' \<longleftrightarrow>
    (if \<not> x_lossy s \<and> worst (snd ` set cs) \<noteq> Adm_ready
     then rc = Failed EAGAIN (worst (snd ` set cs)) \<and> h' = h \<and> w' = w1 \<and> eligible (x_dist s') = eligible (x_dist s)
       \<and> \<not> x_more_send s'
     else if \<exists>p \<in> receivers s data cs. po_frame_size ops p m h w1 \<noteq> Adm_ready
     then rc = Failed EMSGSIZE Adm_too_large \<and> h' = h \<and> w' = w1 \<and> \<not> x_more_send s'
       \<and> eligible (x_dist s') = eligible (x_dist s) - hwm_dropped (x_lossy s) cs
     else rc = Sent \<and> x_more_send s' = has_more m \<and> heap_ok h' (held w' + M)
       \<and> (\<exists>ps accepted refused m' h1 h2. distinct ps \<and> set ps = receivers s data cs \<and> (m' = m \<or> m' = shared_copy m)
         \<and> offer_all ops m' True False ps (h1, w1) = (accepted, refused, h2, w')
         \<and> eligible (x_dist s') = eligible (x_dist s) - hwm_dropped (x_lossy s) cs - refused
         \<and> matching (x_dist s') = (if has_more m then accepted else {})))"

lemma xsend_first_law:
  assumes ok: "xpub_ok s" and idle: "\<not> x_more_send s" and ph: "pipes_hold ops held" and ak: "asking_keeps ops held"
    and v: "hm_valid m" and data: "msg_bytes h m = Some data" and hk: "heap_ok h (add_mset m (held w + M))"
    and few: "few h (add_mset m (held w + M)) (card (selected data s))"
  obtains qs cs w1 rc s' h' w' where "distinct qs" "set qs = selected data s" "ask_all ops qs w = (cs, w1)"
    "xsend pool_max ops m s (h, w) = Some (rc, s', h', w')" "xpub_ok s'"
    "first_frame ops held M m s data cs h w1 rc s' h' w'"
proof -
  obtain d lp where sel: "xpub_select data s = Some (s\<lparr>x_dist := d, x_last_pipe := lp\<rparr>)" "dist_ok d" "\<not> d_more d"
      "all_pipes d = all_pipes (x_dist s)" "eligible d = eligible (x_dist s)" "matching d = selected data s"
      and lp0: "lp = (if x_send_all_data s \<and> \<not> x_manual s \<and> \<not> x_invert_matching s then x_last_pipe s
            else if x_manual s \<and> x_send_last_pipe s then None else x_last_pipe s)"
    using xpub_select_ok [OF ok idle, of data] by blast
  then have lp: "lp = x_last_pipe s \<or> lp = None" by (simp split: if_splits)
  obtain qs cs w1 d1 where a: "distinct qs" "set qs = matching d" "ask_all ops qs w = (cs, w1)"
      "dist_check_publish_record_hwm ops (x_lossy s) d w = Some (if x_lossy s then Adm_ready else worst (snd ` set cs), d1, w1)"
      "dist_ok d1" "all_pipes d1 = all_pipes d" "matching d1 = matching d - hwm_dropped (x_lossy s) cs"
      "eligible d1 = eligible d - hwm_dropped (x_lossy s) cs" "hwm_dropped (x_lossy s) cs \<subseteq> matching d"
      "d_more d1 = d_more d" "\<not> x_lossy s \<longrightarrow> d1 = d"
    by (rule admission_law [OF sel(2)])
  let ?adm = "if x_lossy s then Adm_ready else worst (snd ` set cs)"
  let ?s1 = "s\<lparr>x_dist := d1, x_last_pipe := lp\<rparr>"
  have held: "held w1 = held w" by (rule ask_all_keeps [OF ak a(3)])
  have rcv: "matching d1 = receivers s data cs" using a(7) sel(6) by (simp add: receivers_def)
  have ok1: "xpub_ok (s\<lparr>x_dist := e, x_last_pipe := lp, x_more_send := d_more e\<rparr>)"
    if "dist_ok e" "all_pipes e = all_pipes d1" for e
    by (rule xpub_ok_dist [OF ok that(1) _ lp]) (simp add: that(2) a(6) sel(4))
  have noop: "s\<lparr>x_dist := e, x_last_pipe := lp, x_more_send := False\<rparr> = s\<lparr>x_dist := e, x_last_pipe := lp\<rparr>" for e
    using idle by simp
  have step: "xsend pool_max ops m s (h, w) =
      (if ?adm \<noteq> Adm_ready then Some (Failed EAGAIN ?adm, ?s1, h, w1)
       else do { (taken, e, h, w) \<leftarrow> dist_send_to_matching pool_max ops m True d1 (h, w1);
               if taken then
                 Some (Sent, ?s1\<lparr>x_dist := if has_more m then e else dist_unmatch e, x_more_send := has_more m\<rparr>, h, w)
               else Some (Failed EMSGSIZE Adm_too_large, ?s1\<lparr>x_dist := e\<rparr>, h, w) })"
    using idle data sel(1) a(4)
    by (cases "dist_send_to_matching pool_max ops m True d1 (h, w1)") (simp_all add: xsend_def Let_def split: prod.splits)
  show ?thesis
  proof (cases "\<not> x_lossy s \<and> worst (snd ` set cs) \<noteq> Adm_ready")
    case True
    then have x: "xsend pool_max ops m s (h, w) = Some (Failed EAGAIN (worst (snd ` set cs)), ?s1, h, w1)" using step by simp
    have "xpub_ok ?s1" using ok1 [OF a(5) refl] a(10) sel(3) noop by simp
    moreover have "eligible d1 = eligible (x_dist s)" using True a(11) sel(5) by simp
    ultimately show ?thesis by (intro that [OF a(1) _ a(3) x]) (use True a(2) sel(6) idle in \<open>simp_all add: first_frame_def\<close>)
  next
    case False
    then have adm: "?adm = Adm_ready" by auto
    have hk1: "heap_ok h (add_mset m (held w1 + M))" "heap_ok h (held w1 + add_mset m M)" using hk held by simp_all
    have "d_matching d1 \<le> card (selected data s)"
      using matching_card [OF a(5)] card_mono [OF selected_finite, of "matching d1" data s] a(7) sel(6) by auto
    then have few1: "few h (add_mset m (held w1 + M)) (d_matching d1 - 1)" using few held by (intro few_mono [OF few [folded held]]) simp
    show ?thesis
    proof (cases "too_large ops m True d1 h w1")
      case big: True
      obtain e where e: "dist_send_to_matching pool_max ops m True d1 (h, w1) = Some (False, e, h, w1)" "dist_ok e"
          "all_pipes e = all_pipes d1" "eligible e = eligible d1" "\<not> d_more e"
        using dist_send_refused [OF a(5) ph big hk1(2), of pool_max] a(10) sel(3) by auto
      have x: "xsend pool_max ops m s (h, w) = Some (Failed EMSGSIZE Adm_too_large, s\<lparr>x_dist := e, x_last_pipe := lp\<rparr>, h, w1)"
        using step adm e(1) by simp
      have "xpub_ok (s\<lparr>x_dist := e, x_last_pipe := lp\<rparr>)" using ok1 [OF e(2,3)] e(5) noop by simp
      moreover have "\<exists>p \<in> receivers s data cs. po_frame_size ops p m h w1 \<noteq> Adm_ready" using big rcv by (auto simp: too_large_def)
      ultimately show ?thesis
        by (intro that [OF a(1) _ a(3) x]) (use False a(2,8) sel(5,6) idle e(4) in \<open>simp_all add: first_frame_def del: de_Morgan_conj\<close>)
    next
      case fits: False
      obtain d2 e h' w' where e: "dist_send_to_matching pool_max ops m True d1 (h, w1) = Some (True, e, h', w')"
          "fanned_out ops held M m True d1 w1 d2 h' w'" "dist_ok e" "all_pipes e = all_pipes d2"
          "eligible e = eligible d2" "matching e = matching d2" "d_more e = has_more m"
        using dist_send_taken [OF a(5) ph v fits hk1(1) few1, of pool_max] by blast
      obtain ps acc ref m' h1 h2 where f: "distinct ps" "set ps = matching d1" "m' = m \<or> m' = shared_copy m"
          "offer_all ops m' True (d_more d1) ps (h1, w1) = (acc, ref, h2, w')" "all_pipes d2 = all_pipes d1"
          "eligible d2 = eligible d1 - ref" "matching d2 = matching d1 - ref" and hk': "heap_ok h' (held w' + M)"
        using e(2) unfolding fanned_out_def by blast
      let ?e = "if has_more m then e else dist_unmatch e"
      let ?s' = "s\<lparr>x_dist := ?e, x_last_pipe := lp, x_more_send := has_more m\<rparr>"
      have x: "xsend pool_max ops m s (h, w) = Some (Sent, ?s', h', w')" using step adm e(1) by simp
      have e': "dist_ok ?e" "all_pipes ?e = all_pipes d1" "d_more ?e = has_more m" "eligible ?e = eligible d1 - ref"
        using e(3-7) f(5,6) by (simp_all add: dist_unmatch_ok)
      have okS: "xpub_ok ?s'" using ok1 [OF e'(1,2)] e'(3) by simp
      have "acc = matching d1 - ref" using offer_all_partition [OF f(4,1)] f(2) by auto
      then have m': "matching ?e = (if has_more m then acc else {})" using e(6) f(7) by (simp add: dist_unmatch_ok)
      have nbig: "\<not> (\<exists>p \<in> receivers s data cs. po_frame_size ops p m h w1 \<noteq> Adm_ready)" using fits rcv by (simp add: too_large_def)
      have dm: "d_more d1 = False" using a(10) sel(3) by simp
      have ex: "\<exists>ps accepted refused m' h1 h2. distinct ps \<and> set ps = receivers s data cs \<and> (m' = m \<or> m' = shared_copy m)
         \<and> offer_all ops m' True False ps (h1, w1) = (accepted, refused, h2, w')
         \<and> eligible (x_dist ?s') = eligible (x_dist s) - hwm_dropped (x_lossy s) cs - refused
         \<and> matching (x_dist ?s') = (if has_more m then accepted else {})"
        by (rule exI [of _ ps], rule exI [of _ acc], rule exI [of _ ref], rule exI [of _ m'], rule exI [of _ h1], rule exI [of _ h2])
          (use f(1-4) rcv dm e'(4) a(8) sel(5) m' in simp)
      show ?thesis
        by (rule that [OF a(1) _ a(3) x okS]) (use False nbig ex hk' a(2) sel(6) in \<open>simp_all add: first_frame_def del: de_Morgan_conj\<close>)
    qed
  qed
qed

subsection \<open>The other operations\<close>

text \<open>Later frames go to the pipes that took all the frames before.\<close>

lemma xsend_more_law:
  assumes ok: "xpub_ok s" and more: "x_more_send s" and ph: "pipes_hold ops held"
    and v: "hm_valid m" and data: "msg_bytes h m = Some data" and hk: "heap_ok h (add_mset m (held w + M))"
    and few: "few h (add_mset m (held w + M)) (d_matching (x_dist s) - 1)"
  obtains rc s' h' w' where "xsend pool_max ops m s (h, w) = Some (rc, s', h', w')" "xpub_ok s'"
    "if too_large ops m True (x_dist s) h w
     then rc = Record_aborted \<and> \<not> x_more_send s' \<and> matching (x_dist s') = {} \<and> heap_ok h' (held w' + add_mset m M)
     else rc = Sent \<and> x_more_send s' = has_more m \<and> heap_ok h' (held w' + M)
       \<and> matching (x_dist s') \<subseteq> matching (x_dist s)"
proof (cases "too_large ops m True (x_dist s) h w")
  have d: "dist_ok (x_dist s)" "d_more (x_dist s)" using ok more by (auto simp: xpub_ok_def)
  have hk2: "heap_ok h (held w + add_mset m M)" using hk by simp
  case True
  obtain e h' w' where e: "dist_send_to_matching pool_max ops m True (x_dist s) (h, w) = Some (False, e, h', w')" "dist_ok e"
      "all_pipes e = all_pipes (x_dist s)" "\<not> d_more e" "matching e = {}" "heap_ok h' (held w' + add_mset m M)"
    using dist_send_refused [OF d(1) ph True hk2, of pool_max] d(2) by auto
  have "xsend pool_max ops m s (h, w) = Some (Record_aborted, s\<lparr>x_dist := e, x_more_send := False\<rparr>, h', w')"
    using more data e(1) by (simp add: xsend_def)
  moreover have "xpub_ok (s\<lparr>x_dist := e, x_more_send := False\<rparr>)" using ok e by (simp add: xpub_ok_def)
  ultimately show ?thesis by (rule that) (use True e in simp)
next
  have d: "dist_ok (x_dist s)" using ok by (simp add: xpub_ok_def)
  case False
  obtain d2 e h' w' where e: "dist_send_to_matching pool_max ops m True (x_dist s) (h, w) = Some (True, e, h', w')"
      "fanned_out ops held M m True (x_dist s) w d2 h' w'" "dist_ok e" "all_pipes e = all_pipes d2"
      "matching e = matching d2" "d_more e = has_more m"
    using dist_send_taken [OF d ph v False hk few, of pool_max] by blast
  have f: "all_pipes d2 = all_pipes (x_dist s)" "matching d2 \<subseteq> matching (x_dist s)" "heap_ok h' (held w' + M)"
    using e(2) unfolding fanned_out_def by blast+
  let ?e = "if has_more m then e else dist_unmatch e"
  have "xsend pool_max ops m s (h, w) = Some (Sent, s\<lparr>x_dist := ?e, x_more_send := has_more m\<rparr>, h', w')"
    using more data e(1) by (simp add: xsend_def)
  moreover have "xpub_ok (s\<lparr>x_dist := ?e, x_more_send := has_more m\<rparr>)" using ok e f by (auto simp: xpub_ok_def dist_unmatch_ok)
  ultimately show ?thesis by (rule that) (use False e f in \<open>simp add: dist_unmatch_ok\<close>)
qed

text \<open>Room for \<open>n\<close> more topics before a counter wraps.\<close>

definition topic_room :: "nat \<Rightarrow> 'p xpub \<Rightarrow> bool" where
  "topic_room n s \<longleftrightarrow> unat (num_prefixes (x_subscriptions s)) + n < 2 ^ 32 \<and> unat (num_prefixes (x_manual_subscriptions s)) + n < 2 ^ 32"

lemma topic_room_no_wrap:
  assumes "topic_room n s" "0 < n"
  shows "num_prefixes (x_subscriptions s) \<noteq> - 1" "num_prefixes (x_manual_subscriptions s) \<noteq> - 1"
proof -
  have top: "unat (- 1 :: u32) = 2 ^ 32 - 1" by (simp add: unsigned_minus_1_eq_mask mask_eq_exp_minus_1)
  show "num_prefixes (x_subscriptions s) \<noteq> - 1" "num_prefixes (x_manual_subscriptions s) \<noteq> - 1"
    using assms top by (auto simp: topic_room_def)
qed

text \<open>What a request may not touch.\<close>

definition same_but_subs :: "'p xpub \<Rightarrow> 'p xpub \<Rightarrow> bool" where
  "same_but_subs s s' \<longleftrightarrow>
     s' = s\<lparr>x_subscriptions := x_subscriptions s', x_manual_subscriptions := x_manual_subscriptions s'\<rparr>"

lemma Range_sub_insert: "R' \<subseteq> insert (k, p) R \<Longrightarrow> Range R \<subseteq> A \<Longrightarrow> p \<in> A \<Longrightarrow> Range R' \<subseteq> A"
  by blast

lemma apply_request_ok:
  assumes ok: "xpub_ok s" and p: "p \<in> all_pipes (x_dist s)" and rm: "topic_room (Suc n) s"
  obtains notify s' where "apply_request p subscribe data s = Some (notify, s')" "xpub_ok s'" "same_but_subs s s'" "topic_room n s'"
proof -
  note result = that
  have st: "store_ok (x_subscriptions s)" "store_ok (x_manual_subscriptions s)" using ok by (auto simp: xpub_ok_def)
  have nw: "num_prefixes (x_subscriptions s) \<noteq> - 1" "num_prefixes (x_manual_subscriptions s) \<noteq> - 1"
    using topic_room_no_wrap [OF rm] by auto
  have put_subs: thesis if "store_ok t" "mt_rel (root t) \<subseteq> insert (data, p) (subs_rel s)"
      "unat (num_prefixes t) \<le> Suc (unat (num_prefixes (x_subscriptions s)))"
      "apply_request p subscribe data s = Some (b, s\<lparr>x_subscriptions := t\<rparr>)" for t b
  proof (rule result [OF that(4)])
    have "Range (mt_rel (root t)) \<subseteq> all_pipes (x_dist s)" using Range_sub_insert [OF that(2)] ok p unfolding xpub_ok_def by blast
    then show "xpub_ok (s\<lparr>x_subscriptions := t\<rparr>)" using ok that(1) by (simp add: xpub_ok_def)
    show "topic_room n (s\<lparr>x_subscriptions := t\<rparr>)" using rm that(3) by (simp add: topic_room_def)
  qed (simp add: same_but_subs_def)
  have put_manual: thesis if "store_ok t"
      "unat (num_prefixes t) \<le> Suc (unat (num_prefixes (x_manual_subscriptions s)))"
      "apply_request p subscribe data s = Some (b, s\<lparr>x_manual_subscriptions := t\<rparr>)" for t b
  proof (rule result [OF that(3)])
    show "xpub_ok (s\<lparr>x_manual_subscriptions := t\<rparr>)" using ok that(1) by (simp add: xpub_ok_def)
    show "topic_room n (s\<lparr>x_manual_subscriptions := t\<rparr>)" using rm that(2) by (simp add: topic_room_def)
  qed (simp add: same_but_subs_def)
  show thesis
  proof (cases "x_manual s")
    case man: True
    show thesis
    proof (cases subscribe)
      case True
      show thesis
        by (rule put_manual [OF mt_add_rel(1) [OF st(2) nw(2), of data p] mt_add_rel(4) [OF st(2) nw(2), of data p], of False])
          (use man True in \<open>simp_all add: apply_request_def\<close>)
    next
      case False
      obtain r t where t: "mt_rm data p (x_manual_subscriptions s) = Some (r, t)" "store_ok t"
          "mt_rel (root t) = manual_rel s - {(data, p)}" "num_prefixes t \<le> num_prefixes (x_manual_subscriptions s)"
        using mt_rm_rel [OF st(2), of data p] by blast
      show thesis
        by (rule put_manual [OF t(2), of False]) (use man False t in \<open>auto simp: apply_request_def word_le_nat_alt\<close>)
    qed
  next
    case man: False
    show thesis
    proof (cases subscribe)
      case True
      show thesis
        by (rule put_subs [OF mt_add_rel(1) [OF st(1) nw(1), of data p] _ mt_add_rel(4) [OF st(1) nw(1), of data p],
              of "fst (mt_add data p (x_subscriptions s)) \<or> x_verbose_subs s"])
          (use man True mt_add_rel(2) [OF st(1) nw(1), of data p] in \<open>simp_all add: apply_request_def case_prod_unfold\<close>)
    next
      case False
      obtain r t where t: "mt_rm data p (x_subscriptions s) = Some (r, t)" "store_ok t"
          "mt_rel (root t) = subs_rel s - {(data, p)}" "num_prefixes t \<le> num_prefixes (x_subscriptions s)"
        using mt_rm_rel [OF st(1), of data p] by blast
      show thesis
        by (rule put_subs [OF t(2)]) (use man False t in \<open>auto simp: apply_request_def word_le_nat_alt\<close>)
    qed
  qed
qed

lemma xpub_ok_quiet:
  assumes "xpub_ok s" "x_dist s' = x_dist s" "x_more_send s' = x_more_send s" "x_subscriptions s' = x_subscriptions s"
    "x_manual_subscriptions s' = x_manual_subscriptions s"
    "x_manual s' \<longrightarrow> set_option (x_last_pipe s') \<subseteq> all_pipes (x_dist s)"
  shows "xpub_ok s'"
  using assms by (simp add: xpub_ok_def)

lemma xpub_ok_manual: "xpub_ok s \<Longrightarrow> x_manual s \<longrightarrow> set_option (x_last_pipe s) \<subseteq> all_pipes (x_dist s)"
  by (simp add: xpub_ok_def)

lemma xread_msg_ok:
  assumes ok: "xpub_ok s" and p: "p \<in> all_pipes (x_dist s)" and rm: "topic_room (Suc n) s"
  obtains s' where "xread_msg p m s = Some s'" "xpub_ok s'" "x_dist s' = x_dist s" "topic_room n s'"
proof -
  let ?first = "\<not> x_more_recv s"
  let ?request = "if ?first \<or> x_process_subscribe s then sub_request m else None"
  define s0 where "s0 = (if ?first then s\<lparr>x_more_recv := has_more m, x_process_subscribe := ?request \<noteq> None\<rparr>
    else s\<lparr>x_more_recv := has_more m\<rparr>)"
  have s0: "x_dist s0 = x_dist s" "x_more_send s0 = x_more_send s" "x_subscriptions s0 = x_subscriptions s" "x_last_pipe s0 = x_last_pipe s"
      "x_manual_subscriptions s0 = x_manual_subscriptions s" "x_manual s0 = x_manual s" by (simp_all add: s0_def)
  have ok0: "xpub_ok s0" by (rule xpub_ok_quiet [OF ok]) (use s0 xpub_ok_manual [OF ok] in simp_all)
  have rm0: "topic_room (Suc n) s0" using rm by (simp add: topic_room_def s0)
  have push: "xpub_ok (push_pending a b c t)" "x_dist (push_pending a b c t) = x_dist t" "topic_room n (push_pending a b c t)"
    if "xpub_ok t" "topic_room n t" for a b c and t :: "'a xpub"
    using that by (auto simp: push_pending_def xpub_ok_def topic_room_def)
  show thesis
  proof (cases ?request)
    case None
    then have x: "xread_msg p m s = Some (if x_type s0 \<noteq> Sock_pub then push_pending (msg_data m) (msg_flags m) (Some p) s0 else s0)"
      by (auto simp: xread_msg_def Let_def s0_def)
    have "topic_room n s0" using rm0 by (simp add: topic_room_def)
    then show thesis using push ok0 s0 by (intro that [OF x]) simp_all
  next
    case (Some r)
    obtain subscribe data where r: "r = (subscribe, data)" by (rule prod.exhaust)
    have p0: "p \<in> all_pipes (x_dist s0)" using p s0 by simp
    obtain notify s1 where a: "apply_request p subscribe data s0 = Some (notify, s1)" "xpub_ok s1" "same_but_subs s0 s1" "topic_room n s1"
      by (rule apply_request_ok [OF ok0 p0 rm0])
    have d1: "x_dist s1 = x_dist s" using a(3) s0 unfolding same_but_subs_def by (metis xpub.select_convs(5) xpub.surjective xpub.update_convs(3) xpub.update_convs(4))
    have "xread_msg p m s = Some (if x_manual s1 \<or> (x_type s1 = Sock_xpub \<and> notify)
                     then push_pending ((if subscribe then 1 else 0) # data) 0 (Some p) s1 else s1)"
      using Some r a(1) by (auto simp: xread_msg_def Let_def s0_def ex_bool_eq)
    then show thesis by (rule that) (use push a d1 in simp_all)
  qed
qed

lemma xread_activated_ok:
  assumes "xpub_ok s" "p \<in> all_pipes (x_dist s)" "topic_room (length ms) s"
  shows "\<exists>s'. xread_activated p ms s = Some s' \<and> xpub_ok s' \<and> x_dist s' = x_dist s"
  using assms
proof (induction ms arbitrary: s)
  case (Cons m ms)
  have rm: "topic_room (Suc (length ms)) s" using Cons.prems(3) by simp
  obtain s1 where s1: "xread_msg p m s = Some s1" "xpub_ok s1" "x_dist s1 = x_dist s" "topic_room (length ms) s1"
    by (rule xread_msg_ok [OF Cons.prems(1,2) rm])
  then show ?case using Cons.IH [OF s1(2) _ s1(4)] Cons.prems(2) by auto
qed simp

lemma xattach_pipe_ok:
  assumes ok: "xpub_ok s" and p: "p \<notin> all_pipes (x_dist s)" and rm: "topic_room (Suc (length waiting)) s"
    and wf: "\<And>data w. \<exists>w'. write_and_flush p data w = (True, w')"
  shows "\<exists>s' w'. xattach_pipe write_and_flush p all waiting s w = Some (s', w') \<and> xpub_ok s'
    \<and> all_pipes (x_dist s') = insert p (all_pipes (x_dist s))"
proof -
  have dok: "dist_ok (x_dist s)" and st: "store_ok (x_subscriptions s)" using ok by (auto simp: xpub_ok_def)
  obtain d where d: "dist_attach p (x_dist s) = Some d" "dist_ok d" "all_pipes d = insert p (all_pipes (x_dist s))"
      "d_more d = d_more (x_dist s)"
    by (rule dist_attach_ok [OF dok p])
  let ?s1 = "s\<lparr>x_dist := d\<rparr>"
  define s2 where "s2 = (if all then ?s1\<lparr>x_subscriptions := snd (mt_add [] p (x_subscriptions ?s1))\<rparr> else ?s1)"
  have nw: "num_prefixes (x_subscriptions s) \<noteq> - 1" using topic_room_no_wrap [OF rm] by simp
  note add = mt_add_rel [OF st nw, of "[]" p]
  have ok1: "xpub_ok ?s1" using ok d by (auto simp: xpub_ok_def)
  have rel: "subs_rel s2 \<subseteq> insert ([], p) (subs_rel s)" by (auto simp: s2_def add(2))
  have fields: "x_dist s2 = d" "x_manual_subscriptions s2 = x_manual_subscriptions s" "x_more_send s2 = x_more_send s"
    "x_manual s2 = x_manual s" "x_last_pipe s2 = x_last_pipe s" "x_welcome_msg s2 = x_welcome_msg s"
    "store_ok (x_subscriptions s2)" "unat (num_prefixes (x_subscriptions s2)) \<le> Suc (unat (num_prefixes (x_subscriptions s)))"
    using add st by (simp_all add: s2_def)
  have "Range (subs_rel s) \<subseteq> all_pipes d" "p \<in> all_pipes d" using ok d(3) by (auto simp only: xpub_ok_def)
  then have "Range (subs_rel s2) \<subseteq> all_pipes d" by (rule Range_sub_insert [OF rel])
  then have ok2: "xpub_ok s2" using ok1 fields by (simp add: xpub_ok_def)
  have rm2: "topic_room (length waiting) s2" using rm fields(8) by (simp add: topic_room_def fields(2))
  have p2: "p \<in> all_pipes (x_dist s2)" using d(3) fields by simp
  obtain s' where s': "xread_activated p waiting s2 = Some s'" "xpub_ok s'" "x_dist s' = d"
    using xread_activated_ok [OF ok2 p2 rm2] fields by auto
  obtain w' where w': "write_and_flush p (x_welcome_msg s) w = (True, w')" using wf by blast
  have "xattach_pipe write_and_flush p all waiting s w = Some (s', if x_welcome_msg s \<noteq> [] then w' else w)"
    using d(1) s'(1) w' fields(6) by (simp add: xattach_pipe_def Let_def s2_def [symmetric])
  then show ?thesis using s' d by auto
qed

lemma fold_unsubscription:
  "x_dist (fold send_unsubscription ks s) = x_dist s \<and> x_more_send (fold send_unsubscription ks s) = x_more_send s
   \<and> x_subscriptions (fold send_unsubscription ks s) = x_subscriptions s \<and> x_manual (fold send_unsubscription ks s) = x_manual s
   \<and> x_manual_subscriptions (fold send_unsubscription ks s) = x_manual_subscriptions s
   \<and> (x_last_pipe (fold send_unsubscription ks s) = x_last_pipe s \<or> x_last_pipe (fold send_unsubscription ks s) = None)"
proof (induction ks arbitrary: s)
  case (Cons k ks)
  show ?case using Cons [of "send_unsubscription k s"] by (auto simp: send_unsubscription_def push_pending_def)
qed simp

text \<open>A terminated pipe keeps no subscription and no place. In manual mode it is not the last pipe any
  more, and the subscriptions it asked for are forgotten.\<close>

lemma xpipe_terminated_ok:
  assumes ok: "xpub_ok s"
  shows "\<exists>s'. xpipe_terminated p s = Some s' \<and> xpub_ok s' \<and> all_pipes (x_dist s') = all_pipes (x_dist s) - {p}
    \<and> subs_rel s' = {kq \<in> subs_rel s. snd kq \<noteq> p} \<and> (x_manual s \<longrightarrow> manual_rel s' = {kq \<in> manual_rel s. snd kq \<noteq> p})"
proof -
  have dok: "dist_ok (x_dist s)" and st: "store_ok (x_subscriptions s)" "store_ok (x_manual_subscriptions s)"
    using ok by (auto simp: xpub_ok_def)
  obtain d where d: "dist_pipe_terminated p (x_dist s) = Some d" "dist_ok d" "all_pipes d = all_pipes (x_dist s) - {p}"
      "d_more d = d_more (x_dist s)"
    using dist_pipe_terminated_inv [OF dok, of p] by (metis dist_pipe_terminated_def dist_has_pipe_iff dist_pipe_terminated_ok dok option.inject)
  let ?without = "\<lambda>R. {kq \<in> R. snd kq \<noteq> p}"
  have rng: "Range (?without R) \<subseteq> all_pipes d" if "Range R \<subseteq> all_pipes (x_dist s)" for R :: "(byte list \<times> 'a) set"
    using that d(3) by force
  have conclude: ?thesis if s': "xpipe_terminated p s = Some (s1\<lparr>x_dist := d\<rparr>)" "x_dist s1 = x_dist s" "x_more_send s1 = x_more_send s"
    "x_manual s1 = x_manual s" "x_manual s \<longrightarrow> set_option (x_last_pipe s1) \<subseteq> all_pipes d"
    "store_ok (x_subscriptions s1)" "store_ok (x_manual_subscriptions s1)" "subs_rel s1 = ?without (subs_rel s)"
    "x_manual s \<longrightarrow> manual_rel s1 = ?without (manual_rel s)" for s1
  proof -
    have "Range (subs_rel s1) \<subseteq> all_pipes d" unfolding s'(8) using ok by (intro rng) (simp add: xpub_ok_def)
    then have "xpub_ok (s1\<lparr>x_dist := d\<rparr>)" using ok s' d by (simp add: xpub_ok_def)
    then show ?thesis using s'(1,8,9) d(3) by simp
  qed
  show ?thesis
  proof (cases "x_manual s")
    case True
    obtain ks t where t: "mt_rm_pipe p False (x_manual_subscriptions s) = Some (ks, t)" "store_ok t" "mt_rel (root t) = ?without (manual_rel s)"
      using mt_rm_pipe_rel [OF st(2), of p False] by blast
    obtain ls u where u: "mt_rm_pipe p False (x_subscriptions s) = Some (ls, u)" "store_ok u" "mt_rel (root u) = ?without (subs_rel s)"
      using mt_rm_pipe_rel [OF st(1), of p False] by blast
    let ?f = "fold send_unsubscription ks (s\<lparr>x_manual_subscriptions := t\<rparr>)"
    note f = fold_unsubscription [of ks "s\<lparr>x_manual_subscriptions := t\<rparr>", simplified]
    let ?s1 = "if x_last_pipe ?f = Some p then ?f\<lparr>x_subscriptions := u, x_last_pipe := None\<rparr> else ?f\<lparr>x_subscriptions := u\<rparr>"
    have sel: "x_dist ?s1 = x_dist s" "x_more_send ?s1 = x_more_send s" "x_manual ?s1 = x_manual s"
      "x_subscriptions ?s1 = u" "x_manual_subscriptions ?s1 = t" using f by auto
    have "set_option (x_last_pipe ?s1) \<subseteq> set_option (x_last_pipe s) - {p}" using f by auto
    then have "set_option (x_last_pipe ?s1) \<subseteq> all_pipes d" using ok d(3) True unfolding xpub_ok_def by blast
    moreover have "xpipe_terminated p s = Some (?s1\<lparr>x_dist := d\<rparr>)"
      using True t(1) u(1) d(1) f by (simp add: xpipe_terminated_def Let_def)
    ultimately show ?thesis by (intro conclude [of ?s1]) (use sel t u True in simp_all)
  next
    case False
    obtain ks t where t: "mt_rm_pipe p (\<not> x_verbose_unsubs s) (x_subscriptions s) = Some (ks, t)" "store_ok t" "mt_rel (root t) = ?without (subs_rel s)"
      using mt_rm_pipe_rel [OF st(1), of p "\<not> x_verbose_unsubs s"] by blast
    let ?f = "fold send_unsubscription ks (s\<lparr>x_subscriptions := t\<rparr>)"
    note f = fold_unsubscription [of ks "s\<lparr>x_subscriptions := t\<rparr>", simplified]
    have "xpipe_terminated p s = Some (?f\<lparr>x_dist := d\<rparr>)" using False t(1) d(1) f by (simp add: xpipe_terminated_def)
    then show ?thesis by (intro conclude [of ?f]) (use f t st False in simp_all)
  qed
qed

lemma dist_activated_more: "dist_activated p d = Some d' \<Longrightarrow> d_more d' = d_more d"
  by (auto simp: dist_activated_def split: if_splits Option.bind_splits dest!: d_swap_sel)

lemma xwrite_activated_ok:
  assumes ok: "xpub_ok s" and p: "p \<in> all_pipes (x_dist s)"
  shows "\<exists>s'. xwrite_activated p s = Some s' \<and> xpub_ok s'"
proof -
  have dok: "dist_ok (x_dist s)" using ok by (simp add: xpub_ok_def)
  obtain d where d: "dist_activated p (x_dist s) = Some d" "dist_ok d" "all_pipes d = all_pipes (x_dist s)" "d_more d = d_more (x_dist s)"
    using dist_activated_inv [OF dok p] by (metis dist_activated_more)
  then show ?thesis using ok by (simp add: xwrite_activated_def xpub_ok_def)
qed

text \<open>Turning manual mode on is safe when the last pipe is still attached.\<close>

definition option_safe :: "pub_option \<Rightarrow> 'p xpub \<Rightarrow> bool" where
  "option_safe opt s \<longleftrightarrow>
     (case opt of
        Opt_manual _ \<Rightarrow> set_option (x_last_pipe s) \<subseteq> all_pipes (x_dist s)
      | Opt_manual_last_value _ \<Rightarrow> set_option (x_last_pipe s) \<subseteq> all_pipes (x_dist s)
      | Opt_subscribe _ \<Rightarrow> topic_room 1 s
      | _ \<Rightarrow> True)"

lemma xsetsockopt_ok:
  assumes ok: "xpub_ok s" and safe: "option_safe opt s"
  shows "\<exists>r. xsetsockopt opt s = Some r \<and> (\<forall>s'. r = Inr s' \<longrightarrow> xpub_ok s')"
proof (cases "\<exists>k. opt = Opt_subscribe k \<or> opt = Opt_unsubscribe k")
  case True
  then obtain k where k: "opt = Opt_subscribe k \<or> opt = Opt_unsubscribe k" by blast
  have st: "store_ok (x_subscriptions s)" using ok by (simp add: xpub_ok_def)
  show ?thesis
  proof (cases "\<exists>p. x_manual s \<and> x_last_pipe s = Some p")
    case False
    then show ?thesis using k ok by (auto split: option.splits)
  next
    case True
    then obtain p where p: "x_manual s" "x_last_pipe s = Some p" by blast
    have pa: "p \<in> all_pipes (x_dist s)" and sub: "Range (subs_rel s) \<subseteq> all_pipes (x_dist s)"
      using ok p unfolding xpub_ok_def by simp_all
    have put: "xpub_ok (s\<lparr>x_subscriptions := t\<rparr>)" if "store_ok t" "mt_rel (root t) \<subseteq> insert (k, p) (subs_rel s)" for t
      using ok that(1) Range_sub_insert [OF that(2) sub pa] by (simp add: xpub_ok_def)
    from k show ?thesis
    proof
      assume o: "opt = Opt_subscribe k"
      then have nw: "num_prefixes (x_subscriptions s) \<noteq> - 1"
        using safe topic_room_no_wrap [of 1 s] by (simp add: option_safe_def)
      show ?thesis using o p put [OF mt_add_rel(1) [OF st nw, of k p]] mt_add_rel(2) [OF st nw, of k p] by simp
    next
      assume o: "opt = Opt_unsubscribe k"
      obtain r t where t: "mt_rm k p (x_subscriptions s) = Some (r, t)" "store_ok t" "mt_rel (root t) = subs_rel s - {(k, p)}"
        using mt_rm_rel [OF st, of k p] by blast
      have "mt_rel (root t) \<subseteq> insert (k, p) (subs_rel s)" using t(3) by blast
      then show ?thesis using o p put [OF t(2)] t(1) by simp
    qed
  qed
next
  case False
  have quiet: "xpub_ok s'" if "x_dist s' = x_dist s" "x_more_send s' = x_more_send s" "x_subscriptions s' = x_subscriptions s"
    "x_manual_subscriptions s' = x_manual_subscriptions s" "x_last_pipe s' = x_last_pipe s"
    "x_manual s' = x_manual s \<or> set_option (x_last_pipe s) \<subseteq> all_pipes (x_dist s)" for s'
    by (rule xpub_ok_quiet [OF ok]) (use that xpub_ok_manual [OF ok] in auto)
  show ?thesis
    using False safe ok
    by (cases opt) (auto simp: flag_option_def option_safe_def split: option.splits if_splits intro!: quiet)
qed

lemma xrecv_ok: "xpub_ok s \<Longrightarrow> xpub_ok (snd (xrecv s))"
  by (auto simp: xrecv_def xpub_ok_def dist_has_pipe_iff split: list.splits option.splits if_splits)

lemma xrollback_ok:
  assumes ok: "xpub_ok s" and ph: "pipes_hold ops held" and hk: "heap_ok h (held w + M)"
  shows "\<exists>s' h' w'. xrollback ops s (h, w) = Some (s', h', w') \<and> xpub_ok s' \<and> heap_ok h' (held w' + M)"
proof -
  have dok: "dist_ok (x_dist s)" using ok by (simp add: xpub_ok_def)
  obtain d h' w' where d: "dist_rollback ops (x_dist s) (h, w) = Some (d, h', w')" "dist_ok d" "all_pipes d = all_pipes (x_dist s)"
      "\<not> d_more d" "heap_ok h' (held w' + M)"
    using dist_rollback_ok [OF dok ph hk] by blast
  have "xpub_ok (s\<lparr>x_dist := d, x_more_send := False\<rparr>)" using ok d by (simp add: xpub_ok_def)
  then show ?thesis using d by (simp add: xrollback_def)
qed

subsection \<open>Reachable states\<close>

text \<open>The calls a publisher gets, in any order. \<open>X_env\<close> is what happens elsewhere: peers read from the
  pipes, the application makes and closes messages. The premises are what the rest of the library
  guarantees: an attached pipe is new, a pipe that reports activity is attached, a frame is sent by a
  caller that owns it.\<close>

inductive xpub_reach ::
    "nat \<Rightarrow> ('p::linorder, 'w) pipe_ops \<Rightarrow> ('w \<Rightarrow> hmsg multiset) \<Rightarrow> ('p \<Rightarrow> byte list \<Rightarrow> 'w \<Rightarrow> bool \<times> 'w)
      \<Rightarrow> 'p xpub \<Rightarrow> heap \<Rightarrow> 'w \<Rightarrow> hmsg multiset \<Rightarrow> bool"
  for pool_max ops held write_and_flush
where
  X_init: "heap_ok h (held w + M) \<Longrightarrow> xpub_reach pool_max ops held write_and_flush (xpub_init ty invert) h w M"
| X_env: "xpub_reach pool_max ops held write_and_flush s h w M \<Longrightarrow> heap_ok h' (held w' + M')
    \<Longrightarrow> xpub_reach pool_max ops held write_and_flush s h' w' M'"
| X_attach: "xpub_reach pool_max ops held write_and_flush s h w M \<Longrightarrow> p \<notin> all_pipes (x_dist s)
    \<Longrightarrow> topic_room (Suc (length waiting)) s \<Longrightarrow> xattach_pipe write_and_flush p sub_all waiting s w = Some (s', w')
    \<Longrightarrow> heap_ok h' (held w' + M') \<Longrightarrow> xpub_reach pool_max ops held write_and_flush s' h' w' M'"
| X_read: "xpub_reach pool_max ops held write_and_flush s h w M \<Longrightarrow> p \<in> all_pipes (x_dist s) \<Longrightarrow> topic_room (length ms) s
    \<Longrightarrow> xread_activated p ms s = Some s' \<Longrightarrow> xpub_reach pool_max ops held write_and_flush s' h w M"
| X_writable: "xpub_reach pool_max ops held write_and_flush s h w M \<Longrightarrow> p \<in> all_pipes (x_dist s)
    \<Longrightarrow> xwrite_activated p s = Some s' \<Longrightarrow> xpub_reach pool_max ops held write_and_flush s' h w M"
| X_terminated: "xpub_reach pool_max ops held write_and_flush s h w M \<Longrightarrow> xpipe_terminated p s = Some s'
    \<Longrightarrow> xpub_reach pool_max ops held write_and_flush s' h w M"
| X_option: "xpub_reach pool_max ops held write_and_flush s h w M \<Longrightarrow> option_safe opt s
    \<Longrightarrow> xsetsockopt opt s = Some (Inr s') \<Longrightarrow> xpub_reach pool_max ops held write_and_flush s' h w M"
| X_recv: "xpub_reach pool_max ops held write_and_flush s h w M
    \<Longrightarrow> xpub_reach pool_max ops held write_and_flush (snd (xrecv s)) h w M"
| X_send: "xpub_reach pool_max ops held write_and_flush s h w (add_mset m M) \<Longrightarrow> hm_valid m \<Longrightarrow> msg_bytes h m \<noteq> None
    \<Longrightarrow> few h (add_mset m (held w + M)) (card (all_pipes (x_dist s)))
    \<Longrightarrow> xsend pool_max ops m s (h, w) = Some (rc, s', h', w')
    \<Longrightarrow> xpub_reach pool_max ops held write_and_flush s' h' w' (if rc = Sent then M else add_mset m M)"
| X_rollback: "xpub_reach pool_max ops held write_and_flush s h w M \<Longrightarrow> xrollback ops s (h, w) = Some (s', h', w')
    \<Longrightarrow> xpub_reach pool_max ops held write_and_flush s' h' w' M"

lemma xpub_init_ok: "xpub_ok (xpub_init ty invert)"
proof -
  have "mt_rel (root (mt_empty :: 'a mtrie_root)) = {}" "mtrie_wf (root (mt_empty :: 'a mtrie_root))"
    by (simp_all add: mt_empty_def mtrie_wf_empty sub_mtrie.rel_empty)
  moreover have "\<not> d_more (dist_init :: 'a dist)" by (simp add: dist_init_def)
  ultimately show ?thesis by (simp add: xpub_ok_def xpub_init_def store_ok_def dist_init_ok)
qed

lemma selected_pipes: "selected data s \<subseteq> all_pipes (x_dist s)"
proof -
  have "selected data s \<subseteq> eligible (x_dist s)" by (auto simp: selected_def Let_def)
  then show ?thesis by (auto simp: view_defs dest: in_set_takeD)
qed

lemma xsend_ok:
  assumes ok: "xpub_ok s" and ph: "pipes_hold ops held" and ak: "asking_keeps ops held" and v: "hm_valid m"
    and data: "msg_bytes h m \<noteq> None" and hk: "heap_ok h (held w + add_mset m M)"
    and few: "few h (add_mset m (held w + M)) (card (all_pipes (x_dist s)))"
  shows "\<exists>rc s' h' w'. xsend pool_max ops m s (h, w) = Some (rc, s', h', w') \<and> xpub_ok s'
    \<and> heap_ok h' (held w' + (if rc = Sent then M else add_mset m M))"
proof -
  obtain bs where bs: "msg_bytes h m = Some bs" using data by blast
  have hk': "heap_ok h (add_mset m (held w + M))" using hk by simp
  have dok: "dist_ok (x_dist s)" using ok by (simp add: xpub_ok_def)
  show ?thesis
  proof (cases "x_more_send s")
    case True
    have "d_matching (x_dist s) \<le> card (all_pipes (x_dist s))"
      using matching_card [OF dok] card_mono [OF all_pipes_finite, of "matching (x_dist s)"]
      by (metis all_pipes_def matching_def set_take_subset)
    then have few': "few h (add_mset m (held w + M)) (d_matching (x_dist s) - 1)" by (intro few_mono [OF few]) simp
    show ?thesis
      by (rule xsend_more_law [OF ok True ph v bs hk' few', of pool_max]) (auto split: if_splits)
  next
    case False
    have few': "few h (add_mset m (held w + M)) (card (selected bs s))"
      by (rule few_mono [OF few card_mono [OF all_pipes_finite selected_pipes]])
    obtain qs cs w1 rc s' h' w' where r: "ask_all ops qs w = (cs, w1)"
        "xsend pool_max ops m s (h, w) = Some (rc, s', h', w')" "xpub_ok s'" "first_frame ops held M m s bs cs h w1 rc s' h' w'"
      by (rule xsend_first_law [OF ok False ph ak v bs hk' few'])
    have "held w1 = held w" by (rule ask_all_keeps [OF ak r(1)])
    then have "heap_ok h (held w1 + add_mset m M)" using hk by simp
    then show ?thesis using r(2-4) by (auto simp: first_frame_def split: if_splits)
  qed
qed

lemma xpub_reach_inv:
  assumes ph: "pipes_hold ops held" and ak: "asking_keeps ops held"
    and wf: "\<And>p data w. \<exists>w'. write_and_flush p data w = (True, w')"
    and r: "xpub_reach pool_max ops held write_and_flush s h w M"
  shows "xpub_ok s \<and> heap_ok h (held w + M)"
  using r
proof (induction rule: xpub_reach.induct)
  case (X_attach s h w M p waiting sub_all s' w' h' M')
  then show ?case using xattach_pipe_ok [where write_and_flush = write_and_flush and w = w and all = sub_all, OF _ X_attach.hyps(2,3) wf] by auto
next
  case (X_read s h w M p ms s')
  then show ?case using xread_activated_ok [of s p ms] by auto
next
  case (X_writable s h w M p s')
  then show ?case using xwrite_activated_ok [of s p] by auto
next
  case (X_terminated s h w M p s')
  then show ?case using xpipe_terminated_ok [of s p] by auto
next
  case (X_option s h w M opt s')
  then show ?case using xsetsockopt_ok [of s opt] by auto
next
  case (X_send s h w m M rc s' h' w')
  then show ?case using xsend_ok [OF _ ph ak X_send.hyps(2,3) _ X_send.hyps(4), of pool_max] by auto
next
  case (X_rollback s h w M s' h' w')
  then show ?case using xrollback_ok [OF _ ph, of s h w M] by auto
qed (simp_all add: xpub_init_ok xrecv_ok)

text \<open>Why \<open>option_safe\<close> is needed: in automatic mode the termination of a pipe whose topics all have other
  subscribers leaves it as the last pipe. If manual mode is then enabled, \<open>SUBSCRIBE\<close> enters a
  subscription for a pipe that is gone.\<close>

lemma last_pipe_dangles:
  assumes ok: "xpub_ok s" and mode: "\<not> x_manual s" "\<not> x_verbose_unsubs s" "x_last_pipe s = Some p"
    and shared: "\<forall>k. (k, p) \<in> subs_rel s \<longrightarrow> subs_rel s `` {k} \<noteq> {p}" and rm: "topic_room 1 s"
  shows "\<exists>s1 s2 s3. xpipe_terminated p s = Some s1 \<and> xsetsockopt (Opt_manual (Some 1)) s1 = Some (Inr s2)
    \<and> xsetsockopt (Opt_subscribe k) s2 = Some (Inr s3) \<and> (k, p) \<in> subs_rel s3 \<and> p \<notin> all_pipes (x_dist s3)"
proof -
  have dok: "dist_ok (x_dist s)" and st: "store_ok (x_subscriptions s)" using ok by (auto simp: xpub_ok_def)
  have none: "{k. (k, p) \<in> subs_rel s \<and> (True \<longrightarrow> subs_rel s `` {k} = {p})} = {}" using shared by blast
  obtain t where t: "mt_rm_pipe p True (x_subscriptions s) = Some ([], t)" "store_ok t" "num_prefixes t = num_prefixes (x_subscriptions s)"
    using mt_rm_pipe_rel [OF st, of p True] unfolding none by auto
  obtain d where d: "dist_pipe_terminated p (x_dist s) = Some d" "all_pipes d = all_pipes (x_dist s) - {p}"
    using dist_pipe_terminated_inv [OF dok, of p] by blast
  let ?s1 = "s\<lparr>x_subscriptions := t, x_dist := d\<rparr>" and ?t = "snd (mt_add k p t)"
  have "num_prefixes t \<noteq> - 1" using topic_room_no_wrap(1) [OF rm] t(3) by simp
  then have "(k, p) \<in> mt_rel (root ?t)" using mt_add_rel(2) [OF t(2)] by blast
  moreover have "xpipe_terminated p s = Some ?s1" using mode t(1) d(1) by (simp add: xpipe_terminated_def)
  moreover have "xsetsockopt (Opt_manual (Some 1)) ?s1 = Some (Inr (?s1\<lparr>x_manual := True\<rparr>))" by (simp add: flag_option_def)
  moreover have "xsetsockopt (Opt_subscribe k) (?s1\<lparr>x_manual := True\<rparr>) = Some (Inr (?s1\<lparr>x_manual := True, x_subscriptions := ?t\<rparr>))"
    using mode(3) by simp
  ultimately show ?thesis using d(2) by (intro exI conjI) (assumption | simp)+
qed

end
