(* ===== verification/Xpub_Contract.thy ===== *)
theory Xpub_Contract
  imports Xpub_Safety
begin

section \<open>What a publisher promises\<close>

text \<open>
  The properties of \<open>sockets/pubsub/xpub.cpp\<close> over the lemmas of \<open>Xpub_Safety\<close>, with a publisher of three
  pipes to run them on.
\<close>

subsection \<open>A publisher to run it with\<close>

text \<open>Pipe 3 has all topics and is full, pipe 4 has the topic \<open>7 7\<close>, pipe 5 another one.\<close>

definition demo_subs :: "nat mtrie_root" where
  "demo_subs = snd (mt_add [8] 5 (snd (mt_add [7, 7] 4 (snd (mt_add [] 3 mt_empty)))))"

definition demo_xpub :: "nat xpub" where
  "demo_xpub = (xpub_init Sock_xpub False)\<lparr>x_dist := demo_dist, x_subscriptions := demo_subs\<rparr>"

lemma demo_subs_ok:
  "store_ok demo_subs" "mt_rel (root demo_subs) = {([8], 5), ([7, 7], 4), ([], 3)}" "num_prefixes demo_subs = 3"
proof -
  have e: "store_ok (mt_empty :: nat mtrie_root)" "mt_rel (root (mt_empty :: nat mtrie_root)) = {}"
    by (simp_all add: store_ok_def mt_empty_def mtrie_wf_empty sub_mtrie.rel_empty)
  let ?t1 = "snd (mt_add [] 3 (mt_empty :: nat mtrie_root))" and ?t2 = "snd (mt_add [7, 7] 4 (snd (mt_add [] 3 (mt_empty :: nat mtrie_root))))"
  have n: "num_prefixes (mt_empty :: nat mtrie_root) = 0" "num_prefixes ?t1 = 1" "num_prefixes ?t2 = 2" by code_simp+
  note 1 = mt_add_rel [OF e(1), of "[]" 3, unfolded n, simplified]
  note 2 = mt_add_rel [OF 1(1), of "[7, 7]" 4, unfolded n, simplified]
  note 3 = mt_add_rel [OF 2(1), of "[8]" 5, unfolded n, simplified]
  show "store_ok demo_subs" using 3(1) by (simp add: demo_subs_def)
  show "mt_rel (root demo_subs) = {([8], 5), ([7, 7], 4), ([], 3)}" unfolding demo_subs_def using 1(2) 2(2) 3(2) e(2) by simp
  show "num_prefixes demo_subs = 3" by code_simp
qed

lemma demo_all_pipes: "all_pipes demo_dist = {3, 4, 5}"
  by (auto simp: demo_dist_def all_pipes_def)

lemma demo_xpub_ok: "xpub_ok demo_xpub"
  using demo_subs_ok demo_dist_ok(1) demo_all_pipes
  by (simp add: xpub_ok_def demo_xpub_def xpub_init_def store_ok_def mt_empty_def mtrie_wf_empty sub_mtrie.rel_empty)
    (simp add: demo_dist_def)

lemma demo_bytes: "msg_bytes (fst demo_heap) (snd demo_heap) = Some (replicate 40 7)"
  by (simp add: demo_heap_def heap_eval)

lemma demo_selected: "selected (replicate 40 7) demo_xpub = {3, 4}"
proof -
  have rel: "subs_rel demo_xpub = {([8], 5), ([7, 7], 4), ([], 3)}" using demo_subs_ok(2) by (simp add: demo_xpub_def)
  have p: "(\<exists>rest. replicate 40 7 = [7, 7 :: byte] @ rest)" by (intro exI [of _ "replicate 38 7"]) code_simp
  have "(\<exists>rest. replicate 40 (7 :: byte) = [8] @ rest) = False" by (simp add: numeral_eq_Suc)
  with p have "subscribers (replicate 40 7) demo_xpub = {3, 4}" unfolding subscribers_def rel by auto
  then show ?thesis by (simp add: selected_def demo_xpub_def xpub_init_def demo_dist_ok)
qed

lemma selected_lossy: "selected data (s\<lparr>x_lossy := b\<rparr>) = selected data s"
  unfolding selected_def subscribers_def Let_def by auto

lemma demo_asking: "asking_keeps demo_pipes demo_held"
  by (simp add: asking_keeps_def demo_pipes_def)

lemma ask_all_demo: "ask_all demo_pipes ps w = (map (\<lambda>p. (p, fst (po_check_hwm demo_pipes p w))) ps, w)"
  by (induction ps) (auto simp: demo_pipes_def)

subsection \<open>Properties\<close>

text \<open>C23: Sending the first frame of a record asks exactly the pipes with a matching subscription (all
  pipes, the last subscriber or those without one, in the respective modes) for admission, each once. If the
  publisher may not drop and one of them cannot take the record, nothing is sent anywhere and the
  caller keeps the frame; the same when a receiver cannot take a frame of that size. Otherwise the frame is offered
  exactly once to each pipe that was selected and available, and to no other pipe, and the caller's
  reference is spent.\<close>

theorem xsend_first_frame:
  assumes "xpub_ok s" "\<not> x_more_send s" "pipes_hold ops held" "asking_keeps ops held" "hm_valid m" "msg_bytes h m = Some data"
    and "heap_ok h (add_mset m (held w + M))" "few h (add_mset m (held w + M)) (card (selected data s))"
  shows "\<exists>qs cs w1 rc s' h' w'. distinct qs \<and> set qs = selected data s \<and> ask_all ops qs w = (cs, w1)
    \<and> xsend pool_max ops m s (h, w) = Some (rc, s', h', w') \<and> xpub_ok s'
    \<and> (if \<not> x_lossy s \<and> worst (snd ` set cs) \<noteq> Adm_ready
       then rc = Failed EAGAIN (worst (snd ` set cs)) \<and> h' = h \<and> w' = w1 \<and> \<not> x_more_send s'
         \<and> eligible (x_dist s') = eligible (x_dist s)
       else if \<exists>p \<in> receivers s data cs. po_frame_size ops p m h w1 \<noteq> Adm_ready
       then rc = Failed EMSGSIZE Adm_too_large \<and> h' = h \<and> w' = w1 \<and> \<not> x_more_send s'
         \<and> eligible (x_dist s') = eligible (x_dist s) - hwm_dropped (x_lossy s) cs
       else rc = Sent \<and> x_more_send s' = has_more m \<and> heap_ok h' (held w' + M)
         \<and> (\<exists>ps accepted refused m' h1 h2. distinct ps \<and> set ps = receivers s data cs \<and> (m' = m \<or> m' = shared_copy m)
           \<and> offer_all ops m' True False ps (h1, w1) = (accepted, refused, h2, w')
           \<and> eligible (x_dist s') = eligible (x_dist s) - hwm_dropped (x_lossy s) cs - refused
           \<and> matching (x_dist s') = (if has_more m then accepted else {})))"
proof -
  obtain qs cs w1 rc s' h' w' where r: "distinct qs" "set qs = selected data s" "ask_all ops qs w = (cs, w1)"
    "xsend pool_max ops m s (h, w) = Some (rc, s', h', w')" "xpub_ok s'" "first_frame ops held M m s data cs h w1 rc s' h' w'"
    by (rule xsend_first_law [OF assms])
  show ?thesis
    by (intro exI conjI, rule r(1), rule r(2), rule r(3), rule r(4), rule r(5))
      (use r(6) [unfolded first_frame_def] in \<open>simp only: conj_ac\<close>)
qed

theorem xsend_first_frame_witness:
  "\<exists>s' h' m'. xsend 4 demo_pipes (snd demo_heap) demo_xpub (fst demo_heap, demo_queues) = Some (Sent, s', h', (4, m') # demo_queues)
     \<and> (m' = snd demo_heap \<or> m' = shared_copy (snd demo_heap)) \<and> eligible (x_dist s') = {4, 5}
     \<and> map_option fst (xsend 4 demo_pipes (snd demo_heap) (demo_xpub\<lparr>x_lossy := False\<rparr>) (fst demo_heap, demo_queues))
         = Some (Failed EAGAIN Adm_hwm_full)"
proof -
  let ?m = "snd demo_heap" and ?h = "fst demo_heap" and ?data = "replicate 40 7 :: byte list" and ?nodrop = "demo_xpub\<lparr>x_lossy := False\<rparr>"
  have idle: "\<not> x_more_send demo_xpub" "x_lossy demo_xpub" "\<not> x_more_send ?nodrop" "\<not> x_lossy ?nodrop"
    by (simp_all add: demo_xpub_def xpub_init_def)
  have ok2: "xpub_ok ?nodrop" using demo_xpub_ok by (simp add: xpub_ok_def)
  have sel2: "selected ?data ?nodrop = {3, 4}" using demo_selected by (simp only: selected_lossy)
  have few: "few ?h (add_mset ?m (demo_held demo_queues + {#})) (card ({3, 4} :: nat set))"
    by (simp add: demo_heap_def heap_eval demo_queues_def)
  have hk: "heap_ok ?h (add_mset ?m (demo_held demo_queues + {#}))" using demo_heap_fan_out(1) by simp
  have E: "eligible (x_dist demo_xpub) = {3, 4, 5}" by (simp add: demo_xpub_def demo_dist_ok)
  have adm: "fst (po_check_hwm demo_pipes 3 demo_queues) = Adm_hwm_full" "fst (po_check_hwm demo_pipes 4 demo_queues) = Adm_ready"
    by (simp_all add: demo_pipes_def demo_queues_def)
  have fits: "po_frame_size demo_pipes p m h w = Adm_ready" for p m h w by (simp add: demo_pipes_def)
  have cs: "set cs = {(3, Adm_hwm_full), (4, Adm_ready)} \<and> w1 = demo_queues"
    if "set qs = {3, 4}" "ask_all demo_pipes qs demo_queues = (cs, w1)" for qs cs w1
  proof -
    have "cs = map (\<lambda>p. (p, fst (po_check_hwm demo_pipes p demo_queues))) qs" "w1 = demo_queues"
      using that(2) unfolding ask_all_demo by auto
    then show ?thesis using that(1) adm by simp
  qed
  from xsend_first_frame [OF demo_xpub_ok idle(1) demo_pipes_hold demo_asking demo_heap_fan_out(2) demo_bytes hk, of 4,
      unfolded demo_selected, OF few]
  obtain qs cs w1 s' h' w' where q: "set qs = {3, 4}" "ask_all demo_pipes qs demo_queues = (cs, w1)"
      "xsend 4 demo_pipes ?m demo_xpub (?h, demo_queues) = Some (Sent, s', h', w')"
    and o: "\<exists>ps accepted refused m' h1 h2. distinct ps \<and> set ps = receivers demo_xpub ?data cs \<and> (m' = ?m \<or> m' = shared_copy ?m)
      \<and> offer_all demo_pipes m' True False ps (h1, w1) = (accepted, refused, h2, w')
      \<and> eligible (x_dist s') = eligible (x_dist demo_xpub) - hwm_dropped (x_lossy demo_xpub) cs - refused
      \<and> matching (x_dist s') = (if has_more ?m then accepted else {})"
    by (simp only: idle(2) fits simp_thms bex_simps if_False) (metis (no_types, lifting))
  from o obtain ps accepted refused m' h1 h2 where r: "distinct ps" "set ps = receivers demo_xpub ?data cs" "m' = ?m \<or> m' = shared_copy ?m"
      "offer_all demo_pipes m' True False ps (h1, w1) = (accepted, refused, h2, w')"
      "eligible (x_dist s') = eligible (x_dist demo_xpub) - hwm_dropped (x_lossy demo_xpub) cs - refused" by blast
  have d: "hwm_dropped (x_lossy demo_xpub) cs = {3}" using cs [OF q(1,2)] idle(2) by (auto simp: hwm_dropped_def unavailable_def)
  have "set ps = {4}" using r(2) d demo_selected by (auto simp: receivers_def)
  then have ps: "ps = [4]" using r(1) by (cases ps; cases "tl ps") auto
  have "accepted = {4} \<and> refused = {} \<and> w' = (4, m') # demo_queues"
    using r(4) cs [OF q(1,2)] by (auto simp: ps offer_one_def demo_pipes_def demo_write_def demo_queues_def)
  then have one: "w' = (4, m') # demo_queues" "eligible (x_dist s') = {4, 5}" using r(5) d E by auto
  from xsend_first_frame [OF ok2 idle(3) demo_pipes_hold demo_asking demo_heap_fan_out(2) demo_bytes hk, of 4,
      unfolded sel2, OF few]
  obtain qs' cs' w2 t h2 w3 where n: "set qs' = {3, 4}" "ask_all demo_pipes qs' demo_queues = (cs', w2)"
      "worst (snd ` set cs') \<noteq> Adm_ready \<longrightarrow> xsend 4 demo_pipes ?m ?nodrop (?h, demo_queues) = Some (Failed EAGAIN (worst (snd ` set cs')), t, h2, w3)"
    by (simp only: idle(4) fits simp_thms bex_simps if_False) (metis (no_types, lifting))
  have "worst (snd ` set cs') = Adm_hwm_full" using cs [OF n(1,2)] by (simp add: worst_def)
  then show ?thesis using q(3) r(3) one n(3) by auto
qed


definition demo_attach :: "nat xpub" where
  "demo_attach = (case xattach_pipe (\<lambda>p data w. (True, w :: (nat \<times> hmsg) list)) 3 False [(msg_init :: msg)\<lparr>msg_data := [1, 7]\<rparr>]
     (xpub_init Sock_xpub False) [] of Some (s, _) \<Rightarrow> s | None \<Rightarrow> xpub_init Sock_pub False)"


lemma request_applied:
  assumes ok: "xpub_ok s" and rm: "topic_room 1 s" and auto_mode: "\<not> x_manual s"
  shows "\<exists>t. apply_request p subscribe data s = Some
      (if subscribe then data \<notin> Domain (subs_rel s) \<or> x_verbose_subs s
       else (data, p) \<notin> subs_rel s \<or> subs_rel s `` {data} = {p} \<or> x_verbose_unsubs s, s\<lparr>x_subscriptions := t\<rparr>)
    \<and> mt_rel (root t) = (if subscribe then insert (data, p) (subs_rel s) else subs_rel s - {(data, p)})"
proof -
  have st: "store_ok (x_subscriptions s)" using ok by (simp add: xpub_ok_def)
  have nw: "num_prefixes (x_subscriptions s) \<noteq> - 1" using topic_room_no_wrap [OF rm] by simp
  show ?thesis
  proof (cases subscribe)
    case True
    then show ?thesis using auto_mode mt_add_rel(2,3) [OF st nw, of data p]
      by (intro exI [of _ "snd (mt_add data p (x_subscriptions s))"]) (simp add: apply_request_def case_prod_unfold)
  next
    case False
    obtain t where t: "mt_rm data p (x_subscriptions s) = Some (if (data, p) \<notin> subs_rel s then not_found
        else if subs_rel s `` {data} = {p} then last_value_removed else values_remain, t)" "mt_rel (root t) = subs_rel s - {(data, p)}"
      using mt_rm_rel [OF st, of data p] by blast
    have "((if (data, p) \<notin> subs_rel s then not_found else if subs_rel s `` {data} = {p} then last_value_removed else values_remain)
        \<noteq> values_remain) = ((data, p) \<notin> subs_rel s \<or> subs_rel s `` {data} = {p})" by simp
    then have "apply_request p subscribe data s = Some ((data, p) \<notin> subs_rel s \<or> subs_rel s `` {data} = {p} \<or> x_verbose_unsubs s,
        s\<lparr>x_subscriptions := t\<rparr>)"
      unfolding apply_request_def t(1) using auto_mode False by (simp only: if_False if_True simp_thms option.map prod.case disj_assoc)
    then show ?thesis using t(2) False by (intro exI [of _ t]) (simp only: if_False simp_thms)
  qed
qed

text \<open>C25: In automatic mode a request to subscribe adds exactly that subscription and a request to
  cancel removes exactly that one. The user is told of a subscription when nobody had the topic, or
  always in verbose mode; of a cancellation when the pipe was the last with the topic, always in
  verbose mode, and also when the pipe did not have the topic at all, although others may have it.\<close>

theorem xread_notifies:
  assumes ok: "xpub_ok s" and rm: "topic_room 1 s" and auto_mode: "\<not> x_manual s" and ty: "x_type s = Sock_xpub"
    and first: "\<not> x_more_recv s" and req: "sub_request m = Some (subscribe, data)"
  shows "\<exists>s'. xread_msg p m s = Some s'
    \<and> subs_rel s' = (if subscribe then insert (data, p) (subs_rel s) else subs_rel s - {(data, p)})
    \<and> x_pending s' = x_pending s @
        (if if subscribe then data \<notin> Domain (subs_rel s) \<or> x_verbose_subs s
            else (data, p) \<notin> subs_rel s \<or> subs_rel s `` {data} = {p} \<or> x_verbose_unsubs s
         then [((if subscribe then 1 else 0) # data, 0)] else [])"
proof -
  let ?s0 = "s\<lparr>x_more_recv := has_more m, x_process_subscribe := True\<rparr>"
  let ?n = "if subscribe then data \<notin> Domain (subs_rel s) \<or> x_verbose_subs s
            else (data, p) \<notin> subs_rel s \<or> subs_rel s `` {data} = {p} \<or> x_verbose_unsubs s"
  have ok0: "xpub_ok ?s0" "topic_room 1 ?s0" "\<not> x_manual ?s0" using ok rm auto_mode by (simp_all add: xpub_ok_def topic_room_def)
  obtain t where t: "apply_request p subscribe data ?s0 = Some (?n, ?s0\<lparr>x_subscriptions := t\<rparr>)"
      "mt_rel (root t) = (if subscribe then insert (data, p) (subs_rel s) else subs_rel s - {(data, p)})"
    using request_applied [OF ok0, of p subscribe data] by (auto simp del: mt_rel_at)
  have "xread_msg p m s = Some (if ?n then push_pending ((if subscribe then 1 else 0) # data) 0 (Some p) (?s0\<lparr>x_subscriptions := t\<rparr>)
      else ?s0\<lparr>x_subscriptions := t\<rparr>)"
    using first req t(1) auto_mode ty by (simp add: xread_msg_def Let_def ex_bool_eq del: mt_rel_at)
  then show ?thesis by (rule ssubst) (simp add: push_pending_def t(2) del: mt_rel_at)
qed

theorem xread_notifies_witness:
  "\<exists>s'. xread_msg 5 ((msg_init :: msg)\<lparr>msg_data := [0, 7, 7]\<rparr>) demo_xpub = Some s' \<and> subs_rel s' = subs_rel demo_xpub
     \<and> ([7, 7], 4) \<in> subs_rel s' \<and> x_pending s' = [([0, 7, 7], 0)]"
proof -
  let ?m = "(msg_init :: msg)\<lparr>msg_data := [0, 7, 7]\<rparr>"
  have f: "\<not> x_manual demo_xpub" "x_type demo_xpub = Sock_xpub" "\<not> x_more_recv demo_xpub" "x_pending demo_xpub = []"
    "topic_room 1 demo_xpub" using demo_subs_ok(3) by (simp_all add: demo_xpub_def xpub_init_def topic_room_def mt_empty_def)
  have rel: "subs_rel demo_xpub = {([8], 5), ([7, 7], 4), ([], 3)}" using demo_subs_ok(2) by (simp add: demo_xpub_def)
  have "sub_request ?m = Some (False, [7, 7])" by code_simp
  from xread_notifies [OF demo_xpub_ok f(5,1-3) this, of 5] f(4) rel show ?thesis by (auto simp del: mt_rel_at)
qed

text \<open>A send that was turned away for now.\<close>

lemma xsend_eagain:
  assumes ok: "xpub_ok s" and idle: "\<not> x_more_send s" and data: "msg_bytes h m = Some data"
    and x: "xsend pool_max ops m s (h, w) = Some (Failed EAGAIN a, s', h', w')"
  obtains d lp where "s' = s\<lparr>x_dist := d, x_last_pipe := lp\<rparr>" "\<not> x_lossy s" "eligible d = eligible (x_dist s)"
    "lp = (if x_send_all_data s \<and> \<not> x_manual s \<and> \<not> x_invert_matching s then x_last_pipe s
           else if x_manual s \<and> x_send_last_pipe s then None else x_last_pipe s)"
proof -
  obtain d lp where sel: "xpub_select data s = Some (s\<lparr>x_dist := d, x_last_pipe := lp\<rparr>)" "dist_ok d"
      "eligible d = eligible (x_dist s)"
      and lp: "lp = (if x_send_all_data s \<and> \<not> x_manual s \<and> \<not> x_invert_matching s then x_last_pipe s
            else if x_manual s \<and> x_send_last_pipe s then None else x_last_pipe s)"
    using xpub_select_ok [OF ok idle, of data] by blast
  obtain cs :: "('a \<times> admission) list" and w1 d1 where adm: "dist_check_publish_record_hwm ops (x_lossy s) d w = Some (if x_lossy s then Adm_ready else worst (snd ` set cs), d1, w1)"
      "\<not> x_lossy s \<longrightarrow> d1 = d"
    by (rule admission_law [OF sel(2), of ops w "x_lossy s"]) blast
  have "\<not> x_lossy s \<and> s' = s\<lparr>x_last_pipe := lp, x_dist := d1\<rparr>"
    using x idle data sel(1) adm(1) by (auto simp: xsend_def Let_def split: if_splits Option.bind_splits prod.splits)
  then have "\<not> x_lossy s" "s' = s\<lparr>x_dist := d, x_last_pipe := lp\<rparr>" using adm(2) by simp_all
  then show thesis using that sel(3) lp by blast
qed

text \<open>C26: In last-value mode a message goes to the last subscriber only. When that send fails because
  the subscriber is full and the publisher may not drop, the mark of the last subscriber is gone, and
  sending the same message again selects every subscriber of the topic.\<close>

theorem last_value_lost_on_retry:
  assumes ok: "xpub_ok s" and idle: "\<not> x_more_send s" and data: "msg_bytes h m = Some data"
    and mode: "x_manual s" "x_send_last_pipe s" "x_last_pipe s = Some p" "\<not> x_invert_matching s"
    and x: "xsend pool_max ops m s (h, w) = Some (Failed EAGAIN a, s', h', w')"
  shows "selected data s \<subseteq> {p} \<and> selected data s' = eligible (x_dist s) \<inter> subscribers data s"
proof -
  obtain d lp where s': "s' = s\<lparr>x_dist := d, x_last_pipe := lp\<rparr>" "eligible d = eligible (x_dist s)"
    "lp = (if x_send_all_data s \<and> \<not> x_manual s \<and> \<not> x_invert_matching s then x_last_pipe s
           else if x_manual s \<and> x_send_last_pipe s then None else x_last_pipe s)"
    by (rule xsend_eagain [OF ok idle data x])
  have "lp = None" using s'(3) mode by simp
  moreover have "subscribers data s' = subscribers data s" by (simp add: s'(1) subscribers_def)
  ultimately have "selected data s' = eligible (x_dist s) \<inter> subscribers data s" using mode s'(2) by (simp add: selected_def s'(1) Let_def)
  then show ?thesis using mode by (auto simp: selected_def Let_def)
qed

theorem last_value_lost_on_retry_witness:
  "\<exists>s' h' w'. xsend 4 demo_pipes (snd demo_heap)
       (demo_xpub\<lparr>x_lossy := False, x_manual := True, x_send_last_pipe := True, x_last_pipe := Some 3\<rparr>) (fst demo_heap, demo_queues)
     = Some (Failed EAGAIN Adm_hwm_full, s', h', w') \<and> selected (replicate 40 7) s' = {3, 4}"
proof -
  let ?s = "demo_xpub\<lparr>x_lossy := False, x_manual := True, x_send_last_pipe := True, x_last_pipe := Some 3\<rparr>"
  have x: "map_option fst (xsend 4 demo_pipes (snd demo_heap) ?s (fst demo_heap, demo_queues)) = Some (Failed EAGAIN Adm_hwm_full)"
    by code_simp
  then obtain s' h' w' where r: "xsend 4 demo_pipes (snd demo_heap) ?s (fst demo_heap, demo_queues) = Some (Failed EAGAIN Adm_hwm_full, s', h', w')"
    by auto
  have ok: "xpub_ok ?s" using demo_xpub_ok demo_all_pipes by (simp add: xpub_ok_def) (simp add: demo_xpub_def)
  have f: "\<not> x_more_send ?s" "x_manual ?s" "x_send_last_pipe ?s" "x_last_pipe ?s = Some 3" "\<not> x_invert_matching ?s"
    by (simp_all add: demo_xpub_def xpub_init_def)
  have "eligible (x_dist demo_xpub) \<inter> subscribers (replicate 40 7) demo_xpub = {3, 4}"
    using demo_selected by (simp add: selected_def demo_xpub_def xpub_init_def)
  moreover have "subscribers (replicate 40 7) ?s = subscribers (replicate 40 7) demo_xpub" by (simp add: subscribers_def)
  ultimately show ?thesis using last_value_lost_on_retry [OF ok f(1) demo_bytes f(2-5) r] r by auto
qed

end
