(* ===== verification/Fq.thy ===== *)
theory Fq
  imports Pipe_Array Msg
begin

section \<open>The fair queue\<close>

text \<open>
  Models \<open>sockets/internal/fq.cpp\<close>: the inbound pipes of a socket in one array, the active ones in front,
  read in turn. What a pipe yields is a parameter (\<open>fq_ops\<close>); the cached activity flag it publishes is the field
  \<open>fq_public\<close>. \<open>errno\<close> of a failed call is the \<open>Inl\<close> of its result, an access outside the array is \<open>None\<close>, and whether an
  allocation succeeds is an argument. The hooks compiled for tests are left out.
\<close>

subsection \<open>State and pipe interface\<close>

record 'p fq =
  fq_pipes :: "'p arr"
  fq_active :: nat
  fq_current :: nat
  fq_more :: bool
  fq_multipart_abort_pending :: bool
  fq_publish :: bool
  fq_blocked :: "'p list"
  fq_blocked_set :: "'p set"
  fq_public :: "'p \<Rightarrow> bool"

text \<open>\<open>read_with_record_admission\<close> has four outcomes: a frame, nothing there, refused with the frame left in the pipe,
  refused after the frame was taken out.\<close>

datatype fetch = Fetched msg | Missed | Refused errno | Consumed errno msg

text \<open>\<open>read_for_route_discard\<close>: a frame; or none, with the delimiter or nothing of interest in the message if it is
  still valid.\<close>

datatype discard_read = Discarded msg | Delimiter msg | Nothing "msg option"

record ('p, 'w) fq_ops =
  fo_read :: "'p \<Rightarrow> 'w \<Rightarrow> msg option \<times> 'w"
  fo_admit :: "'p \<Rightarrow> 'w \<Rightarrow> fetch \<times> 'w"
  fo_candidate :: "'p \<Rightarrow> 'w \<Rightarrow> bool"
  fo_check_read :: "'p \<Rightarrow> 'w \<Rightarrow> bool \<times> 'w"
  fo_discard :: "'p \<Rightarrow> 'w \<Rightarrow> discard_read \<times> 'w"

abbreviation fq_size :: "'p fq \<Rightarrow> nat" where "fq_size q \<equiv> arr_size (fq_pipes q)"

definition fq_init :: "bool \<Rightarrow> 'p fq" where
  "fq_init publish =
     \<lparr>fq_pipes = arr_empty, fq_active = 0, fq_current = 0, fq_more = False, fq_multipart_abort_pending = False,
      fq_publish = publish, fq_blocked = [], fq_blocked_set = {}, fq_public = (\<lambda>_. False)\<rparr>"

subsection \<open>Operations\<close>

definition record_admission_blocked :: "'p \<Rightarrow> 'p fq \<Rightarrow> bool" where
  "record_admission_blocked p q \<longleftrightarrow> p \<in> fq_blocked_set q"

definition publish_pipe_receive_activity :: "'p \<Rightarrow> bool \<Rightarrow> 'p fq \<Rightarrow> 'p fq" where
  "publish_pipe_receive_activity p b q = (if fq_publish q then q\<lparr>fq_public := (fq_public q)(p := b)\<rparr> else q)"

definition try_get_pipe_index :: "'p \<Rightarrow> 'p fq \<Rightarrow> nat option" where
  "try_get_pipe_index p q =
     (let claimed = arr_idx (fq_pipes q) p in
      if claimed < 0 then None
      else if nat claimed \<ge> fq_size q \<or> arr_items (fq_pipes q) ! nat claimed \<noteq> p then None
      else Some (nat claimed))"

definition normalize_state :: "'p fq \<Rightarrow> 'p fq" where
  "normalize_state q =
     (let q = (if fq_active q > fq_size q then q\<lparr>fq_active := fq_size q\<rparr> else q) in
      if fq_active q = 0 then q\<lparr>fq_current := 0, fq_more := False\<rparr>
      else if fq_current q \<ge> fq_active q then q\<lparr>fq_current := 0\<rparr> else q)"

definition fq_swap :: "nat \<Rightarrow> nat \<Rightarrow> 'p fq \<Rightarrow> 'p fq option" where
  "fq_swap i j q = map_option (\<lambda>a. q\<lparr>fq_pipes := a\<rparr>) (arr_swap i j (fq_pipes q))"

definition fq_attach :: "'p \<Rightarrow> 'p fq \<Rightarrow> 'p fq option" where
  "fq_attach p q =
     (let q = q\<lparr>fq_pipes := arr_push_back p (fq_pipes q)\<rparr> in
      do { q \<leftarrow> fq_swap (fq_active q) (fq_size q - 1) q;
           Some (publish_pipe_receive_activity p True (q\<lparr>fq_active := fq_active q + 1\<rparr>)) })"

text \<open>Whether the current pipe was found again, and the queue.\<close>

definition preserve_current_pipe :: "'p option \<Rightarrow> 'p \<Rightarrow> 'p fq \<Rightarrow> bool \<times> 'p fq" where
  "preserve_current_pipe current removed q =
     (case current of
        None \<Rightarrow> (False, q)
      | Some c \<Rightarrow>
          if c = removed then (False, q)
          else (case try_get_pipe_index c q of
                  None \<Rightarrow> (False, q)
                | Some i \<Rightarrow> if i \<ge> fq_active q then (False, q) else (True, q\<lparr>fq_current := i\<rparr>)))"

definition fq_deactivate_at :: "nat \<Rightarrow> 'p fq \<Rightarrow> 'p fq option" where
  "fq_deactivate_at i q =
     do { p \<leftarrow> arr_get i (fq_pipes q);
          current \<leftarrow> (if fq_more q then map_option Some (arr_get (fq_current q) (fq_pipes q)) else Some None);
          let q = (if current = Some p then q\<lparr>fq_more := False, fq_multipart_abort_pending := True\<rparr> else q);
          let q = q\<lparr>fq_active := fq_active q - 1\<rparr>;
          q \<leftarrow> fq_swap i (fq_active q) q;
          let q = publish_pipe_receive_activity p False q;
          (let (kept, q) = preserve_current_pipe current p q in
           Some (if \<not> kept \<and> fq_current q = fq_active q then q\<lparr>fq_current := 0\<rparr> else q)) }"

definition fq_deactivate :: "'p \<Rightarrow> 'p fq \<Rightarrow> 'p fq option" where
  "fq_deactivate p q =
     (let q = normalize_state q in
      case try_get_pipe_index p q of
        None \<Rightarrow> Some q
      | Some i \<Rightarrow> if i \<ge> fq_active q then Some (publish_pipe_receive_activity p False q) else fq_deactivate_at i q)"

definition deactivate_current_after_read_miss :: "'p fq \<Rightarrow> 'p fq option" where
  "deactivate_current_after_read_miss q =
     do { p \<leftarrow> arr_get (fq_current q) (fq_pipes q);
          let q = publish_pipe_receive_activity p False q;
          let q = q\<lparr>fq_active := fq_active q - 1\<rparr>;
          q \<leftarrow> fq_swap (fq_current q) (fq_active q) q;
          Some (if fq_current q = fq_active q then q\<lparr>fq_current := 0\<rparr> else q) }"

definition unblock :: "'p \<Rightarrow> 'p fq \<Rightarrow> 'p fq" where
  "unblock p q =
     (if p \<in> fq_blocked_set q
      then q\<lparr>fq_blocked_set := fq_blocked_set q - {p}, fq_blocked := filter (\<lambda>x. x \<noteq> p) (fq_blocked q)\<rparr> else q)"

definition fq_pipe_terminated :: "'p \<Rightarrow> 'p fq \<Rightarrow> 'p fq option" where
  "fq_pipe_terminated p q =
     (let q = normalize_state q in
      case try_get_pipe_index p q of
        None \<Rightarrow> Some q
      | Some i \<Rightarrow>
          let q = unblock p q in
          do { current \<leftarrow> (if fq_active q > 0 \<and> fq_current q < fq_active q
                          then map_option Some (arr_get (fq_current q) (fq_pipes q)) else Some None);
               q \<leftarrow> (if i < fq_active q then fq_deactivate_at i q else Some (publish_pipe_receive_activity p False q));
               a \<leftarrow> arr_erase p (fq_pipes q);
               let q = normalize_state (q\<lparr>fq_pipes := a\<rparr>);
               (let (kept, q) = preserve_current_pipe current p q in
                Some (if \<not> kept \<and> fq_active q > 0 then q\<lparr>fq_current := (if i < fq_active q then i else 0)\<rparr> else q)) })"

definition fq_activated :: "'p \<Rightarrow> 'p fq \<Rightarrow> 'p fq option" where
  "fq_activated p q =
     (let q = normalize_state q in
      case try_get_pipe_index p q of
        None \<Rightarrow> Some q
      | Some i \<Rightarrow>
          if record_admission_blocked p q then Some q
          else if i < fq_active q then Some (publish_pipe_receive_activity p True q)
          else do { q \<leftarrow> fq_swap i (fq_active q) q;
                    Some (publish_pipe_receive_activity p True (q\<lparr>fq_active := fq_active q + 1\<rparr>)) })"

text \<open>Whether the current pipe was set aside; \<open>mem\<close> tells whether the registry of such pipes can grow.\<close>

definition block_current_for_record_admission :: "bool \<Rightarrow> 'p fq \<Rightarrow> (bool \<times> 'p fq) option" where
  "block_current_for_record_admission mem q =
     (let q = normalize_state q in
      if fq_active q = 0 \<or> fq_current q \<ge> fq_active q then Some (False, q)
      else do {
        p \<leftarrow> arr_get (fq_current q) (fq_pipes q);
        if \<not> record_admission_blocked p q \<and> \<not> mem then Some (False, q)
        else do {
          let q = (if record_admission_blocked p q then q
                   else q\<lparr>fq_blocked_set := insert p (fq_blocked_set q), fq_blocked := fq_blocked q @ [p]\<rparr>);
          let q = q\<lparr>fq_more := False\<rparr>;
          q \<leftarrow> fq_deactivate_at (fq_current q) q;
          Some (True, q) } })"

function redrive_record_admission ::
    "('p, 'w) fq_ops \<Rightarrow> nat \<Rightarrow> nat \<Rightarrow> 'p fq \<Rightarrow> 'w \<Rightarrow> (nat \<times> 'p fq \<times> 'w) option" where
  "redrive_record_admission ops max_pipes redriven q w =
     (if redriven < max_pipes then
        (case fq_blocked q of
           [] \<Rightarrow> Some (redriven, q, w)
         | p # rest \<Rightarrow>
             let q1 = q\<lparr>fq_blocked := rest\<rparr> in
             if p \<notin> fq_blocked_set q1 then redrive_record_admission ops max_pipes redriven q1 w
             else
               let q2 = q1\<lparr>fq_blocked_set := fq_blocked_set q1 - {p}\<rparr> in
               if try_get_pipe_index p q2 = None then redrive_record_admission ops max_pipes redriven q2 w
               else
                 (case fo_check_read ops p w of
                    (False, w) \<Rightarrow> redrive_record_admission ops max_pipes redriven q2 w
                  | (True, w) \<Rightarrow>
                      (case fq_activated p q2 of
                         None \<Rightarrow> None
                       | Some q3 \<Rightarrow> redrive_record_admission ops max_pipes (Suc redriven) q3 w)))
      else Some (redriven, q, w))"
  by pat_completeness auto

lemma fq_blocked_keep:
  "fq_blocked (normalize_state q) = fq_blocked q" "fq_blocked (publish_pipe_receive_activity p b q) = fq_blocked q"
  "fq_swap i j q = Some q' \<Longrightarrow> fq_blocked q' = fq_blocked q" "fq_activated p q = Some q' \<Longrightarrow> fq_blocked q' = fq_blocked q"
proof -
  show n: "fq_blocked (normalize_state q) = fq_blocked q" for q :: "'a fq" by (simp add: normalize_state_def Let_def)
  show p: "fq_blocked (publish_pipe_receive_activity p b q) = fq_blocked q" for p b and q :: "'a fq"
    by (simp add: publish_pipe_receive_activity_def)
  show s: "fq_swap i j q = Some q' \<Longrightarrow> fq_blocked q' = fq_blocked q" for i j and q q' :: "'a fq" by (auto simp: fq_swap_def)
  show "fq_activated p q = Some q' \<Longrightarrow> fq_blocked q' = fq_blocked q"
    by (auto simp: fq_activated_def Let_def n p split: option.splits if_splits Option.bind_splits dest!: s)
qed

termination redrive_record_admission
  by (relation "measure (\<lambda>(_, _, _, q, _). length (fq_blocked q))") (auto dest!: fq_blocked_keep(4))

declare redrive_record_admission.simps [simp del]

text \<open>What is taken out of the pipe belongs to the caller. The loop runs until the pipe yields nothing.\<close>

partial_function (option) discard_loop ::
    "('p, 'w) fq_ops \<Rightarrow> 'p \<Rightarrow> msg list \<Rightarrow> 'w \<Rightarrow> (msg list \<times> bool \<times> 'w) option" where
  [code]: "discard_loop ops p detached w =
     (case fo_discard ops p w of
        (Discarded m, w) \<Rightarrow> discard_loop ops p (detached @ [m]) w
      | (Delimiter m, w) \<Rightarrow> Some (detached @ [m], True, w)
      | (Nothing left, w) \<Rightarrow> Some (detached @ (case left of None \<Rightarrow> [] | Some m \<Rightarrow> [m]), False, w))"

text \<open>The detached frames, whether the delimiter was met, whether the caller has to look again.\<close>

definition discard_pending_records ::
    "('p, 'w) fq_ops \<Rightarrow> 'p \<Rightarrow> 'p fq \<Rightarrow> 'w \<Rightarrow> ((msg list \<times> bool \<times> bool) \<times> 'p fq \<times> 'w) option" where
  "discard_pending_records ops p q w =
     (let q = normalize_state q; index = try_get_pipe_index p q;
          q = (if index \<noteq> None then unblock p q else q);
          q = (if fq_more q \<and> index = Some (fq_current q) then q\<lparr>fq_more := False\<rparr> else q) in
      do { (detached, delimiter, w) \<leftarrow> discard_loop ops p [] w;
           (case index of
              None \<Rightarrow> Some ((detached, delimiter, False), q, w)
            | Some i \<Rightarrow>
                do { q \<leftarrow> (if i < fq_active q then fq_deactivate_at i q else Some (publish_pipe_receive_activity p False q));
                     Some ((detached, delimiter, True), q, w) }) })"

subsection \<open>Receiving\<close>

definition fq_fetch :: "('p, 'w) fq_ops \<Rightarrow> bool \<Rightarrow> 'p \<Rightarrow> 'w \<Rightarrow> fetch \<times> 'w" where
  "fq_fetch ops with_admission p w =
     (if with_admission \<and> fo_candidate ops p w then fo_admit ops p w
      else (case fo_read ops p w of (None, w) \<Rightarrow> (Missed, w) | (Some m, w) \<Rightarrow> (Fetched m, w)))"

text \<open>The rest of a record whose first frame was taken out by a refused admission is thrown away.\<close>

partial_function (option) drain_record :: "('p, 'w) fq_ops \<Rightarrow> 'p \<Rightarrow> msg \<Rightarrow> 'w \<Rightarrow> 'w option" where
  [code]: "drain_record ops p m w =
     (if has_more m then (case fo_read ops p w of (None, w) \<Rightarrow> Some w | (Some m, w) \<Rightarrow> drain_record ops p m w)
      else Some w)"

definition next_turn :: "'p fq \<Rightarrow> 'p fq" where
  "next_turn q = q\<lparr>fq_current := (fq_current q + 1) mod fq_active q\<rparr>"

lemma miss_active:
  "deactivate_current_after_read_miss q = Some q' \<Longrightarrow> fq_active q' = fq_active q - 1"
  by (auto simp: deactivate_current_after_read_miss_def publish_pipe_receive_activity_def fq_swap_def
      split: Option.bind_splits if_splits)

lemma normalize_active: "fq_active (normalize_state q) \<le> fq_active q"
  by (simp add: normalize_state_def Let_def)

lemma deactivate_at_active: "fq_deactivate_at i q = Some q' \<Longrightarrow> fq_active q' = fq_active q - 1"
  by (auto simp: fq_deactivate_at_def fq_swap_def publish_pipe_receive_activity_def preserve_current_pipe_def Let_def
      split: Option.bind_splits if_splits option.splits)

lemma block_active: "block_current_for_record_admission mem q = Some (True, q') \<Longrightarrow> fq_active q' < fq_active q"
  using normalize_active [of q]
  by (auto simp: block_current_for_record_admission_def Let_def split: Option.bind_splits if_splits dest!: deactivate_at_active)

function recv_loop ::
    "('p, 'w) fq_ops \<Rightarrow> bool \<Rightarrow> bool \<Rightarrow> 'p fq \<Rightarrow> 'w \<Rightarrow> ((errno + msg \<times> 'p) \<times> 'p fq \<times> 'w) option" where
  "recv_loop ops mem with_admission q w =
     (if fq_active q > 0 then
        (case arr_get (fq_current q) (fq_pipes q) of
           None \<Rightarrow> None
         | Some p \<Rightarrow>
             (case fq_fetch ops with_admission p w of
                (Fetched m, w) \<Rightarrow>
                  let q = q\<lparr>fq_more := has_more m\<rparr> in Some (Inr (m, p), if has_more m then q else next_turn q, w)
              | (Missed, w) \<Rightarrow>
                  if fq_more q
                  then map_option (\<lambda>q. (Inl ECONNABORTED, q, w)) (deactivate_current_after_read_miss (q\<lparr>fq_more := False\<rparr>))
                  else (case deactivate_current_after_read_miss q of
                          None \<Rightarrow> None | Some q \<Rightarrow> recv_loop ops mem with_admission q w)
              | (Refused e, w) \<Rightarrow>
                  if e = EAGAIN then
                    (case block_current_for_record_admission mem q of
                       None \<Rightarrow> None
                     | Some (True, q) \<Rightarrow> recv_loop ops mem with_admission q w
                     | Some (False, q) \<Rightarrow> Some (Inl (if mem then EAGAIN else ENOMEM), q, w))
                  else Some (Inl e, q, w)
              | (Consumed e m, w) \<Rightarrow>
                  map_option (\<lambda>w. (Inl e, next_turn (q\<lparr>fq_more := False\<rparr>), w)) (drain_record ops p m w)))
      else Some (Inl EAGAIN, q, w))"
  by pat_completeness auto
termination
  by (relation "measure (\<lambda>(_, _, _, q, _). fq_active q)") (auto dest: miss_active block_active)

declare recv_loop.simps [simp del]

definition recvpipe_internal ::
    "('p, 'w) fq_ops \<Rightarrow> bool \<Rightarrow> bool \<Rightarrow> 'p fq \<Rightarrow> 'w \<Rightarrow> ((errno + msg \<times> 'p) \<times> 'p fq \<times> 'w) option" where
  "recvpipe_internal ops mem with_admission q w =
     (let q = normalize_state q in
      if fq_multipart_abort_pending q then Some (Inl ECONNABORTED, q\<lparr>fq_multipart_abort_pending := False\<rparr>, w)
      else recv_loop ops mem with_admission q w)"

function has_in_loop :: "('p, 'w) fq_ops \<Rightarrow> 'p fq \<Rightarrow> 'w \<Rightarrow> (bool \<times> 'p fq \<times> 'w) option" where
  "has_in_loop ops q w =
     (if fq_active q > 0 then
        (case arr_get (fq_current q) (fq_pipes q) of
           None \<Rightarrow> None
         | Some p \<Rightarrow>
             (case fo_check_read ops p w of
                (True, w) \<Rightarrow> Some (True, q, w)
              | (False, w) \<Rightarrow>
                  (case deactivate_current_after_read_miss q of None \<Rightarrow> None | Some q \<Rightarrow> has_in_loop ops q w)))
      else Some (False, q, w))"
  by pat_completeness auto
termination
  by (relation "measure (\<lambda>(_, q, _). fq_active q)") (auto dest: miss_active)

declare has_in_loop.simps [simp del]

definition fq_has_in :: "('p, 'w) fq_ops \<Rightarrow> 'p fq \<Rightarrow> 'w \<Rightarrow> (bool \<times> 'p fq \<times> 'w) option" where
  "fq_has_in ops q w =
     (let q = normalize_state q in
      if fq_multipart_abort_pending q \<or> fq_more q then Some (True, q, w) else has_in_loop ops q w)"

end
