(* ===== verification/Fq_Safety.thy ===== *)
theory Fq_Safety
  imports Fq
begin

section \<open>Records stay whole and every pipe gets its turn\<close>

text \<open>
  The contract of \<open>sockets/internal/fq.cpp\<close>: the invariant of the array, that frames of one record are
  never mixed with those of another, and that a pipe with something to read is served.
\<close>

subsection \<open>Invariant\<close>

abbreviation fq_items :: "'p fq \<Rightarrow> 'p list" where "fq_items q \<equiv> arr_items (fq_pipes q)"

definition fq_members :: "'p fq \<Rightarrow> 'p set" where "fq_members q = set (fq_items q)"

definition fq_live :: "'p fq \<Rightarrow> 'p set" where "fq_live q = set (take (fq_active q) (fq_items q))"

text \<open>The pipe the next frame has to come from, while a record is being received.\<close>

definition pinned :: "'p fq \<Rightarrow> 'p option" where
  "pinned q = (if fq_more q then Some (fq_items q ! fq_current q) else None)"

definition fq_core :: "'p fq \<Rightarrow> bool" where
  "fq_core q \<longleftrightarrow>
     arr_ok (fq_pipes q) \<and> fq_active q \<le> fq_size q
     \<and> (if fq_active q = 0 then fq_current q = 0 \<and> \<not> fq_more q else fq_current q < fq_active q)
     \<and> (fq_more q \<longrightarrow> \<not> fq_multipart_abort_pending q)
     \<and> (fq_publish q \<longrightarrow> (\<forall>p \<in> fq_members q. fq_public q p \<longleftrightarrow> p \<in> fq_live q))"

text \<open>Pipes that wait for admission are attached and not active; the queue and the set agree.\<close>

definition fq_ok :: "'p fq \<Rightarrow> bool" where
  "fq_ok q \<longleftrightarrow> fq_core q \<and> distinct (fq_blocked q) \<and> set (fq_blocked q) = fq_blocked_set q
     \<and> fq_blocked_set q \<subseteq> fq_members q - fq_live q"

lemma fq_init_ok: "fq_ok (fq_init b)"
  by (simp add: fq_ok_def fq_core_def fq_init_def fq_members_def)

lemma normalize_id: "fq_core q \<Longrightarrow> normalize_state q = q"
  by (cases q) (auto simp: normalize_state_def fq_core_def Let_def split: if_splits)

lemma index_core:
  assumes "fq_core q"
  shows "try_get_pipe_index p q = (if p \<in> fq_members q then Some (arr_index p (fq_pipes q)) else None)"
proof -
  have ok: "arr_ok (fq_pipes q)" using assms by (simp add: fq_core_def)
  have "arr_contains p (fq_pipes q) \<longleftrightarrow> p \<in> fq_members q" using arr_contains_iff [OF ok] by (simp add: fq_members_def)
  then show ?thesis by (auto simp: try_get_pipe_index_def arr_contains_def arr_index_def Let_def)
qed

lemma live_sub: "fq_live q \<subseteq> fq_members q"
  by (auto simp: fq_live_def fq_members_def dest: in_set_takeD)

lemma index_live:
  assumes "fq_core q" "p \<in> fq_members q"
  shows "arr_index p (fq_pipes q) < fq_active q \<longleftrightarrow> p \<in> fq_live q" "fq_items q ! arr_index p (fq_pipes q) = p"
    "arr_index p (fq_pipes q) < fq_size q"
  using assms pa.index_in_prefix [of "fq_pipes q" p "fq_active q"] pa.index_law [of "fq_pipes q" p]
  by (auto simp: fq_core_def fq_members_def fq_live_def)

lemma nth_live: "fq_core q \<Longrightarrow> i < fq_active q \<Longrightarrow> fq_items q ! i \<in> fq_live q"
  by (auto simp: fq_core_def fq_live_def in_set_conv_nth intro!: exI [of _ i])

lemma pinned_live: "fq_core q \<Longrightarrow> pinned q = Some p \<Longrightarrow> p \<in> fq_live q"
  using nth_live [of q "fq_current q"] by (auto simp: pinned_def fq_core_def split: if_splits)

subsection \<open>Taking a pipe out of the active part\<close>

text \<open>The array after the swap: the last active pipe has the place of the one that leaves.\<close>

lemma swap_out:
  assumes core: "fq_core q" and i: "i < fq_active q"
  obtains a where "arr_swap i (fq_active q - 1) (fq_pipes q) = Some a" "arr_ok a" "set (arr_items a) = fq_members q" "arr_size a = fq_size q"
    "set (take (fq_active q - 1) (arr_items a)) = fq_live q - {fq_items q ! i}" "arr_items a ! (fq_active q - 1) = fq_items q ! i"
    "\<forall>k < fq_active q - 1. arr_items a ! k = (if k = i then fq_items q ! (fq_active q - 1) else fq_items q ! k)"
proof -
  have ok: "arr_ok (fq_pipes q)" "fq_active q \<le> fq_size q" using core by (simp_all add: fq_core_def)
  have l: "i < fq_size q" "fq_active q - 1 < fq_size q" using i ok by auto
  obtain a where a: "arr_swap i (fq_active q - 1) (fq_pipes q) = Some a" "arr_ok a"
      "set (arr_items a) = fq_members q" "arr_size a = fq_size q" "arr_items a ! (fq_active q - 1) = fq_items q ! i"
      "set (take (fq_active q - 1) (arr_items a)) = fq_live q - {fq_items q ! i}"
    using pa.demote [OF ok(1) i ok(2)] by (auto simp: fq_members_def fq_live_def)
  have "arr_items a = swap_list (fq_items q) i (fq_active q - 1)" using arr_swap_ok [OF ok(1) l] a(1) by auto
  then have "arr_items a ! k = (if k = i then fq_items q ! (fq_active q - 1) else fq_items q ! k)" if "k < fq_active q - 1" for k
    using that l ok(2) by (simp add: nth_swap_list)
  then show thesis using that a by blast
qed

lemma index_nth_arr: "arr_ok a \<Longrightarrow> i < arr_size a \<Longrightarrow> arr_items a ! i = c \<Longrightarrow> arr_idx a c = int i"
  by (auto simp: arr_ok_def)

lemma try_index_at:
  assumes "arr_ok (fq_pipes q)" "i < fq_size q" "fq_items q ! i = c"
  shows "try_get_pipe_index c q = Some i"
  using index_nth_arr [OF assms] assms by (simp add: try_get_pipe_index_def)

definition fq_leave :: "'p \<Rightarrow> 'p fq \<Rightarrow> 'p fq \<Rightarrow> bool" where
  "fq_leave p q q' \<longleftrightarrow> fq_core q' \<and> fq_members q' = fq_members q \<and> fq_live q' = fq_live q - {p}
     \<and> fq_active q' = fq_active q - 1 \<and> fq_blocked q' = fq_blocked q \<and> fq_blocked_set q' = fq_blocked_set q \<and> fq_publish q' = fq_publish q"

lemma deactivate_at_ok:
  assumes core: "fq_core q" and i: "i < fq_active q"
  defines "p \<equiv> fq_items q ! i"
  obtains q' where "fq_deactivate_at i q = Some q'" "fq_leave p q q'"
    "pinned q' = (if pinned q = Some p then None else pinned q)"
    "fq_multipart_abort_pending q' = (fq_multipart_abort_pending q \<or> pinned q = Some p)"
    "arr_index p (fq_pipes q') = fq_active q'"
proof -
  let ?n = "fq_active q - 1" and ?c = "fq_items q ! fq_current q"
  have ok: "arr_ok (fq_pipes q)" "fq_active q \<le> fq_size q" "fq_current q < fq_active q" "fq_more q \<longrightarrow> \<not> fq_multipart_abort_pending q"
    and pub: "fq_publish q \<longrightarrow> (\<forall>p \<in> fq_members q. fq_public q p \<longleftrightarrow> p \<in> fq_live q)"
    using core i by (auto simp: fq_core_def)
  obtain a where a: "arr_swap i ?n (fq_pipes q) = Some a" "arr_ok a" "set (arr_items a) = fq_members q" "arr_size a = fq_size q"
      "set (take ?n (arr_items a)) = fq_live q - {p}" "arr_items a ! ?n = p"
      "\<forall>k < ?n. arr_items a ! k = (if k = i then fq_items q ! ?n else fq_items q ! k)"
    unfolding p_def by (rule swap_out [OF core i])
  define q1 where "q1 = publish_pipe_receive_activity p False
    ((if fq_more q \<and> ?c = p then q\<lparr>fq_more := False, fq_multipart_abort_pending := True\<rparr> else q)\<lparr>fq_active := ?n, fq_pipes := a\<rparr>)"
  have q1: "fq_pipes q1 = a" "fq_active q1 = ?n" "fq_current q1 = fq_current q" "fq_blocked q1 = fq_blocked q" "fq_blocked_set q1 = fq_blocked_set q"
    "fq_publish q1 = fq_publish q" "fq_more q1 = (fq_more q \<and> ?c \<noteq> p)"
    "fq_multipart_abort_pending q1 = (fq_multipart_abort_pending q \<or> (fq_more q \<and> ?c = p))"
    "fq_publish q \<longrightarrow> fq_public q1 = (fq_public q)(p := False)"
    by (auto simp: q1_def publish_pipe_receive_activity_def)
  define cur where "cur = (if fq_more q1 then arr_index ?c a else if fq_current q = ?n then 0 else fq_current q)"
  have cm: "?c \<in> fq_live q" by (rule nth_live [OF core ok(3)])
  have ixn: "arr_index ?c a < ?n" "arr_items a ! arr_index ?c a = ?c" if "?c \<noteq> p"
    using pa.index_in_prefix [OF a(2), of ?c ?n] pa.index_law [OF a(2), of ?c] a(3,4,5) cm that live_sub [of q] ok(2) by auto
  have eq: "fq_deactivate_at i q = Some (q1\<lparr>fq_current := cur\<rparr>)"
  proof -
    have g: "arr_get i (fq_pipes q) = Some p" "arr_get (fq_current q) (fq_pipes q) = Some ?c" using i ok by (auto simp: arr_get_def p_def)
    have t: "try_get_pipe_index ?c q1 = Some (arr_index ?c a)" if "?c \<noteq> p"
      using ixn [OF that] a(2,4) ok(2) i by (intro try_index_at) (simp_all add: q1)
    show ?thesis
    proof (cases "fq_more q1")
      case True
      then have m: "fq_more q" "?c \<noteq> p" using q1 by auto
      have "preserve_current_pipe (Some ?c) p q1 = (True, q1\<lparr>fq_current := cur\<rparr>)"
        using t [OF m(2)] ixn [OF m(2)] m(2) True q1(2) by (simp add: preserve_current_pipe_def cur_def)
      then show ?thesis using g a(1) m by (simp add: fq_deactivate_at_def fq_swap_def Let_def q1_def)
    next
      case False
      have n: "preserve_current_pipe (if fq_more q then Some ?c else None) p q1 = (False, q1)"
        using False q1(7) by (auto simp: preserve_current_pipe_def)
      have "q1\<lparr>fq_current := cur\<rparr> = (if fq_current q1 = fq_active q1 then q1\<lparr>fq_current := 0\<rparr> else q1)"
        using False q1(2,3) by (simp add: cur_def)
      then show ?thesis using g a(1) n by (cases "fq_more q") (auto simp: fq_deactivate_at_def fq_swap_def Let_def q1_def)
    qed
  qed
  let ?q' = "q1\<lparr>fq_current := cur\<rparr>"
  have cur: "if ?n = 0 then cur = 0 \<and> \<not> fq_more q1 else cur < ?n"
    using ixn ok(3) q1(7) i by (auto simp: cur_def p_def)
  have mem: "fq_members ?q' = fq_members q" "fq_live ?q' = fq_live q - {p}" using a(3,5) q1 by (simp_all add: fq_members_def fq_live_def)
  have "fq_core ?q'"
    using cur a(2,4) ok(2,4) q1 pub mem by (auto simp: fq_core_def split: if_splits)
  then have "fq_leave p q ?q'" using mem q1 by (simp add: fq_leave_def)
  moreover have "pinned ?q' = (if pinned q = Some p then None else pinned q)"
    using ixn q1 by (auto simp: pinned_def cur_def)
  moreover have "fq_multipart_abort_pending ?q' = (fq_multipart_abort_pending q \<or> pinned q = Some p)" using q1(8) by (auto simp: pinned_def)
  moreover have "arr_index p (fq_pipes ?q') = fq_active ?q'"
    using pa.index_nth [OF a(2), of ?n] a(4,6) ok(2) i q1 by simp
  ultimately show thesis using that eq by blast
qed

lemma miss_eq: "\<not> fq_more q \<Longrightarrow> deactivate_current_after_read_miss q = fq_deactivate_at (fq_current q) q"
  by (cases "arr_get (fq_current q) (fq_pipes q)"; cases "arr_swap (fq_current q) (fq_active q - 1) (fq_pipes q)")
    (auto simp: deactivate_current_after_read_miss_def fq_deactivate_at_def fq_swap_def publish_pipe_receive_activity_def
      preserve_current_pipe_def Let_def)

subsection \<open>The other operations\<close>

text \<open>What the calls other than \<open>recv\<close> may do to a record in progress: nothing, or abort it.\<close>

definition record_kept :: "'p fq \<Rightarrow> 'p fq \<Rightarrow> bool" where
  "record_kept q q' \<longleftrightarrow>
     pinned q' = pinned q \<and> fq_multipart_abort_pending q' = fq_multipart_abort_pending q
     \<or> pinned q \<noteq> None \<and> pinned q' = None \<and> fq_multipart_abort_pending q'"

lemma record_kept_refl: "record_kept q q"
  by (simp add: record_kept_def)

text \<open>A pipe that becomes active.\<close>

lemma enter_ok:
  assumes a: "arr_ok a" "set (arr_items a) = insert p (fq_members q)" "fq_active q < arr_size a" "arr_size a \<ge> fq_size q"
    "take (fq_active q) (arr_items a) = take (fq_active q) (fq_items q)" "arr_items a ! fq_active q = p"
    and core: "fq_core q"
  defines "q' \<equiv> publish_pipe_receive_activity p True (q\<lparr>fq_pipes := a, fq_active := fq_active q + 1\<rparr>)"
  shows "fq_core q'" "fq_members q' = insert p (fq_members q)" "fq_live q' = insert p (fq_live q)" "record_kept q q'"
    "fq_blocked q' = fq_blocked q" "fq_blocked_set q' = fq_blocked_set q"
proof -
  have f: "fq_pipes q' = a" "fq_active q' = fq_active q + 1" "fq_current q' = fq_current q" "fq_more q' = fq_more q"
    "fq_multipart_abort_pending q' = fq_multipart_abort_pending q" "fq_publish q' = fq_publish q"
    "fq_publish q \<longrightarrow> fq_public q' = (fq_public q)(p := True)" "fq_blocked q' = fq_blocked q" "fq_blocked_set q' = fq_blocked_set q"
    by (simp_all add: q'_def publish_pipe_receive_activity_def)
  show m: "fq_members q' = insert p (fq_members q)" using a(2) f by (simp add: fq_members_def)
  show l: "fq_live q' = insert p (fq_live q)" using a(3,5,6) f by (simp add: fq_live_def take_Suc_conv_app_nth)
  show "fq_core q'" using core a(1,3) f m l by (auto simp: fq_core_def split: if_splits)
  have "arr_items a ! fq_current q = fq_items q ! fq_current q" if "fq_more q"
  proof -
    have "fq_current q < fq_active q" using core that by (auto simp: fq_core_def split: if_splits)
    then show ?thesis using a(5) by (metis nth_take)
  qed
  then show "record_kept q q'" using f by (simp add: record_kept_def pinned_def)
  show "fq_blocked q' = fq_blocked q" "fq_blocked_set q' = fq_blocked_set q" by (rule f)+
qed

lemma fq_attach_ok:
  assumes ok: "fq_ok q" and new: "p \<notin> fq_members q"
  shows "\<exists>q'. fq_attach p q = Some q' \<and> fq_ok q' \<and> fq_members q' = insert p (fq_members q) \<and> fq_live q' = insert p (fq_live q) \<and> record_kept q q'"
proof -
  have core: "fq_core q" and arr: "arr_ok (fq_pipes q)" "fq_active q \<le> fq_size q" using ok by (auto simp: fq_ok_def fq_core_def)
  let ?b = "arr_push_back p (fq_pipes q)"
  have b: "arr_ok ?b" "arr_items ?b = fq_items q @ [p]" using arr_push_back_ok arr(1) new by (auto simp: fq_members_def)
  have i: "fq_active q < arr_size ?b" "fq_size q < arr_size ?b" using arr(2) b(2) by auto
  obtain a where a: "arr_swap (fq_active q) (fq_size q) ?b = Some a" "arr_ok a" "arr_items a = swap_list (arr_items ?b) (fq_active q) (fq_size q)"
    using arr_swap_ok [OF b(1) i] by blast
  let ?q' = "publish_pipe_receive_activity p True (q\<lparr>fq_pipes := a, fq_active := fq_active q + 1\<rparr>)"
  have it: "set (arr_items a) = insert p (fq_members q)" "fq_active q < arr_size a" "arr_size a \<ge> fq_size q"
    "take (fq_active q) (arr_items a) = take (fq_active q) (fq_items q)" "arr_items a ! fq_active q = p"
    using mset_swap_list [OF i] a(3) b(2) arr(2) i by (auto simp: fq_members_def swap_list_def nth_list_update nth_append)
  note e = enter_ok [OF a(2) it core]
  have "fq_attach p q = Some ?q'" using a(1) b(2) by (simp add: fq_attach_def fq_swap_def)
  moreover have "fq_ok ?q'" using ok e new by (auto simp: fq_ok_def)
  ultimately show ?thesis using e by blast
qed

text \<open>Publishing what is the case anyway.\<close>

lemma publish_core:
  assumes "fq_core q" "b = (p \<in> fq_live q)"
  shows "fq_core (publish_pipe_receive_activity p b q)" "record_kept q (publish_pipe_receive_activity p b q)"
    "fq_members (publish_pipe_receive_activity p b q) = fq_members q" "fq_live (publish_pipe_receive_activity p b q) = fq_live q"
    "pinned (publish_pipe_receive_activity p b q) = pinned q"
  using assms by (auto simp: fq_core_def record_kept_def pinned_def publish_pipe_receive_activity_def fq_members_def fq_live_def)

lemma publish_fields:
  "fq_pipes (publish_pipe_receive_activity p b q) = fq_pipes q" "fq_active (publish_pipe_receive_activity p b q) = fq_active q"
  "fq_current (publish_pipe_receive_activity p b q) = fq_current q" "fq_more (publish_pipe_receive_activity p b q) = fq_more q"
  "fq_blocked (publish_pipe_receive_activity p b q) = fq_blocked q" "fq_blocked_set (publish_pipe_receive_activity p b q) = fq_blocked_set q"
  "fq_multipart_abort_pending (publish_pipe_receive_activity p b q) = fq_multipart_abort_pending q"
  by (simp_all add: publish_pipe_receive_activity_def)

lemma publish_ok: "fq_ok q \<Longrightarrow> b = (p \<in> fq_live q) \<Longrightarrow> fq_ok (publish_pipe_receive_activity p b q)"
  using publish_core [of q b p] by (simp add: fq_ok_def publish_fields)

lemma fq_activated_ok:
  assumes ok: "fq_ok q"
  shows "\<exists>q'. fq_activated p q = Some q' \<and> fq_ok q' \<and> fq_members q' = fq_members q \<and> record_kept q q'
    \<and> fq_live q' = (if p \<in> fq_members q - fq_blocked_set q then insert p (fq_live q) else fq_live q)"
proof -
  have core: "fq_core q" and arr: "arr_ok (fq_pipes q)" "fq_active q \<le> fq_size q" using ok by (auto simp: fq_ok_def fq_core_def)
  note n = normalize_id [OF core] index_core [OF core]
  let ?i = "arr_index p (fq_pipes q)"
  consider "p \<notin> fq_members q \<or> p \<in> fq_blocked_set q" | "p \<in> fq_members q" "p \<notin> fq_blocked_set q" "p \<in> fq_live q"
    | "p \<in> fq_members q" "p \<notin> fq_blocked_set q" "p \<notin> fq_live q" by blast
  then show ?thesis
  proof cases
    case 1
    then have "fq_activated p q = Some q" by (auto simp: fq_activated_def n record_admission_blocked_def)
    then show ?thesis using ok 1 record_kept_refl by auto
  next
    case 2
    let ?q' = "publish_pipe_receive_activity p True q"
    have "fq_activated p q = Some ?q'" using 2 index_live [OF core 2(1)] by (simp add: fq_activated_def n record_admission_blocked_def)
    then show ?thesis using 2 publish_ok [OF ok, of True p] publish_core [OF core, of True p] by auto
  next
    case 3
    have i: "fq_active q \<le> ?i" "?i < fq_size q" "fq_items q ! ?i = p" using 3 index_live [OF core 3(1)] by (auto simp: not_less [symmetric])
    then have j: "fq_active q < fq_size q" by simp
    obtain a where a: "arr_swap ?i (fq_active q) (fq_pipes q) = Some a" "arr_ok a" "arr_items a = swap_list (fq_items q) ?i (fq_active q)"
      using arr_swap_ok [OF arr(1) i(2) j] by blast
    let ?q' = "publish_pipe_receive_activity p True (q\<lparr>fq_pipes := a, fq_active := fq_active q + 1\<rparr>)"
    have it: "set (arr_items a) = insert p (fq_members q)" "fq_active q < arr_size a" "arr_size a \<ge> fq_size q"
      "take (fq_active q) (arr_items a) = take (fq_active q) (fq_items q)" "arr_items a ! fq_active q = p"
      using mset_swap_list [OF i(2) j] a(3) i j 3(1) by (auto simp: fq_members_def swap_list_def nth_list_update)
    note e = enter_ok [OF a(2) it core]
    have "fq_activated p q = Some ?q'" using a(1) i 3 by (simp add: fq_activated_def n record_admission_blocked_def fq_swap_def)
    moreover have "fq_ok ?q'" using ok e 3 by (auto simp: fq_ok_def)
    ultimately show ?thesis using e 3 by auto
  qed
qed

lemma leave_ok: "fq_ok q \<Longrightarrow> fq_leave p q q' \<Longrightarrow> fq_ok q'"
  by (auto simp: fq_ok_def fq_leave_def)

lemma deactivate_at_kept:
  assumes "pinned q' = (if pinned q = Some p then None else pinned q)"
    "fq_multipart_abort_pending q' = (fq_multipart_abort_pending q \<or> pinned q = Some p)"
  shows "record_kept q q'"
  using assms by (auto simp: record_kept_def)

lemma fq_deactivate_ok:
  assumes ok: "fq_ok q"
  shows "\<exists>q'. fq_deactivate p q = Some q' \<and> fq_ok q' \<and> fq_members q' = fq_members q \<and> fq_live q' = fq_live q - {p} \<and> record_kept q q'"
proof -
  have core: "fq_core q" using ok by (simp add: fq_ok_def)
  note n = normalize_id [OF core] index_core [OF core]
  show ?thesis
  proof (cases "p \<in> fq_live q")
    case True
    then have pm: "p \<in> fq_members q" using live_sub [of q] by blast
    note i = index_live [OF core pm]
    have il: "arr_index p (fq_pipes q) < fq_active q" using i True by simp
    obtain q' where q': "fq_deactivate_at (arr_index p (fq_pipes q)) q = Some q'" "fq_leave p q q'"
        "pinned q' = (if pinned q = Some p then None else pinned q)"
        "fq_multipart_abort_pending q' = (fq_multipart_abort_pending q \<or> pinned q = Some p)"
      by (rule deactivate_at_ok [OF core il, unfolded i(2)])
    have "fq_deactivate p q = Some q'" using pm il q'(1) by (simp add: fq_deactivate_def n)
    then show ?thesis using leave_ok [OF ok q'(2)] deactivate_at_kept [OF q'(3,4)] q'(2) by (auto simp: fq_leave_def)
  next
    case False
    have "fq_deactivate p q = Some (if p \<in> fq_members q then publish_pipe_receive_activity p False q else q)"
      using index_live(1) [OF core, of p] False by (simp add: fq_deactivate_def n not_less [symmetric] del: not_less)
    then show ?thesis using ok False record_kept_refl publish_ok [OF ok, of False p] publish_core [OF core, of False p] by auto
  qed
qed

text \<open>Termination of a pipe: it leaves the active part first and the array then; the pipe read from
  next stays the same if it is still there.\<close>

lemma unblock_fields:
  "fq_pipes (unblock p q) = fq_pipes q" "fq_active (unblock p q) = fq_active q" "fq_current (unblock p q) = fq_current q"
  "fq_more (unblock p q) = fq_more q" "fq_multipart_abort_pending (unblock p q) = fq_multipart_abort_pending q"
  "fq_publish (unblock p q) = fq_publish q" "fq_public (unblock p q) = fq_public q"
  "fq_live (unblock p q) = fq_live q" "fq_members (unblock p q) = fq_members q" "pinned (unblock p q) = pinned q"
  by (simp_all add: unblock_def fq_live_def fq_members_def pinned_def)

lemma unblock_ok:
  assumes "fq_ok q"
  shows "fq_ok (unblock p q)" "fq_blocked_set (unblock p q) = fq_blocked_set q - {p}"
proof -
  show "fq_blocked_set (unblock p q) = fq_blocked_set q - {p}" by (simp add: unblock_def)
  have "fq_core (unblock p q) = fq_core q" by (simp add: fq_core_def unblock_fields)
  moreover have "distinct (fq_blocked (unblock p q))" "set (fq_blocked (unblock p q)) = fq_blocked_set q - {p}"
    using assms by (auto simp: fq_ok_def unblock_def)
  moreover have "fq_blocked_set (unblock p q) = fq_blocked_set q - {p}" by (simp add: unblock_def)
  ultimately show "fq_ok (unblock p q)" using assms by (auto simp: fq_ok_def unblock_fields)
qed

text \<open>The first half: the pipe leaves the active part.\<close>

lemma terminate_leave:
  assumes ok: "fq_ok q" and pm: "p \<in> fq_members q"
  defines "i \<equiv> arr_index p (fq_pipes q)" and "u \<equiv> unblock p q"
  obtains q1 where "(if i < fq_active u then fq_deactivate_at i u else Some (publish_pipe_receive_activity p False u)) = Some q1"
      "fq_ok q1" "fq_members q1 = fq_members q" "fq_live q1 = fq_live q - {p}" "fq_active q1 \<le> arr_index p (fq_pipes q1)"
      "record_kept q q1" "pinned q1 = (if pinned q = Some p then None else pinned q)" "fq_blocked_set q1 = fq_blocked_set q - {p}"
proof -
  have core: "fq_core q" using ok by (simp add: fq_ok_def)
  have uok: "fq_ok u" "fq_core u" "p \<in> fq_members u" using unblock_ok [OF ok, of p] pm by (auto simp: fq_ok_def unblock_fields u_def)
  note uf = unblock_fields [of p q, folded u_def] unblock_ok [OF ok, of p, folded u_def]
  note ix = index_live [OF uok(2,3), unfolded uf, folded i_def]
  show thesis
  proof (cases "i < fq_active q")
    case l: True
    then have l': "i < fq_active u" by (simp add: uf)
    obtain q1 where "fq_deactivate_at i u = Some q1" "fq_leave (fq_items u ! i) u q1"
        "pinned q1 = (if pinned u = Some (fq_items u ! i) then None else pinned u)"
        "fq_multipart_abort_pending q1 = (fq_multipart_abort_pending u \<or> pinned u = Some (fq_items u ! i))"
        "arr_index (fq_items u ! i) (fq_pipes q1) = fq_active q1"
      by (rule deactivate_at_ok [OF uok(2) l'])
    then have d: "fq_deactivate_at i u = Some q1" "fq_leave p u q1" "pinned q1 = (if pinned q = Some p then None else pinned q)"
      "fq_multipart_abort_pending q1 = (fq_multipart_abort_pending q \<or> pinned q = Some p)" "arr_index p (fq_pipes q1) = fq_active q1"
      using ix by (simp_all add: uf)
    show thesis
      by (rule that [of q1]) (use l' d leave_ok [OF uok(1) d(2)] deactivate_at_kept [OF d(3,4)] uf in
        \<open>simp_all add: fq_leave_def uf\<close>)
  next
    case l: False
    then have nl: "p \<notin> fq_live u" "p \<notin> fq_live q" using ix by (simp_all add: uf)
    then have np: "pinned q \<noteq> Some p" using pinned_live [OF core] by blast
    let ?q1 = "publish_pipe_receive_activity p False u"
    show thesis
      by (rule that [of ?q1])
        (use l nl np publish_ok [OF uok(1), of False p] publish_core [OF uok(2), of False p] uf in
          \<open>simp_all add: publish_fields uf record_kept_def i_def\<close>)
  qed
qed

text \<open>The second half: the current pipe is looked up again.\<close>

lemma settle_current:
  assumes core: "fq_core q" and c: "\<forall>c. current = Some c \<longrightarrow> c = p \<or> c \<in> fq_live q"
    and k: "preserve_current_pipe current p q = (kept, q3)"
  obtains cur where "(if \<not> kept \<and> fq_active q3 > 0 then q3\<lparr>fq_current := (if i < fq_active q3 then i else 0)\<rparr> else q3) = q\<lparr>fq_current := cur\<rparr>"
    "if fq_active q = 0 then cur = 0 else cur < fq_active q" "\<forall>c. current = Some c \<and> c \<noteq> p \<longrightarrow> fq_items q ! cur = c"
proof (cases "\<exists>c. current = Some c \<and> c \<noteq> p")
  case True
  then obtain d where d: "current = Some d" "d \<noteq> p" "d \<in> fq_live q" using c by blast
  then have "d \<in> fq_members q" using live_sub [of q] by blast
  note ic = index_core [OF core, of d] index_live [OF core this] this
  have il: "arr_index d (fq_pipes q) < fq_active q" using ic d by simp
  then have "kept \<and> q3 = q\<lparr>fq_current := arr_index d (fq_pipes q)\<rparr>" using d ic k by (simp add: preserve_current_pipe_def)
  then show thesis using il ic(3) d by (intro that [of "arr_index d (fq_pipes q)"]) auto
next
  case False
  then have n: "\<not> kept" "q3 = q" using k by (auto simp: preserve_current_pipe_def split: option.splits)
  show thesis
    by (rule that [of "if fq_active q > 0 then (if i < fq_active q then i else 0) else fq_current q"])
      (use n False core in \<open>auto simp: fq_core_def split: if_splits\<close>)
qed

lemma fq_pipe_terminated_ok:
  assumes ok: "fq_ok q"
  shows "\<exists>q'. fq_pipe_terminated p q = Some q' \<and> fq_ok q' \<and> fq_members q' = fq_members q - {p} \<and> fq_live q' = fq_live q - {p} \<and> record_kept q q'"
proof (cases "p \<in> fq_members q")
  case False
  have core: "fq_core q" using ok by (simp add: fq_ok_def)
  then have "fq_pipe_terminated p q = Some q" using False by (simp add: fq_pipe_terminated_def normalize_id index_core)
  moreover have "p \<notin> fq_live q" using False live_sub [of q] by blast
  ultimately show ?thesis using ok False record_kept_refl by auto
next
  case True
  have core: "fq_core q" using ok by (simp add: fq_ok_def)
  let ?u = "unblock p q" and ?i = "arr_index p (fq_pipes q)" and ?c = "fq_items q ! fq_current q"
  define current where "current = (if fq_active q > 0 then Some ?c else None)"
  have getc: "(if fq_active ?u > 0 \<and> fq_current ?u < fq_active ?u then map_option Some (arr_get (fq_current ?u) (fq_pipes ?u)) else Some None) = Some current"
    using core by (auto simp: current_def unblock_fields fq_core_def arr_get_def)
  obtain q1 where q1: "(if ?i < fq_active ?u then fq_deactivate_at ?i ?u else Some (publish_pipe_receive_activity p False ?u)) = Some q1"
      "fq_ok q1" "fq_members q1 = fq_members q" "fq_live q1 = fq_live q - {p}" "fq_active q1 \<le> arr_index p (fq_pipes q1)"
      "record_kept q q1" "pinned q1 = (if pinned q = Some p then None else pinned q)" "fq_blocked_set q1 = fq_blocked_set q - {p}"
    by (rule terminate_leave [OF ok True])
  have core1: "fq_core q1" using q1(2) by (simp add: fq_ok_def)
  have arr1: "arr_ok (fq_pipes q1)" "p \<in> set (fq_items q1)" using core1 True q1(3) by (auto simp: fq_core_def fq_members_def)
  obtain a where a: "arr_erase p (fq_pipes q1) = Some a" "arr_ok a" "set (arr_items a) = fq_members q - {p}" "arr_size a = fq_size q1 - 1"
      "\<forall>m. m \<le> arr_index p (fq_pipes q1) \<longrightarrow> take m (arr_items a) = take m (fq_items q1)"
    using pa.erase_prefix [OF arr1] q1(3) by (auto simp: fq_members_def)
  let ?q2 = "q1\<lparr>fq_pipes := a\<rparr>"
  have pre: "take (fq_active q1) (arr_items a) = take (fq_active q1) (fq_items q1)" using a(5) q1(5) by blast
  have m2: "fq_members ?q2 = fq_members q - {p}" "fq_live ?q2 = fq_live q - {p}"
    using a(3) pre q1(4) by (simp_all add: fq_members_def fq_live_def)
  have "arr_index p (fq_pipes q1) < fq_size q1" using pa.index_law [OF arr1] by simp
  then have core2: "fq_core ?q2" using core1 a(2,4) q1(3-5) m2 by (auto simp: fq_core_def split: if_splits)
  obtain kept q3 where k: "preserve_current_pipe current p ?q2 = (kept, q3)" by (metis surj_pair)
  have cl: "\<forall>c. current = Some c \<longrightarrow> c = p \<or> c \<in> fq_live ?q2"
    using nth_live [OF core, of "fq_current q"] core m2 by (auto simp: current_def fq_core_def split: if_splits)
  obtain cur where cur: "(if \<not> kept \<and> fq_active q3 > 0 then q3\<lparr>fq_current := (if ?i < fq_active q3 then ?i else 0)\<rparr> else q3) = ?q2\<lparr>fq_current := cur\<rparr>"
      "if fq_active ?q2 = 0 then cur = 0 else cur < fq_active ?q2" "\<forall>c. current = Some c \<and> c \<noteq> p \<longrightarrow> fq_items ?q2 ! cur = c"
    by (rule settle_current [OF core2 cl k])
  let ?q4 = "?q2\<lparr>fq_current := cur\<rparr>"
  have eq: "fq_pipe_terminated p q = Some ?q4"
    using True q1(1) a(1) k getc cur(1)
    by (simp add: fq_pipe_terminated_def normalize_id [OF core] index_core [OF core] normalize_id [OF core2] Let_def)
  have m4: "fq_members ?q4 = fq_members q - {p}" "fq_live ?q4 = fq_live q - {p}" using m2 by (simp_all add: fq_members_def fq_live_def)
  have "fq_core ?q4" using core2 cur(2) m2 m4 by (auto simp: fq_core_def split: if_splits)
  then have "fq_ok ?q4" using q1(2,8) ok m4 by (auto simp: fq_ok_def)
  moreover have "pinned ?q4 = pinned q1"
  proof (cases "fq_more q1")
    case m: True
    then have "pinned q = pinned q1" "pinned q \<noteq> Some p" using q1(7) by (auto simp: pinned_def split: if_splits)
    then have "pinned q1 = Some ?c" "current = Some ?c" "?c \<noteq> p"
      using m core by (auto simp: pinned_def current_def fq_core_def split: if_splits)
    then show ?thesis using cur(3) m by (simp add: pinned_def)
  qed (simp add: pinned_def)
  then have "record_kept q ?q4" using q1(6) by (simp add: record_kept_def)
  ultimately show ?thesis using eq m4 by blast
qed

subsection \<open>Receiving\<close>

lemma current_get:
  assumes "fq_core q" "0 < fq_active q"
  shows "arr_get (fq_current q) (fq_pipes q) = Some (fq_items q ! fq_current q)" "fq_current q < fq_active q"
  using assms by (auto simp: fq_core_def arr_get_def split: if_splits)

lemma next_turn_ok: "fq_ok q \<Longrightarrow> 0 < fq_active q \<Longrightarrow> \<not> fq_more q \<Longrightarrow> fq_ok (next_turn q)"
  by (auto simp: fq_ok_def fq_core_def next_turn_def fq_members_def fq_live_def split: if_splits)

lemma more_ok: "fq_ok q \<Longrightarrow> (b \<Longrightarrow> 0 < fq_active q \<and> \<not> fq_multipart_abort_pending q) \<Longrightarrow> fq_ok (q\<lparr>fq_more := b\<rparr>)"
  by (auto simp: fq_ok_def fq_core_def fq_members_def fq_live_def split: if_splits)

text \<open>A miss takes the current pipe out.\<close>

lemma miss_ok:
  assumes ok: "fq_ok q" and a: "0 < fq_active q" and nm: "\<not> fq_more q"
  obtains q' where "deactivate_current_after_read_miss q = Some q'" "fq_ok q'" "fq_leave (fq_items q ! fq_current q) q q'"
    "pinned q' = None" "fq_multipart_abort_pending q' = fq_multipart_abort_pending q"
proof -
  have core: "fq_core q" using ok by (simp add: fq_ok_def)
  have pn: "pinned q = None" using nm by (simp add: pinned_def)
  obtain q' where "fq_deactivate_at (fq_current q) q = Some q'" "fq_leave (fq_items q ! fq_current q) q q'"
    "pinned q' = (if pinned q = Some (fq_items q ! fq_current q) then None else pinned q)"
    "fq_multipart_abort_pending q' = (fq_multipart_abort_pending q \<or> pinned q = Some (fq_items q ! fq_current q))"
    by (rule deactivate_at_ok [OF core current_get(2) [OF core a]])
  then show thesis using that [of q'] miss_eq [OF nm] leave_ok [OF ok] pn by simp
qed

text \<open>What a plain receive does: the next frame comes from the pinned pipe if there is one.\<close>

definition recv_step :: "'p fq \<Rightarrow> (errno + msg \<times> 'p) \<Rightarrow> 'p fq \<Rightarrow> bool" where
  "recv_step q r q' \<longleftrightarrow> fq_ok q' \<and> fq_members q' = fq_members q \<and> fq_live q' \<subseteq> fq_live q \<and> \<not> fq_multipart_abort_pending q'
     \<and> (case r of
          Inr (m, p) \<Rightarrow> p \<in> fq_live q \<and> (pinned q = None \<or> pinned q = Some p) \<and> pinned q' = (if has_more m then Some p else None)
        | Inl e \<Rightarrow> pinned q' = None \<and> (if pinned q = None then e = EAGAIN \<and> fq_live q' = {} else e = ECONNABORTED))"

lemma recv_plain:
  assumes "fq_ok q" "\<not> fq_multipart_abort_pending q"
  shows "\<exists>r q' w'. recv_loop ops mem False q w = Some (r, q', w') \<and> recv_step q r q'"
  using assms
proof (induction ops mem False q w rule: recv_loop.induct)
  case (1 ops mem q w)
  have core: "fq_core q" using 1(3) by (simp add: fq_ok_def)
  let ?p = "fq_items q ! fq_current q"
  show ?case
  proof (cases "0 < fq_active q")
    case False
    then have "recv_loop ops mem False q w = Some (Inl EAGAIN, q, w)" by (simp add: recv_loop.simps)
    moreover have "pinned q = None" "fq_live q = {}" using False core by (auto simp: pinned_def fq_core_def fq_live_def)
    ultimately show ?thesis using 1(3,4) by (auto simp: recv_step_def)
  next
    case True
    note g = current_get [OF core True]
    have live: "?p \<in> fq_live q" by (rule nth_live [OF core g(2)])
    obtain r w1 where read: "fo_read ops ?p w = (r, w1)" by (metis surj_pair)
    show ?thesis
    proof (cases r)
      case (Some m)
      let ?q = "q\<lparr>fq_more := has_more m\<rparr>"
      let ?q' = "if has_more m then ?q else next_turn ?q"
      have "recv_loop ops mem False q w = Some (Inr (m, ?p), ?q', w1)"
        using True g read Some by (simp add: recv_loop.simps [of _ _ _ q] fq_fetch_def Let_def)
      moreover have ok': "fq_ok ?q" by (rule more_ok [OF 1(3)]) (use True 1(4) in auto)
      then have "fq_ok ?q'" using next_turn_ok [OF ok'] True by auto
      moreover have "fq_members ?q' = fq_members q" "fq_live ?q' = fq_live q" "pinned ?q' = (if has_more m then Some ?p else None)"
        by (simp_all add: fq_members_def fq_live_def pinned_def next_turn_def)
      moreover have "\<not> fq_multipart_abort_pending ?q'" using 1(4) by (simp add: next_turn_def)
      moreover have "pinned q = None \<or> pinned q = Some ?p" by (simp add: pinned_def)
      ultimately show ?thesis using live by (auto simp: recv_step_def)
    next
      case None
      let ?q = "q\<lparr>fq_more := False\<rparr>"
      have okq: "fq_ok ?q" "0 < fq_active ?q" "\<not> fq_more ?q" using more_ok [OF 1(3), of False] True by simp_all
      obtain q1 where q1: "deactivate_current_after_read_miss ?q = Some q1" "fq_ok q1" "fq_leave (fq_items ?q ! fq_current ?q) ?q q1"
          "pinned q1 = None" "fq_multipart_abort_pending q1 = fq_multipart_abort_pending ?q"
        by (rule miss_ok [OF okq])
      have l1: "fq_members q1 = fq_members q" "fq_live q1 \<subseteq> fq_live q" using q1(3) by (auto simp: fq_leave_def fq_members_def fq_live_def)
      have np: "\<not> fq_multipart_abort_pending q1" using q1(5) 1(4) by simp
      show ?thesis
      proof (cases "fq_more q")
        case m: True
        then have "recv_loop ops mem False q w = Some (Inl ECONNABORTED, q1, w1)"
          using True g read None q1(1) by (simp add: recv_loop.simps [of _ _ _ q] fq_fetch_def)
        moreover have "pinned q \<noteq> None" using m by (simp add: pinned_def)
        ultimately show ?thesis using q1 l1 np by (auto simp: recv_step_def)
      next
        case m: False
        then have qq: "?q = q" by simp
        have f: "fq_fetch ops False ?p w = (Missed, w1)" using read None by (simp add: fq_fetch_def)
        obtain r q' w' where r: "recv_loop ops mem False q1 w1 = Some (r, q', w')" "recv_step q1 r q'"
          using 1(1) [OF True g(1) f [symmetric] refl m, of q1] q1(1,2) np qq by auto
        have "recv_loop ops mem False q w = Some (r, q', w')"
          using True g f m q1(1) r(1) qq by (simp add: recv_loop.simps [of _ _ _ q])
        moreover have "pinned q = None" using m by (simp add: pinned_def)
        ultimately show ?thesis using r(2) q1(4) l1 by (auto simp: recv_step_def split: sum.splits)
      qed
    qed
  qed
qed

lemma has_in_loop_ok:
  assumes "fq_ok q" "\<not> fq_more q"
  shows "\<exists>b q' w'. has_in_loop ops q w = Some (b, q', w') \<and> fq_ok q' \<and> fq_members q' = fq_members q \<and> record_kept q q'
    \<and> (\<not> b \<longrightarrow> fq_live q' = {})"
  using assms
proof (induction ops q w rule: has_in_loop.induct)
  case (1 ops q w)
  have core: "fq_core q" using 1(2) by (simp add: fq_ok_def)
  show ?case
  proof (cases "0 < fq_active q")
    case False
    then show ?thesis using 1(2) record_kept_refl [of q] by (simp add: has_in_loop.simps [of _ q] fq_live_def ex_bool_eq)
  next
    case True
    note g = current_get [OF core True]
    obtain b w1 where c: "fo_check_read ops (fq_items q ! fq_current q) w = (b, w1)" by (metis surj_pair)
    show ?thesis
    proof (cases b)
      case b: True
      then show ?thesis using 1(2) True g c record_kept_refl [of q] by (simp add: has_in_loop.simps [of _ q] ex_bool_eq)
    next
      case b: False
      obtain q1 where q1: "deactivate_current_after_read_miss q = Some q1" "fq_ok q1" "fq_leave (fq_items q ! fq_current q) q q1"
          "pinned q1 = None" "fq_multipart_abort_pending q1 = fq_multipart_abort_pending q"
        by (rule miss_ok [OF 1(2) True 1(3)])
      have "\<not> fq_more q1" using q1(4) by (auto simp: pinned_def split: if_splits)
      then obtain b' q' w' where r: "has_in_loop ops q1 w1 = Some (b', q', w')" "fq_ok q'" "fq_members q' = fq_members q1" "record_kept q1 q'"
          "\<not> b' \<longrightarrow> fq_live q' = {}"
        using 1(1) [OF True g(1) c [symmetric], of q1] b q1(1,2) by auto
      have "has_in_loop ops q w = Some (b', q', w')" using True g c b q1(1) r(1) by (simp add: has_in_loop.simps [of _ q])
      moreover have "pinned q = None" using 1(3) by (simp add: pinned_def)
      ultimately show ?thesis using r(2-5) q1(3-5) by (auto simp: fq_leave_def record_kept_def)
    qed
  qed
qed

lemma fq_has_in_ok:
  assumes ok: "fq_ok q"
  shows "\<exists>b q' w'. fq_has_in ops q w = Some (b, q', w') \<and> fq_ok q' \<and> fq_members q' = fq_members q \<and> record_kept q q'"
proof -
  have core: "fq_core q" using ok by (simp add: fq_ok_def)
  show ?thesis
    using has_in_loop_ok [OF ok, of ops w] ok record_kept_refl [of q]
    by (cases "fq_multipart_abort_pending q \<or> fq_more q") (auto simp: fq_has_in_def normalize_id [OF core])
qed

text \<open>The calls of the routed receive path keep the invariant too.\<close>

lemma block_ok:
  assumes ok: "fq_ok q" and a: "0 < fq_active q"
  shows "\<exists>b q'. block_current_for_record_admission mem q = Some (b, q') \<and> fq_ok q' \<and> fq_members q' = fq_members q
    \<and> fq_multipart_abort_pending q' = fq_multipart_abort_pending q"
proof -
  have core: "fq_core q" using ok by (simp add: fq_ok_def)
  note g = current_get [OF core a]
  let ?p = "fq_items q ! fq_current q"
  have nb: "?p \<notin> fq_blocked_set q" using nth_live [OF core g(2)] ok by (auto simp: fq_ok_def)
  let ?q1 = "q\<lparr>fq_blocked_set := insert ?p (fq_blocked_set q), fq_blocked := fq_blocked q @ [?p], fq_more := False\<rparr>"
  have core1: "fq_core ?q1" using core by (auto simp: fq_core_def fq_members_def fq_live_def)
  have cur: "fq_current ?q1 < fq_active ?q1" using g by simp
  obtain q' where q': "fq_deactivate_at (fq_current ?q1) ?q1 = Some q'" "fq_leave (fq_items ?q1 ! fq_current ?q1) ?q1 q'"
      "fq_multipart_abort_pending q' = (fq_multipart_abort_pending ?q1 \<or> pinned ?q1 = Some (fq_items ?q1 ! fq_current ?q1))"
    by (rule deactivate_at_ok [OF core1 cur])
  have m: "fq_members q' = fq_members q" "fq_live q' = fq_live q - {?p}" "fq_blocked q' = fq_blocked q @ [?p]"
    "fq_blocked_set q' = insert ?p (fq_blocked_set q)" "fq_core q'" using q'(2) by (auto simp: fq_leave_def fq_members_def fq_live_def)
  have "?p \<in> fq_members q" using nth_live [OF core g(2)] live_sub [of q] by blast
  then have "fq_ok q'" using ok nb m by (auto simp: fq_ok_def)
  then show ?thesis
    using ok a g nb q'(1,3) m(1) by (cases mem) (auto simp: block_current_for_record_admission_def normalize_id [OF core] record_admission_blocked_def Let_def pinned_def)
qed

lemma recv_loop_inv:
  assumes "fq_ok q" "\<not> fq_multipart_abort_pending q" "recv_loop ops mem wa q w = Some (r, q', w')"
  shows "fq_ok q' \<and> fq_members q' = fq_members q"
  using assms
proof (induction ops mem wa q w rule: recv_loop.induct)
  case (1 ops mem wa q w)
  have core: "fq_core q" using 1(3) by (simp add: fq_ok_def)
  show ?case
  proof (cases "0 < fq_active q")
    case False
    then show ?thesis using 1(3,5) by (simp add: recv_loop.simps [of _ _ _ q])
  next
    case True
    note g = current_get [OF core True]
    let ?p = "fq_items q ! fq_current q" and ?q0 = "q\<lparr>fq_more := False\<rparr>"
    obtain f w1 where f: "fq_fetch ops wa ?p w = (f, w1)" by (metis surj_pair)
    note unf = recv_loop.simps [of ops mem wa q w] True g(1) f
    have ok0: "fq_ok ?q0" "0 < fq_active ?q0" "\<not> fq_more ?q0" using more_ok [OF 1(3), of False] True by auto
    have mem0: "fq_members ?q0 = fq_members q" by (simp add: fq_members_def)
    show ?thesis
    proof (cases f)
      case (Fetched m)
      have ok': "fq_ok (q\<lparr>fq_more := has_more m\<rparr>)" by (rule more_ok [OF 1(3)]) (use True 1(4) in auto)
      have "q' = (if has_more m then q\<lparr>fq_more := True\<rparr> else next_turn (q\<lparr>fq_more := False\<rparr>))"
        using 1(5) Fetched by (auto simp: unf Let_def)
      then show ?thesis using ok' next_turn_ok [OF ok'] True by (auto simp: fq_members_def next_turn_def)
    next
      case Missed
      obtain q1 where q1: "deactivate_current_after_read_miss ?q0 = Some q1" "fq_ok q1" "fq_leave (fq_items ?q0 ! fq_current ?q0) ?q0 q1"
          "fq_multipart_abort_pending q1 = fq_multipart_abort_pending ?q0"
        by (rule miss_ok [OF ok0])
      have m1: "fq_members q1 = fq_members q" "\<not> fq_multipart_abort_pending q1" using q1(3,4) mem0 1(4) by (auto simp: fq_leave_def)
      show ?thesis
      proof (cases "fq_more q")
        case m: True
        then have "q' = q1" using 1(5) Missed q1(1) by (simp add: unf)
        then show ?thesis using q1 m1 by simp
      next
        case m: False
        then have q0: "?q0 = q" by simp
        have "recv_loop ops mem wa q1 w1 = Some (r, q', w')" using 1(5) Missed q1(1) m unfolding q0 by (simp add: unf)
        then show ?thesis using 1(1) [OF True g(1) f [symmetric] Missed m q1(1) [unfolded q0]] q1(2) m1 by simp
      qed
    next
      case (Refused e)
      obtain b q1 where b: "block_current_for_record_admission mem q = Some (b, q1)" "fq_ok q1" "fq_members q1 = fq_members q"
          "fq_multipart_abort_pending q1 = fq_multipart_abort_pending q"
        using block_ok [OF 1(3) True] by blast
      show ?thesis
      proof (cases "e = EAGAIN \<and> b")
        case again: True
        have "recv_loop ops mem wa q1 w1 = Some (r, q', w')" using 1(5) Refused again b(1) by (simp add: unf)
        then show ?thesis using 1(2) [OF True g(1) f [symmetric] Refused _ b(1) refl] again b 1(4) by simp
      next
        case False
        then have "q' = q1 \<or> q' = q" using 1(5) Refused b(1) by (auto simp: unf split: if_splits)
        then show ?thesis using b 1(3) by auto
      qed
    next
      case (Consumed e m)
      have "q' = next_turn ?q0" using 1(5) Consumed by (auto simp: unf)
      then show ?thesis using next_turn_ok [OF ok0] mem0 by (simp add: next_turn_def fq_members_def)
    qed
  qed
qed

lemma redrive_ok:
  assumes "fq_ok q"
  shows "\<exists>n q' w'. redrive_record_admission ops max_pipes redriven q w = Some (n, q', w') \<and> fq_ok q' \<and> fq_members q' = fq_members q \<and> n \<le> max max_pipes redriven"
  using assms
proof (induction "length (fq_blocked q)" arbitrary: q redriven w rule: less_induct)
  case less
  note unf = redrive_record_admission.simps [of ops max_pipes redriven q w]
  show ?case
  proof (cases "redriven < max_pipes \<and> fq_blocked q \<noteq> []")
    case False
    then show ?thesis using less.prems by (auto simp: unf split: list.splits)
  next
    case True
    then obtain p rest where pr: "fq_blocked q = p # rest" by (cases "fq_blocked q") auto
    let ?q1 = "q\<lparr>fq_blocked := rest\<rparr>"
    let ?q2 = "?q1\<lparr>fq_blocked_set := fq_blocked_set ?q1 - {p}\<rparr>"
    have lt: "redriven < max_pipes" and ps: "p \<in> fq_blocked_set q" "p \<notin> set rest" and pm: "p \<in> fq_members q"
      using True less.prems pr by (auto simp: fq_ok_def)
    have m: "fq_members ?q2 = fq_members q" "fq_live ?q2 = fq_live q" by (simp_all add: fq_members_def fq_live_def)
    have core2: "fq_core ?q2" using less.prems by (auto simp: fq_ok_def fq_core_def fq_members_def fq_live_def)
    have ok2: "fq_ok ?q2" using less.prems core2 m pr ps by (auto simp: fq_ok_def)
    obtain i where ix: "try_get_pipe_index p ?q2 = Some i" using index_core [OF core2, of p] pm m by simp
    obtain c w1 where c: "fo_check_read ops p w = (c, w1)" by (metis surj_pair)
    show ?thesis
    proof (cases c)
      case False
      obtain n q' w' where r: "redrive_record_admission ops max_pipes redriven ?q2 w1 = Some (n, q', w')" "fq_ok q'" "fq_members q' = fq_members ?q2"
          "n \<le> max max_pipes redriven"
        using less.hyps [OF _ ok2, of redriven w1] pr by auto
      then show ?thesis using lt pr ps ix c False m by (simp add: unf Let_def)
    next
      case ct: True
      obtain q3 where q3: "fq_activated p ?q2 = Some q3" "fq_ok q3" "fq_members q3 = fq_members ?q2" using fq_activated_ok [OF ok2] by blast
      obtain n q' w' where r: "redrive_record_admission ops max_pipes (Suc redriven) q3 w1 = Some (n, q', w')" "fq_ok q'" "fq_members q' = fq_members q3"
          "n \<le> max max_pipes (Suc redriven)"
        using less.hyps [OF _ q3(2), of "Suc redriven" w1] fq_blocked_keep(4) [OF q3(1)] pr by auto
      then show ?thesis using lt pr ps ix c ct m q3 by (simp add: unf Let_def)
    qed
  qed
qed

lemma discard_ok:
  assumes ok: "fq_ok q" and d: "discard_loop ops p [] w = Some (detached, delimiter, w')"
  shows "\<exists>q'. discard_pending_records ops p q w = Some ((detached, delimiter, p \<in> fq_members q), q', w') \<and> fq_ok q'
    \<and> fq_live q' = fq_live q - {p} \<and> p \<notin> fq_blocked_set q'"
proof (cases "p \<in> fq_members q")
  case False
  have core: "fq_core q" using ok by (simp add: fq_ok_def)
  have "discard_pending_records ops p q w = Some ((detached, delimiter, False), q, w')"
    using False d by (simp add: discard_pending_records_def normalize_id [OF core] index_core [OF core])
  moreover have "p \<notin> fq_live q" "p \<notin> fq_blocked_set q" using False live_sub [of q] ok by (auto simp: fq_ok_def)
  ultimately show ?thesis using ok False by auto
next
  case True
  have core: "fq_core q" using ok by (simp add: fq_ok_def)
  let ?i = "arr_index p (fq_pipes q)" and ?u = "unblock p q"
  define q1 where "q1 = (if fq_more ?u \<and> ?i = fq_current ?u then ?u\<lparr>fq_more := False\<rparr> else ?u)"
  have ok1: "fq_ok q1" using unblock_ok [OF ok, of p] more_ok [of ?u False] by (simp add: q1_def)
  have core1: "fq_core q1" using ok1 by (simp add: fq_ok_def)
  have q1: "fq_pipes q1 = fq_pipes q" "fq_active q1 = fq_active q" "fq_members q1 = fq_members q" "fq_live q1 = fq_live q"
    "fq_blocked_set q1 = fq_blocked_set q - {p}" using unblock_ok [OF ok, of p] by (simp_all add: q1_def unblock_fields fq_members_def fq_live_def)
  note ix = index_live [OF core True]
  obtain q' where q': "(if ?i < fq_active q1 then fq_deactivate_at ?i q1 else Some (publish_pipe_receive_activity p False q1)) = Some q'"
      "fq_ok q'" "fq_live q' = fq_live q - {p}" "fq_blocked_set q' = fq_blocked_set q - {p}"
  proof (cases "?i < fq_active q1")
    case l: True
    obtain q' where "fq_deactivate_at ?i q1 = Some q'" "fq_leave (fq_items q1 ! ?i) q1 q'" by (rule deactivate_at_ok [OF core1 l])
    then show thesis using l leave_ok [OF ok1] q1 ix by (intro that [of q']) (auto simp: fq_leave_def)
  next
    case l: False
    then have "p \<notin> fq_live q1" using ix q1 by simp
    then show thesis using l publish_ok [OF ok1, of False p] publish_core [OF core1, of False p] q1
      by (intro that [of "publish_pipe_receive_activity p False q1"]) (auto simp: publish_fields)
  qed
  have "discard_pending_records ops p q w = Some ((detached, delimiter, True), q', w')"
    using True d q'(1) [unfolded q1_def]
    by (simp add: discard_pending_records_def normalize_id [OF core] index_core [OF core] Let_def) (auto split: if_splits)
  then show ?thesis using q' True by auto
qed

subsection \<open>Records of a run\<close>

text \<open>The queue after any sequence of calls, with the results of the receives. Between two calls the pipes
  may change in any way: each receive finds them in some state \<open>w\<close>.\<close>

inductive fq_run :: "('p, 'w) fq_ops \<Rightarrow> 'p fq \<Rightarrow> (errno + msg \<times> 'p) list \<Rightarrow> bool"
  for ops
where
  F_init: "fq_run ops (fq_init b) []"
| F_attach: "fq_run ops q out \<Longrightarrow> p \<notin> fq_members q \<Longrightarrow> fq_attach p q = Some q' \<Longrightarrow> fq_run ops q' out"
| F_terminated: "fq_run ops q out \<Longrightarrow> fq_pipe_terminated p q = Some q' \<Longrightarrow> fq_run ops q' out"
| F_activated: "fq_run ops q out \<Longrightarrow> fq_activated p q = Some q' \<Longrightarrow> fq_run ops q' out"
| F_deactivate: "fq_run ops q out \<Longrightarrow> fq_deactivate p q = Some q' \<Longrightarrow> fq_run ops q' out"
| F_has_in: "fq_run ops q out \<Longrightarrow> fq_has_in ops q w = Some (b, q', w') \<Longrightarrow> fq_run ops q' out"
| F_recv: "fq_run ops q out \<Longrightarrow> recvpipe_internal ops mem False q w = Some (r, q', w') \<Longrightarrow> fq_run ops q' (out @ [r])"

text \<open>A record, once begun, is continued by its own pipe until its last frame, or given up with \<open>ECONNABORTED\<close>.\<close>

fun records_from :: "'p option \<Rightarrow> (errno + msg \<times> 'p) list \<Rightarrow> bool" where
  "records_from pin [] \<longleftrightarrow> True"
| "records_from pin (Inr (m, p) # out) \<longleftrightarrow> (pin = None \<or> pin = Some p) \<and> records_from (if has_more m then Some p else None) out"
| "records_from pin (Inl e # out) \<longleftrightarrow> (pin \<noteq> None \<longrightarrow> e = ECONNABORTED) \<and> records_from None out"

fun pin_after :: "'p option \<Rightarrow> (errno + msg \<times> 'p) list \<Rightarrow> 'p option" where
  "pin_after pin [] = pin"
| "pin_after pin (Inr (m, p) # out) = pin_after (if has_more m then Some p else None) out"
| "pin_after pin (Inl e # out) = pin_after None out"

lemma records_append: "records_from pin (out @ [r]) \<longleftrightarrow> records_from pin out \<and> records_from (pin_after pin out) [r]"
  by (induction pin out rule: records_from.induct) auto

lemma pin_append: "pin_after pin (out @ [r]) = pin_after (pin_after pin out) [r]"
  by (induction pin out rule: pin_after.induct) auto

lemma recvpipe_plain:
  assumes ok: "fq_ok q"
  shows "\<exists>r q' w'. recvpipe_internal ops mem False q w = Some (r, q', w')
    \<and> (if fq_multipart_abort_pending q then r = Inl ECONNABORTED \<and> q' = q\<lparr>fq_multipart_abort_pending := False\<rparr> else recv_step q r q')"
proof -
  have core: "fq_core q" using ok by (simp add: fq_ok_def)
  show ?thesis
    using recv_plain [OF ok, of ops mem w] by (cases "fq_multipart_abort_pending q") (auto simp: recvpipe_internal_def normalize_id [OF core])
qed

text \<open>The pinned pipe is the one whose record is open; an abort is pending exactly when its pipe is gone.\<close>

definition pin_ok :: "'p fq \<Rightarrow> 'p option \<Rightarrow> bool" where
  "pin_ok q pin \<longleftrightarrow> (if fq_multipart_abort_pending q then pinned q = None \<and> pin \<noteq> None else pinned q = pin)"

lemma pin_ok_kept: "pin_ok q pin \<Longrightarrow> record_kept q q' \<Longrightarrow> fq_ok q \<Longrightarrow> pin_ok q' pin"
  by (auto simp: pin_ok_def record_kept_def split: if_splits)

lemma fq_run_inv:
  assumes "fq_run ops q out"
  shows "fq_ok q \<and> pin_ok q (pin_after None out) \<and> records_from None out"
  using assms
proof (induction rule: fq_run.induct)
  case (F_init b)
  then show ?case by (simp add: fq_init_ok pin_ok_def pinned_def) (simp add: fq_init_def)
next
  case (F_attach q out p q')
  then show ?case using fq_attach_ok [of q p] pin_ok_kept [of q _ q'] by auto
next
  case (F_terminated q out p q')
  then show ?case using fq_pipe_terminated_ok [of q p] pin_ok_kept [of q _ q'] by auto
next
  case (F_activated q out p q')
  then show ?case using fq_activated_ok [of q p] pin_ok_kept [of q _ q'] by auto
next
  case (F_deactivate q out p q')
  then show ?case using fq_deactivate_ok [of q p] pin_ok_kept [of q _ q'] by auto
next
  case (F_has_in q out w b q' w')
  then show ?case using fq_has_in_ok [of q ops w] pin_ok_kept [of q _ q'] by auto
next
  case (F_recv q out mem w r q' w')
  then have ok: "fq_ok q" and pin: "pin_ok q (pin_after None out)" and rec: "records_from None out" by auto
  have r: "if fq_multipart_abort_pending q then r = Inl ECONNABORTED \<and> q' = q\<lparr>fq_multipart_abort_pending := False\<rparr> else recv_step q r q'"
    using recvpipe_plain [OF ok, of ops mem w] F_recv.hyps(2) by auto
  show ?case
  proof (cases "fq_multipart_abort_pending q")
    case True
    have "fq_ok (q\<lparr>fq_multipart_abort_pending := False\<rparr>)" using ok by (auto simp: fq_ok_def fq_core_def fq_members_def fq_live_def)
    then show ?thesis using True r pin rec by (auto simp: records_append pin_append pin_ok_def pinned_def)
  next
    case False
    then show ?thesis using r pin rec by (auto simp: records_append pin_append pin_ok_def recv_step_def split: sum.splits if_splits)
  qed
qed

subsection \<open>Fairness\<close>

text \<open>How many pipes come before \<open>p\<close> in the turn.\<close>

definition gap :: "'p fq \<Rightarrow> 'p \<Rightarrow> nat" where
  "gap q p = (let i = arr_index p (fq_pipes q) in if fq_current q \<le> i then i - fq_current q else fq_active q - fq_current q + i)"

lemma gap_less:
  assumes "fq_core q" "p \<in> fq_live q"
  shows "gap q p < fq_active q"
proof -
  have "p \<in> fq_members q" using assms live_sub [of q] by blast
  then have "arr_index p (fq_pipes q) < fq_active q" using index_live [OF assms(1)] assms(2) by blast
  then show ?thesis using assms(1) by (auto simp: gap_def Let_def fq_core_def split: if_splits)
qed

lemma gap_next_turn:
  assumes core: "fq_core q" and p: "p \<in> fq_live q" "fq_items q ! fq_current q \<noteq> p"
  shows "gap (next_turn q) p < gap q p"
proof -
  have "p \<in> fq_members q" using p live_sub [of q] by blast
  note ix = index_live [OF core this]
  let ?i = "arr_index p (fq_pipes q)"
  have i: "?i < fq_active q" "?i \<noteq> fq_current q" "fq_current q < fq_active q" using ix p core by (auto simp: fq_core_def split: if_splits)
  show ?thesis
  proof (cases "Suc (fq_current q) = fq_active q")
    case True
    then show ?thesis using i by (auto simp: gap_def next_turn_def Let_def)
  next
    case False
    then have "Suc (fq_current q) mod fq_active q = Suc (fq_current q)" using i by simp
    then show ?thesis using i by (auto simp: gap_def next_turn_def Let_def)
  qed
qed

lemma gap_miss:
  assumes core: "fq_core q" and nm: "\<not> fq_more q" and p: "p \<in> fq_live q" "fq_items q ! fq_current q \<noteq> p"
    and d: "deactivate_current_after_read_miss q = Some q'"
  shows "gap q' p \<le> gap q p"
proof -
  have "p \<in> fq_members q" using p live_sub [of q] by blast
  note ix = index_live [OF core this]
  let ?i = "arr_index p (fq_pipes q)" and ?n = "fq_active q - 1"
  have i: "?i < fq_active q" "?i \<noteq> fq_current q" and c: "fq_current q < fq_active q" using ix p core by (auto simp: fq_core_def split: if_splits)
  obtain a where a: "arr_swap (fq_current q) ?n (fq_pipes q) = Some a" "arr_ok a" "arr_size a = fq_size q"
      "\<forall>k < ?n. arr_items a ! k = (if k = fq_current q then fq_items q ! ?n else fq_items q ! k)"
    by (rule swap_out [OF core c])
  have q': "fq_pipes q' = a" "fq_active q' = ?n" "fq_current q' = (if fq_current q = ?n then 0 else fq_current q)"
    using d a(1)
    by (auto simp: deactivate_current_after_read_miss_def fq_swap_def publish_pipe_receive_activity_def Let_def split: Option.bind_splits if_splits)
  have j: "arr_index p a = (if ?i = ?n then fq_current q else ?i)"
  proof -
    let ?j = "if ?i = ?n then fq_current q else ?i"
    have "?j < ?n" "arr_items a ! ?j = p" using a(4) i c ix(2) by auto
    then show ?thesis using pa.index_nth [OF a(2), of ?j] a(3) core by (auto simp: fq_core_def)
  qed
  show ?thesis using i c by (auto simp: gap_def q' j Let_def)
qed

text \<open>\<open>waiting p w\<close>: pipe \<open>p\<close> has a frame, and keeps it whatever is read from the others.\<close>

definition keeps_waiting :: "('p, 'w) fq_ops \<Rightarrow> ('p \<Rightarrow> 'w \<Rightarrow> bool) \<Rightarrow> bool" where
  "keeps_waiting ops waiting \<longleftrightarrow>
     (\<forall>p w. waiting p w \<longrightarrow> fst (fo_read ops p w) \<noteq> None \<and> (\<forall>p'. p' \<noteq> p \<longrightarrow> waiting p (snd (fo_read ops p' w))))"

definition turn_taken :: "(errno + msg \<times> 'p) \<Rightarrow> nat" where
  "turn_taken r = (case r of Inr (m, _) \<Rightarrow> if has_more m then 0 else 1 | Inl _ \<Rightarrow> 0)"

lemma fair_step:
  assumes kw: "keeps_waiting ops waiting" and "fq_ok q" "\<not> fq_multipart_abort_pending q" "p \<in> fq_live q" "waiting p w"
    "recv_loop ops mem False q w = Some (r, q', w')"
  shows "(\<exists>m. r = Inr (m, p)) \<or> p \<in> fq_live q' \<and> waiting p w' \<and> r \<noteq> Inl EAGAIN \<and> gap q' p + turn_taken r \<le> gap q p"
  using assms
proof (induction ops mem False q w rule: recv_loop.induct)
  case (1 ops mem q w)
  have core: "fq_core q" using 1(4) by (simp add: fq_ok_def)
  have True: "0 < fq_active q" using 1(6) gap_less [OF core 1(6)] by simp
  note g = current_get [OF core True] and unf = recv_loop.simps [of ops mem False q w]
  let ?c = "fq_items q ! fq_current q" and ?q = "q\<lparr>fq_more := False\<rparr>"
  obtain x w1 where read: "fo_read ops ?c w = (x, w1)" by (metis surj_pair)
  have core0: "fq_core ?q" "p \<in> fq_live ?q" "fq_items ?q ! fq_current ?q = ?c" "gap ?q p = gap q p" "\<not> fq_more ?q"
    using more_ok [OF 1(4), of False] 1(6) by (auto simp: fq_ok_def fq_live_def gap_def Let_def)
  have w1: "waiting p w1" if "?c \<noteq> p" using 1(3) that 1(7) read unfolding keeps_waiting_def by (metis snd_conv)
  show ?case
  proof (cases x)
    case (Some m)
    then have r: "r = Inr (m, ?c)" "q' = (if has_more m then q\<lparr>fq_more := True\<rparr> else next_turn ?q)" "w' = w1"
      using 1(8) True g read by (auto simp: unf fq_fetch_def Let_def)
    show ?thesis
    proof (cases "?c = p")
      case False
      have "gap q' p + turn_taken r \<le> gap q p"
        using r gap_next_turn [OF core0(1,2)] core0(3,4) False by (auto simp: turn_taken_def gap_def Let_def)
      moreover have "p \<in> fq_live q'" using r(2) 1(6) by (simp add: fq_live_def next_turn_def)
      ultimately show ?thesis using r w1 False by simp
    qed (use r in simp)
  next
    case None
    then have cp: "?c \<noteq> p" using 1(3) 1(7) read unfolding keeps_waiting_def by force
    have a0: "0 < fq_active ?q" and ok0: "fq_ok ?q" using True more_ok [OF 1(4), of False] by auto
    obtain q1 where q1: "deactivate_current_after_read_miss ?q = Some q1" "fq_ok q1" "fq_leave (fq_items ?q ! fq_current ?q) ?q q1"
        "fq_multipart_abort_pending q1 = fq_multipart_abort_pending ?q"
      by (rule miss_ok [OF ok0 a0 core0(5)])
    have g1: "gap q1 p \<le> gap q p" using gap_miss [OF core0(1,5,2) _ q1(1)] core0(3,4) cp by simp
    have l1: "p \<in> fq_live q1" using q1(3) 1(6) cp core0(2) by (auto simp: fq_leave_def)
    show ?thesis
    proof (cases "fq_more q")
      case m: True
      then have "r = Inl ECONNABORTED" "q' = q1" "w' = w1" using 1(8) True g read None q1(1) by (auto simp: unf fq_fetch_def)
      then show ?thesis using l1 g1 w1 cp by (simp add: turn_taken_def)
    next
      case m: False
      then have q0: "?q = q" by simp
      have f: "fq_fetch ops False ?c w = (Missed, w1)" using read None by (simp add: fq_fetch_def)
      have "recv_loop ops mem False q1 w1 = Some (r, q', w')" using 1(8) True g f m q1(1) unfolding q0 by (simp add: unf)
      from 1(1) [OF True g(1) f [symmetric] refl m q1(1) [unfolded q0] 1(3) q1(2) _ l1 w1 [OF cp] this] q1(4) 1(5)
      show ?thesis using g1 by auto
    qed
  qed
qed

end
