(* ===== verification/Fq_Contract.thy ===== *)
theory Fq_Contract
  imports Fq_Safety
begin

section \<open>What the fair queue promises\<close>

text \<open>
  The properties of \<open>sockets/internal/fq.cpp\<close> over the lemmas of \<open>Fq_Safety\<close>, with pipes that are plain
  lists of frames to run them on.
\<close>

subsection \<open>Receiving again and again\<close>

fun recv_many :: "('p, 'w) fq_ops \<Rightarrow> bool \<Rightarrow> nat \<Rightarrow> 'p fq \<Rightarrow> 'w \<Rightarrow> ((errno + msg \<times> 'p) list \<times> 'p fq \<times> 'w) option" where
  "recv_many ops mem 0 q w = Some ([], q, w)"
| "recv_many ops mem (Suc n) q w =
     do { (r, q, w) \<leftarrow> recvpipe_internal ops mem False q w;
          (out, q, w) \<leftarrow> recv_many ops mem n q w;
          Some (r # out, q, w) }"

lemma fair_many:
  assumes kw: "keeps_waiting ops waiting" and "fq_ok q" "\<not> fq_multipart_abort_pending q" "p \<in> fq_live q" "waiting p w"
  shows "\<exists>out q' w'. recv_many ops mem n q w = Some (out, q', w')
    \<and> ((\<exists>m. Inr (m, p) \<in> set out) \<or> Inl EAGAIN \<notin> set out \<and> sum_list (map turn_taken out) \<le> gap q p)"
  using assms(2-)
proof (induction n arbitrary: q w)
  case (Suc n)
  have core: "fq_core q" using Suc.prems by (simp add: fq_ok_def)
  obtain r q1 w1 where r: "recv_loop ops mem False q w = Some (r, q1, w1)" "recv_step q r q1"
    using recv_plain [OF Suc.prems(1,2), of ops mem w] by blast
  have rp: "recvpipe_internal ops mem False q w = Some (r, q1, w1)"
    using r(1) Suc.prems(2) by (simp add: recvpipe_internal_def normalize_id [OF core])
  have ok1: "fq_ok q1" "\<not> fq_multipart_abort_pending q1" using r(2) by (auto simp: recv_step_def)
  have total: "\<exists>out q' w'. recv_many ops mem k q w = Some (out, q', w')" if "fq_ok q" "\<not> fq_multipart_abort_pending q" for k q w
    using that
  proof (induction k arbitrary: q w)
    case (Suc k)
    have "fq_core q" using Suc.prems by (simp add: fq_ok_def)
    moreover obtain r q1 w1 where "recv_loop ops mem False q w = Some (r, q1, w1)" "recv_step q r q1"
      using recv_plain [OF Suc.prems, of ops mem w] by blast
    moreover from this have "fq_ok q1" "\<not> fq_multipart_abort_pending q1" by (auto simp: recv_step_def)
    ultimately show ?case using Suc.IH [of q1 w1] Suc.prems by (auto simp: recvpipe_internal_def normalize_id)
  qed simp
  show ?case
  proof (cases "\<exists>m. r = Inr (m, p)")
    case True
    then show ?thesis using rp total [OF ok1, of n w1] by auto
  next
    case False
    then have f: "p \<in> fq_live q1" "waiting p w1" "r \<noteq> Inl EAGAIN" "gap q1 p + turn_taken r \<le> gap q p"
      using fair_step [OF kw Suc.prems r(1)] by auto
    then show ?thesis using Suc.IH [OF ok1 f(1,2)] rp by fastforce
  qed
qed simp

subsection \<open>Pipes to run it with\<close>

definition list_pipes :: "(nat, nat \<Rightarrow> msg list) fq_ops" where
  "list_pipes =
     \<lparr>fo_read = (\<lambda>p w. case w p of [] \<Rightarrow> (None, w) | m # ms \<Rightarrow> (Some m, w(p := ms))),
      fo_admit = (\<lambda>p w. case w p of [] \<Rightarrow> (Missed, w) | m # ms \<Rightarrow> (Fetched m, w(p := ms))),
      fo_candidate = (\<lambda>_ _. True), fo_check_read = (\<lambda>p w. (w p \<noteq> [], w)),
      fo_discard = (\<lambda>p w. case w p of [] \<Rightarrow> (Nothing None, w) | m # ms \<Rightarrow> (Discarded m, w(p := ms)))\<rparr>"

definition demo_frame :: "byte \<Rightarrow> bool \<Rightarrow> msg" where
  "demo_frame b unfinished = (msg_init :: msg)\<lparr>msg_data := [b], msg_flags := if unfinished then 1 else 0\<rparr>"

definition demo_inbox :: "nat \<Rightarrow> msg list" where
  "demo_inbox p =
     (if p = 3 then [demo_frame 1 True, demo_frame 2 False]
      else if p = 4 then [demo_frame 8 False, demo_frame 9 False] else [])"

definition demo_fq :: "nat fq" where
  "demo_fq = the (fq_attach 4 (the (fq_attach 3 (fq_init True))))"

text \<open>Pipe 3 goes away after its first frame.\<close>

definition demo_cut :: "(errno + msg \<times> nat) list \<times> nat fq" where
  "demo_cut =
     (let (r1, q1, w1) = the (recvpipe_internal list_pipes True False demo_fq demo_inbox);
          q2 = the (fq_pipe_terminated 3 q1);
          (r2, q3, w3) = the (recvpipe_internal list_pipes True False q2 w1);
          (r3, q4, w4) = the (recvpipe_internal list_pipes True False q3 w3) in
      ([r1, r2, r3], q4))"

lemma demo_fq_run: "fq_run list_pipes demo_fq []" "fq_ok demo_fq" "fq_members demo_fq = {3, 4}" "fq_live demo_fq = {3, 4}"
proof -
  obtain q1 where q1: "fq_attach 3 (fq_init True) = Some q1" "fq_ok q1" "fq_members q1 = {3}" "fq_live q1 = {3 :: nat}"
    using fq_attach_ok [OF fq_init_ok, of 3 True] by (auto simp: fq_members_def fq_live_def fq_init_def)
  obtain q2 where q2: "fq_attach 4 q1 = Some q2" "fq_ok q2" "fq_members q2 = {3, 4}" "fq_live q2 = {3, 4}"
    using fq_attach_ok [OF q1(2), of 4] q1 by (auto simp: insert_commute)
  have d: "demo_fq = q2" using q1 q2 by (simp add: demo_fq_def)
  have "fq_run list_pipes q1 []" by (rule F_attach [OF F_init _ q1(1)]) (simp add: fq_init_def fq_members_def)
  then have "fq_run list_pipes q2 []" by (rule F_attach [OF _ _ q2(1)]) (simp add: q1)
  then show "fq_run list_pipes demo_fq []" "fq_ok demo_fq" "fq_members demo_fq = {3, 4}" "fq_live demo_fq = {3, 4}" using q2 d by auto
qed

lemma demo_cut_run: "fq_run list_pipes (snd demo_cut) (fst demo_cut)"
proof -
  obtain r1 q1 w1 where 1: "recvpipe_internal list_pipes True False demo_fq demo_inbox = Some (r1, q1, w1)"
    using recvpipe_plain [OF demo_fq_run(2), of list_pipes True demo_inbox] by blast
  have run1: "fq_run list_pipes q1 [r1]" using F_recv [OF demo_fq_run(1) 1] by simp
  then have ok1: "fq_ok q1" using fq_run_inv by blast
  obtain q2 where 2: "fq_pipe_terminated 3 q1 = Some q2" "fq_ok q2" using fq_pipe_terminated_ok [OF ok1] by blast
  have run2: "fq_run list_pipes q2 [r1]" by (rule F_terminated [OF run1 2(1)])
  obtain r2 q3 w3 where 3: "recvpipe_internal list_pipes True False q2 w1 = Some (r2, q3, w3)"
    using recvpipe_plain [OF 2(2), of list_pipes True w1] by blast
  have run3: "fq_run list_pipes q3 [r1, r2]" using F_recv [OF run2 3] by simp
  then have ok3: "fq_ok q3" using fq_run_inv by blast
  obtain r3 q4 w4 where 4: "recvpipe_internal list_pipes True False q3 w3 = Some (r3, q4, w4)"
    using recvpipe_plain [OF ok3, of list_pipes True w3] by blast
  have "fq_run list_pipes q4 [r1, r2, r3]" using F_recv [OF run3 4] by simp
  then show ?thesis using 1 2(1) 3 4 by (simp add: demo_cut_def)
qed

subsection \<open>Properties\<close>

text \<open>C27: Whatever pipes come, go, fall silent or wake up between two receives, frames of different
  records are never mixed: after a frame with more to come the next result is a frame of the same pipe, or
  \<open>ECONNABORTED\<close>, after which a new record begins. The order of the array, the
  position and the published activity of every pipe stay consistent, and no call leaves the array.\<close>

theorem fq_records_whole:
  assumes "fq_run ops q out"
  shows "records_from None out \<and> fq_ok q \<and> (\<forall>p. fq_pipe_terminated p q \<noteq> None) \<and> (\<forall>p. fq_activated p q \<noteq> None)
    \<and> (\<forall>p. fq_deactivate p q \<noteq> None) \<and> (\<forall>w. fq_has_in ops q w \<noteq> None)
    \<and> (\<forall>mem w. recvpipe_internal ops mem False q w \<noteq> None)"
proof -
  have ok: "fq_ok q" and rec: "records_from None out" using fq_run_inv [OF assms] by blast+
  have "fq_pipe_terminated p q \<noteq> None" "fq_activated p q \<noteq> None" "fq_deactivate p q \<noteq> None" for p
    using fq_pipe_terminated_ok [OF ok, of p] fq_activated_ok [OF ok, of p] fq_deactivate_ok [OF ok, of p] by auto
  moreover have "fq_has_in ops q w \<noteq> None" "recvpipe_internal ops mem False q w \<noteq> None" for mem w
    using fq_has_in_ok [OF ok, of ops w] recvpipe_plain [OF ok, of ops mem w] by auto
  ultimately show ?thesis using rec ok by blast
qed

theorem fq_records_whole_witness:
  "records_from None (fst demo_cut) \<and> fst demo_cut = [Inr (demo_frame 1 True, 3), Inl ECONNABORTED, Inr (demo_frame 8 False, 4)]"
proof -
  have "fst demo_cut = [Inr (demo_frame 1 True, 3), Inl ECONNABORTED, Inr (demo_frame 8 False, 4)]" by code_simp
  then show ?thesis using fq_records_whole [OF demo_cut_run] by simp
qed



end
