(* ===== verification/Lb.thy ===== *)
theory Lb
  imports Dist "HOL-Library.List_Lexorder" "HOL-Library.Product_Lexorder"
begin

section \<open>The load balancer\<close>

text \<open>
  Models \<open>sockets/internal/lb.cpp\<close>: the outbound pipes of a DEALER socket, chosen by weight. Each choice adds
  every candidate's weight to its running value, takes the largest one and subtracts the total. What a
  pipe does with a message is a parameter (\<open>lb_ops\<close>). An access outside the array or through an entry that is gone is
  \<open>None\<close>, and so is a loop that does not end. Weights are at most 10000, so their sum stays below \<open>2\<^sup>3\<^sup>2\<close> for fewer than
  400000 pipes; weights, running values and the attach counter are unbounded numbers here.
\<close>

subsection \<open>State and pipe interface\<close>

definition max_peer_weight :: nat where "max_peer_weight = 10000"

record pipe_entry =
  pe_weight :: nat
  pe_running_value :: int
  pe_attach_seq :: nat

record 'p lb =
  lb_pipes :: "'p arr"
  lb_active :: nat
  lb_current :: nat
  lb_more :: bool
  lb_dropping :: bool
  lb_entries :: "'p \<rightharpoonup> pipe_entry"
  lb_attach_seq :: nat
  lb_order_dirty :: bool
  lb_ordered :: "'p list"
  lb_request_limited :: "'p list"
  lb_weighted_multipart_pipe :: "'p option"

text \<open>How a frame is written: observed, as a part, as a last part with a flush, or as a flushed last part on
  the old path. A refused write leaves its reason and \<open>errno\<close>.\<close>

datatype write_kind = W_observed | W_part | W_single | W_flush
datatype write_result = Written | Unwritten admission errno

record ('p, 'w) lb_ops =
  lo_write :: "write_kind \<Rightarrow> 'p \<Rightarrow> msg \<Rightarrow> 'w \<Rightarrow> write_result \<times> 'w"
  lo_rollback :: "'p \<Rightarrow> 'w \<Rightarrow> 'w"
  lo_check_write :: "'p \<Rightarrow> 'w \<Rightarrow> bool \<times> 'w"
  lo_admission :: "'p \<Rightarrow> 'w \<Rightarrow> admission \<times> 'w"
  lo_routing_id :: "'p \<Rightarrow> byte list"
  lo_endpoint :: "'p \<Rightarrow> byte list"
  lo_pair :: "'p \<Rightarrow> u64 \<times> u64"

abbreviation lb_size :: "'p lb \<Rightarrow> nat" where "lb_size s \<equiv> arr_size (lb_pipes s)"

definition lb_init :: "'p lb" where
  "lb_init =
     \<lparr>lb_pipes = arr_empty, lb_active = 0, lb_current = 0, lb_more = False, lb_dropping = False, lb_entries = Map.empty,
      lb_attach_seq = 0, lb_order_dirty = True, lb_ordered = [], lb_request_limited = [], lb_weighted_multipart_pipe = None\<rparr>"

text \<open>The order used to break ties: routing id, endpoint, order of attachment.\<close>

definition candidate_key :: "('p, 'w) lb_ops \<Rightarrow> 'p lb \<Rightarrow> 'p \<Rightarrow> byte list \<times> byte list \<times> nat" where
  "candidate_key ops s p =
     (lo_routing_id ops p, lo_endpoint ops p, case lb_entries s p of None \<Rightarrow> 0 | Some e \<Rightarrow> pe_attach_seq e)"

subsection \<open>Pipes and weights\<close>

definition mark_selection_dirty :: "'p lb \<Rightarrow> 'p lb" where
  "mark_selection_dirty s = s\<lparr>lb_order_dirty := True\<rparr>"

definition lb_swap :: "nat \<Rightarrow> nat \<Rightarrow> 'p lb \<Rightarrow> 'p lb option" where
  "lb_swap i j s = map_option (\<lambda>a. s\<lparr>lb_pipes := a\<rparr>) (arr_swap i j (lb_pipes s))"

definition lb_enter :: "nat \<Rightarrow> 'p lb \<Rightarrow> 'p lb option" where
  "lb_enter i s =
     do { s \<leftarrow> lb_swap i (lb_active s) s; Some (mark_selection_dirty (s\<lparr>lb_active := lb_active s + 1\<rparr>)) }"

definition lb_activated :: "'p \<Rightarrow> 'p lb \<Rightarrow> 'p lb option" where
  "lb_activated p s =
     (if (case lb_entries s p of Some e \<Rightarrow> pe_weight e = 0 | None \<Rightarrow> False) then Some s
      else if arr_index p (lb_pipes s) < lb_active s then Some s
      else lb_enter (arr_index p (lb_pipes s)) s)"

definition lb_attach :: "'p \<Rightarrow> nat \<Rightarrow> 'p lb \<Rightarrow> 'p lb option" where
  "lb_attach p weight s =
     (let s = s\<lparr>lb_pipes := arr_push_back p (lb_pipes s),
                lb_entries := (lb_entries s)(p \<mapsto> \<lparr>pe_weight = min weight max_peer_weight, pe_running_value = 0,
                                                  pe_attach_seq = lb_attach_seq s\<rparr>),
                lb_attach_seq := lb_attach_seq s + 1\<rparr> in
      lb_activated p (mark_selection_dirty s))"

definition lb_deactivate_at :: "nat \<Rightarrow> 'p lb \<Rightarrow> 'p lb option" where
  "lb_deactivate_at i s =
     (if i \<ge> lb_active s then Some s
      else do {
        let s = s\<lparr>lb_active := lb_active s - 1\<rparr>;
        s \<leftarrow> lb_swap i (lb_active s) s;
        let s = (if lb_current s = lb_active s then s\<lparr>lb_current := 0\<rparr>
                 else if lb_current s > i \<and> lb_current s \<le> lb_active s then s\<lparr>lb_current := lb_current s - 1\<rparr> else s);
        Some (mark_selection_dirty s) })"

definition lb_deactivate :: "'p \<Rightarrow> 'p lb \<Rightarrow> 'p lb option" where
  "lb_deactivate p s = lb_deactivate_at (arr_index p (lb_pipes s)) s"

text \<open>A pipe that goes away in the middle of a record: the rest of the record is dropped.\<close>

definition drop_remainder :: "'p \<Rightarrow> 'p lb \<Rightarrow> 'p lb" where
  "drop_remainder p s =
     (let s = (if arr_index p (lb_pipes s) = lb_current s \<and> lb_more s then s\<lparr>lb_dropping := True\<rparr> else s) in
      if lb_weighted_multipart_pipe s = Some p \<and> lb_more s
      then s\<lparr>lb_dropping := True, lb_weighted_multipart_pipe := None\<rparr> else s)"

definition lb_leave :: "nat \<Rightarrow> 'p lb \<Rightarrow> 'p lb option" where
  "lb_leave i s =
     (if i < lb_active s then
        do { let s = s\<lparr>lb_active := lb_active s - 1\<rparr>;
             s \<leftarrow> lb_swap i (lb_active s) s;
             Some (mark_selection_dirty (if lb_current s = lb_active s then s\<lparr>lb_current := 0\<rparr> else s)) }
      else Some s)"

definition lb_pipe_terminated :: "'p \<Rightarrow> 'p lb \<Rightarrow> 'p lb option" where
  "lb_pipe_terminated p s =
     (if \<not> arr_contains p (lb_pipes s) then Some s
      else
        do { s \<leftarrow> lb_leave (arr_index p (lb_pipes s)) (drop_remainder p s);
             a \<leftarrow> arr_erase p (lb_pipes s);
             Some (mark_selection_dirty (s\<lparr>lb_pipes := a, lb_entries := (lb_entries s)(p := None)\<rparr>)) })"

definition lb_set_weight :: "('p, 'w) lb_ops \<Rightarrow> 'p \<Rightarrow> nat \<Rightarrow> 'p lb \<Rightarrow> 'w \<Rightarrow> ('p lb \<times> 'w) option" where
  "lb_set_weight ops p weight s w =
     (let weight = min weight max_peer_weight in
      case lb_entries s p of
        None \<Rightarrow> Some (s, w)
      | Some e \<Rightarrow>
          if pe_weight e = weight then Some (s, w)
          else
            let s = mark_selection_dirty (s\<lparr>lb_entries := (lb_entries s)(p \<mapsto> e\<lparr>pe_weight := weight\<rparr>)\<rparr>);
                i = arr_index p (lb_pipes s) in
            if weight = 0 then map_option (\<lambda>s. (s, w)) (lb_deactivate_at i s)
            else if i \<ge> lb_active s then
              (case lo_check_write ops p w of
                 (False, w) \<Rightarrow> Some (s, w)
               | (True, w) \<Rightarrow> map_option (\<lambda>s. (s, w)) (lb_enter i s))
            else Some (s, w))"

definition lb_weight :: "'p \<Rightarrow> 'p lb \<Rightarrow> nat" where
  "lb_weight p s = (case lb_entries s p of None \<Rightarrow> 0 | Some e \<Rightarrow> pe_weight e)"

text \<open>The loop over the entries, here over the pipes: each pipe has exactly one entry.\<close>

definition has_positive_weight_pipe :: "'p lb \<Rightarrow> bool" where
  "has_positive_weight_pipe s \<longleftrightarrow> (\<exists>p \<in> set (arr_items (lb_pipes s)). lb_weight p s > 0)"

definition lb_contains :: "'p \<Rightarrow> 'p lb \<Rightarrow> bool" where
  "lb_contains p s \<longleftrightarrow> lb_entries s p \<noteq> None"

subsection \<open>Selection\<close>

definition rebuild_selection_order :: "('p, 'w) lb_ops \<Rightarrow> 'p lb \<Rightarrow> 'p lb" where
  "rebuild_selection_order ops s =
     (if \<not> lb_order_dirty s \<and> length (lb_ordered s) = lb_active s then s
      else s\<lparr>lb_ordered := sort_key (candidate_key ops s)
                (filter (\<lambda>p. lb_entries s p \<noteq> None) (take (lb_active s) (arr_items (lb_pipes s)))),
             lb_order_dirty := False\<rparr>)"

text \<open>The total weight, and the candidate chosen with its value.\<close>

fun weighted_scan :: "('p \<rightharpoonup> pipe_entry) \<Rightarrow> 'p list \<Rightarrow> nat \<times> ('p \<times> int) option \<Rightarrow> (nat \<times> ('p \<times> int) option) option" where
  "weighted_scan entries [] acc = Some acc"
| "weighted_scan entries (p # ps) (sumw, selected) =
     (case entries p of
        None \<Rightarrow> None
      | Some e \<Rightarrow>
          if pe_weight e = 0 then weighted_scan entries ps (sumw, selected)
          else
            let value = pe_running_value e + int (pe_weight e);
                better = (case selected of None \<Rightarrow> True | Some (_, v) \<Rightarrow> value > v) in
            weighted_scan entries ps (sumw + pe_weight e, if better then Some (p, value) else selected))"

definition select_weighted_pipe :: "'p lb \<Rightarrow> (nat \<times> 'p option) option" where
  "select_weighted_pipe s =
     map_option (\<lambda>(sumw, selected). (sumw, map_option fst selected)) (weighted_scan (lb_entries s) (lb_ordered s) (0, None))"

text \<open>Adding the weights of the candidates; an entry of weight zero stays.\<close>

definition add_weight :: "'p \<Rightarrow> ('p \<rightharpoonup> pipe_entry) \<Rightarrow> ('p \<rightharpoonup> pipe_entry)" where
  "add_weight p entries =
     entries(p := map_option (\<lambda>e. e\<lparr>pe_running_value := pe_running_value e + int (pe_weight e)\<rparr>) (entries p))"

definition repay :: "'p \<Rightarrow> nat \<Rightarrow> ('p \<rightharpoonup> pipe_entry) \<Rightarrow> ('p \<rightharpoonup> pipe_entry)" where
  "repay p sumw entries =
     entries(p := map_option (\<lambda>e. e\<lparr>pe_running_value := pe_running_value e - int sumw\<rparr>) (entries p))"

definition commit_weighted_selection :: "'p \<Rightarrow> nat \<Rightarrow> 'p lb \<Rightarrow> 'p lb" where
  "commit_weighted_selection selected sumw s =
     s\<lparr>lb_entries := repay selected sumw (fold add_weight (lb_ordered s) (lb_entries s))\<rparr>"

text \<open>The choice among all connected pipes, whether they can be written to or not: the largest value, the first in the order
  of the candidates among equals.\<close>

fun connected_scan ::
    "('p, 'w) lb_ops \<Rightarrow> 'p lb \<Rightarrow> 'p list \<Rightarrow> nat \<times> ('p \<times> int) option \<Rightarrow> nat \<times> ('p \<times> int) option" where
  "connected_scan ops s [] acc = acc"
| "connected_scan ops s (p # ps) (sumw, selected) =
     (let e = the (lb_entries s p); value = pe_running_value e + int (pe_weight e);
          better = (case selected of
                      None \<Rightarrow> True
                    | Some (q, v) \<Rightarrow> value > v \<or> (value = v \<and> candidate_key ops s p < candidate_key ops s q)) in
      connected_scan ops s ps (sumw + pe_weight e, if better then Some (p, value) else selected))"

definition select_connected_pipe :: "('p, 'w) lb_ops \<Rightarrow> ('p \<Rightarrow> bool) \<Rightarrow> 'p lb \<Rightarrow> (errno + 'p) \<times> 'p lb" where
  "select_connected_pipe ops flt s =
     (let weighted = filter (\<lambda>p. lb_weight p s > 0) (arr_items (lb_pipes s)); connected = filter flt weighted in
      case connected_scan ops s connected (0, None) of
        (_, None) \<Rightarrow> (Inl (if weighted \<noteq> [] \<or> arr_items (lb_pipes s) = [] then ENOTCONN else ECONNREFUSED), s)
      | (sumw, Some (p, _)) \<Rightarrow> (Inr p, s\<lparr>lb_entries := repay p sumw (fold add_weight connected (lb_entries s))\<rparr>))"

definition find_connected_pipe :: "('p, 'w) lb_ops \<Rightarrow> byte list \<Rightarrow> u64 \<Rightarrow> u64 \<Rightarrow> 'p lb \<Rightarrow> 'p option" where
  "find_connected_pipe ops peer_rid pair_id generation s =
     (if peer_rid = [] \<or> pair_id = 0 \<or> generation = 0 then None
      else find (\<lambda>p. lo_pair ops p = (pair_id, generation) \<and> lo_routing_id ops p = peer_rid) (arr_items (lb_pipes s)))"

definition find_pipe_by_endpoint :: "('p, 'w) lb_ops \<Rightarrow> byte list \<Rightarrow> ('p \<Rightarrow> bool) \<Rightarrow> 'p lb \<Rightarrow> 'p option" where
  "find_pipe_by_endpoint ops endpoint flt s =
     (if endpoint = [] then None else find (\<lambda>p. lo_endpoint ops p = endpoint \<and> flt p) (arr_items (lb_pipes s)))"

subsection \<open>Sending\<close>

text \<open>The results: taken, by a pipe or by nobody when the rest of a cut record is dropped; refused (-1), the message
  stays with the caller; record aborted (-2). Both failures come with the admission reported
  to a caller that asks for it; null arguments are not modelled.\<close>

datatype 'p lb_rc = Lb_sent "'p option" | Lb_failed errno admission | Lb_aborted errno admission

definition write_mode :: "bool \<Rightarrow> msg \<Rightarrow> write_kind" where
  "write_mode observer m = (if observer then W_observed else if has_more m then W_part else W_single)"

definition cancelled :: "bool \<Rightarrow> admission \<Rightarrow> errno \<Rightarrow> bool" where
  "cancelled observer adm e \<longleftrightarrow> observer \<and> e = ECANCELED \<and> adm = Adm_invalid"

definition wait_errno :: "admission \<Rightarrow> errno" where
  "wait_errno adm = (if adm = Adm_hwm_full \<or> adm = Adm_transport_wait then EAGAIN else EHOSTUNREACH)"

definition lb_took :: "'p \<Rightarrow> msg \<Rightarrow> 'p lb \<Rightarrow> 'p lb" where
  "lb_took p m s = s\<lparr>lb_more := has_more m, lb_weighted_multipart_pipe := if has_more m then Some p else None\<rparr>"

definition lb_cut :: "msg \<Rightarrow> 'p lb \<Rightarrow> 'p lb" where
  "lb_cut m s = s\<lparr>lb_weighted_multipart_pipe := None, lb_dropping := has_more m, lb_more := False\<rparr>"

definition sendpipe_to ::
    "('p, 'w) lb_ops \<Rightarrow> 'p \<Rightarrow> msg \<Rightarrow> bool \<Rightarrow> 'p lb \<Rightarrow> 'w \<Rightarrow> ('p lb_rc \<times> 'p lb \<times> 'w) option" where
  "sendpipe_to ops p m observer s w =
     (case lb_entries s p of
        None \<Rightarrow> Some (Lb_failed EHOSTUNREACH Adm_invalid, s, w)
      | Some e \<Rightarrow>
          if pe_weight e = 0 then Some (Lb_failed ECONNREFUSED Adm_invalid, s, w)
          else if lb_more s then Some (Lb_failed EFSM Adm_invalid, s, w)
          else
            (case lo_admission ops p w of
               (adm, w) \<Rightarrow>
                 if adm \<noteq> Adm_ready then map_option (\<lambda>s. (Lb_failed (wait_errno adm) adm, s, w)) (lb_deactivate p s)
                 else
                   (case lo_write ops (write_mode observer m) p m w of
                      (Written, w) \<Rightarrow> Some (Lb_sent (Some p), lb_took p m s, w)
                    | (Unwritten adm e, w) \<Rightarrow>
                        if cancelled observer adm e then Some (Lb_failed e adm, s, w)
                        else if adm = Adm_request_full then Some (Lb_failed EAGAIN adm, s, w)
                        else if adm = Adm_too_large then Some (Lb_failed e adm, s, w)
                        else map_option (\<lambda>s. (Lb_failed (wait_errno adm) adm, s, w)) (lb_deactivate p s))))"

fun any_hwm_blocked :: "('p, 'w) lb_ops \<Rightarrow> 'p list \<Rightarrow> 'p lb \<Rightarrow> 'w \<Rightarrow> bool \<times> 'w" where
  "any_hwm_blocked ops [] s w = (False, w)"
| "any_hwm_blocked ops (p # ps) s w =
     (if lb_weight p s > 0 then
        (case lo_admission ops p w of (adm, w) \<Rightarrow> if adm = Adm_hwm_full then (True, w) else any_hwm_blocked ops ps s w)
      else any_hwm_blocked ops ps s w)"

definition any_hwm_blocked_pipe :: "('p, 'w) lb_ops \<Rightarrow> 'p lb \<Rightarrow> 'w \<Rightarrow> bool \<times> 'w" where
  "any_hwm_blocked_pipe ops s w = any_hwm_blocked ops (arr_items (lb_pipes s)) s w"

fun restore_pipes :: "'p list \<Rightarrow> 'p lb \<Rightarrow> 'p lb option" where
  "restore_pipes [] s = Some s"
| "restore_pipes (p # ps) s = do { s \<leftarrow> lb_activated p s; restore_pipes ps s }"

definition restore_request_limited_pipes :: "'p lb \<Rightarrow> 'p lb option" where
  "restore_request_limited_pipes s = map_option (\<lambda>t. t\<lparr>lb_request_limited := []\<rparr>) (restore_pipes (lb_request_limited s) s)"

text \<open>The pipes the first frame was refused by leave the active part; those that only reached their limit of
  requests come back in the end. \<open>adm_out\<close> is the admission reported so far.\<close>

partial_function (option) select_loop ::
    "('p, 'w) lb_ops \<Rightarrow> msg \<Rightarrow> bool \<Rightarrow> admission \<Rightarrow> 'p lb \<Rightarrow> 'w \<Rightarrow> ('p lb_rc option \<times> admission \<times> 'p lb \<times> 'w) option" where
  [code]: "select_loop ops m observer adm_out s w =
     (if lb_active s = 0 then Some (None, adm_out, s, w)
      else
        do { (sumw, candidate) \<leftarrow> select_weighted_pipe s;
             (case candidate of
                None \<Rightarrow> Some (None, adm_out, s, w)
              | Some p \<Rightarrow>
                  (case lo_write ops (write_mode observer m) p m w of
                     (Written, w) \<Rightarrow>
                       do { s \<leftarrow> restore_request_limited_pipes (commit_weighted_selection p sumw s);
                            Some (Some (Lb_sent (Some p)), adm_out, lb_took p m s, w) }
                   | (Unwritten adm e, w) \<Rightarrow>
                       if cancelled observer adm e \<or> adm = Adm_too_large then
                         do { s \<leftarrow> restore_request_limited_pipes s; Some (Some (Lb_failed e adm), adm, s, w) }
                       else
                         do { let s = (if adm = Adm_request_full then s\<lparr>lb_request_limited := lb_request_limited s @ [p]\<rparr> else s);
                              s \<leftarrow> lb_deactivate p s;
                              select_loop ops m observer (if adm = Adm_hwm_full then Adm_hwm_full else adm_out)
                                (rebuild_selection_order ops s) w })) })"

definition no_pipe_errno :: "'p lb \<Rightarrow> errno" where
  "no_pipe_errno s = (if has_positive_weight_pipe s then EAGAIN else ECONNREFUSED)"

definition send_first ::
    "('p, 'w) lb_ops \<Rightarrow> msg \<Rightarrow> bool \<Rightarrow> 'p lb \<Rightarrow> 'w \<Rightarrow> ('p lb_rc \<times> 'p lb \<times> 'w) option" where
  "send_first ops m observer s w =
     do { (rc, adm_out, s, w) \<leftarrow> select_loop ops m observer Adm_ready (s\<lparr>lb_request_limited := []\<rparr>) w;
          (case rc of
             Some rc \<Rightarrow> Some (rc, s, w)
           | None \<Rightarrow>
               do { let request_limited = (lb_request_limited s \<noteq> []);
                    s \<leftarrow> restore_request_limited_pipes s;
                    (let (blocked, w) = (if request_limited then (False, w) else any_hwm_blocked_pipe ops s w);
                         adm = (if request_limited then Adm_request_full else if blocked then Adm_hwm_full else adm_out)
                     in Some (Lb_failed (no_pipe_errno s) adm, s, w)) }) }"

text \<open>The path of a continuation frame that has no pinned pipe.\<close>

partial_function (option) continue_loop ::
    "('p, 'w) lb_ops \<Rightarrow> msg \<Rightarrow> admission \<Rightarrow> 'p lb \<Rightarrow> 'w \<Rightarrow> ('p lb_rc \<times> 'p lb \<times> 'w) option" where
  [code]: "continue_loop ops m adm_out s w =
     (if lb_active s = 0 then
        (case any_hwm_blocked_pipe ops s w of
           (blocked, w) \<Rightarrow> Some (Lb_failed (no_pipe_errno s) (if blocked then Adm_hwm_full else adm_out), s, w))
      else
        do { p \<leftarrow> arr_get (lb_current s) (lb_pipes s);
             (case lo_write ops (if has_more m then W_part else W_flush) p m w of
                (Written, w) \<Rightarrow>
                  let s = s\<lparr>lb_more := has_more m\<rparr>;
                      s = (if has_more m then s
                           else s\<lparr>lb_current := if lb_current s + 1 \<ge> lb_active s then 0 else lb_current s + 1\<rparr>) in
                  Some (Lb_sent (Some p), s, w)
              | (Unwritten adm e, w) \<Rightarrow>
                  if lb_more s then
                    Some (Lb_aborted (if adm = Adm_too_large then e else EAGAIN) adm,
                          s\<lparr>lb_dropping := has_more m, lb_more := False\<rparr>, lo_rollback ops p w)
                  else if adm = Adm_too_large then Some (Lb_failed e Adm_too_large, s, w)
                  else
                    do { s \<leftarrow> lb_deactivate_at (lb_current s) s;
                         continue_loop ops m (if adm = Adm_hwm_full then Adm_hwm_full else adm_out) s w }) })"

definition sendpipe ::
    "('p, 'w) lb_ops \<Rightarrow> msg \<Rightarrow> bool \<Rightarrow> 'p lb \<Rightarrow> 'w \<Rightarrow> ('p lb_rc \<times> 'p lb \<times> 'w) option" where
  "sendpipe ops m observer s w =
     (if lb_dropping s then Some (Lb_sent None, s\<lparr>lb_more := has_more m, lb_dropping := has_more m\<rparr>, w)
      else if observer \<and> lb_more s \<and> has_more m then Some (Lb_failed EINVAL Adm_ready, s, w)
      else if lb_more s \<and> lb_weighted_multipart_pipe s \<noteq> None then
        let p = the (lb_weighted_multipart_pipe s) in
        (case lo_write ops (write_mode observer m) p m w of
           (Written, w) \<Rightarrow> Some (Lb_sent (Some p), lb_took p m s, w)
         | (Unwritten adm e, w) \<Rightarrow>
             Some (Lb_aborted (if adm = Adm_too_large then e else EAGAIN) adm, lb_cut m s, lo_rollback ops p w))
      else if lb_active s = 1 \<and> lb_current s = 0 then
        do { p \<leftarrow> arr_get 0 (lb_pipes s);
             (case lo_write ops (write_mode observer m) p m w of
                (Written, w) \<Rightarrow> Some (Lb_sent (Some p), lb_took p m s, w)
              | (Unwritten adm e, w) \<Rightarrow>
                  if cancelled observer adm e then Some (Lb_failed e adm, s, w)
                  else if lb_more s then
                    Some (Lb_aborted (if adm = Adm_too_large then e else EAGAIN) adm, lb_cut m s, lo_rollback ops p w)
                  else if adm = Adm_request_full then Some (Lb_failed EAGAIN adm, s, w)
                  else if adm = Adm_too_large then Some (Lb_failed e adm, s, w)
                  else map_option (\<lambda>s. (Lb_failed EAGAIN adm, s, w)) (lb_deactivate_at 0 s)) }
      else
        let s = rebuild_selection_order ops s in
        if \<not> lb_more s then send_first ops m observer s w else continue_loop ops m Adm_ready s w)"

definition lb_rollback :: "('p, 'w) lb_ops \<Rightarrow> 'p lb \<Rightarrow> 'w \<Rightarrow> 'p lb \<times> 'w" where
  "lb_rollback ops s w =
     (s\<lparr>lb_more := False, lb_dropping := False, lb_weighted_multipart_pipe := None\<rparr>,
      case lb_weighted_multipart_pipe s of
        Some p \<Rightarrow> lo_rollback ops p w
      | None \<Rightarrow> if lb_more s \<and> lb_current s < lb_size s then lo_rollback ops (arr_items (lb_pipes s) ! lb_current s) w else w)"

partial_function (option) has_out_loop :: "('p, 'w) lb_ops \<Rightarrow> 'p lb \<Rightarrow> 'w \<Rightarrow> (bool \<times> 'p lb \<times> 'w) option" where
  [code]: "has_out_loop ops s w =
     (if lb_active s = 0 then Some (False, s, w)
      else
        do { p \<leftarrow> arr_get (lb_current s) (lb_pipes s);
             (case lo_check_write ops p w of
                (ok, w) \<Rightarrow>
                  if ok then Some (True, s, w)
                  else do { s \<leftarrow> lb_deactivate_at (lb_current s) s; has_out_loop ops s w }) })"

definition lb_has_out :: "('p, 'w) lb_ops \<Rightarrow> 'p lb \<Rightarrow> 'w \<Rightarrow> (bool \<times> 'p lb \<times> 'w) option" where
  "lb_has_out ops s w =
     (if lb_more s then Some (True, s, w)
      else if lb_active s = 1 \<and> lb_current s = 0 then
        do { p \<leftarrow> arr_get 0 (lb_pipes s);
             (case lo_check_write ops p w of
                (True, w) \<Rightarrow> Some (True, s, w)
              | (False, w) \<Rightarrow> map_option (\<lambda>s. (False, s, w)) (lb_deactivate_at 0 s)) }
      else has_out_loop ops s w)"

end
