(* ===== verification/Weighted_Choice.thy ===== *)
theory Weighted_Choice
  imports Prelude
begin

section \<open>Choosing by weight\<close>

text \<open>
  The smooth weighted choice on which the load balancer rests, apart from the code: candidates with weights and
  running values, and a rule that picks a candidate whose value plus weight is largest. The locale states
  what the rule promises; its lemmas show that in any number of choices that is a multiple of the
  total weight every candidate gets exactly its share.
\<close>

definition total_weight :: "('p \<Rightarrow> nat) \<Rightarrow> 'p list \<Rightarrow> nat" where
  "total_weight wt cs = sum_list (map wt cs)"

definition choice_step :: "('p list \<Rightarrow> ('p \<Rightarrow> nat) \<Rightarrow> ('p \<Rightarrow> int) \<Rightarrow> 'p) \<Rightarrow> 'p list \<Rightarrow> ('p \<Rightarrow> nat) \<Rightarrow> ('p \<Rightarrow> int) \<Rightarrow> 'p \<Rightarrow> int" where
  "choice_step pick cs wt v p =
     (if p \<in> set cs then v p + int (wt p) - (if p = pick cs wt v then int (total_weight wt cs) else 0) else v p)"

fun choice_run ::
    "('p list \<Rightarrow> ('p \<Rightarrow> nat) \<Rightarrow> ('p \<Rightarrow> int) \<Rightarrow> 'p) \<Rightarrow> 'p list \<Rightarrow> ('p \<Rightarrow> nat) \<Rightarrow> nat \<Rightarrow> ('p \<Rightarrow> int) \<Rightarrow> 'p list \<times> ('p \<Rightarrow> int)" where
  "choice_run pick cs wt 0 v = ([], v)"
| "choice_run pick cs wt (Suc n) v =
     (let (ps, v') = choice_run pick cs wt n (choice_step pick cs wt v) in (pick cs wt v # ps, v'))"

locale weighted_choice =
  fixes pick :: "'p list \<Rightarrow> ('p \<Rightarrow> nat) \<Rightarrow> ('p \<Rightarrow> int) \<Rightarrow> 'p"
  assumes pick_in: "cs \<noteq> [] \<Longrightarrow> \<forall>p \<in> set cs. 0 < wt p \<Longrightarrow> pick cs wt v \<in> set cs"
    and pick_max: "\<forall>p \<in> set cs. 0 < wt p \<Longrightarrow> p \<in> set cs \<Longrightarrow> v p + int (wt p) \<le> v (pick cs wt v) + int (wt (pick cs wt v))"

context weighted_choice
begin

abbreviation step where "step cs wt \<equiv> choice_step pick cs wt"

abbreviation run where "run cs wt \<equiv> choice_run pick cs wt"

lemma step_sum:
  assumes "distinct cs" "cs \<noteq> []" "\<forall>p \<in> set cs. 0 < wt p"
  shows "(\<Sum>p \<in> set cs. step cs wt v p) = (\<Sum>p \<in> set cs. v p)"
proof -
  have "(\<Sum>p \<in> set cs. step cs wt v p)
      = (\<Sum>p \<in> set cs. v p + int (wt p)) - (\<Sum>p \<in> set cs. if p = pick cs wt v then int (total_weight wt cs) else 0)"
    unfolding sum_subtractf [symmetric] by (rule sum.cong) (simp_all add: choice_step_def)
  also have "(\<Sum>p \<in> set cs. if p = pick cs wt v then int (total_weight wt cs) else 0) = int (total_weight wt cs)"
    using pick_in [OF assms(2,3), of v] by simp
  also have "int (total_weight wt cs) = (\<Sum>p \<in> set cs. int (wt p))"
    using assms(1) by (simp add: total_weight_def sum_list_distinct_conv_sum_set)
  finally show ?thesis by (simp add: sum.distrib)
qed

text \<open>Values that sum to zero stay above minus the total: the chosen one was positive before it repaid.\<close>

lemma step_low:
  assumes d: "distinct cs" and ne: "cs \<noteq> []" and pos: "\<forall>p \<in> set cs. 0 < wt p"
    and sum: "(\<Sum>p \<in> set cs. v p) = 0" and low: "\<forall>p \<in> set cs. - int (total_weight wt cs) < v p" and p: "p \<in> set cs"
  shows "- int (total_weight wt cs) < step cs wt v p"
proof (cases "p = pick cs wt v")
  case False
  then show ?thesis using p low by (simp add: choice_step_def) (smt (verit, best) of_nat_0_le_iff)
next
  case True
  have "0 < v p + int (wt p)"
  proof (rule ccontr)
    assume "\<not> 0 < v p + int (wt p)"
    then have "\<forall>q \<in> set cs. v q + int (wt q) \<le> 0" using pick_max [OF pos, of _ v] True by fastforce
    then have "(\<Sum>q \<in> set cs. v q + int (wt q)) \<le> 0" by (intro sum_nonpos) blast
    moreover have "0 < (\<Sum>q \<in> set cs. int (wt q))" using ne pos by (intro sum_pos) auto
    ultimately show False using sum by (simp add: sum.distrib)
  qed
  then show ?thesis using p True by (simp add: choice_step_def)
qed

lemma run_law:
  assumes d: "distinct cs" and ne: "cs \<noteq> []" and pos: "\<forall>p \<in> set cs. 0 < wt p"
    and "(\<Sum>p \<in> set cs. v p) = 0" "\<forall>p \<in> set cs. - int (total_weight wt cs) < v p" "run cs wt n v = (ps, v')"
  shows "length ps = n \<and> set ps \<subseteq> set cs \<and> (\<Sum>p \<in> set cs. v' p) = 0
    \<and> (\<forall>p \<in> set cs. - int (total_weight wt cs) < v' p
        \<and> int (count_list ps p) * int (total_weight wt cs) = int n * int (wt p) + v p - v' p)"
  using assms(4-)
proof (induction n arbitrary: v ps)
  case 0
  then show ?case by auto
next
  case (Suc n)
  let ?v = "step cs wt v" and ?W = "int (total_weight wt cs)"
  obtain qs where qs: "run cs wt n ?v = (qs, v')" "ps = pick cs wt v # qs"
    using Suc.prems(3) by (auto split: prod.splits)
  have s: "(\<Sum>p \<in> set cs. ?v p) = 0" using step_sum [OF d ne pos] Suc.prems(1) by simp
  have l: "\<forall>p \<in> set cs. - ?W < ?v p" using step_low [OF d ne pos Suc.prems(1,2)] by blast
  note ih = Suc.IH [OF s l qs(1)]
  have "int (count_list ps p) * ?W = int (Suc n) * int (wt p) + v p - v' p" if "p \<in> set cs" for p
    using ih that by (auto simp: qs(2) choice_step_def algebra_simps)
  then show ?case using ih qs(2) pick_in [OF ne pos, of v] by auto
qed

text \<open>Exact shares: after a multiple of the total weight all values are zero again.\<close>

lemma run_exact:
  assumes d: "distinct cs" and ne: "cs \<noteq> []" and pos: "\<forall>p \<in> set cs. 0 < wt p"
    and zero: "\<forall>p \<in> set cs. v p = 0" and r: "run cs wt (k * total_weight wt cs) v = (ps, v')" and p: "p \<in> set cs"
  shows "count_list ps p = k * wt p \<and> v' p = 0"
proof -
  let ?W = "int (total_weight wt cs)"
  have W: "0 < ?W" using ne pos by (cases cs) (auto simp: total_weight_def)
  have s: "(\<Sum>p \<in> set cs. v p) = 0" and l: "\<forall>p \<in> set cs. - ?W < v p" using zero W by auto
  note law = run_law [OF d ne pos s l r]
  have eq: "v' q = (int k * int (wt q) - int (count_list ps q)) * ?W" if "q \<in> set cs" for q
    using law zero that by (simp add: algebra_simps)
  have nn: "0 \<le> v' q" if "q \<in> set cs" for q
  proof -
    have "- ?W < v' q" using law that by blast
    then have "- ?W < (int k * int (wt q) - int (count_list ps q)) * ?W" unfolding eq [OF that] .
    then have "(- 1) * ?W < (int k * int (wt q) - int (count_list ps q)) * ?W" by simp
    then have "- 1 < int k * int (wt q) - int (count_list ps q)" using W by (simp only: mult_less_cancel_right_pos)
    then show ?thesis using eq [OF that] W by simp
  qed
  have "v' p = 0" using law nn p sum_nonneg_eq_0_iff [of "set cs" v'] by auto
  moreover from this have "int (count_list ps p) = int k * int (wt p)" using eq [OF p] W by simp
  ultimately show ?thesis by (metis of_nat_eq_iff of_nat_mult)
qed

end

end
