(* ===== verification/Lb_Safety.thy ===== *)
theory Lb_Safety
  imports Lb Weighted_Choice
begin

section \<open>Shares and records of the load balancer\<close>

text \<open>
  The contract of \<open>sockets/internal/lb.cpp\<close>: the invariant of its state, that the choice it makes is a weighted one, so
  that every pipe gets exactly its share, and what happens to a record when a pipe goes away.
\<close>

subsection \<open>The choice\<close>

definition scan_pick :: "'p list \<Rightarrow> ('p \<Rightarrow> nat) \<Rightarrow> ('p \<Rightarrow> int) \<Rightarrow> 'p" where
  "scan_pick cs wt v =
     (case weighted_scan (\<lambda>p. Some \<lparr>pe_weight = wt p, pe_running_value = v p, pe_attach_seq = 0\<rparr>) cs (0, None) of
        Some (_, Some (p, _)) \<Rightarrow> p
      | _ \<Rightarrow> hd cs)"

text \<open>The scan only looks at weights and values.\<close>

definition same_view :: "('p \<rightharpoonup> pipe_entry) \<Rightarrow> ('p \<rightharpoonup> pipe_entry) \<Rightarrow> 'p list \<Rightarrow> bool" where
  "same_view E F ps \<longleftrightarrow>
     (\<forall>p \<in> set ps. map_option pe_weight (E p) = map_option pe_weight (F p) \<and> map_option pe_running_value (E p) = map_option pe_running_value (F p))"

lemma scan_cong: "same_view E F ps \<Longrightarrow> weighted_scan E ps acc = weighted_scan F ps acc"
proof (induction ps arbitrary: acc)
  case (Cons p ps)
  obtain t sel where acc: "acc = (t, sel)" by (rule prod.exhaust)
  have "same_view E F ps" using Cons.prems by (simp add: same_view_def)
  then show ?case using Cons.prems Cons.IH by (cases "E p"; cases "F p") (simp_all add: acc same_view_def Let_def)
qed simp

text \<open>With positive weights the scan ends with the sum of the weights and a largest value.\<close>

lemma scan_from:
  assumes "\<forall>p \<in> set ps. 0 < wt p" "x = v q + int (wt q)"
  shows "\<exists>q'. weighted_scan (\<lambda>p. Some \<lparr>pe_weight = wt p, pe_running_value = v p, pe_attach_seq = 0\<rparr>) ps (t, Some (q, x))
      = Some (t + total_weight wt ps, Some (q', v q' + int (wt q')))
    \<and> q' \<in> insert q (set ps) \<and> (\<forall>p \<in> insert q (set ps). v p + int (wt p) \<le> v q' + int (wt q'))"
  using assms
proof (induction ps arbitrary: q t x)
  case (Cons p ps)
  let ?E = "\<lambda>p. Some \<lparr>pe_weight = wt p, pe_running_value = v p, pe_attach_seq = 0\<rparr>" and ?y = "v p + int (wt p)"
  have pos: "\<forall>p \<in> set ps. 0 < wt p" using Cons.prems(1) by simp
  show ?case
  proof (cases "?y > x")
    case True
    from Cons.IH [OF pos, of ?y p "t + wt p"] True Cons.prems show ?thesis
      by (auto simp: total_weight_def add.assoc)
  next
    case False
    from Cons.IH [OF pos, of x q "t + wt p"] False Cons.prems show ?thesis
      by (auto simp: total_weight_def add.assoc)
  qed
qed (simp add: total_weight_def)

lemma scan_all:
  assumes "ps \<noteq> []" "\<forall>p \<in> set ps. 0 < wt p"
  shows "\<exists>q x. weighted_scan (\<lambda>p. Some \<lparr>pe_weight = wt p, pe_running_value = v p, pe_attach_seq = 0\<rparr>) ps (0, None)
      = Some (total_weight wt ps, Some (q, x))
    \<and> q \<in> set ps \<and> (\<forall>p \<in> set ps. v p + int (wt p) \<le> v q + int (wt q))"
proof -
  obtain p qs where p: "ps = p # qs" using assms(1) by (cases ps) auto
  have pos: "\<forall>p \<in> set qs. 0 < wt p" using assms(2) p by simp
  from scan_from [OF pos refl, where q = p and t = "wt p" and v = v] assms(2) show ?thesis by (auto simp: p total_weight_def)
qed

lemma scan_pick_law:
  assumes "ps \<noteq> []" "\<forall>p \<in> set ps. 0 < wt p"
  shows "scan_pick ps wt v \<in> set ps" "\<forall>p \<in> set ps. v p + int (wt p) \<le> v (scan_pick ps wt v) + int (wt (scan_pick ps wt v))"
  using scan_all [OF assms, of v] by (auto simp: scan_pick_def)

interpretation lbc: weighted_choice scan_pick
proof unfold_locales
  fix cs :: "'p list" and wt v
  show "cs \<noteq> [] \<Longrightarrow> \<forall>p \<in> set cs. 0 < wt p \<Longrightarrow> scan_pick cs wt v \<in> set cs" by (rule scan_pick_law)
  fix p
  assume "\<forall>p \<in> set cs. 0 < wt p" "p \<in> set cs"
  then show "v p + int (wt p) \<le> v (scan_pick cs wt v) + int (wt (scan_pick cs wt v))"
    using scan_pick_law(2) [of cs wt v] by (cases cs) auto
qed

subsection \<open>Invariant\<close>

abbreviation lb_items :: "'p lb \<Rightarrow> 'p list" where "lb_items s \<equiv> arr_items (lb_pipes s)"

definition lb_live :: "'p lb \<Rightarrow> 'p set" where "lb_live s = set (take (lb_active s) (lb_items s))"

definition lb_value :: "'p lb \<Rightarrow> 'p \<Rightarrow> int" where
  "lb_value s p = (case lb_entries s p of None \<Rightarrow> 0 | Some e \<Rightarrow> pe_running_value e)"

abbreviation lb_weights :: "'p lb \<Rightarrow> 'p \<Rightarrow> nat" where "lb_weights s \<equiv> \<lambda>p. lb_weight p s"

definition lb_ok :: "'p lb \<Rightarrow> bool" where
  "lb_ok s \<longleftrightarrow>
     arr_ok (lb_pipes s) \<and> lb_active s \<le> lb_size s \<and> (lb_current s < lb_active s \<or> lb_current s = 0)
     \<and> dom (lb_entries s) = set (lb_items s) \<and> (\<forall>p \<in> lb_live s. 0 < lb_weight p s)
     \<and> (\<not> lb_order_dirty s \<and> length (lb_ordered s) = lb_active s \<longrightarrow> distinct (lb_ordered s) \<and> set (lb_ordered s) = lb_live s)
     \<and> (lb_more s \<and> \<not> lb_dropping s \<longrightarrow> (\<exists>p \<in> set (lb_items s). lb_weighted_multipart_pipe s = Some p))"

lemma lb_init_ok: "lb_ok lb_init"
  by (simp add: lb_ok_def lb_init_def lb_live_def)

lemma lb_live_sub: "lb_live s \<subseteq> set (lb_items s)"
  by (auto simp: lb_live_def dest: in_set_takeD)

definition lb_candidates :: "('p, 'w) lb_ops \<Rightarrow> 'p lb \<Rightarrow> 'p list" where
  "lb_candidates ops s = lb_ordered (rebuild_selection_order ops s)"

lemma rebuild_ok:
  fixes ops :: "('p, 'w) lb_ops"
  assumes ok: "lb_ok s"
  defines "t \<equiv> rebuild_selection_order ops s"
  shows "t = s\<lparr>lb_ordered := lb_ordered t, lb_order_dirty := False\<rparr>" "distinct (lb_ordered t)" "set (lb_ordered t) = lb_live s"
    "length (lb_ordered t) = lb_active s"
proof -
  have d: "distinct (take (lb_active s) (lb_items s))" and le: "lb_active s \<le> lb_size s" using ok by (auto simp: lb_ok_def arr_ok_def)
  have all: "filter (\<lambda>p. lb_entries s p \<noteq> None) (take (lb_active s) (lb_items s)) = take (lb_active s) (lb_items s)"
    using ok by (intro filter_True) (auto simp: lb_ok_def dest!: in_set_takeD)
  consider (clean) "\<not> lb_order_dirty s" "length (lb_ordered s) = lb_active s" "t = s"
    | (built) "t = s\<lparr>lb_ordered := sort_key (candidate_key ops s) (take (lb_active s) (lb_items s)), lb_order_dirty := False\<rparr>"
    unfolding t_def rebuild_selection_order_def all by meson
  then have "t = s\<lparr>lb_ordered := lb_ordered t, lb_order_dirty := False\<rparr> \<and> distinct (lb_ordered t) \<and> set (lb_ordered t) = lb_live s
      \<and> length (lb_ordered t) = lb_active s"
  proof cases
    case clean
    then show ?thesis using ok by (cases s) (simp add: lb_ok_def)
  next
    case built
    then show ?thesis using d le by (simp add: lb_live_def)
  qed
  then show "t = s\<lparr>lb_ordered := lb_ordered t, lb_order_dirty := False\<rparr>" "distinct (lb_ordered t)" "set (lb_ordered t) = lb_live s"
    "length (lb_ordered t) = lb_active s" by blast+
qed

lemma rebuild_lb_ok: "lb_ok s \<Longrightarrow> lb_ok (rebuild_selection_order ops s)"
proof -
  assume ok: "lb_ok s"
  note r = rebuild_ok [OF ok, of ops]
  define o' where "o' = lb_ordered (rebuild_selection_order ops s)"
  have "lb_ok (s\<lparr>lb_ordered := o', lb_order_dirty := False\<rparr>)"
    using ok r(2-4) by (simp add: lb_ok_def lb_live_def lb_weight_def o'_def)
  then show ?thesis unfolding o'_def r(1) [symmetric] .
qed

subsection \<open>One choice\<close>

lemma fold_add_weight:
  "distinct cs \<Longrightarrow> fold add_weight cs E p =
     (if p \<in> set cs then map_option (\<lambda>e. e\<lparr>pe_running_value := pe_running_value e + int (pe_weight e)\<rparr>) (E p) else E p)"
  by (induction cs arbitrary: E) (auto simp: add_weight_def)

lemma lb_view: "same_view (lb_entries s) (\<lambda>p. Some \<lparr>pe_weight = lb_weight p s, pe_running_value = lb_value s p, pe_attach_seq = 0\<rparr>) cs"
  if "set cs \<subseteq> dom (lb_entries s)"
  using that by (auto simp: same_view_def lb_weight_def lb_value_def split: option.splits)

lemma select_ok:
  assumes "set (lb_ordered s) \<subseteq> dom (lb_entries s)" "lb_ordered s \<noteq> []" "\<forall>p \<in> set (lb_ordered s). 0 < lb_weight p s"
  shows "select_weighted_pipe s = Some (total_weight (lb_weights s) (lb_ordered s), Some (scan_pick (lb_ordered s) (lb_weights s) (lb_value s)))"
proof -
  let ?E = "\<lambda>p. Some \<lparr>pe_weight = lb_weight p s, pe_running_value = lb_value s p, pe_attach_seq = 0\<rparr>"
  have "weighted_scan (lb_entries s) (lb_ordered s) (0, None) = weighted_scan ?E (lb_ordered s) (0, None)"
    by (rule scan_cong [OF lb_view [OF assms(1)]])
  with scan_all [OF assms(2,3), of "lb_value s"] show ?thesis by (auto simp: select_weighted_pipe_def scan_pick_def)
qed

text \<open>What a committed choice leaves.\<close>

lemma commit_view:
  assumes "distinct (lb_ordered s)" "set (lb_ordered s) \<subseteq> dom (lb_entries s)" "p \<in> set (lb_ordered s)"
    "W = total_weight (lb_weights s) (lb_ordered s)" "p = scan_pick (lb_ordered s) (lb_weights s) (lb_value s)"
  defines "t \<equiv> commit_weighted_selection p W s"
  shows "lb_weights t = lb_weights s" "lb_value t = choice_step scan_pick (lb_ordered s) (lb_weights s) (lb_value s)"
    "dom (lb_entries t) = dom (lb_entries s)"
proof -
  let ?F = "fold add_weight (lb_ordered s) (lb_entries s)"
  have t: "lb_entries t = repay p W ?F" "t = s\<lparr>lb_entries := repay p W ?F\<rparr>" by (simp_all add: t_def commit_weighted_selection_def)
  note F = fold_add_weight [OF assms(1), of "lb_entries s"]
  show "lb_weights t = lb_weights s"
    by (rule ext) (simp add: lb_weight_def t(1) repay_def F split: option.splits)
  show "lb_value t = choice_step scan_pick (lb_ordered s) (lb_weights s) (lb_value s)"
  proof
    fix x
    have "lb_entries s x \<noteq> None" if "x \<in> set (lb_ordered s)" using assms(2) that by auto
    then show "lb_value t x = choice_step scan_pick (lb_ordered s) (lb_weights s) (lb_value s) x"
      using assms(3-5)
      by (auto simp: lb_value_def t(1) repay_def F choice_step_def lb_weight_def split: option.splits)
  qed
  show "dom (lb_entries t) = dom (lb_entries s)" by (auto simp: t(1) repay_def F dom_def split: if_splits)
qed

text \<open>Sending a message of one frame when every pipe accepts it.\<close>

definition accepts :: "('p, 'w) lb_ops \<Rightarrow> bool \<Rightarrow> msg \<Rightarrow> bool" where
  "accepts ops observer m \<longleftrightarrow> (\<forall>p w. fst (lo_write ops (write_mode observer m) p m w) = Written)"

definition idle :: "'p lb \<Rightarrow> bool" where
  "idle s \<longleftrightarrow> lb_ok s \<and> \<not> lb_more s \<and> \<not> lb_dropping s \<and> 0 < lb_active s \<and> lb_weighted_multipart_pipe s = None"

lemma idle_candidates:
  assumes "idle s"
  shows "lb_candidates ops s \<noteq> []" "distinct (lb_candidates ops s)" "set (lb_candidates ops s) = lb_live s"
    "\<forall>p \<in> set (lb_candidates ops s). 0 < lb_weight p s" "set (lb_candidates ops s) \<subseteq> dom (lb_entries s)"
proof -
  have ok: "lb_ok s" "0 < lb_active s" using assms by (auto simp: idle_def)
  note r = rebuild_ok [OF ok(1), of ops]
  show "lb_candidates ops s \<noteq> []" using r(4) ok(2) by (auto simp: lb_candidates_def)
  show "distinct (lb_candidates ops s)" "set (lb_candidates ops s) = lb_live s" using r by (simp_all add: lb_candidates_def)
  then show "\<forall>p \<in> set (lb_candidates ops s). 0 < lb_weight p s" using ok(1) by (simp add: lb_ok_def)
  show "set (lb_candidates ops s) \<subseteq> dom (lb_entries s)" using r(3) ok(1) lb_live_sub [of s] by (simp add: lb_ok_def lb_candidates_def)
qed

lemma send_single:
  assumes i: "idle s" and one: "lb_active s = 1" and acc: "accepts ops observer m" and nm: "\<not> has_more m"
  defines "cs \<equiv> lb_candidates ops s"
  obtains w' where "sendpipe ops m observer s w = Some (Lb_sent (Some (scan_pick cs (lb_weights s) (lb_value s))), s, w')"
    "choice_step scan_pick cs (lb_weights s) (lb_value s) = lb_value s"
proof -
  have ok: "lb_ok s" "\<not> lb_more s" "\<not> lb_dropping s" "lb_weighted_multipart_pipe s = None" using i by (auto simp: idle_def)
  note c = idle_candidates [OF i, of ops, folded cs_def]
  let ?p = "lb_items s ! 0"
  have "0 < lb_size s" "lb_current s = 0" using ok(1) one by (auto simp: lb_ok_def)
  then have live: "lb_live s = {?p}" and g: "arr_get 0 (lb_pipes s) = Some ?p"
    using one by (auto simp: lb_live_def arr_get_def take_Suc_conv_app_nth)
  have len: "length cs = 1" using rebuild_ok(4) [OF ok(1), of ops] one by (simp add: cs_def lb_candidates_def)
  then obtain x where "cs = [x]" by (auto simp: length_Suc_conv)
  then have cs: "cs = [?p]" using c(3) live by simp
  then have pick: "scan_pick cs (lb_weights s) (lb_value s) = ?p" using lbc.pick_in [OF c(1,4)] by simp
  obtain w1 where w1: "lo_write ops (write_mode observer m) ?p m w = (Written, w1)" using acc unfolding accepts_def by (metis prod.collapse)
  have "lb_took ?p m s = s" using ok(2,4) nm by (simp add: lb_took_def)
  then have "sendpipe ops m observer s w = Some (Lb_sent (Some ?p), s, w1)"
    using ok one \<open>lb_current s = 0\<close> g w1 by (simp add: sendpipe_def)
  moreover have "choice_step scan_pick cs (lb_weights s) (lb_value s) = lb_value s"
    by (rule ext) (simp add: choice_step_def pick, simp add: cs total_weight_def)
  ultimately show thesis using that pick by simp
qed

lemma send_chosen:
  assumes i: "idle s" and many: "lb_active s \<noteq> 1" and acc: "accepts ops observer m" and nm: "\<not> has_more m"
  defines "cs \<equiv> lb_candidates ops s"
  obtains s' w' where "sendpipe ops m observer s w = Some (Lb_sent (Some (scan_pick cs (lb_weights s) (lb_value s))), s', w')"
    "idle s'" "lb_weights s' = lb_weights s" "lb_value s' = choice_step scan_pick cs (lb_weights s) (lb_value s)"
    "lb_candidates ops s' = cs" "lb_live s' = lb_live s"
proof -
  have ok: "lb_ok s" "\<not> lb_more s" "\<not> lb_dropping s" "0 < lb_active s" using i by (auto simp: idle_def)
  note c = idle_candidates [OF i, of ops, folded cs_def]
  let ?t = "rebuild_selection_order ops s"
  note r = rebuild_ok [OF ok(1), of ops]
  have ord: "lb_ordered ?t = cs" by (simp add: cs_def lb_candidates_def)
  have tq: "?t = s\<lparr>lb_ordered := cs, lb_order_dirty := False\<rparr>" using r(1) unfolding ord .
  let ?u = "?t\<lparr>lb_request_limited := []\<rparr>"
  have u: "lb_entries ?u = lb_entries s" "lb_ordered ?u = cs" "lb_active ?u = lb_active s" "lb_pipes ?u = lb_pipes s"
    "lb_weights ?u = lb_weights s" "lb_value ?u = lb_value s" "\<not> lb_more ?u" "\<not> lb_dropping ?u" "lb_current ?u = lb_current s"
    "lb_weighted_multipart_pipe ?u = None" "\<not> lb_order_dirty ?u"
    using tq ok i by (simp_all add: lb_weight_def lb_value_def fun_eq_iff idle_def)
  let ?p = "scan_pick cs (lb_weights s) (lb_value s)" and ?W = "total_weight (lb_weights s) cs"
  have sel: "select_weighted_pipe ?u = Some (?W, Some ?p)"
    using select_ok [of ?u] c u fun_cong [OF u(5)] by simp
  have pin: "?p \<in> set cs" using lbc.pick_in [OF c(1,4)] by simp
  obtain w1 where w1: "lo_write ops (write_mode observer m) ?p m w = (Written, w1)" using acc unfolding accepts_def by (metis prod.collapse)
  let ?v = "commit_weighted_selection ?p ?W ?u"
  have "distinct (lb_ordered ?u)" "set (lb_ordered ?u) \<subseteq> dom (lb_entries ?u)" "?p \<in> set (lb_ordered ?u)"
    "?W = total_weight (lb_weights ?u) (lb_ordered ?u)" "?p = scan_pick (lb_ordered ?u) (lb_weights ?u) (lb_value ?u)"
    using c pin u(1,2) by (simp_all only: u(2,5,6))
  note cv = commit_view [OF this]
  have v: "lb_weights ?v = lb_weights s" "lb_value ?v = choice_step scan_pick cs (lb_weights s) (lb_value s)" "dom (lb_entries ?v) = dom (lb_entries s)"
    using cv by (simp_all only: u(1,2,5,6))
  have lim: "lb_request_limited ?v = []" by (simp add: commit_weighted_selection_def)
  have res: "restore_request_limited_pipes ?v = Some ?v" using lim by (simp add: restore_request_limited_pipes_def)
  define s' where "s' = lb_took ?p m ?v"
  have s': "lb_pipes s' = lb_pipes s" "lb_active s' = lb_active s" "lb_current s' = lb_current s" "lb_entries s' = lb_entries ?v" "lb_ordered s' = cs"
    "\<not> lb_order_dirty s'" "\<not> lb_more s'" "\<not> lb_dropping s'" "lb_weighted_multipart_pipe s' = None"
    using nm u by (simp_all add: s'_def lb_took_def commit_weighted_selection_def)
  have "select_loop ops m observer Adm_ready ?u w = Some (Some (Lb_sent (Some ?p)), Adm_ready, s', w1)"
    using ok(4) sel w1 res u by (subst select_loop.simps) (simp add: s'_def)
  then have x: "sendpipe ops m observer s w = Some (Lb_sent (Some ?p), s', w1)"
    using ok many u(7,8) tq by (simp add: sendpipe_def send_first_def)
  have live: "lb_live s' = lb_live s" using s' by (simp add: lb_live_def)
  have wt: "lb_weights s' = lb_weights s" "lb_value s' = choice_step scan_pick cs (lb_weights s) (lb_value s)"
    using v s'(4) by (simp_all add: lb_weight_def lb_value_def fun_eq_iff)
  have len: "length cs = lb_active s" using r(4) ord by simp
  have "dom (lb_entries s') = dom (lb_entries s)" using v(3) s'(4) by simp
  then have i': "idle s'" using ok s'(1-3,5-9) live fun_cong [OF wt(1)] c len by (simp add: idle_def lb_ok_def)
  have "lb_candidates ops s' = cs" using s' len by (simp add: lb_candidates_def rebuild_selection_order_def)
  then show thesis by (rule that [OF x i' wt _ live])
qed

fun lb_send_many :: "('p, 'w) lb_ops \<Rightarrow> msg \<Rightarrow> bool \<Rightarrow> nat \<Rightarrow> 'p lb \<Rightarrow> 'w \<Rightarrow> ('p lb_rc list \<times> 'p lb \<times> 'w) option" where
  "lb_send_many ops m observer 0 s w = Some ([], s, w)"
| "lb_send_many ops m observer (Suc n) s w =
     do { (rc, s, w) \<leftarrow> sendpipe ops m observer s w; (rcs, s, w) \<leftarrow> lb_send_many ops m observer n s w; Some (rc # rcs, s, w) }"

lemma send_many_run:
  assumes acc: "accepts ops observer m" and nm: "\<not> has_more m" and i: "idle s"
  shows "\<exists>s' w'. lb_send_many ops m observer n s w
      = Some (map (Lb_sent \<circ> Some) (fst (choice_run scan_pick (lb_candidates ops s) (lb_weights s) n (lb_value s))), s', w')
    \<and> lb_value s' = snd (choice_run scan_pick (lb_candidates ops s) (lb_weights s) n (lb_value s)) \<and> idle s'"
  using i
proof (induction n arbitrary: s w)
  case (Suc n)
  let ?p = "scan_pick (lb_candidates ops s) (lb_weights s) (lb_value s)"
  obtain s1 w1 where s1: "sendpipe ops m observer s w = Some (Lb_sent (Some ?p), s1, w1)" "idle s1" "lb_weights s1 = lb_weights s"
    "lb_value s1 = choice_step scan_pick (lb_candidates ops s) (lb_weights s) (lb_value s)" "lb_candidates ops s1 = lb_candidates ops s"
  proof (cases "lb_active s = 1")
    case True
    obtain w' where "sendpipe ops m observer s w = Some (Lb_sent (Some ?p), s, w')"
      "choice_step scan_pick (lb_candidates ops s) (lb_weights s) (lb_value s) = lb_value s"
      by (rule send_single [OF Suc.prems True acc nm])
    then show thesis using that [of s w'] Suc.prems by simp
  next
    case False
    show thesis by (rule send_chosen [OF Suc.prems False acc nm]) (rule that)
  qed
  obtain s' w' where "lb_send_many ops m observer n s1 w1
      = Some (map (Lb_sent \<circ> Some) (fst (choice_run scan_pick (lb_candidates ops s1) (lb_weights s1) n (lb_value s1))), s', w')"
    "lb_value s' = snd (choice_run scan_pick (lb_candidates ops s1) (lb_weights s1) n (lb_value s1))" "idle s'"
    using Suc.IH [OF s1(2)] by blast
  then show ?case using s1 by (auto simp: Let_def split: prod.splits)
qed simp

subsection \<open>Every operation keeps the invariant\<close>

lemma lb_index_live:
  assumes "lb_ok s" "p \<in> set (lb_items s)"
  shows "arr_index p (lb_pipes s) < lb_active s \<longleftrightarrow> p \<in> lb_live s" "lb_items s ! arr_index p (lb_pipes s) = p"
    "arr_index p (lb_pipes s) < lb_size s"
  using assms pa.index_in_prefix [of "lb_pipes s" p "lb_active s"] pa.index_law [of "lb_pipes s" p]
  by (auto simp: lb_ok_def lb_live_def)

text \<open>After any change of the active part the order counts as stale.\<close>

lemma lb_ok_dirty:
  assumes "lb_ok s" "arr_ok a" "set (arr_items a) = set (lb_items s)" "n \<le> arr_size a" "cur < n \<or> cur = 0"
    "\<forall>p \<in> set (take n (arr_items a)). 0 < lb_weight p s"
  shows "lb_ok (mark_selection_dirty (s\<lparr>lb_pipes := a, lb_active := n, lb_current := cur\<rparr>))"
  using assms by (simp add: lb_ok_def mark_selection_dirty_def lb_live_def lb_weight_def)

lemma lb_enter_ok:
  assumes ok: "lb_ok s" and p: "p \<in> set (lb_items s)" "p \<notin> lb_live s" "0 < lb_weight p s"
  shows "\<exists>t. lb_enter (arr_index p (lb_pipes s)) s = Some t \<and> lb_ok t \<and> lb_live t = insert p (lb_live s) \<and> set (lb_items t) = set (lb_items s)"
proof -
  let ?i = "arr_index p (lb_pipes s)"
  have arr: "arr_ok (lb_pipes s)" "lb_current s < lb_active s \<or> lb_current s = 0" "\<forall>p \<in> lb_live s. 0 < lb_weight p s"
    using ok by (auto simp: lb_ok_def)
  have i: "lb_active s \<le> ?i" "?i < lb_size s" "lb_items s ! ?i = p" using lb_index_live [OF ok p(1)] p(2) by (auto simp: not_less [symmetric])
  obtain a where a: "arr_swap ?i (lb_active s) (lb_pipes s) = Some a" "arr_ok a" "set (arr_items a) = set (lb_items s)" "arr_size a = lb_size s"
      "set (take (Suc (lb_active s)) (arr_items a)) = insert p (lb_live s)"
    using pa.promote [OF arr(1) i(1,2)] i(3) by (auto simp: lb_live_def)
  let ?t = "mark_selection_dirty (s\<lparr>lb_pipes := a, lb_active := lb_active s + 1, lb_current := lb_current s\<rparr>)"
  have "lb_ok ?t" by (rule lb_ok_dirty [OF ok a(2,3)]) (use a i arr p in auto)
  moreover have "lb_enter ?i s = Some ?t" using a(1) by (simp add: lb_enter_def lb_swap_def mark_selection_dirty_def)
  moreover have "lb_live ?t = insert p (lb_live s)" using a(5) by (simp add: lb_live_def mark_selection_dirty_def)
  ultimately show ?thesis using a(3) by (simp add: mark_selection_dirty_def)
qed

lemma lb_activated_ok:
  assumes ok: "lb_ok s" and p: "p \<in> set (lb_items s)"
  shows "\<exists>t. lb_activated p s = Some t \<and> lb_ok t \<and> set (lb_items t) = set (lb_items s)
    \<and> lb_live t = (if 0 < lb_weight p s then insert p (lb_live s) else lb_live s)"
proof -
  have "p \<in> dom (lb_entries s)" using ok p by (simp add: lb_ok_def)
  then obtain e where e: "lb_entries s p = Some e" by blast
  consider "pe_weight e = 0" | "pe_weight e \<noteq> 0" "p \<in> lb_live s" | "pe_weight e \<noteq> 0" "p \<notin> lb_live s" by blast
  then show ?thesis
  proof cases
    case 3
    then have "0 < lb_weight p s" using e by (simp add: lb_weight_def)
    then show ?thesis using lb_enter_ok [OF ok p 3(2)] 3 e lb_index_live [OF ok p] by (auto simp: lb_activated_def)
  qed (use ok e lb_index_live [OF ok p] in \<open>auto simp: lb_activated_def lb_weight_def\<close>)
qed

lemma lb_attach_ok:
  assumes ok: "lb_ok s" and p: "p \<notin> set (lb_items s)"
  shows "\<exists>t. lb_attach p weight s = Some t \<and> lb_ok t \<and> set (lb_items t) = insert p (set (lb_items s))
    \<and> lb_live t = (if 0 < weight then insert p (lb_live s) else lb_live s)"
proof -
  let ?e = "\<lparr>pe_weight = min weight max_peer_weight, pe_running_value = 0, pe_attach_seq = lb_attach_seq s\<rparr>"
  let ?s = "mark_selection_dirty (s\<lparr>lb_pipes := arr_push_back p (lb_pipes s), lb_entries := (lb_entries s)(p \<mapsto> ?e), lb_attach_seq := lb_attach_seq s + 1\<rparr>)"
  have arr: "arr_ok (lb_pipes s)" "lb_active s \<le> lb_size s" using ok by (auto simp: lb_ok_def)
  have live: "lb_live ?s = lb_live s" using arr(2) by (simp add: lb_live_def mark_selection_dirty_def)
  have "p \<notin> lb_live s" using p lb_live_sub [of s] by blast
  then have "\<forall>q \<in> lb_live ?s. 0 < lb_weight q ?s" using ok live by (auto simp: lb_ok_def lb_weight_def mark_selection_dirty_def)
  then have ok': "lb_ok ?s" using ok arr_push_back_ok [OF arr(1) p] live by (auto simp: lb_ok_def mark_selection_dirty_def)
  have "lb_weight p ?s = min weight max_peer_weight" by (simp add: lb_weight_def mark_selection_dirty_def)
  then show ?thesis using lb_activated_ok [OF ok', of p] live by (auto simp: lb_attach_def Let_def mark_selection_dirty_def max_peer_weight_def)
qed

lemma lb_leave_swap:
  assumes ok: "lb_ok s" and i: "i < lb_active s"
  obtains a where "arr_swap i (lb_active s - 1) (lb_pipes s) = Some a" "arr_ok a" "set (arr_items a) = set (lb_items s)" "arr_size a = lb_size s"
    "set (take (lb_active s - 1) (arr_items a)) = lb_live s - {lb_items s ! i}" "arr_index (lb_items s ! i) a = lb_active s - 1"
proof -
  have arr: "arr_ok (lb_pipes s)" "lb_active s \<le> lb_size s" using ok by (auto simp: lb_ok_def)
  obtain a where a: "arr_swap i (lb_active s - 1) (lb_pipes s) = Some a" "arr_ok a" "set (arr_items a) = set (lb_items s)" "arr_size a = lb_size s"
      "set (take (lb_active s - 1) (arr_items a)) = lb_live s - {lb_items s ! i}" "arr_items a ! (lb_active s - 1) = lb_items s ! i"
    using pa.demote [OF arr(1) i arr(2)] by (auto simp: lb_live_def)
  have "arr_index (lb_items s ! i) a = lb_active s - 1" using pa.index_nth [OF a(2), of "lb_active s - 1"] a(4,6) arr(2) i by simp
  then show thesis using that a by blast
qed

lemma lb_deactivate_at_ok:
  assumes ok: "lb_ok s"
  shows "\<exists>t. lb_deactivate_at i s = Some t \<and> lb_ok t \<and> set (lb_items t) = set (lb_items s)
    \<and> lb_live t = (if i < lb_active s then lb_live s - {lb_items s ! i} else lb_live s)
    \<and> lb_active t = (if i < lb_active s then lb_active s - 1 else lb_active s)"
proof (cases "i < lb_active s")
  case False
  then show ?thesis using ok by (simp add: lb_deactivate_at_def)
next
  case True
  obtain a where a: "arr_swap i (lb_active s - 1) (lb_pipes s) = Some a" "arr_ok a" "set (arr_items a) = set (lb_items s)" "arr_size a = lb_size s"
    "set (take (lb_active s - 1) (arr_items a)) = lb_live s - {lb_items s ! i}"
    by (rule lb_leave_swap [OF ok True])
  define cur where "cur = (if lb_current s = lb_active s - 1 then 0
    else if lb_current s > i \<and> lb_current s \<le> lb_active s - 1 then lb_current s - 1 else lb_current s)"
  let ?t = "mark_selection_dirty (s\<lparr>lb_pipes := a, lb_active := lb_active s - 1, lb_current := cur\<rparr>)"
  have "lb_ok ?t" by (rule lb_ok_dirty [OF ok a(2,3)]) (use a ok True in \<open>auto simp: lb_ok_def cur_def\<close>)
  moreover have "lb_deactivate_at i s = Some ?t"
    using True a(1) by (auto simp: lb_deactivate_at_def lb_swap_def mark_selection_dirty_def cur_def Let_def)
  moreover have "lb_live ?t = lb_live s - {lb_items s ! i}" using a(5) by (simp add: lb_live_def mark_selection_dirty_def)
  ultimately show ?thesis using a(3) True by (simp add: mark_selection_dirty_def)
qed

text \<open>A terminated pipe is gone from the array and from the entries; the record pinned to it is cut.\<close>

lemma lb_pipe_terminated_ok:
  assumes ok: "lb_ok s" and p: "p \<in> set (lb_items s)"
  defines "i \<equiv> arr_index p (lb_pipes s)" and "mine \<equiv> lb_weighted_multipart_pipe s = Some p \<and> lb_more s"
  shows "\<exists>t. lb_pipe_terminated p s = Some t \<and> lb_ok t \<and> set (lb_items t) = set (lb_items s) - {p} \<and> lb_live t = lb_live s - {p}
    \<and> lb_more t = lb_more s \<and> lb_dropping t = (lb_dropping s \<or> i = lb_current s \<and> lb_more s \<or> mine)
    \<and> lb_weighted_multipart_pipe t = (if mine then None else lb_weighted_multipart_pipe s)"
proof -
  define d where "d = (lb_dropping s \<or> i = lb_current s \<and> lb_more s \<or> mine)"
  define pin where "pin = (if mine then None else lb_weighted_multipart_pipe s)"
  let ?s = "s\<lparr>lb_dropping := d, lb_weighted_multipart_pipe := pin\<rparr>"
  have arr: "arr_ok (lb_pipes s)" "lb_active s \<le> lb_size s" "lb_current s < lb_active s \<or> lb_current s = 0" using ok by (auto simp: lb_ok_def)
  note ip = lb_index_live [OF ok p, folded i_def]
  obtain a n cur where leave: "lb_leave i ?s
        = Some (?s\<lparr>lb_pipes := a, lb_active := n, lb_current := cur, lb_order_dirty := (i < lb_active s \<or> lb_order_dirty s)\<rparr>)"
    and a: "arr_ok a" "set (arr_items a) = set (lb_items s)" "arr_size a = lb_size s" "set (take n (arr_items a)) = lb_live s - {p}"
      "n \<le> arr_index p a" "cur < n \<or> cur = 0" "n \<le> lb_size s - 1"
  proof (cases "i < lb_active s")
    case True
    obtain a where a: "arr_swap i (lb_active s - 1) (lb_pipes s) = Some a" "arr_ok a" "set (arr_items a) = set (lb_items s)" "arr_size a = lb_size s"
      "set (take (lb_active s - 1) (arr_items a)) = lb_live s - {lb_items s ! i}" "arr_index (lb_items s ! i) a = lb_active s - 1"
      by (rule lb_leave_swap [OF ok True])
    show thesis
      by (rule that [where a = a and n = "lb_active s - 1" and cur = "if lb_current s = lb_active s - 1 then 0 else lb_current s"])
        (use True a arr ip(2) in \<open>auto simp: lb_leave_def lb_swap_def mark_selection_dirty_def Let_def\<close>)
  next
    case False
    then have "p \<notin> lb_live s" using ip(1) by simp
    then show thesis
      by (intro that [where a = "lb_pipes s" and n = "lb_active s" and cur = "lb_current s"]) (use False arr ip in \<open>auto simp: lb_leave_def lb_live_def i_def [symmetric]\<close>)
  qed
  obtain b where b: "arr_erase p a = Some b" "arr_ok b" "set (arr_items b) = set (lb_items s) - {p}" "arr_size b = lb_size s - 1"
      "\<forall>m. m \<le> arr_index p a \<longrightarrow> take m (arr_items b) = take m (arr_items a)"
    using pa.erase_prefix [OF a(1), of p] a(2,3) p by auto
  let ?t = "mark_selection_dirty (?s\<lparr>lb_pipes := b, lb_active := n, lb_current := cur, lb_entries := (lb_entries s)(p := None)\<rparr>)"
  have eq: "lb_pipe_terminated p s = Some ?t"
  proof -
    have "drop_remainder p s = ?s" by (cases s) (auto simp: drop_remainder_def i_def d_def pin_def mine_def)
    then show ?thesis using p b(1) leave arr_contains_iff [OF arr(1), of p]
      by (simp add: lb_pipe_terminated_def i_def [symmetric] mark_selection_dirty_def)
  qed
  have live: "lb_live ?t = lb_live s - {p}" using a(4,5) b(5) by (simp add: lb_live_def mark_selection_dirty_def)
  have "\<forall>q \<in> lb_live ?t. 0 < lb_weight q ?t" using ok live by (auto simp: lb_ok_def lb_weight_def mark_selection_dirty_def)
  then have "lb_ok ?t" using ok a(6,7) b(2-4)
    by (auto simp: lb_ok_def mark_selection_dirty_def d_def pin_def mine_def)
  then show ?thesis using eq live b(3) by (simp add: mark_selection_dirty_def d_def pin_def)
qed

lemma lb_deactivate_ok:
  assumes "lb_ok s" "p \<in> lb_live s"
  shows "\<exists>t. lb_deactivate p s = Some t \<and> lb_ok t \<and> set (lb_items t) = set (lb_items s) \<and> lb_live t = lb_live s - {p} \<and> lb_active t < lb_active s"
proof -
  have p: "p \<in> set (lb_items s)" using assms(2) lb_live_sub [of s] by blast
  show ?thesis using lb_deactivate_at_ok [OF assms(1), of "arr_index p (lb_pipes s)"] lb_index_live [OF assms(1) p] assms(2)
    by (auto simp: lb_deactivate_def)
qed

text \<open>What moves within the array leaves the record alone.\<close>

definition same_record :: "'p lb \<Rightarrow> 'p lb \<Rightarrow> bool" where
  "same_record s t \<longleftrightarrow> lb_more t = lb_more s \<and> lb_dropping t = lb_dropping s \<and> lb_weighted_multipart_pipe t = lb_weighted_multipart_pipe s"

lemma same_record_refl [simp]: "same_record s s" by (simp add: same_record_def)

lemma same_record_trans: "same_record s t \<Longrightarrow> same_record t u \<Longrightarrow> same_record s u" by (simp add: same_record_def)

lemma lb_enter_record: "lb_enter i s = Some t \<Longrightarrow> same_record s t \<and> lb_request_limited t = lb_request_limited s"
  by (auto simp: lb_enter_def lb_swap_def mark_selection_dirty_def same_record_def bind_eq_Some_conv)

lemma lb_activated_record: "lb_activated p s = Some t \<Longrightarrow> same_record s t \<and> lb_request_limited t = lb_request_limited s"
  by (auto simp: lb_activated_def dest: lb_enter_record split: if_splits)

lemma lb_deactivate_record: "lb_deactivate_at i s = Some t \<Longrightarrow> same_record s t \<and> lb_request_limited t = lb_request_limited s"
  by (auto simp: lb_deactivate_at_def lb_swap_def mark_selection_dirty_def same_record_def bind_eq_Some_conv Let_def split: if_splits)

lemma restore_pipes_ok:
  assumes "lb_ok s" "set ps \<subseteq> set (lb_items s)"
  shows "\<exists>t. restore_pipes ps s = Some t \<and> lb_ok t \<and> set (lb_items t) = set (lb_items s) \<and> same_record s t"
  using assms
proof (induction ps arbitrary: s)
  case (Cons p ps)
  obtain t where t: "lb_activated p s = Some t" "lb_ok t" "set (lb_items t) = set (lb_items s)"
    using lb_activated_ok [of s p] Cons.prems by auto
  obtain u where u: "restore_pipes ps t = Some u" "lb_ok u" "set (lb_items u) = set (lb_items t)" "same_record t u"
    using Cons.IH [of t] t Cons.prems by auto
  have "same_record s u" using lb_activated_record [OF t(1)] u(4) same_record_trans by blast
  then show ?case using t u by simp
qed simp

lemma lb_ok_limited [simp]: "lb_ok (s\<lparr>lb_request_limited := ps\<rparr>) = lb_ok s"
  by (simp add: lb_ok_def lb_live_def lb_weight_def)

lemma restore_limited_ok:
  assumes "lb_ok s" "set (lb_request_limited s) \<subseteq> set (lb_items s)"
  shows "\<exists>t. restore_request_limited_pipes s = Some t \<and> lb_ok t \<and> set (lb_items t) = set (lb_items s) \<and> same_record s t"
  using restore_pipes_ok [OF assms] by (auto simp: restore_request_limited_pipes_def same_record_def)

lemma lb_took_ok: "lb_ok s \<Longrightarrow> p \<in> set (lb_items s) \<Longrightarrow> lb_ok (lb_took p m s)"
  by (simp add: lb_ok_def lb_took_def lb_live_def lb_weight_def)

lemma lb_cut_ok: "lb_ok s \<Longrightarrow> lb_ok (lb_cut m s)"
  by (simp add: lb_ok_def lb_cut_def lb_live_def lb_weight_def)

lemma commit_ok:
  assumes "lb_ok s" "distinct (lb_ordered s)"
  shows "lb_ok (commit_weighted_selection p sumw s)"
proof -
  let ?E = "repay p sumw (fold add_weight (lb_ordered s) (lb_entries s))"
  have "dom ?E = dom (lb_entries s)" by (auto simp: repay_def fold_add_weight [OF assms(2)] dom_def split: if_splits)
  moreover have "lb_weight q (s\<lparr>lb_entries := ?E\<rparr>) = lb_weight q s" for q
    by (simp add: lb_weight_def repay_def fold_add_weight [OF assms(2)] split: option.splits)
  ultimately show ?thesis using assms(1) by (simp add: lb_ok_def commit_weighted_selection_def lb_live_def)
qed

subsection \<open>Sending ends and keeps the invariant\<close>

lemma rebuild_fields:
  "lb_items (rebuild_selection_order ops s) = lb_items s" "lb_active (rebuild_selection_order ops s) = lb_active s"
  "lb_request_limited (rebuild_selection_order ops s) = lb_request_limited s" "same_record s (rebuild_selection_order ops s)"
  "lb_live (rebuild_selection_order ops s) = lb_live s"
  by (simp_all add: rebuild_selection_order_def same_record_def lb_live_def)

definition loop_ok :: "'p lb \<Rightarrow> bool" where
  "loop_ok s \<longleftrightarrow> lb_ok s \<and> distinct (lb_ordered s) \<and> set (lb_ordered s) = lb_live s \<and> set (lb_request_limited s) \<subseteq> set (lb_items s)"

lemma rebuild_loop_ok: "lb_ok s \<Longrightarrow> set (lb_request_limited s) \<subseteq> set (lb_items s) \<Longrightarrow> loop_ok (rebuild_selection_order ops s)"
  using rebuild_ok [of s ops] rebuild_lb_ok [of s ops] by (simp add: loop_ok_def rebuild_fields)

lemma loop_select:
  assumes "loop_ok s" "0 < lb_active s"
  obtains sumw p where "select_weighted_pipe s = Some (sumw, Some p)" "p \<in> lb_live s"
proof -
  have ok: "lb_ok s" "set (lb_ordered s) = lb_live s" using assms(1) by (auto simp: loop_ok_def)
  have "0 < lb_size s" using ok(1) assms(2) by (auto simp: lb_ok_def)
  then have "lb_live s \<noteq> {}" using assms(2) by (auto simp: lb_live_def)
  then have ne: "lb_ordered s \<noteq> []" using ok(2) by auto
  have pos: "\<forall>p \<in> set (lb_ordered s). 0 < lb_weight p s" "set (lb_ordered s) \<subseteq> dom (lb_entries s)"
    using ok lb_live_sub [of s] by (auto simp: lb_ok_def)
  show thesis using that select_ok [OF pos(2) ne pos(1)] lbc.pick_in [OF ne pos(1)] ok(2) by blast
qed

lemma select_loop_ok:
  assumes "loop_ok s"
  shows "\<exists>rc adm' t w'. select_loop ops m observer adm s w = Some (rc, adm', t, w') \<and> lb_ok t \<and> set (lb_items t) = set (lb_items s)
    \<and> set (lb_request_limited t) \<subseteq> set (lb_items t)"
  using assms
proof (induction "lb_active s" arbitrary: s adm w rule: less_induct)
  case less
  have ok: "lb_ok s" "distinct (lb_ordered s)" "set (lb_request_limited s) \<subseteq> set (lb_items s)" using less.prems by (auto simp: loop_ok_def)
  show ?case
  proof (cases "lb_active s = 0")
    case True
    then show ?thesis using ok by (subst select_loop.simps) simp
  next
    case False
    then obtain sumw p where sel: "select_weighted_pipe s = Some (sumw, Some p)" and p: "p \<in> lb_live s"
      using loop_select [OF less.prems] by auto
    have pin: "p \<in> set (lb_items s)" using p lb_live_sub [of s] by blast
    obtain r w1 where w1: "lo_write ops (write_mode observer m) p m w = (r, w1)" by (rule prod.exhaust)
    let ?c = "commit_weighted_selection p sumw s"
    obtain t where t: "restore_request_limited_pipes ?c = Some t" "lb_ok t" "set (lb_items t) = set (lb_items s)"
      using restore_limited_ok [OF commit_ok [OF ok(1,2)], of p sumw] ok(3) by (auto simp: commit_weighted_selection_def)
    obtain t' where t': "restore_request_limited_pipes s = Some t'" "lb_ok t'" "set (lb_items t') = set (lb_items s)"
      using restore_limited_ok [OF ok(1,3)] by auto
    have lim: "lb_request_limited t = []" "lb_request_limited t' = []" using t(1) t'(1) by (auto simp: restore_request_limited_pipes_def)
    show ?thesis
    proof (cases r)
      case Written
      then show ?thesis using False sel w1 t pin lim lb_took_ok [OF t(2), of p m] by (subst select_loop.simps) (simp add: lb_took_def)
    next
      case (Unwritten a e)
      show ?thesis
      proof (cases "cancelled observer a e \<or> a = Adm_too_large")
        case True
        then show ?thesis using False sel w1 Unwritten t' lim by (subst select_loop.simps) auto
      next
        case go: False
        let ?s = "if a = Adm_request_full then s\<lparr>lb_request_limited := lb_request_limited s @ [p]\<rparr> else s"
        have s1: "lb_ok ?s" "p \<in> lb_live ?s" "lb_items ?s = lb_items s" "lb_active ?s = lb_active s"
            "set (lb_request_limited ?s) \<subseteq> set (lb_items s)"
          using ok p pin by (auto simp: lb_live_def)
        obtain u where u: "lb_deactivate p ?s = Some u" "lb_ok u" "set (lb_items u) = set (lb_items s)" "lb_active u < lb_active s"
          using lb_deactivate_ok [OF s1(1,2)] s1(3,4) by auto
        have "lb_request_limited u = lb_request_limited ?s" using lb_deactivate_record u(1) unfolding lb_deactivate_def by blast
        then have "loop_ok (rebuild_selection_order ops u)" using rebuild_loop_ok [OF u(2)] s1(5) u(3) by simp
        moreover have "lb_active (rebuild_selection_order ops u) < lb_active s" "lb_items (rebuild_selection_order ops u) = lb_items u"
          using u(4) by (simp_all add: rebuild_fields)
        ultimately obtain rc adm' v w2 where
          "select_loop ops m observer (if a = Adm_hwm_full then Adm_hwm_full else adm) (rebuild_selection_order ops u) w1 = Some (rc, adm', v, w2)"
          "lb_ok v" "set (lb_items v) = set (lb_items s)" "set (lb_request_limited v) \<subseteq> set (lb_items v)"
          using less.hyps u(3) by metis
        then show ?thesis using False sel w1 Unwritten go u(1) by (subst select_loop.simps) (simp add: Let_def)
      qed
    qed
  qed
qed

lemma send_first_ok:
  assumes "lb_ok s" "distinct (lb_ordered s)" "set (lb_ordered s) = lb_live s"
  shows "\<exists>rc t w'. send_first ops m observer s w = Some (rc, t, w') \<and> lb_ok t \<and> set (lb_items t) = set (lb_items s)"
proof -
  have "loop_ok (s\<lparr>lb_request_limited := []\<rparr>)" using assms by (simp add: loop_ok_def lb_live_def)
  from select_loop_ok [OF this, of ops m observer Adm_ready w] obtain rc adm t w1 where
    l: "select_loop ops m observer Adm_ready (s\<lparr>lb_request_limited := []\<rparr>) w = Some (rc, adm, t, w1)" "lb_ok t"
      "set (lb_items t) = set (lb_items s)" "set (lb_request_limited t) \<subseteq> set (lb_items t)" by auto
  obtain u where "restore_request_limited_pipes t = Some u" "lb_ok u" "set (lb_items u) = set (lb_items t)"
    using restore_limited_ok [OF l(2,4)] by auto
  then show ?thesis using l by (cases rc) (auto simp: send_first_def Let_def split: prod.splits)
qed

lemma lb_current_get:
  assumes "lb_ok s" "0 < lb_active s"
  shows "arr_get (lb_current s) (lb_pipes s) = Some (lb_items s ! lb_current s)" "lb_items s ! lb_current s \<in> set (lb_items s)"
    "lb_current s < lb_active s"
proof -
  have "lb_current s < lb_active s" "lb_active s \<le> lb_size s" using assms by (auto simp: lb_ok_def)
  then show "arr_get (lb_current s) (lb_pipes s) = Some (lb_items s ! lb_current s)" "lb_items s ! lb_current s \<in> set (lb_items s)"
    "lb_current s < lb_active s" by (simp_all add: arr_get_def)
qed

lemma lb_refused_ok:
  assumes "lb_ok s"
  shows "\<exists>t. lb_deactivate_at i s = Some t \<and> lb_ok t \<and> set (lb_items t) = set (lb_items s)"
  using lb_deactivate_at_ok [OF assms, of i] by blast

text \<open>A pinned record makes the older path of continuation frames unreachable.\<close>

lemma sendpipe_ok:
  assumes ok: "lb_ok s"
  shows "\<exists>rc t w'. sendpipe ops m observer s w = Some (rc, t, w') \<and> lb_ok t \<and> set (lb_items t) = set (lb_items s)"
proof -
  consider (drop) "lb_dropping s" | (invalid) "\<not> lb_dropping s" "observer \<and> lb_more s \<and> has_more m"
    | (pinned) "\<not> lb_dropping s" "\<not> (observer \<and> lb_more s \<and> has_more m)" "lb_more s"
    | (single) "\<not> lb_dropping s" "\<not> lb_more s" "lb_active s = 1 \<and> lb_current s = 0"
    | (first) "\<not> lb_dropping s" "\<not> lb_more s" "\<not> (lb_active s = 1 \<and> lb_current s = 0)" by blast
  then show ?thesis
  proof cases
    case drop
    have "lb_ok (s\<lparr>lb_more := has_more m, lb_dropping := has_more m\<rparr>)" using ok by (simp add: lb_ok_def lb_live_def lb_weight_def)
    then show ?thesis using drop by (simp add: sendpipe_def)
  next
    case invalid
    then show ?thesis using ok by (simp add: sendpipe_def)
  next
    case pinned
    then obtain p where p: "lb_weighted_multipart_pipe s = Some p" "p \<in> set (lb_items s)" using ok by (auto simp: lb_ok_def)
    show ?thesis using pinned p lb_took_ok [OF ok p(2), of m] lb_cut_ok [OF ok, of m]
      by (cases "lo_write ops (write_mode observer m) p m w") (auto simp: sendpipe_def lb_took_def lb_cut_def split: write_result.splits)
  next
    case single
    let ?p = "lb_items s ! 0"
    have p: "arr_get 0 (lb_pipes s) = Some ?p" "?p \<in> set (lb_items s)" using lb_current_get [OF ok] single by auto
    obtain t where "lb_deactivate_at 0 s = Some t" "lb_ok t" "set (lb_items t) = set (lb_items s)" using lb_refused_ok [OF ok] by blast
    moreover obtain r w1 where "lo_write ops (write_mode observer m) ?p m w = (r, w1)" by (rule prod.exhaust)
    moreover have "lb_items (lb_took ?p m s) = lb_items s" by (simp add: lb_took_def)
    ultimately show ?thesis using single p lb_took_ok [OF ok p(2), of m] ok by (cases r) (simp_all add: sendpipe_def)
  next
    case first
    let ?s = "rebuild_selection_order ops s"
    have m: "\<not> lb_more ?s" using first rebuild_fields(4) [of s ops] by (simp add: same_record_def)
    have "set (lb_ordered ?s) = lb_live ?s" using rebuild_ok(3) [OF ok, of ops] by (simp only: rebuild_fields)
    from send_first_ok [OF rebuild_lb_ok [OF ok] rebuild_ok(2) [OF ok] this, of ops m observer w]
    obtain rc t w' where "send_first ops m observer ?s w = Some (rc, t, w')" "lb_ok t" "set (lb_items t) = set (lb_items s)"
      unfolding rebuild_fields by blast
    moreover have "sendpipe ops m observer s w = send_first ops m observer ?s w"
      using first m unfolding sendpipe_def Let_def by (simp only: if_False if_True simp_thms)
    ultimately show ?thesis by simp
  qed
qed

lemma sendpipe_to_ok:
  assumes ok: "lb_ok s"
  shows "\<exists>rc t w'. sendpipe_to ops p m observer s w = Some (rc, t, w') \<and> lb_ok t \<and> set (lb_items t) = set (lb_items s)"
proof (cases "lb_entries s p")
  case (Some e)
  then have p: "p \<in> set (lb_items s)" using ok by (auto simp: lb_ok_def)
  obtain t where "lb_deactivate p s = Some t" "lb_ok t" "set (lb_items t) = set (lb_items s)"
    using lb_refused_ok [OF ok] by (auto simp: lb_deactivate_def)
  then show ?thesis using Some ok lb_took_ok [OF ok p, of m]
    by (auto simp: sendpipe_to_def lb_took_def split: prod.splits write_result.splits)
qed (use ok in \<open>simp add: sendpipe_to_def\<close>)

text \<open>Moving a pipe does not look at the entries.\<close>

lemma lb_deactivate_entries:
  "lb_deactivate_at i (s\<lparr>lb_entries := E, lb_order_dirty := True\<rparr>)
     = map_option (\<lambda>t. t\<lparr>lb_entries := E, lb_order_dirty := True\<rparr>) (lb_deactivate_at i s)"
  by (cases "arr_swap i (lb_active s - 1) (lb_pipes s)") (simp_all add: lb_deactivate_at_def lb_swap_def mark_selection_dirty_def Let_def)

lemma lb_reweight_ok:
  assumes ok: "lb_ok s" and p: "p \<in> set (lb_items s)" "p \<notin> lb_live s \<or> 0 < pe_weight e"
  shows "lb_ok (s\<lparr>lb_entries := (lb_entries s)(p \<mapsto> e), lb_order_dirty := True\<rparr>)"
  using assms by (auto simp: lb_ok_def lb_live_def lb_weight_def)

lemma lb_set_weight_ok:
  assumes ok: "lb_ok s"
  shows "\<exists>t w'. lb_set_weight ops p weight s w = Some (t, w') \<and> lb_ok t \<and> set (lb_items t) = set (lb_items s)"
proof (cases "lb_entries s p")
  case None
  then show ?thesis using ok by (simp add: lb_set_weight_def)
next
  case (Some e)
  then have p: "p \<in> set (lb_items s)" using ok by (auto simp: lb_ok_def)
  define v where "v = min weight max_peer_weight"
  let ?e = "e\<lparr>pe_weight := v\<rparr>" and ?i = "arr_index p (lb_pipes s)"
  let ?s = "s\<lparr>lb_entries := (lb_entries s)(p \<mapsto> ?e), lb_order_dirty := True\<rparr>"
  note ip = lb_index_live [OF ok p]
  consider (same) "pe_weight e = v" | (zero) "pe_weight e \<noteq> v" "v = 0" | (inside) "pe_weight e \<noteq> v" "v \<noteq> 0" "?i < lb_active s"
    | (enter) "pe_weight e \<noteq> v" "v \<noteq> 0" "lb_active s \<le> ?i" by linarith
  then show ?thesis
  proof cases
    case same
    then show ?thesis using ok Some by (simp add: lb_set_weight_def v_def)
  next
    case zero
    obtain t where t: "lb_deactivate_at ?i s = Some t" "lb_ok t" "set (lb_items t) = set (lb_items s)" "lb_live t = lb_live s - {p}"
      using lb_deactivate_at_ok [OF ok, of ?i] ip by (auto split: if_splits)
    have E: "lb_entries t = lb_entries s"
      using t(1) by (auto simp: lb_deactivate_at_def lb_swap_def mark_selection_dirty_def bind_eq_Some_conv Let_def split: if_splits)
    then have "lb_ok (t\<lparr>lb_entries := (lb_entries s)(p \<mapsto> ?e), lb_order_dirty := True\<rparr>)"
      using lb_reweight_ok [OF t(2), of p ?e] p t(3,4) by simp
    then show ?thesis using zero Some t(1,3)
      by (simp add: lb_set_weight_def v_def [symmetric] mark_selection_dirty_def Let_def lb_deactivate_entries)
  next
    case inside
    then show ?thesis using Some lb_reweight_ok [OF ok p, of ?e] by (simp add: lb_set_weight_def v_def [symmetric] mark_selection_dirty_def Let_def)
  next
    case enter
    have ok': "lb_ok ?s" using lb_reweight_ok [OF ok p, of ?e] enter(2) by simp
    have "p \<notin> lb_live ?s" "0 < lb_weight p ?s" "p \<in> set (lb_items ?s)" using enter ip p by (auto simp: lb_live_def lb_weight_def)
    then obtain t where "lb_enter ?i ?s = Some t" "lb_ok t" "set (lb_items t) = set (lb_items s)" using lb_enter_ok [OF ok', of p] by auto
    then show ?thesis using enter Some ok' by (auto simp: lb_set_weight_def v_def [symmetric] mark_selection_dirty_def Let_def split: prod.splits bool.splits)
  qed
qed

lemma has_out_loop_ok:
  assumes "lb_ok s"
  shows "\<exists>b t w'. has_out_loop ops s w = Some (b, t, w') \<and> lb_ok t \<and> set (lb_items t) = set (lb_items s)"
  using assms
proof (induction "lb_active s" arbitrary: s w rule: less_induct)
  case less
  show ?case
  proof (cases "lb_active s = 0")
    case True
    then show ?thesis using less.prems by (subst has_out_loop.simps) (simp add: ex_bool_eq)
  next
    case False
    then have pos: "0 < lb_active s" by simp
    note c = lb_current_get [OF less.prems pos]
    obtain t where t: "lb_deactivate_at (lb_current s) s = Some t" "lb_ok t" "set (lb_items t) = set (lb_items s)" "lb_active t < lb_active s"
      using lb_deactivate_at_ok [OF less.prems, of "lb_current s"] c(3) by auto
    obtain ok w1 where w1: "lo_check_write ops (lb_items s ! lb_current s) w = (ok, w1)" by (rule prod.exhaust)
    show ?thesis using less.hyps [OF t(4,2), of w1] less.prems pos c(1) t(1,3) w1 by (subst has_out_loop.simps) auto
  qed
qed

lemma lb_has_out_ok:
  assumes ok: "lb_ok s"
  shows "\<exists>b t w'. lb_has_out ops s w = Some (b, t, w') \<and> lb_ok t \<and> set (lb_items t) = set (lb_items s)"
proof (cases "\<not> lb_more s \<and> lb_active s = 1 \<and> lb_current s = 0")
  case True
  obtain t where "lb_deactivate_at 0 s = Some t" "lb_ok t" "set (lb_items t) = set (lb_items s)" using lb_refused_ok [OF ok] by blast
  then show ?thesis using True lb_current_get [OF ok] ok by (auto simp: lb_has_out_def split: prod.splits bool.splits)
qed (use ok has_out_loop_ok [OF ok, of ops w] in \<open>auto simp: lb_has_out_def\<close>)

lemma lb_rollback_ok: "lb_ok s \<Longrightarrow> lb_ok (fst (lb_rollback ops s w))"
  by (simp add: lb_rollback_def lb_ok_def lb_live_def lb_weight_def)

end
