(* ===== verification/Lb_Contract.thy ===== *)
theory Lb_Contract
  imports Lb_Safety
begin

section \<open>What the load balancer promises\<close>

text \<open>
  The properties of \<open>sockets/internal/lb.cpp\<close> over the lemmas of \<open>Lb_Safety\<close>, with pipes that are plain lists
  of frames to run them on.
\<close>

subsection \<open>Pipes to run on\<close>

definition lb_frame :: "byte \<Rightarrow> bool \<Rightarrow> msg" where
  "lb_frame b unfinished = (msg_init :: msg)\<lparr>msg_data := [b], msg_flags := if unfinished then 1 else 0\<rparr>"

definition open_pipes :: "(nat, nat \<Rightarrow> msg list) lb_ops" where
  "open_pipes =
     \<lparr>lo_write = (\<lambda>kind p m w. (Written, w(p := w p @ [m]))), lo_rollback = (\<lambda>p w. w(p := butlast (w p))),
      lo_check_write = (\<lambda>p w. (True, w)), lo_admission = (\<lambda>p w. (Adm_ready, w)),
      lo_routing_id = (\<lambda>p. []), lo_endpoint = (\<lambda>p. []), lo_pair = (\<lambda>p. (0, 0))\<rparr>"

text \<open>Pipe 3 of weight 1 and pipe 4 of weight 2.\<close>

definition lb_demo :: "nat lb" where
  "lb_demo = the (do { s \<leftarrow> lb_attach 3 1 lb_init; lb_attach 4 2 s })"

text \<open>The first frame of a record is sent.\<close>

definition lb_begun :: "nat lb \<times> (nat \<Rightarrow> msg list)" where
  "lb_begun = snd (the (sendpipe open_pipes (lb_frame 1 True) False lb_demo (\<lambda>_. [])))"

text \<open>The other pipe goes away, the last frame of the record is sent, and then a message of one frame.\<close>

definition lb_spliced :: "nat lb_rc list \<times> msg list" where
  "lb_spliced = the (do {
     s \<leftarrow> lb_pipe_terminated 3 (fst lb_begun);
     (r1, s, w) \<leftarrow> sendpipe open_pipes (lb_frame 2 False) False s (snd lb_begun);
     (r2, s, w) \<leftarrow> sendpipe open_pipes (lb_frame 7 False) False s w;
     Some ([r1, r2], w 4) })"

lemma lb_demo_ok: "lb_ok lb_demo" "lb_live lb_demo = {3, 4}" "set (lb_items lb_demo) = {3, 4}"
proof -
  obtain s where s: "lb_attach 3 1 (lb_init :: nat lb) = Some s" "lb_ok s" "set (lb_items s) = {3}" "lb_live s = {3}"
    using lb_attach_ok [OF lb_init_ok, of 3 1] by (auto simp: lb_init_def lb_live_def)
  obtain t where t: "lb_attach 4 2 s = Some t" "lb_ok t" "set (lb_items t) = {3, 4}" "lb_live t = {3, 4}"
    using lb_attach_ok [OF s(2), of 4 2] s(3,4) by (auto simp: insert_commute)
  then show "lb_ok lb_demo" "lb_live lb_demo = {3, 4}" "set (lb_items lb_demo) = {3, 4}" using s(1) by (simp_all add: lb_demo_def)
qed

subsection \<open>Properties\<close>



text \<open>C30: A record is cut by a pipe that has nothing to do with it. While a record is pinned to one
  pipe, the end of another pipe that happens to be at the position \<open>_current\<close>, which weighted sends
  never move, makes the balancer drop the rest: the last frame is reported as sent although no pipe was
  written to, and the pinned pipe, still attached, is left with an unfinished record that nobody rolls
  back. The next message goes to whatever is chosen, in the worst case right behind the unfinished record.\<close>

theorem bystander_cuts_record:
  assumes ok: "lb_ok s" and more: "lb_more s" "\<not> lb_dropping s" and pin: "lb_weighted_multipart_pipe s = Some p"
    and q: "q \<in> set (lb_items s)" "q \<noteq> p" "arr_index q (lb_pipes s) = lb_current s" and last: "\<not> has_more m"
  shows "\<exists>s1 s2. lb_pipe_terminated q s = Some s1 \<and> p \<in> set (lb_items s1) \<and> lb_weighted_multipart_pipe s1 = Some p
    \<and> sendpipe ops m observer s1 w = Some (Lb_sent None, s2, w) \<and> \<not> lb_more s2 \<and> \<not> lb_dropping s2"
proof -
  obtain s1 where s1: "lb_pipe_terminated q s = Some s1" "set (lb_items s1) = set (lb_items s) - {q}" "lb_dropping s1"
      "lb_weighted_multipart_pipe s1 = Some p"
    using lb_pipe_terminated_ok [OF ok q(1)] more pin q by auto
  have "p \<in> set (lb_items s)" using ok more pin by (auto simp: lb_ok_def)
  then show ?thesis using s1 q(2) last by (auto simp: sendpipe_def)
qed

theorem bystander_cuts_record_witness:
  "lb_weighted_multipart_pipe (fst lb_begun) = Some 4
   \<and> (\<exists>s1 s2. lb_pipe_terminated 3 (fst lb_begun) = Some s1
        \<and> sendpipe open_pipes (lb_frame 2 False) False s1 (snd lb_begun) = Some (Lb_sent None, s2, snd lb_begun))
   \<and> lb_spliced = ([Lb_sent None, Lb_sent (Some 4)], [lb_frame 1 True, lb_frame 7 False])"
proof -
  have "(case lb_begun of (s, w) \<Rightarrow> lb_weighted_multipart_pipe s = Some 4 \<and> lb_more s \<and> \<not> lb_dropping s
      \<and> arr_index 3 (lb_pipes s) = lb_current s \<and> \<not> has_more (lb_frame 2 False) \<and> 3 \<in> set (lb_items s))" by code_simp
  then have f: "lb_weighted_multipart_pipe (fst lb_begun) = Some 4" "lb_more (fst lb_begun)" "\<not> lb_dropping (fst lb_begun)"
    "arr_index 3 (lb_pipes (fst lb_begun)) = lb_current (fst lb_begun)" "\<not> has_more (lb_frame 2 False)"
    "3 \<in> set (lb_items (fst lb_begun))" by (simp_all add: case_prod_unfold)
  obtain rc t w' where "sendpipe open_pipes (lb_frame 1 True) False lb_demo (\<lambda>_. []) = Some (rc, t, w')" "lb_ok t"
    using sendpipe_ok [OF lb_demo_ok(1), of open_pipes "lb_frame 1 True" False "\<lambda>_. []"] by blast
  then have ok: "lb_ok (fst lb_begun)" by (simp add: lb_begun_def)
  have "lb_spliced = ([Lb_sent None, Lb_sent (Some 4)], [lb_frame 1 True, lb_frame 7 False])" by code_simp
  then show ?thesis
    using bystander_cuts_record [OF ok f(2,3,1,6) _ f(4,5), of open_pipes False "snd lb_begun"] f(1) by auto
qed

end
