(* ===== verification/Trie_Apply.thy ===== *)
theory Trie_Apply
  imports Trie
begin

section \<open>Visiting all subscriptions\<close>

text \<open>
  Models \<open>trie_t::apply\<close> of \<open>utils/trie.cpp\<close>, the walk over all stored prefixes that a subscriber uses to repeat its
  subscriptions to a new peer. The code keeps a stack of cursors and one buffer for the current
  prefix; the calls of the callback are the list of prefixes it gets. A null pointer that would be followed
  is \<open>None\<close>.
\<close>

subsection \<open>The walk\<close>

definition t_slots :: "trie \<Rightarrow> trie option list" where
  "t_slots t = tb_next (t_table t)"

definition next_child :: "trie \<Rightarrow> nat \<Rightarrow> nat" where
  "next_child node child =
     (if length (t_slots node) > 1 then child + length (takeWhile (\<lambda>x. x = None) (drop child (t_slots node))) else child)"

text \<open>What is left to do at a cursor.\<close>

definition cursor_work :: "trie \<Rightarrow> nat \<Rightarrow> nat" where
  "cursor_work node child = Suc (size_list (size_option size) (drop child (t_slots node)))"

lemma size_slots: "size_list (size_option size) (t_slots t) < size t"
  by (cases t; cases "t_table t") (simp add: t_slots_def)

lemma size_list_drop: "size_list f (drop n xs) \<le> size_list f xs"
  by (induction xs arbitrary: n) (auto simp: drop_Cons' le_SucI trans_le_add2)

lemma work_child:
  assumes "i < length (t_slots node)" "t_slots node ! i = Some ch"
  shows "cursor_work node (Suc i) + cursor_work ch 0 < cursor_work node i"
  using assms size_slots [of ch] by (simp add: cursor_work_def Cons_nth_drop_Suc [symmetric])

lemma work_mono: "i \<le> j \<Longrightarrow> cursor_work node j \<le> cursor_work node i"
  using size_list_drop [of "size_option size" "j - i" "drop i (t_slots node)"] by (simp add: cursor_work_def)

lemma next_child_le: "child \<le> next_child node child"
  by (simp add: next_child_def)

function apply_loop :: "(trie \<times> nat \<times> nat) list \<Rightarrow> byte list \<Rightarrow> trie \<Rightarrow> nat \<Rightarrow> byte list list option" where
  "apply_loop parents pfx node child =
     (let called = (if child = 0 \<and> t_refcnt node \<noteq> 0 then [pfx] else []);
          i = next_child node child; count = length (t_slots node) in
      if i < count then
        (case t_slots node ! i of
           None \<Rightarrow> None
         | Some ch \<Rightarrow>
             map_option (\<lambda>ps. called @ ps)
               (apply_loop (if count > 1 \<and> i + 1 < count then (node, i + 1, length pfx) # parents else parents)
                 (pfx @ [of_nat (tb_min (t_table node) + i)]) ch 0))
      else
        (case parents of
           [] \<Rightarrow> Some called
         | (parent, c, depth) # rest \<Rightarrow> map_option (\<lambda>ps. called @ ps) (apply_loop rest (take depth pfx) parent c)))"
  by pat_completeness auto
termination
proof (relation "measure (\<lambda>(parents, pfx, node, child). sum_list (map (\<lambda>(n, c, _). cursor_work n c) parents) + cursor_work node child)",
    goal_cases)
  case (2 parents pfx node child called i count ch)
  then have "cursor_work node (Suc i) + cursor_work ch 0 < cursor_work node i" by (intro work_child) auto
  moreover have "cursor_work node i \<le> cursor_work node child" using 2(2) by (simp add: work_mono next_child_le)
  ultimately show ?case by simp
qed (auto simp: cursor_work_def)

declare apply_loop.simps [simp del]

definition trie_apply :: "trie \<Rightarrow> byte list list option" where
  "trie_apply t = apply_loop [] [] t 0"

definition tw_apply :: "trie_with_size \<Rightarrow> byte list list option" where
  "tw_apply s = trie_apply (tw_trie s)"

subsection \<open>The prefixes below a node\<close>

text \<open>By recursion: the prefixes stored below the children of a node, from the \<open>i\<close>-th on.\<close>

function keys_from :: "byte list \<Rightarrow> trie \<Rightarrow> nat \<Rightarrow> byte list list" where
  "keys_from pfx node i =
     (if i < length (t_slots node) then
        (case t_slots node ! i of
           None \<Rightarrow> []
         | Some ch \<Rightarrow>
             (let key = pfx @ [of_nat (tb_min (t_table node) + i)] in
              (if t_refcnt ch \<noteq> 0 then [key] else []) @ keys_from key ch 0))
        @ keys_from pfx node (Suc i)
      else [])"
  by pat_completeness auto
termination
proof (relation "measure (\<lambda>(pfx, node, i). cursor_work node i)", goal_cases)
  case (2 pfx node i ch key)
  then show ?case using work_child [of i node ch] by simp
next
  case (3 pfx node i)
  then show ?case by (simp add: cursor_work_def Cons_nth_drop_Suc [symmetric])
qed simp

declare keys_from.simps [simp del]

lemma keys_from_skip: "keys_from pfx node i = keys_from pfx node (next_child node i)" if "length (t_slots node) > 1"
proof (induction "length (takeWhile (\<lambda>x. x = None) (drop i (t_slots node)))" arbitrary: i)
  case 0
  then show ?case using that by (simp add: next_child_def)
next
  case (Suc n)
  then obtain xs where d: "drop i (t_slots node) = None # xs" by (cases "drop i (t_slots node)") (auto split: if_splits)
  then have i: "i < length (t_slots node)" "t_slots node ! i = None" "drop (Suc i) (t_slots node) = xs"
    by (metis length_drop length_greater_0_conv list.discI zero_less_diff, metis hd_drop_conv_nth list.sel(1) length_drop length_greater_0_conv list.discI zero_less_diff, metis drop_Suc list.sel(3) tl_drop)
  have "next_child node i = next_child node (Suc i)" using that d i(3) by (simp add: next_child_def)
  moreover have "keys_from pfx node i = keys_from pfx node (Suc i)" using i by (subst keys_from.simps) simp
  ultimately show ?case using Suc.hyps(1) [of "Suc i"] Suc.hyps(2) d i(3) by simp
qed

fun keys_stack :: "(trie \<times> nat \<times> nat) list \<Rightarrow> byte list \<Rightarrow> byte list list" where
  "keys_stack [] pfx = []"
| "keys_stack ((node, i, depth) # rest) pfx = keys_from (take depth pfx) node i @ keys_stack rest (take depth pfx)"

fun stack_ok :: "(trie \<times> nat \<times> nat) list \<Rightarrow> byte list \<Rightarrow> bool" where
  "stack_ok [] pfx \<longleftrightarrow> True"
| "stack_ok ((node, i, depth) # rest) pfx \<longleftrightarrow> trie_wf node \<and> 0 < i \<and> depth \<le> length pfx \<and> stack_ok rest (take depth pfx)"

lemma stack_deeper: "stack_ok parents pfx \<Longrightarrow> stack_ok parents (pfx @ [b]) \<and> keys_stack parents (pfx @ [b]) = keys_stack parents pfx"
  by (cases parents) auto

lemma keys_from_next: "keys_from pfx node i = keys_from pfx node (next_child node i)"
  using keys_from_skip [of node pfx i] by (cases "length (t_slots node) > 1") (auto simp: next_child_def)

lemma keys_from_end: "length (t_slots node) \<le> i \<Longrightarrow> keys_from pfx node i = []"
  by (subst keys_from.simps) simp

lemma next_child_live:
  assumes wf: "trie_wf node" and i: "next_child node child < length (t_slots node)"
  obtains ch where "t_slots node ! next_child node child = Some ch" "trie_wf ch"
proof -
  let ?i = "next_child node child" and ?nx = "t_slots node"
  have tb: "tb_ok (t_table node)" by (rule trie_wf_table [OF wf])
  have "?nx ! ?i \<noteq> None"
  proof (cases "length ?nx > 1")
    case True
    let ?d = "drop child ?nx"
    have "length (takeWhile (\<lambda>x. x = None) ?d) < length ?d" using i True by (simp add: next_child_def)
    from nth_length_takeWhile [OF this] show ?thesis using True i by (simp add: next_child_def)
  next
    case False
    then have "length ?nx = 1" "?i = 0" using i by (auto simp: next_child_def)
    then show ?thesis using tb by (auto simp: tb_ok_def t_slots_def tb_slot_def tb_in_range_def)
  qed
  then obtain ch where ch: "?nx ! ?i = Some ch" by blast
  have "tb_slot (tb_min (t_table node) + ?i) (t_table node) = Some ch"
    using i ch by (simp add: tb_slot_def tb_in_range_def t_slots_def)
  then show thesis using that ch trie_wf_slot [OF wf] by blast
qed

lemma apply_loop_keys:
  assumes "trie_wf node" "stack_ok parents pfx"
  shows "apply_loop parents pfx node child
    = Some ((if child = 0 \<and> t_refcnt node \<noteq> 0 then [pfx] else []) @ keys_from pfx node child @ keys_stack parents pfx)"
  using assms
proof (induction parents pfx node child rule: apply_loop.induct)
  case (1 parents pfx node child)
  let ?i = "next_child node child" and ?n = "length (t_slots node)"
  show ?case
  proof (cases "?i < ?n")
    case True
    then obtain ch where ch: "t_slots node ! ?i = Some ch" "trie_wf ch" by (rule next_child_live [OF 1(3)])
    let ?key = "pfx @ [of_nat (tb_min (t_table node) + ?i)]"
    let ?parents = "if ?n > 1 \<and> ?i + 1 < ?n then (node, ?i + 1, length pfx) # parents else parents"
    have st: "stack_ok ?parents ?key" using 1(3,4) stack_deeper [OF 1(4)] by simp
    have "keys_from pfx node child = (if t_refcnt ch \<noteq> 0 then [?key] else []) @ keys_from ?key ch 0 @ keys_from pfx node (Suc ?i)"
      unfolding keys_from_next [of pfx node child] by (subst keys_from.simps) (simp add: True ch(1) Let_def)
    moreover have "keys_stack ?parents ?key = keys_from pfx node (Suc ?i) @ keys_stack parents pfx"
      using stack_deeper [OF 1(4)] True by (auto simp: keys_from_end)
    ultimately show ?thesis using 1(1) [OF refl refl refl True ch(1) ch(2) st] True ch(1)
      by (subst apply_loop.simps) (simp add: Let_def)
  next
    case False
    then have k: "keys_from pfx node child = []" unfolding keys_from_next [of pfx node child] by (simp add: keys_from_end)
    show ?thesis
    proof (cases parents)
      case Nil
      then show ?thesis using False k by (subst apply_loop.simps) (simp add: Let_def)
    next
      case (Cons a rest)
      obtain parent c depth where a: "a = (parent, c, depth)" by (rule prod_cases3)
      have p: "trie_wf parent" "0 < c" "stack_ok rest (take depth pfx)" using 1(4) by (simp_all add: Cons a)
      show ?thesis using 1(2) [OF refl refl refl False Cons a [symmetric] refl p(1,3)] False k p(2) Cons a
        by (subst apply_loop.simps) (simp add: Let_def)
    qed
  qed
qed

text \<open>The prefixes below a node, by their occurrences.\<close>

lemma slot_byte_at:
  assumes "trie_wf node" "i < length (t_slots node)"
  shows "unat (of_nat (tb_min (t_table node) + i) :: byte) = tb_min (t_table node) + i"
    "t_slot (of_nat (tb_min (t_table node) + i)) node = t_slots node ! i"
proof -
  have b: "tb_min (t_table node) + i < 256"
    using trie_wf_table [OF assms(1)] assms(2) by (simp add: tb_ok_def t_slots_def)
  then show "unat (of_nat (tb_min (t_table node) + i) :: byte) = tb_min (t_table node) + i" by (intro unat_u8_of_nat) simp
  then show "t_slot (of_nat (tb_min (t_table node) + i)) node = t_slots node ! i"
    using assms(2) by (simp add: tb_slot_def tb_in_range_def t_slots_def)
qed

lemma slot_within: "t_slot c node = Some ch \<Longrightarrow> tb_min (t_table node) \<le> unat c \<and> unat c < tb_min (t_table node) + length (t_slots node)"
  by (auto simp: tb_slot_def tb_in_range_def t_slots_def split: if_splits)

lemma keys_from_set:
  assumes "trie_wf node"
  shows "k \<in> set (keys_from pfx node i)
    \<longleftrightarrow> (\<exists>c cs. k = pfx @ c # cs \<and> tb_min (t_table node) + i \<le> unat c \<and> 0 < trie_count (c # cs) node)"
  using assms
proof (induction pfx node i rule: keys_from.induct)
  case (1 pfx node i)
  let ?mn = "tb_min (t_table node)" and ?nx = "t_slots node"
  show ?case
  proof (cases "i < length ?nx")
    case False
    have "trie_count (c # cs) node = 0" if "?mn + i \<le> unat c" for c cs
      using slot_within [of c node] that False by (cases "t_slot c node") auto
    then show ?thesis using False by (auto simp: keys_from_end)
  next
    case True
    define b :: byte where "b = of_nat (?mn + i)"
    have b: "unat b = ?mn + i" "t_slot b node = ?nx ! i" using slot_byte_at [OF 1(3) True] by (simp_all add: b_def)
    have here: "k \<in> set (case ?nx ! i of None \<Rightarrow> [] | Some ch \<Rightarrow>
          (if t_refcnt ch \<noteq> 0 then [pfx @ [b]] else []) @ keys_from (pfx @ [b]) ch 0)
        \<longleftrightarrow> (\<exists>cs. k = pfx @ b # cs \<and> 0 < trie_count (b # cs) node)"
    proof (cases "?nx ! i")
      case None
      then show ?thesis using b(2) by simp
    next
      case (Some ch)
      have wf: "trie_wf ch" using trie_wf_slot [OF 1(3)] b(2) Some by auto
      have "0 < trie_count (c # cs) ch \<Longrightarrow> tb_min (t_table ch) \<le> unat c" for c cs
        using slot_within [of c ch] by (cases "t_slot c ch") auto
      then have "k \<in> set (keys_from (pfx @ [b]) ch 0) \<longleftrightarrow> (\<exists>c cs. k = pfx @ b # c # cs \<and> 0 < trie_count (c # cs) ch)"
        using 1(1) [OF True Some _ wf, of "pfx @ [b]"] by (auto simp: b_def)
      moreover have "(\<exists>cs. k = pfx @ b # cs \<and> 0 < trie_count cs ch)
          \<longleftrightarrow> (k = pfx @ [b] \<and> t_refcnt ch \<noteq> 0) \<or> (\<exists>c cs. k = pfx @ b # c # cs \<and> 0 < trie_count (c # cs) ch)"
        by (metis list.exhaust neq0_conv trie_count.simps(1))
      ultimately show ?thesis using Some b(2) by auto
    qed
    have rest: "k \<in> set (keys_from pfx node (Suc i))
        \<longleftrightarrow> (\<exists>c cs. k = pfx @ c # cs \<and> ?mn + Suc i \<le> unat c \<and> 0 < trie_count (c # cs) node)"
      by (rule 1(2) [OF True 1(3)])
    have le: "?mn + i \<le> unat c \<longleftrightarrow> c = b \<or> ?mn + Suc i \<le> unat c" for c
      using b(1) unat_byte_eq [of c b] by linarith
    have ex: "(\<exists>c cs. k = pfx @ c # cs \<and> ?mn + i \<le> unat c \<and> 0 < trie_count (c # cs) node)
        \<longleftrightarrow> (\<exists>cs. k = pfx @ b # cs \<and> 0 < trie_count (b # cs) node)
          \<or> (\<exists>c cs. k = pfx @ c # cs \<and> ?mn + Suc i \<le> unat c \<and> 0 < trie_count (c # cs) node)"
      unfolding le conj_disj_distribL conj_disj_distribR ex_disj_distrib by (simp add: conj_commute conj_left_commute del: trie_count.simps)
    have "keys_from pfx node i = (case ?nx ! i of None \<Rightarrow> [] | Some ch \<Rightarrow>
          (if t_refcnt ch \<noteq> 0 then [pfx @ [b]] else []) @ keys_from (pfx @ [b]) ch 0) @ keys_from pfx node (Suc i)"
      by (subst keys_from.simps) (simp add: True b_def Let_def split: option.split)
    then show ?thesis unfolding ex by (simp only: set_append Un_iff here rest)
  qed
qed

lemma keys_from_distinct: "trie_wf node \<Longrightarrow> distinct (keys_from pfx node i)"
proof (induction pfx node i rule: keys_from.induct)
  case (1 pfx node i)
  show ?case
  proof (cases "i < length (t_slots node)")
    case False
    then show ?thesis by (simp add: keys_from_end)
  next
    case True
    let ?b = "of_nat (tb_min (t_table node) + i) :: byte"
    note b = slot_byte_at [OF 1(3) True]
    have rest: "distinct (keys_from pfx node (Suc i))" by (rule 1(2) [OF True 1(3)])
    show ?thesis
    proof (cases "t_slots node ! i")
      case None
      then show ?thesis using True rest by (subst keys_from.simps) simp
    next
      case (Some ch)
      have wf: "trie_wf ch" using trie_wf_slot [OF 1(3)] b(2) Some by auto
      have "distinct (keys_from (pfx @ [?b]) ch 0)" by (rule 1(1) [OF True Some refl wf])
      moreover have "pfx @ [?b] \<notin> set (keys_from (pfx @ [?b]) ch 0)" by (simp add: keys_from_set [OF wf])
      moreover have "k \<notin> set (keys_from pfx node (Suc i))" if "k = pfx @ [?b] \<or> k \<in> set (keys_from (pfx @ [?b]) ch 0)" for k
        using that b(1) by (auto simp: keys_from_set [OF wf] keys_from_set [OF 1(3)])
      ultimately show ?thesis using True Some rest by (subst keys_from.simps) (auto simp: Let_def)
    qed
  qed
qed

text \<open>The callback is called exactly once for every stored prefix.\<close>

lemma trie_apply_exact:
  assumes "trie_wf t"
  shows "\<exists>ks. trie_apply t = Some ks \<and> distinct ks \<and> set ks = {k. 0 < trie_count k t}"
proof -
  let ?ks = "(if t_refcnt t \<noteq> 0 then [[]] else []) @ keys_from [] t 0"
  have "trie_apply t = Some ?ks" using apply_loop_keys [OF assms, of "[]" "[]" 0] by (simp add: trie_apply_def)
  moreover have "distinct ?ks" using keys_from_distinct [OF assms, of "[]" 0] by (auto simp: keys_from_set [OF assms])
  moreover have "k \<in> set ?ks \<longleftrightarrow> 0 < trie_count k t" for k
    using slot_within [of "hd k" t] by (cases k) (auto simp: keys_from_set [OF assms] split: option.splits)
  ultimately show ?thesis by blast
qed

end
