(* ===== verification/Xsub.thy ===== *)
theory Xsub
  imports Dist_Safety Fq_Safety Trie_Apply
begin

section \<open>The subscriber socket\<close>

text \<open>
  Models \<open>sockets/pubsub/xsub.cpp\<close> and \<open>sub.cpp\<close>: messages come in through the fair queue and are filtered by the
  subscriptions, which go out through the distributor and are repeated to every new peer. What a pipe
  does is a parameter (\<open>xsub_ops\<close>); a violated assertion, or a loop that does not end, is \<open>None\<close>. The buffered message
  \<open>_message\<close> is only read while \<open>_has_message\<close> is set: the two fields are one optional message.
\<close>

subsection \<open>State\<close>

record 'p xsub =
  xs_filter :: bool
  xs_invert_matching :: bool
  xs_fq :: "'p fq"
  xs_dist :: "'p dist"
  xs_subscriptions :: trie_with_size
  xs_verbose_unsubs :: bool
  xs_message :: "msg option"
  xs_more_send :: bool
  xs_more_recv :: bool
  xs_recv_part_index :: nat
  xs_recv_protocol_error_pending :: bool
  xs_process_subscribe :: bool
  xs_has_empty_subscription :: bool

text \<open>Reading a pipe, holding it alive, ending it, and writing a subscription to it.\<close>

record ('p, 'w) xsub_ops =
  so_fq :: "('p, 'w) fq_ops"
  so_retain :: "'p \<Rightarrow> 'w \<Rightarrow> bool \<times> 'w"
  so_release :: "'p \<Rightarrow> 'w \<Rightarrow> 'w"
  so_terminate :: "'p \<Rightarrow> 'w \<Rightarrow> 'w"
  so_write :: "'p \<Rightarrow> msg \<Rightarrow> 'w \<Rightarrow> bool \<times> 'w"
  so_flush :: "'p \<Rightarrow> 'w \<Rightarrow> 'w"

text \<open>A SUB socket filters, an XSUB socket does not.\<close>

definition xsub_init :: "bool \<Rightarrow> bool \<Rightarrow> 'p xsub" where
  "xsub_init filtering invert =
     \<lparr>xs_filter = filtering, xs_invert_matching = invert, xs_fq = fq_init False, xs_dist = dist_init, xs_subscriptions = tw_empty,
      xs_verbose_unsubs = False, xs_message = None, xs_more_send = False, xs_more_recv = False, xs_recv_part_index = 0,
      xs_recv_protocol_error_pending = False, xs_process_subscribe = False, xs_has_empty_subscription = False\<rparr>"

subsection \<open>Pipes\<close>

definition snapshot_subscriptions :: "'p xsub \<Rightarrow> byte list list option" where
  "snapshot_subscriptions s = tw_apply (xs_subscriptions s)"

definition init_subscribe :: "byte list \<Rightarrow> msg" where
  "init_subscribe topic = set_flags f_subscribe (msg_init_buffer topic)"

text \<open>A subscription that does not fit into the pipe is dropped.\<close>

definition send_subscription :: "('p, 'w) xsub_ops \<Rightarrow> 'p \<Rightarrow> byte list \<Rightarrow> 'w \<Rightarrow> 'w" where
  "send_subscription ops p topic w = snd (so_write ops p (init_subscribe topic) w)"

definition xsub_hiccuped :: "('p, 'w) xsub_ops \<Rightarrow> 'p \<Rightarrow> 'p xsub \<Rightarrow> 'w \<Rightarrow> ('p xsub \<times> 'w) option" where
  "xsub_hiccuped ops p s w =
     do { topics \<leftarrow> snapshot_subscriptions s;
          Some (s, so_flush ops p (fold (send_subscription ops p) topics w)) }"

definition xsub_attach_pipe :: "('p, 'w) xsub_ops \<Rightarrow> 'p \<Rightarrow> 'p xsub \<Rightarrow> 'w \<Rightarrow> ('p xsub \<times> 'w) option" where
  "xsub_attach_pipe ops p s w =
     do { q \<leftarrow> fq_attach p (xs_fq s);
          let w = snd (fo_check_read (so_fq ops) p w);
          d \<leftarrow> dist_attach p (xs_dist s);
          topics \<leftarrow> snapshot_subscriptions s;
          Some (s\<lparr>xs_fq := q, xs_dist := d\<rparr>, so_flush ops p (fold (send_subscription ops p) topics w)) }"

definition xsub_read_activated :: "'p \<Rightarrow> 'p xsub \<Rightarrow> 'p xsub option" where
  "xsub_read_activated p s = map_option (\<lambda>q. s\<lparr>xs_fq := q\<rparr>) (fq_activated p (xs_fq s))"

definition xsub_write_activated :: "'p \<Rightarrow> 'p xsub \<Rightarrow> 'p xsub option" where
  "xsub_write_activated p s = map_option (\<lambda>d. s\<lparr>xs_dist := d\<rparr>) (dist_activated p (xs_dist s))"

definition xsub_pipe_terminated :: "'p \<Rightarrow> 'p xsub \<Rightarrow> 'p xsub option" where
  "xsub_pipe_terminated p s =
     do { q \<leftarrow> fq_pipe_terminated p (xs_fq s);
          d \<leftarrow> dist_pipe_terminated p (xs_dist s);
          Some (s\<lparr>xs_fq := q, xs_dist := d\<rparr>) }"

text \<open>\<open>TOPICS_COUNT\<close>, the only option that can be read; none can be set on an XSUB socket.\<close>

definition xsub_getsockopt :: "bool \<Rightarrow> 'p xsub \<Rightarrow> errno + u32" where
  "xsub_getsockopt topics_count s = (if topics_count then Inr (tw_num (xs_subscriptions s)) else Inl EINVAL)"

definition xsub_setsockopt :: "'p xsub \<Rightarrow> errno + 'p xsub" where
  "xsub_setsockopt s = Inl EINVAL"

subsection \<open>Sending\<close>

definition forward_upstream ::
    "nat \<Rightarrow> ('p, 'd) pipe_ops \<Rightarrow> hmsg \<Rightarrow> 'p xsub \<Rightarrow> heap \<times> 'd \<Rightarrow> (bool \<times> 'p xsub \<times> heap \<times> 'd) option" where
  "forward_upstream pool_max ops m s hw =
     map_option (\<lambda>(taken, d, hw). (taken, s\<lparr>xs_dist := d\<rparr>, hw)) (dist_send_to_all pool_max ops m (xs_dist s) hw)"

definition subscribe_topic :: "byte list \<Rightarrow> 'p xsub \<Rightarrow> 'p xsub" where
  "subscribe_topic topic s =
     (let s = s\<lparr>xs_subscriptions := snd (tw_add topic (xs_subscriptions s)), xs_process_subscribe := True\<rparr> in
      if topic = [] then s\<lparr>xs_has_empty_subscription := True\<rparr> else s)"

definition cancel_topic :: "byte list \<Rightarrow> 'p xsub \<Rightarrow> (bool \<times> 'p xsub) option" where
  "cancel_topic topic s =
     do { (rm_result, t) \<leftarrow> tw_rm topic (xs_subscriptions s);
          let s = s\<lparr>xs_subscriptions := t, xs_process_subscribe := True\<rparr>;
          Some (rm_result, if topic = [] \<and> rm_result then s\<lparr>xs_has_empty_subscription := False\<rparr> else s) }"

definition begin_part :: "hmsg \<Rightarrow> 'p xsub \<Rightarrow> 'p xsub" where
  "begin_part m s =
     (let first_part = \<not> xs_more_send s; s = s\<lparr>xs_more_send := has_more m\<rparr> in
      if first_part then s\<lparr>xs_process_subscribe := True\<rparr> else s)"

definition xsub_send ::
    "nat \<Rightarrow> ('p, 'd) pipe_ops \<Rightarrow> hmsg \<Rightarrow> 'p xsub \<Rightarrow> heap \<times> 'd \<Rightarrow> (bool \<times> 'p xsub \<times> heap \<times> 'd) option" where
  "xsub_send pool_max ops m s hw =
     do { data \<leftarrow> msg_bytes (fst hw) m;
          let first_part = \<not> xs_more_send s;
          let s = begin_part m s;
          if \<not> first_part \<and> \<not> xs_process_subscribe s then forward_upstream pool_max ops m s hw
          else if is_subscribe m \<or> (data \<noteq> [] \<and> hd data = 1) then
            forward_upstream pool_max ops m (subscribe_topic (if is_subscribe m then data else tl data) s) hw
          else if is_cancel m \<or> (data \<noteq> [] \<and> hd data = 0) then
            do { (rm_result, s) \<leftarrow> cancel_topic (if is_cancel m then data else tl data) s;
                 if rm_result \<or> xs_verbose_unsubs s then forward_upstream pool_max ops m s hw
                 else map_option (\<lambda>h. (True, s, h, snd hw)) (close_checked pool_max m (fst hw)) }
          else forward_upstream pool_max ops m s hw }"

definition xsub_has_out :: "'p xsub \<Rightarrow> bool" where "xsub_has_out s \<longleftrightarrow> True"

text \<open>The SUB socket: subscriptions are made by an option (\<open>True\<close>: \<open>SUBSCRIBE\<close>, \<open>False\<close>: \<open>UNSUBSCRIBE\<close>), sending is refused. \<open>a\<close>
  is the block allocated for the topic.\<close>

definition sub_setsockopt ::
    "nat \<Rightarrow> ('p, 'd) pipe_ops \<Rightarrow> bool option \<Rightarrow> byte list \<Rightarrow> addr option \<Rightarrow> 'p xsub \<Rightarrow> heap \<times> 'd \<Rightarrow> ((errno + bool) \<times> 'p xsub \<times> heap \<times> 'd) option" where
  "sub_setsockopt pool_max ops opt topic a s hw =
     (case opt of
        None \<Rightarrow> Some (Inl EINVAL, s, hw)
      | Some subscribe \<Rightarrow>
          (case init_size topic a (fst hw) of
             (Inl _, _) \<Rightarrow> None
           | (Inr m, h) \<Rightarrow>
               map_option (\<lambda>(taken, s, hw). (Inr taken, s, hw))
                 (xsub_send pool_max ops (set_flags (if subscribe then f_subscribe else f_cancel) m) s (h, snd hw))))"

definition sub_send :: "'p xsub \<Rightarrow> errno + 'p xsub" where "sub_send s = Inl ENOTSUP"

definition sub_has_out :: "'p xsub \<Rightarrow> bool" where "sub_has_out s \<longleftrightarrow> False"

subsection \<open>Receiving\<close>

definition xsub_match :: "msg \<Rightarrow> 'p xsub \<Rightarrow> bool" where
  "xsub_match m s =
     (if \<not> xs_invert_matching s \<and> xs_has_empty_subscription s then True
      else tw_check (msg_data m) (xs_subscriptions s) \<noteq> xs_invert_matching s)"

definition recvpipe :: "('p, 'w) xsub_ops \<Rightarrow> 'p xsub \<Rightarrow> 'w \<Rightarrow> ((errno + msg \<times> 'p) \<times> 'p xsub \<times> 'w) option" where
  "recvpipe ops s w =
     map_option (\<lambda>(r, q, w). (r, s\<lparr>xs_fq := q\<rparr>, w)) (recvpipe_internal (so_fq ops) True False (xs_fq s) w)"

definition carries_metadata :: "msg \<Rightarrow> bool" where
  "carries_metadata m \<longleftrightarrow> fst (get_request_reply_metadata m)"

definition end_record :: "'p xsub \<Rightarrow> 'p xsub" where
  "end_record s = s\<lparr>xs_more_recv := False, xs_recv_part_index := 0\<rparr>"

text \<open>Reading the rest of a record, remembering whether a frame was malformed and why reading stopped early.\<close>

partial_function (option) skip_rest ::
    "('p, 'w) xsub_ops \<Rightarrow> bool \<Rightarrow> bool \<Rightarrow> 'p xsub \<Rightarrow> 'w \<Rightarrow> (errno option \<times> bool \<times> 'p xsub \<times> 'w) option" where
  [code]: "skip_rest ops unfinished malformed s w =
     (if \<not> unfinished then Some (None, malformed, s, w)
      else
        do { (r, s, w) \<leftarrow> recvpipe ops s w;
             (case r of
                Inl e \<Rightarrow> Some (Some e, malformed, s, w)
              | Inr (m, _) \<Rightarrow> skip_rest ops (has_more m) (malformed \<or> carries_metadata m) s w) })"

definition end_pipe :: "('p, 'w) xsub_ops \<Rightarrow> 'p \<Rightarrow> bool \<Rightarrow> bool \<Rightarrow> 'w \<Rightarrow> 'w" where
  "end_pipe ops p retained malformed w =
     (let w = (if malformed \<and> retained then so_terminate ops p w else w) in if retained then so_release ops p w else w)"

definition discard_filtered_message ::
    "('p, 'w) xsub_ops \<Rightarrow> msg \<Rightarrow> 'p \<Rightarrow> 'p xsub \<Rightarrow> 'w \<Rightarrow> (errno option \<times> 'p xsub \<times> 'w) option" where
  "discard_filtered_message ops m p s w =
     (case so_retain ops p w of
        (retained, w) \<Rightarrow>
          do { (rc, malformed, s, w) \<leftarrow> skip_rest ops (has_more m) False s w;
               Some (if malformed then Some EPROTO else rc, s, end_pipe ops p retained malformed w) })"

text \<open>A frame of a record after the first that carries request metadata: the record is given up and its pipe ended.\<close>

definition reject_record ::
    "('p, 'w) xsub_ops \<Rightarrow> msg \<Rightarrow> 'p \<Rightarrow> 'p xsub \<Rightarrow> 'w \<Rightarrow> ('p xsub \<times> 'w) option" where
  "reject_record ops m p s w =
     (case so_retain ops p w of
        (retained, w) \<Rightarrow>
          do { (_, _, s, w) \<leftarrow> skip_rest ops (has_more m) False s w;
               Some (end_record s, end_pipe ops p retained True w) })"

definition expose :: "msg \<Rightarrow> 'p xsub \<Rightarrow> 'p xsub" where
  "expose m s =
     s\<lparr>xs_more_recv := has_more m,
       xs_recv_part_index := if has_more m then (if xs_more_recv s then xs_recv_part_index s else 0) + 1 else 0\<rparr>"

partial_function (option) xsub_recv_loop ::
    "('p, 'w) xsub_ops \<Rightarrow> nat \<Rightarrow> nat \<Rightarrow> 'p xsub \<Rightarrow> 'w \<Rightarrow> ((errno + msg) \<times> 'p xsub \<times> 'w) option" where
  [code]: "xsub_recv_loop ops budget skipped s w =
     do { let continuing = xs_more_recv s;
          (r, s, w) \<leftarrow> recvpipe ops s w;
          (case r of
             Inl e \<Rightarrow>
               if e = ECONNABORTED then
                 (if continuing then Some (Inl e, end_record s, w) else xsub_recv_loop ops budget skipped (end_record s) w)
               else Some (Inl e, s, w)
           | Inr (m, p) \<Rightarrow>
               if xs_more_recv s \<and> xs_recv_part_index s > 0 \<and> carries_metadata m then
                 map_option (\<lambda>(s, w). (Inl EPROTO, s, w)) (reject_record ops m p s w)
               else if xs_more_recv s \<or> \<not> xs_filter s \<or> xsub_match m s then
                 Some (Inr (if xs_more_recv s then m else reset_request_reply_metadata m), expose m s, w)
               else
                 do { (rc, s, w) \<leftarrow> discard_filtered_message ops m p s w;
                      (case rc of
                         Some e \<Rightarrow>
                           if e = ECONNABORTED then xsub_recv_loop ops budget skipped (end_record s) w else Some (Inl e, s, w)
                       | None \<Rightarrow>
                           if skipped + 1 \<ge> budget then Some (Inl EAGAIN, s, w)
                           else xsub_recv_loop ops budget (skipped + 1) s w) }) }"

definition xsub_recv :: "('p, 'w) xsub_ops \<Rightarrow> nat \<Rightarrow> 'p xsub \<Rightarrow> 'w \<Rightarrow> ((errno + msg) \<times> 'p xsub \<times> 'w) option" where
  "xsub_recv ops budget s w =
     (if xs_recv_protocol_error_pending s then Some (Inl EPROTO, s\<lparr>xs_recv_protocol_error_pending := False\<rparr>, w)
      else
        (case xs_message s of
           Some m \<Rightarrow>
             Some (Inr (reset_request_reply_metadata m),
                   s\<lparr>xs_message := None, xs_more_recv := has_more m, xs_recv_part_index := if has_more m then 1 else 0\<rparr>, w)
         | None \<Rightarrow> xsub_recv_loop ops budget 0 s w))"

partial_function (option) xsub_probe_loop ::
    "('p, 'w) xsub_ops \<Rightarrow> nat \<Rightarrow> nat \<Rightarrow> 'p xsub \<Rightarrow> 'w \<Rightarrow> (bool \<times> 'p xsub \<times> 'w) option" where
  [code]: "xsub_probe_loop ops budget skipped s w =
     do { (r, s, w) \<leftarrow> recvpipe ops s w;
          (case r of
             Inl e \<Rightarrow>
               if e = ECONNABORTED then xsub_probe_loop ops budget skipped (end_record s) w
               else if e = EAGAIN then Some (False, s, w) else None
           | Inr (m, p) \<Rightarrow>
               if \<not> xs_filter s \<or> xsub_match m s then Some (True, s\<lparr>xs_message := Some m\<rparr>, w)
               else
                 do { (rc, s, w) \<leftarrow> discard_filtered_message ops m p s w;
                      (case rc of
                         Some e \<Rightarrow>
                           if e = ECONNABORTED then xsub_probe_loop ops budget skipped (end_record s) w
                           else if e = EPROTO then Some (True, s\<lparr>xs_recv_protocol_error_pending := True\<rparr>, w)
                           else Some (False, s, w)
                       | None \<Rightarrow>
                           if skipped + 1 \<ge> budget then Some (False, s, w)
                           else xsub_probe_loop ops budget (skipped + 1) s w) }) }"

definition xsub_has_in :: "('p, 'w) xsub_ops \<Rightarrow> nat \<Rightarrow> 'p xsub \<Rightarrow> 'w \<Rightarrow> (bool \<times> 'p xsub \<times> 'w) option" where
  "xsub_has_in ops budget s w =
     (if xs_recv_protocol_error_pending s \<or> xs_more_recv s \<or> xs_message s \<noteq> None then Some (True, s, w)
      else xsub_probe_loop ops budget 0 s w)"

end
