(* ===== verification/Xsub_Safety.thy ===== *)
theory Xsub_Safety
  imports Xsub
begin

section \<open>Receiving and filtering\<close>

text \<open>
  The invariant of the subscriber socket of \<open>Xsub\<close>, that every operation keeps it, and that receiving ends:
  the loops of \<open>xrecv\<close> and \<open>xhas_in\<close> take a frame from a pipe in every turn.
\<close>

subsection \<open>Invariant\<close>

definition subscribed :: "'p xsub \<Rightarrow> byte list set" where
  "subscribed s = {k. 0 < trie_count k (tw_trie (xs_subscriptions s))}"

definition wanted :: "byte list \<Rightarrow> 'p xsub \<Rightarrow> bool" where
  "wanted data s \<longleftrightarrow> (\<exists>k \<in> subscribed s. prefix k data) \<noteq> xs_invert_matching s"

text \<open>The user has seen, or is about to see, a frame of a record that is not complete.\<close>

definition exposed :: "'p xsub \<Rightarrow> bool" where
  "exposed s \<longleftrightarrow> xs_more_recv s \<or> (case xs_message s of None \<Rightarrow> False | Some m \<Rightarrow> has_more m)"

definition subs_ok :: "'p xsub \<Rightarrow> bool" where
  "subs_ok s \<longleftrightarrow> tw_inv (xs_subscriptions s) \<and> (xs_has_empty_subscription s \<longleftrightarrow> [] \<in> subscribed s)
     \<and> (xs_more_send s \<longrightarrow> xs_process_subscribe s)"

definition xsub_ok :: "'p xsub \<Rightarrow> bool" where
  "xsub_ok s \<longleftrightarrow>
     subs_ok s \<and> fq_ok (xs_fq s) \<and> dist_ok (xs_dist s) \<and> fq_members (xs_fq s) = all_pipes (xs_dist s)
     \<and> (fq_more (xs_fq s) \<or> fq_multipart_abort_pending (xs_fq s) \<longleftrightarrow> exposed s)
     \<and> (xs_more_recv s \<longrightarrow> xs_message s = None \<and> 0 < xs_recv_part_index s)"

lemma xsub_init_ok: "xsub_ok (xsub_init filtering invert :: 'p xsub)"
proof -
  have "fq_members (fq_init False :: 'p fq) = {}" "\<not> fq_more (fq_init False :: 'p fq)" "\<not> fq_multipart_abort_pending (fq_init False :: 'p fq)"
    by (simp_all add: fq_init_def fq_members_def)
  moreover have "trie_count [] (tw_trie tw_empty) = 0" by (simp add: tw_empty_def)
  ultimately show ?thesis
    by (simp add: xsub_ok_def subs_ok_def xsub_init_def subscribed_def exposed_def fq_init_ok dist_init_ok sized_trie.inv_empty)
qed

lemma match_wanted:
  assumes "subs_ok s"
  shows "xsub_match m s \<longleftrightarrow> wanted (msg_data m) s"
proof -
  have "tw_check (msg_data m) (xs_subscriptions s) \<longleftrightarrow> (\<exists>k \<in> subscribed s. prefix k (msg_data m))"
    using sized_trie.check_law [of "xs_subscriptions s" "msg_data m"] assms by (auto simp: subs_ok_def subscribed_def)
  moreover have "xs_has_empty_subscription s \<Longrightarrow> \<exists>k \<in> subscribed s. prefix k (msg_data m)"
    using assms by (intro bexI [of _ "[]"]) (auto simp: subs_ok_def)
  ultimately show ?thesis by (auto simp: xsub_match_def wanted_def)
qed

text \<open>What the frames in the pipes and the calls on a pipe have to do with each other: reading takes a frame out, and
  the other calls bring none in.\<close>

definition takes_frames :: "('p, 'w) xsub_ops \<Rightarrow> ('w \<Rightarrow> nat) \<Rightarrow> bool" where
  "takes_frames ops backlog \<longleftrightarrow>
     (\<forall>p w m w'. fo_read (so_fq ops) p w = (m, w') \<longrightarrow> (if m = None then backlog w' \<le> backlog w else backlog w' < backlog w))
     \<and> (\<forall>p w. backlog (snd (so_retain ops p w)) \<le> backlog w \<and> backlog (so_release ops p w) \<le> backlog w
          \<and> backlog (so_terminate ops p w) \<le> backlog w)"

lemma takes_framesD:
  assumes "takes_frames ops backlog"
  shows "fo_read (so_fq ops) p w = (None, w') \<Longrightarrow> backlog w' \<le> backlog w" "fo_read (so_fq ops) p w = (Some m, w') \<Longrightarrow> backlog w' < backlog w"
    "so_retain ops p w = (b, w') \<Longrightarrow> backlog w' \<le> backlog w" "backlog (so_release ops p w) \<le> backlog w" "backlog (so_terminate ops p w) \<le> backlog w"
proof -
  note r = assms [unfolded takes_frames_def, THEN conjunct1] and c = assms [unfolded takes_frames_def, THEN conjunct2, rule_format, of p w]
  show "fo_read (so_fq ops) p w = (None, w') \<Longrightarrow> backlog w' \<le> backlog w" "fo_read (so_fq ops) p w = (Some m, w') \<Longrightarrow> backlog w' < backlog w"
    using r by fastforce+
  show "so_retain ops p w = (b, w') \<Longrightarrow> backlog w' \<le> backlog w" "backlog (so_release ops p w) \<le> backlog w" "backlog (so_terminate ops p w) \<le> backlog w"
    using c by auto
qed

lemma recv_loop_backlog:
  assumes "takes_frames ops backlog" "recv_loop (so_fq ops) mem False q w = Some (r, q', w')"
  shows "case r of Inr _ \<Rightarrow> backlog w' < backlog w | Inl _ \<Rightarrow> backlog w' \<le> backlog w"
  using assms
proof (induction "so_fq ops" mem False q w rule: recv_loop.induct)
  case (1 mem q w)
  show ?case
  proof (cases "fq_active q > 0")
    case False
    then show ?thesis using 1(4) by (subst (asm) recv_loop.simps) auto
  next
    case a: True
    then obtain p where p: "arr_get (fq_current q) (fq_pipes q) = Some p"
      using 1(4) by (subst (asm) recv_loop.simps) (auto split: option.splits)
    obtain m w1 where m: "fo_read (so_fq ops) p w = (m, w1)" by (rule prod.exhaust)
    show ?thesis
    proof (cases m)
      case None
      then have f: "fq_fetch (so_fq ops) False p w = (Missed, w1)" using m by (simp add: fq_fetch_def)
      have le: "backlog w1 \<le> backlog w" using takes_framesD(1) [OF 1(3)] m None by blast
      show ?thesis
      proof (cases "fq_more q")
        case True
        then show ?thesis using 1(4) a p f le by (subst (asm) recv_loop.simps) auto
      next
        case False
        then obtain q1 where q1: "deactivate_current_after_read_miss q = Some q1" "recv_loop (so_fq ops) mem False q1 w1 = Some (r, q', w')"
          using 1(4) a p f by (subst (asm) recv_loop.simps) (auto split: option.splits)
        have "case r of Inr _ \<Rightarrow> backlog w' < backlog w1 | Inl _ \<Rightarrow> backlog w' \<le> backlog w1"
          by (rule 1(1) [OF a p f [symmetric] refl False q1(1) 1(3) q1(2)])
        then show ?thesis using le by (auto split: sum.splits)
      qed
    next
      case (Some x)
      then have f: "fq_fetch (so_fq ops) False p w = (Fetched x, w1)" using m by (simp add: fq_fetch_def)
      then show ?thesis using 1(4) takes_framesD(2) [OF 1(3)] a p m Some by (subst (asm) recv_loop.simps) (auto simp: Let_def)
    qed
  qed
qed

subsection \<open>One frame\<close>

lemma pinned_more: "pinned q \<noteq> None \<longleftrightarrow> fq_more q"
  by (simp add: pinned_def)

text \<open>A receive on the fair queue, seen from the socket. Without an open record nothing can be aborted.\<close>

lemma recvpipe_ok:
  assumes ok: "fq_ok (xs_fq s)" and tf: "takes_frames ops backlog"
  obtains r q w' where "recvpipe ops s w = Some (r, s\<lparr>xs_fq := q\<rparr>, w')" "fq_ok q" "fq_members q = fq_members (xs_fq s)"
    "fq_live q \<subseteq> fq_live (xs_fq s)" "\<not> fq_multipart_abort_pending q"
    "case r of
       Inr (m, p) \<Rightarrow> backlog w' < backlog w \<and> fq_more q = has_more m \<and> \<not> fq_multipart_abort_pending (xs_fq s)
     | Inl e \<Rightarrow> backlog w' \<le> backlog w \<and> \<not> fq_more q
         \<and> (if fq_more (xs_fq s) \<or> fq_multipart_abort_pending (xs_fq s) then e = ECONNABORTED else e = EAGAIN \<and> fq_live q = {})"
proof -
  have core: "fq_core (xs_fq s)" using ok by (simp add: fq_ok_def)
  obtain r q w' where r: "recvpipe_internal (so_fq ops) True False (xs_fq s) w = Some (r, q, w')"
    "if fq_multipart_abort_pending (xs_fq s) then r = Inl ECONNABORTED \<and> q = (xs_fq s)\<lparr>fq_multipart_abort_pending := False\<rparr>
     else recv_step (xs_fq s) r q"
    using recvpipe_plain [OF ok, of "so_fq ops" True w] by blast
  have eq: "recvpipe ops s w = Some (r, s\<lparr>xs_fq := q\<rparr>, w')" using r(1) by (simp add: recvpipe_def)
  show thesis
  proof (cases "fq_multipart_abort_pending (xs_fq s)")
    case True
    have nm: "\<not> fq_more (xs_fq s)" using core True by (auto simp: fq_core_def)
    have q: "r = Inl ECONNABORTED" "q = (xs_fq s)\<lparr>fq_multipart_abort_pending := False\<rparr>" using r(2) True by auto
    have "w' = w" using r(1) True by (simp add: recvpipe_internal_def normalize_id [OF core])
    moreover have "fq_ok q" "fq_members q = fq_members (xs_fq s)" "fq_live q = fq_live (xs_fq s)"
      using ok by (auto simp: q(2) fq_ok_def fq_core_def fq_members_def fq_live_def)
    ultimately show thesis by (intro that [OF eq]) (use q nm True in auto)
  next
    case False
    then have st: "recv_step (xs_fq s) r q" using r(2) by simp
    have "recv_loop (so_fq ops) True False (xs_fq s) w = Some (r, q, w')"
      using r(1) False by (simp add: recvpipe_internal_def normalize_id [OF core])
    note b = recv_loop_backlog [OF tf this]
    show thesis
      by (rule that [OF eq]) (use st b False pinned_more [of q] pinned_more [of "xs_fq s"] in \<open>auto simp: recv_step_def split: sum.splits if_splits\<close>)
  qed
qed

text \<open>The rest of a record is read to its end, unless its pipe goes silent.\<close>

lemma skip_rest_ok:
  assumes tf: "takes_frames ops backlog"
    and "fq_ok (xs_fq s)" "\<not> fq_multipart_abort_pending (xs_fq s)" "fq_more (xs_fq s) = unfinished"
  shows "\<exists>rc bad q w'. skip_rest ops unfinished malformed s w = Some (rc, bad, s\<lparr>xs_fq := q\<rparr>, w') \<and> fq_ok q
    \<and> fq_members q = fq_members (xs_fq s) \<and> fq_live q \<subseteq> fq_live (xs_fq s) \<and> \<not> fq_more q \<and> \<not> fq_multipart_abort_pending q
    \<and> backlog w' \<le> backlog w \<and> (rc = None \<or> rc = Some ECONNABORTED)"
  using assms(2-)
proof (induction "backlog w" arbitrary: s w unfinished malformed rule: less_induct)
  case less
  show ?case
  proof (cases unfinished)
    case False
    have "s = s\<lparr>xs_fq := xs_fq s\<rparr>" by simp
    then show ?thesis using less.prems False by (subst skip_rest.simps) (auto intro!: exI [of _ "xs_fq s"])
  next
    case True
    obtain r q w1 where r: "recvpipe ops s w = Some (r, s\<lparr>xs_fq := q\<rparr>, w1)" "fq_ok q" "fq_members q = fq_members (xs_fq s)"
        "fq_live q \<subseteq> fq_live (xs_fq s)" "\<not> fq_multipart_abort_pending q"
        "case r of
           Inr (m, p) \<Rightarrow> backlog w1 < backlog w \<and> fq_more q = has_more m \<and> \<not> fq_multipart_abort_pending (xs_fq s)
         | Inl e \<Rightarrow> backlog w1 \<le> backlog w \<and> \<not> fq_more q
             \<and> (if fq_more (xs_fq s) \<or> fq_multipart_abort_pending (xs_fq s) then e = ECONNABORTED else e = EAGAIN \<and> fq_live q = {})"
      by (rule recvpipe_ok [OF less.prems(1) tf])
    show ?thesis
    proof (cases r)
      case (Inl e)
      then show ?thesis using True less.prems r by (subst skip_rest.simps) auto
    next
      case (Inr x)
      obtain m p where x: "x = (m, p)" by (rule prod.exhaust)
      have lt: "backlog w1 < backlog w" and mo: "fq_more q = has_more m" using r(6) Inr x by auto
      obtain rc bad q2 w2 where "skip_rest ops (has_more m) (malformed \<or> carries_metadata m) (s\<lparr>xs_fq := q\<rparr>) w1 = Some (rc, bad, s\<lparr>xs_fq := q2\<rparr>, w2)"
          "fq_ok q2" "fq_members q2 = fq_members q" "fq_live q2 \<subseteq> fq_live q" "\<not> fq_more q2" "\<not> fq_multipart_abort_pending q2"
          "backlog w2 \<le> backlog w1" "rc = None \<or> rc = Some ECONNABORTED"
        using less.hyps [OF lt, of "s\<lparr>xs_fq := q\<rparr>" "has_more m" "malformed \<or> carries_metadata m"] r(2,5) mo by auto
      then show ?thesis using True r(1,3,4) Inr x lt by (subst skip_rest.simps) (auto intro!: exI [of _ q2])
    qed
  qed
qed

lemma end_pipe_backlog: "takes_frames ops backlog \<Longrightarrow> backlog (end_pipe ops p retained malformed w) \<le> backlog w"
  using takes_framesD(4) [of ops backlog p "so_terminate ops p w"] takes_framesD(4) [of ops backlog p w] takes_framesD(5) [of ops backlog p w]
  by (auto simp: end_pipe_def Let_def)

lemma discard_filtered_ok:
  assumes tf: "takes_frames ops backlog"
    and s: "fq_ok (xs_fq s)" "\<not> fq_multipart_abort_pending (xs_fq s)" "fq_more (xs_fq s) = has_more m"
  obtains rc q w' where "discard_filtered_message ops m p s w = Some (rc, s\<lparr>xs_fq := q\<rparr>, w')" "fq_ok q"
    "fq_members q = fq_members (xs_fq s)" "fq_live q \<subseteq> fq_live (xs_fq s)" "\<not> fq_more q" "\<not> fq_multipart_abort_pending q"
    "backlog w' \<le> backlog w" "rc = None \<or> rc = Some ECONNABORTED \<or> rc = Some EPROTO"
proof -
  obtain b w1 where w1: "so_retain ops p w = (b, w1)" by (rule prod.exhaust)
  have le: "backlog w1 \<le> backlog w" by (rule takes_framesD(3) [OF tf w1])
  obtain rc bad q w2 where k: "skip_rest ops (has_more m) False s w1 = Some (rc, bad, s\<lparr>xs_fq := q\<rparr>, w2)" "fq_ok q"
      "fq_members q = fq_members (xs_fq s)" "fq_live q \<subseteq> fq_live (xs_fq s)" "\<not> fq_more q" "\<not> fq_multipart_abort_pending q"
      "backlog w2 \<le> backlog w1" "rc = None \<or> rc = Some ECONNABORTED"
    using skip_rest_ok [OF tf s, of False w1] by blast
  show thesis
    by (rule that [of "if bad then Some EPROTO else rc" q "end_pipe ops p b bad w2"])
      (use k w1 le end_pipe_backlog [OF tf, of p b bad w2] in \<open>auto simp: discard_filtered_message_def\<close>)
qed

subsection \<open>Receiving\<close>

text \<open>What receiving leaves alone: subscriptions, options and the way upstream.\<close>

definition same_upstream :: "'p xsub \<Rightarrow> 'p xsub \<Rightarrow> bool" where
  "same_upstream s s' \<longleftrightarrow>
     xs_filter s' = xs_filter s \<and> xs_invert_matching s' = xs_invert_matching s \<and> xs_dist s' = xs_dist s
     \<and> xs_subscriptions s' = xs_subscriptions s \<and> xs_verbose_unsubs s' = xs_verbose_unsubs s \<and> xs_more_send s' = xs_more_send s
     \<and> xs_process_subscribe s' = xs_process_subscribe s \<and> xs_has_empty_subscription s' = xs_has_empty_subscription s"

lemma same_upstream_refl [simp]: "same_upstream s s" by (simp add: same_upstream_def)

lemma same_upstream_trans: "same_upstream s t \<Longrightarrow> same_upstream t u \<Longrightarrow> same_upstream s u" by (simp add: same_upstream_def)

lemma same_upstream_sub: "same_upstream s s' \<Longrightarrow> subs_ok s' = subs_ok s \<and> subscribed s' = subscribed s \<and> wanted data s' = wanted data s"
  by (simp add: same_upstream_def subs_ok_def subscribed_def wanted_def)

lemma same_upstream_simps [simp]:
  "same_upstream s (s\<lparr>xs_fq := q\<rparr>)" "same_upstream s (end_record t) = same_upstream s t"
  "same_upstream s (t\<lparr>xs_fq := q\<rparr>) = same_upstream s t" "same_upstream s (expose m t) = same_upstream s t"
  "same_upstream s (t\<lparr>xs_message := mo\<rparr>) = same_upstream s t"
  "same_upstream s (t\<lparr>xs_recv_protocol_error_pending := b\<rparr>) = same_upstream s t"
  by (simp_all add: same_upstream_def end_record_def expose_def)

text \<open>What a call may return. \<open>n\<close> is how many non-matching records a call may still skip: \<open>EAGAIN\<close> means
  that every pipe was found empty, or that this many frames were taken out.\<close>

definition recv_law :: "('w \<Rightarrow> nat) \<Rightarrow> nat \<Rightarrow> 'p xsub \<Rightarrow> 'w \<Rightarrow> (errno + msg) \<Rightarrow> 'p xsub \<Rightarrow> 'w \<Rightarrow> bool" where
  "recv_law backlog n s w r s' w' \<longleftrightarrow>
     same_upstream s s' \<and> xs_message s' = None \<and> xs_recv_protocol_error_pending s' = xs_recv_protocol_error_pending s
     \<and> (case r of
          Inr m \<Rightarrow> xs_more_recv s' = has_more m \<and> (xs_more_recv s \<or> \<not> xs_filter s \<or> wanted (msg_data m) s)
        | Inl e \<Rightarrow> \<not> xs_more_recv s'
            \<and> (if xs_more_recv s then e = ECONNABORTED \<or> e = EPROTO
               else e = EPROTO \<or> e = EAGAIN \<and> (fq_live (xs_fq s') = {} \<or> xs_filter s \<and> backlog w' + n \<le> backlog w)))"

lemma reset_metadata_sel [simp]:
  "msg_data (reset_request_reply_metadata m) = msg_data m" "has_more (reset_request_reply_metadata m) = has_more m"
  by (simp_all add: reset_request_reply_metadata_def has_more_def split: auxiliary.splits)

lemma xsub_ok_fq:
  assumes "xsub_ok s" "fq_ok q" "fq_members q = fq_members (xs_fq s)" "fq_more q \<or> fq_multipart_abort_pending q \<longleftrightarrow> b"
    "same_upstream s t" "xs_fq t = q" "xs_message t = None" "xs_more_recv t = b" "b \<longrightarrow> 0 < xs_recv_part_index t"
  shows "xsub_ok t"
  using assms same_upstream_sub [OF assms(5)] by (auto simp: xsub_ok_def exposed_def same_upstream_def)

lemma end_record_sel [simp]:
  "xs_fq (end_record s) = xs_fq s" "\<not> xs_more_recv (end_record s)" "xs_message (end_record s) = xs_message s"
  "xs_recv_protocol_error_pending (end_record s) = xs_recv_protocol_error_pending s"
  by (simp_all add: end_record_def)

lemma expose_sel [simp]:
  "xs_fq (expose m s) = xs_fq s" "xs_more_recv (expose m s) = has_more m" "xs_message (expose m s) = xs_message s"
  "xs_recv_protocol_error_pending (expose m s) = xs_recv_protocol_error_pending s" "has_more m \<Longrightarrow> 0 < xs_recv_part_index (expose m s)"
  by (simp_all add: expose_def)

text \<open>The cases of one turn of the loop: a frame for the user, a malformed record, a record nobody wants. \<open>q\<close> is the fair
  queue after the frame \<open>m\<close> was taken out.\<close>

definition got_frame :: "'p xsub \<Rightarrow> msg \<Rightarrow> 'p fq \<Rightarrow> bool" where
  "got_frame s m q \<longleftrightarrow> xsub_ok s \<and> xs_message s = None \<and> fq_ok q \<and> fq_members q = fq_members (xs_fq s)
     \<and> \<not> fq_multipart_abort_pending q \<and> fq_more q = has_more m"

lemma frame_taken_ok:
  assumes g: "got_frame s m q" and t: "xs_more_recv s \<or> \<not> xs_filter s \<or> wanted (msg_data m) s"
  defines "s' \<equiv> expose m (s\<lparr>xs_fq := q\<rparr>)"
  shows "xsub_ok s' \<and> recv_law backlog n s w (Inr (if xs_more_recv s then m else reset_request_reply_metadata m)) s' w'"
proof
  have s: "xsub_ok s" "fq_ok q" "fq_members q = fq_members (xs_fq s)" using g by (simp_all add: got_frame_def)
  show "xsub_ok s'"
    by (rule xsub_ok_fq [OF s, of "has_more m"]) (use g in \<open>simp_all add: got_frame_def s'_def\<close>)
  show "recv_law backlog n s w (Inr (if xs_more_recv s then m else reset_request_reply_metadata m)) s' w'"
    using g t by (auto simp: recv_law_def got_frame_def s'_def)
qed

lemma frame_rejected_ok:
  assumes tf: "takes_frames ops backlog" and g: "got_frame s m q"
  shows "\<exists>s' w'. reject_record ops m p (s\<lparr>xs_fq := q\<rparr>) w1 = Some (s', w') \<and> xsub_ok s' \<and> recv_law backlog n s w (Inl EPROTO) s' w'"
proof -
  obtain b w2 where w2: "so_retain ops p w1 = (b, w2)" by (rule prod.exhaust)
  have s: "xsub_ok s" "xs_message s = None" using g by (simp_all add: got_frame_def)
  obtain rc bad q2 w3 where k: "skip_rest ops (has_more m) False (s\<lparr>xs_fq := q\<rparr>) w2 = Some (rc, bad, s\<lparr>xs_fq := q2\<rparr>, w3)" "fq_ok q2"
      "fq_members q2 = fq_members (xs_fq s)" "\<not> fq_more q2" "\<not> fq_multipart_abort_pending q2"
    using skip_rest_ok [OF tf, of "s\<lparr>xs_fq := q\<rparr>" "has_more m" False w2] g by (auto simp: got_frame_def)
  let ?s = "end_record (s\<lparr>xs_fq := q2\<rparr>)"
  have "xsub_ok ?s" by (rule xsub_ok_fq [OF s(1) k(2,3), of False]) (use k s in simp_all)
  moreover have "recv_law backlog n s w (Inl EPROTO) ?s w'" for w' using s by (simp add: recv_law_def)
  ultimately show ?thesis using w2 k(1) by (simp add: reject_record_def)
qed

lemma frame_discarded_ok:
  assumes tf: "takes_frames ops backlog" and g: "got_frame s m q" and n: "\<not> xs_more_recv s"
  obtains rc q' w' where "discard_filtered_message ops m p (s\<lparr>xs_fq := q\<rparr>) w1 = Some (rc, s\<lparr>xs_fq := q'\<rparr>, w')"
    "xsub_ok (s\<lparr>xs_fq := q'\<rparr>)" "xsub_ok (end_record (s\<lparr>xs_fq := q'\<rparr>))" "backlog w' \<le> backlog w1"
    "rc = None \<or> rc = Some ECONNABORTED \<or> rc = Some EPROTO"
proof -
  have s: "xsub_ok s" "xs_message s = None" using g by (simp_all add: got_frame_def)
  obtain rc q' w' where d: "discard_filtered_message ops m p (s\<lparr>xs_fq := q\<rparr>) w1 = Some (rc, (s\<lparr>xs_fq := q\<rparr>)\<lparr>xs_fq := q'\<rparr>, w')" "fq_ok q'"
      "fq_members q' = fq_members (xs_fq (s\<lparr>xs_fq := q\<rparr>))" "\<not> fq_more q'" "\<not> fq_multipart_abort_pending q'" "backlog w' \<le> backlog w1"
      "rc = None \<or> rc = Some ECONNABORTED \<or> rc = Some EPROTO"
    by (rule discard_filtered_ok [OF tf, of "s\<lparr>xs_fq := q\<rparr>" m p w1]) (use g in \<open>simp_all add: got_frame_def\<close>)
  have m: "fq_members q' = fq_members (xs_fq s)" using d(3) g by (simp add: got_frame_def)
  have "xsub_ok (s\<lparr>xs_fq := q'\<rparr>)" by (rule xsub_ok_fq [OF s(1) d(2) m, of False]) (use d s n in simp_all)
  moreover have "xsub_ok (end_record (s\<lparr>xs_fq := q'\<rparr>))" by (rule xsub_ok_fq [OF s(1) d(2) m, of False]) (use d s in simp_all)
  ultimately show thesis using d that by simp
qed

text \<open>After a skipped record the call goes on as if it had just begun.\<close>

lemma recv_law_skip:
  assumes "recv_law backlog n t w1 r s' w'" "\<not> xs_more_recv s" "xs_filter s" "same_upstream s t" "\<not> xs_more_recv t"
    "xs_recv_protocol_error_pending t = xs_recv_protocol_error_pending s" "backlog w1 < backlog w" "n' \<le> Suc n"
  shows "recv_law backlog n' s w r s' w'"
proof -
  have "same_upstream s s'" using assms(1,4) same_upstream_trans by (auto simp: recv_law_def)
  then show ?thesis using assms same_upstream_sub [OF assms(4)] by (auto simp: recv_law_def same_upstream_def split: sum.splits)
qed

lemma next_frame:
  assumes tf: "takes_frames ops backlog" and s: "xsub_ok s" "xs_message s = None"
  obtains (missed) e q w1 where "recvpipe ops s w = Some (Inl e, s\<lparr>xs_fq := q\<rparr>, w1)" "xsub_ok (end_record (s\<lparr>xs_fq := q\<rparr>))"
      "if xs_more_recv s then e = ECONNABORTED else e = EAGAIN \<and> fq_live q = {} \<and> xsub_ok (s\<lparr>xs_fq := q\<rparr>)"
    | (frame) m p q w1 where "recvpipe ops s w = Some (Inr (m, p), s\<lparr>xs_fq := q\<rparr>, w1)" "got_frame s m q" "backlog w1 < backlog w"
proof -
  have ok: "fq_ok (xs_fq s)" and ex: "fq_more (xs_fq s) \<or> fq_multipart_abort_pending (xs_fq s) \<longleftrightarrow> xs_more_recv s"
    using s by (auto simp: xsub_ok_def exposed_def)
  obtain r q w1 where r: "recvpipe ops s w = Some (r, s\<lparr>xs_fq := q\<rparr>, w1)" "fq_ok q" "fq_members q = fq_members (xs_fq s)"
      "\<not> fq_multipart_abort_pending q"
      "case r of
         Inr (m, p) \<Rightarrow> backlog w1 < backlog w \<and> fq_more q = has_more m \<and> \<not> fq_multipart_abort_pending (xs_fq s)
       | Inl e \<Rightarrow> backlog w1 \<le> backlog w \<and> \<not> fq_more q
           \<and> (if fq_more (xs_fq s) \<or> fq_multipart_abort_pending (xs_fq s) then e = ECONNABORTED else e = EAGAIN \<and> fq_live q = {})"
    by (rule recvpipe_ok [OF ok tf])
  show thesis
  proof (cases r)
    case (Inl e)
    have e: "\<not> fq_more q" "if xs_more_recv s then e = ECONNABORTED else e = EAGAIN \<and> fq_live q = {}" using r(5) ex Inl by auto
    have "xsub_ok (end_record (s\<lparr>xs_fq := q\<rparr>))" by (rule xsub_ok_fq [OF s(1) r(2,3), of False]) (use e r(4) s in simp_all)
    moreover have "xsub_ok (s\<lparr>xs_fq := q\<rparr>)" if "\<not> xs_more_recv s" by (rule xsub_ok_fq [OF s(1) r(2,3), of False]) (use e r(4) s that in simp_all)
    ultimately show thesis using missed [of e q w1] r(1) Inl e(2) by auto
  next
    case (Inr x)
    obtain m p where x: "x = (m, p)" by (rule prod.exhaust)
    then show thesis using frame [of m p q w1] r s Inr by (simp add: got_frame_def)
  qed
qed

lemma xsub_recv_loop_ok:
  assumes tf: "takes_frames ops backlog" and "xsub_ok s" "xs_message s = None"
  shows "\<exists>r s' w'. xsub_recv_loop ops budget skipped s w = Some (r, s', w') \<and> xsub_ok s' \<and> recv_law backlog (budget - skipped) s w r s' w'"
  using assms(2-)
proof (induction "backlog w" arbitrary: s w skipped rule: less_induct)
  case less
  show ?case
  proof (rule next_frame [OF tf less.prems, of w])
    fix e q w1
    assume r: "recvpipe ops s w = Some (Inl e, s\<lparr>xs_fq := q\<rparr>, w1)" "xsub_ok (end_record (s\<lparr>xs_fq := q\<rparr>))"
      "if xs_more_recv s then e = ECONNABORTED else e = EAGAIN \<and> fq_live q = {} \<and> xsub_ok (s\<lparr>xs_fq := q\<rparr>)"
    then show ?thesis using less.prems by (subst xsub_recv_loop.simps) (auto simp: Let_def recv_law_def)
  next
    fix m p q w1
    assume r: "recvpipe ops s w = Some (Inr (m, p), s\<lparr>xs_fq := q\<rparr>, w1)" and g: "got_frame s m q" and lt: "backlog w1 < backlog w"
    let ?s = "s\<lparr>xs_fq := q\<rparr>"
    have match: "xsub_match m ?s = wanted (msg_data m) s"
      using match_wanted [of ?s m] g same_upstream_sub [of s ?s] by (simp add: got_frame_def xsub_ok_def)
    have ix: "xs_more_recv s \<longrightarrow> 0 < xs_recv_part_index s" using less.prems(1) by (simp add: xsub_ok_def)
    consider (reject) "xs_more_recv s" "carries_metadata m"
      | (take) "\<not> (xs_more_recv s \<and> carries_metadata m)" "xs_more_recv s \<or> \<not> xs_filter s \<or> wanted (msg_data m) s"
      | (skip) "\<not> xs_more_recv s" "xs_filter s" "\<not> wanted (msg_data m) s" by blast
    then show ?thesis
    proof cases
      case reject
      then show ?thesis using r ix frame_rejected_ok [OF tf g, of p w1 "budget - skipped" w] by (subst xsub_recv_loop.simps) (auto simp: Let_def)
    next
      case take
      show ?thesis using frame_taken_ok [OF g take(2), of backlog "budget - skipped" w w1] r match take
        by (subst xsub_recv_loop.simps) (auto simp: Let_def)
    next
      case skip
      obtain rc q' w2 where d: "discard_filtered_message ops m p ?s w1 = Some (rc, s\<lparr>xs_fq := q'\<rparr>, w2)" "xsub_ok (s\<lparr>xs_fq := q'\<rparr>)"
          "xsub_ok (end_record (s\<lparr>xs_fq := q'\<rparr>))" "backlog w2 \<le> backlog w1" "rc = None \<or> rc = Some ECONNABORTED \<or> rc = Some EPROTO"
        by (rule frame_discarded_ok [OF tf g skip(1)])
      let ?t = "if rc = None then s\<lparr>xs_fq := q'\<rparr> else end_record (s\<lparr>xs_fq := q'\<rparr>)" and ?n = "if rc = None then skipped + 1 else skipped"
      have lt2: "backlog w2 < backlog w" using lt d(4) by simp
      have eq: "xsub_recv_loop ops budget skipped s w =
          (if rc = Some EPROTO then Some (Inl EPROTO, s\<lparr>xs_fq := q'\<rparr>, w2)
           else if rc = None \<and> skipped + 1 \<ge> budget then Some (Inl EAGAIN, ?t, w2) else xsub_recv_loop ops budget ?n ?t w2)"
        using r match skip d(1,5) by (subst xsub_recv_loop.simps) (auto simp: Let_def)
      show ?thesis
      proof (cases "rc = Some EPROTO \<or> rc = None \<and> skipped + 1 \<ge> budget")
        case True
        then show ?thesis using eq d(2) skip less.prems(2) lt2 by (auto simp: recv_law_def)
      next
        case False
        have "xsub_ok ?t" "xs_message ?t = None" using d(2,3) less.prems(2) by auto
        from less.hyps [OF lt2 this, of ?n] obtain r' s' w' where l: "xsub_recv_loop ops budget ?n ?t w2 = Some (r', s', w')" "xsub_ok s'"
            "recv_law backlog (budget - ?n) ?t w2 r' s' w'" by blast
        have "recv_law backlog (budget - skipped) s w r' s' w'"
          by (rule recv_law_skip [OF l(3) skip(1,2)]) (use skip(1) lt2 in auto)
        then show ?thesis using eq False l by auto
      qed
    qed
  qed
qed

lemma xsub_recv_ok:
  assumes tf: "takes_frames ops backlog" and ok: "xsub_ok s"
  shows "\<exists>r s' w'. xsub_recv ops budget s w = Some (r, s', w') \<and> xsub_ok s'
    \<and> (xs_recv_protocol_error_pending s = False \<and> xs_message s = None \<longrightarrow> recv_law backlog budget s w r s' w')"
proof -
  consider (err) "xs_recv_protocol_error_pending s" | (buffered) m where "\<not> xs_recv_protocol_error_pending s" "xs_message s = Some m"
    | (read) "\<not> xs_recv_protocol_error_pending s" "xs_message s = None" by (cases "xs_message s") auto
  then show ?thesis
  proof cases
    case err
    have "xsub_ok (s\<lparr>xs_recv_protocol_error_pending := False\<rparr>)" using ok by (simp add: xsub_ok_def subs_ok_def exposed_def subscribed_def)
    then show ?thesis using err by (simp add: xsub_recv_def)
  next
    case (buffered m)
    have "xsub_ok (s\<lparr>xs_message := None, xs_more_recv := has_more m, xs_recv_part_index := if has_more m then 1 else 0\<rparr>)"
      using ok buffered by (auto simp: xsub_ok_def subs_ok_def exposed_def subscribed_def)
    then show ?thesis using buffered by (simp add: xsub_recv_def)
  next
    case read
    show ?thesis using xsub_recv_loop_ok [OF tf ok read(2), of budget 0 w] read by (simp add: xsub_recv_def)
  qed
qed

subsection \<open>Probing\<close>

definition probe_law :: "('w \<Rightarrow> nat) \<Rightarrow> nat \<Rightarrow> 'p xsub \<Rightarrow> 'w \<Rightarrow> bool \<Rightarrow> 'p xsub \<Rightarrow> 'w \<Rightarrow> bool" where
  "probe_law backlog n s w b s' w' \<longleftrightarrow>
     same_upstream s s' \<and> \<not> xs_more_recv s' \<and> b = (xs_message s' \<noteq> None \<or> xs_recv_protocol_error_pending s')
     \<and> (\<forall>m. xs_message s' = Some m \<longrightarrow> \<not> xs_filter s \<or> wanted (msg_data m) s)
     \<and> (b \<or> fq_live (xs_fq s') = {} \<or> xs_filter s \<and> backlog w' + n \<le> backlog w)"

lemma frame_buffered_ok:
  assumes g: "got_frame s m q" and n: "\<not> xs_more_recv s"
  shows "xsub_ok (s\<lparr>xs_fq := q, xs_message := Some m\<rparr>)"
  using g n by (auto simp: got_frame_def xsub_ok_def subs_ok_def subscribed_def exposed_def)

lemma xsub_ok_error [simp]: "xsub_ok (s\<lparr>xs_recv_protocol_error_pending := b\<rparr>) = xsub_ok s"
  by (simp add: xsub_ok_def subs_ok_def subscribed_def exposed_def)

lemma probe_law_skip:
  assumes "probe_law backlog n t w1 b s' w'" "xs_filter s" "same_upstream s t" "backlog w1 < backlog w" "n' \<le> Suc n"
  shows "probe_law backlog n' s w b s' w'"
proof -
  have "same_upstream s s'" using assms(1,3) same_upstream_trans by (auto simp: probe_law_def)
  then show ?thesis using assms same_upstream_sub [OF assms(3)] by (auto simp: probe_law_def same_upstream_def)
qed

lemma xsub_probe_loop_ok:
  assumes tf: "takes_frames ops backlog" and "xsub_ok s" "xs_message s = None" "\<not> xs_more_recv s" "\<not> xs_recv_protocol_error_pending s"
  shows "\<exists>b s' w'. xsub_probe_loop ops budget skipped s w = Some (b, s', w') \<and> xsub_ok s' \<and> probe_law backlog (budget - skipped) s w b s' w'"
  using assms(2-)
proof (induction "backlog w" arbitrary: s w skipped rule: less_induct)
  case less
  show ?case
  proof (rule next_frame [OF tf less.prems(1,2), of w])
    fix e q w1
    assume "recvpipe ops s w = Some (Inl e, s\<lparr>xs_fq := q\<rparr>, w1)"
      "if xs_more_recv s then e = ECONNABORTED else e = EAGAIN \<and> fq_live q = {} \<and> xsub_ok (s\<lparr>xs_fq := q\<rparr>)"
    then show ?thesis using less.prems by (subst xsub_probe_loop.simps) (auto simp: probe_law_def)
  next
    fix m p q w1
    assume r: "recvpipe ops s w = Some (Inr (m, p), s\<lparr>xs_fq := q\<rparr>, w1)" and g: "got_frame s m q" and lt: "backlog w1 < backlog w"
    let ?s = "s\<lparr>xs_fq := q\<rparr>"
    have match: "xsub_match m ?s = wanted (msg_data m) s"
      using match_wanted [of ?s m] g same_upstream_sub [of s ?s] by (simp add: got_frame_def xsub_ok_def)
    show ?thesis
    proof (cases "\<not> xs_filter s \<or> wanted (msg_data m) s")
      case True
      then show ?thesis using r match less.prems frame_buffered_ok [OF g less.prems(3)] by (subst xsub_probe_loop.simps) (auto simp: probe_law_def)
    next
      case skip: False
      obtain rc q' w2 where d: "discard_filtered_message ops m p ?s w1 = Some (rc, s\<lparr>xs_fq := q'\<rparr>, w2)" "xsub_ok (s\<lparr>xs_fq := q'\<rparr>)"
          "xsub_ok (end_record (s\<lparr>xs_fq := q'\<rparr>))" "backlog w2 \<le> backlog w1" "rc = None \<or> rc = Some ECONNABORTED \<or> rc = Some EPROTO"
        by (rule frame_discarded_ok [OF tf g less.prems(3)])
      let ?t = "if rc = None then s\<lparr>xs_fq := q'\<rparr> else end_record (s\<lparr>xs_fq := q'\<rparr>)" and ?n = "if rc = None then skipped + 1 else skipped"
      have lt2: "backlog w2 < backlog w" using lt d(4) by simp
      have eq: "xsub_probe_loop ops budget skipped s w =
          (if rc = Some EPROTO then Some (True, s\<lparr>xs_fq := q', xs_recv_protocol_error_pending := True\<rparr>, w2)
           else if rc = None \<and> skipped + 1 \<ge> budget then Some (False, ?t, w2) else xsub_probe_loop ops budget ?n ?t w2)"
        using r match skip d(1,5) by (subst xsub_probe_loop.simps) auto
      show ?thesis
      proof (cases "rc = Some EPROTO \<or> rc = None \<and> skipped + 1 \<ge> budget")
        case True
        then show ?thesis using eq d(2) skip less.prems lt2 by (auto simp: probe_law_def)
      next
        case False
        have "xsub_ok ?t" "xs_message ?t = None" "\<not> xs_more_recv ?t" "\<not> xs_recv_protocol_error_pending ?t" using d(2,3) less.prems by auto
        from less.hyps [OF lt2 this, of ?n] obtain b s' w' where l: "xsub_probe_loop ops budget ?n ?t w2 = Some (b, s', w')" "xsub_ok s'"
            "probe_law backlog (budget - ?n) ?t w2 b s' w'" by blast
        have "probe_law backlog (budget - skipped) s w b s' w'"
          by (rule probe_law_skip [OF l(3)]) (use skip lt2 in auto)
        then show ?thesis using eq False l by auto
      qed
    qed
  qed
qed

lemma xsub_has_in_ok:
  assumes tf: "takes_frames ops backlog" and ok: "xsub_ok s"
  shows "\<exists>b s' w'. xsub_has_in ops budget s w = Some (b, s', w') \<and> xsub_ok s'
    \<and> b = (xs_recv_protocol_error_pending s' \<or> xs_more_recv s' \<or> xs_message s' \<noteq> None)
    \<and> (b \<or> fq_live (xs_fq s') = {} \<or> xs_filter s \<and> backlog w' + budget \<le> backlog w)"
proof (cases "xs_recv_protocol_error_pending s \<or> xs_more_recv s \<or> xs_message s \<noteq> None")
  case True
  then show ?thesis using ok by (auto simp: xsub_has_in_def)
next
  case False
  then show ?thesis using xsub_probe_loop_ok [OF tf ok, of budget 0 w] by (auto simp: xsub_has_in_def probe_law_def)
qed

subsection \<open>The other operations\<close>

lemma record_kept_open: "record_kept q q' \<Longrightarrow> fq_more q' \<or> fq_multipart_abort_pending q' \<longleftrightarrow> fq_more q \<or> fq_multipart_abort_pending q"
  using pinned_more [of q] pinned_more [of q'] by (auto simp: record_kept_def)

lemma xsub_ok_pipes:
  assumes "xsub_ok s" "fq_ok q" "dist_ok d" "fq_members q = all_pipes d" "record_kept (xs_fq s) q"
  shows "xsub_ok (s\<lparr>xs_fq := q, xs_dist := d\<rparr>)"
  using assms record_kept_open [OF assms(5)] by (auto simp: xsub_ok_def subs_ok_def subscribed_def exposed_def)

lemma snapshot_ok:
  assumes "subs_ok s"
  obtains topics where "snapshot_subscriptions s = Some topics" "distinct topics" "set topics = subscribed s"
  using assms trie_apply_exact [of "tw_trie (xs_subscriptions s)"]
  by (auto simp: subs_ok_def tw_inv_def snapshot_subscriptions_def tw_apply_def subscribed_def)

lemma xsub_attach_ok:
  assumes ok: "xsub_ok s" and p: "p \<notin> all_pipes (xs_dist s)"
  shows "\<exists>s' topics. xsub_attach_pipe ops p s w
      = Some (s', so_flush ops p (fold (send_subscription ops p) topics (snd (fo_check_read (so_fq ops) p w))))
    \<and> distinct topics \<and> set topics = subscribed s \<and> xsub_ok s' \<and> all_pipes (xs_dist s') = insert p (all_pipes (xs_dist s))
    \<and> subscribed s' = subscribed s \<and> p \<in> fq_live (xs_fq s') \<and> p \<in> eligible (xs_dist s')"
proof -
  have s: "fq_ok (xs_fq s)" "dist_ok (xs_dist s)" "fq_members (xs_fq s) = all_pipes (xs_dist s)" "subs_ok s" using ok by (auto simp: xsub_ok_def)
  obtain topics where t: "snapshot_subscriptions s = Some topics" "distinct topics" "set topics = subscribed s" by (rule snapshot_ok [OF s(4)])
  obtain q where q: "fq_attach p (xs_fq s) = Some q" "fq_ok q" "fq_members q = insert p (fq_members (xs_fq s))" "fq_live q = insert p (fq_live (xs_fq s))"
      "record_kept (xs_fq s) q" using fq_attach_ok [OF s(1), of p] p s(3) by auto
  obtain d where d: "dist_attach p (xs_dist s) = Some d" "dist_ok d" "all_pipes d = insert p (all_pipes (xs_dist s))" "eligible d = insert p (eligible (xs_dist s))"
    by (rule dist_attach_ok [OF s(2) p])
  have "xsub_ok (s\<lparr>xs_fq := q, xs_dist := d\<rparr>)" by (rule xsub_ok_pipes [OF ok q(2) d(2) _ q(5)]) (simp add: q(3) d(3) s(3))
  then show ?thesis using t q d by (auto simp: xsub_attach_pipe_def subscribed_def)
qed

lemma xsub_terminated_ok:
  assumes ok: "xsub_ok s"
  shows "\<exists>s'. xsub_pipe_terminated p s = Some s' \<and> xsub_ok s' \<and> all_pipes (xs_dist s') = all_pipes (xs_dist s) - {p}"
proof -
  have s: "fq_ok (xs_fq s)" "dist_ok (xs_dist s)" "fq_members (xs_fq s) = all_pipes (xs_dist s)" using ok by (auto simp: xsub_ok_def)
  obtain q where q: "fq_pipe_terminated p (xs_fq s) = Some q" "fq_ok q" "fq_members q = fq_members (xs_fq s) - {p}" "record_kept (xs_fq s) q"
    using fq_pipe_terminated_ok [OF s(1), of p] by blast
  obtain d where d: "dist_pipe_terminated p (xs_dist s) = Some d" "dist_ok d" "all_pipes d = all_pipes (xs_dist s) - {p}"
    using dist_pipe_terminated_inv [OF s(2), of p] by blast
  have "xsub_ok (s\<lparr>xs_fq := q, xs_dist := d\<rparr>)" by (rule xsub_ok_pipes [OF ok q(2) d(2) _ q(4)]) (simp add: q(3) d(3) s(3))
  then show ?thesis using q d by (simp add: xsub_pipe_terminated_def)
qed

lemma xsub_activated_ok:
  assumes ok: "xsub_ok s"
  shows "\<exists>s'. xsub_read_activated p s = Some s' \<and> xsub_ok s' \<and> all_pipes (xs_dist s') = all_pipes (xs_dist s)"
    "p \<in> all_pipes (xs_dist s) \<Longrightarrow> \<exists>s'. xsub_write_activated p s = Some s' \<and> xsub_ok s' \<and> all_pipes (xs_dist s') = all_pipes (xs_dist s)"
proof -
  have s: "fq_ok (xs_fq s)" "dist_ok (xs_dist s)" "fq_members (xs_fq s) = all_pipes (xs_dist s)" using ok by (auto simp: xsub_ok_def)
  obtain q where q: "fq_activated p (xs_fq s) = Some q" "fq_ok q" "fq_members q = fq_members (xs_fq s)" "record_kept (xs_fq s) q"
    using fq_activated_ok [OF s(1), of p] by blast
  have "xsub_ok (s\<lparr>xs_fq := q, xs_dist := xs_dist s\<rparr>)" by (rule xsub_ok_pipes [OF ok q(2) s(2) _ q(4)]) (simp add: q(3) s(3))
  then show "\<exists>s'. xsub_read_activated p s = Some s' \<and> xsub_ok s' \<and> all_pipes (xs_dist s') = all_pipes (xs_dist s)"
    using q by (simp add: xsub_read_activated_def)
  assume "p \<in> all_pipes (xs_dist s)"
  then obtain d where d: "dist_activated p (xs_dist s) = Some d" "dist_ok d" "all_pipes d = all_pipes (xs_dist s)"
    using dist_activated_inv [OF s(2)] by blast
  have "xsub_ok (s\<lparr>xs_fq := xs_fq s, xs_dist := d\<rparr>)" by (rule xsub_ok_pipes [OF ok s(1) d(2) _ record_kept_refl]) (simp add: d(3) s(3))
  then show "\<exists>s'. xsub_write_activated p s = Some s' \<and> xsub_ok s' \<and> all_pipes (xs_dist s') = all_pipes (xs_dist s)"
    using d by (simp add: xsub_write_activated_def)
qed

subsection \<open>Sending\<close>

text \<open>What a message sent by the application asks for: \<open>Some (True, topic)\<close> is a subscription, \<open>Some (False, topic)\<close> a cancellation.\<close>

definition request :: "hmsg \<Rightarrow> byte list \<Rightarrow> (bool \<times> byte list) option" where
  "request m data =
     (if is_subscribe m \<or> (data \<noteq> [] \<and> hd data = 1) then Some (True, if is_subscribe m then data else tl data)
      else if is_cancel m \<or> (data \<noteq> [] \<and> hd data = 0) then Some (False, if is_cancel m then data else tl data)
      else None)"

abbreviation occurs :: "byte list \<Rightarrow> 'p xsub \<Rightarrow> nat" where
  "occurs k s \<equiv> trie_count k (tw_trie (xs_subscriptions s))"

definition requested :: "(bool \<times> byte list) option \<Rightarrow> 'p xsub \<Rightarrow> byte list \<Rightarrow> nat" where
  "requested req s k =
     (case req of
        Some (True, topic) \<Rightarrow> if k = topic then occurs k s + 1 else occurs k s
      | Some (False, topic) \<Rightarrow> if k = topic then occurs k s - 1 else occurs k s
      | None \<Rightarrow> occurs k s)"

lemma forward_ok:
  assumes d: "dist_ok (xs_dist s)" and ph: "pipes_hold ops held" and v: "hm_valid m"
    and hk: "heap_ok h (held w + add_mset m M)" and few: "few h (add_mset m (held w + M)) (card (all_pipes (xs_dist s)))"
  obtains d' h' w' where "forward_upstream pool_max ops m s (h, w) = Some (True, s\<lparr>xs_dist := d'\<rparr>, h', w')" "dist_ok d'"
    "all_pipes d' = all_pipes (xs_dist s)" "heap_ok h' (held w' + M)"
proof -
  let ?d = "dist_match_all (xs_dist s)"
  have ok: "dist_ok ?d" "all_pipes ?d = all_pipes (xs_dist s)" using dist_match_all_ok(1,5) [of "xs_dist s"] d by simp_all
  have "matching ?d \<subseteq> all_pipes ?d" "finite (all_pipes ?d)" by (auto simp: matching_def all_pipes_def dest: in_set_takeD)
  then have "d_matching ?d \<le> card (all_pipes (xs_dist s))" using matching_card [OF ok(1)] card_mono ok(2) by metis
  then have few': "few h (add_mset m (held w + M)) (d_matching ?d - 1)" using few by (simp add: few_def)
  obtain taken d' h' w' where r: "dist_send_to_matching pool_max ops m False ?d (h, w) = Some (taken, d', h', w')" "dist_ok d'"
      "all_pipes d' = all_pipes ?d" "heap_ok h' (held w' + (if taken then M else add_mset m M))"
    using dist_send_inv [OF ok(1) ph v hk few', of pool_max False] by blast
  have "taken" using r(1) by (auto simp: dist_send_to_matching_def)
  then show thesis using that r ok(2) by (simp add: forward_upstream_def dist_send_to_all_def)
qed

definition subs_applied :: "(bool \<times> byte list) option \<Rightarrow> 'p xsub \<Rightarrow> 'p xsub \<Rightarrow> bool" where
  "subs_applied req s s' \<longleftrightarrow> xsub_ok s' \<and> xs_dist s' = xs_dist s \<and> xs_verbose_unsubs s' = xs_verbose_unsubs s \<and> (\<forall>k. occurs k s' = requested req s k)"

lemma begin_part_ok:
  assumes "xsub_ok s"
  shows "xsub_ok (begin_part m s)" "xs_process_subscribe (begin_part m s)" "xs_dist (begin_part m s) = xs_dist s"
    "xs_subscriptions (begin_part m s) = xs_subscriptions s" "xs_verbose_unsubs (begin_part m s) = xs_verbose_unsubs s"
proof -
  show p: "xs_process_subscribe (begin_part m s)" using assms by (simp add: begin_part_def xsub_ok_def subs_ok_def Let_def)
  then show "xsub_ok (begin_part m s)"
    using assms unfolding xsub_ok_def subs_ok_def subscribed_def exposed_def by (simp add: begin_part_def Let_def)
qed (simp_all add: begin_part_def Let_def)

lemma xsub_ok_store:
  assumes "xsub_ok s" "tw_inv t" "e \<longleftrightarrow> 0 < trie_count [] (tw_trie t)"
  shows "xsub_ok (s\<lparr>xs_subscriptions := t, xs_process_subscribe := True, xs_has_empty_subscription := e\<rparr>)"
  using assms unfolding xsub_ok_def subs_ok_def subscribed_def exposed_def by simp

lemma subscribe_topic_ok:
  assumes ok: "xsub_ok s"
  shows "subs_applied (Some (True, topic)) s (subscribe_topic topic s)"
proof -
  have inv: "tw_inv (xs_subscriptions s)" "xs_has_empty_subscription s \<longleftrightarrow> 0 < occurs [] s" using ok by (auto simp: xsub_ok_def subs_ok_def subscribed_def)
  obtain new t where t: "tw_add topic (xs_subscriptions s) = (new, t)" by (rule prod.exhaust)
  note a = sized_trie.add_law [OF inv(1) t]
  let ?e = "topic = [] \<or> xs_has_empty_subscription s"
  have e: "?e \<longleftrightarrow> 0 < trie_count [] (tw_trie t)" using a inv(2) by simp
  have eq: "subscribe_topic topic s = s\<lparr>xs_subscriptions := t, xs_process_subscribe := True, xs_has_empty_subscription := ?e\<rparr>"
    using t by (cases s) (auto simp: subscribe_topic_def Let_def)
  have "xsub_ok (subscribe_topic topic s)" unfolding eq by (rule xsub_ok_store [OF ok _ e]) (use a in blast)
  then show ?thesis using a by (simp add: subs_applied_def eq requested_def)
qed

lemma cancel_topic_ok:
  assumes ok: "xsub_ok s"
  obtains s' where "cancel_topic topic s = Some (occurs topic s = 1, s')" "subs_applied (Some (False, topic)) s s'"
proof -
  have inv: "tw_inv (xs_subscriptions s)" "xs_has_empty_subscription s \<longleftrightarrow> 0 < occurs [] s" using ok by (auto simp: xsub_ok_def subs_ok_def subscribed_def)
  obtain t where t: "tw_rm topic (xs_subscriptions s) = Some (occurs topic s = 1, t)" "tw_inv t"
      "\<forall>k. trie_count k (tw_trie t) = (if k = topic then occurs k s - 1 else occurs k s)"
    using sized_trie.rm_law [OF inv(1), of topic] by blast
  let ?e = "xs_has_empty_subscription s \<and> \<not> (topic = [] \<and> occurs topic s = 1)"
  let ?t = "s\<lparr>xs_subscriptions := t, xs_process_subscribe := True, xs_has_empty_subscription := ?e\<rparr>"
  have e: "?e \<longleftrightarrow> 0 < trie_count [] (tw_trie t)" using t(3) inv(2) by auto
  have "cancel_topic topic s = Some (occurs topic s = 1, ?t)" using t(1) by (cases s) (auto simp: cancel_topic_def Let_def)
  moreover have "subs_applied (Some (False, topic)) s ?t" using xsub_ok_store [OF ok t(2) e] t(3) by (simp add: subs_applied_def requested_def)
  ultimately show thesis by (rule that)
qed

lemma xsub_send_eq:
  assumes ok: "xsub_ok s" and data: "msg_bytes h m = Some data"
  obtains s' where "subs_applied (request m data) s s'"
    "xsub_send pool_max ops m s (h, w) =
       (if \<exists>topic. request m data = Some (False, topic) \<and> occurs topic s \<noteq> 1 \<and> \<not> xs_verbose_unsubs s
        then map_option (\<lambda>h. (True, s', h, w)) (close_checked pool_max m h)
        else forward_upstream pool_max ops m s' (h, w))"
proof -
  let ?s = "begin_part m s"
  note b = begin_part_ok [OF ok, of m]
  have "requested req ?s = requested req s" for req using b(4) by (auto simp: requested_def fun_eq_iff split: option.split bool.split)
  then have ap: "subs_applied req s s' \<longleftrightarrow> subs_applied req ?s s'" for req s' by (simp add: subs_applied_def b)
  obtain s' where s': "cancel_topic (if is_cancel m then data else tl data) ?s = Some (occurs (if is_cancel m then data else tl data) ?s = 1, s')"
      "subs_applied (Some (False, if is_cancel m then data else tl data)) ?s s'"
    by (rule cancel_topic_ok [OF b(1)])
  have v: "xs_verbose_unsubs s' = xs_verbose_unsubs s" using s'(2) b(5) by (simp add: subs_applied_def)
  consider (sub) "is_subscribe m \<or> data \<noteq> [] \<and> hd data = 1"
    | (cancel) "\<not> (is_subscribe m \<or> data \<noteq> [] \<and> hd data = 1)" "is_cancel m \<or> data \<noteq> [] \<and> hd data = 0"
    | (user) "\<not> (is_subscribe m \<or> data \<noteq> [] \<and> hd data = 1)" "\<not> (is_cancel m \<or> data \<noteq> [] \<and> hd data = 0)" by blast
  then show thesis
  proof cases
    case sub
    show thesis
      by (rule that [of "subscribe_topic (if is_subscribe m then data else tl data) ?s"])
        (use sub data b(2) subscribe_topic_ok [OF b(1)] in \<open>simp_all add: ap xsub_send_def request_def\<close>)
  next
    case cancel
    show thesis
      by (rule that [of s']) (use cancel data b s' v in \<open>auto simp: ap xsub_send_def request_def\<close>)
  next
    case user
    have "subs_applied None ?s ?s" using b(1) by (simp add: subs_applied_def requested_def)
    then show thesis by (intro that [of ?s]) (use user data b(2) in \<open>auto simp: ap xsub_send_def request_def\<close>)
  qed
qed

lemma xsub_send_ok:
  assumes ok: "xsub_ok s" and ph: "pipes_hold ops held" and v: "hm_valid m" and data: "msg_bytes h m = Some data"
    and hk: "heap_ok h (held w + add_mset m M)" and few: "few h (add_mset m (held w + M)) (card (all_pipes (xs_dist s)))"
  shows "\<exists>s' h' w'. xsub_send pool_max ops m s (h, w) = Some (True, s', h', w') \<and> xsub_ok s' \<and> heap_ok h' (held w' + M)
    \<and> all_pipes (xs_dist s') = all_pipes (xs_dist s) \<and> (\<forall>k. occurs k s' = requested (request m data) s k)"
proof -
  obtain s1 where s1: "subs_applied (request m data) s s1"
    "xsub_send pool_max ops m s (h, w) =
       (if \<exists>topic. request m data = Some (False, topic) \<and> occurs topic s \<noteq> 1 \<and> \<not> xs_verbose_unsubs s
        then map_option (\<lambda>h. (True, s1, h, w)) (close_checked pool_max m h) else forward_upstream pool_max ops m s1 (h, w))"
    by (rule xsub_send_eq [OF ok data])
  have a: "xsub_ok s1" "xs_dist s1 = xs_dist s" "\<forall>k. occurs k s1 = requested (request m data) s k" using s1(1) by (auto simp: subs_applied_def)
  have hk': "heap_ok h (add_mset m (held w + M))" using hk by simp
  obtain h1 where h1: "close_checked pool_max m h = Some h1" "heap_ok h1 (held w + M)" by (rule close_checked_ok [OF hk' v])
  have d1: "dist_ok (xs_dist s1)" "fq_members (xs_fq s1) = all_pipes (xs_dist s1)" using a(1) by (auto simp: xsub_ok_def)
  obtain d' h' w' where f: "forward_upstream pool_max ops m s1 (h, w) = Some (True, s1\<lparr>xs_dist := d'\<rparr>, h', w')" "dist_ok d'"
      "all_pipes d' = all_pipes (xs_dist s1)" "heap_ok h' (held w' + M)"
    by (rule forward_ok [OF d1(1) ph v hk]) (use few a(2) in simp_all)
  have "xsub_ok (s1\<lparr>xs_fq := xs_fq s1, xs_dist := d'\<rparr>)"
    by (rule xsub_ok_pipes [OF a(1) _ f(2) _ record_kept_refl]) (use a(1) f(3) d1(2) in \<open>simp_all add: xsub_ok_def\<close>)
  then show ?thesis using s1(2) a f h1 by auto
qed

end
