(* ===== verification/Xsub_Contract.thy ===== *)
theory Xsub_Contract
  imports Xsub_Safety
begin

section \<open>What the subscriber promises\<close>

text \<open>
  The properties of \<open>sockets/pubsub/xsub.cpp\<close> and \<open>sub.cpp\<close> over the lemmas of \<open>Xsub_Safety\<close>, and pipes that are one list of
  tagged frames to run them on.
\<close>

subsection \<open>Reachable states\<close>

text \<open>The calls a subscriber gets, in any order. \<open>w\<close> is what the inbound pipes hold, \<open>v\<close> the outbound ones; \<open>S_env\<close> is
  everything that happens elsewhere: peers write and read, the application makes and closes messages. A call of
  \<open>sub_setsockopt\<close> is a new message followed by \<open>S_send\<close>. The premises are what the rest of the library guarantees: an attached
  pipe is new, a pipe that becomes writable is attached, a frame is sent by a caller that owns it.\<close>

inductive xsub_reach ::
    "nat \<Rightarrow> ('p, 'w) xsub_ops \<Rightarrow> ('p, 'd) pipe_ops \<Rightarrow> ('d \<Rightarrow> hmsg multiset) \<Rightarrow> 'p xsub \<Rightarrow> 'w \<Rightarrow> heap \<Rightarrow> 'd \<Rightarrow> hmsg multiset \<Rightarrow> bool"
  for pool_max ops dops held
where
  S_init: "heap_ok h (held v + M) \<Longrightarrow> xsub_reach pool_max ops dops held (xsub_init filtering invert) w h v M"
| S_env: "xsub_reach pool_max ops dops held s w h v M \<Longrightarrow> heap_ok h' (held v' + M') \<Longrightarrow> xsub_reach pool_max ops dops held s w' h' v' M'"
| S_attach: "xsub_reach pool_max ops dops held s w h v M \<Longrightarrow> p \<notin> all_pipes (xs_dist s) \<Longrightarrow> xsub_attach_pipe ops p s w = Some (s', w')
    \<Longrightarrow> xsub_reach pool_max ops dops held s' w' h v M"
| S_hiccup: "xsub_reach pool_max ops dops held s w h v M \<Longrightarrow> xsub_hiccuped ops p s w = Some (s', w')
    \<Longrightarrow> xsub_reach pool_max ops dops held s' w' h v M"
| S_readable: "xsub_reach pool_max ops dops held s w h v M \<Longrightarrow> xsub_read_activated p s = Some s'
    \<Longrightarrow> xsub_reach pool_max ops dops held s' w h v M"
| S_writable: "xsub_reach pool_max ops dops held s w h v M \<Longrightarrow> p \<in> all_pipes (xs_dist s) \<Longrightarrow> xsub_write_activated p s = Some s'
    \<Longrightarrow> xsub_reach pool_max ops dops held s' w h v M"
| S_terminated: "xsub_reach pool_max ops dops held s w h v M \<Longrightarrow> xsub_pipe_terminated p s = Some s'
    \<Longrightarrow> xsub_reach pool_max ops dops held s' w h v M"
| S_send: "xsub_reach pool_max ops dops held s w h v (add_mset m M) \<Longrightarrow> hm_valid m \<Longrightarrow> msg_bytes h m = Some data
    \<Longrightarrow> few h (add_mset m (held v + M)) (card (all_pipes (xs_dist s)))
    \<Longrightarrow> xsub_send pool_max dops m s (h, v) = Some (taken, s', h', v') \<Longrightarrow> xsub_reach pool_max ops dops held s' w h' v' M"
| S_recv: "xsub_reach pool_max ops dops held s w h v M \<Longrightarrow> xsub_recv ops budget s w = Some (r, s', w')
    \<Longrightarrow> xsub_reach pool_max ops dops held s' w' h v M"
| S_has_in: "xsub_reach pool_max ops dops held s w h v M \<Longrightarrow> xsub_has_in ops budget s w = Some (b, s', w')
    \<Longrightarrow> xsub_reach pool_max ops dops held s' w' h v M"

lemma xsub_reach_inv:
  assumes tf: "takes_frames ops backlog" and ph: "pipes_hold dops held" and r: "xsub_reach pool_max ops dops held s w h v M"
  shows "xsub_ok s \<and> heap_ok h (held v + M)"
  using r
proof (induction rule: xsub_reach.induct)
  case (S_attach s w h v M p s' w')
  then show ?case using xsub_attach_ok [of s p ops w] by auto
next
  case (S_hiccup s w h v M p s' w')
  then show ?case by (auto simp: xsub_hiccuped_def bind_eq_Some_conv)
next
  case (S_readable s w h v M p s')
  then show ?case using xsub_activated_ok(1) [of s p] by auto
next
  case (S_writable s w h v M p s')
  then show ?case using xsub_activated_ok(2) [of s p] by auto
next
  case (S_terminated s w h v M p s')
  then show ?case using xsub_terminated_ok [of s p] by auto
next
  case (S_send s w h v m M data taken s' h' v')
  then show ?case using xsub_send_ok [OF _ ph S_send.hyps(2,3) _ S_send.hyps(4), of pool_max] by auto
next
  case (S_recv s w h v M budget r s' w')
  then show ?case using xsub_recv_ok [OF tf, of s budget w] by auto
next
  case (S_has_in s w h v M budget b s' w')
  then show ?case using xsub_has_in_ok [OF tf, of s budget w] by auto
qed (simp_all add: xsub_init_ok)

subsection \<open>Pipes to run on\<close>

definition tagged_read :: "nat \<Rightarrow> (nat \<times> msg) list \<Rightarrow> msg option \<times> (nat \<times> msg) list" where
  "tagged_read p w = (case find (\<lambda>x. fst x = p) w of None \<Rightarrow> (None, w) | Some x \<Rightarrow> (Some (snd x), remove1 x w))"

text \<open>Subscriptions sent to a pipe are tagged with its number plus 100.\<close>

definition tagged_pipes :: "(nat, (nat \<times> msg) list) xsub_ops" where
  "tagged_pipes =
     \<lparr>so_fq = \<lparr>fo_read = tagged_read, fo_admit = (\<lambda>p w. (Missed, w)), fo_candidate = (\<lambda>_ _. True),
        fo_check_read = (\<lambda>p w. (find (\<lambda>x. fst x = p) w \<noteq> None, w)), fo_discard = (\<lambda>p w. (Nothing None, w))\<rparr>,
      so_retain = (\<lambda>p w. (True, w)), so_release = (\<lambda>p w. w), so_terminate = (\<lambda>p w. w),
      so_write = (\<lambda>p m w. (True, w @ [(100 + p, m)])), so_flush = (\<lambda>p w. w)\<rparr>"

lemma tagged_takes_frames: "takes_frames tagged_pipes length"
proof -
  have "length (remove1 x w) < length w" if "find (\<lambda>x. fst x = p) w = Some x" for p and x :: "nat \<times> msg" and w
  proof -
    have "x \<in> set w" using that by (auto simp: find_Some_iff)
    then show ?thesis using length_pos_if_in_set [of x w] by (simp add: length_remove1)
  qed
  then show ?thesis by (auto simp: takes_frames_def tagged_pipes_def tagged_read_def split: option.splits)
qed

definition sub_frame :: "byte list \<Rightarrow> bool \<Rightarrow> msg" where
  "sub_frame data unfinished = (msg_init :: msg)\<lparr>msg_data := data, msg_flags := if unfinished then 1 else 0\<rparr>"

text \<open>A filtering socket with the topics \<open>a\<close> (twice) and \<open>ab\<close>, and the same socket with a peer.\<close>

definition two_topics :: "nat xsub" where
  "two_topics = subscribe_topic [97, 98] (subscribe_topic [97] (subscribe_topic [97] (xsub_init True False)))"

definition listening :: "nat xsub" where
  "listening = fst (the (xsub_attach_pipe tagged_pipes 4 two_topics []))"

lemma subscribe_topic_keeps: "xsub_ok s \<Longrightarrow> xsub_ok (subscribe_topic topic s)"
  using subscribe_topic_ok [of s topic] by (simp add: subs_applied_def)

lemma two_topics_ok: "xsub_ok two_topics"
  unfolding two_topics_def by (intro subscribe_topic_keeps xsub_init_ok)

lemma two_topics_pipes: "4 \<notin> all_pipes (xs_dist two_topics)"
  by code_simp

lemma listening_ok: "xsub_ok listening"
  using xsub_attach_ok [OF two_topics_ok two_topics_pipes, of tagged_pipes "[]"] by (auto simp: listening_def)

lemma listening_sel: "xs_filter listening" "\<not> xs_recv_protocol_error_pending listening" "xs_message listening = None" "\<not> xs_more_recv listening"
  by code_simp+

definition mixed_queue :: "(nat \<times> msg) list" where
  "mixed_queue = [(4, sub_frame [120] False), (4, sub_frame [97, 99] True)]"

subsection \<open>Receiving\<close>

text \<open>C32: A receive call on a subscriber in order, with nothing buffered, always returns, and what it returns is right. A frame that
  starts a message on a filtering socket matches a subscription (or matches none, when matching is inverted), the socket remembers
  exactly whether more frames of that message follow, and no subscription is touched. In the middle of a message
  it fails only because the message was cut off (\<open>ECONNABORTED\<close>) or is malformed (\<open>EPROTO\<close>), never with \<open>EAGAIN\<close>; between messages it
  fails because a skipped message was malformed, because every pipe was found empty, or because the budget
  of non-matching messages has been thrown away.\<close>

theorem xsub_recv_contract:
  assumes "takes_frames ops backlog" and "xsub_ok s" and "\<not> xs_recv_protocol_error_pending s" and "xs_message s = None"
  shows "\<exists>r s' w'. xsub_recv ops budget s w = Some (r, s', w') \<and> xsub_ok s' \<and> subscribed s' = subscribed s
    \<and> (case r of
         Inr m \<Rightarrow> xs_more_recv s' = has_more m \<and> (xs_more_recv s \<or> \<not> xs_filter s \<or> wanted (msg_data m) s)
       | Inl e \<Rightarrow> \<not> xs_more_recv s'
           \<and> (if xs_more_recv s then e = ECONNABORTED \<or> e = EPROTO
              else e = EPROTO \<or> e = EAGAIN \<and> (fq_live (xs_fq s') = {} \<or> xs_filter s \<and> backlog w' + budget \<le> backlog w)))"
proof -
  obtain r s' w' where r: "xsub_recv ops budget s w = Some (r, s', w')" "xsub_ok s'" "recv_law backlog budget s w r s' w'"
    using xsub_recv_ok [OF assms(1,2), of budget w] assms(3,4) by auto
  then have "subscribed s' = subscribed s" using same_upstream_sub by (auto simp: recv_law_def)
  then show ?thesis using r by (auto simp: recv_law_def)
qed

theorem xsub_recv_contract_witness:
  "\<exists>s'. xsub_recv tagged_pipes 64 listening mixed_queue = Some (Inr (sub_frame [97, 99] True), s', []) \<and> xsub_ok s' \<and> xs_more_recv s'
    \<and> wanted [97, 99] listening"
proof -
  have r: "map_option (\<lambda>(r, s, w). (r, w)) (xsub_recv tagged_pipes 64 listening mixed_queue) = Some (Inr (sub_frame [97, 99] True), [])"
    and m: "has_more (sub_frame [97, 99] True)" "msg_data (sub_frame [97, 99] True) = [97, 99]" by code_simp+
  obtain s' where s': "xsub_recv tagged_pipes 64 listening mixed_queue = Some (Inr (sub_frame [97, 99] True), s', [])" using r by auto
  show ?thesis
    using xsub_recv_contract [OF tagged_takes_frames listening_ok listening_sel(2,3), of 64 mixed_queue] listening_sel(1,4) m unfolding s' by auto
qed



subsection \<open>Peers\<close>

text \<open>C34: A peer that is attached learns what the socket is subscribed to: each subscribed topic is written to the new pipe
  once, as a subscription, and the pipe is flushed after the last. The pipe takes part in receiving and in sending from then on, the
  subscriptions are unchanged and the socket stays in order.\<close>

theorem new_peer_gets_subscriptions:
  assumes "xsub_ok s" and "p \<notin> all_pipes (xs_dist s)"
  shows "\<exists>s' topics. distinct topics \<and> set topics = subscribed s
    \<and> xsub_attach_pipe ops p s w
      = Some (s', so_flush ops p (fold (\<lambda>topic w. snd (so_write ops p (init_subscribe topic) w)) topics (snd (fo_check_read (so_fq ops) p w))))
    \<and> xsub_ok s' \<and> all_pipes (xs_dist s') = insert p (all_pipes (xs_dist s)) \<and> subscribed s' = subscribed s
    \<and> p \<in> fq_live (xs_fq s') \<and> p \<in> eligible (xs_dist s')"
proof -
  have "send_subscription ops p = (\<lambda>topic w. snd (so_write ops p (init_subscribe topic) w))" by (simp add: fun_eq_iff send_subscription_def)
  then show ?thesis using xsub_attach_ok [OF assms, of ops w] by metis
qed

theorem new_peer_gets_subscriptions_witness:
  "\<exists>s' topics. distinct topics \<and> set topics = subscribed two_topics
    \<and> xsub_attach_pipe tagged_pipes 4 two_topics [] = Some (s', map (\<lambda>topic. (104, init_subscribe topic)) topics) \<and> xsub_ok s'"
proof -
  note n = new_peer_gets_subscriptions [OF two_topics_ok two_topics_pipes, of tagged_pipes "[]"]
  have "fold (\<lambda>topic w. snd (so_write tagged_pipes 4 (init_subscribe topic) w)) topics w = w @ map (\<lambda>topic. (104, init_subscribe topic)) topics" for topics w
    by (induction topics arbitrary: w) (simp_all add: tagged_pipes_def)
  moreover have "so_flush tagged_pipes 4 w = w" "snd (fo_check_read (so_fq tagged_pipes) 4 w) = w" for w by (simp_all add: tagged_pipes_def)
  ultimately show ?thesis using n by (metis append_Nil)
qed

subsection \<open>The skip budget\<close>

text \<open>Reading the given frames, in this order, from a pipe.\<close>

fun pulls :: "('p, 'w) xsub_ops \<Rightarrow> 'p \<Rightarrow> msg list \<Rightarrow> 'w \<Rightarrow> 'w option" where
  "pulls ops p [] w = Some w"
| "pulls ops p (m # ms) w =
     (case fo_read (so_fq ops) p w of (Some m', w) \<Rightarrow> if m' = m then pulls ops p ms w else None | (None, w) \<Rightarrow> None)"

lemma single_live:
  assumes "fq_ok q" "fq_live q = {p}"
  shows "fq_active q = 1" "fq_current q = 0" "arr_get 0 (fq_pipes q) = Some p"
proof -
  have c: "fq_core q" using assms(1) by (simp add: fq_ok_def)
  then have "distinct (take (fq_active q) (fq_items q))" "length (take (fq_active q) (fq_items q)) = fq_active q"
    by (simp_all add: fq_core_def arr_ok_def)
  then show a: "fq_active q = 1" using distinct_card [of "take (fq_active q) (fq_items q)"] assms(2) by (simp add: fq_live_def)
  then show z: "fq_current q = 0" using c by (simp add: fq_core_def)
  show "arr_get 0 (fq_pipes q) = Some p"
    using current_get [OF c] nth_live [OF c, of 0] a z assms(2) by simp
qed

lemma single_read:
  assumes q: "fq_ok q" "fq_live q = {p}" "\<not> fq_more q" "\<not> fq_multipart_abort_pending q"
    and r: "fo_read ops p w = (Some m, w')"
  shows "recvpipe_internal ops True False q w = Some (Inr (m, p), q\<lparr>fq_more := has_more m\<rparr>, w')"
proof -
  note s = single_live [OF q(1,2)]
  have "normalize_state q = q" using q(1) by (intro normalize_id) (simp add: fq_ok_def)
  then show ?thesis
    using s q(3,4) r by (cases q) (simp add: recvpipe_internal_def recv_loop.simps fq_fetch_def next_turn_def Let_def)
qed

text \<open>A filtering socket between messages, with one peer that may have something to read; holding the pipe alive has no effect on
  what the pipes hold.\<close>

definition one_peer :: "('p, 'w) xsub_ops \<Rightarrow> 'p \<Rightarrow> 'p xsub \<Rightarrow> bool" where
  "one_peer ops p s \<longleftrightarrow> xsub_ok s \<and> xs_filter s \<and> xs_message s = None \<and> \<not> xs_more_recv s \<and> \<not> xs_recv_protocol_error_pending s
     \<and> fq_live (xs_fq s) = {p} \<and> (\<forall>w. so_retain ops p w = (True, w) \<and> so_release ops p w = w)"

lemma one_peer_read:
  assumes o: "one_peer ops p s" and r: "fo_read (so_fq ops) p w = (Some m, w')"
  shows "recvpipe ops s w = Some (Inr (m, p), s\<lparr>xs_fq := (xs_fq s)\<lparr>fq_more := has_more m\<rparr>\<rparr>, w')" "\<not> fq_more (xs_fq s)"
    "xsub_match m s \<longleftrightarrow> wanted (msg_data m) s"
proof -
  have s: "fq_ok (xs_fq s)" "fq_live (xs_fq s) = {p}" "\<not> fq_more (xs_fq s)" "\<not> fq_multipart_abort_pending (xs_fq s)" "subs_ok s"
    using o by (auto simp: one_peer_def xsub_ok_def exposed_def)
  then show "recvpipe ops s w = Some (Inr (m, p), s\<lparr>xs_fq := (xs_fq s)\<lparr>fq_more := has_more m\<rparr>\<rparr>, w')" "\<not> fq_more (xs_fq s)"
    by (simp_all add: recvpipe_def single_read [OF s(1-4) r])
  show "xsub_match m s \<longleftrightarrow> wanted (msg_data m) s" by (rule match_wanted [OF s(5)])
qed

lemma same_turn: "\<not> fq_more (xs_fq s) \<Longrightarrow> \<not> b \<Longrightarrow> s\<lparr>xs_fq := (xs_fq s)\<lparr>fq_more := b\<rparr>\<rparr> = (s :: 'p xsub)"
  by (cases s; cases "xs_fq s") simp

lemma skip_one:
  assumes o: "one_peer ops p s" and r: "fo_read (so_fq ops) p w = (Some m, w')" and m: "\<not> has_more m" "\<not> wanted (msg_data m) s"
  shows "xsub_recv_loop ops budget skipped s w
      = (if skipped + 1 \<ge> budget then Some (Inl EAGAIN, s, w') else xsub_recv_loop ops budget (skipped + 1) s w')"
    "xsub_probe_loop ops budget skipped s w
      = (if skipped + 1 \<ge> budget then Some (False, s, w') else xsub_probe_loop ops budget (skipped + 1) s w')"
proof -
  have s: "xs_filter s" "\<not> xs_more_recv s" "so_retain ops p w' = (True, w')" "so_release ops p w' = w'" using o by (auto simp: one_peer_def)
  note e = one_peer_read [OF o r]
  have rd: "recvpipe ops s w = Some (Inr (m, p), s, w')" using e same_turn [OF e(2) m(1)] by simp
  have "discard_filtered_message ops m p s w' = Some (None, s, w')"
    using s m(1) by (simp add: discard_filtered_message_def skip_rest.simps [of ops False] end_pipe_def)
  then show "xsub_recv_loop ops budget skipped s w
      = (if skipped + 1 \<ge> budget then Some (Inl EAGAIN, s, w') else xsub_recv_loop ops budget (skipped + 1) s w')"
    "xsub_probe_loop ops budget skipped s w
      = (if skipped + 1 \<ge> budget then Some (False, s, w') else xsub_probe_loop ops budget (skipped + 1) s w')"
    using s rd e(3) m(2) by (simp_all add: xsub_recv_loop.simps [of ops budget skipped] xsub_probe_loop.simps [of ops budget skipped])
qed

lemma skip_all:
  assumes o: "one_peer ops p s" and "\<forall>m \<in> set ms. \<not> has_more m \<and> \<not> wanted (msg_data m) s" "pulls ops p ms w = Some w'"
    "ms \<noteq> []" "skipped + length ms = budget"
  shows "xsub_recv_loop ops budget skipped s w = Some (Inl EAGAIN, s, w') \<and> xsub_probe_loop ops budget skipped s w = Some (False, s, w')"
  using assms(2-)
proof (induction ms arbitrary: skipped w)
  case (Cons m ms)
  then obtain w1 where r: "fo_read (so_fq ops) p w = (Some m, w1)" "pulls ops p ms w1 = Some w'"
    by (auto split: option.splits prod.splits if_splits)
  note one = skip_one [OF o r(1), of budget skipped]
  show ?case using one Cons r(2) by (cases "ms = []") auto
qed simp

text \<open>C36: The budget of non-matching messages makes the socket report that there is nothing to read while there is. With
  one peer whose pipe holds as many non-matching messages as the budget allows, followed by a matching one, the receive call
  fails with \<open>EAGAIN\<close> and the readiness probe answers no, with the pipe still active and the matching message next in it; the
  state of the socket is exactly what it was, and one more call, which no event announces, delivers the message.\<close>

theorem skip_budget_hides_message:
  assumes "one_peer ops p s" and "0 < budget" and "length ms = budget" and "\<forall>m \<in> set ms. \<not> has_more m \<and> \<not> wanted (msg_data m) s"
    and "pulls ops p ms w = Some w'" and "fo_read (so_fq ops) p w' = (Some m, w'')" and "wanted (msg_data m) s"
  shows "xsub_recv ops budget s w = Some (Inl EAGAIN, s, w') \<and> xsub_has_in ops budget s w = Some (False, s, w')
    \<and> p \<in> fq_live (xs_fq s) \<and> (\<exists>s'. xsub_recv ops budget s w' = Some (Inr (reset_request_reply_metadata m), s', w''))"
proof -
  have s: "xs_filter s" "\<not> xs_more_recv s" "xs_message s = None" "\<not> xs_recv_protocol_error_pending s" using assms(1) by (auto simp: one_peer_def)
  have ne: "ms \<noteq> []" using assms(2,3) by auto
  note sk = skip_all [OF assms(1,4,5) ne, of 0 budget]
  have "xsub_recv ops budget s w = Some (Inl EAGAIN, s, w')" "xsub_has_in ops budget s w = Some (False, s, w')"
    using sk assms(3) s by (simp_all add: xsub_recv_def xsub_has_in_def)
  moreover have "p \<in> fq_live (xs_fq s)" using assms(1) by (simp add: one_peer_def)
  moreover have "\<exists>s'. xsub_recv ops budget s w' = Some (Inr (reset_request_reply_metadata m), s', w'')"
    using s one_peer_read [OF assms(1,6)] assms(7) by (simp add: xsub_recv_def xsub_recv_loop.simps [of ops budget 0] xsub_match_def)
  ultimately show ?thesis by blast
qed

lemma listening_wanted: "wanted [97] listening" "\<not> wanted [120] listening"
proof -
  have m: "xsub_match (sub_frame [97] False) listening" "\<not> xsub_match (sub_frame [120] False) listening" by code_simp+
  have "subs_ok listening" using listening_ok by (simp add: xsub_ok_def)
  note w = match_wanted [OF this]
  show "wanted [97] listening" using m(1) w [of "sub_frame [97] False"] by (simp add: sub_frame_def)
  show "\<not> wanted [120] listening" using m(2) w [of "sub_frame [120] False"] by (simp add: sub_frame_def)
qed

theorem skip_budget_hides_message_witness:
  "xsub_recv tagged_pipes 2 listening [(4, sub_frame [120] False), (4, sub_frame [120] False), (4, sub_frame [97] False)]
     = Some (Inl EAGAIN, listening, [(4, sub_frame [97] False)])"
proof -
  let ?x = "sub_frame [120] False" and ?a = "sub_frame [97] False"
  have l: "fq_live (xs_fq listening) = {4}" by code_simp
  have o: "one_peer tagged_pipes 4 listening"
    using listening_ok listening_sel l by (simp add: one_peer_def) (simp add: tagged_pipes_def)
  have d: "msg_data ?x = [120]" "msg_data ?a = [97]" "\<not> has_more ?x" by code_simp+
  have p: "pulls tagged_pipes 4 [?x, ?x] [(4, ?x), (4, ?x), (4, ?a)] = Some [(4, ?a)]" "fo_read (so_fq tagged_pipes) 4 [(4, ?a)] = (Some ?a, [])"
    by (simp_all add: tagged_pipes_def tagged_read_def)
  show ?thesis using skip_budget_hides_message [OF o _ _ _ p, of 2] d listening_wanted by simp
qed

subsection \<open>Subscription options\<close>

lemma command_flags: "hm_shared (set_flags f_subscribe m) = hm_shared m" "hm_shared (set_flags f_cancel m) = hm_shared m"
  by (simp_all add: hm_shared_def and.assoc bit.conj_disj_distrib2)

lemma flagged_msg [simp]:
  "msg_bytes h (set_flags f m) = msg_bytes h m" "hm_valid (set_flags f m) = hm_valid m" "body_addr (set_flags f m) = body_addr m"
  "group_addr (set_flags f m) = group_addr m" "msg_ok h (set_flags f m) = msg_ok h m"
  by (cases "hm_body m"; simp add: set_flags_def msg_bytes_def hm_valid_def body_addr_def group_addr_def msg_ok_def)+

lemma flagged_heap:
  assumes "hm_shared (set_flags f m) = hm_shared m" "heap_ok h (add_mset m M)"
  shows "heap_ok h (add_mset (set_flags f m) M)"
  using assms by (auto simp: heap_ok_def split: if_splits)

text \<open>The message an option call makes of its topic.\<close>

lemma option_message:
  assumes hk: "heap_ok h (N + M)" and f: "fresh a h" and mem: "a \<noteq> None" "length topic + sizeof_content < 2 ^ 64"
    and few: "few h (N + M) (n + 2)" and cmd: "cmd = f_subscribe \<or> cmd = f_cancel"
  obtains m h' where "init_size topic a h = (Inr m, h')" "hm_valid (set_flags cmd m)" "msg_bytes h' (set_flags cmd m) = Some topic"
    "heap_ok h' (N + add_mset (set_flags cmd m) M)" "few h' (add_mset (set_flags cmd m) (N + M)) n"
    "is_subscribe (set_flags cmd m) = (cmd = f_subscribe)" "is_cancel (set_flags cmd m) = (cmd = f_cancel)"
proof -
  have "\<exists>m h'. init_size topic a h = (Inr m, h')" using mem by (auto simp: init_size_def)
  then obtain m h' where r: "init_size topic a h = (Inr m, h')" by blast
  note i = init_size_ok [OF hk f r, unfolded sum.case]
  have z: "msg_flags m = 0" and c: "fcard (fmdom (hp_contents h')) \<le> fcard (fmdom (hp_contents h)) + 1"
    using r by (auto simp: init_size_def hm_with_def put_content_def fcard_finsert_if split: if_splits option.splits)
  have "hm_shared (set_flags cmd m) = hm_shared m" using cmd command_flags by auto
  then have "heap_ok h' (add_mset (set_flags cmd m) (N + M))" using i by (intro flagged_heap) auto
  moreover have "few h' (add_mset (set_flags cmd m) (N + M)) n" using few c by (simp add: few_def)
  moreover have "is_subscribe (set_flags cmd m) = (cmd = f_subscribe)" "is_cancel (set_flags cmd m) = (cmd = f_cancel)"
    using cmd z by (auto simp: is_subscribe_def is_cancel_def)
  ultimately show thesis using i r by (intro that) auto
qed

text \<open>C35: What the options \<open>SUBSCRIBE\<close> and \<open>UNSUBSCRIBE\<close> of a SUB socket do. The call succeeds, the socket stays in order, and no
  reference to the heap is lost. Subscribing counts the topic once more, unsubscribing once less (not below zero) and
  every other topic keeps its count; but unsubscribing from a topic that starts with the byte 1 leaves that topic
  subscribed and adds a subscription to the rest of it.\<close>

theorem sub_option_effect:
  assumes "xsub_ok s" and "pipes_hold ops held" and "heap_ok h (held v + M)" and "fresh a h" and "a \<noteq> None"
    and "length topic + sizeof_content < 2 ^ 64" and "few h (held v + M) (card (all_pipes (xs_dist s)) + 2)"
  shows "\<exists>s' h' v'. sub_setsockopt pool_max ops (Some subscribe) topic a s (h, v) = Some (Inr True, s', h', v') \<and> xsub_ok s'
    \<and> heap_ok h' (held v' + M)
    \<and> (\<forall>k. occurs k s' =
         (if subscribe then (if k = topic then occurs k s + 1 else occurs k s)
          else if topic \<noteq> [] \<and> hd topic = 1 then (if k = tl topic then occurs k s + 1 else occurs k s)
          else if k = topic then occurs k s - 1 else occurs k s))"
proof -
  let ?cmd = "if subscribe then f_subscribe else f_cancel"
  have c: "?cmd = f_subscribe \<or> ?cmd = f_cancel" by simp
  obtain m h1 where m: "init_size topic a h = (Inr m, h1)" "hm_valid (set_flags ?cmd m)" "msg_bytes h1 (set_flags ?cmd m) = Some topic"
    "heap_ok h1 (held v + add_mset (set_flags ?cmd m) M)" "few h1 (add_mset (set_flags ?cmd m) (held v + M)) (card (all_pipes (xs_dist s)))"
    "is_subscribe (set_flags ?cmd m) = (?cmd = f_subscribe)" "is_cancel (set_flags ?cmd m) = (?cmd = f_cancel)"
    by (rule option_message [OF assms(3-7) c])
  obtain s' h' v' where s': "xsub_send pool_max ops (set_flags ?cmd m) s (h1, v) = Some (True, s', h', v')" "xsub_ok s'" "heap_ok h' (held v' + M)"
      "\<forall>k. occurs k s' = requested (request (set_flags ?cmd m) topic) s k"
    using xsub_send_ok [OF assms(1,2) m(2,3,4,5), of pool_max] by blast
  have "sub_setsockopt pool_max ops (Some subscribe) topic a s (h, v) = Some (Inr True, s', h', v')"
    using s'(1) by (simp add: sub_setsockopt_def m(1))
  then show ?thesis using s'(2-4) m(6,7) by (auto simp: request_def requested_def)
qed

lemma demo_start: "heap_ok empty_heap (demo_held [] + {#})" "fresh (Some 1) empty_heap" "few empty_heap (demo_held [] + {#}) 2"
  using empty_heap_ok by (simp_all add: fresh_def few_def empty_heap_def fcard_fempty)

theorem sub_option_effect_witness:
  "\<exists>s' h' v'. sub_setsockopt 4 demo_pipes (Some False) [1, 97] (Some 1) (subscribe_topic [1, 97] (xsub_init True False)) (empty_heap, [])
       = Some (Inr True, s', h', v')
     \<and> occurs [1, 97] s' = 1 \<and> occurs [97] s' = 1"
proof -
  let ?s = "subscribe_topic [1, 97] (xsub_init True False :: nat xsub)"
  have o: "occurs [1, 97] ?s = 1" "occurs [97] ?s = 0" and p: "all_pipes (xs_dist ?s) = {}" by code_simp+
  have "few empty_heap (demo_held [] + {#}) (card (all_pipes (xs_dist ?s)) + 2)" using demo_start(3) by (simp only: p card.empty add_0_left)
  note e = sub_option_effect [OF subscribe_topic_keeps [OF xsub_init_ok] demo_pipes_hold demo_start(1,2) _ _ this, of "[1, 97]" 4 False]
  obtain s' h' v' where r: "sub_setsockopt 4 demo_pipes (Some False) [1, 97] (Some 1) ?s (empty_heap, []) = Some (Inr True, s', h', v')"
      and k: "\<forall>k. occurs k s' = (if k = [97] then occurs k ?s + 1 else occurs k ?s)"
    using e by (simp del: trie_count.simps) blast
  show ?thesis using r k [rule_format, of "[1, 97]"] k [rule_format, of "[97]"] o by (auto simp del: trie_count.simps)
qed

subsection \<open>Every call returns\<close>

text \<open>C31: A subscriber never gets stuck. Whatever the application and the peers have done so far, in any order and with any
  behaviour of the pipes that hands out only frames that are there, each call of the socket returns: the receive loop, the readiness probe,
  attaching a new pipe, repeating the subscriptions to a pipe that was reset, the activations, the end of a pipe, and sending a message.
  No assertion fails, no loop runs for ever, and no reference to the heap is lost or released twice.\<close>

theorem xsub_calls_return:
  assumes "takes_frames ops backlog" and "pipes_hold dops held" and "xsub_reach pool_max ops dops held s w h v M"
  shows "xsub_ok s \<and> heap_ok h (held v + M) \<and> xsub_recv ops budget s w \<noteq> None \<and> xsub_has_in ops budget s w \<noteq> None
    \<and> (p \<notin> all_pipes (xs_dist s) \<longrightarrow> xsub_attach_pipe ops p s w \<noteq> None) \<and> xsub_hiccuped ops p s w \<noteq> None
    \<and> xsub_read_activated p s \<noteq> None \<and> (p \<in> all_pipes (xs_dist s) \<longrightarrow> xsub_write_activated p s \<noteq> None)
    \<and> xsub_pipe_terminated p s \<noteq> None
    \<and> (\<forall>m M'. M = add_mset m M' \<and> hm_valid m \<and> msg_bytes h m \<noteq> None \<and> few h (add_mset m (held v + M')) (card (all_pipes (xs_dist s)))
         \<longrightarrow> xsub_send pool_max dops m s (h, v) \<noteq> None)"
proof -
  have inv: "xsub_ok s" "heap_ok h (held v + M)" using xsub_reach_inv [OF assms] by auto
  have "xsub_hiccuped ops p s w \<noteq> None"
    by (rule snapshot_ok [of s]) (use inv(1) in \<open>auto simp: xsub_ok_def xsub_hiccuped_def\<close>)
  moreover have "xsub_send pool_max dops m s (h, v) \<noteq> None"
    if "M = add_mset m M'" "hm_valid m" "msg_bytes h m \<noteq> None" "few h (add_mset m (held v + M')) (card (all_pipes (xs_dist s)))" for m M'
    using xsub_send_ok [OF inv(1) assms(2) that(2) _ inv(2) [unfolded that(1)] that(4), of _ pool_max] that(3) by (auto simp: ex_bool_eq)
  moreover have "xsub_attach_pipe ops p s w \<noteq> None" if "p \<notin> all_pipes (xs_dist s)" using xsub_attach_ok [OF inv(1) that, of ops w] by auto
  moreover have "xsub_write_activated p s \<noteq> None" if "p \<in> all_pipes (xs_dist s)" using xsub_activated_ok(2) [OF inv(1) that] by auto
  moreover have "xsub_read_activated p s \<noteq> None" "xsub_pipe_terminated p s \<noteq> None" "xsub_recv ops budget s w \<noteq> None" "xsub_has_in ops budget s w \<noteq> None"
    using xsub_activated_ok(1) [OF inv(1), of p] xsub_terminated_ok [OF inv(1), of p] xsub_recv_ok [OF assms(1) inv(1), of budget w]
      xsub_has_in_ok [OF assms(1) inv(1), of budget w] by auto
  ultimately show ?thesis using inv by blast
qed

theorem xsub_calls_return_witness:
  "\<exists>s w. xsub_attach_pipe tagged_pipes 4 (xsub_init False False :: nat xsub) [] = Some (s, w)
     \<and> xsub_recv tagged_pipes 64 s mixed_queue \<noteq> None \<and> xsub_write_activated 4 s \<noteq> None \<and> xsub_pipe_terminated 4 s \<noteq> None"
proof -
  note c = xsub_calls_return [OF tagged_takes_frames demo_pipes_hold]
  have 0: "xsub_reach 4 tagged_pipes demo_pipes demo_held (xsub_init False False) [] empty_heap [] {#}"
    using demo_start(1) by (intro S_init) simp
  have new: "4 \<notin> all_pipes (xs_dist (xsub_init False False :: nat xsub))" by code_simp
  obtain s w where a: "xsub_attach_pipe tagged_pipes 4 (xsub_init False False :: nat xsub) [] = Some (s, w)" "all_pipes (xs_dist s) = {4}"
    using xsub_attach_ok [OF xsub_init_ok new, of tagged_pipes "[]"] by (auto simp: xsub_init_def dist_init_ok)
  have "xsub_reach 4 tagged_pipes demo_pipes demo_held s mixed_queue empty_heap [] {#}"
    using S_env [OF S_attach [OF 0 new a(1)], of empty_heap "[]" "{#}" mixed_queue] demo_start(1) by simp
  from c [OF this, of 64 4] show ?thesis using a by auto
qed

end
