(* ===== verification/Dealer.thy ===== *)
theory Dealer
  imports Lb_Safety Fq_Safety
begin

section \<open>The DEALER socket\<close>

text \<open>
  Models \<open>sockets/dealer/dealer.cpp\<close>: messages come in through the fair queue and go out through the load balancer over the same pipes. For
  requests the socket remembers the routers it was connected to, so that it can choose one by weight while none is
  connected. From the base class it uses the acceptance of peer weights and the reclassification of the head of a
  pipe, which calls back into the socket and is part of the model (\<open>sockets/common/socket_base_dispatch.cpp\<close>, \<open>socket_base_api.cpp\<close>). What a pipe
  answers is a parameter; null arguments and a failing copy of a string are left out.
\<close>

subsection \<open>State and environment\<close>

record request_route =
  rr_peer_rid :: "byte list"
  rr_weight :: nat
  rr_running_value :: int

text \<open>A \<open>std::map\<close> from endpoints: a list in the order of its keys.\<close>

type_synonym route_history = "(byte list \<times> request_route) list"

primrec history_put :: "byte list \<Rightarrow> request_route \<Rightarrow> route_history \<Rightarrow> route_history" where
  "history_put k r [] = [(k, r)]"
| "history_put k r (x # xs) =
     (if k < fst x then (k, r) # x # xs else if k = fst x then (k, r) # xs else x # history_put k r xs)"

definition history_erase :: "byte list \<Rightarrow> route_history \<Rightarrow> route_history" where
  "history_erase k xs = filter (\<lambda>x. fst x \<noteq> k) xs"

record 'p dealer =
  dl_fq :: "'p fq"
  dl_lb :: "'p lb"
  dl_request_route_history :: route_history
  dl_probe_router :: bool

text \<open>What the head of a pipe of a single-lane pair is; data and requests are for the application, replies and control frames
  for the socket itself.\<close>

datatype head_kind = Head_empty | Head_data | Head_request | Head_reply | Head_error_reply | Head_control | Head_invalid

definition public_head :: "head_kind \<Rightarrow> bool" where
  "public_head head \<longleftrightarrow> head = Head_data \<or> head = Head_request"

text \<open>\<open>do_probe\<close> writes the probe message; \<open>do_recorded_weight\<close> is the weight a peer announced, \<open>do_weight_lane\<close> that it may be
  applied now (the application lane, its pair ready if there is one); \<open>do_send_weight\<close> announces the own weight, \<open>do_local_weight\<close>; \<open>do_weight_changed\<close>
  wakes writers and reports an event; \<open>do_single_lane\<close> that the head of the pipe is to be classified;
  \<open>do_private_head\<close> queues the pipe for the request completions.\<close>

record ('p, 'w) dealer_ops =
  do_fq :: "('p, 'w) fq_ops"
  do_lb :: "('p, 'w) lb_ops"
  do_probe :: "'p \<Rightarrow> 'w \<Rightarrow> 'w"
  do_recorded_weight :: "'p \<Rightarrow> 'w \<Rightarrow> nat option"
  do_weight_lane :: "'p \<Rightarrow> 'w \<Rightarrow> bool"
  do_local_weight :: nat
  do_send_weight :: "'p \<Rightarrow> 'w \<Rightarrow> 'w"
  do_weight_changed :: "'p \<Rightarrow> nat \<Rightarrow> 'w \<Rightarrow> 'w"
  do_lifecycle_active :: "'p \<Rightarrow> 'w \<Rightarrow> bool"
  do_connection_id :: "'p \<Rightarrow> 'w \<Rightarrow> u64"
  do_application_ready :: "'p \<Rightarrow> 'w \<Rightarrow> bool"
  do_router_peer :: "'p \<Rightarrow> bool"
  do_single_lane :: "'p \<Rightarrow> 'w \<Rightarrow> bool \<times> 'w"
  do_head :: "'p \<Rightarrow> 'w \<Rightarrow> head_kind \<times> 'w"
  do_terminate :: "'p \<Rightarrow> 'w \<Rightarrow> 'w"
  do_private_head :: "'p \<Rightarrow> 'w \<Rightarrow> 'w"

definition dealer_init :: "'p dealer" where
  "dealer_init = \<lparr>dl_fq = fq_init True, dl_lb = lb_init, dl_request_route_history = [], dl_probe_router = False\<rparr>"

subsection \<open>Remembered routes and weights\<close>

definition remember_request_route :: "('p, 'w) dealer_ops \<Rightarrow> 'p \<Rightarrow> nat \<Rightarrow> 'p dealer \<Rightarrow> 'p dealer" where
  "remember_request_route ops p weight s =
     (let endpoint = lo_endpoint (do_lb ops) p in
      if \<not> do_router_peer ops p \<or> endpoint = [] then s
      else s\<lparr>dl_request_route_history :=
               history_put endpoint \<lparr>rr_peer_rid = lo_routing_id (do_lb ops) p, rr_weight = weight, rr_running_value = 0\<rparr>
                 (dl_request_route_history s)\<rparr>)"

definition update_request_route_weight :: "('p, 'w) dealer_ops \<Rightarrow> 'p \<Rightarrow> nat \<Rightarrow> 'p dealer \<Rightarrow> 'p dealer" where
  "update_request_route_weight ops p weight s =
     (let endpoint = lo_endpoint (do_lb ops) p in
      if \<not> do_router_peer ops p then s
      else (case map_of (dl_request_route_history s) endpoint of
              Some r \<Rightarrow> s\<lparr>dl_request_route_history := history_put endpoint (r\<lparr>rr_weight := weight\<rparr>) (dl_request_route_history s)\<rparr>
            | None \<Rightarrow> remember_request_route ops p weight s))"

definition apply_peer_weight :: "('p, 'w) dealer_ops \<Rightarrow> 'p \<Rightarrow> nat \<Rightarrow> 'p dealer \<Rightarrow> 'w \<Rightarrow> ('p dealer \<times> 'w) option" where
  "apply_peer_weight ops p weight s w =
     (if \<not> lb_contains p (dl_lb s) then Some (s, w)
      else
        do { let changed = (lb_weight p (dl_lb s) \<noteq> weight);
             (l, w) \<leftarrow> lb_set_weight (do_lb ops) p weight (dl_lb s) w;
             Some (update_request_route_weight ops p weight (s\<lparr>dl_lb := l\<rparr>), if changed then do_weight_changed ops p weight w else w) })"

definition accept_peer_weight :: "('p, 'w) dealer_ops \<Rightarrow> 'p \<Rightarrow> nat \<Rightarrow> 'p dealer \<Rightarrow> 'w \<Rightarrow> ('p dealer \<times> 'w) option" where
  "accept_peer_weight ops p weight s w =
     (if \<not> do_lifecycle_active ops p w \<or> weight > max_peer_weight \<or> \<not> do_weight_lane ops p w then Some (s, w)
      else apply_peer_weight ops p weight s w)"

definition apply_recorded_peer_weight :: "('p, 'w) dealer_ops \<Rightarrow> 'p \<Rightarrow> 'p dealer \<Rightarrow> 'w \<Rightarrow> ('p dealer \<times> 'w) option" where
  "apply_recorded_peer_weight ops p s w =
     (case do_recorded_weight ops p w of None \<Rightarrow> Some (s, w) | Some weight \<Rightarrow> accept_peer_weight ops p weight s w)"

subsection \<open>Pipes and options\<close>

definition dealer_attach_pipe :: "('p, 'w) dealer_ops \<Rightarrow> 'p \<Rightarrow> 'p dealer \<Rightarrow> 'w \<Rightarrow> ('p dealer \<times> 'w) option" where
  "dealer_attach_pipe ops p s w =
     do { let w = (if dl_probe_router s then do_probe ops p w else w);
          q \<leftarrow> fq_attach p (dl_fq s);
          l \<leftarrow> lb_attach p 100 (dl_lb s);
          let s = remember_request_route ops p (lb_weight p l) (s\<lparr>dl_fq := q, dl_lb := l\<rparr>);
          (s, w) \<leftarrow> apply_recorded_peer_weight ops p s w;
          Some (s, if do_local_weight ops \<noteq> 100 then do_send_weight ops p w else w) }"

definition dealer_read_activated :: "'p \<Rightarrow> 'p dealer \<Rightarrow> 'p dealer option" where
  "dealer_read_activated p s = map_option (\<lambda>q. s\<lparr>dl_fq := q\<rparr>) (fq_activated p (dl_fq s))"

definition dealer_read_deactivated :: "'p \<Rightarrow> 'p dealer \<Rightarrow> 'p dealer option" where
  "dealer_read_deactivated p s = map_option (\<lambda>q. s\<lparr>dl_fq := q\<rparr>) (fq_deactivate p (dl_fq s))"

definition dealer_write_activated :: "'p \<Rightarrow> 'p dealer \<Rightarrow> 'p dealer option" where
  "dealer_write_activated p s = map_option (\<lambda>l. s\<lparr>dl_lb := l\<rparr>) (lb_activated p (dl_lb s))"

definition dealer_pipe_terminated :: "'p \<Rightarrow> 'p dealer \<Rightarrow> 'p dealer option" where
  "dealer_pipe_terminated p s =
     do { q \<leftarrow> fq_pipe_terminated p (dl_fq s);
          l \<leftarrow> lb_pipe_terminated p (dl_lb s);
          Some (s\<lparr>dl_fq := q, dl_lb := l\<rparr>) }"

text \<open>The value of an option is the integer found in the caller's buffer, or \<open>None\<close> when the buffer has another size.\<close>

datatype dealer_option = Opt_conflate | Opt_probe_router | Opt_other

definition dealer_setsockopt :: "dealer_option \<Rightarrow> int option \<Rightarrow> 'p dealer \<Rightarrow> errno + 'p dealer" where
  "dealer_setsockopt opt val s =
     (case (opt, val) of
        (Opt_conflate, Some v) \<Rightarrow> if v = 1 then Inl ENOTSUP else Inl EINVAL
      | (Opt_probe_router, Some v) \<Rightarrow> if v \<ge> 0 then Inr (s\<lparr>dl_probe_router := v \<noteq> 0\<rparr>) else Inl EINVAL
      | _ \<Rightarrow> Inl EINVAL)"

definition dealer_getsockopt :: "dealer_option \<Rightarrow> bool \<Rightarrow> 'p dealer \<Rightarrow> errno + int" where
  "dealer_getsockopt opt int_sized s =
     (if opt = Opt_probe_router \<and> int_sized then Inr (if dl_probe_router s then 1 else 0) else Inl EINVAL)"

subsection \<open>Sending\<close>

definition dealer_send :: "('p, 'w) dealer_ops \<Rightarrow> msg \<Rightarrow> bool \<Rightarrow> 'p dealer \<Rightarrow> 'w \<Rightarrow> ('p lb_rc \<times> 'p dealer \<times> 'w) option" where
  "dealer_send ops m observer s w =
     map_option (\<lambda>(rc, l, w). (rc, s\<lparr>dl_lb := l\<rparr>, w)) (sendpipe (do_lb ops) m observer (dl_lb s) w)"

definition dealer_sendpipe_to ::
    "('p, 'w) dealer_ops \<Rightarrow> 'p \<Rightarrow> msg \<Rightarrow> bool \<Rightarrow> bool \<Rightarrow> 'p dealer \<Rightarrow> 'w \<Rightarrow> ('p lb_rc \<times> 'p dealer \<times> 'w) option" where
  "dealer_sendpipe_to ops p m sndmore observer s w =
     (let m = reset_flags f_more m; m = (if sndmore then set_flags f_more m else m) in
      map_option (\<lambda>(rc, l, w). (rc, s\<lparr>dl_lb := l\<rparr>, w)) (sendpipe_to (do_lb ops) p m observer (dl_lb s) w))"

definition active_submit_candidate :: "('p, 'w) dealer_ops \<Rightarrow> 'w \<Rightarrow> 'p \<Rightarrow> bool" where
  "active_submit_candidate ops w p \<longleftrightarrow>
     do_lifecycle_active ops p w \<and> do_connection_id ops p w \<noteq> 0 \<and> do_application_ready ops p w"

definition routed_submit_candidate :: "('p, 'w) dealer_ops \<Rightarrow> 'w \<Rightarrow> 'p \<Rightarrow> bool" where
  "routed_submit_candidate ops w p \<longleftrightarrow> lo_routing_id (do_lb ops) p \<noteq> [] \<and> active_submit_candidate ops w p"

definition request_submit_candidate :: "('p, 'w) dealer_ops \<Rightarrow> 'w \<Rightarrow> 'p \<Rightarrow> bool" where
  "request_submit_candidate ops w p \<longleftrightarrow> do_router_peer ops p \<and> active_submit_candidate ops w p"

definition submit_candidate :: "('p, 'w) dealer_ops \<Rightarrow> bool \<Rightarrow> 'w \<Rightarrow> 'p \<Rightarrow> bool" where
  "submit_candidate ops request_only w = (if request_only then request_submit_candidate ops w else routed_submit_candidate ops w)"

text \<open>The connection the message was meant for is reported with the result, once it is known.\<close>

definition dealer_send_routed ::
    "('p, 'w) dealer_ops \<Rightarrow> byte list option \<Rightarrow> msg \<Rightarrow> u64 \<Rightarrow> u64 \<Rightarrow> u64 \<Rightarrow> bool \<Rightarrow> 'p dealer \<Rightarrow> 'w
      \<Rightarrow> (u64 option \<times> 'p lb_rc \<times> 'p dealer \<times> 'w) option" where
  "dealer_send_routed ops target_rid m expected_connection_id pair_id generation observer s w =
     (case target_rid of
        None \<Rightarrow> Some (None, Lb_failed ENOTSUP Adm_invalid, s, w)
      | Some rid \<Rightarrow>
          if pair_id = 0 \<or> generation = 0 then Some (None, Lb_failed ENOTSUP Adm_invalid, s, w)
          else
            (case find_connected_pipe (do_lb ops) rid pair_id generation (dl_lb s) of
               None \<Rightarrow> Some (None, Lb_failed EHOSTUNREACH Adm_invalid, s, w)
             | Some p \<Rightarrow>
                 let connection_id = do_connection_id ops p w in
                 if \<not> do_application_ready ops p w \<or> (expected_connection_id \<noteq> 0 \<and> connection_id \<noteq> expected_connection_id)
                 then Some (None, Lb_failed EHOSTUNREACH Adm_invalid, s, w)
                 else map_option (\<lambda>r. (Some connection_id, r)) (dealer_sendpipe_to ops p m (has_more m) observer s w)))"

definition send_selected_pipe ::
    "('p, 'w) dealer_ops \<Rightarrow> 'p option \<Rightarrow> msg \<Rightarrow> bool \<Rightarrow> bool \<Rightarrow> bool \<Rightarrow> 'p dealer \<Rightarrow> 'w \<Rightarrow> ('p lb_rc \<times> 'p dealer \<times> 'w) option" where
  "send_selected_pipe ops pipe m sndmore request_only observer s w =
     (case pipe of
        None \<Rightarrow> Some (Lb_failed EAGAIN Adm_invalid, s, w)
      | Some p \<Rightarrow>
          if request_only \<and> \<not> do_router_peer ops p then Some (Lb_failed EPROTOTYPE Adm_invalid, s, w)
          else if lb_weight p (dl_lb s) = 0 then Some (Lb_failed ECONNREFUSED Adm_invalid, s, w)
          else if \<not> do_application_ready ops p w then Some (Lb_failed EAGAIN Adm_invalid, s, w)
          else dealer_sendpipe_to ops p m sndmore observer s w)"

definition dealer_send_configured_endpoint ::
    "('p, 'w) dealer_ops \<Rightarrow> byte list \<Rightarrow> msg \<Rightarrow> bool \<Rightarrow> bool \<Rightarrow> bool \<Rightarrow> 'p dealer \<Rightarrow> 'w \<Rightarrow> ('p lb_rc \<times> 'p dealer \<times> 'w) option" where
  "dealer_send_configured_endpoint ops endpoint m sndmore request_only observer s w =
     send_selected_pipe ops (find_pipe_by_endpoint (do_lb ops) endpoint (submit_candidate ops request_only w) (dl_lb s))
       m sndmore request_only observer s w"

subsection \<open>Choosing a target\<close>

definition select_submit_pipe :: "('p, 'w) dealer_ops \<Rightarrow> bool \<Rightarrow> 'p dealer \<Rightarrow> 'w \<Rightarrow> (errno + 'p) \<times> 'p dealer" where
  "select_submit_pipe ops request_only s w =
     (case select_connected_pipe (do_lb ops) (submit_candidate ops request_only w) (dl_lb s) of (r, l) \<Rightarrow> (r, s\<lparr>dl_lb := l\<rparr>))"

definition select_routed_submit_target :: "('p, 'w) dealer_ops \<Rightarrow> bool \<Rightarrow> 'p dealer \<Rightarrow> 'w \<Rightarrow> (errno + byte list \<times> u64 \<times> u64) \<times> 'p dealer" where
  "select_routed_submit_target ops router_rid_given s w =
     (if router_rid_given then (Inl EINVAL, s)
      else
        (case select_submit_pipe ops False s w of
           (Inl e, s) \<Rightarrow> (Inl e, s)
         | (Inr p, s) \<Rightarrow> (Inr (lo_routing_id (do_lb ops) p, lo_pair (do_lb ops) p), s)))"

definition remember_if_unknown :: "('p, 'w) dealer_ops \<Rightarrow> 'p \<Rightarrow> 'p dealer \<Rightarrow> 'p dealer" where
  "remember_if_unknown ops p s =
     (if map_of (dl_request_route_history s) (lo_endpoint (do_lb ops) p) = None
      then remember_request_route ops p (lb_weight p (dl_lb s)) s else s)"

definition commit_request_submit_pipe :: "('p, 'w) dealer_ops \<Rightarrow> 'p \<Rightarrow> 'p dealer \<Rightarrow> (errno + unit) \<times> 'p dealer" where
  "commit_request_submit_pipe ops p s =
     (if lo_endpoint (do_lb ops) p = [] then (Inl EHOSTUNREACH, s) else (Inr (), remember_if_unknown ops p s))"

text \<open>The choice among the remembered routes: the total weight and the best route with its value.\<close>

definition better_route :: "byte list \<Rightarrow> request_route \<Rightarrow> ((byte list \<times> request_route) \<times> int) option \<Rightarrow> bool" where
  "better_route k r selected =
     (let value = rr_running_value r + int (rr_weight r) in
      case selected of
        None \<Rightarrow> True
      | Some ((k', r'), v) \<Rightarrow>
          value > v \<or> (value = v \<and> (rr_peer_rid r < rr_peer_rid r' \<or> (rr_peer_rid r = rr_peer_rid r' \<and> k < k'))))"

fun route_scan :: "route_history \<Rightarrow> nat \<times> ((byte list \<times> request_route) \<times> int) option \<Rightarrow> nat \<times> ((byte list \<times> request_route) \<times> int) option" where
  "route_scan [] acc = acc"
| "route_scan ((k, r) # rs) (sumw, selected) =
     (if rr_weight r = 0 then route_scan rs (sumw, selected)
      else route_scan rs (sumw + rr_weight r,
             if better_route k r selected then Some ((k, r), rr_running_value r + int (rr_weight r)) else selected))"

definition advance_route :: "byte list \<Rightarrow> nat \<Rightarrow> byte list \<times> request_route \<Rightarrow> byte list \<times> request_route" where
  "advance_route selected sumw x =
     (case x of (k, r) \<Rightarrow>
        let v = (if rr_weight r \<noteq> 0 then rr_running_value r + int (rr_weight r) else rr_running_value r) in
        (k, r\<lparr>rr_running_value := if k = selected then v - int sumw else v\<rparr>))"

definition choose_route :: "route_history \<Rightarrow> (errno + byte list) \<times> route_history" where
  "choose_route history =
     (case route_scan history (0, None) of
        (_, None) \<Rightarrow> (Inl (if history = [] then ENOTCONN else ECONNREFUSED), history)
      | (sumw, Some ((k, _), _)) \<Rightarrow> (Inr k, map (advance_route k sumw) history))"

definition select_request_submit_target :: "('p, 'w) dealer_ops \<Rightarrow> bool \<Rightarrow> 'p dealer \<Rightarrow> 'w \<Rightarrow> (errno + byte list) \<times> 'p dealer" where
  "select_request_submit_target ops router_rid_given s w =
     (if router_rid_given then (Inl EINVAL, s)
      else
        (case select_submit_pipe ops True s w of
           (Inr p, s) \<Rightarrow>
             let endpoint = lo_endpoint (do_lb ops) p in
             if endpoint = [] then (Inl EHOSTUNREACH, s) else (Inr endpoint, remember_if_unknown ops p s)
         | (Inl _, s) \<Rightarrow>
             (case choose_route (dl_request_route_history s) of (r, history) \<Rightarrow> (r, s\<lparr>dl_request_route_history := history\<rparr>))))"

definition forget_request_route_endpoint :: "byte list \<Rightarrow> 'p dealer \<Rightarrow> 'p dealer" where
  "forget_request_route_endpoint endpoint s = s\<lparr>dl_request_route_history := history_erase endpoint (dl_request_route_history s)\<rparr>"

subsection \<open>Receiving\<close>

text \<open>After a complete record the head of a single-lane pipe decides whether the application may read it next; the fair queue
  publishes in the pipe whether it currently does.\<close>

definition reclassify_head :: "('p, 'w) dealer_ops \<Rightarrow> 'p \<Rightarrow> 'p dealer \<Rightarrow> 'w \<Rightarrow> ('p dealer \<times> 'w) option" where
  "reclassify_head ops p s w =
     (case do_single_lane ops p w of
        (False, w) \<Rightarrow> Some (s, w)
      | (True, w) \<Rightarrow>
        (case do_head ops p w of
           (head, w) \<Rightarrow>
             if public_head head then
               (if \<not> fq_public (dl_fq s) p then map_option (\<lambda>s. (s, w)) (dealer_read_activated p s) else Some (s, w))
             else
               do { s \<leftarrow> (if fq_public (dl_fq s) p then dealer_read_deactivated p s else Some s);
                    Some (s, case head of Head_empty \<Rightarrow> w | Head_invalid \<Rightarrow> do_terminate ops p w | _ \<Rightarrow> do_private_head ops p w) }))"

definition dealer_recvpipe :: "('p, 'w) dealer_ops \<Rightarrow> bool \<Rightarrow> 'p dealer \<Rightarrow> 'w \<Rightarrow> ((errno + msg \<times> 'p) \<times> 'p dealer \<times> 'w) option" where
  "dealer_recvpipe ops mem s w =
     do { (r, q, w) \<leftarrow> recvpipe_internal (do_fq ops) mem False (dl_fq s) w;
          let s = s\<lparr>dl_fq := q\<rparr>;
          (case r of
             Inr (m, p) \<Rightarrow> if has_more m then Some (r, s, w) else map_option (\<lambda>(s, w). (r, s, w)) (reclassify_head ops p s w)
           | Inl e \<Rightarrow> Some (r, s, w)) }"

definition dealer_has_in :: "('p, 'w) dealer_ops \<Rightarrow> 'p dealer \<Rightarrow> 'w \<Rightarrow> (bool \<times> 'p dealer \<times> 'w) option" where
  "dealer_has_in ops s w = map_option (\<lambda>(b, q, w). (b, s\<lparr>dl_fq := q\<rparr>, w)) (fq_has_in (do_fq ops) (dl_fq s) w)"

definition dealer_has_out :: "('p, 'w) dealer_ops \<Rightarrow> 'p dealer \<Rightarrow> 'w \<Rightarrow> (bool \<times> 'p dealer \<times> 'w) option" where
  "dealer_has_out ops s w = map_option (\<lambda>(b, l, w). (b, s\<lparr>dl_lb := l\<rparr>, w)) (lb_has_out (do_lb ops) (dl_lb s) w)"

definition dealer_rollback :: "('p, 'w) dealer_ops \<Rightarrow> 'p dealer \<Rightarrow> 'w \<Rightarrow> 'p dealer \<times> 'w" where
  "dealer_rollback ops s w = (case lb_rollback (do_lb ops) (dl_lb s) w of (l, w) \<Rightarrow> (s\<lparr>dl_lb := l\<rparr>, w))"

end
