(* ===== verification/Dealer_Safety.thy ===== *)
theory Dealer_Safety
  imports Dealer
begin

section \<open>The DEALER socket keeps its promises\<close>

text \<open>
  The invariant of \<open>Dealer\<close> and that every call keeps it and returns: the fair queue and the load balancer hold the same pipes, and the
  remembered routes are an ordered map. The choice among the remembered routes is a weighted choice.
\<close>

subsection \<open>What the fair queue leaves alone\<close>

text \<open>A fair queue that publishes its activity and has set no pipe aside: the mode of a DEALER socket.\<close>

definition fq_same_mode :: "'p fq \<Rightarrow> 'p fq \<Rightarrow> bool" where
  "fq_same_mode q q' \<longleftrightarrow> fq_publish q' = fq_publish q \<and> fq_blocked_set q' \<subseteq> fq_blocked_set q"

lemma same_mode_refl [simp]: "fq_same_mode q q" by (simp add: fq_same_mode_def)

lemma same_mode_trans: "fq_same_mode q r \<Longrightarrow> fq_same_mode r t \<Longrightarrow> fq_same_mode q t" by (auto simp: fq_same_mode_def)

lemma same_mode_sel [simp]:
  "fq_same_mode q (t\<lparr>fq_pipes := a\<rparr>) = fq_same_mode q t" "fq_same_mode q (t\<lparr>fq_active := n\<rparr>) = fq_same_mode q t"
  "fq_same_mode q (t\<lparr>fq_current := n\<rparr>) = fq_same_mode q t" "fq_same_mode q (t\<lparr>fq_more := b\<rparr>) = fq_same_mode q t"
  "fq_same_mode q (t\<lparr>fq_multipart_abort_pending := b\<rparr>) = fq_same_mode q t"
  by (simp_all add: fq_same_mode_def)

lemma same_mode_parts [simp]:
  "fq_same_mode q (publish_pipe_receive_activity p b t) = fq_same_mode q t" "fq_same_mode q (normalize_state t) = fq_same_mode q t"
  "fq_same_mode q (next_turn t) = fq_same_mode q t"
  by (simp_all add: fq_same_mode_def publish_pipe_receive_activity_def normalize_state_def next_turn_def Let_def)

lemma preserve_mode [simp]: "fq_same_mode q (snd (preserve_current_pipe c p t)) = fq_same_mode q t"
  by (auto simp: preserve_current_pipe_def split: option.splits if_splits)

lemma unblock_mode: "fq_same_mode q (unblock p q)"
  by (auto simp: unblock_def fq_same_mode_def)

lemmas mode_simps = fq_swap_def Let_def bind_eq_Some_conv

lemma deactivate_at_mode: "fq_deactivate_at i q = Some q' \<Longrightarrow> fq_same_mode q q'"
  by (auto simp: fq_deactivate_at_def mode_simps case_prod_beta split: if_split_asm)

lemma attach_mode: "fq_attach p q = Some q' \<Longrightarrow> fq_same_mode q q'"
  by (auto simp: fq_attach_def mode_simps)

lemma activated_mode: "fq_activated p q = Some q' \<Longrightarrow> fq_same_mode q q'"
  by (auto simp: fq_activated_def mode_simps split: option.split_asm if_split_asm)

lemma deactivate_mode: "fq_deactivate p q = Some q' \<Longrightarrow> fq_same_mode q q'"
  using same_mode_trans [of q "normalize_state q" q'] deactivate_at_mode [of _ "normalize_state q" q']
  by (auto simp: fq_deactivate_def Let_def split: option.split_asm if_split_asm)

lemma miss_mode: "deactivate_current_after_read_miss q = Some q' \<Longrightarrow> fq_same_mode q q'"
  by (auto simp: deactivate_current_after_read_miss_def mode_simps split: if_split_asm)

lemma terminated_mode: "fq_pipe_terminated p q = Some q' \<Longrightarrow> fq_same_mode q q'"
proof -
  let ?u = "unblock p (normalize_state q)"
  have u: "fq_same_mode q ?u" by (rule same_mode_trans [OF _ unblock_mode]) simp
  have d: "fq_deactivate_at i ?u = Some t \<Longrightarrow> fq_same_mode q t" for i t by (rule same_mode_trans [OF u deactivate_at_mode])
  show "fq_pipe_terminated p q = Some q' \<Longrightarrow> fq_same_mode q q'"
    by (auto simp: fq_pipe_terminated_def Let_def bind_eq_Some_conv u case_prod_beta split: option.split_asm if_split_asm dest!: d)
qed

lemma recv_mode:
  assumes "recv_loop ops mem False q w = Some (r, q', w')"
  shows "fq_same_mode q q'"
  using assms
proof (induction ops mem False q w rule: recv_loop.induct)
  case (1 ops mem q w)
  show ?case
  proof (cases "fq_active q > 0")
    case a: True
    then obtain p where p: "arr_get (fq_current q) (fq_pipes q) = Some p" using 1(3) by (subst (asm) recv_loop.simps) (auto split: option.splits)
    obtain m w1 where m: "fo_read ops p w = (m, w1)" by (rule prod.exhaust)
    show ?thesis
    proof (cases m)
      case None
      then have f: "fq_fetch ops False p w = (Missed, w1)" using m by (simp add: fq_fetch_def)
      show ?thesis
      proof (cases "fq_more q")
        case True
        then show ?thesis using 1(3) a p f miss_mode [of "q\<lparr>fq_more := False\<rparr>" q'] by (subst (asm) recv_loop.simps) (auto simp: fq_same_mode_def)
      next
        case False
        then obtain q1 where q1: "deactivate_current_after_read_miss q = Some q1" "recv_loop ops mem False q1 w1 = Some (r, q', w')"
          using 1(3) a p f by (subst (asm) recv_loop.simps) (auto split: option.splits)
        show ?thesis by (rule same_mode_trans [OF miss_mode [OF q1(1)] 1(1) [OF a p f [symmetric] _ False q1(1) q1(2)]]) simp_all
      qed
    next
      case (Some x)
      then have f: "fq_fetch ops False p w = (Fetched x, w1)" using m by (simp add: fq_fetch_def)
      then show ?thesis using 1(3) a p by (subst (asm) recv_loop.simps) (auto simp: Let_def)
    qed
  qed (use 1(3) in \<open>subst (asm) recv_loop.simps, simp\<close>)
qed

lemma has_in_mode: "fq_has_in ops q w = Some (b, q', w') \<Longrightarrow> fq_same_mode q q'"
proof -
  have "fq_same_mode t t'" if "has_in_loop ops t w = Some (b, t', w')" for t t' :: "'a fq" and w
    using that
  proof (induction ops t w rule: has_in_loop.induct)
    case (1 ops t w)
    show ?case
      using 1(2) 1(1) miss_mode [of t] same_mode_trans [of t _ t']
      by (subst (asm) has_in_loop.simps) (auto split: if_split_asm option.split_asm prod.split_asm bool.split_asm)
  qed
  from this [of "normalize_state q" w q'] show "fq_has_in ops q w = Some (b, q', w') \<Longrightarrow> fq_same_mode q q'"
    using same_mode_trans [of q "normalize_state q" q'] by (auto simp: fq_has_in_def Let_def split: if_splits)
qed

subsection \<open>Remembered routes\<close>

definition history_ok :: "route_history \<Rightarrow> bool" where
  "history_ok h \<longleftrightarrow> sorted_wrt (<) (map fst h) \<and> [] \<notin> fst ` set h"

lemma history_put_keys: "fst ` set (history_put k r h) = insert k (fst ` set h)"
  by (induction h) auto

lemma history_put_sorted: "sorted_wrt (<) (map fst h) \<Longrightarrow> sorted_wrt (<) (map fst (history_put k r h))"
proof (induction h)
  case (Cons x h)
  have "fst x < fst y" if "fst x < k" "y \<in> set (history_put k r h)" for y
  proof -
    have "fst y \<in> insert k (fst ` set h)" using that(2) history_put_keys [of k r h] by (metis imageI)
    then show ?thesis using that(1) Cons.prems by auto
  qed
  then show ?case using Cons by (auto dest: less_trans simp: not_less_iff_gr_or_eq)
qed simp

lemma history_put_ok: "history_ok h \<Longrightarrow> k \<noteq> [] \<Longrightarrow> history_ok (history_put k r h)"
  by (simp add: history_ok_def history_put_sorted history_put_keys)

lemma history_distinct: "history_ok h \<Longrightarrow> distinct (map fst h)"
  by (simp add: history_ok_def strict_sorted_iff)

lemma history_put_lookup: "sorted_wrt (<) (map fst h) \<Longrightarrow> map_of (history_put k r h) k' = (if k' = k then Some r else map_of h k')"
proof (induction h)
  case (Cons x h)
  then show ?case by (cases x) (auto simp: map_of_eq_None_iff [symmetric] dest!: less_imp_not_eq2 split: if_splits)
qed simp

lemma history_erase_ok: "history_ok h \<Longrightarrow> history_ok (history_erase k h)"
proof -
  have "map fst (filter (\<lambda>x. fst x \<noteq> k) h) = filter (\<lambda>y. y \<noteq> k) (map fst h)" by (induction h) auto
  then show "history_ok h \<Longrightarrow> history_ok (history_erase k h)" by (auto simp: history_ok_def history_erase_def sorted_wrt_filter)
qed

lemma advance_fst [simp]: "fst (advance_route k t x) = fst x"
  by (simp add: advance_route_def case_prod_beta Let_def)

lemma choose_route_keys: "map fst (snd (choose_route h)) = map fst h"
  by (simp add: choose_route_def split: prod.split option.split)

lemma choose_route_ok: "history_ok h \<Longrightarrow> history_ok (snd (choose_route h))"
  using choose_route_keys [of h] by (metis history_ok_def list.set_map)

subsection \<open>Invariant\<close>

abbreviation dealer_pipes :: "'p dealer \<Rightarrow> 'p set" where "dealer_pipes s \<equiv> set (lb_items (dl_lb s))"

definition dealer_ok :: "'p dealer \<Rightarrow> bool" where
  "dealer_ok s \<longleftrightarrow>
     fq_ok (dl_fq s) \<and> fq_publish (dl_fq s) \<and> fq_blocked_set (dl_fq s) = {} \<and> lb_ok (dl_lb s)
     \<and> fq_members (dl_fq s) = dealer_pipes s \<and> history_ok (dl_request_route_history s)"

lemma dealer_init_ok: "dealer_ok (dealer_init :: 'p dealer)"
  by (simp add: dealer_ok_def dealer_init_def fq_init_ok lb_init_ok history_ok_def) (simp add: fq_init_def fq_members_def lb_init_def)

text \<open>The parts of the state may change on their own.\<close>

lemma dealer_ok_fq:
  assumes "dealer_ok s" "fq_ok q" "fq_same_mode (dl_fq s) q" "fq_members q = fq_members (dl_fq s)"
  shows "dealer_ok (s\<lparr>dl_fq := q\<rparr>)"
  using assms by (simp add: dealer_ok_def fq_same_mode_def)

lemma dealer_ok_lb:
  assumes "dealer_ok s" "lb_ok l" "set (lb_items l) = dealer_pipes s"
  shows "dealer_ok (s\<lparr>dl_lb := l\<rparr>)"
  using assms by (simp add: dealer_ok_def)

lemma dealer_ok_history: "dealer_ok s \<Longrightarrow> history_ok h \<Longrightarrow> dealer_ok (s\<lparr>dl_request_route_history := h\<rparr>)"
  by (simp add: dealer_ok_def)

lemma remember_ok:
  assumes "dealer_ok s"
  shows "dealer_ok (remember_request_route ops p weight s)" "dealer_ok (remember_if_unknown ops p s)"
    "dealer_ok (update_request_route_weight ops p weight s)"
proof -
  have h: "history_ok (dl_request_route_history s)" using assms by (simp add: dealer_ok_def)
  show r: "dealer_ok (remember_request_route ops p weight s)" for weight
    using assms h by (auto simp: remember_request_route_def Let_def intro!: dealer_ok_history history_put_ok)
  show "dealer_ok (remember_if_unknown ops p s)" using r assms by (simp add: remember_if_unknown_def)
  have "lo_endpoint (do_lb ops) p \<noteq> []" if "map_of (dl_request_route_history s) (lo_endpoint (do_lb ops) p) = Some x" for x
    using h map_of_SomeD [OF that] by (force simp: history_ok_def)
  then show "dealer_ok (update_request_route_weight ops p weight s)"
    using assms h r by (auto simp: update_request_route_weight_def Let_def split: option.split intro!: dealer_ok_history history_put_ok)
qed

lemma route_sel [simp]:
  "dl_lb (remember_request_route ops p weight s) = dl_lb s" "dl_fq (remember_request_route ops p weight s) = dl_fq s"
  "dl_lb (update_request_route_weight ops p weight s) = dl_lb s" "dl_fq (update_request_route_weight ops p weight s) = dl_fq s"
  "dl_lb (remember_if_unknown ops p s) = dl_lb s" "dl_fq (remember_if_unknown ops p s) = dl_fq s"
  by (simp_all add: remember_request_route_def update_request_route_weight_def remember_if_unknown_def Let_def split: option.split)

subsection \<open>Every operation keeps the invariant\<close>

text \<open>The call returns and leaves a socket in order with the same pipes.\<close>

definition dealer_keeps :: "('p dealer \<times> 'w) option \<Rightarrow> 'p set \<Rightarrow> bool" where
  "dealer_keeps r P \<longleftrightarrow> (\<exists>s' w'. r = Some (s', w') \<and> dealer_ok s' \<and> dealer_pipes s' = P)"

lemma apply_weight_ok:
  assumes ok: "dealer_ok s"
  shows "dealer_keeps (apply_peer_weight ops p weight s w) (dealer_pipes s)" "dealer_keeps (accept_peer_weight ops p weight s w) (dealer_pipes s)"
    "dealer_keeps (apply_recorded_peer_weight ops p s w) (dealer_pipes s)"
proof -
  show a: "dealer_keeps (apply_peer_weight ops p weight s w) (dealer_pipes s)" for weight w
  proof -
    obtain l w' where l: "lb_set_weight (do_lb ops) p weight (dl_lb s) w = Some (l, w')" "lb_ok l" "set (lb_items l) = dealer_pipes s"
      using lb_set_weight_ok [of "dl_lb s" "do_lb ops" p weight w] ok by (auto simp: dealer_ok_def)
    have "dealer_ok (update_request_route_weight ops p weight (s\<lparr>dl_lb := l\<rparr>))" by (intro remember_ok dealer_ok_lb ok l)
    then show ?thesis using ok l by (auto simp: dealer_keeps_def apply_peer_weight_def)
  qed
  have n: "dealer_keeps (Some (s, w)) (dealer_pipes s)" for w :: 'b using ok by (simp add: dealer_keeps_def)
  show b: "dealer_keeps (accept_peer_weight ops p weight s w) (dealer_pipes s)" for weight w using a n by (simp add: accept_peer_weight_def)
  show "dealer_keeps (apply_recorded_peer_weight ops p s w) (dealer_pipes s)" using b n by (simp add: apply_recorded_peer_weight_def split: option.split)
qed

lemma dealer_attach_ok:
  assumes ok: "dealer_ok s" and p: "p \<notin> dealer_pipes s"
  shows "dealer_keeps (dealer_attach_pipe ops p s w) (insert p (dealer_pipes s))"
proof -
  have s: "fq_ok (dl_fq s)" "lb_ok (dl_lb s)" "fq_members (dl_fq s) = dealer_pipes s" using ok by (auto simp: dealer_ok_def)
  obtain q where q: "fq_attach p (dl_fq s) = Some q" "fq_ok q" "fq_members q = insert p (fq_members (dl_fq s))"
    using fq_attach_ok [OF s(1), of p] p s(3) by auto
  obtain l where l: "lb_attach p 100 (dl_lb s) = Some l" "lb_ok l" "set (lb_items l) = insert p (dealer_pipes s)"
    using lb_attach_ok [OF s(2) p, of 100] by auto
  have ok': "dealer_ok (s\<lparr>dl_fq := q, dl_lb := l\<rparr>)"
    using ok q l s(3) attach_mode [OF q(1)] by (simp add: dealer_ok_def fq_same_mode_def)
  let ?s = "remember_request_route ops p (lb_weight p l) (s\<lparr>dl_fq := q, dl_lb := l\<rparr>)"
  define w1 where "w1 = (if dl_probe_router s then do_probe ops p w else w)"
  have "dealer_keeps (apply_recorded_peer_weight ops p ?s w1) (dealer_pipes ?s)" by (intro apply_weight_ok remember_ok ok')
  then obtain s2 w2 where "apply_recorded_peer_weight ops p ?s w1 = Some (s2, w2)" "dealer_ok s2" "dealer_pipes s2 = insert p (dealer_pipes s)"
    using l(3) by (auto simp: dealer_keeps_def)
  then show ?thesis using q(1) l(1) by (simp add: dealer_keeps_def dealer_attach_pipe_def w1_def [symmetric])
qed

lemma dealer_activity_ok:
  assumes ok: "dealer_ok s"
  shows "\<exists>s'. dealer_read_activated p s = Some s' \<and> dealer_ok s' \<and> dealer_pipes s' = dealer_pipes s \<and> fq_live (dl_fq s') = (if p \<in> dealer_pipes s then insert p (fq_live (dl_fq s)) else fq_live (dl_fq s))"
    "\<exists>s'. dealer_read_deactivated p s = Some s' \<and> dealer_ok s' \<and> dealer_pipes s' = dealer_pipes s \<and> fq_live (dl_fq s') = fq_live (dl_fq s) - {p}"
    "p \<in> dealer_pipes s \<Longrightarrow> \<exists>s'. dealer_write_activated p s = Some s' \<and> dealer_ok s' \<and> dealer_pipes s' = dealer_pipes s"
    "\<exists>s'. dealer_pipe_terminated p s = Some s' \<and> dealer_ok s' \<and> dealer_pipes s' = dealer_pipes s - {p}"
proof -
  have s: "fq_ok (dl_fq s)" "lb_ok (dl_lb s)" "fq_members (dl_fq s) = dealer_pipes s" "fq_blocked_set (dl_fq s) = {}" using ok by (auto simp: dealer_ok_def)
  obtain q where q: "fq_activated p (dl_fq s) = Some q" "fq_ok q" "fq_members q = fq_members (dl_fq s)"
      "fq_live q = (if p \<in> fq_members (dl_fq s) then insert p (fq_live (dl_fq s)) else fq_live (dl_fq s))"
    using fq_activated_ok [OF s(1), of p] s(4) by auto
  then show "\<exists>s'. dealer_read_activated p s = Some s' \<and> dealer_ok s' \<and> dealer_pipes s' = dealer_pipes s \<and> fq_live (dl_fq s') = (if p \<in> dealer_pipes s then insert p (fq_live (dl_fq s)) else fq_live (dl_fq s))"
    using dealer_ok_fq [OF ok q(2) activated_mode [OF q(1)] q(3)] s(3) by (auto simp: dealer_read_activated_def)
  obtain q where q: "fq_deactivate p (dl_fq s) = Some q" "fq_ok q" "fq_members q = fq_members (dl_fq s)" "fq_live q = fq_live (dl_fq s) - {p}"
    using fq_deactivate_ok [OF s(1), of p] by auto
  then show "\<exists>s'. dealer_read_deactivated p s = Some s' \<and> dealer_ok s' \<and> dealer_pipes s' = dealer_pipes s \<and> fq_live (dl_fq s') = fq_live (dl_fq s) - {p}"
    using dealer_ok_fq [OF ok q(2) deactivate_mode [OF q(1)] q(3)] by (simp add: dealer_read_deactivated_def)
  show "\<exists>s'. dealer_write_activated p s = Some s' \<and> dealer_ok s' \<and> dealer_pipes s' = dealer_pipes s" if "p \<in> dealer_pipes s"
    using lb_activated_ok [OF s(2) that] dealer_ok_lb [OF ok] by (auto simp: dealer_write_activated_def)
  obtain q where q: "fq_pipe_terminated p (dl_fq s) = Some q" "fq_ok q" "fq_members q = fq_members (dl_fq s) - {p}"
    using fq_pipe_terminated_ok [OF s(1), of p] by auto
  obtain l where l: "lb_pipe_terminated p (dl_lb s) = Some l" "lb_ok l" "set (lb_items l) = dealer_pipes s - {p}"
  proof (cases "p \<in> dealer_pipes s")
    case False
    moreover have "arr_ok (lb_pipes (dl_lb s))" using s(2) by (simp add: lb_ok_def)
    ultimately show thesis using that [of "dl_lb s"] s(2) arr_contains_iff [of "lb_pipes (dl_lb s)" p] by (simp add: lb_pipe_terminated_def)
  qed (use lb_pipe_terminated_ok [OF s(2), of p] that in blast)
  have "dealer_ok (s\<lparr>dl_fq := q, dl_lb := l\<rparr>)" using ok q l s(3) terminated_mode [OF q(1)] by (simp add: dealer_ok_def fq_same_mode_def)
  then show "\<exists>s'. dealer_pipe_terminated p s = Some s' \<and> dealer_ok s' \<and> dealer_pipes s' = dealer_pipes s - {p}"
    using q(1) l by (simp add: dealer_pipe_terminated_def)
qed

subsection \<open>Sending and choosing\<close>

text \<open>The call returns a result and leaves a socket in order with the same pipes.\<close>

definition serves :: "('r \<times> 'p dealer \<times> 'w) option \<Rightarrow> 'p dealer \<Rightarrow> bool" where
  "serves r s \<longleftrightarrow> (\<exists>x s' w'. r = Some (x, s', w') \<and> dealer_ok s' \<and> dealer_pipes s' = dealer_pipes s)"

lemma serves_same: "dealer_ok s \<Longrightarrow> serves (Some (x, s, w)) s"
  by (simp add: serves_def)

lemma serves_lb:
  assumes "dealer_ok s" "\<exists>x l w'. r = Some (x, l, w') \<and> lb_ok l \<and> set (lb_items l) = dealer_pipes s"
  shows "serves (map_option (\<lambda>(x, l, w). (x, s\<lparr>dl_lb := l\<rparr>, w)) r) s"
  using assms dealer_ok_lb [OF assms(1)] by (auto simp: serves_def)

lemma dealer_send_ok:
  assumes ok: "dealer_ok s"
  shows "serves (dealer_send ops m observer s w) s" "serves (dealer_sendpipe_to ops p m sndmore observer s w) s"
    "serves (dealer_has_out ops s w) s"
proof -
  have l: "lb_ok (dl_lb s)" using ok by (simp add: dealer_ok_def)
  show "serves (dealer_send ops m observer s w) s" unfolding dealer_send_def by (rule serves_lb [OF ok sendpipe_ok [OF l]])
  show "serves (dealer_sendpipe_to ops p m sndmore observer s w) s"
    unfolding dealer_sendpipe_to_def Let_def by (rule serves_lb [OF ok sendpipe_to_ok [OF l]])
  show "serves (dealer_has_out ops s w) s" unfolding dealer_has_out_def by (rule serves_lb [OF ok lb_has_out_ok [OF l]])
qed

lemma send_selected_ok: "dealer_ok s \<Longrightarrow> serves (send_selected_pipe ops pipe m sndmore request_only observer s w) s"
  using dealer_send_ok(2) serves_same by (auto simp: send_selected_pipe_def split: option.split)

lemma send_routed_ok:
  assumes ok: "dealer_ok s"
  shows "\<exists>c x s' w'. dealer_send_routed ops rid m conn pair_id generation observer s w = Some (c, x, s', w') \<and> dealer_ok s' \<and> dealer_pipes s' = dealer_pipes s"
proof -
  have "\<exists>c x s' w'. map_option (\<lambda>r. (Some cid, r)) (dealer_sendpipe_to ops p m b observer s w) = Some (c, x, s', w') \<and> dealer_ok s' \<and> dealer_pipes s' = dealer_pipes s"
    for cid :: u64 and p b
    using dealer_send_ok(2) [OF ok, of ops p m b observer w] by (auto simp: serves_def)
  then show ?thesis using ok by (auto simp: dealer_send_routed_def Let_def split: option.split)
qed

lemma connected_scan_in: "connected_scan ops s ps (t, sel) = (t', Some (p, v)) \<Longrightarrow> p \<in> set ps \<or> (\<exists>v'. sel = Some (p, v'))"
  by (induction ps arbitrary: t sel) (auto simp: Let_def split: if_splits)

lemma select_connected_ok:
  assumes ok: "lb_ok s" and r: "select_connected_pipe ops flt s = (r, l)"
  shows "lb_ok l \<and> lb_items l = lb_items s
    \<and> (case r of Inl e \<Rightarrow> l = s \<and> (e = ENOTCONN \<or> e = ECONNREFUSED) | Inr p \<Rightarrow> p \<in> set (lb_items s) \<and> flt p \<and> 0 < lb_weight p s)"
proof -
  define cs where "cs = filter (\<lambda>p. 0 < lb_weight p s \<and> flt p) (lb_items s)"
  have d: "distinct cs" using ok by (simp add: cs_def lb_ok_def arr_ok_def)
  obtain t sel where sc: "connected_scan ops s cs (0, None) = (t, sel)" by (rule prod.exhaust)
  show ?thesis
  proof (cases sel)
    case None
    then show ?thesis using r sc ok by (auto simp: select_connected_pipe_def cs_def [symmetric] Let_def)
  next
    case (Some x)
    obtain p v where x: "x = (p, v)" by (rule prod.exhaust)
    let ?E = "repay p t (fold add_weight cs (lb_entries s))"
    have e: "r = Inr p" "l = s\<lparr>lb_entries := ?E\<rparr>" using r sc Some x by (simp_all add: select_connected_pipe_def cs_def [symmetric] Let_def)
    have "dom ?E = dom (lb_entries s)" by (auto simp: repay_def fold_add_weight [OF d] dom_def split: if_splits)
    moreover have "lb_weight q (s\<lparr>lb_entries := ?E\<rparr>) = lb_weight q s" for q
      by (simp add: lb_weight_def repay_def fold_add_weight [OF d] split: option.splits)
    ultimately have "lb_ok l" using ok e(2) by (simp add: lb_ok_def lb_live_def)
    moreover have "p \<in> set cs" using connected_scan_in [of ops s cs 0 None t p v] sc Some x by simp
    ultimately show ?thesis using e by (auto simp: cs_def)
  qed
qed

lemma select_submit_ok:
  assumes ok: "dealer_ok s" and r: "select_submit_pipe ops request_only s w = (r, s')"
  shows "dealer_ok s'" "dealer_pipes s' = dealer_pipes s"
    "case r of Inl e \<Rightarrow> s' = s | Inr p \<Rightarrow> p \<in> dealer_pipes s \<and> submit_candidate ops request_only w p \<and> 0 < lb_weight p (dl_lb s)"
proof -
  obtain r' l where l: "select_connected_pipe (do_lb ops) (submit_candidate ops request_only w) (dl_lb s) = (r', l)" by (rule prod.exhaust)
  have e: "r' = r" "s' = s\<lparr>dl_lb := l\<rparr>" using r l by (simp_all add: select_submit_pipe_def)
  have "lb_ok (dl_lb s)" using ok by (simp add: dealer_ok_def)
  note c = select_connected_ok [OF this l]
  show "dealer_ok s'" "dealer_pipes s' = dealer_pipes s" using c dealer_ok_lb [OF ok, of l] by (simp_all add: e)
  show "case r of Inl e \<Rightarrow> s' = s | Inr p \<Rightarrow> p \<in> dealer_pipes s \<and> submit_candidate ops request_only w p \<and> 0 < lb_weight p (dl_lb s)"
    using c e by (auto split: sum.splits)
qed

lemma select_target_ok:
  assumes ok: "dealer_ok s"
  shows "dealer_ok (snd (select_routed_submit_target ops given s w)) \<and> dealer_pipes (snd (select_routed_submit_target ops given s w)) = dealer_pipes s"
    "dealer_ok (snd (select_request_submit_target ops given s w)) \<and> dealer_pipes (snd (select_request_submit_target ops given s w)) = dealer_pipes s"
proof -
  obtain r1 s1 where r1: "select_submit_pipe ops False s w = (r1, s1)" by (rule prod.exhaust)
  obtain r2 s2 where r2: "select_submit_pipe ops True s w = (r2, s2)" by (rule prod.exhaust)
  note c1 = select_submit_ok [OF ok r1] and c2 = select_submit_ok [OF ok r2]
  show "dealer_ok (snd (select_routed_submit_target ops given s w)) \<and> dealer_pipes (snd (select_routed_submit_target ops given s w)) = dealer_pipes s"
    using ok c1 r1 by (auto simp: select_routed_submit_target_def split: sum.split)
  have "dealer_ok (s2\<lparr>dl_request_route_history := snd (choose_route (dl_request_route_history s2))\<rparr>)"
    using c2(1) by (intro dealer_ok_history choose_route_ok) (auto simp: dealer_ok_def)
  then show "dealer_ok (snd (select_request_submit_target ops given s w)) \<and> dealer_pipes (snd (select_request_submit_target ops given s w)) = dealer_pipes s"
    using ok c2 r2 remember_ok(2) [OF c2(1)] by (auto simp: select_request_submit_target_def Let_def case_prod_beta split: sum.split)
qed

subsection \<open>Receiving\<close>

lemma public_live: "dealer_ok s \<Longrightarrow> p \<in> dealer_pipes s \<Longrightarrow> fq_public (dl_fq s) p \<longleftrightarrow> p \<in> fq_live (dl_fq s)"
  by (simp add: dealer_ok_def fq_ok_def fq_core_def)

text \<open>After the head of a pipe was classified the pipe takes part in receiving exactly if its head is for the application.\<close>

lemma reclassify_ok:
  assumes ok: "dealer_ok s" and p: "p \<in> dealer_pipes s"
  shows "\<exists>s' w'. reclassify_head ops p s w = Some (s', w') \<and> dealer_ok s' \<and> dealer_pipes s' = dealer_pipes s
    \<and> (if fst (do_single_lane ops p w)
       then fq_live (dl_fq s') = (if public_head (fst (do_head ops p (snd (do_single_lane ops p w)))) then insert p (fq_live (dl_fq s)) else fq_live (dl_fq s) - {p})
       else s' = s)"
proof -
  obtain b w1 where b: "do_single_lane ops p w = (b, w1)" by (rule prod.exhaust)
  obtain h w2 where h: "do_head ops p w1 = (h, w2)" by (rule prod.exhaust)
  note pl = public_live [OF ok p]
  obtain sa where sa: "dealer_read_activated p s = Some sa" "dealer_ok sa" "dealer_pipes sa = dealer_pipes s" "fq_live (dl_fq sa) = insert p (fq_live (dl_fq s))"
    using dealer_activity_ok(1) [OF ok, of p] p by auto
  obtain sd where sd: "dealer_read_deactivated p s = Some sd" "dealer_ok sd" "dealer_pipes sd = dealer_pipes s" "fq_live (dl_fq sd) = fq_live (dl_fq s) - {p}"
    using dealer_activity_ok(2) [OF ok, of p] by auto
  show ?thesis
  proof (cases b)
    case False
    then show ?thesis using b ok by (simp add: reclassify_head_def)
  next
    case b1: True
    show ?thesis
    proof (cases "public_head h")
      case True
      then show ?thesis using b b1 h ok pl sa by (cases "fq_public (dl_fq s) p") (auto simp: reclassify_head_def insert_absorb)
    next
      case False
      then show ?thesis using b b1 h ok pl sd by (cases "fq_public (dl_fq s) p") (simp_all add: reclassify_head_def)
    qed
  qed
qed

lemma dealer_read_ok:
  assumes ok: "dealer_ok s"
  obtains r q w' where "recvpipe_internal (do_fq ops) mem False (dl_fq s) w = Some (r, q, w')" "dealer_ok (s\<lparr>dl_fq := q\<rparr>)"
    "\<forall>m p. r = Inr (m, p) \<longrightarrow> p \<in> dealer_pipes s"
proof -
  have s: "fq_ok (dl_fq s)" "fq_members (dl_fq s) = dealer_pipes s" using ok by (auto simp: dealer_ok_def)
  have core: "fq_core (dl_fq s)" using s(1) by (simp add: fq_ok_def)
  obtain r q w1 where r: "recvpipe_internal (do_fq ops) mem False (dl_fq s) w = Some (r, q, w1)"
    "if fq_multipart_abort_pending (dl_fq s) then r = Inl ECONNABORTED \<and> q = (dl_fq s)\<lparr>fq_multipart_abort_pending := False\<rparr> else recv_step (dl_fq s) r q"
    using recvpipe_plain [OF s(1), of "do_fq ops" mem w] by blast
  have "fq_same_mode (dl_fq s) q"
    using r(1) recv_mode [of "do_fq ops" mem "dl_fq s" w r q w1] by (auto simp: recvpipe_internal_def normalize_id [OF core] Let_def split: if_splits)
  moreover have "fq_ok q" "fq_members q = fq_members (dl_fq s)"
    using r(2) s(1) by (auto simp: recv_step_def fq_ok_def fq_core_def fq_members_def fq_live_def split: if_splits)
  ultimately have q: "dealer_ok (s\<lparr>dl_fq := q\<rparr>)" by (intro dealer_ok_fq [OF ok]) auto
  have "\<forall>m p. r = Inr (m, p) \<longrightarrow> p \<in> dealer_pipes s"
    using r(2) s(2) live_sub [of "dl_fq s"] by (auto simp: recv_step_def split: if_splits)
  then show thesis by (rule that [OF r(1) q])
qed

lemma dealer_recv_ok:
  assumes ok: "dealer_ok s"
  shows "serves (dealer_recvpipe ops mem s w) s" "serves (dealer_has_in ops s w) s"
proof -
  obtain r q w1 where r: "recvpipe_internal (do_fq ops) mem False (dl_fq s) w = Some (r, q, w1)" "dealer_ok (s\<lparr>dl_fq := q\<rparr>)"
    "\<forall>m p. r = Inr (m, p) \<longrightarrow> p \<in> dealer_pipes s" by (rule dealer_read_ok [OF ok])
  show "serves (dealer_recvpipe ops mem s w) s"
  proof (cases r)
    case (Inl e)
    then show ?thesis using r(1,2) by (simp add: serves_def dealer_recvpipe_def)
  next
    case (Inr x)
    then obtain m p where x: "r = Inr (m, p)" by (cases x) auto
    have "p \<in> dealer_pipes (s\<lparr>dl_fq := q\<rparr>)" using r(3) x by simp
    from reclassify_ok [OF r(2) this, of ops w1] show ?thesis using r(1,2) x by (auto simp: serves_def dealer_recvpipe_def Let_def)
  qed
  have s: "fq_ok (dl_fq s)" using ok by (auto simp: dealer_ok_def)
  obtain b q' w' where h: "fq_has_in (do_fq ops) (dl_fq s) w = Some (b, q', w')" "fq_ok q'" "fq_members q' = fq_members (dl_fq s)"
    using fq_has_in_ok [OF s(1), of "do_fq ops" w] by blast
  show "serves (dealer_has_in ops s w) s"
    using h dealer_ok_fq [OF ok h(2) has_in_mode [OF h(1)] h(3)] by (simp add: serves_def dealer_has_in_def)
qed

lemma dealer_rollback_ok: "dealer_ok s \<Longrightarrow> dealer_ok (fst (dealer_rollback ops s w)) \<and> dealer_pipes (fst (dealer_rollback ops s w)) = dealer_pipes s"
  using dealer_ok_lb [of s "fst (lb_rollback (do_lb ops) (dl_lb s) w)"] lb_rollback_ok [of "dl_lb s" "do_lb ops" w]
  by (auto simp: dealer_rollback_def case_prod_beta dealer_ok_def lb_rollback_def)

subsection \<open>Choosing among remembered routes\<close>

definition route_value :: "route_history \<Rightarrow> byte list \<Rightarrow> int" where
  "route_value h k = (case map_of h k of None \<Rightarrow> 0 | Some r \<Rightarrow> rr_running_value r)"

definition route_weight :: "route_history \<Rightarrow> byte list \<Rightarrow> nat" where
  "route_weight h k = (case map_of h k of None \<Rightarrow> 0 | Some r \<Rightarrow> rr_weight r)"

definition route_rid :: "route_history \<Rightarrow> byte list \<Rightarrow> byte list" where
  "route_rid h k = (case map_of h k of None \<Rightarrow> [] | Some r \<Rightarrow> rr_peer_rid r)"

definition weighted_routes :: "route_history \<Rightarrow> byte list list" where
  "weighted_routes h = map fst (filter (\<lambda>x. rr_weight (snd x) \<noteq> 0) h)"

definition route_pick :: "(byte list \<Rightarrow> byte list) \<Rightarrow> byte list list \<Rightarrow> (byte list \<Rightarrow> nat) \<Rightarrow> (byte list \<Rightarrow> int) \<Rightarrow> byte list" where
  "route_pick rid cs wt v =
     (case route_scan (map (\<lambda>k. (k, \<lparr>rr_peer_rid = rid k, rr_weight = wt k, rr_running_value = v k\<rparr>)) cs) (0, None) of
        (_, Some ((k, _), _)) \<Rightarrow> k | (_, None) \<Rightarrow> [])"

abbreviation route_val :: "request_route \<Rightarrow> int" where "route_val r \<equiv> rr_running_value r + int (rr_weight r)"

lemma route_scan_from:
  assumes "\<forall>x \<in> set h. 0 < rr_weight (snd x)" "v = route_val (snd x)"
  shows "\<exists>y. route_scan h (t, Some (x, v)) = (t + sum_list (map (\<lambda>x. rr_weight (snd x)) h), Some (y, route_val (snd y)))
    \<and> y \<in> insert x (set h) \<and> (\<forall>z \<in> insert x (set h). route_val (snd z) \<le> route_val (snd y))"
  using assms
proof (induction h arbitrary: t x v)
  case (Cons a h)
  obtain k r where a: "a = (k, r)" by (rule prod.exhaust)
  obtain k' r' where x: "x = (k', r')" by (rule prod.exhaust)
  have pos: "\<forall>x \<in> set h. 0 < rr_weight (snd x)" "rr_weight r \<noteq> 0" using Cons.prems(1) a by auto
  show ?case
  proof (cases "better_route k r (Some (x, v))")
    case True
    then have "route_val r' \<le> route_val r" using Cons.prems(2) x by (auto simp: better_route_def Let_def)
    with Cons.IH [OF pos(1), of "route_val r" a "t + rr_weight r"] a x pos(2) True show ?thesis by (fastforce simp: add.assoc)
  next
    case False
    then have "route_val r \<le> route_val r'" using Cons.prems(2) x by (auto simp: better_route_def Let_def)
    with Cons.IH [OF pos(1) Cons.prems(2), of "t + rr_weight r"] a x pos(2) False show ?thesis by (fastforce simp: add.assoc)
  qed
qed simp

lemma route_scan_all:
  assumes "h \<noteq> []" "\<forall>x \<in> set h. 0 < rr_weight (snd x)"
  shows "\<exists>y \<in> set h. route_scan h (0, None) = (sum_list (map (\<lambda>x. rr_weight (snd x)) h), Some (y, route_val (snd y)))
    \<and> (\<forall>z \<in> set h. route_val (snd z) \<le> route_val (snd y))"
proof -
  obtain k r t where h: "h = (k, r) # t" using assms(1) by (metis list.exhaust surj_pair)
  have "\<forall>x \<in> set t. 0 < rr_weight (snd x)" "rr_weight r \<noteq> 0" using assms(2) h by auto
  from route_scan_from [OF this(1) refl, of "rr_weight r" "(k, r)"] this(2) show ?thesis by (auto simp: h better_route_def Let_def)
qed

lemma route_scan_filter: "route_scan h acc = route_scan (filter (\<lambda>x. rr_weight (snd x) \<noteq> 0) h) acc"
  by (induction h acc rule: route_scan.induct) auto

lemma route_pick_law:
  assumes "cs \<noteq> []" "\<forall>k \<in> set cs. 0 < wt k"
  shows "route_pick rid cs wt v \<in> set cs" "\<forall>k \<in> set cs. v k + int (wt k) \<le> v (route_pick rid cs wt v) + int (wt (route_pick rid cs wt v))"
proof -
  let ?h = "map (\<lambda>k. (k, \<lparr>rr_peer_rid = rid k, rr_weight = wt k, rr_running_value = v k\<rparr>)) cs"
  obtain y t where y: "y \<in> set ?h" "route_scan ?h (0, None) = (t, Some (y, route_val (snd y)))" "\<forall>z \<in> set ?h. route_val (snd z) \<le> route_val (snd y)"
    using route_scan_all [of ?h] assms by auto
  then have "route_pick rid cs wt v = fst y" by (simp add: route_pick_def case_prod_beta)
  then show "route_pick rid cs wt v \<in> set cs" "\<forall>k \<in> set cs. v k + int (wt k) \<le> v (route_pick rid cs wt v) + int (wt (route_pick rid cs wt v))"
    using y(1,3) by auto
qed

interpretation routes: weighted_choice "route_pick rid" for rid
proof unfold_locales
  fix cs :: "byte list list" and wt v
  show "cs \<noteq> [] \<Longrightarrow> \<forall>k \<in> set cs. 0 < wt k \<Longrightarrow> route_pick rid cs wt v \<in> set cs" by (rule route_pick_law)
  fix k
  assume "\<forall>k \<in> set cs. 0 < wt k" "k \<in> set cs"
  then show "v k + int (wt k) \<le> v (route_pick rid cs wt v) + int (wt (route_pick rid cs wt v))"
    using route_pick_law(2) [of cs wt v rid] by (cases cs) auto
qed

lemma routes_as_map:
  assumes "history_ok h"
  shows "filter (\<lambda>x. rr_weight (snd x) \<noteq> 0) h
    = map (\<lambda>k. (k, \<lparr>rr_peer_rid = route_rid h k, rr_weight = route_weight h k, rr_running_value = route_value h k\<rparr>)) (weighted_routes h)"
proof -
  let ?g = "\<lambda>k. (k, \<lparr>rr_peer_rid = route_rid h k, rr_weight = route_weight h k, rr_running_value = route_value h k\<rparr>)"
  have g: "?g (fst x) = x" if "x \<in> set h" for x
  proof -
    have "map_of h (fst x) = Some (snd x)" using history_distinct [OF assms] that by simp
    then show ?thesis by (cases x) (simp add: route_rid_def route_weight_def route_value_def)
  qed
  have "map (\<lambda>x. ?g (fst x)) (filter (\<lambda>x. rr_weight (snd x) \<noteq> 0) h) = filter (\<lambda>x. rr_weight (snd x) \<noteq> 0) h"
    by (rule map_idI) (use g in auto)
  then show ?thesis by (simp add: weighted_routes_def o_def)
qed

lemma advance_lookup:
  "map_of (map (advance_route p t) h) k = map_option (\<lambda>r. snd (advance_route p t (k, r))) (map_of h k)"
  by (induction h) (auto simp: advance_route_def Let_def)

lemma weighted_routes_sub:
  assumes "history_ok h"
  shows "set (weighted_routes h) = {k. 0 < route_weight h k}" "distinct (weighted_routes h)"
proof -
  have m: "(k, r) \<in> set h \<longleftrightarrow> map_of h k = Some r" for k r using history_distinct [OF assms] by simp
  have "k \<in> set (weighted_routes h) \<longleftrightarrow> (\<exists>r. (k, r) \<in> set h \<and> 0 < rr_weight r)" for k by (force simp: weighted_routes_def)
  then show "set (weighted_routes h) = {k. 0 < route_weight h k}" by (auto simp: m route_weight_def split: option.split)
  show "distinct (weighted_routes h)" using history_distinct [OF assms] by (simp add: weighted_routes_def distinct_map_filter)
qed

text \<open>One choice among the remembered routes is a step of the weighted choice.\<close>

lemma choose_route_step:
  assumes ok: "history_ok h" and ne: "weighted_routes h \<noteq> []"
  defines "p \<equiv> route_pick (route_rid h) (weighted_routes h) (route_weight h) (route_value h)"
  shows "\<exists>h'. choose_route h = (Inr p, h') \<and> history_ok h' \<and> map fst h' = map fst h \<and> route_weight h' = route_weight h \<and> route_rid h' = route_rid h
    \<and> weighted_routes h' = weighted_routes h
    \<and> route_value h' = choice_step (route_pick (route_rid h)) (weighted_routes h) (route_weight h) (route_value h)"
proof -
  let ?f = "filter (\<lambda>x. rr_weight (snd x) \<noteq> 0) h" and ?W = "total_weight (route_weight h) (weighted_routes h)"
  have f: "?f \<noteq> []" "\<forall>x \<in> set ?f. 0 < rr_weight (snd x)" using ne by (auto simp: weighted_routes_def)
  obtain y where y: "y \<in> set ?f" "route_scan ?f (0, None) = (sum_list (map (\<lambda>x. rr_weight (snd x)) ?f), Some (y, route_val (snd y)))"
    using route_scan_all [OF f] by blast
  have p: "p = fst y" using y(2) by (simp add: p_def route_pick_def routes_as_map [OF ok, symmetric] case_prod_beta)
  have W: "sum_list (map (\<lambda>x. rr_weight (snd x)) ?f) = ?W" by (subst routes_as_map [OF ok]) (simp add: total_weight_def o_def)
  let ?h = "map (advance_route p ?W) h"
  have c: "choose_route h = (Inr p, ?h)" using y(2) p W route_scan_filter [of h "(0, None)"] by (simp add: choose_route_def case_prod_beta)
  have "route_weight ?h = route_weight h" "route_rid ?h = route_rid h"
    by (auto simp: fun_eq_iff route_weight_def route_rid_def advance_lookup advance_route_def Let_def split: option.split)
  moreover have "weighted_routes ?h = weighted_routes h"
    by (auto simp: weighted_routes_def filter_map o_def advance_route_def case_prod_beta Let_def)
  moreover have "route_value ?h = choice_step (route_pick (route_rid h)) (weighted_routes h) (route_weight h) (route_value h)"
  proof
    fix k
    have "p \<in> set (weighted_routes h)" using y(1) p by (auto simp: weighted_routes_def)
    then show "route_value ?h k = choice_step (route_pick (route_rid h)) (weighted_routes h) (route_weight h) (route_value h) k"
      unfolding choice_step_def weighted_routes_sub(1) [OF ok] p_def [symmetric]
      by (cases "map_of h k") (auto simp: route_value_def advance_lookup advance_route_def Let_def route_weight_def)
  qed
  moreover have "history_ok ?h" using choose_route_ok [OF ok] c by simp
  ultimately show ?thesis using c by auto
qed

end
