(* ===== verification/Dealer_Contract.thy ===== *)
theory Dealer_Contract
  imports Dealer_Safety
begin

section \<open>What a DEALER socket promises\<close>

text \<open>
  The properties of \<open>sockets/dealer/dealer.cpp\<close> over the lemmas of \<open>Dealer_Safety\<close>, with pipes that are one list of tagged frames to run
  them on.
\<close>

subsection \<open>Reachable states\<close>

text \<open>The calls of a DEALER socket in any order. A pipe that is attached is new, one that becomes writable is attached;
  \<open>D_env\<close> is everything that happens in the pipes meanwhile.\<close>

inductive dealer_reach :: "('p, 'w) dealer_ops \<Rightarrow> 'p dealer \<Rightarrow> 'w \<Rightarrow> bool" for ops where
  D_init: "dealer_reach ops dealer_init w"
| D_env: "dealer_reach ops s w \<Longrightarrow> dealer_reach ops s w'"
| D_attach: "dealer_reach ops s w \<Longrightarrow> p \<notin> dealer_pipes s \<Longrightarrow> dealer_attach_pipe ops p s w = Some (s', w') \<Longrightarrow> dealer_reach ops s' w'"
| D_weight: "dealer_reach ops s w \<Longrightarrow> accept_peer_weight ops p weight s w = Some (s', w') \<Longrightarrow> dealer_reach ops s' w'"
| D_readable: "dealer_reach ops s w \<Longrightarrow> dealer_read_activated p s = Some s' \<Longrightarrow> dealer_reach ops s' w"
| D_unreadable: "dealer_reach ops s w \<Longrightarrow> dealer_read_deactivated p s = Some s' \<Longrightarrow> dealer_reach ops s' w"
| D_writable: "dealer_reach ops s w \<Longrightarrow> p \<in> dealer_pipes s \<Longrightarrow> dealer_write_activated p s = Some s' \<Longrightarrow> dealer_reach ops s' w"
| D_terminated: "dealer_reach ops s w \<Longrightarrow> dealer_pipe_terminated p s = Some s' \<Longrightarrow> dealer_reach ops s' w"
| D_option: "dealer_reach ops s w \<Longrightarrow> dealer_setsockopt opt val s = Inr s' \<Longrightarrow> dealer_reach ops s' w"
| D_send: "dealer_reach ops s w \<Longrightarrow> dealer_send ops m observer s w = Some (rc, s', w') \<Longrightarrow> dealer_reach ops s' w'"
| D_send_routed: "dealer_reach ops s w \<Longrightarrow> dealer_send_routed ops rid m conn pair_id generation observer s w = Some (c, rc, s', w')
    \<Longrightarrow> dealer_reach ops s' w'"
| D_send_selected: "dealer_reach ops s w \<Longrightarrow> send_selected_pipe ops pipe m sndmore request_only observer s w = Some (rc, s', w')
    \<Longrightarrow> dealer_reach ops s' w'"
| D_select_pipe: "dealer_reach ops s w \<Longrightarrow> select_submit_pipe ops request_only s w = (r, s') \<Longrightarrow> dealer_reach ops s' w"
| D_select_target: "dealer_reach ops s w \<Longrightarrow> select_routed_submit_target ops given s w = (r, s') \<Longrightarrow> dealer_reach ops s' w"
| D_select_request: "dealer_reach ops s w \<Longrightarrow> select_request_submit_target ops given s w = (r, s') \<Longrightarrow> dealer_reach ops s' w"
| D_commit: "dealer_reach ops s w \<Longrightarrow> commit_request_submit_pipe ops p s = (r, s') \<Longrightarrow> dealer_reach ops s' w"
| D_forget: "dealer_reach ops s w \<Longrightarrow> dealer_reach ops (forget_request_route_endpoint endpoint s) w"
| D_recv: "dealer_reach ops s w \<Longrightarrow> dealer_recvpipe ops mem s w = Some (r, s', w') \<Longrightarrow> dealer_reach ops s' w'"
| D_has_in: "dealer_reach ops s w \<Longrightarrow> dealer_has_in ops s w = Some (b, s', w') \<Longrightarrow> dealer_reach ops s' w'"
| D_has_out: "dealer_reach ops s w \<Longrightarrow> dealer_has_out ops s w = Some (b, s', w') \<Longrightarrow> dealer_reach ops s' w'"
| D_rollback: "dealer_reach ops s w \<Longrightarrow> dealer_rollback ops s w = (s', w') \<Longrightarrow> dealer_reach ops s' w'"

lemma serves_some: "serves r s \<Longrightarrow> r = Some (x, s', w') \<Longrightarrow> dealer_ok s'"
  by (simp add: serves_def)

lemma kept_some: "dealer_keeps r P \<Longrightarrow> r = Some (s', w') \<Longrightarrow> dealer_ok s'"
  by (simp add: dealer_keeps_def)

lemma dealer_option_ok: "dealer_ok s \<Longrightarrow> dealer_setsockopt opt val s = Inr s' \<Longrightarrow> dealer_ok s'"
  by (auto simp: dealer_setsockopt_def dealer_ok_def split: dealer_option.splits option.splits if_splits)

lemma dealer_reach_ok: "dealer_reach ops s w \<Longrightarrow> dealer_ok s"
proof (induction rule: dealer_reach.induct)
  case (D_attach s w p s' w')
  show ?case by (rule kept_some [OF dealer_attach_ok [OF D_attach.IH D_attach.hyps(2)] D_attach.hyps(3)])
next
  case (D_weight s w p weight s' w')
  show ?case by (rule kept_some [OF apply_weight_ok(2) [OF D_weight.IH] D_weight.hyps(2)])
next
  case (D_readable s w p s')
  then show ?case using dealer_activity_ok(1) [of s p] by auto
next
  case (D_unreadable s w p s')
  then show ?case using dealer_activity_ok(2) [of s p] by auto
next
  case (D_writable s w p s')
  then show ?case using dealer_activity_ok(3) [of s p] by auto
next
  case (D_terminated s w p s')
  then show ?case using dealer_activity_ok(4) [of s p] by auto
next
  case (D_send s w m observer rc s' w')
  show ?case by (rule serves_some [OF dealer_send_ok(1) [OF D_send.IH] D_send.hyps(2)])
next
  case (D_send_routed s w rid m conn pair_id generation observer c rc s' w')
  then show ?case using send_routed_ok [of s ops rid m conn pair_id generation observer w] by auto
next
  case (D_send_selected s w pipe m sndmore request_only observer rc s' w')
  show ?case by (rule serves_some [OF send_selected_ok [OF D_send_selected.IH] D_send_selected.hyps(2)])
next
  case (D_select_pipe s w request_only r s')
  show ?case by (rule select_submit_ok(1) [OF D_select_pipe.IH D_select_pipe.hyps(2)])
next
  case (D_select_target s w given r s')
  then show ?case using select_target_ok(1) [of s ops given w] by simp
next
  case (D_select_request s w given r s')
  then show ?case using select_target_ok(2) [of s ops given w] by simp
next
  case (D_commit s w p r s')
  then show ?case using remember_ok(2) by (auto simp: commit_request_submit_pipe_def split: if_splits)
next
  case (D_forget s w endpoint)
  then show ?case using history_erase_ok by (simp add: dealer_ok_def forget_request_route_endpoint_def)
next
  case (D_recv s w mem r s' w')
  show ?case by (rule serves_some [OF dealer_recv_ok(1) [OF D_recv.IH] D_recv.hyps(2)])
next
  case (D_has_in s w b s' w')
  show ?case by (rule serves_some [OF dealer_recv_ok(2) [OF D_has_in.IH] D_has_in.hyps(2)])
next
  case (D_has_out s w b s' w')
  show ?case by (rule serves_some [OF dealer_send_ok(3) [OF D_has_out.IH] D_has_out.hyps(2)])
next
  case (D_rollback s w s' w')
  then show ?case using dealer_rollback_ok [of s ops w] by simp
qed (simp_all add: dealer_init_ok dealer_option_ok)

subsection \<open>A socket to run on\<close>

text \<open>Frames for pipe \<open>p\<close> are tagged \<open>100 + p\<close>; pipe 4 has a single lane whose head is a reply while its queue is empty. All peers
  are routers; their endpoints and routing ids are their numbers.\<close>

definition tagged_frame :: "nat \<Rightarrow> (nat \<times> msg) list \<Rightarrow> msg option \<times> (nat \<times> msg) list" where
  "tagged_frame p w = (case find (\<lambda>x. fst x = p) w of None \<Rightarrow> (None, w) | Some x \<Rightarrow> (Some (snd x), remove1 x w))"

definition demo_dealer :: "(nat, (nat \<times> msg) list) dealer_ops" where
  "demo_dealer =
     \<lparr>do_fq = \<lparr>fo_read = tagged_frame, fo_admit = (\<lambda>p w. (Missed, w)), fo_candidate = (\<lambda>_ _. True),
        fo_check_read = (\<lambda>p w. (find (\<lambda>x. fst x = p) w \<noteq> None, w)), fo_discard = (\<lambda>p w. (Nothing None, w))\<rparr>,
      do_lb = \<lparr>lo_write = (\<lambda>_ p m w. (Written, w @ [(100 + p, m)])), lo_rollback = (\<lambda>p w. w), lo_check_write = (\<lambda>p w. (True, w)),
        lo_admission = (\<lambda>p w. (Adm_ready, w)), lo_routing_id = (\<lambda>p. [of_nat p]), lo_endpoint = (\<lambda>p. [of_nat p]), lo_pair = (\<lambda>p. (1, 1))\<rparr>,
      do_probe = (\<lambda>p w. w), do_recorded_weight = (\<lambda>p w. None), do_weight_lane = (\<lambda>p w. True), do_local_weight = 100,
      do_send_weight = (\<lambda>p w. w), do_weight_changed = (\<lambda>p v w. w), do_lifecycle_active = (\<lambda>p w. True), do_connection_id = (\<lambda>p w. 7),
      do_application_ready = (\<lambda>p w. True), do_router_peer = (\<lambda>p. True), do_single_lane = (\<lambda>p w. (p = 4, w)),
      do_head = (\<lambda>p w. (if find (\<lambda>x. fst x = p) w = None then Head_reply else Head_data, w)), do_terminate = (\<lambda>p w. w),
      do_private_head = (\<lambda>p w. w)\<rparr>"

definition dealer_frame :: msg where "dealer_frame = (msg_init :: msg)\<lparr>msg_data := [7]\<rparr>"

definition connected_dealer :: "nat dealer" where
  "connected_dealer = fst (the (dealer_attach_pipe demo_dealer 4 dealer_init []))"

lemma connected_dealer_ok:
  "\<exists>w. dealer_attach_pipe demo_dealer 4 dealer_init [] = Some (connected_dealer, w)" "dealer_ok connected_dealer" "dealer_pipes connected_dealer = {4}"
proof -
  have e: "dealer_pipes (dealer_init :: nat dealer) = {}" by (simp add: dealer_init_def lb_init_def)
  then obtain s w where s: "dealer_attach_pipe demo_dealer 4 dealer_init [] = Some (s, w)" "dealer_ok s" "dealer_pipes s = {4}"
    using dealer_attach_ok [OF dealer_init_ok, of 4 demo_dealer "[]"] unfolding dealer_keeps_def by auto
  then have "connected_dealer = s" by (simp add: connected_dealer_def)
  with s show "\<exists>w. dealer_attach_pipe demo_dealer 4 dealer_init [] = Some (connected_dealer, w)" "dealer_ok connected_dealer" "dealer_pipes connected_dealer = {4}"
    by simp_all
qed

subsection \<open>Calls\<close>

text \<open>C37: In every state a DEALER socket can reach, whatever the order of its calls and whatever the pipes answer, the fair queue and the
  load balancer hold the same pipes, what the fair queue publishes in a pipe agrees with its own state, the remembered routes are an ordered
  map without an empty endpoint, and every call returns: attaching a new pipe, accepting a weight, the activations, the end of a pipe, every
  way of sending, receiving, and the probes.\<close>

theorem dealer_calls_return:
  assumes "dealer_reach ops s w"
  shows "dealer_ok s \<and> (p \<notin> dealer_pipes s \<longrightarrow> dealer_attach_pipe ops p s w \<noteq> None) \<and> accept_peer_weight ops p weight s w \<noteq> None
    \<and> dealer_read_activated p s \<noteq> None \<and> dealer_read_deactivated p s \<noteq> None
    \<and> (p \<in> dealer_pipes s \<longrightarrow> dealer_write_activated p s \<noteq> None \<and> (fq_public (dl_fq s) p \<longleftrightarrow> p \<in> fq_live (dl_fq s)))
    \<and> dealer_pipe_terminated p s \<noteq> None \<and> dealer_send ops m observer s w \<noteq> None
    \<and> dealer_send_routed ops rid m conn pair_id generation observer s w \<noteq> None
    \<and> dealer_send_configured_endpoint ops endpoint m sndmore request_only observer s w \<noteq> None
    \<and> dealer_recvpipe ops mem s w \<noteq> None \<and> dealer_has_in ops s w \<noteq> None \<and> dealer_has_out ops s w \<noteq> None"
proof -
  have ok: "dealer_ok s" by (rule dealer_reach_ok [OF assms])
  have sv: "serves r s \<Longrightarrow> r \<noteq> None" for r :: "('r \<times> 'a dealer \<times> 'c) option" by (auto simp: serves_def)
  have kp: "dealer_keeps r P \<Longrightarrow> r \<noteq> None" for r :: "('a dealer \<times> 'b) option" and P by (auto simp: dealer_keeps_def)
  have "dealer_send ops m observer s w \<noteq> None" "dealer_has_out ops s w \<noteq> None" "dealer_recvpipe ops mem s w \<noteq> None" "dealer_has_in ops s w \<noteq> None"
    "dealer_send_configured_endpoint ops endpoint m sndmore request_only observer s w \<noteq> None"
    using dealer_send_ok(1,3) [OF ok] dealer_recv_ok [OF ok] send_selected_ok [OF ok] unfolding dealer_send_configured_endpoint_def serves_def
    by (metis option.distinct(1))+
  moreover have "accept_peer_weight ops p weight s w \<noteq> None" by (rule kp [OF apply_weight_ok(2) [OF ok]])
  moreover have "p \<notin> dealer_pipes s \<Longrightarrow> dealer_attach_pipe ops p s w \<noteq> None" by (rule kp [OF dealer_attach_ok [OF ok]])
  moreover have "dealer_read_activated p s \<noteq> None" "dealer_read_deactivated p s \<noteq> None" "dealer_pipe_terminated p s \<noteq> None"
    "p \<in> dealer_pipes s \<Longrightarrow> dealer_write_activated p s \<noteq> None" using dealer_activity_ok [OF ok, of p] by auto
  moreover have "dealer_send_routed ops rid m conn pair_id generation observer s w \<noteq> None" using send_routed_ok [OF ok] by (metis option.distinct(1))
  ultimately show ?thesis using ok public_live [OF ok, of p] by blast
qed

theorem dealer_calls_return_witness:
  "dealer_ok connected_dealer \<and> dealer_recvpipe demo_dealer True connected_dealer [(4, dealer_frame)] \<noteq> None
     \<and> dealer_send demo_dealer dealer_frame False connected_dealer [(4, dealer_frame)] \<noteq> None \<and> dealer_write_activated 4 connected_dealer \<noteq> None"
proof -
  have "4 \<notin> dealer_pipes (dealer_init :: nat dealer)" by (simp add: dealer_init_def lb_init_def)
  moreover obtain w where "dealer_attach_pipe demo_dealer 4 dealer_init [] = Some (connected_dealer, w)" using connected_dealer_ok(1) by blast
  ultimately have "dealer_reach demo_dealer connected_dealer [(4, dealer_frame)]" by (rule D_env [OF D_attach [OF D_init]])
  from dealer_calls_return [OF this, of 4 0 dealer_frame False] show ?thesis using connected_dealer_ok(3) by auto
qed

subsection \<open>Heads\<close>

text \<open>C39: After a complete message was received from a pipe with a single lane, the pipe takes part in the next receive exactly if what
  is at its head now is meant for the application. A head that is for the socket itself, an empty pipe and a malformed one are withheld from
  the fair queue, so the application never receives them; the other pipes keep their turn.\<close>

theorem head_decides_turn:
  assumes "dealer_ok s" and "recvpipe_internal (do_fq ops) mem False (dl_fq s) w = Some (Inr (m, p), q, w1)" and "\<not> has_more m"
    and "do_single_lane ops p w1 = (True, w2)"
  shows "\<exists>s' w'. dealer_recvpipe ops mem s w = Some (Inr (m, p), s', w') \<and> dealer_ok s'
    \<and> (p \<in> fq_live (dl_fq s') \<longleftrightarrow> public_head (fst (do_head ops p w2)))
    \<and> fq_live (dl_fq s') - {p} = fq_live q - {p}"
proof -
  obtain r q' w' where r: "recvpipe_internal (do_fq ops) mem False (dl_fq s) w = Some (r, q', w')" "dealer_ok (s\<lparr>dl_fq := q'\<rparr>)"
    "\<forall>m p. r = Inr (m, p) \<longrightarrow> p \<in> dealer_pipes s" by (rule dealer_read_ok [OF assms(1)])
  then have q: "dealer_ok (s\<lparr>dl_fq := q\<rparr>)" "p \<in> dealer_pipes (s\<lparr>dl_fq := q\<rparr>)" using assms(2) by auto
  from reclassify_ok [OF q, of ops w1] obtain s' w' where s': "reclassify_head ops p (s\<lparr>dl_fq := q\<rparr>) w1 = Some (s', w')" "dealer_ok s'"
      "fq_live (dl_fq s') = (if public_head (fst (do_head ops p w2)) then insert p (fq_live q) else fq_live q - {p})"
    using assms(4) by auto
  then show ?thesis using assms(2,3) by (auto simp: dealer_recvpipe_def Let_def)
qed

theorem head_decides_turn_witness:
  "\<exists>s' w'. dealer_recvpipe demo_dealer True connected_dealer [(4, dealer_frame)] = Some (Inr (dealer_frame, 4), s', w') \<and> 4 \<notin> fq_live (dl_fq s')"
proof -
  have r: "map_option (\<lambda>(r, q, w). (r, w)) (recvpipe_internal (do_fq demo_dealer) True False (dl_fq connected_dealer) [(4, dealer_frame)])
      = Some (Inr (dealer_frame, 4), [])" and m: "\<not> has_more dealer_frame" by code_simp+
  then obtain q where q: "recvpipe_internal (do_fq demo_dealer) True False (dl_fq connected_dealer) [(4, dealer_frame)] = Some (Inr (dealer_frame, 4), q, [])"
    by auto
  have "do_single_lane demo_dealer 4 [] = (True, [])" "fst (do_head demo_dealer 4 []) = Head_reply" by (simp_all add: demo_dealer_def)
  with head_decides_turn [OF connected_dealer_ok(2) q m, of "[]"] show ?thesis by (auto simp: public_head_def)
qed

subsection \<open>Requests while no router is connected\<close>

text \<open>Choosing a target again and again.\<close>

fun request_targets :: "('p, 'w) dealer_ops \<Rightarrow> nat \<Rightarrow> 'p dealer \<Rightarrow> 'w \<Rightarrow> (errno + byte list) list \<times> 'p dealer" where
  "request_targets ops 0 s w = ([], s)"
| "request_targets ops (Suc n) s w =
     (let (r, s) = select_request_submit_target ops False s w; (rs, s) = request_targets ops n s w in (r # rs, s))"

definition no_router :: "('p, 'w) dealer_ops \<Rightarrow> 'p dealer \<Rightarrow> 'w \<Rightarrow> bool" where
  "no_router ops s w \<longleftrightarrow> (\<forall>p \<in> dealer_pipes s. request_submit_candidate ops w p \<longrightarrow> lb_weight p (dl_lb s) = 0)"

lemma no_router_target:
  assumes "no_router ops s w"
  shows "select_request_submit_target ops False s w
    = (fst (choose_route (dl_request_route_history s)), s\<lparr>dl_request_route_history := snd (choose_route (dl_request_route_history s))\<rparr>)"
proof -
  have "filter (\<lambda>p. 0 < lb_weight p (dl_lb s) \<and> request_submit_candidate ops w p) (lb_items (dl_lb s)) = []"
    using assms by (auto simp: no_router_def filter_empty_conv)
  then have "\<exists>e. select_submit_pipe ops True s w = (Inl e, s)"
    by (simp add: select_submit_pipe_def select_connected_pipe_def submit_candidate_def Let_def)
  then show ?thesis by (auto simp: select_request_submit_target_def case_prod_beta)
qed

lemma request_targets_run:
  assumes "no_router ops s w" "history_ok (dl_request_route_history s)" "weighted_routes (dl_request_route_history s) \<noteq> []"
  defines "H \<equiv> dl_request_route_history s"
  shows "\<exists>h. request_targets ops n s w
      = (map Inr (fst (choice_run (route_pick (route_rid H)) (weighted_routes H) (route_weight H) n (route_value H))), s\<lparr>dl_request_route_history := h\<rparr>)
    \<and> map fst h = map fst H \<and> route_weight h = route_weight H \<and> route_rid h = route_rid H
    \<and> route_value h = snd (choice_run (route_pick (route_rid H)) (weighted_routes H) (route_weight H) n (route_value H))"
  using assms(1-3) unfolding H_def
proof (induction n arbitrary: s)
  case (Suc n)
  let ?H = "dl_request_route_history s"
  obtain h where h: "choose_route ?H = (Inr (route_pick (route_rid ?H) (weighted_routes ?H) (route_weight ?H) (route_value ?H)), h)" "history_ok h"
      "map fst h = map fst ?H" "route_weight h = route_weight ?H" "route_rid h = route_rid ?H" "weighted_routes h = weighted_routes ?H"
      "route_value h = choice_step (route_pick (route_rid ?H)) (weighted_routes ?H) (route_weight ?H) (route_value ?H)"
    using choose_route_step [OF Suc.prems(2,3)] by blast
  let ?s = "s\<lparr>dl_request_route_history := h\<rparr>"
  have "no_router ops ?s w" using Suc.prems(1) by (simp add: no_router_def)
  from Suc.IH [OF this] h(2,6) Suc.prems(3) obtain h' where h': "request_targets ops n ?s w
      = (map Inr (fst (choice_run (route_pick (route_rid h)) (weighted_routes h) (route_weight h) n (route_value h))), ?s\<lparr>dl_request_route_history := h'\<rparr>)"
      "map fst h' = map fst h" "route_weight h' = route_weight h" "route_rid h' = route_rid h"
      "route_value h' = snd (choice_run (route_pick (route_rid h)) (weighted_routes h) (route_weight h) n (route_value h))" by auto
  show ?case using h h' no_router_target [OF Suc.prems(1)] by (auto simp: Let_def case_prod_beta)
next
  case 0
  then show ?case by (intro exI [of _ "dl_request_route_history s"]) simp
qed

lemma choice_run_other: "p \<notin> set cs \<Longrightarrow> snd (choice_run pick cs wt n v) p = v p"
  by (induction n arbitrary: v) (auto simp: choice_step_def Let_def case_prod_beta)

lemma history_as_map:
  assumes "distinct (map fst h)"
  shows "h = map (\<lambda>k. (k, \<lparr>rr_peer_rid = route_rid h k, rr_weight = route_weight h k, rr_running_value = route_value h k\<rparr>)) (map fst h)"
proof -
  have "map_of h (fst x) = Some (snd x)" if "x \<in> set h" for x using assms that by simp
  then show ?thesis by (intro nth_equalityI) (auto simp: route_rid_def route_weight_def route_value_def prod_eq_iff)
qed

lemma history_total:
  assumes "history_ok h"
  shows "sum_list (map (\<lambda>x. rr_weight (snd x)) h) = total_weight (route_weight h) (weighted_routes h)"
proof -
  have "sum_list (map (\<lambda>x. rr_weight (snd x)) h) = sum_list (map (\<lambda>x. rr_weight (snd x)) (filter (\<lambda>x. rr_weight (snd x) \<noteq> 0) h))"
    by (rule sum_list_map_filter [symmetric]) simp
  also have "\<dots> = total_weight (route_weight h) (weighted_routes h)" by (subst routes_as_map [OF assms]) (simp add: total_weight_def o_def)
  finally show ?thesis .
qed

text \<open>A full round among fresh routes: exact counts, and all values are zero again.\<close>

lemma full_round:
  assumes ok: "history_ok h" and ne: "weighted_routes h \<noteq> []" and z: "\<And>k. route_value h k = 0"
    and run: "choice_run (route_pick rid) (weighted_routes h) (route_weight h) (n * total_weight (route_weight h) (weighted_routes h)) (route_value h) = (ks, v')"
  shows "count_list ks k = n * route_weight h k" "v' k = 0"
proof -
  let ?cs = "weighted_routes h"
  note wr = weighted_routes_sub [OF ok]
  have pos: "\<forall>k \<in> set ?cs. 0 < route_weight h k" using wr(1) by simp
  then have "0 < total_weight (route_weight h) ?cs" using ne by (cases ?cs) (auto simp: total_weight_def)
  then have sub: "set ks \<subseteq> set ?cs" using routes.run_law [OF wr(2) ne pos _ _ run] z by simp
  show "count_list ks k = n * route_weight h k"
    using routes.run_exact [OF wr(2) ne pos _ run, of k] sub wr(1) z by (cases "k \<in> set ?cs") (auto simp: count_list_0_iff)
  show "v' k = 0"
    using routes.run_exact [OF wr(2) ne pos _ run, of k] choice_run_other [of k ?cs] run z by (cases "k \<in> set ?cs") (simp, metis snd_conv)
qed

text \<open>C38: While no router is connected, requests are spread over the remembered endpoints exactly by weight. Starting from fresh routes, of which at
  least one has a weight, choosing a target as often as the weights sum up to, or any multiple \<open>n\<close> of that, succeeds every time,
  picks each endpoint exactly \<open>n\<close> times its weight (one of weight zero never), and leaves the socket exactly as it was.\<close>

theorem offline_targets_by_weight:
  assumes "dealer_ok s" and "no_router ops s w" and "\<exists>x \<in> set (dl_request_route_history s). rr_weight (snd x) \<noteq> 0"
    and "\<forall>x \<in> set (dl_request_route_history s). rr_running_value (snd x) = 0"
  shows "\<exists>ks. request_targets ops (n * sum_list (map (\<lambda>x. rr_weight (snd x)) (dl_request_route_history s))) s w = (map Inr ks, s)
    \<and> (\<forall>x \<in> set (dl_request_route_history s). count_list ks (fst x) = n * rr_weight (snd x))"
proof -
  define H where "H = dl_request_route_history s"
  have ok: "history_ok H" using assms(1) by (simp add: dealer_ok_def H_def)
  note d = history_distinct [OF ok]
  have ne: "weighted_routes H \<noteq> []" using assms(3) by (auto simp: weighted_routes_def H_def filter_empty_conv)
  have z: "route_value H k = 0" for k using assms(4) by (auto simp: route_value_def H_def split: option.split dest!: map_of_SomeD)
  let ?N = "n * total_weight (route_weight H) (weighted_routes H)"
  obtain ks v' where run: "choice_run (route_pick (route_rid H)) (weighted_routes H) (route_weight H) ?N (route_value H) = (ks, v')" by (rule prod.exhaust)
  note full = full_round [OF ok ne z run]
  obtain h where h: "request_targets ops ?N s w = (map Inr ks, s\<lparr>dl_request_route_history := h\<rparr>)"
      "map fst h = map fst H" "route_weight h = route_weight H" "route_rid h = route_rid H" "route_value h = v'"
    using request_targets_run [OF assms(2), of ?N, folded H_def, OF ok ne] run by auto
  have "v' = route_value H" using full(2) z by (simp add: fun_eq_iff)
  then have "h = H" using history_as_map [of h] history_as_map [OF d] h(2-5) d by metis
  then have s: "s\<lparr>dl_request_route_history := h\<rparr> = s" by (simp add: H_def)
  have "count_list ks (fst x) = n * rr_weight (snd x)" if "x \<in> set H" for x
  proof -
    have "map_of H (fst x) = Some (snd x)" using d that by simp
    then show ?thesis using full(1) [of "fst x"] by (simp add: route_weight_def)
  qed
  then show ?thesis using h(1) s history_total [OF ok] by (auto simp: H_def)
qed

definition offline_dealer :: "nat dealer" where
  "offline_dealer = dealer_init\<lparr>dl_request_route_history :=
     [([97], \<lparr>rr_peer_rid = [1], rr_weight = 1, rr_running_value = 0\<rparr>), ([98], \<lparr>rr_peer_rid = [2], rr_weight = 2, rr_running_value = 0\<rparr>)]\<rparr>"

theorem offline_targets_by_weight_witness:
  "\<exists>ks. request_targets demo_dealer 6 offline_dealer [] = (map Inr ks, offline_dealer) \<and> count_list ks [97] = 2 \<and> count_list ks [98] = 4"
proof -
  have ok: "dealer_ok offline_dealer"
    unfolding offline_dealer_def by (rule dealer_ok_history [OF dealer_init_ok]) (simp add: history_ok_def)
  have "no_router demo_dealer offline_dealer []" by (simp add: no_router_def offline_dealer_def dealer_init_def lb_init_def)
  from offline_targets_by_weight [OF ok this, of 2] show ?thesis by (simp add: offline_dealer_def)
qed

end
