(* ===== verification/Pair.thy ===== *)
theory Pair
  imports Lb
begin

section \<open>The PAIR socket\<close>

text \<open>
  Models \<open>sockets/pair/pair.cpp\<close>: a socket with one peer. What its pipe does is a parameter (\<open>pair_ops\<close>); a loop that does not end is
  \<open>None\<close>. The hooks compiled for tests are left out.
\<close>

subsection \<open>State and pipe\<close>

record 'p pair =
  pa_pipe :: "'p option"
  pa_recv_part_index :: nat

text \<open>\<open>pr_write\<close> writes one frame, with a flush if its first argument is set.\<close>

record ('p, 'w) pair_ops =
  pr_write :: "bool \<Rightarrow> 'p \<Rightarrow> msg \<Rightarrow> 'w \<Rightarrow> write_result \<times> 'w"
  pr_write_record :: "'p \<Rightarrow> msg list \<Rightarrow> 'w \<Rightarrow> bool \<times> 'w"
  pr_rollback_incomplete :: "'p \<Rightarrow> 'w \<Rightarrow> bool \<times> 'w"
  pr_rollback :: "'p \<Rightarrow> 'w \<Rightarrow> 'w"
  pr_read :: "'p \<Rightarrow> 'w \<Rightarrow> msg option \<times> 'w"
  pr_retain :: "'p \<Rightarrow> 'w \<Rightarrow> bool \<times> 'w"
  pr_release :: "'p \<Rightarrow> 'w \<Rightarrow> 'w"
  pr_terminate :: "'p \<Rightarrow> 'w \<Rightarrow> 'w"
  pr_check_read :: "'p \<Rightarrow> 'w \<Rightarrow> bool \<times> 'w"
  pr_check_write :: "'p \<Rightarrow> 'w \<Rightarrow> bool \<times> 'w"

definition pair_init :: "'p pair" where "pair_init = \<lparr>pa_pipe = None, pa_recv_part_index = 0\<rparr>"

definition pair_attach_pipe :: "('p, 'w) pair_ops \<Rightarrow> 'p \<Rightarrow> 'p pair \<Rightarrow> 'w \<Rightarrow> 'p pair \<times> 'w" where
  "pair_attach_pipe ops p s w =
     (case pa_pipe s of
        None \<Rightarrow> (s\<lparr>pa_pipe := Some p\<rparr>, w)
      | Some q \<Rightarrow> (s, if q \<noteq> p then pr_terminate ops p w else w))"

definition pair_pipe_terminated :: "'p \<Rightarrow> 'p pair \<Rightarrow> 'p pair" where
  "pair_pipe_terminated p s = (if pa_pipe s = Some p then s\<lparr>pa_pipe := None, pa_recv_part_index := 0\<rparr> else s)"

subsection \<open>Sending\<close>

definition pair_send :: "('p, 'w) pair_ops \<Rightarrow> msg \<Rightarrow> 'p pair \<Rightarrow> 'w \<Rightarrow> 'p lb_rc \<times> 'p pair \<times> 'w" where
  "pair_send ops m s w =
     (case pa_pipe s of
        None \<Rightarrow> (Lb_failed EAGAIN Adm_inactive, s, w)
      | Some p \<Rightarrow>
          (case pr_write ops (\<not> has_more m) p m w of
             (Written, w) \<Rightarrow> (Lb_sent (Some p), s, w)
           | (Unwritten adm e, w) \<Rightarrow>
               let e = (if adm = Adm_too_large then e else EAGAIN); (aborted, w) = pr_rollback_incomplete ops p w in
               (if aborted then Lb_aborted e adm else Lb_failed e adm, s, w)))"

definition pair_try_send_complete_record :: "('p, 'w) pair_ops \<Rightarrow> msg list \<Rightarrow> 'p pair \<Rightarrow> 'w \<Rightarrow> bool \<times> 'p pair \<times> 'w" where
  "pair_try_send_complete_record ops parts s w =
     (if length parts < 2 then (False, s, w)
      else (case pa_pipe s of
              None \<Rightarrow> (False, s, w)
            | Some p \<Rightarrow> (case pr_write_record ops p parts w of (ok, w) \<Rightarrow> (ok, s, w))))"

definition pair_rollback :: "('p, 'w) pair_ops \<Rightarrow> 'p pair \<Rightarrow> 'w \<Rightarrow> 'p pair \<times> 'w" where
  "pair_rollback ops s w = (s, case pa_pipe s of None \<Rightarrow> w | Some p \<Rightarrow> pr_rollback ops p w)"

subsection \<open>Receiving\<close>

text \<open>Reading the rest of a rejected record from a pipe that is held alive.\<close>

partial_function (option) pair_drain :: "('p, 'w) pair_ops \<Rightarrow> 'p \<Rightarrow> bool \<Rightarrow> 'w \<Rightarrow> 'w option" where
  [code]: "pair_drain ops p unfinished w =
     (if \<not> unfinished then Some w
      else (case pr_read ops p w of (None, w) \<Rightarrow> Some w | (Some m, w) \<Rightarrow> pair_drain ops p (has_more m) w))"

definition pair_reject :: "('p, 'w) pair_ops \<Rightarrow> 'p \<Rightarrow> msg \<Rightarrow> 'w \<Rightarrow> 'w option" where
  "pair_reject ops p m w =
     (case pr_retain ops p w of
        (False, w) \<Rightarrow> Some w
      | (True, w) \<Rightarrow> map_option (\<lambda>w. pr_release ops p (pr_terminate ops p w)) (pair_drain ops p (has_more m) w))"

definition pair_recv :: "('p, 'w) pair_ops \<Rightarrow> 'p pair \<Rightarrow> 'w \<Rightarrow> ((errno + msg) \<times> 'p pair \<times> 'w) option" where
  "pair_recv ops s w =
     (case pa_pipe s of
        None \<Rightarrow> Some (Inl EAGAIN, s, w)
      | Some p \<Rightarrow>
          (case pr_read ops p w of
             (None, w) \<Rightarrow> Some (Inl EAGAIN, s, w)
           | (Some m, w) \<Rightarrow>
               if pa_recv_part_index s \<noteq> 0 \<and> fst (get_request_reply_metadata m)
               then map_option (\<lambda>w. (Inl EPROTO, s\<lparr>pa_recv_part_index := 0\<rparr>, w)) (pair_reject ops p m w)
               else
                 Some (Inr (if pa_recv_part_index s = 0 then reset_request_reply_metadata m else m),
                       s\<lparr>pa_recv_part_index := if has_more m then pa_recv_part_index s + 1 else 0\<rparr>, w)))"

definition pair_has_in :: "('p, 'w) pair_ops \<Rightarrow> 'p pair \<Rightarrow> 'w \<Rightarrow> bool \<times> 'w" where
  "pair_has_in ops s w = (case pa_pipe s of None \<Rightarrow> (False, w) | Some p \<Rightarrow> pr_check_read ops p w)"

definition pair_has_out :: "('p, 'w) pair_ops \<Rightarrow> 'p pair \<Rightarrow> 'w \<Rightarrow> bool \<times> 'w" where
  "pair_has_out ops s w = (case pa_pipe s of None \<Rightarrow> (False, w) | Some p \<Rightarrow> pr_check_write ops p w)"

end
