(* ===== verification/Pair_Contract.thy ===== *)
theory Pair_Contract
  imports Pair
begin

section \<open>What a PAIR socket promises\<close>

text \<open>
  The properties of \<open>sockets/pair/pair.cpp\<close>: its peer sees whole messages only, and receiving ends. What they need of the pipe is the
  predicate \<open>record_pipe\<close>, which holds of a pipe made of the complete messages and an unfinished one.
\<close>

subsection \<open>The pipe\<close>

text \<open>\<open>sent w\<close> are the complete messages the peer may read, \<open>part w\<close> the frames of an unfinished one. A refused frame leaves both as they
  were, and a rollback says whether there was something to throw away.\<close>

definition record_pipe :: "('p, 'w) pair_ops \<Rightarrow> 'p \<Rightarrow> ('w \<Rightarrow> msg list list) \<Rightarrow> ('w \<Rightarrow> msg list) \<Rightarrow> bool" where
  "record_pipe ops p sent part \<longleftrightarrow>
     (\<forall>m w w'. pr_write ops False p m w = (Written, w') \<longrightarrow> part w' = part w @ [m] \<and> sent w' = sent w)
     \<and> (\<forall>m w w'. pr_write ops True p m w = (Written, w') \<longrightarrow> part w' = [] \<and> sent w' = sent w @ [part w @ [m]])
     \<and> (\<forall>b m w adm e w'. pr_write ops b p m w = (Unwritten adm e, w') \<longrightarrow> part w' = part w \<and> sent w' = sent w)
     \<and> (\<forall>w b w'. pr_rollback_incomplete ops p w = (b, w') \<longrightarrow> b = (part w \<noteq> []) \<and> part w' = [] \<and> sent w' = sent w)"

text \<open>Sending one frame after the other, and the messages made of accepted frames by the results of the calls: a failure throws
  the unfinished message away.\<close>

fun pair_sends :: "('p, 'w) pair_ops \<Rightarrow> msg list \<Rightarrow> 'p pair \<Rightarrow> 'w \<Rightarrow> 'p lb_rc list \<times> 'p pair \<times> 'w" where
  "pair_sends ops [] s w = ([], s, w)"
| "pair_sends ops (m # ms) s w =
     (let (rc, s, w) = pair_send ops m s w; (rcs, s, w) = pair_sends ops ms s w in (rc # rcs, s, w))"

fun whole :: "msg list \<Rightarrow> (msg \<times> 'p lb_rc) list \<Rightarrow> msg list list \<times> msg list" where
  "whole begun [] = ([], begun)"
| "whole begun ((m, rc) # rest) =
     (case rc of
        Lb_sent _ \<Rightarrow> if has_more m then whole (begun @ [m]) rest else apfst (Cons (begun @ [m])) (whole [] rest)
      | _ \<Rightarrow> whole [] rest)"

lemma pair_send_step:
  assumes rp: "record_pipe ops p sent part" and s: "pa_pipe s = Some p" and r: "pair_send ops m s w = (rc, s', w')"
  shows "s' = s"
    "case rc of
       Lb_sent q \<Rightarrow> q = Some p \<and> (if has_more m then part w' = part w @ [m] \<and> sent w' = sent w else part w' = [] \<and> sent w' = sent w @ [part w @ [m]])
     | Lb_failed e adm \<Rightarrow> part w = [] \<and> part w' = [] \<and> sent w' = sent w
     | Lb_aborted e adm \<Rightarrow> part w \<noteq> [] \<and> part w' = [] \<and> sent w' = sent w"
proof -
  note rp' = rp [unfolded record_pipe_def]
  obtain x w1 where x: "pr_write ops (\<not> has_more m) p m w = (x, w1)" by (rule prod.exhaust)
  obtain b w2 where b: "pr_rollback_incomplete ops p w1 = (b, w2)" by (rule prod.exhaust)
  show "s' = s" using s r x b by (auto simp: pair_send_def Let_def split: write_result.splits)
  show "case rc of
       Lb_sent q \<Rightarrow> q = Some p \<and> (if has_more m then part w' = part w @ [m] \<and> sent w' = sent w else part w' = [] \<and> sent w' = sent w @ [part w @ [m]])
     | Lb_failed e adm \<Rightarrow> part w = [] \<and> part w' = [] \<and> sent w' = sent w
     | Lb_aborted e adm \<Rightarrow> part w \<noteq> [] \<and> part w' = [] \<and> sent w' = sent w"
  proof (cases x)
    case Written
    then show ?thesis using rp' s r x by (cases "has_more m") (auto simp: pair_send_def)
  next
    case (Unwritten adm e)
    then have u: "part w1 = part w" "sent w1 = sent w" using rp' x by blast+
    have b': "b = (part w1 \<noteq> [])" "part w2 = []" "sent w2 = sent w1" using rp' b by blast+
    have "rc = (if b then Lb_aborted (if adm = Adm_too_large then e else EAGAIN) adm else Lb_failed (if adm = Adm_too_large then e else EAGAIN) adm)" "w' = w2"
      using r s x b Unwritten by (auto simp: pair_send_def Let_def)
    then show ?thesis using u b' by simp
  qed
qed

subsection \<open>Sending\<close>

lemma pair_sends_whole:
  assumes rp: "record_pipe ops p sent part" and s: "pa_pipe s = Some p"
  shows "pair_sends ops ms s w = (rcs, s', w') \<Longrightarrow>
    s' = s \<and> length rcs = length ms \<and> sent w' = sent w @ fst (whole (part w) (zip ms rcs)) \<and> part w' = snd (whole (part w) (zip ms rcs))"
proof (induction ms arbitrary: w rcs)
  case (Cons m ms)
  obtain rc s1 w1 where 1: "pair_send ops m s w = (rc, s1, w1)" by (metis surj_pair)
  note st = pair_send_step [OF rp s 1]
  obtain rcs2 where 2: "pair_sends ops ms s w1 = (rcs2, s', w')" "rcs = rc # rcs2"
    using Cons.prems 1 st(1) by (auto simp: Let_def split: prod.splits)
  show ?case using Cons.IH [OF 2(1)] 2(2) st(2) by (cases rc) (auto split: if_splits)
qed simp

text \<open>C40: The peer of a PAIR socket gets whole messages only. Whatever frames are sent, and whichever of them the pipe refuses, what the peer can
  read afterwards is what it could read before followed by exactly those messages all of whose frames were accepted one after the
  other: a refused frame takes back the frames of its message that were written already, so that the next message never continues an
  unfinished one. A failure says so: it is reported as an aborted message exactly when frames were taken back.\<close>

theorem pair_peer_sees_whole_messages:
  assumes "record_pipe ops p sent part" and "pa_pipe s = Some p" and "pair_sends ops ms s w = (rcs, s', w')"
  shows "s' = s \<and> sent w' = sent w @ fst (whole (part w) (zip ms rcs)) \<and> part w' = snd (whole (part w) (zip ms rcs))
    \<and> (\<forall>m rc s'' w''. pair_send ops m s w' = (rc, s'', w'') \<longrightarrow> (case rc of Lb_aborted _ _ \<Rightarrow> part w' \<noteq> [] | Lb_failed _ _ \<Rightarrow> part w' = [] | Lb_sent _ \<Rightarrow> True))"
proof -
  have "case rc of Lb_aborted _ _ \<Rightarrow> part w' \<noteq> [] | Lb_failed _ _ \<Rightarrow> part w' = [] | Lb_sent _ \<Rightarrow> True" if "pair_send ops m s w' = (rc, s'', w'')" for m rc s'' w''
    using pair_send_step(2) [OF assms(1,2) that] by (auto split: lb_rc.splits)
  then show ?thesis using pair_sends_whole [OF assms(1,2), of ms w rcs s' w'] assms(3) by blast
qed

text \<open>A pipe that refuses the frame with byte 9.\<close>

definition picky_pipe :: "(nat, msg list list \<times> msg list) pair_ops" where
  "picky_pipe =
     \<lparr>pr_write = (\<lambda>last p m (out, begun). if msg_data m = [9] then (Unwritten Adm_hwm_full EAGAIN, out, begun)
        else (Written, if last then (out @ [begun @ [m]], []) else (out, begun @ [m]))),
      pr_write_record = (\<lambda>p ms w. (False, w)), pr_rollback_incomplete = (\<lambda>p (out, begun). (begun \<noteq> [], out, [])),
      pr_rollback = (\<lambda>p (out, begun). (out, [])), pr_read = (\<lambda>p w. (None, w)), pr_retain = (\<lambda>p w. (True, w)), pr_release = (\<lambda>p w. w),
      pr_terminate = (\<lambda>p w. w), pr_check_read = (\<lambda>p w. (False, w)), pr_check_write = (\<lambda>p w. (True, w))\<rparr>"

definition pair_frame :: "byte \<Rightarrow> bool \<Rightarrow> msg" where
  "pair_frame x unfinished = (msg_init :: msg)\<lparr>msg_data := [x], msg_flags := if unfinished then 1 else 0\<rparr>"

lemma picky_record_pipe: "record_pipe picky_pipe p fst snd"
  by (auto simp: record_pipe_def picky_pipe_def split: if_splits)

theorem pair_peer_sees_whole_messages_witness:
  "fst (snd (snd (pair_sends picky_pipe [pair_frame 1 True, pair_frame 9 False, pair_frame 2 False] (pair_init\<lparr>pa_pipe := Some 4\<rparr>) ([], []))))
     = [[pair_frame 2 False]]"
proof -
  let ?ms = "[pair_frame 1 True, pair_frame 9 False, pair_frame 2 False]" and ?s = "pair_init\<lparr>pa_pipe := Some 4\<rparr> :: nat pair"
  obtain rcs s' w' where r: "pair_sends picky_pipe ?ms ?s ([], []) = (rcs, s', w')" by (metis surj_pair)
  have "rcs = [Lb_sent (Some 4), Lb_aborted EAGAIN Adm_hwm_full, Lb_sent (Some 4)]"
    using r by (simp add: pair_send_def picky_pipe_def pair_frame_def has_more_def msg_init_def)
  then have "fst (whole [] (zip ?ms rcs)) = [[pair_frame 2 False]]" by (simp add: pair_frame_def has_more_def msg_init_def)
  with pair_peer_sees_whole_messages [OF picky_record_pipe _ r] r show ?thesis by simp
qed

subsection \<open>Receiving\<close>

text \<open>Receiving returns as long as a read takes a frame out of a finite backlog; a frame inside a message that carries request
  metadata ends the message and its pipe.\<close>

lemma pair_drain_returns:
  assumes "\<And>w m w'. pr_read ops p w = (Some m, w') \<Longrightarrow> (backlog w' :: nat) < backlog w"
  shows "\<exists>w'. pair_drain ops p unfinished w = Some w'"
proof (induction "backlog w" arbitrary: unfinished w rule: less_induct)
  case less
  obtain m w1 where r: "pr_read ops p w = (m, w1)" by (rule prod.exhaust)
  show ?case
  proof (cases m)
    case (Some x)
    then have "backlog w1 < backlog w" using assms r by blast
    from less.hyps [OF this] show ?thesis using r Some by (subst pair_drain.simps) simp
  qed (use r in \<open>subst pair_drain.simps, simp\<close>)
qed

lemma pair_recv_returns:
  assumes "\<And>p w m w'. pr_read ops p w = (Some m, w') \<Longrightarrow> (backlog w' :: nat) < backlog w"
  shows "\<exists>r s' w'. pair_recv ops s w = Some (r, s', w') \<and> pa_pipe s' = pa_pipe s
    \<and> (case r of Inl e \<Rightarrow> e = EAGAIN \<and> s' = s \<or> e = EPROTO \<and> pa_recv_part_index s \<noteq> 0 \<and> pa_recv_part_index s' = 0
       | Inr m \<Rightarrow> (pa_recv_part_index s' \<noteq> 0) = has_more m)"
proof -
  have "\<exists>w'. pair_reject ops p m w = Some w'" for p m w
    using pair_drain_returns [of ops p backlog] assms by (fastforce simp: pair_reject_def split: prod.split bool.split)
  then show ?thesis
    by (fastforce simp: pair_recv_def reset_request_reply_metadata_def has_more_def split: option.split prod.split auxiliary.split)
qed

end
