(* ===== verification/Spec2Isabelle.thy ===== *)
theory Spec2Isabelle
  imports Zmp_Errors Control_Frames Mtrie Auto_Hwm Dist_Safety Ypipe_Runs Xpub_Contract Fq_Contract Lb_Contract Xsub_Contract Dealer_Contract Pair_Contract
begin

text \<open>
  Verification of the messaging core of zlink, the C++ library under \<open>src/core/src/runtime\<close>. All file names below are relative
  to that directory.

  \<^bold>\<open>The program.\<close> An application sends and receives messages (\<open>core/msg.cpp\<close>) through sockets. A socket owns pipes, one per
  peer; a pipe is a lock-free queue (\<open>core/ypipe.hpp\<close>) over a chunked one (\<open>core/yqueue.hpp\<close>). Sockets share a few building
  blocks: a fan-out to many pipes (\<open>sockets/internal/dist.cpp\<close>), a fair merge of many pipes (\<open>sockets/internal/fq.cpp\<close>), a weighted choice
  among pipes (\<open>sockets/internal/lb.cpp\<close>), all over arrays whose items know their position (\<open>utils/array.hpp\<close>), and two prefix trees of
  subscriptions (\<open>utils/trie.cpp\<close> for a subscriber, \<open>utils/generic_mtrie_impl.hpp\<close> for a publisher). The publisher and subscriber
  sockets of \<open>sockets/pubsub\<close> and the DEALER socket put these together. Towards a remote peer the engine turns messages into ZMP frames and back (\<open>protocol/\<close>),
  after a handshake of HELLO and READY frames with a property list. The memory the queues of a context may take is divided by
  \<open>core/auto_hwm_policy.cpp\<close>.

  \<^bold>\<open>How code becomes definitions.\<close> Classes are records, unions and enumerations datatypes, and each method is one executable definition
  with all its branches; a loop that is not structural is a \<open>function\<close> with a measure, or a \<open>partial_function\<close> on options. Machine
  words keep their width where they can wrap (codecs, the HWM policy, reference counts); counters that only count objects in memory are
  natural numbers. A reported error is the \<open>Inl\<close> of a sum. \<open>None\<close> is what must never happen: a failed assertion, an access outside an
  array or to memory that is not live, a NULL dereference, or a loop that does not end. So every theorem that says a call is
  not \<open>None\<close> says both that it is safe and that it returns. What belongs to other parts (what a pipe answers, what malloc returns, the callbacks
  of a session) is an argument; what is assumed of it is a named predicate (\<open>pipes_hold\<close>, \<open>takes_frames\<close>, \<open>asking_keeps\<close>, \<open>record_pipe\<close>) that the example pipes of
  the witnesses satisfy.

  \<^bold>\<open>The theories.\<close>

  \<^item> \<open>Prelude\<close>: words, errno values, big-endian bytes, list lemmas, the theorem collections.

  \<^item> \<open>Wire\<close> (\<open>protocol/wire.hpp\<close>): integers in network byte order. The contract of a codec is the locale \<open>be_codec\<close>, interpreted for 16, 32
  and 64 bits.

  \<^item> \<open>Msg\<close> (\<open>core/msg.hpp\<close>, the part without storage): flags, command bodies, request-reply metadata. \<open>Msg_Heap\<close> and \<open>Msg_Heap_Safety\<close> (\<open>core/msg.cpp\<close>): the
  representations of a payload in an explicit heap of reference counted blocks, views and long groups. The invariant \<open>heap_ok\<close> says that the
  live blocks are exactly the referenced ones and that counters are exact; every operation says which references it
  consumes and produces, and arbitrary programs are safe and leak nothing.

  \<^item> \<open>Zmp_Protocol\<close>, \<open>Zmp_Encoder\<close>, \<open>Zmp_Decoder\<close> (\<open>protocol/zmp_*.cpp\<close>, \<open>encoder.hpp\<close>, \<open>decoder.hpp\<close>): framing as the two state machines the code has.
  \<open>Zmp_Stream\<close> composes them: messages arrive as they were sent for every way of cutting the stream into buffers. \<open>Zmp_Decoder_Safety\<close>: bounds on
  arbitrary input, zero-copy input, retried admission. \<open>Zmp_Errors\<close>: the answer to every malformed header, independence of chunks,
  refused frames.

  \<^item> \<open>Zmp_Metadata\<close>, \<open>Zmp_Control\<close>, \<open>Control_Frames\<close> (\<open>zmp_metadata.hpp\<close>, \<open>zmp_control.hpp\<close>, \<open>zmp_peer_weight.hpp\<close>, \<open>core/flow_state_frame.hpp\<close>): the property list, HELLO
  and READY, WEIGHT and FLOWSTATE, each with its round trip. The two commands are instances of the locale \<open>command_codec\<close>, from which follows that
  they never collide.

  \<^item> \<open>Byte_Table\<close>, \<open>Trie\<close>, \<open>Trie_Apply\<close>, \<open>Mtrie\<close>: the child tables both trees share, seen as partial maps; the subscriber's tree, a refinement of a
  multiset of topics (locale \<open>prefix_store\<close>, interpreted for the plain and the counted tree) with the walk that visits each topic once; the publisher's
  tree, a refinement of a relation between topics and pipes (locale \<open>subscription_store\<close>).

  \<^item> \<open>Auto_Hwm\<close>: the budget, its division by water-filling, and that the result fits the budget, respects the limits of each role and leaves
  nothing useful over; saturation and overflow are part of the model.

  \<^item> \<open>Yqueue\<close>, \<open>Ypipe\<close>, \<open>Ypipe_Runs\<close>: the chunks in a store of live memory; the four pointers of the pipe; every interleaving of writer and
  reader, with the two accesses to the shared word in \<open>flush\<close> as separate steps. The pipe implements the locale \<open>fifo_channel\<close>. Atomic operations are taken
  to be sequentially consistent.

  \<^item> \<open>Pipe_Array\<close> (locale \<open>indexed_array\<close>), \<open>Dist\<close>, \<open>Dist_Safety\<close>: the nested prefixes of the distributor, its fan-out with the reference counts of
  \<open>Msg_Heap\<close>, and an inductive relation of reachable states in which no call fails.

  \<^item> \<open>Fq\<close>, \<open>Fq_Safety\<close>, \<open>Fq_Contract\<close>: records are never mixed, and a pipe with something to read is served before any other one twice.

  \<^item> \<open>Weighted_Choice\<close>, \<open>Lb\<close>, \<open>Lb_Safety\<close>, \<open>Lb_Contract\<close>: the weighted choice apart from the code (locale \<open>weighted_choice\<close>), the balancer as an instance of
  it, exact shares, and what happens to a record when a pipe ends.

  \<^item> \<open>Xpub\<close>, \<open>Xpub_Safety\<close>, \<open>Xpub_Contract\<close>: the publisher over \<open>Mtrie\<close>, \<open>Dist\<close> and \<open>Msg_Heap\<close>: requests and notifications, manual mode, the
  destinations of a record, admission.

  \<^item> \<open>Xsub\<close>, \<open>Xsub_Safety\<close>, \<open>Xsub_Contract\<close>: the subscriber over \<open>Trie\<close>, \<open>Fq\<close>, \<open>Dist\<close> and \<open>Msg_Heap\<close>: subscribing, filtering, receiving and probing
  with the skip budget, and that every call of a reachable socket returns.

  \<^item> \<open>Dealer\<close>, \<open>Dealer_Safety\<close>, \<open>Dealer_Contract\<close> (\<open>sockets/dealer/dealer.cpp\<close>): the DEALER socket over \<open>Fq\<close> and \<open>Lb\<close>, which hold the same pipes, the
  peer weights, and the remembered routes, a second instance of \<open>weighted_choice\<close>. The two base class methods that call back into it are modelled with it.

  \<^item> \<open>Pair\<close>, \<open>Pair_Contract\<close> (\<open>sockets/pair/pair.cpp\<close>): the socket with one peer, which sees whole messages only.

  \<^bold>\<open>Termination and bounds.\<close> No definition uses fuel. Loops over a structure have a measure (the work left at the cursors of a trie walk, the active
  prefix of the fair queue, the bytes left of a chunk). Loops that consume what other threads produce (\<open>skip_rest\<close>, \<open>xsub_recv_loop\<close>, \<open>drain_record\<close>, the
  send loops of the balancer) are partial functions; that they return is proved from the assumption that a read takes a frame out of a finite backlog
  (\<open>takes_frames\<close>), or from the shrinking set of active pipes. The assumption \<open>few\<close> says that fewer than $2^{32}$ references exist, the range of the
  reference counters.

  \<^bold>\<open>What the code does and should not.\<close> Modelling showed behaviour that contradicts the comments or the purpose of the code; each has a theorem with a
  concrete run: \<open>truncated_property_accepted\<close>, \<open>num_prefixes_drift\<close>, \<open>last_value_lost_on_retry\<close>, \<open>xread_notifies\<close>, \<open>bystander_cuts_record\<close>,
  \<open>sub_option_effect\<close> and \<open>skip_budget_hides_message\<close>.

  \<^bold>\<open>Not modelled.\<close> The pipe endpoint \<open>pipe_t\<close> with its credits, transport pairs and commands between threads; the base class of sockets with
  its blocking calls, timers and monitors; ROUTER and STREAM, the proxy, and the request-reply layer; contexts, threads, mailboxes and the
  registry that applies the HWM plan under locks; the Asio engine and the transports; option parsing; the C API; the bindings and the framework built on
  it. They are made of operating system and third-party calls, or of cross-thread protocols around the parts modelled here. Destructors that
  only free memory, counters and hooks for tests, and logging are left out everywhere. \<open>std::bad_alloc\<close> and weak memory orderings are outside the model.
\<close>

end
